(* ===== verification/Prelude.thy ===== *)
theory Prelude
  imports Main "HOL-Library.Word"
begin

text \<open>
  Shared vocabulary of the development: the machine integers of the firmware, the Arduino byte
  macros, C's \<^verbatim>\<open>memcpy\<close> into a fixed buffer, C's truncating division, and linked lists reached
  through pointers into a heap of objects. Every component theory imports this one.

  \<^item> \<open>byte\<close>, \<open>u16\<close> and \<open>u32\<close> are \<^verbatim>\<open>uint8_t\<close>/\<^verbatim>\<open>byte\<close>, \<^verbatim>\<open>uint16_t\<close> and \<^verbatim>\<open>uint32_t\<close>; arithmetic on
    them wraps as it does in the firmware. A plain \<^verbatim>\<open>int\<close> (16 bits on AVR, 32 on ARM and
    ESP32) is HOL's \<open>int\<close>, converted to a word exactly where the code narrows it.
  \<^item> A pointer is an \<open>addr option\<close>, \<open>None\<close> being \<^verbatim>\<open>nullptr\<close>; a heap is a function from addresses
    to objects, and objects are allocated at consecutive addresses, so the number of
    allocated objects bounds the length of every chain.
  \<^item> \<open>walk\<close> is the loop \<^verbatim>\<open>for (p = head; p; p = p->next)\<close>: the addresses it visits, cut off after
    as many steps as there are objects. \<open>linked\<close> says that the chain ends and what it holds;
    \<open>linked_walk\<close> shows the cut-off is never reached on such a chain.
\<close>

unbundle bit_operations_syntax

type_synonym byte = "8 word"
type_synonym u16 = "16 word"
type_synonym u32 = "32 word"
type_synonym addr = nat
type_synonym ptr = "addr option"

named_theorems dcc_defs \<open>definitions that the component proofs unfold\<close>
named_theorems frame_simps \<open>which parts of the state an operation leaves alone\<close>

section \<open>Bytes\<close>

definition lowByte :: "'a::len word \<Rightarrow> byte" where
  "lowByte w = ucast w"

definition highByte :: "'a::len word \<Rightarrow> byte" where
  "highByte w = ucast (drop_bit 8 w)"

definition memcpy_into :: "byte list \<Rightarrow> byte list \<Rightarrow> nat \<Rightarrow> byte list" where
  "memcpy_into dest src n = take n src @ drop n dest"

definition trunc_div :: "int \<Rightarrow> int \<Rightarrow> int" where
  "trunc_div a b = sgn a * sgn b * (\<bar>a\<bar> div \<bar>b\<bar>)"

definition xor_all :: "byte list \<Rightarrow> byte" where
  "xor_all bs = fold (\<lambda>b acc. acc XOR b) bs 0"

lemma fold_xor_acc: "fold (\<lambda>b acc. acc XOR b) bs a = a XOR xor_all bs" for a :: byte
proof (induction bs arbitrary: a)
  case Nil
  then show ?case by (simp add: xor_all_def)
next
  case (Cons x xs)
  from Cons [of "a XOR x"] Cons [of "0 XOR x"] show ?case
    by (simp add: xor_all_def xor.assoc)
qed

lemma xor_all_append [simp]: "xor_all (xs @ ys) = xor_all xs XOR xor_all ys"
proof -
  have "xor_all (xs @ ys) = fold (\<lambda>b acc. acc XOR b) ys (xor_all xs)"
    by (simp add: xor_all_def)
  then show ?thesis by (simp only: fold_xor_acc)
qed

lemma xor_all_Cons [simp]: "xor_all (x # xs) = x XOR xor_all xs"
  using xor_all_append [of "[x]" xs] by (simp add: xor_all_def)

lemma xor_all_Nil [simp]: "xor_all [] = 0"
  by (simp add: xor_all_def)

lemma length_memcpy_into [simp]:
  "n \<le> length src \<Longrightarrow> n \<le> length dest \<Longrightarrow> length (memcpy_into dest src n) = length dest"
  by (simp add: memcpy_into_def)

lemma take_memcpy_into [simp]:
  "n \<le> length src \<Longrightarrow> take n (memcpy_into dest src n) = take n src"
  by (simp add: memcpy_into_def)

lemma trunc_div_nonneg: "0 \<le> a \<Longrightarrow> 0 < b \<Longrightarrow> trunc_div a b = a div b"
  by (cases "a = 0") (simp_all add: trunc_div_def)

lemma int_and_7F: "(x :: int) AND 127 = x mod 128"
  using take_bit_eq_mask [of 7 x] by (simp add: mask_eq_exp_minus_1 take_bit_eq_mod)

lemma int_and_80: "(x :: int) AND 128 \<noteq> 0 \<longleftrightarrow> odd (x div 128)"
  using and_exp_eq_0_iff_not_bit [of x 7] by (simp add: bit_iff_odd)

lemma uint_byte: "0 \<le> uint (b :: byte)" "uint (b :: byte) < 256"
  using uint_lt2p [of b] by simp_all

lemma and_7F: "uint (b AND 0x7F :: byte) = uint b mod 128"
  by (simp add: unsigned_and_eq int_and_7F)

lemma and_80: "(b AND 0x80 :: byte) \<noteq> 0 \<longleftrightarrow> 128 \<le> uint b"
proof -
  have "(b AND 0x80 :: byte) \<noteq> 0 \<longleftrightarrow> uint (b AND 0x80) \<noteq> 0"
    using word_uint_eq_iff [of "b AND 0x80" 0] by (simp only: unsigned_0)
  also have "\<dots> \<longleftrightarrow> odd (uint b div 128)" by (simp only: unsigned_and_eq) (simp add: int_and_80)
  also have "\<dots> \<longleftrightarrow> 128 \<le> uint b" using uint_byte [of b] by presburger
  finally show ?thesis .
qed

lemma int_or_80: "0 \<le> k \<Longrightarrow> k < 128 \<Longrightarrow> (k :: int) OR 128 = k + 128"
proof -
  assume k: "0 \<le> k" "k < 128"
  have "\<not> bit k n \<or> \<not> bit (128 :: int) n" for n
  proof (cases "n = 7")
    case True
    with k show ?thesis by (simp add: bit_iff_odd)
  next
    case False
    then show ?thesis using bit_exp_iff [of 7 n, where 'a = int] by simp
  qed
  from disjunctive_add [OF this] show ?thesis by simp
qed

lemma or_80: "0 \<le> k \<Longrightarrow> k < 128 \<Longrightarrow> uint (word_of_int k OR 0x80 :: byte) = k + 128"
  by (simp add: unsigned_or_eq uint_word_of_int int_or_80)
lemma find_app: "find P (xs @ ys) = (case find P xs of None \<Rightarrow> find P ys | Some x \<Rightarrow> Some x)"
  by (induction xs) auto

lemma find_remove1: "\<not> P a \<Longrightarrow> find P (remove1 a xs) = find P xs"
  by (induction xs) auto

lemma find_mem: "find P xs = Some x \<Longrightarrow> x \<in> set xs"
  by (auto simp: find_Some_iff)

text \<open>Changing or removing the first element that satisfies a condition, as a search loop with a pointer does.\<close>

fun replace_first :: "('a \<Rightarrow> bool) \<Rightarrow> ('a \<Rightarrow> 'a) \<Rightarrow> 'a list \<Rightarrow> 'a list" where
  "replace_first P f [] = []"
| "replace_first P f (x # xs) = (if P x then f x # xs else x # replace_first P f xs)"

fun remove_first :: "('a \<Rightarrow> bool) \<Rightarrow> 'a list \<Rightarrow> 'a list" where
  "remove_first P [] = []"
| "remove_first P (x # xs) = (if P x then xs else x # remove_first P xs)"

section \<open>Linked lists\<close>

fun walk :: "nat \<Rightarrow> (addr \<Rightarrow> ptr) \<Rightarrow> ptr \<Rightarrow> addr list" where
  "walk n nxt None = []"
| "walk 0 nxt (Some a) = []"
| "walk (Suc n) nxt (Some a) = a # walk n nxt (nxt a)"

fun linked :: "(addr \<Rightarrow> ptr) \<Rightarrow> ptr \<Rightarrow> addr list \<Rightarrow> bool" where
  "linked nxt p [] \<longleftrightarrow> p = None"
| "linked nxt p (a # as) \<longleftrightarrow> p = Some a \<and> linked nxt (nxt a) as"

lemma linked_None [simp]: "linked nxt None as \<longleftrightarrow> as = []"
  by (cases as) auto

lemma linked_Some: "linked nxt (Some a) as \<longleftrightarrow> (\<exists>bs. as = a # bs \<and> linked nxt (nxt a) bs)"
  by (cases as) auto

lemma linked_unique: "linked nxt p as \<Longrightarrow> linked nxt p bs \<Longrightarrow> as = bs"
  by (induction as arbitrary: p bs) (auto simp: linked_Some)

lemma linked_append:
  "linked nxt p (as @ a # bs) \<Longrightarrow> linked nxt (nxt a) bs"
  by (induction as arbitrary: p) auto

lemma linked_distinct: "linked nxt p as \<Longrightarrow> distinct as"
proof (induction as arbitrary: p)
  case Nil
  then show ?case by simp
next
  case (Cons a as)
  have "a \<notin> set as"
  proof
    assume "a \<in> set as"
    then obtain bs cs where split: "as = bs @ a # cs" by (meson split_list)
    with Cons.prems have "linked nxt (nxt a) (bs @ a # cs)" by simp
    from linked_append [OF this] have "linked nxt (nxt a) cs" .
    moreover from Cons.prems split have "linked nxt (nxt a) (bs @ a # cs)" by simp
    ultimately have "bs @ a # cs = cs" by (blast dest: linked_unique)
    then have "length (bs @ a # cs) = length cs" by simp
    then show False by simp
  qed
  with Cons show ?case by auto
qed

lemma linked_walk_le: "linked nxt p as \<Longrightarrow> length as \<le> n \<Longrightarrow> walk n nxt p = as"
  by (induction n nxt p arbitrary: as rule: walk.induct) (auto simp: linked_Some)

lemma length_below: "distinct as \<Longrightarrow> set as \<subseteq> {..<n} \<Longrightarrow> length as \<le> n"
  by (metis card_lessThan card_mono distinct_card finite_lessThan)

lemma linked_walk: "linked nxt p as \<Longrightarrow> set as \<subseteq> {..<n} \<Longrightarrow> walk n nxt p = as"
  by (rule linked_walk_le) (auto intro: length_below linked_distinct)

lemma linked_cong:
  "(\<And>a. a \<in> set as \<Longrightarrow> nxt a = nxt' a) \<Longrightarrow> linked nxt p as = linked nxt' p as"
  by (induction as arbitrary: p) auto

lemma linked_upd_other [simp]:
  "a \<notin> set as \<Longrightarrow> linked (nxt(a := q)) p as = linked nxt p as"
  by (rule linked_cong) auto

text \<open>Splicing: what the chain is after its last node, or a middle node, gets a new successor.\<close>

lemma linked_snoc:
  "linked nxt p (as @ [t]) \<Longrightarrow> b \<notin> set (as @ [t]) \<Longrightarrow>
   linked (nxt(t := Some b, b := None)) p (as @ [t, b])"
proof (induction as arbitrary: p)
  case (Cons c as)
  from linked_distinct [OF Cons.prems(1)] have "c \<noteq> t" by auto
  with Cons show ?case by auto
qed auto

lemma linked_unlink:
  "linked nxt p (as @ [x] @ [a] @ bs) \<Longrightarrow>
   linked (nxt(x := nxt a)) p (as @ [x] @ bs)"
proof (induction as arbitrary: p)
  case Nil
  then have "linked nxt p (x # a # bs)" by simp
  moreover from linked_distinct [OF this] have "x \<notin> set bs" by auto
  ultimately show ?case by (simp add: fun_upd_def [symmetric])
next
  case (Cons c as)
  from linked_distinct [OF Cons.prems] have "c \<noteq> x" by auto
  with Cons show ?case by auto
qed

lemma linked_last_next: "linked nxt p (as @ [t]) \<Longrightarrow> nxt t = None"
  by (induction as arbitrary: p) auto

lemma linked_mem_split:
  assumes "linked nxt p as" and "a \<in> set as"
  obtains bs cs where "as = bs @ a # cs" and "linked nxt (nxt a) cs"
    and "a \<notin> set bs" and "a \<notin> set cs"
proof -
  from assms(2) obtain bs cs where s: "as = bs @ a # cs" by (meson split_list)
  with assms(1) have "linked nxt (nxt a) cs" by (blast intro: linked_append)
  moreover from linked_distinct [OF assms(1)] s have "a \<notin> set bs" "a \<notin> set cs" by auto
  ultimately show thesis using that s by blast
qed

end
