(* ===== verification/Waveform.thy ===== *)
theory Waveform
  imports Prelude
begin

text \<open>
  The DCC waveform generator, \<^verbatim>\<open>src/DCCWaveform.cpp\<close> (the version driven by the 58us timer
  interrupt; the ESP32 replaces the file by an RMT driver). A \<open>track\<close> is one \<^verbatim>\<open>DCCWaveform\<close>
  object, \<open>wave\<close> the two tracks with the static flags. \<open>interrupt2\<close> chooses the next bit,
  \<open>promotePendingPacket\<close> takes the next packet over, \<open>schedulePacket\<close> hands a packet in from
  the main loop (\<open>None\<close> where the code would spin on \<^verbatim>\<open>while (packetPending);\<close>), and
  \<open>interruptHandler\<close> is the interrupt routine with the two signal levels it puts on the pins.

  The lemmas show that the byte counters never wrap and the packet arrays are never read out of
  bounds (\<open>wf_track\<close>), that a transmission is the preamble followed by the bytes of the packet
  with their start bits, that a scheduled packet closes with its checksum, exactly when a
  pending packet is taken over, and which pulses a bit is on the rails. Timer programming, pin
  writes and the free-memory diagnostic of the routine are hardware access and not modelled.
\<close>

section \<open>State\<close>

definition MAX_PACKET_SIZE :: nat where
  "MAX_PACKET_SIZE = 5"

definition PREAMBLE_BITS_MAIN :: nat where
  "PREAMBLE_BITS_MAIN = 16"

definition PREAMBLE_BITS_PROG :: nat where
  "PREAMBLE_BITS_PROG = 22"

datatype WAVE_STATE = WAVE_START | WAVE_MID_1 | WAVE_HIGH_0 | WAVE_MID_0 | WAVE_LOW_0 | WAVE_PENDING

record track =
  isMainTrack :: bool
  packetPending :: bool
  reminderWindowOpen :: bool
  sentResetsSincePacket :: nat
  transmitPacket :: "byte list"
  transmitLength :: nat
  transmitRepeats :: nat
  remainingPreambles :: nat
  requiredPreambles :: nat
  bits_sent :: nat
  bytes_sent :: nat
  wstate :: WAVE_STATE
  pendingPacket :: "byte list"
  pendingLength :: nat
  pendingRepeats :: nat

record wave =
  mainTrack :: track
  progTrack :: track
  cutoutNextTime :: bool
  railcomPossible :: bool
  railcomActive :: bool
  railcomPaused :: bool
  progTrackSyncMain :: bool

definition bitMask :: "byte list" where
  "bitMask = [0x00, 0x80, 0x40, 0x20, 0x10, 0x08, 0x04, 0x02, 0x01]"

definition idlePacket :: "byte list" where
  "idlePacket = [0xFF, 0x00, 0xFF]"

definition resetPacket :: "byte list" where
  "resetPacket = [0x00, 0x00, 0x00]"

fun stateTransform :: "WAVE_STATE \<Rightarrow> WAVE_STATE" where
  "stateTransform WAVE_START = WAVE_PENDING"
| "stateTransform WAVE_MID_1 = WAVE_START"
| "stateTransform WAVE_HIGH_0 = WAVE_MID_0"
| "stateTransform WAVE_MID_0 = WAVE_LOW_0"
| "stateTransform WAVE_LOW_0 = WAVE_START"
| "stateTransform WAVE_PENDING = WAVE_PENDING"

fun signalTransform :: "WAVE_STATE \<Rightarrow> bool" where
  "signalTransform WAVE_START = True"
| "signalTransform WAVE_MID_1 = False"
| "signalTransform WAVE_HIGH_0 = True"
| "signalTransform WAVE_MID_0 = False"
| "signalTransform WAVE_LOW_0 = False"
| "signalTransform WAVE_PENDING = False"

section \<open>Operations\<close>

text \<open>The constructor; the fields it does not set are zero, both objects being static.\<close>

definition newTrack :: "nat \<Rightarrow> bool \<Rightarrow> track" where
  "newTrack preambleBits isMain =
     \<lparr>isMainTrack = isMain, packetPending = False, reminderWindowOpen = False,
      sentResetsSincePacket = 0,
      transmitPacket = memcpy_into (replicate (MAX_PACKET_SIZE + 1) 0) idlePacket 3,
      transmitLength = 0, transmitRepeats = 0, remainingPreambles = 0,
      requiredPreambles = preambleBits + 1, bits_sent = 0, bytes_sent = 0,
      wstate = WAVE_START, pendingPacket = replicate (MAX_PACKET_SIZE + 1) 0,
      pendingLength = 0, pendingRepeats = 0\<rparr>"

definition clearResets :: "track \<Rightarrow> track" where
  "clearResets t = t\<lparr>sentResetsSincePacket := 0\<rparr>"

definition getResets :: "track \<Rightarrow> nat" where
  "getResets t = sentResetsSincePacket t"

definition clearRepeats :: "track \<Rightarrow> track" where
  "clearRepeats t = t\<lparr>transmitRepeats := 0\<rparr>"

definition isReminderWindowOpen :: "track \<Rightarrow> bool" where
  "isReminderWindowOpen t \<longleftrightarrow> reminderWindowOpen t \<and> \<not> packetPending t"

definition promotePendingPacket :: "track \<Rightarrow> track" where
  "promotePendingPacket t =
     (if transmitRepeats t > 0 then t\<lparr>transmitRepeats := transmitRepeats t - 1\<rparr>
      else if packetPending t then
        clearResets (t\<lparr>transmitPacket := pendingPacket t, transmitLength := pendingLength t,
           transmitRepeats := pendingRepeats t, packetPending := False\<rparr>)
      else
        (let t = t\<lparr>transmitPacket :=
                   memcpy_into (transmitPacket t)
                     (if isMainTrack t then idlePacket else resetPacket) 3,
                   transmitLength := 3, transmitRepeats := 0\<rparr>
         in if getResets t < 250 then t\<lparr>sentResetsSincePacket := sentResetsSincePacket t + 1\<rparr>
            else t))"

definition interrupt2 :: "track \<Rightarrow> track" where
  "interrupt2 t =
     (if remainingPreambles t > 0 then
        (let t = t\<lparr>wstate := WAVE_MID_1, remainingPreambles := remainingPreambles t - 1\<rparr>;
             t = t\<lparr>reminderWindowOpen := (transmitRepeats t = 0 \<and>
                     remainingPreambles t < 12 \<and> remainingPreambles t > 1)\<rparr>
         in if remainingPreambles t = 1 then promotePendingPacket t else t)
      else
        (let t = t\<lparr>wstate := (if (transmitPacket t ! bytes_sent t) AND (bitMask ! bits_sent t) \<noteq> 0
                              then WAVE_MID_1 else WAVE_HIGH_0)\<rparr>;
             t = t\<lparr>bits_sent := bits_sent t + 1\<rparr>
         in if bits_sent t = 9 then
              (let t = t\<lparr>bits_sent := 0, bytes_sent := bytes_sent t + 1\<rparr>
               in if bytes_sent t \<ge> transmitLength t
                  then t\<lparr>bytes_sent := 0, remainingPreambles := requiredPreambles t\<rparr> else t)
            else t))"

text \<open>The railcom branch of \<open>interrupt2\<close>: whether this bit asks for a cutout at the next interrupt.\<close>

definition cutoutRequested :: "bool \<Rightarrow> track \<Rightarrow> bool" where
  "cutoutRequested railcomOn t \<longleftrightarrow>
     remainingPreambles t > 0 \<and> remainingPreambles t - 1 \<noteq> 1 \<and>
     isMainTrack t \<and> railcomOn \<and> remainingPreambles t - 1 = requiredPreambles t - 1"

definition schedulePacket :: "byte list \<Rightarrow> nat \<Rightarrow> nat \<Rightarrow> track \<Rightarrow> track option" where
  "schedulePacket buffer byteCount repeats t =
     (if byteCount > MAX_PACKET_SIZE then Some t
      else if packetPending t then None
      else
        (let checksum = xor_all (take byteCount buffer)
         in Some (clearResets (t\<lparr>
              pendingPacket := (memcpy_into (pendingPacket t) buffer byteCount)[byteCount := checksum],
              pendingLength := byteCount + 1, pendingRepeats := repeats,
              packetPending := True\<rparr>))))"

definition setRailcom :: "bool \<Rightarrow> wave \<Rightarrow> bool \<times> wave" where
  "setRailcom on w =
     (let w = w\<lparr>railcomActive := (on \<and> railcomPossible w)\<rparr> in (railcomActive w, w))"

definition pauseRailcom :: "bool \<Rightarrow> wave \<Rightarrow> bool \<times> wave" where
  "pauseRailcom paused w =
     (let w = w\<lparr>railcomPaused := (paused \<and> railcomPossible w)\<rparr> in (railcomPaused w, w))"

definition setRailcomPossible :: "bool \<Rightarrow> wave \<Rightarrow> wave" where
  "setRailcomPossible yes w =
     (let w = w\<lparr>railcomPossible := yes\<rparr> in if \<not> yes then snd (setRailcom False w) else w)"

text \<open>
  One track's share of the interrupt: the level it drives, and the track afterwards. The result's
  flag tells whether the track was in the middle of a bit, which is when the prog track looks
  for an acknowledgement pulse (\<^verbatim>\<open>DCCACK::checkAck\<close>, theory AckManager).
\<close>

definition trackInterrupt :: "track \<Rightarrow> track \<times> bool" where
  "trackInterrupt t =
     (let t = t\<lparr>wstate := stateTransform (wstate t)\<rparr>
      in if wstate t = WAVE_PENDING then (interrupt2 t, False) else (t, True))"

definition interruptHandler :: "wave \<Rightarrow> (bool \<times> bool) \<times> nat option \<times> wave" where
  "interruptHandler w =
     (let railcomOn = railcomActive w \<and> \<not> railcomPaused w;
          sigMain = signalTransform (wstate (mainTrack w));
          sigProg = (if progTrackSyncMain w then sigMain
                     else signalTransform (wstate (progTrack w)));
          m = mainTrack w;
          cut = (stateTransform (wstate m) = WAVE_PENDING \<and> cutoutRequested railcomOn m);
          (m', _) = trackInterrupt m;
          (p', ack) = trackInterrupt (progTrack w)
      in ((sigMain, sigProg), if ack then Some (getResets p') else None,
          w\<lparr>cutoutNextTime := cut, mainTrack := m', progTrack := p'\<rparr>))"

section \<open>Well-formed tracks\<close>

definition wf_track :: "track \<Rightarrow> bool" where
  "wf_track t \<longleftrightarrow>
     length (transmitPacket t) = MAX_PACKET_SIZE + 1 \<and>
     length (pendingPacket t) = MAX_PACKET_SIZE + 1 \<and>
     transmitLength t \<le> MAX_PACKET_SIZE + 1 \<and> pendingLength t \<le> MAX_PACKET_SIZE + 1 \<and>
     (packetPending t \<longrightarrow> 0 < pendingLength t) \<and>
     2 < requiredPreambles t \<and> requiredPreambles t < 256 \<and>
     remainingPreambles t \<le> requiredPreambles t \<and>
     bits_sent t < 9 \<and> bytes_sent t < max 1 (transmitLength t) \<and>
     (0 < remainingPreambles t \<longrightarrow> bits_sent t = 0 \<and> bytes_sent t = 0) \<and>
     transmitRepeats t < 256 \<and> pendingRepeats t < 256 \<and> sentResetsSincePacket t \<le> 250"

lemmas track_defs [dcc_defs] =
  wf_track_def interrupt2_def promotePendingPacket_def clearResets_def clearRepeats_def
  getResets_def Let_def

lemma wf_newTrack:
  "2 < preambleBits \<Longrightarrow> preambleBits < 255 \<Longrightarrow> wf_track (newTrack preambleBits m)"
  by (simp add: wf_track_def newTrack_def MAX_PACKET_SIZE_def memcpy_into_def idlePacket_def)

lemma wf_promote:
  assumes "wf_track t" and "bits_sent t = 0" and "bytes_sent t = 0"
  shows "wf_track (promotePendingPacket t)"
  using assms
  by (auto simp: track_defs MAX_PACKET_SIZE_def idlePacket_def resetPacket_def memcpy_into_def)

lemma wf_interrupt2: "wf_track t \<Longrightarrow> wf_track (interrupt2 t)"
proof (cases "remainingPreambles t > 0")
  case True
  assume wf: "wf_track t"
  let ?t = "t\<lparr>wstate := WAVE_MID_1, remainingPreambles := remainingPreambles t - 1,
    reminderWindowOpen := (transmitRepeats t = 0 \<and> remainingPreambles t - 1 < 12 \<and>
      remainingPreambles t - 1 > 1)\<rparr>"
  from wf True have "wf_track ?t" and "bits_sent ?t = 0" and "bytes_sent ?t = 0"
    by (auto simp: wf_track_def)
  moreover from this have "wf_track (promotePendingPacket ?t)" by (rule wf_promote)
  ultimately show ?thesis
    using True
    by (cases "remainingPreambles t - 1 = 1") (simp_all add: interrupt2_def Let_def)
next
  case False
  assume "wf_track t"
  with False show ?thesis
    by (auto simp: wf_track_def interrupt2_def Let_def max_def split: if_splits)
qed

lemma wf_schedulePacket:
  "wf_track t \<Longrightarrow> byteCount \<le> length buffer \<Longrightarrow> repeats < 256 \<Longrightarrow>
   schedulePacket buffer byteCount repeats t = Some t' \<Longrightarrow> wf_track t'"
  by (auto simp: schedulePacket_def track_defs MAX_PACKET_SIZE_def split: if_splits)

lemma wf_funpow_interrupt2: "wf_track t \<Longrightarrow> wf_track ((interrupt2 ^^ n) t)"
  by (induction n) (auto simp: wf_interrupt2)

section \<open>The bit stream\<close>

text \<open>The bits the next \<open>n\<close> interrupts that need one choose, and the frame a packet ought to be.\<close>

fun emit :: "nat \<Rightarrow> track \<Rightarrow> bool list" where
  "emit 0 t = []"
| "emit (Suc n) t = (wstate (interrupt2 t) = WAVE_MID_1) # emit n (interrupt2 t)"

definition byte_bits :: "byte \<Rightarrow> bool list" where
  "byte_bits b = False # map (\<lambda>i. bit b (7 - i)) [0..<8]"

definition frame_bits :: "byte list \<Rightarrow> bool list" where
  "frame_bits bs = concat (map byte_bits bs)"

lemma emit_add: "emit (m + n) t = emit m t @ emit n ((interrupt2 ^^ m) t)"
  by (induction m arbitrary: t) (simp_all add: funpow_swap1)

lemma length_emit [simp]: "length (emit n t) = n"
  by (induction n arbitrary: t) simp_all

lemma length_byte_bits [simp]: "length (byte_bits b) = 9"
  by (simp add: byte_bits_def)

lemma less_9_cases: "i < 9 \<Longrightarrow> i = 0 \<or> i = 1 \<or> i = 2 \<or> i = 3 \<or> i = 4 \<or> i = 5 \<or> i = 6 \<or> i = 7 \<or> i = (8::nat)"
  by linarith

lemma and_mask_bit: "(b AND 2 ^ n \<noteq> 0) = bit b n" for b :: byte
  by (simp add: and_exp_eq_0_iff_not_bit)

lemma bitMask_bit: "i < 9 \<Longrightarrow> (b AND bitMask ! i \<noteq> 0) = byte_bits b ! i" for b :: byte
proof -
  assume "i < 9"
  then have "i = 0 \<or> i = 1 \<or> i = 2 \<or> i = 3 \<or> i = 4 \<or> i = 5 \<or> i = 6 \<or> i = 7 \<or> i = 8"
    by (rule less_9_cases)
  moreover have "byte_bits b = [False, bit b 7, bit b 6, bit b 5, bit b 4, bit b 3, bit b 2, bit b 1, bit b 0]"
    by (simp add: byte_bits_def upt_rec)
  ultimately show ?thesis
    using and_mask_bit [of b 7] and_mask_bit [of b 6] and_mask_bit [of b 5] and_mask_bit [of b 4]
      and_mask_bit [of b 3] and_mask_bit [of b 2] and_mask_bit [of b 1] and_mask_bit [of b 0]
    by (elim disjE) (simp_all add: bitMask_def)
qed

lemma frame_bits_nth:
  "i < length bs \<Longrightarrow> j < 9 \<Longrightarrow> frame_bits bs ! (9 * i + j) = byte_bits (bs ! i) ! j"
proof (induction bs arbitrary: i)
  case Nil
  then show ?case by simp
next
  case (Cons b bs)
  then show ?case
    by (cases i) (auto simp: frame_bits_def nth_append)
qed

lemma length_frame_bits [simp]: "length (frame_bits bs) = 9 * length bs"
  by (induction bs) (simp_all add: frame_bits_def)

text \<open>Sending data is counting through the frame: the position, and one step.\<close>

definition data_pos :: "track \<Rightarrow> nat" where
  "data_pos t = 9 * bytes_sent t + bits_sent t"

definition same_packet :: "track \<Rightarrow> track \<Rightarrow> bool" where
  "same_packet t' t \<longleftrightarrow>
     transmitPacket t' = transmitPacket t \<and> transmitLength t' = transmitLength t \<and>
     transmitRepeats t' = transmitRepeats t \<and> requiredPreambles t' = requiredPreambles t \<and>
     packetPending t' = packetPending t \<and> pendingPacket t' = pendingPacket t \<and>
     pendingLength t' = pendingLength t \<and> pendingRepeats t' = pendingRepeats t \<and>
     isMainTrack t' = isMainTrack t \<and> sentResetsSincePacket t' = sentResetsSincePacket t"

lemma same_packet_trans: "same_packet a b \<Longrightarrow> same_packet b c \<Longrightarrow> same_packet a c"
  by (simp add: same_packet_def)

lemma interrupt2_data_same: "remainingPreambles t = 0 \<Longrightarrow> same_packet (interrupt2 t) t"
  by (simp add: interrupt2_def Let_def same_packet_def)

lemma interrupt2_data_pos:
  assumes "wf_track t" and "remainingPreambles t = 0"
  shows "if data_pos t + 1 < 9 * max 1 (transmitLength t)
    then remainingPreambles (interrupt2 t) = 0 \<and> data_pos (interrupt2 t) = data_pos t + 1
    else data_pos t + 1 = 9 * max 1 (transmitLength t) \<and>
      remainingPreambles (interrupt2 t) = requiredPreambles t \<and> data_pos (interrupt2 t) = 0"
proof (cases "bits_sent t = 8")
  case True
  with assms show ?thesis
    by (auto simp: interrupt2_def Let_def data_pos_def wf_track_def max_def split: if_splits)
next
  case False
  with assms have "bits_sent t < 8" and "bytes_sent t < max 1 (transmitLength t)"
    by (auto simp: wf_track_def)
  with assms show ?thesis
    by (auto simp: interrupt2_def Let_def data_pos_def)
qed

lemma interrupt2_data_bit:
  assumes "wf_track t" and "remainingPreambles t = 0" and "0 < transmitLength t"
  shows "(wstate (interrupt2 t) = WAVE_MID_1) =
    frame_bits (take (transmitLength t) (transmitPacket t)) ! data_pos t"
proof -
  from assms have b: "bits_sent t < 9" "bytes_sent t < transmitLength t"
    "transmitLength t \<le> length (transmitPacket t)"
    by (auto simp: wf_track_def)
  have "(wstate (interrupt2 t) = WAVE_MID_1) = byte_bits (transmitPacket t ! bytes_sent t) ! bits_sent t"
    using assms(2) bitMask_bit [OF b(1), of "transmitPacket t ! bytes_sent t"]
    by (simp add: interrupt2_def Let_def)
  also from b have "\<dots> = frame_bits (take (transmitLength t) (transmitPacket t)) ! data_pos t"
    by (simp add: data_pos_def frame_bits_nth)
  finally show ?thesis .
qed

lemma emit_data:
  assumes "wf_track t" and "remainingPreambles t = 0" and "0 < transmitLength t"
    and "data_pos t + n = 9 * transmitLength t" and "0 < n"
  shows "emit n t = drop (data_pos t) (frame_bits (take (transmitLength t) (transmitPacket t)))
    \<and> remainingPreambles ((interrupt2 ^^ n) t) = requiredPreambles t
    \<and> same_packet ((interrupt2 ^^ n) t) t"
  using assms
proof (induction n arbitrary: t)
  case 0
  then show ?case by simp
next
  case (Suc n)
  let ?f = "frame_bits (take (transmitLength t) (transmitPacket t))"
  let ?t = "interrupt2 t"
  from Suc.prems have len: "length ?f = 9 * transmitLength t"
    by (simp add: wf_track_def)
  have bit: "(wstate ?t = WAVE_MID_1) = ?f ! data_pos t"
    using Suc.prems by (simp add: interrupt2_data_bit)
  have drop: "drop (data_pos t) ?f = ?f ! data_pos t # drop (data_pos t + 1) ?f"
    using Suc.prems len by (simp add: Cons_nth_drop_Suc)
  have same: "same_packet ?t t" using Suc.prems(2) by (rule interrupt2_data_same)
  note pos = interrupt2_data_pos [OF Suc.prems(1,2)]
  show ?case
  proof (cases "n = 0")
    case True
    with Suc.prems pos bit drop len same show ?thesis by (auto simp: max_def)
  next
    case False
    with Suc.prems pos have "remainingPreambles ?t = 0" "data_pos ?t = data_pos t + 1"
      by (auto simp: max_def)
    with Suc.IH [of ?t] Suc.prems False same wf_interrupt2
    have "emit n ?t = drop (data_pos t + 1) ?f \<and>
      remainingPreambles ((interrupt2 ^^ n) ?t) = requiredPreambles t \<and>
      same_packet ((interrupt2 ^^ n) ?t) ?t"
      by (simp add: same_packet_def)
    with bit drop same show ?thesis
      by (auto simp: funpow_swap1 intro: same_packet_trans)
  qed
qed

section \<open>Taking packets over\<close>

text \<open>How many bits until \<open>promotePendingPacket\<close> runs next, and that each bit counts down.\<close>

definition to_promote :: "track \<Rightarrow> nat" where
  "to_promote t =
     (if remainingPreambles t \<ge> 2 then remainingPreambles t - 1
      else remainingPreambles t + (9 * max 1 (transmitLength t) - data_pos t) +
           (requiredPreambles t - 1))"

lemma data_pos_bound: "wf_track t \<Longrightarrow> data_pos t < 9 * max 1 (transmitLength t)"
  by (auto simp: wf_track_def data_pos_def)

lemma same_packet_preamble:
  assumes "0 < remainingPreambles t"
  shows "remainingPreambles (interrupt2 t) = remainingPreambles t - 1"
    and "data_pos (interrupt2 t) = data_pos t"
    and "wstate (interrupt2 t) = WAVE_MID_1"
    and "remainingPreambles t \<noteq> 2 \<Longrightarrow> same_packet (interrupt2 t) t"
    and "remainingPreambles t = 2 \<Longrightarrow> same_packet (interrupt2 t) (promotePendingPacket t)"
  using assms
  by (auto simp: interrupt2_def Let_def data_pos_def same_packet_def promotePendingPacket_def
      clearResets_def getResets_def)

lemma to_promote_step:
  assumes wf: "wf_track t" and more: "1 < to_promote t"
  shows "to_promote (interrupt2 t) = to_promote t - 1 \<and> same_packet (interrupt2 t) t"
proof (cases "remainingPreambles t = 0")
  case True
  have same: "same_packet (interrupt2 t) t" using True by (rule interrupt2_data_same)
  moreover have "2 < requiredPreambles t" using wf by (simp add: wf_track_def)
  ultimately show ?thesis
    using interrupt2_data_pos [OF wf True] True data_pos_bound [OF wf]
    by (auto simp: to_promote_def same_packet_def split: if_splits)
next
  case False
  then have pos: "0 < remainingPreambles t" by simp
  note pre = same_packet_preamble [OF pos]
  from wf pos have "data_pos t = 0" by (simp add: wf_track_def data_pos_def)
  moreover from more pos have "remainingPreambles t \<noteq> 2" by (auto simp: to_promote_def)
  ultimately show ?thesis
    using pre pos by (auto simp: to_promote_def same_packet_def)
qed

lemma to_promote_now:
  assumes wf: "wf_track t" and now: "to_promote t = 1"
  shows "same_packet (interrupt2 t) (promotePendingPacket t) \<and>
    remainingPreambles (interrupt2 t) = 1 \<and> data_pos (interrupt2 t) = 0"
proof -
  from wf have "2 < requiredPreambles t" by (simp add: wf_track_def)
  with now have r: "remainingPreambles t = 2" by (auto simp: to_promote_def split: if_splits)
  with wf have "data_pos t = 0" by (simp add: wf_track_def data_pos_def)
  with same_packet_preamble [of t] r show ?thesis by simp
qed

lemma to_promote_pos: "wf_track t \<Longrightarrow> 0 < to_promote t"
  by (auto simp: to_promote_def wf_track_def)

lemma promote_cong: "same_packet a b \<Longrightarrow> same_packet (promotePendingPacket a) (promotePendingPacket b)"
  by (auto simp: same_packet_def promotePendingPacket_def Let_def clearResets_def getResets_def)

lemma before_promote:
  assumes "wf_track t" and "m < to_promote t"
  shows "to_promote ((interrupt2 ^^ m) t) = to_promote t - m \<and> same_packet ((interrupt2 ^^ m) t) t"
  using assms(2)
proof (induction m)
  case 0
  then show ?case by (simp add: same_packet_def)
next
  case (Suc m)
  then have IH: "to_promote ((interrupt2 ^^ m) t) = to_promote t - m"
    "same_packet ((interrupt2 ^^ m) t) t" by auto
  with Suc.prems have "1 < to_promote ((interrupt2 ^^ m) t)" by simp
  from to_promote_step [OF wf_funpow_interrupt2 [OF assms(1)] this] IH
  show ?case by (auto intro: same_packet_trans)
qed

lemma at_promote:
  assumes "wf_track t"
  shows "same_packet ((interrupt2 ^^ to_promote t) t) (promotePendingPacket t) \<and>
    remainingPreambles ((interrupt2 ^^ to_promote t) t) = 1 \<and>
    data_pos ((interrupt2 ^^ to_promote t) t) = 0"
proof -
  obtain m where m: "to_promote t = Suc m" using to_promote_pos [OF assms] gr0_implies_Suc by blast
  let ?u = "(interrupt2 ^^ m) t"
  from before_promote [OF assms, of m] m
  have u: "to_promote ?u = 1" "same_packet ?u t" by auto
  from to_promote_now [OF wf_funpow_interrupt2 [OF assms] u(1)] promote_cong [OF u(2)] m
  show ?thesis by (auto intro: same_packet_trans)
qed

text \<open>A full turn: the stop bit and preamble, then the packet.\<close>

definition turn_bits :: "track \<Rightarrow> nat" where
  "turn_bits t = requiredPreambles t + 9 * max 1 (transmitLength t)"

definition wave_frame :: "track \<Rightarrow> bool list" where
  "wave_frame t = replicate (requiredPreambles t) True @
     frame_bits (take (transmitLength t) (transmitPacket t))"

lemma emit_preamble: "remainingPreambles t = n \<Longrightarrow> emit n t = replicate n True"
  by (induction n arbitrary: t) (simp_all add: same_packet_preamble)

lemma preamble_done: "remainingPreambles t = n \<Longrightarrow> remainingPreambles ((interrupt2 ^^ n) t) = 0"
  by (induction n arbitrary: t) (simp_all add: same_packet_preamble funpow_swap1)

lemma packet_turn:
  assumes wf: "wf_track t" and start: "remainingPreambles t = requiredPreambles t"
    and nonempty: "0 < transmitLength (promotePendingPacket t)"
  defines "p \<equiv> promotePendingPacket t"
  shows "emit (turn_bits p) t = wave_frame p \<and>
    remainingPreambles ((interrupt2 ^^ turn_bits p) t) = requiredPreambles t \<and>
    same_packet ((interrupt2 ^^ turn_bits p) t) p"
proof -
  let ?r = "requiredPreambles t"
  have r: "2 < ?r" using wf by (simp add: wf_track_def)
  have tp: "to_promote t = ?r - 1" using start r by (simp add: to_promote_def)
  define u where "u = (interrupt2 ^^ (?r - 1)) t"
  define v where "v = interrupt2 u"
  have u: "same_packet u p" "remainingPreambles u = 1" "data_pos u = 0"
    using at_promote [OF wf] tp by (auto simp: u_def p_def)
  have v: "same_packet v p" "remainingPreambles v = 0" "data_pos v = 0"
    using u same_packet_preamble [of u] by (auto simp: v_def intro: same_packet_trans)
  have vt: "v = (interrupt2 ^^ ?r) t"
    using r by (cases ?r) (simp_all add: v_def u_def)
  have wfv: "wf_track v" unfolding vt by (rule wf_funpow_interrupt2 [OF wf])
  have req: "requiredPreambles p = ?r"
    by (simp add: p_def promotePendingPacket_def clearResets_def getResets_def Let_def)
  have len: "0 < transmitLength v" "transmitLength v = transmitLength p"
    "transmitPacket v = transmitPacket p" "requiredPreambles v = ?r"
    using v(1) nonempty req by (simp_all add: same_packet_def p_def)
  have data: "emit (9 * transmitLength v) v = frame_bits (take (transmitLength p) (transmitPacket p))"
    "remainingPreambles ((interrupt2 ^^ (9 * transmitLength v)) v) = ?r"
    "same_packet ((interrupt2 ^^ (9 * transmitLength v)) v) v"
    using emit_data [OF wfv v(2) len(1), of "9 * transmitLength v"] v(3) len by simp_all
  have turn: "turn_bits p = ?r + 9 * transmitLength v"
    using len req by (simp add: turn_bits_def)
  have split: "(interrupt2 ^^ turn_bits p) t = (interrupt2 ^^ (9 * transmitLength v)) v"
    by (simp add: turn vt add.commute [of ?r] funpow_add)
  have bits: "emit (turn_bits p) t = replicate ?r True @ emit (9 * transmitLength v) v"
    using start by (simp add: turn emit_add emit_preamble vt)
  show ?thesis
    using bits data v(1) req unfolding split
    by (auto simp: wave_frame_def intro: same_packet_trans)
qed

lemma repeat_turns:
  assumes "wf_track t" and "remainingPreambles t = requiredPreambles t"
    and "0 < transmitLength t" and "transmitRepeats t = k"
  shows "emit (k * turn_bits t) t = concat (replicate k (wave_frame t)) \<and>
    (let t' = (interrupt2 ^^ (k * turn_bits t)) t in
      remainingPreambles t' = requiredPreambles t \<and> transmitRepeats t' = 0 \<and>
      packetPending t' = packetPending t)"
  using assms
proof (induction k arbitrary: t)
  case 0
  then show ?case by simp
next
  case (Suc k)
  let ?p = "promotePendingPacket t"
  let ?u = "(interrupt2 ^^ turn_bits t) t"
  have p: "?p = t\<lparr>transmitRepeats := k\<rparr>" using Suc.prems by (simp add: promotePendingPacket_def)
  then have eq: "turn_bits ?p = turn_bits t" "wave_frame ?p = wave_frame t"
    "0 < transmitLength ?p"
    using Suc.prems by (simp_all add: turn_bits_def wave_frame_def)
  from packet_turn [OF Suc.prems(1,2) eq(3)] eq
  have turn: "emit (turn_bits t) t = wave_frame t"
    "remainingPreambles ?u = requiredPreambles t" "same_packet ?u ?p" by simp_all
  then have u: "transmitRepeats ?u = k" "requiredPreambles ?u = requiredPreambles t"
    "transmitLength ?u = transmitLength t" "transmitPacket ?u = transmitPacket t"
    "packetPending ?u = packetPending t"
    using p by (simp_all add: same_packet_def)
  then have eq': "turn_bits ?u = turn_bits t" "wave_frame ?u = wave_frame t"
    by (simp_all add: turn_bits_def wave_frame_def)
  from Suc.IH [of ?u] Suc.prems turn u eq' wf_funpow_interrupt2
  show ?case
    by (simp add: emit_add funpow_add [symmetric] add.commute Let_def flip: comp_apply [of "interrupt2 ^^ _"])
qed

lemma taken_over:
  assumes "wf_track t" and "packetPending t" and "transmitRepeats t = k"
  defines "n \<equiv> to_promote t + k * turn_bits t"
  shows "(let t' = (interrupt2 ^^ n) t in \<not> packetPending t' \<and> transmitPacket t' = pendingPacket t \<and>
      transmitLength t' = pendingLength t \<and> transmitRepeats t' = pendingRepeats t) \<and>
    (\<forall>m < n. packetPending ((interrupt2 ^^ m) t))"
  using assms(1-3) unfolding n_def
proof (induction k arbitrary: t)
  case 0
  have "same_packet ((interrupt2 ^^ to_promote t) t) (promotePendingPacket t)"
    using at_promote [OF 0(1)] by blast
  moreover have "packetPending ((interrupt2 ^^ m) t)" if "m < to_promote t" for m
    using before_promote [OF 0(1) that] 0(2) by (simp add: same_packet_def)
  ultimately show ?case
    using 0 by (simp add: promotePendingPacket_def clearResets_def same_packet_def)
next
  case (Suc k)
  let ?u = "(interrupt2 ^^ to_promote t) t"
  from at_promote [OF Suc.prems(1)] Suc.prems(3)
  have u: "same_packet ?u (t\<lparr>transmitRepeats := k\<rparr>)" "remainingPreambles ?u = 1" "data_pos ?u = 0"
    by (auto simp: promotePendingPacket_def)
  have rp: "2 < requiredPreambles t" using Suc.prems(1) by (simp add: wf_track_def)
  from u rp have tp: "to_promote ?u = turn_bits t" "turn_bits ?u = turn_bits t"
    by (simp_all add: to_promote_def turn_bits_def same_packet_def)
  have IH: "(let t' = (interrupt2 ^^ (turn_bits t + k * turn_bits t)) ?u in
      \<not> packetPending t' \<and> transmitPacket t' = pendingPacket t \<and>
      transmitLength t' = pendingLength t \<and> transmitRepeats t' = pendingRepeats t)"
    "\<forall>m < turn_bits t + k * turn_bits t. packetPending ((interrupt2 ^^ m) ?u)"
    using Suc.IH [of ?u] wf_funpow_interrupt2 [OF Suc.prems(1)] Suc.prems u tp
    by (simp_all add: same_packet_def)
  have shift: "(interrupt2 ^^ m) ?u = (interrupt2 ^^ (to_promote t + m)) t" for m
    by (simp add: funpow_add add.commute [of "to_promote t"])
  have "packetPending ((interrupt2 ^^ m) t)" if m: "m < to_promote t + Suc k * turn_bits t" for m
  proof (cases "m < to_promote t")
    case True
    with before_promote [OF Suc.prems(1), of m] Suc.prems(2) show ?thesis by (simp add: same_packet_def)
  next
    case False
    with m IH(2) [rule_format, of "m - to_promote t"] show ?thesis by (simp add: shift)
  qed
  with IH(1) show ?case by (simp add: shift)
qed

text \<open>The pulses of successive interrupts on a track's pin.\<close>

fun pulses :: "nat \<Rightarrow> track \<Rightarrow> bool list" where
  "pulses 0 t = []"
| "pulses (Suc n) t = signalTransform (wstate t) # pulses n (fst (trackInterrupt t))"

text \<open>A track with one packet waiting, at the start of a preamble, for the instances below.\<close>

definition sample_track :: track where
  "sample_track = (newTrack PREAMBLE_BITS_MAIN True)
     \<lparr>transmitLength := 3, remainingPreambles := 17, packetPending := True,
      pendingPacket := [3, 0x3F, 0x9C, 0xA0, 0, 0], pendingLength := 4, pendingRepeats := 1\<rparr>"

lemmas sample_track_defs =
  sample_track_def newTrack_def wf_track_def MAX_PACKET_SIZE_def PREAMBLE_BITS_MAIN_def
  memcpy_into_def idlePacket_def

text \<open>The states a track can get into, and that they are well formed.\<close>

inductive track_reach :: "track \<Rightarrow> bool" where
  power_up: "preambles \<in> {PREAMBLE_BITS_MAIN, PREAMBLE_BITS_PROG} \<Longrightarrow>
    track_reach (newTrack preambles isMain)"
| bit: "track_reach t \<Longrightarrow> track_reach (interrupt2 t)"
| waveform: "track_reach t \<Longrightarrow> track_reach (fst (trackInterrupt t))"
| schedule: "track_reach t \<Longrightarrow> n \<le> length buffer \<Longrightarrow> repeats < 256 \<Longrightarrow>
    schedulePacket buffer n repeats t = Some t' \<Longrightarrow> track_reach t'"
| shortcut: "track_reach t \<Longrightarrow> track_reach (clearRepeats t)"
| resets: "track_reach t \<Longrightarrow> track_reach (clearResets t)"

lemma wf_wstate: "wf_track (t\<lparr>wstate := s\<rparr>) = wf_track t"
  by (simp add: wf_track_def)

section \<open>Properties\<close>

text \<open>
  C19: a packet handed to \<open>schedulePacket\<close> is put on the rails as it was given. At the start of a
  preamble with no repeats outstanding, the next bits are the preamble (one bits), then a zero
  start bit and the eight bits of each byte most significant first, and the whole is sent
  \<open>pendingRepeats + 1\<close> times.
\<close>

theorem pending_packet_transmitted:
  assumes "wf_track t" and "remainingPreambles t = requiredPreambles t"
    and "transmitRepeats t = 0" and "packetPending t"
  shows "emit ((pendingRepeats t + 1) * (requiredPreambles t + 9 * pendingLength t)) t =
    concat (replicate (pendingRepeats t + 1)
      (replicate (requiredPreambles t) True @ frame_bits (take (pendingLength t) (pendingPacket t))))"
proof -
  let ?p = "promotePendingPacket t"
  let ?u = "(interrupt2 ^^ turn_bits ?p) t"
  have p: "?p = clearResets (t\<lparr>transmitPacket := pendingPacket t, transmitLength := pendingLength t,
      transmitRepeats := pendingRepeats t, packetPending := False\<rparr>)"
    using assms by (simp add: promotePendingPacket_def)
  have len: "0 < pendingLength t" using assms by (simp add: wf_track_def)
  have frame: "wave_frame ?p = replicate (requiredPreambles t) True @
      frame_bits (take (pendingLength t) (pendingPacket t))"
    and tb: "turn_bits ?p = requiredPreambles t + 9 * pendingLength t"
    and nonempty: "0 < transmitLength ?p"
    using len by (simp_all add: p wave_frame_def turn_bits_def clearResets_def)
  from packet_turn [OF assms(1,2) nonempty]
  have turn: "emit (turn_bits ?p) t = wave_frame ?p"
    "remainingPreambles ?u = requiredPreambles t" "same_packet ?u ?p" by simp_all
  then have u: "transmitRepeats ?u = pendingRepeats t" "requiredPreambles ?u = requiredPreambles t"
    "0 < transmitLength ?u" "turn_bits ?u = turn_bits ?p" "wave_frame ?u = wave_frame ?p"
    using p nonempty by (simp_all add: same_packet_def turn_bits_def wave_frame_def clearResets_def)
  from repeat_turns [OF wf_funpow_interrupt2 [OF assms(1)] _ u(3,1)] turn(2) u
  have "emit (pendingRepeats t * turn_bits ?p) ?u = concat (replicate (pendingRepeats t) (wave_frame ?p))"
    by simp
  with turn(1) have "emit (turn_bits ?p + pendingRepeats t * turn_bits ?p) t =
      wave_frame ?p @ concat (replicate (pendingRepeats t) (wave_frame ?p))"
    by (simp add: emit_add)
  then show ?thesis by (simp add: frame tb)
qed

theorem pending_packet_transmitted_witness:
  "wf_track sample_track \<and> packetPending sample_track \<and>
   emit ((pendingRepeats sample_track + 1) *
       (requiredPreambles sample_track + 9 * pendingLength sample_track)) sample_track =
     concat (replicate (pendingRepeats sample_track + 1)
       (replicate (requiredPreambles sample_track) True @
        frame_bits (take (pendingLength sample_track) (pendingPacket sample_track))))"
proof -
  have "wf_track sample_track" "remainingPreambles sample_track = requiredPreambles sample_track"
    "transmitRepeats sample_track = 0" "packetPending sample_track"
    by (simp_all add: sample_track_defs)
  with pending_packet_transmitted [of sample_track] show ?thesis by blast
qed

text \<open>
  A pending packet is never lost and never late. From any well-formed state it is taken over
  after exactly the bits left before the next take-over point plus one full turn per
  outstanding repeat of the packet being sent, and it stays pending until then.
\<close>

theorem pending_packet_taken_over:
  assumes "wf_track t" and "packetPending t"
  defines "n \<equiv> to_promote t + transmitRepeats t * turn_bits t"
  shows "\<not> packetPending ((interrupt2 ^^ n) t) \<and>
    transmitPacket ((interrupt2 ^^ n) t) = pendingPacket t \<and>
    transmitLength ((interrupt2 ^^ n) t) = pendingLength t \<and>
    transmitRepeats ((interrupt2 ^^ n) t) = pendingRepeats t \<and>
    (\<forall>m < n. packetPending ((interrupt2 ^^ m) t))"
  using taken_over [OF assms(1,2) refl] by (simp add: n_def Let_def)

theorem pending_packet_taken_over_witness:
  "wf_track sample_track \<and> packetPending sample_track \<and>
   \<not> packetPending ((interrupt2 ^^ 16) sample_track) \<and>
   transmitPacket ((interrupt2 ^^ 16) sample_track) = [3, 0x3F, 0x9C, 0xA0, 0, 0]"
proof -
  have h: "wf_track sample_track" "packetPending sample_track" "transmitRepeats sample_track = 0"
    "to_promote sample_track = 16" "pendingPacket sample_track = [3, 0x3F, 0x9C, 0xA0, 0, 0]"
    by (simp_all add: sample_track_defs to_promote_def)
  with pending_packet_taken_over [OF h(1,2)] show ?thesis by simp
qed

text \<open>
  A scheduled packet carries a correct checksum: the bytes that will be sent are the given
  bytes followed by their exclusive-or, so all of them together XOR to zero, which is what every
  receiver checks.
\<close>

theorem scheduled_packet_checksum:
  assumes "wf_track t" and "\<not> packetPending t" and "n \<le> MAX_PACKET_SIZE" and "n \<le> length buffer"
  shows "\<exists>t'. schedulePacket buffer n repeats t = Some t' \<and> packetPending t' \<and>
    pendingRepeats t' = repeats \<and>
    take (pendingLength t') (pendingPacket t') = take n buffer @ [xor_all (take n buffer)] \<and>
    xor_all (take (pendingLength t') (pendingPacket t')) = 0 \<and> getResets t' = 0"
proof -
  let ?p = "(memcpy_into (pendingPacket t) buffer n)[n := xor_all (take n buffer)]"
  have len: "n < length (pendingPacket t)" using assms by (simp add: wf_track_def MAX_PACKET_SIZE_def)
  then have "n < length (memcpy_into (pendingPacket t) buffer n)"
    using assms(4) by simp
  then have "take (n + 1) ?p = take n buffer @ [xor_all (take n buffer)]"
    using assms(4) by (simp add: take_Suc_conv_app_nth)
  then show ?thesis
    using assms by (simp add: schedulePacket_def Let_def clearResets_def getResets_def)
qed

theorem scheduled_packet_checksum_witness:
  "wf_track (newTrack PREAMBLE_BITS_MAIN True) \<and>
   (\<exists>t'. schedulePacket [3, 0x3F, 0x9C] 3 0 (newTrack PREAMBLE_BITS_MAIN True) = Some t' \<and>
     take (pendingLength t') (pendingPacket t') = [3, 0x3F, 0x9C, 0xA0])"
proof -
  let ?t = "newTrack PREAMBLE_BITS_MAIN True"
  have h: "wf_track ?t" "\<not> packetPending ?t" "3 \<le> MAX_PACKET_SIZE"
    by (simp_all add: sample_track_defs)
  from scheduled_packet_checksum [OF h, of "[3, 0x3F, 0x9C]" 0] h(1) show ?thesis by auto
qed

text \<open>
  The shape of a bit on the rails. Whatever the track is doing, from the start of a bit the
  pin goes high then low over two interrupts for a one, and high for two and low for two
  interrupts for a zero; then the next bit starts, with the state \<open>interrupt2\<close> left.
\<close>

theorem bit_pulse_shape:
  assumes "wstate t = WAVE_START"
  shows "let u = interrupt2 (t\<lparr>wstate := WAVE_PENDING\<rparr>); one = (wstate u = WAVE_MID_1);
      n = (if one then 2 else 4)
    in pulses n t = (if one then [True, False] else [True, True, False, False]) \<and>
       ((\<lambda>t. fst (trackInterrupt t)) ^^ n) t = u\<lparr>wstate := WAVE_START\<rparr>"
proof -
  let ?u = "interrupt2 (t\<lparr>wstate := WAVE_PENDING\<rparr>)"
  have "wstate ?u = WAVE_MID_1 \<or> wstate ?u = WAVE_HIGH_0"
    by (simp add: interrupt2_def Let_def promotePendingPacket_def clearResets_def getResets_def)
  then show ?thesis
    using assms by (auto simp: trackInterrupt_def Let_def numeral_eq_Suc)
qed

theorem bit_pulse_shape_witness:
  "wstate sample_track = WAVE_START \<and> pulses 2 sample_track = [True, False]"
proof -
  have h: "wstate sample_track = WAVE_START" by (simp add: sample_track_defs)
  have "wstate (interrupt2 (sample_track\<lparr>wstate := WAVE_PENDING\<rparr>)) = WAVE_MID_1"
    by (simp add: sample_track_defs interrupt2_def)
  with bit_pulse_shape [OF h] h show ?thesis by (simp add: Let_def)
qed

text \<open>
  C38: the counters of a track stay in their bytes and the packet arrays are read inside their
  bounds, in every state reached by interrupts, by scheduling packets of at most
  \<open>MAX_PACKET_SIZE\<close> bytes and by shortening repeats.
\<close>

theorem track_reach_wf:
  assumes "track_reach t"
  shows "wf_track t \<and> bytes_sent t < length (transmitPacket t) \<and> bits_sent t < length bitMask \<and>
    transmitLength t \<le> length (transmitPacket t) \<and> pendingLength t \<le> length (pendingPacket t)"
proof -
  from assms have "wf_track t"
  proof (induction rule: track_reach.induct)
    case (power_up preambles isMain)
    then show ?case by (auto intro!: wf_newTrack simp: PREAMBLE_BITS_MAIN_def PREAMBLE_BITS_PROG_def)
  next
    case (waveform t)
    then show ?case by (simp add: trackInterrupt_def Let_def wf_wstate wf_interrupt2)
  next
    case (shortcut t)
    then show ?case by (simp add: wf_track_def clearRepeats_def)
  next
    case (resets t)
    then show ?case by (simp add: wf_track_def clearResets_def)
  qed (blast intro: wf_interrupt2 wf_schedulePacket)+
  then show ?thesis by (auto simp: wf_track_def bitMask_def MAX_PACKET_SIZE_def max_def split: if_splits)
qed

theorem track_reach_wf_witness:
  "track_reach (interrupt2 (newTrack PREAMBLE_BITS_MAIN True)) \<and>
   wf_track (interrupt2 (newTrack PREAMBLE_BITS_MAIN True))"
proof -
  have "track_reach (interrupt2 (newTrack PREAMBLE_BITS_MAIN True))"
    by (auto intro!: track_reach.intros)
  with track_reach_wf [OF this] show ?thesis by blast
qed

end
