(* ===== verification/PacketQueue.thy ===== *)
theory PacketQueue
  imports Prelude Waveform
begin

text \<open>
  The packet queues of the main track, \<^verbatim>\<open>src/DCCQueue.h\<close> and \<^verbatim>\<open>src/DCCQueue.cpp\<close>: a high and a low
  priority queue of \<open>PendingSlot\<close>s and a list of slots to reuse, all threaded through the slots'
  \<open>pnext\<close> pointers. The slots live in a heap; \<open>created\<close> counts those allocated so far, as in the
  source. The union of a slot (\<^verbatim>\<open>locoId\<close>, \<^verbatim>\<open>delayOff\<close>, \<^verbatim>\<open>startTime\<close>) is kept as the four bytes it
  is: \<open>startTime\<close> is the whole word, \<open>locoId\<close> and \<open>delayOff\<close> its low half, as on the little-endian
  processors the firmware is built for.

  A call of \<^verbatim>\<open>DCCWaveform::mainTrack.schedulePacket\<close> is returned as the \<open>transmission\<close> it asks for;
  each scheduling operation makes at most one. \<^verbatim>\<open>millis()\<close> is the argument \<open>now\<close>, the same for
  the calls within one operation. Diagnostic output is left out.
\<close>

section \<open>State\<close>

datatype PendingType = NORMAL_PACKET
  | FUNCTION1_PACKET | FUNCTION2_PACKET | FUNCTION3_PACKET | FUNCTION4_PACKET | FUNCTION5_PACKET
  | SPEED_PACKET | ACC_ON_PACKET | ACC_OFF_PACKET | DEAD_PACKET

record PendingSlot =
  pnext :: ptr
  ptype :: PendingType
  packetLength :: byte
  packetRepeat :: byte
  packet :: "byte list"
  startTime :: u32

definition locoId :: "PendingSlot \<Rightarrow> u16" where
  "locoId s = ucast (startTime s)"

definition delayOff :: "PendingSlot \<Rightarrow> u16" where
  "delayOff s = ucast (startTime s)"

definition set_low16 :: "u16 \<Rightarrow> PendingSlot \<Rightarrow> PendingSlot" where
  "set_low16 v s = s\<lparr>startTime := (startTime s AND 0xFFFF0000) OR ucast v\<rparr>"

record DCCQueue =
  head :: ptr
  tail :: ptr

record queues =
  pslots :: "addr \<Rightarrow> PendingSlot"
  created :: nat
  highPriorityQueue :: DCCQueue
  lowPriorityQueue :: DCCQueue
  recycleList :: ptr
  lastSentPacketLocoId :: u16

record transmission =
  tx_packet :: "byte list"
  tx_length :: byte
  tx_repeats :: byte

definition new_queues :: "(addr \<Rightarrow> PendingSlot) \<Rightarrow> queues" where
  "new_queues heap = \<lparr>pslots = heap, created = 0,
     highPriorityQueue = \<lparr>head = None, tail = None\<rparr>, lowPriorityQueue = \<lparr>head = None, tail = None\<rparr>,
     recycleList = None, lastSentPacketLocoId = 0\<rparr>"

section \<open>The queue primitives\<close>

type_synonym pheap = "addr \<Rightarrow> PendingSlot"

definition upd :: "addr \<Rightarrow> (PendingSlot \<Rightarrow> PendingSlot) \<Rightarrow> pheap \<Rightarrow> pheap" where
  "upd a f h = h(a := f (h a))"

definition addQueue :: "addr \<Rightarrow> pheap \<times> DCCQueue \<Rightarrow> pheap \<times> DCCQueue" where
  "addQueue p = (\<lambda>(h, q).
     (let (h, q) = (case tail q of
            Some t \<Rightarrow> (upd t (\<lambda>s. s\<lparr>pnext := Some p\<rparr>) h, q)
          | None \<Rightarrow> (h, q\<lparr>head := Some p\<rparr>));
          q = q\<lparr>tail := Some p\<rparr>
      in (upd p (\<lambda>s. s\<lparr>pnext := None\<rparr>) h, q)))"

definition jumpQueue :: "addr \<Rightarrow> pheap \<times> DCCQueue \<Rightarrow> pheap \<times> DCCQueue" where
  "jumpQueue p = (\<lambda>(h, q).
     (let h = upd p (\<lambda>s. s\<lparr>pnext := head q\<rparr>) h;
          q = q\<lparr>head := Some p\<rparr>
      in (h, if tail q = None then q\<lparr>tail := Some p\<rparr> else q)))"

text \<open>
  The loop of \<open>remove\<close>: \<open>previous\<close> trails \<open>p\<close> through the chain until the slot is met. A slot that
  is not in the queue leaves it unchanged (the code then only prints a diagnostic).
\<close>

fun remove_loop :: "addr \<Rightarrow> ptr \<Rightarrow> addr list \<Rightarrow> pheap \<times> DCCQueue \<Rightarrow> pheap \<times> DCCQueue" where
  "remove_loop premove previous [] (h, q) = (h, q)"
| "remove_loop premove previous (p # ps) (h, q) =
     (if p = premove then
        (let (h', q') = (case previous of
               Some v \<Rightarrow> (upd v (\<lambda>s. s\<lparr>pnext := pnext (h p)\<rparr>) h, q)
             | None \<Rightarrow> (h, q\<lparr>head := pnext (h p)\<rparr>))
         in (h', if Some p = tail q' then q'\<lparr>tail := previous\<rparr> else q'))
      else remove_loop premove (Some p) ps (h, q))"

definition remove :: "nat \<Rightarrow> addr \<Rightarrow> pheap \<times> DCCQueue \<Rightarrow> pheap \<times> DCCQueue" where
  "remove n premove = (\<lambda>(h, q).
     remove_loop premove None (walk n (\<lambda>a. pnext (h a)) (head q)) (h, q))"

definition queue_addrs :: "queues \<Rightarrow> DCCQueue \<Rightarrow> addr list" where
  "queue_addrs st q = walk (created st) (\<lambda>a. pnext (pslots st a)) (head q)"

definition recycle :: "addr \<Rightarrow> queues \<Rightarrow> queues" where
  "recycle p st = st\<lparr>pslots := upd p (\<lambda>s. s\<lparr>pnext := recycleList st\<rparr>) (pslots st),
                    recycleList := Some p\<rparr>"

definition on_high :: "(pheap \<times> DCCQueue \<Rightarrow> pheap \<times> DCCQueue) \<Rightarrow> queues \<Rightarrow> queues" where
  "on_high f st = (let (h, q) = f (pslots st, highPriorityQueue st)
                   in st\<lparr>pslots := h, highPriorityQueue := q\<rparr>)"

definition on_low :: "(pheap \<times> DCCQueue \<Rightarrow> pheap \<times> DCCQueue) \<Rightarrow> queues \<Rightarrow> queues" where
  "on_low f st = (let (h, q) = f (pslots st, lowPriorityQueue st)
                  in st\<lparr>pslots := h, lowPriorityQueue := q\<rparr>)"

definition getSlot :: "PendingType \<Rightarrow> byte list \<Rightarrow> byte \<Rightarrow> byte \<Rightarrow> u16 \<Rightarrow> queues \<Rightarrow> addr \<times> queues" where
  "getSlot type buf len repeats loco st =
     (let (p, st) = (case recycleList st of
            Some a \<Rightarrow> (a, st\<lparr>recycleList := pnext (pslots st a)\<rparr>)
          | None \<Rightarrow> (created st, st\<lparr>created := created st + 1\<rparr>));
          n = (if unat len > MAX_PACKET_SIZE then MAX_PACKET_SIZE else unat len)
      in (p, st\<lparr>pslots := upd p (\<lambda>s. set_low16 loco (s\<lparr>pnext := None, ptype := type,
               packetLength := len, packetRepeat := repeats, startTime := 0,
               packet := memcpy_into (packet s) buf n\<rparr>)) (pslots st)\<rparr>))"

section \<open>Scheduling\<close>

definition scheduleDCCPacket :: "byte list \<Rightarrow> byte \<Rightarrow> byte \<Rightarrow> u16 \<Rightarrow> queues \<Rightarrow> queues" where
  "scheduleDCCPacket buf len repeats loco st =
     (let (p, st) = getSlot NORMAL_PACKET buf len repeats loco st in on_low (addQueue p) st)"

definition overwrite :: "byte list \<Rightarrow> byte \<Rightarrow> byte \<Rightarrow> PendingSlot \<Rightarrow> PendingSlot" where
  "overwrite buf len repeats s =
     s\<lparr>packet := memcpy_into (packet s) buf (unat len), packetLength := len,
       packetRepeat := repeats\<rparr>"

definition scheduleDCCSpeedPacket :: "byte list \<Rightarrow> byte \<Rightarrow> byte \<Rightarrow> u16 \<Rightarrow> queues \<Rightarrow> queues" where
  "scheduleDCCSpeedPacket buf len repeats loco st =
     (case find (\<lambda>p. locoId (pslots st p) = loco) (queue_addrs st (highPriorityQueue st)) of
        Some p \<Rightarrow> st\<lparr>pslots := upd p (overwrite buf len repeats) (pslots st)\<rparr>
      | None \<Rightarrow> (let (p, st) = getSlot SPEED_PACKET buf len repeats loco st
                 in on_high (addQueue p) st))"

fun function_type :: "nat \<Rightarrow> PendingType option" where
  "function_type g =
     (if g = 1 then Some FUNCTION1_PACKET else if g = 2 then Some FUNCTION2_PACKET
      else if g = 3 then Some FUNCTION3_PACKET else if g = 4 then Some FUNCTION4_PACKET
      else if g = 5 then Some FUNCTION5_PACKET else None)"

definition scheduleDCCFunctionPacket :: "byte list \<Rightarrow> byte \<Rightarrow> u16 \<Rightarrow> nat \<Rightarrow> queues \<Rightarrow> queues" where
  "scheduleDCCFunctionPacket buf len loco fgroup st =
     (case function_type fgroup of
        None \<Rightarrow> st
      | Some type \<Rightarrow>
         (case find (\<lambda>p. locoId (pslots st p) = loco \<and> ptype (pslots st p) = type)
                 (queue_addrs st (lowPriorityQueue st)) of
            Some p \<Rightarrow> st\<lparr>pslots := upd p (overwrite buf len 0) (pslots st)\<rparr>
          | None \<Rightarrow> (let (p, st) = getSlot type buf len 0 loco st in on_low (addQueue p) st)))"

text \<open>
  The loop of \<open>scheduleEstopPacket\<close> reads a slot's successor before it may recycle the slot, so it
  visits the slots that are in the queue when it starts.
\<close>

definition estop_kills :: "u16 \<Rightarrow> PendingSlot \<Rightarrow> bool" where
  "estop_kills loco s \<longleftrightarrow> ptype s \<noteq> ACC_OFF_PACKET \<and> (loco = 0 \<or> locoId s = loco)"

fun estop_loop :: "u16 \<Rightarrow> addr list \<Rightarrow> queues \<Rightarrow> queues" where
  "estop_loop loco [] st = st"
| "estop_loop loco (p # ps) st =
     (if estop_kills loco (pslots st p)
      then estop_loop loco ps (recycle p (on_high (remove (created st) p) st))
      else estop_loop loco ps st)"

definition scheduleEstopPacket :: "byte list \<Rightarrow> byte \<Rightarrow> byte \<Rightarrow> u16 \<Rightarrow> queues \<Rightarrow> queues" where
  "scheduleEstopPacket buf len repeats loco st =
     (let st = estop_loop loco (queue_addrs st (highPriorityQueue st)) st;
          (p, st) = getSlot SPEED_PACKET buf len repeats 0 st
      in on_high (jumpQueue p) st)"

definition scheduleAccOnOffPacket :: "byte list \<Rightarrow> byte \<Rightarrow> byte \<Rightarrow> u16 \<Rightarrow> queues \<Rightarrow> queues" where
  "scheduleAccOnOffPacket buf len repeats delayms st =
     (let (p, st) = getSlot ACC_ON_PACKET buf len repeats 0 st;
          st = st\<lparr>pslots := upd p (set_low16 delayms) (pslots st)\<rparr>
      in on_low (addQueue p) st)"

text \<open>
  Choosing the next packet of one queue. \<open>skipped\<close> are the slots the loop passes over with
  \<^verbatim>\<open>continue\<close>; \<open>finish_slot\<close> is the removal after the last transmission of a slot, with the
  conversion of an accessory-on packet into its delayed off packet.
\<close>

definition skipped :: "u32 \<Rightarrow> u16 \<Rightarrow> PendingSlot \<Rightarrow> bool" where
  "skipped now lastLoco s \<longleftrightarrow>
     ptype s = ACC_OFF_PACKET \<and> now < startTime s \<or>
     locoId s \<noteq> 0 \<and> locoId s = lastLoco"

definition gate_off :: "u32 \<Rightarrow> PendingSlot \<Rightarrow> PendingSlot" where
  "gate_off now s = s\<lparr>ptype := ACC_OFF_PACKET,
     packet := (packet s)[1 := (packet s ! 1) AND NOT 0x08],
     startTime := now + ucast (delayOff s)\<rparr>"

definition finish_slot :: "u32 \<Rightarrow> addr \<Rightarrow> queues \<Rightarrow> queues" where
  "finish_slot now p st =
     (if ptype (pslots st p) = ACC_ON_PACKET
      then on_high (jumpQueue p) (st\<lparr>pslots := upd p (gate_off now) (pslots st)\<rparr>)
      else recycle p st)"

definition scheduleNextInternal ::
    "((pheap \<times> DCCQueue \<Rightarrow> pheap \<times> DCCQueue) \<Rightarrow> queues \<Rightarrow> queues) \<Rightarrow> (queues \<Rightarrow> DCCQueue) \<Rightarrow>
     u32 \<Rightarrow> queues \<Rightarrow> transmission option \<times> queues" where
  "scheduleNextInternal on_q get_q now st =
     (case find (\<lambda>p. \<not> skipped now (lastSentPacketLocoId st) (pslots st p))
             (queue_addrs st (get_q st)) of
        None \<Rightarrow> (None, st)
      | Some p \<Rightarrow>
         (let s = pslots st p
          in if locoId s \<noteq> 0 then
               (let tx = \<lparr>tx_packet = packet s, tx_length = packetLength s, tx_repeats = 0\<rparr>;
                    st = st\<lparr>lastSentPacketLocoId := locoId s\<rparr>
                in if packetRepeat s \<noteq> 0
                   then (Some tx, st\<lparr>pslots := upd p (\<lambda>s. s\<lparr>packetRepeat := packetRepeat s - 1\<rparr>) (pslots st)\<rparr>)
                   else (Some tx, finish_slot now p (on_q (remove (created st) p) st)))
             else
               (let tx = \<lparr>tx_packet = packet s, tx_length = packetLength s,
                          tx_repeats = packetRepeat s\<rparr>;
                    st = st\<lparr>lastSentPacketLocoId := 0\<rparr>
                in (Some tx, finish_slot now p (on_q (remove (created st) p) st)))))"

definition idle_tx :: transmission where
  "idle_tx = \<lparr>tx_packet = [0xFF, 0x00], tx_length = 2, tx_repeats = 0\<rparr>"

definition scheduleNext :: "bool \<Rightarrow> u32 \<Rightarrow> queues \<Rightarrow> transmission option \<times> queues" where
  "scheduleNext force now st =
     (case scheduleNextInternal on_high highPriorityQueue now st of
        (Some tx, st) \<Rightarrow> (Some tx, st)
      | (None, st) \<Rightarrow>
         (case scheduleNextInternal on_low lowPriorityQueue now st of
            (Some tx, st) \<Rightarrow> (Some tx, st)
          | (None, st) \<Rightarrow>
             if force then (Some idle_tx, st\<lparr>lastSentPacketLocoId := 0\<rparr>) else (None, st)))"

section \<open>Queues as lists of slots\<close>

abbreviation pn :: "pheap \<Rightarrow> addr \<Rightarrow> ptr" where
  "pn h \<equiv> (\<lambda>a. pnext (h a))"

definition last_ptr :: "addr list \<Rightarrow> ptr" where
  "last_ptr as = (if as = [] then None else Some (last as))"

definition qlist :: "pheap \<times> DCCQueue \<Rightarrow> addr list \<Rightarrow> bool" where
  "qlist = (\<lambda>(h, q) as. linked (pn h) (head q) as \<and> tail q = last_ptr as)"

definition same_data :: "pheap \<Rightarrow> pheap \<Rightarrow> bool" where
  "same_data h' h \<longleftrightarrow> (\<forall>a. (h' a)\<lparr>pnext := None\<rparr> = (h a)\<lparr>pnext := None\<rparr>)"

lemma last_ptr_simps [simp]:
  "last_ptr [] = None" "last_ptr (as @ [a]) = Some a" "last_ptr as = None \<longleftrightarrow> as = []"
  "last_ptr (a # as) = Some (last (a # as))"
  by (simp_all add: last_ptr_def)

lemma pn_upd [simp]: "pn (upd t f h) = (pn h)(t := pnext (f (h t)))"
  by (auto simp: upd_def)

lemma upd_apply: "upd t f h a = (if a = t then f (h a) else h a)"
  by (simp add: upd_def)

lemma upd_simps [simp]: "upd t f h t = f (h t)" "a \<noteq> t \<Longrightarrow> upd t f h a = h a"
  by (simp_all add: upd_def)

lemma packet_upd [simp]:
  "length (packet (upd t f h a)) =
     (if a = t then length (packet (f (h t))) else length (packet (h a)))"
  by (simp add: upd_apply)

lemma packet_upd_link [simp]: "packet (upd t (\<lambda>s. s\<lparr>pnext := v\<rparr>) h a) = packet (h a)"
  by (simp add: upd_apply)

lemma same_data_refl [simp]: "same_data h h"
  by (simp add: same_data_def)

lemma same_data_trans: "same_data a b \<Longrightarrow> same_data b c \<Longrightarrow> same_data a c"
  by (simp add: same_data_def)

lemma same_data_upd [simp]: "same_data (upd p (\<lambda>s. s\<lparr>pnext := v\<rparr>) h) h"
  by (simp add: same_data_def upd_apply)

lemma same_dataD:
  assumes "same_data h' h"
  shows "ptype (h' a) = ptype (h a)" "packetLength (h' a) = packetLength (h a)"
    "packetRepeat (h' a) = packetRepeat (h a)" "packet (h' a) = packet (h a)"
    "startTime (h' a) = startTime (h a)" "locoId (h' a) = locoId (h a)" "delayOff (h' a) = delayOff (h a)"
  using assms [unfolded same_data_def, rule_format, of a]
  by (cases "h' a"; cases "h a"; simp add: locoId_def delayOff_def)+

lemma addQueue_qlist:
  assumes "qlist (h, q) as" and "p \<notin> set as"
  shows "qlist (addQueue p (h, q)) (as @ [p])"
proof (cases as rule: rev_cases)
  case Nil
  with assms show ?thesis by (simp add: qlist_def addQueue_def)
next
  case (snoc bs t)
  with assms have "linked (pn h) (head q) (bs @ [t])" "tail q = Some t"
    by (simp_all add: qlist_def)
  with linked_snoc [OF this(1), of p] snoc assms(2) show ?thesis
    by (simp add: qlist_def addQueue_def last_ptr_def)
qed

lemma jumpQueue_qlist:
  "qlist (h, q) as \<Longrightarrow> p \<notin> set as \<Longrightarrow> qlist (jumpQueue p (h, q)) (p # as)"
  by (auto simp: qlist_def jumpQueue_def Let_def last_ptr_def)

lemma remove_loop_qlist:
  assumes "qlist (h, q) (pre @ rest)" and "previous = last_ptr pre" and "p \<in> set rest"
  shows "qlist (remove_loop p previous rest (h, q)) (pre @ remove1 p rest)"
  using assms
proof (induction rest arbitrary: pre previous)
  case Nil
  then show ?case by simp
next
  case (Cons x xs)
  from Cons.prems(1) have "linked (pn h) (head q) (pre @ x # xs)" by (simp add: qlist_def)
  then have dist: "distinct (pre @ x # xs)" by (rule linked_distinct)
  show ?case
  proof (cases "x = p")
    case False
    with Cons.IH [of "pre @ [x]" "Some x"] Cons.prems show ?thesis by auto
  next
    case True
    show ?thesis
    proof (cases pre rule: rev_cases)
      case Nil
      with True Cons.prems dist show ?thesis
        by (auto simp: qlist_def last_ptr_def split: if_splits)
    next
      case (snoc ys v)
      with Cons.prems(1) True have "linked (pn h) (head q) (ys @ [v] @ [p] @ xs)"
        by (simp add: qlist_def)
      from linked_unlink [OF this] snoc True Cons.prems dist show ?thesis
        by (auto simp: qlist_def last_ptr_def split: if_splits)
    qed
  qed
qed

lemma remove_qlist:
  assumes "qlist (h, q) as" and "p \<in> set as" and "set as \<subseteq> {..<n}"
  shows "qlist (remove n p (h, q)) (remove1 p as)"
proof -
  from assms have "walk n (pn h) (head q) = as"
    by (auto simp: qlist_def intro: linked_walk)
  with remove_loop_qlist [of h q "[]" as None p] assms show ?thesis
    by (simp add: remove_def)
qed

text \<open>
  What the rest of the memory sees of a queue operation: only links change, and only links of the
  slots of that queue and of the slot handed in.
\<close>

definition links_outside :: "addr set \<Rightarrow> pheap \<Rightarrow> pheap \<Rightarrow> bool" where
  "links_outside A h' h \<longleftrightarrow> same_data h' h \<and> (\<forall>a. a \<notin> A \<longrightarrow> pnext (h' a) = pnext (h a))"

lemma links_outside_upd: "p \<in> A \<Longrightarrow> links_outside A (upd p (\<lambda>s. s\<lparr>pnext := v\<rparr>) h) h"
  by (auto simp: links_outside_def upd_apply)

lemma links_outside_refl [simp]: "links_outside A h h"
  by (simp add: links_outside_def)

lemma links_outside_trans:
  "links_outside A h2 h1 \<Longrightarrow> links_outside A h1 h \<Longrightarrow> links_outside A h2 h"
  by (auto simp: links_outside_def intro: same_data_trans)

lemma addQueue_outside:
  assumes "qlist (h, q) as"
  shows "links_outside (insert p (set as)) (fst (addQueue p (h, q))) h"
proof (cases "tail q")
  case None
  then show ?thesis by (simp add: addQueue_def links_outside_upd)
next
  case (Some t)
  with assms have "t \<in> set as" by (auto simp: qlist_def last_ptr_def split: if_splits)
  with Some show ?thesis
    by (auto simp: addQueue_def intro!: links_outside_trans [OF links_outside_upd links_outside_upd])
qed

lemma jumpQueue_outside: "links_outside (insert p (set as)) (fst (jumpQueue p (h, q))) h"
  by (simp add: jumpQueue_def Let_def links_outside_upd)

lemma remove_loop_outside:
  "(\<And>v. previous = Some v \<Longrightarrow> v \<in> A) \<Longrightarrow> set ps \<subseteq> A \<Longrightarrow>
   links_outside A (fst (remove_loop p previous ps (h, q))) h"
  by (induction ps arbitrary: previous) (auto simp: links_outside_upd split: option.splits)

lemma remove_outside:
  assumes "qlist (h, q) as" and "set as \<subseteq> {..<n}"
  shows "links_outside (set as) (fst (remove n p (h, q))) h"
proof -
  from assms have "walk n (pn h) (head q) = as"
    by (auto simp: qlist_def intro: linked_walk)
  then show ?thesis
    using remove_loop_outside [of None "set as" as p h q] by (simp add: remove_def)
qed

section \<open>The contract of a slot queue\<close>

text \<open>
  What the scheduler relies on: a queue holds a list of slots, the three operations append, prepend
  and delete in that list, and nothing but links of the slots involved is written. The lemmas of
  the locale say what a scheduler gets from it for a queue that shares the heap with others.
\<close>

locale slot_queue =
  fixes rep :: "'h \<times> 'q \<Rightarrow> addr list \<Rightarrow> bool"
    and add :: "addr \<Rightarrow> 'h \<times> 'q \<Rightarrow> 'h \<times> 'q"
    and jump :: "addr \<Rightarrow> 'h \<times> 'q \<Rightarrow> 'h \<times> 'q"
    and del :: "nat \<Rightarrow> addr \<Rightarrow> 'h \<times> 'q \<Rightarrow> 'h \<times> 'q"
    and outside :: "addr set \<Rightarrow> 'h \<Rightarrow> 'h \<Rightarrow> bool"
  assumes rep_add: "rep (h, q) as \<Longrightarrow> p \<notin> set as \<Longrightarrow> rep (add p (h, q)) (as @ [p])"
    and rep_jump: "rep (h, q) as \<Longrightarrow> p \<notin> set as \<Longrightarrow> rep (jump p (h, q)) (p # as)"
    and rep_del: "rep (h, q) as \<Longrightarrow> p \<in> set as \<Longrightarrow> set as \<subseteq> {..<n} \<Longrightarrow>
      rep (del n p (h, q)) (remove1 p as)"
    and out_add: "rep (h, q) as \<Longrightarrow> outside (insert p (set as)) (fst (add p (h, q))) h"
    and out_jump: "rep (h, q) as \<Longrightarrow> outside (insert p (set as)) (fst (jump p (h, q))) h"
    and out_del: "rep (h, q) as \<Longrightarrow> set as \<subseteq> {..<n} \<Longrightarrow> outside (set as) (fst (del n p (h, q))) h"
    and rep_outside: "rep (h, q) as \<Longrightarrow> outside A h' h \<Longrightarrow> set as \<inter> A = {} \<Longrightarrow> rep (h', q) as"
    and rep_inj: "rep (h, q) as \<Longrightarrow> rep (h, q) bs \<Longrightarrow> as = bs"
    and rep_distinct: "rep (h, q) as \<Longrightarrow> distinct as"
begin

text \<open>Appending and then deleting a slot is no change, and neither is prepending it.\<close>

lemma add_del_same:
  assumes "rep (h, q) as" and "p \<notin> set as" and "set as \<subseteq> {..<n}" and "p < n"
  shows "rep (del n p (add p (h, q))) as"
proof -
  obtain h' q' where a: "add p (h, q) = (h', q')" by (cases "add p (h, q)")
  with rep_add [OF assms(1,2)] have "rep (h', q') (as @ [p])" by simp
  from rep_del [OF this, of p n] assms(2-4) have "rep (del n p (h', q')) as"
    by (simp add: remove1_append)
  with a show ?thesis by simp
qed

lemma jump_del_same:
  assumes "rep (h, q) as" and "p \<notin> set as" and "set as \<subseteq> {..<n}" and "p < n"
  shows "rep (del n p (jump p (h, q))) as"
proof -
  obtain h' q' where a: "jump p (h, q) = (h', q')" by (cases "jump p (h, q)")
  with rep_jump [OF assms(1,2)] have "rep (h', q') (p # as)" by simp
  from rep_del [OF this, of p n] assms(3,4) a show ?thesis by simp
qed

text \<open>A second queue on the same heap with other slots is not disturbed.\<close>

lemma add_other:
  "rep (h, q) as \<Longrightarrow> rep (h, q2) bs \<Longrightarrow> set bs \<inter> insert p (set as) = {} \<Longrightarrow>
   rep (fst (add p (h, q)), q2) bs"
  by (rule rep_outside [OF _ out_add])

lemma jump_other:
  "rep (h, q) as \<Longrightarrow> rep (h, q2) bs \<Longrightarrow> set bs \<inter> insert p (set as) = {} \<Longrightarrow>
   rep (fst (jump p (h, q)), q2) bs"
  by (rule rep_outside [OF _ out_jump])

lemma del_other:
  "rep (h, q) as \<Longrightarrow> rep (h, q2) bs \<Longrightarrow> set bs \<inter> set as = {} \<Longrightarrow> set as \<subseteq> {..<n} \<Longrightarrow>
   rep (fst (del n p (h, q)), q2) bs"
  by (rule rep_outside [OF _ out_del])

end

lemma links_outside_linked:
  "linked (pn h) p as \<Longrightarrow> links_outside A h' h \<Longrightarrow> set as \<inter> A = {} \<Longrightarrow> linked (pn h') p as"
  by (subst linked_cong [where nxt' = "pn h"]) (auto simp: links_outside_def)

interpretation pq: slot_queue qlist addQueue jumpQueue remove links_outside
proof (unfold_locales, goal_cases)
  case (7 h q as A h')
  then show ?case by (auto simp: qlist_def intro: links_outside_linked)
next
  case (8 h q as bs)
  then show ?case by (auto simp: qlist_def dest: linked_unique)
next
  case (9 h q as)
  then show ?case by (auto simp: qlist_def dest: linked_distinct)
qed (assumption | rule addQueue_qlist jumpQueue_qlist remove_qlist addQueue_outside
  jumpQueue_outside remove_outside)+

section \<open>The state invariant\<close>

text \<open>
  Every slot ever created is in exactly one place: in the high or the low queue, on the recycle
  list, or (within an operation) in the operation's hands. So no slot is leaked or shared.
\<close>

definition qrep :: "queues \<Rightarrow> addr list \<Rightarrow> addr list \<Rightarrow> addr list \<Rightarrow> addr list \<Rightarrow> bool" where
  "qrep st hs ls rs ds \<longleftrightarrow>
     qlist (pslots st, highPriorityQueue st) hs \<and> qlist (pslots st, lowPriorityQueue st) ls \<and>
     linked (pn (pslots st)) (recycleList st) rs \<and>
     distinct (hs @ ls @ rs @ ds) \<and> set (hs @ ls @ rs @ ds) = {..<created st} \<and>
     (\<forall>a. length (packet (pslots st a)) = MAX_PACKET_SIZE)"

definition queues_inv :: "queues \<Rightarrow> bool" where
  "queues_inv st \<longleftrightarrow> (\<exists>hs ls rs. qrep st hs ls rs [])"

lemma queues_invI: "qrep st hs ls rs [] \<Longrightarrow> queues_inv st"
  by (auto simp: queues_inv_def)

lemma qrep_new: "\<forall>a. length (packet (heap a)) = MAX_PACKET_SIZE \<Longrightarrow> qrep (new_queues heap) [] [] [] []"
  by (simp add: qrep_def new_queues_def qlist_def)

lemma qrep_addrs:
  assumes "qrep st hs ls rs ds"
  shows "queue_addrs st (highPriorityQueue st) = hs" "queue_addrs st (lowPriorityQueue st) = ls"
  using assms by (auto simp: qrep_def qlist_def queue_addrs_def intro!: linked_walk)

lemma qrep_distinct: "qrep st hs ls rs ds \<Longrightarrow> distinct (hs @ ls @ rs @ ds)"
  by (simp add: qrep_def)

lemma links_outside_packet: "links_outside A h' h \<Longrightarrow> packet (h' a) = packet (h a)"
  by (auto simp: links_outside_def dest: same_dataD)

lemma qrep_on_high_add:
  assumes "qrep st hs ls rs (p # ds)"
  shows "qrep (on_high (addQueue p) st) (hs @ [p]) ls rs ds"
proof -
  obtain h q where a: "addQueue p (pslots st, highPriorityQueue st) = (h, q)" by fastforce
  from assms have q: "qlist (pslots st, highPriorityQueue st) hs" and np: "p \<notin> set hs"
    and oth: "set ls \<inter> insert p (set hs) = {}" "set rs \<inter> insert p (set hs) = {}"
    by (auto simp: qrep_def)
  from addQueue_outside [OF q, of p] a have out: "links_outside (insert p (set hs)) h (pslots st)" by simp
  from pq.rep_add [OF q np] pq.rep_outside [OF _ out oth(1)] links_outside_linked [OF _ out oth(2)] a
    links_outside_packet [OF out] assms
  show ?thesis by (auto simp: qrep_def on_high_def)
qed

lemma qrep_on_high_jump:
  assumes "qrep st hs ls rs (p # ds)"
  shows "qrep (on_high (jumpQueue p) st) (p # hs) ls rs ds"
proof -
  obtain h q where a: "jumpQueue p (pslots st, highPriorityQueue st) = (h, q)" by fastforce
  from assms have q: "qlist (pslots st, highPriorityQueue st) hs" and np: "p \<notin> set hs"
    and oth: "set ls \<inter> insert p (set hs) = {}" "set rs \<inter> insert p (set hs) = {}"
    by (auto simp: qrep_def)
  from jumpQueue_outside [of p hs "pslots st" "highPriorityQueue st"] a
  have out: "links_outside (insert p (set hs)) h (pslots st)" by simp
  from pq.rep_jump [OF q np] pq.rep_outside [OF _ out oth(1)] links_outside_linked [OF _ out oth(2)] a
    links_outside_packet [OF out] assms
  show ?thesis by (auto simp: qrep_def on_high_def)
qed

lemma qrep_on_low_add:
  assumes "qrep st hs ls rs (p # ds)"
  shows "qrep (on_low (addQueue p) st) hs (ls @ [p]) rs ds"
proof -
  obtain h q where a: "addQueue p (pslots st, lowPriorityQueue st) = (h, q)" by fastforce
  from assms have q: "qlist (pslots st, lowPriorityQueue st) ls" and np: "p \<notin> set ls"
    and oth: "set hs \<inter> insert p (set ls) = {}" "set rs \<inter> insert p (set ls) = {}"
    by (auto simp: qrep_def)
  from addQueue_outside [OF q, of p] a have out: "links_outside (insert p (set ls)) h (pslots st)" by simp
  from pq.rep_add [OF q np] pq.rep_outside [OF _ out oth(1)] links_outside_linked [OF _ out oth(2)] a
    links_outside_packet [OF out] assms
  show ?thesis by (auto simp: qrep_def on_low_def)
qed

lemma qrep_on_high_remove:
  assumes "qrep st hs ls rs ds" and p: "p \<in> set hs"
  shows "qrep (on_high (remove (created st) p) st) (remove1 p hs) ls rs (p # ds)"
proof -
  obtain h q where a: "remove (created st) p (pslots st, highPriorityQueue st) = (h, q)" by fastforce
  from assms have q: "qlist (pslots st, highPriorityQueue st) hs" and b: "set hs \<subseteq> {..<created st}"
    and oth: "set ls \<inter> set hs = {}" "set rs \<inter> set hs = {}"
    by (auto simp: qrep_def)
  from remove_outside [OF q b, of p] a have out: "links_outside (set hs) h (pslots st)" by simp
  from pq.rep_del [OF q p b] pq.rep_outside [OF _ out oth(1)] links_outside_linked [OF _ out oth(2)] a
    links_outside_packet [OF out] assms
  show ?thesis by (auto simp: qrep_def on_high_def)
qed

lemma qrep_on_low_remove:
  assumes "qrep st hs ls rs ds" and p: "p \<in> set ls"
  shows "qrep (on_low (remove (created st) p) st) hs (remove1 p ls) rs (p # ds)"
proof -
  obtain h q where a: "remove (created st) p (pslots st, lowPriorityQueue st) = (h, q)" by fastforce
  from assms have q: "qlist (pslots st, lowPriorityQueue st) ls" and b: "set ls \<subseteq> {..<created st}"
    and oth: "set hs \<inter> set ls = {}" "set rs \<inter> set ls = {}"
    by (auto simp: qrep_def)
  from remove_outside [OF q b, of p] a have out: "links_outside (set ls) h (pslots st)" by simp
  from pq.rep_del [OF q p b] pq.rep_outside [OF _ out oth(1)] links_outside_linked [OF _ out oth(2)] a
    links_outside_packet [OF out] assms
  show ?thesis by (auto simp: qrep_def on_low_def)
qed

lemma qrep_recycle: "qrep st hs ls rs (p # ds) \<Longrightarrow> qrep (recycle p st) hs ls (p # rs) ds"
  by (auto simp: qrep_def recycle_def qlist_def)

text \<open>Rewriting the data of a slot, its link aside.\<close>

lemma qrep_data:
  assumes "qrep st hs ls rs ds" and "\<And>s. pnext (f s) = pnext s"
    and "length (packet (f (pslots st p))) = MAX_PACKET_SIZE"
  shows "qrep (st\<lparr>pslots := upd p f (pslots st)\<rparr>) hs ls rs ds"
proof -
  have "pn (upd p f (pslots st)) = pn (pslots st)" by (auto simp: upd_apply assms(2))
  then have "linked (pn (upd p f (pslots st))) = linked (pn (pslots st))" by simp
  with assms(1,3) show ?thesis by (simp add: qrep_def qlist_def upd_apply)
qed

lemma qrep_last: "qrep (st\<lparr>lastSentPacketLocoId := l\<rparr>) hs ls rs ds = qrep st hs ls rs ds"
  by (simp add: qrep_def)

lemma length_packet_set_low16 [simp]:
  "packet (set_low16 v s) = packet s" "pnext (set_low16 v s) = pnext s" "ptype (set_low16 v s) = ptype s"
  "packetLength (set_low16 v s) = packetLength s" "packetRepeat (set_low16 v s) = packetRepeat s"
  by (simp_all add: set_low16_def)

lemma low16_or_push: "ucast ((t AND push_bit 16 m) OR ucast v :: u32) = (v :: u16)"
  by (rule bit_word_eqI) (auto simp: bit_simps)

lemma low16_or: "ucast ((t AND 0xFFFF0000) OR ucast v :: u32) = (v :: u16)"
  using low16_or_push [of t "0xFFFF" v] by simp

lemma locoId_set_low16 [simp]: "locoId (set_low16 v s) = v" "delayOff (set_low16 v s) = v"
  by (simp_all add: locoId_def delayOff_def set_low16_def low16_or)

lemma startTime_set_low16_0: "startTime s = 0 \<Longrightarrow> startTime (set_low16 v s) = ucast v"
  by (simp add: set_low16_def)

text \<open>\<open>getSlot\<close> hands out a slot that is in neither queue, initialised as asked.\<close>

lemma getSlot_qrep:
  assumes "qrep st hs ls rs ds" and get: "getSlot ty buf len rep loco st = (p, st')"
    and len: "unat len \<le> MAX_PACKET_SIZE" "unat len \<le> length buf"
  shows "\<exists>rs'. qrep st' hs ls rs' (p # ds) \<and> (\<forall>a \<in> set (hs @ ls). pslots st' a = pslots st a) \<and>
    lastSentPacketLocoId st' = lastSentPacketLocoId st \<and>
    ptype (pslots st' p) = ty \<and> packetLength (pslots st' p) = len \<and>
    packetRepeat (pslots st' p) = rep \<and> startTime (pslots st' p) = ucast loco \<and>
    take (unat len) (packet (pslots st' p)) = take (unat len) buf"
proof (cases "recycleList st")
  case (Some a)
  with assms(1) obtain rs2 where rs: "rs = a # rs2" "linked (pn (pslots st)) (pnext (pslots st a)) rs2"
    by (auto simp: qrep_def linked_Some)
  with Some get len assms(1) show ?thesis
    by (intro exI [of _ rs2])
      (auto simp: qrep_def getSlot_def Let_def qlist_def startTime_set_low16_0 intro!: upd_simps(2))
next
  case None
  with assms(1) have rs: "rs = []" and bound: "set (hs @ ls @ ds) = {..<created st}"
    by (auto simp: qrep_def)
  then have fresh: "created st \<notin> set hs" "created st \<notin> set ls" "created st \<notin> set ds" by auto
  with None rs bound get len assms(1) show ?thesis
    by (intro exI [of _ "[]"])
      (auto simp: qrep_def getSlot_def Let_def qlist_def startTime_set_low16_0 intro!: upd_simps(2))
qed

section \<open>Abstract specification\<close>

text \<open>
  The queue manager seen from outside: two lists of entries and the loco last sent to. An entry is
  what a slot means, without its link and without the bytes of its array that are not part of
  the packet.
\<close>

record entry =
  e_type :: PendingType
  e_bytes :: "byte list"
  e_repeat :: byte
  e_tag :: u32

record aqueues =
  ahigh :: "entry list"
  alow :: "entry list"
  alast :: u16

definition e_loco :: "entry \<Rightarrow> u16" where
  "e_loco e = ucast (e_tag e)"

definition entry_of :: "PendingSlot \<Rightarrow> entry" where
  "entry_of s = \<lparr>e_type = ptype s, e_bytes = take (unat (packetLength s)) (packet s),
     e_repeat = packetRepeat s, e_tag = startTime s\<rparr>"

definition entries :: "pheap \<Rightarrow> addr list \<Rightarrow> entry list" where
  "entries h as = map (\<lambda>a. entry_of (h a)) as"

definition abs_queues :: "queues \<Rightarrow> aqueues" where
  "abs_queues st = \<lparr>ahigh = entries (pslots st) (queue_addrs st (highPriorityQueue st)),
     alow = entries (pslots st) (queue_addrs st (lowPriorityQueue st)),
     alast = lastSentPacketLocoId st\<rparr>"

definition a_packet :: "byte list \<Rightarrow> byte \<Rightarrow> byte \<Rightarrow> u16 \<Rightarrow> aqueues \<Rightarrow> aqueues" where
  "a_packet buf len repeats loco aq =
     aq\<lparr>alow := alow aq @ [\<lparr>e_type = NORMAL_PACKET, e_bytes = take (unat len) buf,
                            e_repeat = repeats, e_tag = ucast loco\<rparr>]\<rparr>"

definition a_speed :: "byte list \<Rightarrow> byte \<Rightarrow> byte \<Rightarrow> u16 \<Rightarrow> aqueues \<Rightarrow> aqueues" where
  "a_speed buf len repeats loco aq =
     (if \<exists>e \<in> set (ahigh aq). e_loco e = loco
      then aq\<lparr>ahigh := replace_first (\<lambda>e. e_loco e = loco)
                (\<lambda>e. e\<lparr>e_bytes := take (unat len) buf, e_repeat := repeats\<rparr>) (ahigh aq)\<rparr>
      else aq\<lparr>ahigh := ahigh aq @ [\<lparr>e_type = SPEED_PACKET, e_bytes = take (unat len) buf,
                                    e_repeat = repeats, e_tag = ucast loco\<rparr>]\<rparr>)"

definition a_function :: "byte list \<Rightarrow> byte \<Rightarrow> u16 \<Rightarrow> PendingType \<Rightarrow> aqueues \<Rightarrow> aqueues" where
  "a_function buf len loco ty aq =
     (let P = (\<lambda>e. e_loco e = loco \<and> e_type e = ty)
      in if \<exists>e \<in> set (alow aq). P e
         then aq\<lparr>alow := replace_first P
                (\<lambda>e. e\<lparr>e_bytes := take (unat len) buf, e_repeat := 0\<rparr>) (alow aq)\<rparr>
         else aq\<lparr>alow := alow aq @ [\<lparr>e_type = ty, e_bytes = take (unat len) buf,
                                     e_repeat = 0, e_tag = ucast loco\<rparr>]\<rparr>)"

definition a_estop :: "byte list \<Rightarrow> byte \<Rightarrow> byte \<Rightarrow> u16 \<Rightarrow> aqueues \<Rightarrow> aqueues" where
  "a_estop buf len repeats loco aq =
     aq\<lparr>ahigh := \<lparr>e_type = SPEED_PACKET, e_bytes = take (unat len) buf, e_repeat = repeats, e_tag = 0\<rparr> #
        filter (\<lambda>e. e_type e = ACC_OFF_PACKET \<or> loco \<noteq> 0 \<and> e_loco e \<noteq> loco) (ahigh aq)\<rparr>"

definition a_accOnOff :: "byte list \<Rightarrow> byte \<Rightarrow> byte \<Rightarrow> u16 \<Rightarrow> aqueues \<Rightarrow> aqueues" where
  "a_accOnOff buf len repeats delayms aq =
     aq\<lparr>alow := alow aq @ [\<lparr>e_type = ACC_ON_PACKET, e_bytes = take (unat len) buf,
                            e_repeat = repeats, e_tag = ucast delayms\<rparr>]\<rparr>"

text \<open>Choosing: which entry may go now, what is sent, and what is left of the queue.\<close>

definition a_ready :: "u32 \<Rightarrow> u16 \<Rightarrow> entry \<Rightarrow> bool" where
  "a_ready now lastLoco e \<longleftrightarrow>
     \<not> (e_type e = ACC_OFF_PACKET \<and> now < e_tag e) \<and> \<not> (e_loco e \<noteq> 0 \<and> e_loco e = lastLoco)"

definition a_again :: "entry \<Rightarrow> bool" where
  "a_again e \<longleftrightarrow> e_loco e \<noteq> 0 \<and> e_repeat e \<noteq> 0"

definition a_sent :: "entry \<Rightarrow> byte list \<times> byte" where
  "a_sent e = (e_bytes e, if e_loco e \<noteq> 0 then 0 else e_repeat e)"

definition a_off :: "u32 \<Rightarrow> entry \<Rightarrow> entry list" where
  "a_off now e = (if e_type e = ACC_ON_PACKET
     then [e\<lparr>e_type := ACC_OFF_PACKET,
             e_bytes := (e_bytes e)[1 := (e_bytes e ! 1) AND NOT 0x08],
             e_tag := now + ucast (e_loco e)\<rparr>]
     else [])"

definition a_rest :: "u32 \<Rightarrow> u16 \<Rightarrow> entry \<Rightarrow> entry list \<Rightarrow> entry list" where
  "a_rest now lastLoco e es =
     (if a_again e then replace_first (a_ready now lastLoco) (\<lambda>e. e\<lparr>e_repeat := e_repeat e - 1\<rparr>) es
      else remove_first (a_ready now lastLoco) es)"

definition a_next :: "u32 \<Rightarrow> aqueues \<Rightarrow> (byte list \<times> byte) option \<times> aqueues" where
  "a_next now aq =
     (case find (a_ready now (alast aq)) (ahigh aq) of
        Some e \<Rightarrow> (Some (a_sent e),
          aq\<lparr>ahigh := (if a_again e then [] else a_off now e) @ a_rest now (alast aq) e (ahigh aq),
             alast := e_loco e\<rparr>)
      | None \<Rightarrow>
         (case find (a_ready now (alast aq)) (alow aq) of
            Some e \<Rightarrow> (Some (a_sent e),
              aq\<lparr>ahigh := (if a_again e then [] else a_off now e) @ ahigh aq,
                 alow := a_rest now (alast aq) e (alow aq), alast := e_loco e\<rparr>)
          | None \<Rightarrow> (None, aq)))"

section \<open>Refinement lemmas\<close>

lemma abs_queues_qrep:
  "qrep st hs ls rs ds \<Longrightarrow>
   abs_queues st = \<lparr>ahigh = entries (pslots st) hs, alow = entries (pslots st) ls,
                    alast = lastSentPacketLocoId st\<rparr>"
  by (simp add: abs_queues_def qrep_addrs)

lemma entry_of_link [simp]: "entry_of (s\<lparr>pnext := v\<rparr>) = entry_of s"
  by (simp add: entry_of_def)

lemma entries_same_data: "same_data h' h \<Longrightarrow> entries h' as = entries h as"
  by (simp add: entries_def entry_of_def same_dataD)

lemma entry_same_data: "same_data h' h \<Longrightarrow> entry_of (h' a) = entry_of (h a)"
  by (simp add: entry_of_def same_dataD)

lemma entries_outside: "links_outside A h' h \<Longrightarrow> entries h' as = entries h as"
  by (auto simp: links_outside_def intro: entries_same_data)

lemma entries_simps [simp]:
  "entries h [] = []" "entries h (a # as) = entry_of (h a) # entries h as"
  "entries h (as @ bs) = entries h as @ entries h bs"
  by (simp_all add: entries_def)

lemma entries_cong: "(\<And>a. a \<in> set as \<Longrightarrow> h a = h' a) \<Longrightarrow> entries h as = entries h' as"
  by (simp add: entries_def)

lemma entries_upd_other [simp]: "p \<notin> set as \<Longrightarrow> entries (upd p f h) as = entries h as"
  by (intro entries_cong) (auto simp: upd_apply)

lemma e_loco_entry_of [simp]: "e_loco (entry_of s) = locoId s"
  by (simp add: e_loco_def locoId_def entry_of_def)

lemma find_entries: "find (\<lambda>a. P (entry_of (h a))) as = Some p \<Longrightarrow>
    find P (entries h as) = Some (entry_of (h p)) \<and> p \<in> set as"
  by (induction as) (auto split: if_splits)

lemma find_entries_None: "find (\<lambda>a. P (entry_of (h a))) as = None \<longleftrightarrow> find P (entries h as) = None"
  by (induction as) auto

lemma entries_replace:
  "find (\<lambda>a. P (entry_of (h a))) as = Some p \<Longrightarrow> distinct as \<Longrightarrow>
   entry_of (f (h p)) = g (entry_of (h p)) \<Longrightarrow>
   entries (upd p f h) as = replace_first P g (entries h as)"
  by (induction as) (auto simp: upd_apply split: if_splits dest: find_entries)

lemma entries_remove:
  "find (\<lambda>a. P (entry_of (h a))) as = Some p \<Longrightarrow> distinct as \<Longrightarrow>
   entries h (remove1 p as) = remove_first P (entries h as)"
  by (induction as) (auto split: if_splits dest: find_entries)

lemma on_high_data:
  assumes "\<And>h q. same_data (fst (f (h, q))) h"
  shows "same_data (pslots (on_high f st)) (pslots st)"
    "lastSentPacketLocoId (on_high f st) = lastSentPacketLocoId st"
    "created (on_high f st) = created st"
  using assms [of "pslots st" "highPriorityQueue st"]
  by (auto simp: on_high_def split: prod.splits)

lemma on_low_data:
  assumes "\<And>h q. same_data (fst (f (h, q))) h"
  shows "same_data (pslots (on_low f st)) (pslots st)"
    "lastSentPacketLocoId (on_low f st) = lastSentPacketLocoId st"
    "created (on_low f st) = created st"
  using assms [of "pslots st" "lowPriorityQueue st"]
  by (auto simp: on_low_def split: prod.splits)

lemma addQueue_data: "same_data (fst (addQueue p (h, q))) h"
  by (auto simp: addQueue_def intro: same_data_trans [OF same_data_upd same_data_upd] split: option.splits)

lemma jumpQueue_data: "same_data (fst (jumpQueue p (h, q))) h"
  by (simp add: jumpQueue_def Let_def)

lemma remove_loop_data: "same_data (fst (remove_loop p v ps (h, q))) h"
  by (induction ps arbitrary: v) (auto split: option.splits)

lemma remove_data: "same_data (fst (remove n p (h, q))) h"
  by (simp add: remove_def remove_loop_data)

lemmas queue_data =
  on_high_data [where f = "addQueue _", OF addQueue_data] on_low_data [where f = "addQueue _", OF addQueue_data]
  on_high_data [where f = "jumpQueue _", OF jumpQueue_data]
  on_high_data [where f = "remove _ _", OF remove_data] on_low_data [where f = "remove _ _", OF remove_data]

text \<open>Each scheduling call keeps the invariant and does to the lists what the specification says.\<close>

lemma entry_of_new:
  "ptype s = ty \<Longrightarrow> packetLength s = len \<Longrightarrow> packetRepeat s = rep \<Longrightarrow> startTime s = tag \<Longrightarrow>
   take (unat len) (packet s) = bytes \<Longrightarrow>
   entry_of s = \<lparr>e_type = ty, e_bytes = bytes, e_repeat = rep, e_tag = tag\<rparr>"
  by (auto simp: entry_of_def)

lemma get_add_low:
  assumes r: "qrep st hs ls rs []" and len: "unat len \<le> MAX_PACKET_SIZE" "unat len \<le> length buf"
    and g: "getSlot ty buf len rep loco st = (p, st1)"
    and f: "\<And>s. pnext (f s) = pnext s" "\<And>s. packet (f s) = packet s"
  defines "st2 \<equiv> st1\<lparr>pslots := upd p f (pslots st1)\<rparr>"
  shows "\<exists>rs'. qrep (on_low (addQueue p) st2) hs (ls @ [p]) rs' [] \<and>
    abs_queues (on_low (addQueue p) st2) =
      (abs_queues st)\<lparr>alow := alow (abs_queues st) @ [entry_of (f (pslots st1 p))]\<rparr>"
proof -
  from getSlot_qrep [OF r g len] obtain rs' where r1: "qrep st1 hs ls rs' [p]"
    and same: "\<forall>a \<in> set (hs @ ls). pslots st1 a = pslots st a"
    and last: "lastSentPacketLocoId st1 = lastSentPacketLocoId st" by blast
  have "length (packet (f (pslots st1 p))) = MAX_PACKET_SIZE" using r1 f by (simp add: qrep_def)
  from qrep_data [OF r1 f(1) this] have r2: "qrep st2 hs ls rs' [p]" by (simp add: st2_def)
  from qrep_on_low_add [OF this] have r3: "qrep (on_low (addQueue p) st2) hs (ls @ [p]) rs' []" .
  have p: "p \<notin> set hs" "p \<notin> set ls" using r1 by (auto simp: qrep_def)
  have "entries (pslots st1) hs = entries (pslots st) hs" "entries (pslots st1) ls = entries (pslots st) ls"
    using same by (auto intro: entries_cong)
  with p have "entries (pslots (on_low (addQueue p) st2)) hs = entries (pslots st) hs"
    "entries (pslots (on_low (addQueue p) st2)) (ls @ [p]) = entries (pslots st) ls @ [entry_of (f (pslots st1 p))]"
    by (simp_all add: entries_same_data [OF queue_data(4)] entry_same_data [OF queue_data(4)] st2_def)
  moreover have "lastSentPacketLocoId (on_low (addQueue p) st2) = lastSentPacketLocoId st"
    using last by (simp add: queue_data st2_def)
  ultimately show ?thesis
    using r3 abs_queues_qrep [OF r3] abs_queues_qrep [OF r] by auto
qed

lemma scheduleDCCPacket_ref:
  assumes "qrep st hs ls rs []" and "unat len \<le> MAX_PACKET_SIZE" "unat len \<le> length buf"
  shows "queues_inv (scheduleDCCPacket buf len rep loco st) \<and>
    abs_queues (scheduleDCCPacket buf len rep loco st) = a_packet buf len rep loco (abs_queues st)"
proof -
  obtain p st1 where g: "getSlot NORMAL_PACKET buf len rep loco st = (p, st1)" by fastforce
  from getSlot_qrep [OF assms(1) g assms(2,3)]
  have "entry_of (pslots st1 p) = \<lparr>e_type = NORMAL_PACKET, e_bytes = take (unat len) buf,
      e_repeat = rep, e_tag = ucast loco\<rparr>"
    by (auto intro!: entry_of_new)
  moreover have "upd p (\<lambda>s. s) (pslots st1) = pslots st1" by (simp add: upd_def)
  ultimately show ?thesis
    using get_add_low [OF assms g, of "\<lambda>s. s"] g
    by (auto simp: queues_inv_def scheduleDCCPacket_def a_packet_def)
qed

lemma scheduleAccOnOffPacket_ref:
  assumes "qrep st hs ls rs []" and "unat len \<le> MAX_PACKET_SIZE" "unat len \<le> length buf"
  shows "queues_inv (scheduleAccOnOffPacket buf len rep d st) \<and>
    abs_queues (scheduleAccOnOffPacket buf len rep d st) = a_accOnOff buf len rep d (abs_queues st)"
proof -
  obtain p st1 where g: "getSlot ACC_ON_PACKET buf len rep 0 st = (p, st1)" by fastforce
  from getSlot_qrep [OF assms(1) g assms(2,3)]
  have "entry_of (set_low16 d (pslots st1 p)) = \<lparr>e_type = ACC_ON_PACKET, e_bytes = take (unat len) buf,
      e_repeat = rep, e_tag = ucast d\<rparr>"
    by (auto intro!: entry_of_new simp: startTime_set_low16_0)
  then show ?thesis
    using get_add_low [OF assms g, of "set_low16 d"] g
    by (auto simp: queues_inv_def scheduleAccOnOffPacket_def a_accOnOff_def)
qed

lemma entry_of_overwrite:
  assumes "unat len \<le> length buf"
  shows "entry_of (overwrite buf len rep s) =
    (entry_of s)\<lparr>e_bytes := take (unat len) buf, e_repeat := rep\<rparr>"
  using assms by (simp add: entry_of_def overwrite_def)

lemma overwrite_qrep:
  assumes "qrep st hs ls rs ds" and "unat len \<le> MAX_PACKET_SIZE" "unat len \<le> length buf"
  shows "qrep (st\<lparr>pslots := upd p (overwrite buf len rep) (pslots st)\<rparr>) hs ls rs ds"
  using assms by (intro qrep_data) (auto simp: overwrite_def qrep_def)

lemma scheduleDCCSpeedPacket_ref:
  assumes r: "qrep st hs ls rs []" and len: "unat len \<le> MAX_PACKET_SIZE" "unat len \<le> length buf"
  shows "queues_inv (scheduleDCCSpeedPacket buf len rep loco st) \<and>
    abs_queues (scheduleDCCSpeedPacket buf len rep loco st) = a_speed buf len rep loco (abs_queues st)"
proof -
  let ?P = "\<lambda>e. e_loco e = loco"
  note abs = abs_queues_qrep [OF r] and addrs = qrep_addrs [OF r]
  have dist: "distinct hs" "set hs \<inter> set ls = {}" using qrep_distinct [OF r] by auto
  show ?thesis
  proof (cases "find (\<lambda>p. ?P (entry_of (pslots st p))) hs")
    case (Some p)
    let ?st = "st\<lparr>pslots := upd p (overwrite buf len rep) (pslots st)\<rparr>"
    have r': "qrep ?st hs ls rs []" using r len by (rule overwrite_qrep)
    from find_entries [OF Some] have ex: "\<exists>e \<in> set (entries (pslots st) hs). ?P e" and p: "p \<notin> set ls"
      using dist by (auto simp: find_Some_iff)
    have "entries (upd p (overwrite buf len rep) (pslots st)) hs = replace_first ?P
        (\<lambda>e. e\<lparr>e_bytes := take (unat len) buf, e_repeat := rep\<rparr>) (entries (pslots st) hs)"
      using Some dist(1) len(2) by (intro entries_replace) (auto simp: entry_of_overwrite)
    with Some p ex abs abs_queues_qrep [OF r'] r' show ?thesis
      by (auto simp: scheduleDCCSpeedPacket_def addrs a_speed_def queues_inv_def)
  next
    case None
    obtain p st1 where g: "getSlot SPEED_PACKET buf len rep loco st = (p, st1)" by fastforce
    from getSlot_qrep [OF r g len] obtain rs' where r1: "qrep st1 hs ls rs' [p]"
      and same: "\<forall>a \<in> set (hs @ ls). pslots st1 a = pslots st a"
      and last: "lastSentPacketLocoId st1 = lastSentPacketLocoId st"
      and new: "entry_of (pslots st1 p) = \<lparr>e_type = SPEED_PACKET, e_bytes = take (unat len) buf,
        e_repeat = rep, e_tag = ucast loco\<rparr>"
      by (auto intro!: entry_of_new)
    from qrep_on_high_add [OF r1] have r2: "qrep (on_high (addQueue p) st1) (hs @ [p]) ls rs' []" .
    have "entries (pslots st1) hs = entries (pslots st) hs" "entries (pslots st1) ls = entries (pslots st) ls"
      using same by (auto intro: entries_cong)
    then have "abs_queues (on_high (addQueue p) st1) = (abs_queues st)\<lparr>ahigh := ahigh (abs_queues st) @
        [\<lparr>e_type = SPEED_PACKET, e_bytes = take (unat len) buf, e_repeat = rep, e_tag = ucast loco\<rparr>]\<rparr>"
      using abs abs_queues_qrep [OF r2] new last
      by (simp add: entries_same_data [OF queue_data(1)] entry_same_data [OF queue_data(1)] queue_data)
    moreover have "\<not> (\<exists>e \<in> set (entries (pslots st) hs). ?P e)"
      using None find_entries_None [of ?P "pslots st" hs] by (simp add: find_None_iff)
    ultimately show ?thesis
      using None g r2 abs by (auto simp: scheduleDCCSpeedPacket_def addrs a_speed_def queues_inv_def)
  qed
qed

lemma scheduleDCCFunctionPacket_ref:
  assumes r: "qrep st hs ls rs []" and len: "unat len \<le> MAX_PACKET_SIZE" "unat len \<le> length buf"
    and ty: "function_type g = Some ty"
  shows "queues_inv (scheduleDCCFunctionPacket buf len loco g st) \<and>
    abs_queues (scheduleDCCFunctionPacket buf len loco g st) = a_function buf len loco ty (abs_queues st)"
proof -
  let ?P = "\<lambda>e. e_loco e = loco \<and> e_type e = ty"
  note abs = abs_queues_qrep [OF r] and addrs = qrep_addrs [OF r]
  have dist: "distinct ls" "set hs \<inter> set ls = {}" using qrep_distinct [OF r] by auto
  have ptype: "e_type (entry_of s) = ptype s" for s by (simp add: entry_of_def)
  show ?thesis
  proof (cases "find (\<lambda>p. ?P (entry_of (pslots st p))) ls")
    case (Some p)
    let ?st = "st\<lparr>pslots := upd p (overwrite buf len 0) (pslots st)\<rparr>"
    have r': "qrep ?st hs ls rs []" using r len by (rule overwrite_qrep)
    from find_entries [OF Some] have ex: "\<exists>e \<in> set (entries (pslots st) ls). ?P e" and p: "p \<notin> set hs"
      using dist by (auto simp: find_Some_iff)
    have "entries (upd p (overwrite buf len 0) (pslots st)) ls = replace_first ?P
        (\<lambda>e. e\<lparr>e_bytes := take (unat len) buf, e_repeat := 0\<rparr>) (entries (pslots st) ls)"
      using Some dist(1) len(2) by (intro entries_replace) (auto simp: entry_of_overwrite)
    with Some p ex abs abs_queues_qrep [OF r'] r' ty show ?thesis
      by (auto simp: scheduleDCCFunctionPacket_def addrs a_function_def queues_inv_def ptype Let_def)
  next
    case None
    obtain p st1 where g: "getSlot ty buf len 0 loco st = (p, st1)" by fastforce
    from getSlot_qrep [OF r g len]
    have "entry_of (pslots st1 p) = \<lparr>e_type = ty, e_bytes = take (unat len) buf,
        e_repeat = 0, e_tag = ucast loco\<rparr>"
      by (auto intro!: entry_of_new)
    moreover have "upd p (\<lambda>s. s) (pslots st1) = pslots st1" by (simp add: upd_def)
    moreover have "\<not> (\<exists>e \<in> set (entries (pslots st) ls). ?P e)"
      using None find_entries_None [of ?P "pslots st" ls] by (simp add: find_None_iff)
    ultimately show ?thesis
      using get_add_low [OF r len g, of "\<lambda>s. s"] g None ty abs
      by (auto simp: queues_inv_def scheduleDCCFunctionPacket_def addrs a_function_def ptype Let_def)
  qed
qed

text \<open>The loop that clears a loco's throttle packets out of the high priority queue.\<close>

lemma estop_kills_entry:
  "\<not> estop_kills loco s \<longleftrightarrow>
     e_type (entry_of s) = ACC_OFF_PACKET \<or> loco \<noteq> 0 \<and> e_loco (entry_of s) \<noteq> loco"
  by (auto simp: estop_kills_def entry_of_def e_loco_def locoId_def)

lemma estop_kills_same: "same_data h' h \<Longrightarrow> estop_kills loco (h' a) = estop_kills loco (h a)"
  by (simp add: estop_kills_def same_dataD)

lemma recycle_data:
  "same_data (pslots (recycle p st)) (pslots st)" "created (recycle p st) = created st"
  "lastSentPacketLocoId (recycle p st) = lastSentPacketLocoId st"
  by (simp_all add: recycle_def)

lemma estop_loop_qrep:
  assumes "qrep st (pre @ ps) ls rs ds"
  shows "\<exists>rs'. qrep (estop_loop loco ps st) (pre @ filter (\<lambda>p. \<not> estop_kills loco (pslots st p)) ps) ls rs' ds \<and>
    same_data (pslots (estop_loop loco ps st)) (pslots st) \<and>
    lastSentPacketLocoId (estop_loop loco ps st) = lastSentPacketLocoId st"
  using assms
proof (induction ps arbitrary: pre rs st)
  case Nil
  then show ?case by auto
next
  case (Cons p ps)
  show ?case
  proof (cases "estop_kills loco (pslots st p)")
    case False
    with Cons.IH [of st "pre @ [p]" rs] Cons.prems show ?thesis by auto
  next
    case True
    let ?st = "recycle p (on_high (remove (created st) p) st)"
    have np: "p \<notin> set pre" using qrep_distinct [OF Cons.prems] by auto
    have same: "same_data (pslots ?st) (pslots st)"
      by (rule same_data_trans [OF recycle_data(1)]) (simp add: queue_data)
    from qrep_on_high_remove [OF Cons.prems, of p] np
    have "qrep (on_high (remove (created st) p) st) (pre @ ps) ls rs (p # ds)" by (simp add: remove1_append)
    from Cons.IH [OF qrep_recycle [OF this]] True same estop_kills_same [OF same]
    show ?thesis by (auto simp: queue_data recycle_data intro: same_data_trans)
  qed
qed

lemma scheduleEstopPacket_ref:
  assumes r: "qrep st hs ls rs []" and len: "unat len \<le> MAX_PACKET_SIZE" "unat len \<le> length buf"
  shows "queues_inv (scheduleEstopPacket buf len rep loco st) \<and>
    abs_queues (scheduleEstopPacket buf len rep loco st) = a_estop buf len rep loco (abs_queues st)"
proof -
  let ?hs = "filter (\<lambda>p. \<not> estop_kills loco (pslots st p)) hs"
  let ?st = "estop_loop loco hs st"
  from estop_loop_qrep [of st "[]" hs] r obtain rs1 where r1: "qrep ?st ?hs ls rs1 []"
    and d1: "same_data (pslots ?st) (pslots st)" "lastSentPacketLocoId ?st = lastSentPacketLocoId st"
    by fastforce
  obtain p st1 where g: "getSlot SPEED_PACKET buf len rep 0 ?st = (p, st1)" by fastforce
  from getSlot_qrep [OF r1 g len] obtain rs2 where r2: "qrep st1 ?hs ls rs2 [p]"
    and same: "\<forall>a \<in> set (?hs @ ls). pslots st1 a = pslots ?st a"
    and last: "lastSentPacketLocoId st1 = lastSentPacketLocoId ?st"
    and new: "entry_of (pslots st1 p) = \<lparr>e_type = SPEED_PACKET, e_bytes = take (unat len) buf,
      e_repeat = rep, e_tag = 0\<rparr>"
    by (auto intro!: entry_of_new)
  from qrep_on_high_jump [OF r2] have r3: "qrep (on_high (jumpQueue p) st1) (p # ?hs) ls rs2 []" .
  have "entries (pslots st1) ?hs = entries (pslots st) ?hs" "entries (pslots st1) ls = entries (pslots st) ls"
    using same entries_same_data [OF d1(1)] by (metis Un_iff entries_cong set_append)+
  moreover have "entries (pslots st) ?hs = filter (\<lambda>e. e_type e = ACC_OFF_PACKET \<or> loco \<noteq> 0 \<and> e_loco e \<noteq> loco)
      (entries (pslots st) hs)"
    by (simp add: entries_def filter_map comp_def estop_kills_entry)
  ultimately have "abs_queues (on_high (jumpQueue p) st1) = a_estop buf len rep loco (abs_queues st)"
    using abs_queues_qrep [OF r3] abs_queues_qrep [OF r] new last d1
    by (simp add: a_estop_def entries_same_data [OF queue_data(7)] entry_same_data [OF queue_data(7)] queue_data)
  with r3 g show ?thesis
    by (auto simp: scheduleEstopPacket_def qrep_addrs [OF r] queues_inv_def)
qed

text \<open>Choosing the next packet.\<close>

definition tx_view :: "transmission \<Rightarrow> byte list \<times> byte" where
  "tx_view tx = (take (unat (tx_length tx)) (tx_packet tx), tx_repeats tx)"

lemma a_ready_entry [simp]: "a_ready now l (entry_of s) \<longleftrightarrow> \<not> skipped now l s"
  by (simp add: a_ready_def skipped_def) (simp add: entry_of_def)

lemma a_again_entry [simp]: "a_again (entry_of s) \<longleftrightarrow> locoId s \<noteq> 0 \<and> packetRepeat s \<noteq> 0"
  by (simp add: a_again_def) (simp add: entry_of_def)

lemma entry_of_gate_off:
  assumes "ptype s = ACC_ON_PACKET"
  shows "a_off now (entry_of s) = [entry_of (gate_off now s)]"
proof (cases "1 < unat (packetLength s)")
  case True
  with assms show ?thesis
    by (simp add: a_off_def entry_of_def gate_off_def e_loco_def delayOff_def take_update_swap)
next
  case False
  then have "unat (packetLength s) \<le> 1" by simp
  with assms show ?thesis
    by (simp add: a_off_def entry_of_def gate_off_def e_loco_def delayOff_def list_update_beyond)
qed

lemma a_off_other: "ptype s \<noteq> ACC_ON_PACKET \<Longrightarrow> a_off now (entry_of s) = []"
  by (simp add: a_off_def entry_of_def)

lemma finish_slot_ref:
  assumes r: "qrep st hs ls rs [p]"
  shows "queues_inv (finish_slot now p st) \<and>
    abs_queues (finish_slot now p st) = \<lparr>ahigh = a_off now (entry_of (pslots st p)) @ entries (pslots st) hs,
      alow = entries (pslots st) ls, alast = lastSentPacketLocoId st\<rparr>"
proof (cases "ptype (pslots st p) = ACC_ON_PACKET")
  case True
  let ?st = "st\<lparr>pslots := upd p (gate_off now) (pslots st)\<rparr>"
  have p: "p \<notin> set hs" "p \<notin> set ls" using qrep_distinct [OF r] by auto
  have "qrep ?st hs ls rs [p]"
    using r by (intro qrep_data) (auto simp: gate_off_def qrep_def)
  from qrep_on_high_jump [OF this] have r2: "qrep (on_high (jumpQueue p) ?st) (p # hs) ls rs []" .
  with abs_queues_qrep [OF r2] True p entry_of_gate_off [OF True, of now] show ?thesis
    by (auto simp: finish_slot_def queues_inv_def queue_data entries_same_data [OF queue_data(7)]
        entry_same_data [OF queue_data(7)])
next
  case False
  from qrep_recycle [OF r] have r2: "qrep (recycle p st) hs ls (p # rs) []" .
  with abs_queues_qrep [OF r2] False a_off_other [OF False, of now] show ?thesis
    by (auto simp: finish_slot_def queues_inv_def recycle_data entries_same_data [OF recycle_data(1)])
qed

lemma next_internal_None:
  assumes "find (\<lambda>p. \<not> skipped now (lastSentPacketLocoId st) (pslots st p)) (queue_addrs st (get_q st)) = None"
  shows "scheduleNextInternal on_q get_q now st = (None, st)"
  using assms by (simp add: scheduleNextInternal_def)

lemma next_internal_again:
  assumes "find (\<lambda>p. \<not> skipped now (lastSentPacketLocoId st) (pslots st p)) (queue_addrs st (get_q st)) = Some p"
    and "locoId (pslots st p) \<noteq> 0" and "packetRepeat (pslots st p) \<noteq> 0"
  shows "\<exists>tx. scheduleNextInternal on_q get_q now st = (Some tx, st\<lparr>lastSentPacketLocoId := locoId (pslots st p),
      pslots := upd p (\<lambda>s. s\<lparr>packetRepeat := packetRepeat s - 1\<rparr>) (pslots st)\<rparr>) \<and>
    tx_view tx = a_sent (entry_of (pslots st p))"
  using assms by (auto simp: scheduleNextInternal_def Let_def tx_view_def a_sent_def entry_of_def e_loco_def
      locoId_def)

lemma next_internal_done:
  assumes "find (\<lambda>p. \<not> skipped now (lastSentPacketLocoId st) (pslots st p)) (queue_addrs st (get_q st)) = Some p"
    and "locoId (pslots st p) = 0 \<or> packetRepeat (pslots st p) = 0"
  shows "\<exists>tx. scheduleNextInternal on_q get_q now st = (Some tx, finish_slot now p
      (on_q (remove (created st) p) (st\<lparr>lastSentPacketLocoId := locoId (pslots st p)\<rparr>))) \<and>
    tx_view tx = a_sent (entry_of (pslots st p))"
  using assms by (auto simp: scheduleNextInternal_def Let_def tx_view_def a_sent_def entry_of_def e_loco_def
      locoId_def)

lemma next_high_ref:
  assumes r: "qrep st hs ls rs []"
    and f: "find (\<lambda>p. \<not> skipped now (lastSentPacketLocoId st) (pslots st p)) hs = Some p"
  defines "e \<equiv> entry_of (pslots st p)" and "aq \<equiv> abs_queues st"
  shows "\<exists>tx st'. scheduleNextInternal on_high highPriorityQueue now st = (Some tx, st') \<and>
    tx_view tx = a_sent e \<and> queues_inv st' \<and>
    abs_queues st' = aq\<lparr>ahigh := (if a_again e then [] else a_off now e) @ a_rest now (alast aq) e (ahigh aq),
      alast := e_loco e\<rparr>"
proof -
  have dist: "distinct hs" "set hs \<inter> set ls = {}" using qrep_distinct [OF r] by auto
  note f' = f [folded qrep_addrs(1) [OF r]]
  have fe: "find (\<lambda>a. a_ready now (lastSentPacketLocoId st) (entry_of (pslots st a))) hs = Some p"
    using f by simp
  from find_entries [OF fe] dist have p: "p \<in> set hs" "p \<notin> set ls" by auto
  note abs = abs_queues_qrep [OF r]
  show ?thesis
  proof (cases "a_again e")
    case True
    let ?f = "\<lambda>s :: PendingSlot. s\<lparr>packetRepeat := packetRepeat s - 1\<rparr>"
    let ?st = "st\<lparr>lastSentPacketLocoId := locoId (pslots st p), pslots := upd p ?f (pslots st)\<rparr>"
    have r1: "qrep (st\<lparr>lastSentPacketLocoId := locoId (pslots st p)\<rparr>) hs ls rs []" using r by (simp add: qrep_last)
    have r2: "qrep ?st hs ls rs []"
      using qrep_data [OF r1, of ?f p] r by (simp add: qrep_def)
    have "entries (upd p ?f (pslots st)) hs = replace_first (a_ready now (lastSentPacketLocoId st))
        (\<lambda>e. e\<lparr>e_repeat := e_repeat e - 1\<rparr>) (entries (pslots st) hs)"
      using fe dist(1) by (intro entries_replace) (auto simp: entry_of_def)
    with True p abs abs_queues_qrep [OF r2] queues_invI [OF r2] next_internal_again [where get_q = highPriorityQueue and on_q = on_high, OF f'] show ?thesis
      by (auto simp: e_def aq_def a_rest_def)
  next
    case False
    let ?st = "st\<lparr>lastSentPacketLocoId := locoId (pslots st p)\<rparr>"
    have r1: "qrep ?st hs ls rs []" using r by (simp add: qrep_last)
    from qrep_on_high_remove [OF r1 p(1)]
    have r2: "qrep (on_high (remove (created st) p) ?st) (remove1 p hs) ls rs [p]" by simp
    from finish_slot_ref [OF r2, of now] False next_internal_done [where get_q = highPriorityQueue and on_q = on_high, OF f'] abs entries_remove [OF fe dist(1)]
    show ?thesis
      by (auto simp: e_def aq_def a_rest_def queue_data entries_same_data [OF queue_data(10)]
          entry_same_data [OF queue_data(10)])
  qed
qed

lemma next_low_ref:
  assumes r: "qrep st hs ls rs []"
    and f: "find (\<lambda>p. \<not> skipped now (lastSentPacketLocoId st) (pslots st p)) ls = Some p"
  defines "e \<equiv> entry_of (pslots st p)" and "aq \<equiv> abs_queues st"
  shows "\<exists>tx st'. scheduleNextInternal on_low lowPriorityQueue now st = (Some tx, st') \<and>
    tx_view tx = a_sent e \<and> queues_inv st' \<and>
    abs_queues st' = aq\<lparr>ahigh := (if a_again e then [] else a_off now e) @ ahigh aq,
      alow := a_rest now (alast aq) e (alow aq), alast := e_loco e\<rparr>"
proof -
  have dist: "distinct ls" "set hs \<inter> set ls = {}" using qrep_distinct [OF r] by auto
  note f' = f [folded qrep_addrs(2) [OF r]]
  have fe: "find (\<lambda>a. a_ready now (lastSentPacketLocoId st) (entry_of (pslots st a))) ls = Some p"
    using f by simp
  from find_entries [OF fe] dist have p: "p \<in> set ls" "p \<notin> set hs" by auto
  note abs = abs_queues_qrep [OF r]
  show ?thesis
  proof (cases "a_again e")
    case True
    let ?f = "\<lambda>s :: PendingSlot. s\<lparr>packetRepeat := packetRepeat s - 1\<rparr>"
    let ?st = "st\<lparr>lastSentPacketLocoId := locoId (pslots st p), pslots := upd p ?f (pslots st)\<rparr>"
    have r1: "qrep (st\<lparr>lastSentPacketLocoId := locoId (pslots st p)\<rparr>) hs ls rs []" using r by (simp add: qrep_last)
    have r2: "qrep ?st hs ls rs []"
      using qrep_data [OF r1, of ?f p] r by (simp add: qrep_def)
    have "entries (upd p ?f (pslots st)) ls = replace_first (a_ready now (lastSentPacketLocoId st))
        (\<lambda>e. e\<lparr>e_repeat := e_repeat e - 1\<rparr>) (entries (pslots st) ls)"
      using fe dist(1) by (intro entries_replace) (auto simp: entry_of_def)
    with True p abs abs_queues_qrep [OF r2] queues_invI [OF r2] next_internal_again [where get_q = lowPriorityQueue and on_q = on_low, OF f'] show ?thesis
      by (auto simp: e_def aq_def a_rest_def)
  next
    case False
    let ?st = "st\<lparr>lastSentPacketLocoId := locoId (pslots st p)\<rparr>"
    have r1: "qrep ?st hs ls rs []" using r by (simp add: qrep_last)
    from qrep_on_low_remove [OF r1 p(1)]
    have r2: "qrep (on_low (remove (created st) p) ?st) hs (remove1 p ls) rs [p]" by simp
    from finish_slot_ref [OF r2, of now] False next_internal_done [where get_q = lowPriorityQueue and on_q = on_low, OF f'] abs entries_remove [OF fe dist(1)]
    show ?thesis
      by (auto simp: e_def aq_def a_rest_def queue_data entries_same_data [OF queue_data(13)]
          entry_same_data [OF queue_data(13)])
  qed
qed

lemma scheduleNext_ref:
  assumes "queues_inv st"
  shows "\<exists>otx st'. scheduleNext False now st = (otx, st') \<and> queues_inv st' \<and>
    a_next now (abs_queues st) = (map_option tx_view otx, abs_queues st')"
proof -
  from assms obtain hs ls rs where r: "qrep st hs ls rs []" by (auto simp: queues_inv_def)
  note abs = abs_queues_qrep [OF r] and addrs = qrep_addrs [OF r]
  let ?P = "\<lambda>p. \<not> skipped now (lastSentPacketLocoId st) (pslots st p)"
  let ?R = "a_ready now (lastSentPacketLocoId st)"
  have P: "?P = (\<lambda>p. ?R (entry_of (pslots st p)))" by simp
  show ?thesis
  proof (cases "find ?P hs")
    case (Some p)
    from find_entries [OF Some [unfolded P]] next_high_ref [OF r Some] abs show ?thesis
      by (auto simp: scheduleNext_def a_next_def)
  next
    case None
    have h: "scheduleNextInternal on_high highPriorityQueue now st = (None, st)"
      using None by (intro next_internal_None) (simp add: addrs)
    have nh: "find ?R (entries (pslots st) hs) = None"
      using None [unfolded P] by (simp only: find_entries_None)
    show ?thesis
    proof (cases "find ?P ls")
      case (Some p)
      from find_entries [OF Some [unfolded P]] next_low_ref [OF r Some] abs h nh show ?thesis
        by (auto simp: scheduleNext_def a_next_def)
    next
      case None
      have l: "scheduleNextInternal on_low lowPriorityQueue now st = (None, st)"
        using None by (intro next_internal_None) (simp add: addrs)
      have "find ?R (entries (pslots st) ls) = None"
        using None [unfolded P] by (simp only: find_entries_None)
      with abs h nh l assms show ?thesis by (simp add: scheduleNext_def a_next_def)
    qed
  qed
qed

section \<open>Facts of the specification\<close>

lemma abs_queue_ops:
  assumes "queues_inv st" and "unat len \<le> MAX_PACKET_SIZE" "unat len \<le> length buf"
  shows "queues_inv (scheduleDCCPacket buf len rep loco st)"
    "abs_queues (scheduleDCCPacket buf len rep loco st) = a_packet buf len rep loco (abs_queues st)"
    "queues_inv (scheduleAccOnOffPacket buf len rep loco st)"
    "abs_queues (scheduleAccOnOffPacket buf len rep loco st) = a_accOnOff buf len rep loco (abs_queues st)"
    "queues_inv (scheduleDCCSpeedPacket buf len rep loco st)"
    "abs_queues (scheduleDCCSpeedPacket buf len rep loco st) = a_speed buf len rep loco (abs_queues st)"
    "queues_inv (scheduleEstopPacket buf len rep loco st)"
    "abs_queues (scheduleEstopPacket buf len rep loco st) = a_estop buf len rep loco (abs_queues st)"
    "queues_inv (scheduleDCCFunctionPacket buf len loco g st)"
    "abs_queues (scheduleDCCFunctionPacket buf len loco g st) = (case function_type g of
       None \<Rightarrow> abs_queues st | Some ty \<Rightarrow> a_function buf len loco ty (abs_queues st))"
proof -
  from assms(1) obtain hs ls rs where r: "qrep st hs ls rs []" by (auto simp: queues_inv_def)
  note len = assms(2,3)
  from scheduleDCCPacket_ref [OF r len] scheduleAccOnOffPacket_ref [OF r len]
    scheduleDCCSpeedPacket_ref [OF r len] scheduleEstopPacket_ref [OF r len]
  show "queues_inv (scheduleDCCPacket buf len rep loco st)"
    "abs_queues (scheduleDCCPacket buf len rep loco st) = a_packet buf len rep loco (abs_queues st)"
    "queues_inv (scheduleAccOnOffPacket buf len rep loco st)"
    "abs_queues (scheduleAccOnOffPacket buf len rep loco st) = a_accOnOff buf len rep loco (abs_queues st)"
    "queues_inv (scheduleDCCSpeedPacket buf len rep loco st)"
    "abs_queues (scheduleDCCSpeedPacket buf len rep loco st) = a_speed buf len rep loco (abs_queues st)"
    "queues_inv (scheduleEstopPacket buf len rep loco st)"
    "abs_queues (scheduleEstopPacket buf len rep loco st) = a_estop buf len rep loco (abs_queues st)"
    by blast+
  show "queues_inv (scheduleDCCFunctionPacket buf len loco g st)"
    "abs_queues (scheduleDCCFunctionPacket buf len loco g st) = (case function_type g of
       None \<Rightarrow> abs_queues st | Some ty \<Rightarrow> a_function buf len loco ty (abs_queues st))"
    using scheduleDCCFunctionPacket_ref [OF r len] assms(1)
    by (cases "function_type g"; simp add: scheduleDCCFunctionPacket_def del: function_type.simps)+
qed

lemma a_next_sends:
  assumes "a_next now aq = (Some s, aq')"
  shows "\<exists>e \<in> set (ahigh aq @ alow aq). a_ready now (alast aq) e \<and> s = a_sent e \<and> alast aq' = e_loco e"
  using assms by (auto simp: a_next_def find_Some_iff split: option.splits)

text \<open>Entries of the high priority queue that carry a loco's speed.\<close>

definition speed_locos :: "aqueues \<Rightarrow> u16 list" where
  "speed_locos aq = map e_loco (filter (\<lambda>e. e_type e = SPEED_PACKET \<and> e_loco e \<noteq> 0) (ahigh aq))"

definition speed_unique :: "aqueues \<Rightarrow> bool" where
  "speed_unique aq \<longleftrightarrow> distinct (speed_locos aq)"

lemma replace_first_locos:
  assumes "\<And>e. e_type (f e) = e_type e" "\<And>e. e_loco (f e) = e_loco e"
  shows "map e_loco (filter (\<lambda>e. e_type e = SPEED_PACKET \<and> e_loco e \<noteq> 0) (replace_first P f es)) =
    map e_loco (filter (\<lambda>e. e_type e = SPEED_PACKET \<and> e_loco e \<noteq> 0) es)"
  by (induction es) (auto simp: assms)

lemma e_loco_upd [simp]:
  "e_loco (e\<lparr>e_bytes := b\<rparr>) = e_loco e" "e_loco (e\<lparr>e_repeat := r\<rparr>) = e_loco e"
  by (simp_all add: e_loco_def)

lemma remove_first_locos:
  "distinct (map e_loco (filter Q es)) \<Longrightarrow> distinct (map e_loco (filter Q (remove_first P es)))"
proof (induction es)
  case (Cons e es)
  have "set (filter Q (remove_first P es)) \<subseteq> set (filter Q es)" for es
    by (induction es) auto
  then have "e_loco ` set (filter Q (remove_first P es)) \<subseteq> e_loco ` set (filter Q es)"
    by (rule image_mono)
  with Cons show ?case by auto
qed simp

lemma ucast_16_32 [simp]: "ucast (ucast l :: u32) = (l :: u16)"
  by (rule bit_word_eqI) (auto simp: bit_simps)

lemma e_loco_new [simp]:
  "e_loco \<lparr>e_type = ty, e_bytes = bs, e_repeat = r, e_tag = ucast l\<rparr> = l"
  "e_loco \<lparr>e_type = ty, e_bytes = bs, e_repeat = r, e_tag = 0\<rparr> = 0"
  by (simp_all add: e_loco_def)

lemma speed_unique_a_speed: "speed_unique aq \<Longrightarrow> speed_unique (a_speed buf len rep loco aq)"
  by (auto simp: speed_unique_def speed_locos_def a_speed_def replace_first_locos)

lemma speed_unique_a_estop: "speed_unique aq \<Longrightarrow> speed_unique (a_estop buf len rep loco aq)"
proof -
  let ?Q = "\<lambda>e. e_type e = SPEED_PACKET \<and> e_loco e \<noteq> 0"
  assume "speed_unique aq"
  then have "distinct (map e_loco (filter R (filter ?Q (ahigh aq))))" for R
    unfolding speed_unique_def speed_locos_def by (rule distinct_map_filter)
  from this [of "\<lambda>e. e_type e = ACC_OFF_PACKET \<or> loco \<noteq> 0 \<and> e_loco e \<noteq> loco"] show ?thesis
    by (simp add: speed_unique_def speed_locos_def a_estop_def conj_ac)
qed

lemma speed_unique_low: "speed_unique (aq\<lparr>alow := es\<rparr>) = speed_unique aq"
  "speed_unique (aq\<lparr>alast := l\<rparr>) = speed_unique aq"
  by (simp_all add: speed_unique_def speed_locos_def)

lemma a_off_type: "e \<in> set (a_off now x) \<Longrightarrow> e_type e = ACC_OFF_PACKET"
  by (cases "e_type x = ACC_ON_PACKET") (simp_all add: a_off_def)

lemma filter_a_off: "filter (\<lambda>e. e_type e = SPEED_PACKET \<and> e_loco e \<noteq> 0) (a_off now x) = []"
  by (rule filter_False) (auto dest: a_off_type)

lemma speed_unique_a_next: "speed_unique aq \<Longrightarrow> speed_unique (snd (a_next now aq))"
  by (auto simp: a_next_def speed_unique_def speed_locos_def filter_a_off a_rest_def replace_first_locos
      remove_first_locos split: option.splits dest: a_off_type)

text \<open>The states the firmware's calls can produce, starting with empty queues.\<close>

inductive queue_reach :: "queues \<Rightarrow> bool" where
  boot: "\<forall>a. length (packet (heap a)) = MAX_PACKET_SIZE \<Longrightarrow> queue_reach (new_queues heap)"
| packet: "queue_reach st \<Longrightarrow> unat len \<le> MAX_PACKET_SIZE \<Longrightarrow> unat len \<le> length buf \<Longrightarrow>
    queue_reach (scheduleDCCPacket buf len rep loco st)"
| speed: "queue_reach st \<Longrightarrow> unat len \<le> MAX_PACKET_SIZE \<Longrightarrow> unat len \<le> length buf \<Longrightarrow>
    queue_reach (scheduleDCCSpeedPacket buf len rep loco st)"
| func: "queue_reach st \<Longrightarrow> unat len \<le> MAX_PACKET_SIZE \<Longrightarrow> unat len \<le> length buf \<Longrightarrow>
    queue_reach (scheduleDCCFunctionPacket buf len loco g st)"
| estop: "queue_reach st \<Longrightarrow> unat len \<le> MAX_PACKET_SIZE \<Longrightarrow> unat len \<le> length buf \<Longrightarrow>
    queue_reach (scheduleEstopPacket buf len rep loco st)"
| acc: "queue_reach st \<Longrightarrow> unat len \<le> MAX_PACKET_SIZE \<Longrightarrow> unat len \<le> length buf \<Longrightarrow>
    queue_reach (scheduleAccOnOffPacket buf len rep d st)"
| transmit: "queue_reach st \<Longrightarrow> queue_reach (snd (scheduleNext force now st))"

lemma scheduleNext_force:
  "scheduleNext True now st = (case scheduleNext False now st of
     (None, st') \<Rightarrow> (Some idle_tx, st'\<lparr>lastSentPacketLocoId := 0\<rparr>) | r \<Rightarrow> r)"
  by (auto simp: scheduleNext_def split: prod.splits option.splits)

lemma queues_inv_last: "queues_inv (st\<lparr>lastSentPacketLocoId := l\<rparr>) = queues_inv st"
  by (simp add: queues_inv_def qrep_last)

lemma abs_queues_last: "abs_queues (st\<lparr>lastSentPacketLocoId := l\<rparr>) = (abs_queues st)\<lparr>alast := l\<rparr>"
  by (simp add: abs_queues_def queue_addrs_def)

lemma scheduleNext_inv:
  assumes "queues_inv st" and "speed_unique (abs_queues st)"
  shows "queues_inv (snd (scheduleNext force now st)) \<and>
    speed_unique (abs_queues (snd (scheduleNext force now st)))"
proof -
  from scheduleNext_ref [OF assms(1), of now] obtain otx st' where
    n: "scheduleNext False now st = (otx, st')" "queues_inv st'"
       "a_next now (abs_queues st) = (map_option tx_view otx, abs_queues st')" by blast
  with speed_unique_a_next [OF assms(2), of now] have "speed_unique (abs_queues st')" by simp
  with n show ?thesis
    by (cases force; cases otx)
      (simp_all add: scheduleNext_force queues_inv_last abs_queues_last speed_unique_low)
qed

lemma queue_reach_inv: "queue_reach st \<Longrightarrow> queues_inv st \<and> speed_unique (abs_queues st)"
proof (induction rule: queue_reach.induct)
  case (boot heap)
  from qrep_new [OF this] show ?case
    by (auto simp: queues_inv_def speed_unique_def speed_locos_def abs_queues_qrep [OF qrep_new [OF boot]])
next
  case (transmit st force now)
  then show ?case by (intro scheduleNext_inv) auto
qed (auto simp: abs_queue_ops a_packet_def a_accOnOff_def a_function_def speed_unique_low Let_def
    speed_unique_a_speed speed_unique_a_estop simp del: function_type.simps split: option.splits)

text \<open>No slot holds a packet longer than the waveform accepts, if no caller schedules one.\<close>

definition short_packets :: "queues \<Rightarrow> bool" where
  "short_packets st \<longleftrightarrow> (\<forall>a < created st. unat (packetLength (pslots st a)) \<le> MAX_PACKET_SIZE)"

lemma short_same:
  "same_data (pslots st') (pslots st) \<Longrightarrow> created st' = created st \<Longrightarrow> short_packets st \<Longrightarrow> short_packets st'"
  by (simp add: short_packets_def same_dataD)

lemma short_queue:
  assumes "short_packets st"
  shows "short_packets (on_high (addQueue p) st)" "short_packets (on_low (addQueue p) st)"
    "short_packets (on_high (jumpQueue p) st)" "short_packets (on_high (remove n p) st)"
    "short_packets (on_low (remove n p) st)" "short_packets (recycle p st)"
  by (rule short_same [OF queue_data(1,3) assms] short_same [OF queue_data(4,6) assms]
    short_same [OF queue_data(7,9) assms] short_same [OF queue_data(10,12) assms]
    short_same [OF queue_data(13,15) assms] short_same [OF recycle_data(1,2) assms])+

lemma short_getSlot:
  assumes "short_packets st" and "unat len \<le> MAX_PACKET_SIZE" and "getSlot ty buf len rep loco st = (p, st')"
  shows "short_packets st'"
proof -
  have "packetLength (set_low16 v s) = packetLength s" for v s by (simp add: set_low16_def)
  with assms show ?thesis
    by (auto simp: short_packets_def getSlot_def Let_def upd_apply less_Suc_eq split: option.splits)
qed

lemma short_data:
  assumes "short_packets st" and "\<And>s. unat (packetLength s) \<le> MAX_PACKET_SIZE \<Longrightarrow> unat (packetLength (f s)) \<le> MAX_PACKET_SIZE"
  shows "short_packets (st\<lparr>pslots := upd p f (pslots st)\<rparr>)"
  using assms by (auto simp: short_packets_def upd_apply)

lemma short_estop_loop: "short_packets st \<Longrightarrow> short_packets (estop_loop loco ps st)"
  by (induction ps arbitrary: st) (simp_all add: short_queue)

lemma short_ops:
  assumes "short_packets st" and "unat len \<le> MAX_PACKET_SIZE"
  shows "short_packets (scheduleDCCPacket buf len rep loco st)"
    and "short_packets (scheduleDCCSpeedPacket buf len rep loco st)"
    and "short_packets (scheduleDCCFunctionPacket buf len loco g st)"
    and "short_packets (scheduleEstopPacket buf len rep loco st)"
    and "short_packets (scheduleAccOnOffPacket buf len rep d st)"
proof -
  have data: "unat (packetLength (overwrite buf len r s)) \<le> MAX_PACKET_SIZE"
    "packetLength (set_low16 v s) = packetLength s" for r v s
    using assms(2) by (simp_all add: overwrite_def set_low16_def)
  note new = short_getSlot [OF _ assms(2)]
  show "short_packets (scheduleDCCPacket buf len rep loco st)"
    unfolding scheduleDCCPacket_def by (auto split: prod.split intro!: short_queue intro: new [OF assms(1)])
  show "short_packets (scheduleDCCSpeedPacket buf len rep loco st)"
    unfolding scheduleDCCSpeedPacket_def
    by (auto split: prod.split option.split intro!: short_queue short_data assms(1) data(1) intro: new [OF assms(1)])
  show "short_packets (scheduleDCCFunctionPacket buf len loco g st)"
    unfolding scheduleDCCFunctionPacket_def
    by (auto split: prod.split option.split intro!: short_queue short_data assms(1) data(1) intro: new [OF assms(1)] simp del: function_type.simps)
  show "short_packets (scheduleEstopPacket buf len rep loco st)"
    unfolding scheduleEstopPacket_def
    by (auto split: prod.split intro!: short_queue intro: new [OF short_estop_loop [OF assms(1)]])
  show "short_packets (scheduleAccOnOffPacket buf len rep d st)"
    unfolding scheduleAccOnOffPacket_def Let_def
    by (auto split: prod.split intro!: short_queue short_data intro: new [OF assms(1)] simp: data)
qed

lemma short_finish: "short_packets st \<Longrightarrow> short_packets (finish_slot now p st)"
  unfolding finish_slot_def by (auto intro!: short_queue short_data simp: gate_off_def)

lemma short_next_internal:
  assumes "short_packets st" and "queues_inv st"
    and "on_q = on_high \<and> get_q = highPriorityQueue \<or> on_q = on_low \<and> get_q = lowPriorityQueue"
    and "scheduleNextInternal on_q get_q now st = (otx, st')"
  shows "short_packets st'" and "otx = Some tx \<Longrightarrow> unat (tx_length tx) \<le> MAX_PACKET_SIZE \<and> length (tx_packet tx) = MAX_PACKET_SIZE"
proof -
  from assms(2) obtain hs ls rs where r: "qrep st hs ls rs []" by (auto simp: queues_inv_def)
  have sl: "short_packets (st\<lparr>lastSentPacketLocoId := v\<rparr>)" for v using assms(1) by (simp add: short_packets_def)
  have "created (st\<lparr>lastSentPacketLocoId := v\<rparr>) = created st" for v by simp
  show "short_packets st'"
    using assms(1,3,4) by (auto simp: scheduleNextInternal_def Let_def split: option.splits if_splits
      intro!: short_finish short_queue sl short_data [OF sl, simplified])
  assume tx: "otx = Some tx"
  then obtain p where p: "p \<in> set (queue_addrs st (get_q st))" "tx_length tx = packetLength (pslots st p)"
      "tx_packet tx = packet (pslots st p)"
    using assms(4) by (auto simp: scheduleNextInternal_def Let_def split: option.splits if_splits dest: find_mem)
  have "p < created st" using p(1) assms(3) r qrep_addrs [OF r] by (auto simp: qrep_def)
  with p assms(1) r show "unat (tx_length tx) \<le> MAX_PACKET_SIZE \<and> length (tx_packet tx) = MAX_PACKET_SIZE"
    by (simp add: short_packets_def qrep_def)
qed

lemma short_next:
  assumes "short_packets st" and "queues_inv st" and "scheduleNext force now st = (otx, st')"
  shows "short_packets st'" and "otx = Some tx \<Longrightarrow> unat (tx_length tx) \<le> MAX_PACKET_SIZE \<and> unat (tx_length tx) \<le> length (tx_packet tx)"
proof -
  obtain o1 s1 where h: "scheduleNextInternal on_high highPriorityQueue now st = (o1, s1)" by (meson surj_pair)
  note h1 = short_next_internal [OF assms(1,2) _ h]
  have s1: "o1 = None \<Longrightarrow> s1 = st" using h by (auto simp: scheduleNextInternal_def Let_def split: option.splits if_splits)
  obtain o2 s2 where l: "scheduleNextInternal on_low lowPriorityQueue now st = (o2, s2)" by (meson surj_pair)
  note l1 = short_next_internal [OF assms(1,2) _ l]
  have last: "short_packets (s\<lparr>lastSentPacketLocoId := 0\<rparr>) = short_packets s" for s by (simp add: short_packets_def)
  have idle: "unat (tx_length idle_tx) \<le> MAX_PACKET_SIZE \<and> unat (tx_length idle_tx) \<le> length (tx_packet idle_tx)"
    by (simp add: idle_tx_def MAX_PACKET_SIZE_def)
  show "short_packets st'" using assms(3) h l h1(1) l1(1) s1 last
    by (cases o1; cases o2; cases force) (auto simp: scheduleNext_def)
  show "unat (tx_length tx) \<le> MAX_PACKET_SIZE \<and> unat (tx_length tx) \<le> length (tx_packet tx)" if "otx = Some tx"
    using assms(3) h l h1(2) l1(2) s1 idle that
    by (cases o1; cases o2; cases force) (auto simp: scheduleNext_def)
qed

section \<open>Properties\<close>

text \<open>A start state for the instances: empty queues over blank memory, and an accessory pulse.\<close>

definition blank_slot :: PendingSlot where
  "blank_slot = \<lparr>pnext = None, ptype = DEAD_PACKET, packetLength = 0, packetRepeat = 0,
     packet = replicate MAX_PACKET_SIZE 0, startTime = 0\<rparr>"

definition boot_queues :: queues where
  "boot_queues = new_queues (\<lambda>_. blank_slot)"

lemma boot_reach: "queue_reach boot_queues"
  unfolding boot_queues_def by (rule queue_reach.boot) (simp add: blank_slot_def)

lemma boot_inv: "queues_inv boot_queues" "abs_queues boot_queues = \<lparr>ahigh = [], alow = [], alast = 0\<rparr>"
  using queue_reach_inv [OF boot_reach]
  by (simp_all add: abs_queues_def boot_queues_def new_queues_def queue_addrs_def)

text \<open>
  C24: the scheduling calls implement the queue specification. On a well-formed state every call
  leaves a well-formed state, and what is in the two queues afterwards is: the packet appended
  to the low queue (\<^verbatim>\<open>scheduleDCCPacket\<close>, \<^verbatim>\<open>scheduleAccOnOffPacket\<close>), a queued entry of the same loco
  overwritten or a new one appended (speed and function packets), the loco's throttle packets
  dropped and the packet put in front (emergency stop).
\<close>

theorem scheduling_refines:
  assumes "queues_inv st" and "unat len \<le> MAX_PACKET_SIZE" and "unat len \<le> length buf"
  shows "abs_queues (scheduleDCCPacket buf len rep loco st) = a_packet buf len rep loco (abs_queues st) \<and>
    abs_queues (scheduleDCCSpeedPacket buf len rep loco st) = a_speed buf len rep loco (abs_queues st) \<and>
    abs_queues (scheduleEstopPacket buf len rep loco st) = a_estop buf len rep loco (abs_queues st) \<and>
    abs_queues (scheduleAccOnOffPacket buf len rep loco st) = a_accOnOff buf len rep loco (abs_queues st) \<and>
    abs_queues (scheduleDCCFunctionPacket buf len loco g st) = (case function_type g of
      None \<Rightarrow> abs_queues st | Some ty \<Rightarrow> a_function buf len loco ty (abs_queues st)) \<and>
    queues_inv (scheduleDCCPacket buf len rep loco st) \<and>
    queues_inv (scheduleDCCSpeedPacket buf len rep loco st) \<and>
    queues_inv (scheduleEstopPacket buf len rep loco st) \<and>
    queues_inv (scheduleAccOnOffPacket buf len rep loco st) \<and>
    queues_inv (scheduleDCCFunctionPacket buf len loco g st)"
  using abs_queue_ops [OF assms] by blast

theorem scheduling_refines_witness:
  "queues_inv boot_queues \<and>
   ahigh (abs_queues (scheduleDCCSpeedPacket [3, 0x3F, 0x90] 3 0 3 boot_queues)) =
     [\<lparr>e_type = SPEED_PACKET, e_bytes = [3, 0x3F, 0x90], e_repeat = 0, e_tag = 3\<rparr>]"
proof -
  have len: "unat (3 :: byte) \<le> MAX_PACKET_SIZE" "unat (3 :: byte) \<le> length [3, 0x3F, 0x90 :: byte]"
    by (simp_all add: MAX_PACKET_SIZE_def)
  from scheduling_refines [OF boot_inv(1) len, of 0 3] boot_inv show ?thesis by (simp add: a_speed_def)
qed

text \<open>
  C23: \<^verbatim>\<open>scheduleNext\<close> implements the choice of the specification: the first entry of the high queue
  that may go now, else the first of the low queue; a loco entry is sent without repeats and
  stays until its repeats are used up, any other is sent with its repeats at once, and a spent
  accessory-on entry becomes a delayed off entry at the front of the high queue.
\<close>

theorem scheduleNext_refines:
  assumes "queues_inv st"
  shows "queues_inv (snd (scheduleNext False now st)) \<and>
    (map_option tx_view (fst (scheduleNext False now st)), abs_queues (snd (scheduleNext False now st))) =
      a_next now (abs_queues st)"
  using scheduleNext_ref [OF assms, of now] by auto

theorem scheduleNext_refines_witness:
  "queues_inv (scheduleDCCSpeedPacket [3, 0x3F, 0x90] 3 0 3 boot_queues) \<and>
   map_option tx_view (fst (scheduleNext False 7 (scheduleDCCSpeedPacket [3, 0x3F, 0x90] 3 0 3 boot_queues))) =
     Some ([3, 0x3F, 0x90], 0)"
proof -
  let ?st = "scheduleDCCSpeedPacket [3, 0x3F, 0x90] 3 0 3 boot_queues"
  have len: "unat (3 :: byte) \<le> MAX_PACKET_SIZE" "unat (3 :: byte) \<le> length [3, 0x3F, 0x90 :: byte]"
    by (simp_all add: MAX_PACKET_SIZE_def)
  note st = abs_queue_ops(5,6) [OF boot_inv(1) len, of 0 3]
  have "fst (a_next 7 (abs_queues ?st)) = Some ([3, 0x3F, 0x90], 0)"
    by (simp add: st boot_inv a_speed_def a_next_def a_ready_def a_sent_def e_loco_def)
  with scheduleNext_refines [OF st(1), of 7] st(1) show ?thesis by (metis fst_conv)
qed

text \<open>
  No two packets in a row go to the same loco. Whatever packet is chosen comes from a queue
  entry; if that entry belongs to a loco, the packet before it was not for that loco.
\<close>

theorem no_consecutive_packets:
  assumes "queues_inv st" and "scheduleNext False now st = (Some tx, st')"
  shows "\<exists>e \<in> set (ahigh (abs_queues st) @ alow (abs_queues st)).
    tx_view tx = a_sent e \<and> lastSentPacketLocoId st' = e_loco e \<and>
    (e_loco e = 0 \<or> lastSentPacketLocoId st \<noteq> e_loco e)"
proof -
  from scheduleNext_ref [OF assms(1), of now] assms(2)
  have n: "a_next now (abs_queues st) = (Some (tx_view tx), abs_queues st')" by auto
  have last: "alast (abs_queues st) = lastSentPacketLocoId st" "alast (abs_queues st') = lastSentPacketLocoId st'"
    by (simp_all add: abs_queues_def)
  from a_next_sends [OF n] last show ?thesis by (auto simp: a_ready_def)
qed

theorem no_consecutive_packets_witness:
  "\<exists>tx st'. scheduleNext False 7 (scheduleDCCSpeedPacket [3, 0x3F, 0x90] 3 0 3 boot_queues) = (Some tx, st') \<and>
     lastSentPacketLocoId st' = 3"
proof -
  let ?st = "scheduleDCCSpeedPacket [3, 0x3F, 0x90] 3 0 3 boot_queues"
  have len: "unat (3 :: byte) \<le> MAX_PACKET_SIZE" "unat (3 :: byte) \<le> length [3, 0x3F, 0x90 :: byte]"
    by (simp_all add: MAX_PACKET_SIZE_def)
  note st = abs_queue_ops(5,6) [OF boot_inv(1) len, of 0 3]
  have e: "ahigh (abs_queues ?st) @ alow (abs_queues ?st) =
      [\<lparr>e_type = SPEED_PACKET, e_bytes = [3, 0x3F, 0x90], e_repeat = 0, e_tag = 3\<rparr>]"
    by (simp add: st boot_inv a_speed_def)
  have "fst (a_next 7 (abs_queues ?st)) = Some ([3, 0x3F, 0x90], 0)"
    by (simp add: st boot_inv a_speed_def a_next_def a_ready_def a_sent_def e_loco_def)
  with scheduleNext_ref [OF st(1), of 7] obtain tx st' where "scheduleNext False 7 ?st = (Some tx, st')"
    by auto
  with no_consecutive_packets [OF st(1) this] e show ?thesis by (auto simp: e_loco_def)
qed

text \<open>
  C25: an emergency stop goes out next. After \<^verbatim>\<open>scheduleEstopPacket\<close> for a loco (all locos if 0) the
  queue manager's very next packet is the stop packet with its repeats. Behind it the high
  priority queue keeps, in their order, exactly its earlier entries that wait to switch an accessory
  off and, for a stop of one loco, those queued under another id; every other entry of this loco's
  id is gone. Entries under the id 0, as earlier stops are, are among those a stop of one loco
  leaves, and the low priority queue does not change.
\<close>

theorem estop_goes_next:
  fixes buf :: "byte list" and len repeats :: byte and loco :: u16 and st :: queues
  assumes "queues_inv st" and "unat len \<le> MAX_PACKET_SIZE" and "unat len \<le> length buf"
  defines "st' \<equiv> scheduleEstopPacket buf len repeats loco st"
  shows "(\<exists>tx st''. scheduleNext False now st' = (Some tx, st'') \<and> tx_view tx = (take (unat len) buf, repeats)) \<and>
    tl (ahigh (abs_queues st')) =
      filter (\<lambda>e. e_type e = ACC_OFF_PACKET \<or> loco \<noteq> 0 \<and> e_loco e \<noteq> loco) (ahigh (abs_queues st)) \<and>
    alow (abs_queues st') = alow (abs_queues st)"
proof -
  note ops = abs_queue_ops(7,8) [OF assms(1-3), of repeats loco, folded st'_def]
  have "fst (a_next now (abs_queues st')) = Some (take (unat len) buf, repeats)"
    by (simp add: ops a_estop_def a_next_def a_ready_def a_sent_def)
  with scheduleNext_ref [OF ops(1), of now] have "\<exists>tx st''. scheduleNext False now st' = (Some tx, st'') \<and>
      tx_view tx = (take (unat len) buf, repeats)" by auto
  then show ?thesis by (simp add: ops a_estop_def)
qed

theorem estop_goes_next_witness:
  "queues_inv boot_queues \<and>
   (\<exists>tx st''. scheduleNext False 0 (scheduleEstopPacket [3, 0x3F, 1] 3 4 3 boot_queues) = (Some tx, st'') \<and>
      tx_view tx = ([3, 0x3F, 1], 4))"
proof -
  have len: "unat (3 :: byte) \<le> MAX_PACKET_SIZE" "unat (3 :: byte) \<le> length [3, 0x3F, 1 :: byte]"
    by (simp_all add: MAX_PACKET_SIZE_def)
  from estop_goes_next [OF boot_inv(1) len, of 0 4 3] boot_inv(1) show ?thesis by simp
qed

text \<open>
  C39: in every state the firmware's calls can produce, the queues are well formed: no slot is
  leaked (every slot ever allocated is in exactly one of the two queues or waiting for reuse)
  and a loco never has two speed packets queued.
\<close>

theorem queue_reach_safe:
  assumes "queue_reach st"
  shows "queues_inv st \<and> distinct (speed_locos (abs_queues st)) \<and>
    created st = length (queue_addrs st (highPriorityQueue st)) + length (queue_addrs st (lowPriorityQueue st)) +
      length (walk (created st) (\<lambda>a. pnext (pslots st a)) (recycleList st))"
proof -
  from queue_reach_inv [OF assms] have inv: "queues_inv st" "distinct (speed_locos (abs_queues st))"
    by (simp_all add: speed_unique_def)
  from inv(1) obtain hs ls rs where r: "qrep st hs ls rs []" by (auto simp: queues_inv_def)
  then have "walk (created st) (pn (pslots st)) (recycleList st) = rs"
    by (auto simp: qrep_def intro!: linked_walk)
  moreover have "length (hs @ ls @ rs) = created st"
    using r distinct_card [of "hs @ ls @ rs"] by (simp add: qrep_def)
  ultimately show ?thesis using inv qrep_addrs [OF r] by simp
qed

theorem queue_reach_safe_witness:
  "queue_reach (snd (scheduleNext True 0 boot_queues)) \<and> queues_inv (snd (scheduleNext True 0 boot_queues))"
  using queue_reach_safe [OF queue_reach.transmit [OF boot_reach, of True 0]]
    queue_reach.transmit [OF boot_reach, of True 0] by blast

text \<open>
  An accessory pulse ends on time. When the last transmission of an accessory-on packet has
  been made, the packet is at the front of the high queue with only its gate bit cleared, and no
  later choice can take it before the requested delay has passed.
\<close>

theorem accessory_off_delayed:
  assumes "queues_inv st" and "find (a_ready now (alast (abs_queues st))) (ahigh (abs_queues st)) = None"
    and "find (a_ready now (alast (abs_queues st))) (alow (abs_queues st)) = Some e"
    and "e_type e = ACC_ON_PACKET" and "e_repeat e = 0" and "1 < length (e_bytes e)"
  shows "\<exists>off es. ahigh (abs_queues (snd (scheduleNext False now st))) = off # es \<and>
    e_type off = ACC_OFF_PACKET \<and> length (e_bytes off) = length (e_bytes e) \<and>
    (\<forall>i < length (e_bytes e). e_bytes off ! i = (if i = 1 then e_bytes e ! 1 AND NOT 8 else e_bytes e ! i)) \<and>
    (\<forall>now' lastLoco. a_ready now' lastLoco off \<longrightarrow> now + ucast (e_loco e) \<le> now')"
proof -
  have "ahigh (snd (a_next now (abs_queues st))) = a_off now e @ ahigh (abs_queues st)"
    using assms(2-5) by (simp add: a_next_def a_again_def)
  moreover from scheduleNext_ref [OF assms(1), of now]
  have "abs_queues (snd (scheduleNext False now st)) = snd (a_next now (abs_queues st))" by auto
  ultimately have "ahigh (abs_queues (snd (scheduleNext False now st))) = a_off now e @ ahigh (abs_queues st)"
    by simp
  moreover have "a_off now e = [e\<lparr>e_type := ACC_OFF_PACKET,
      e_bytes := (e_bytes e)[1 := (e_bytes e ! 1) AND NOT 0x08], e_tag := now + ucast (e_loco e)\<rparr>]"
    using assms(4) by (simp add: a_off_def)
  ultimately show ?thesis
    using assms(6) by (auto simp: a_ready_def nth_list_update)
qed

theorem accessory_off_delayed_witness:
  "\<exists>off es. ahigh (abs_queues (snd (scheduleNext False 50
       (scheduleAccOnOffPacket [0x81, 0xF8] 2 0 100 boot_queues)))) = off # es \<and>
     e_bytes off ! 1 = 0xF0 \<and> (\<forall>now' l. a_ready now' l off \<longrightarrow> 150 \<le> now')"
proof -
  let ?st = "scheduleAccOnOffPacket [0x81, 0xF8] 2 0 100 boot_queues"
  let ?e = "\<lparr>e_type = ACC_ON_PACKET, e_bytes = [0x81, 0xF8 :: byte], e_repeat = 0, e_tag = 100\<rparr>"
  have len: "unat (2 :: byte) \<le> MAX_PACKET_SIZE" "unat (2 :: byte) \<le> length [0x81, 0xF8 :: byte]"
    by (simp_all add: MAX_PACKET_SIZE_def)
  note st = abs_queue_ops(3,4) [OF boot_inv(1) len, of 0 100]
  have "ahigh (abs_queues ?st) = []" "alow (abs_queues ?st) = [?e]" "alast (abs_queues ?st) = 0"
    by (simp_all add: st boot_inv a_accOnOff_def)
  moreover have "a_ready 50 0 ?e" by (simp add: a_ready_def e_loco_def)
  ultimately show ?thesis
    using accessory_off_delayed [OF st(1), of 50 ?e] by (auto simp: e_loco_def)
qed

end
