(* ===== verification/LocoSlots.thy ===== *)
theory LocoSlots
  imports Prelude
begin

text \<open>
  The loco table of \<^verbatim>\<open>LocoSlot.h\<close> and \<^verbatim>\<open>LocoSlot.cpp\<close>: the slots on the heap, the chain of
  slots in use, and the recycler. The first part translates the class. The second part is the
  table invariant (chain and recycler are disjoint linked lists that hold every slot ever made,
  and no loco has two slots), kept by every operation, and the contract of the table as a finite
  map from loco addresses to slots, which the DCC layer relies on.

  A \<^verbatim>\<open>LocoSlot*\<close> is an address; slots are made at the address \<^verbatim>\<open>slotCount\<close>, which is the number
  of live ones, because \<^verbatim>\<open>forgetAll\<close> deletes all of them and resets the counter. The board's
  \<^verbatim>\<open>MAX_LOCOS\<close> and the number of slots its memory can hold (what makes \<^verbatim>\<open>new\<close> return a null pointer)
  are fields of the table.
\<close>

section \<open>Model\<close>

definition MOMENTUM_USE_DEFAULT :: byte where
  "MOMENTUM_USE_DEFAULT = 255"

record LocoSlot =
  functionMap :: u32
  snifferFunctions :: u32
  momentum_base :: u32
  snext :: ptr
  consistLead :: ptr
  consistNext :: ptr
  loco :: u16
  targetSpeed :: byte
  speedCode :: byte
  snifferSpeedCode :: byte
  savedSpeedCode :: byte
  momentumA :: byte
  momentumD :: byte
  groupFlags :: byte
  consistReverse :: bool

type_synonym lheap = "addr \<Rightarrow> LocoSlot"

record slot_table =
  lslots :: lheap
  firstSlot :: ptr
  recycler :: ptr
  slotCount :: nat
  chainModified :: bool
  MAX_LOCOS :: nat
  ramSlots :: nat

definition isConsistLead :: "LocoSlot \<Rightarrow> bool" where
  "isConsistLead s \<longleftrightarrow> consistNext s \<noteq> None \<and> consistLead s = None"

definition isConsistFollower :: "LocoSlot \<Rightarrow> bool" where
  "isConsistFollower s \<longleftrightarrow> consistLead s \<noteq> None"

text \<open>Writing members through a slot pointer.\<close>

definition set_slot :: "addr \<Rightarrow> (LocoSlot \<Rightarrow> LocoSlot) \<Rightarrow> slot_table \<Rightarrow> slot_table" where
  "set_slot a f t = t\<lparr>lslots := (lslots t)(a := f (lslots t a))\<rparr>"

definition prepare :: "u16 \<Rightarrow> addr \<Rightarrow> slot_table \<Rightarrow> slot_table" where
  "prepare locoId this t =
    (set_slot this (\<lambda>s. s\<lparr>functionMap := 0, snifferFunctions := 0, momentum_base := 0,
        snext := firstSlot t, consistLead := None, consistNext := None,
        loco := locoId, targetSpeed := 128, speedCode := 128, snifferSpeedCode := 128, savedSpeedCode := 0,
        momentumA := MOMENTUM_USE_DEFAULT, momentumD := MOMENTUM_USE_DEFAULT,
        groupFlags := 0, consistReverse := False\<rparr>) t)
      \<lparr>firstSlot := Some this, chainModified := True\<rparr>"

text \<open>The slots of the chain, in order; \<^verbatim>\<open>slotCount\<close> bounds their number.\<close>

definition chain :: "slot_table \<Rightarrow> addr list" where
  "chain t = walk (slotCount t) (\<lambda>a. snext (lslots t a)) (firstSlot t)"

definition find_slot :: "u16 \<Rightarrow> slot_table \<Rightarrow> ptr" where
  "find_slot locoId t = find (\<lambda>a. loco (lslots t a) = locoId) (chain t)"

definition getSlot :: "u16 \<Rightarrow> bool \<Rightarrow> slot_table \<Rightarrow> ptr \<times> slot_table" where
  "getSlot locoId autoCreate t =
    (if locoId = 0 then (None, t)
     else case find_slot locoId t of
       Some a \<Rightarrow> (Some a, t)
     | None \<Rightarrow>
         if \<not> autoCreate then (None, t)
         else case recycler t of
           Some a \<Rightarrow> (Some a, prepare locoId a (t\<lparr>recycler := snext (lslots t a)\<rparr>))
         | None \<Rightarrow>
             if slotCount t \<ge> MAX_LOCOS t then (None, t)
             else if slotCount t \<ge> ramSlots t then (None, t)
             else (Some (slotCount t), prepare locoId (slotCount t) (t\<lparr>slotCount := slotCount t + 1\<rparr>)))"

text \<open>The search for the predecessor of a slot in \<^verbatim>\<open>forget\<close>.\<close>

definition find_prev :: "addr \<Rightarrow> slot_table \<Rightarrow> ptr" where
  "find_prev this t = find (\<lambda>a. snext (lslots t a) = Some this) (chain t)"

definition forget :: "addr \<Rightarrow> slot_table \<Rightarrow> slot_table" where
  "forget this t =
    (let t1 = (if firstSlot t = Some this then t\<lparr>firstSlot := snext (lslots t this)\<rparr>
               else case find_prev this t of
                 Some p \<Rightarrow> set_slot p (\<lambda>s. s\<lparr>snext := snext (lslots t this)\<rparr>) t
               | None \<Rightarrow> t)
     in (set_slot this (\<lambda>s. s\<lparr>snext := recycler t1\<rparr>) t1)\<lparr>recycler := Some this, chainModified := True\<rparr>)"

definition forgetAll :: "slot_table \<Rightarrow> slot_table" where
  "forgetAll t = t\<lparr>firstSlot := None, recycler := None, chainModified := True, slotCount := 0\<rparr>"

text \<open>\<^verbatim>\<open>LocoSlot::saveSpeed\<close>.\<close>

definition slot_saveSpeed :: "addr \<Rightarrow> slot_table \<Rightarrow> slot_table" where
  "slot_saveSpeed this = set_slot this (\<lambda>s. s\<lparr>savedSpeedCode := targetSpeed s\<rparr>)"

definition new_table :: "lheap \<Rightarrow> nat \<Rightarrow> nat \<Rightarrow> slot_table" where
  "new_table h maxLocos ram = \<lparr>lslots = h, firstSlot = None, recycler = None, slotCount = 0,
     chainModified = False, MAX_LOCOS = maxLocos, ramSlots = ram\<rparr>"

section \<open>The table invariant\<close>

abbreviation sn :: "lheap \<Rightarrow> addr \<Rightarrow> ptr" where
  "sn h \<equiv> \<lambda>a. snext (h a)"

definition trep :: "slot_table \<Rightarrow> addr list \<Rightarrow> addr list \<Rightarrow> bool" where
  "trep t as rs \<longleftrightarrow> linked (sn (lslots t)) (firstSlot t) as \<and> linked (sn (lslots t)) (recycler t) rs \<and>
     distinct (as @ rs) \<and> set (as @ rs) = {..<slotCount t} \<and> slotCount t \<le> MAX_LOCOS t \<and>
     distinct (map (\<lambda>a. loco (lslots t a)) as) \<and> (\<forall>a \<in> set as. loco (lslots t a) \<noteq> 0)"

definition table_inv :: "slot_table \<Rightarrow> bool" where
  "table_inv t \<longleftrightarrow> (\<exists>as rs. trep t as rs)"

text \<open>The table as a map: the data of a slot is all of it but its link.\<close>

definition slot_data :: "LocoSlot \<Rightarrow> LocoSlot" where
  "slot_data s = s\<lparr>snext := None\<rparr>"

definition abs_slots :: "slot_table \<Rightarrow> u16 \<Rightarrow> LocoSlot option" where
  "abs_slots t l = map_option (\<lambda>a. slot_data (lslots t a)) (find_slot l t)"

definition fresh_slot :: "u16 \<Rightarrow> LocoSlot" where
  "fresh_slot l = \<lparr>functionMap = 0, snifferFunctions = 0, momentum_base = 0, snext = None,
     consistLead = None, consistNext = None, loco = l, targetSpeed = 128, speedCode = 128,
     snifferSpeedCode = 128, savedSpeedCode = 0, momentumA = MOMENTUM_USE_DEFAULT,
     momentumD = MOMENTUM_USE_DEFAULT, groupFlags = 0, consistReverse = False\<rparr>"

definition has_room :: "slot_table \<Rightarrow> bool" where
  "has_room t \<longleftrightarrow> recycler t \<noteq> None \<or> slotCount t < MAX_LOCOS t \<and> slotCount t < ramSlots t"

lemma trep_chain: "trep t as rs \<Longrightarrow> chain t = as"
  unfolding trep_def chain_def by (auto intro!: linked_walk)

lemma chain_rep: "table_inv t \<Longrightarrow> \<exists>rs. trep t (chain t) rs"
  by (auto simp: table_inv_def dest: trep_chain)

lemma find_slot_Some:
  "find_slot l t = Some a \<Longrightarrow> a \<in> set (chain t) \<and> loco (lslots t a) = l"
  by (auto simp: find_slot_def find_Some_iff)

lemma find_slot_None: "find_slot l t = None \<longleftrightarrow> (\<forall>a \<in> set (chain t). loco (lslots t a) \<noteq> l)"
  by (auto simp: find_slot_def find_None_iff)

lemma find_slot_mem:
  assumes "table_inv t" and "a \<in> set (chain t)"
  shows "find_slot (loco (lslots t a)) t = Some a"
proof (cases "find_slot (loco (lslots t a)) t")
  case None
  then have "loco (lslots t a) \<noteq> loco (lslots t a)" using assms(2) by (simp only: find_slot_None) blast
  then show ?thesis by simp
next
  case (Some b)
  from chain_rep [OF assms(1)] have "inj_on (\<lambda>a. loco (lslots t a)) (set (chain t))"
    by (auto simp: trep_def distinct_map)
  with find_slot_Some [OF Some] assms(2) have "b = a" by (auto dest: inj_onD)
  with Some show ?thesis by simp
qed

lemma find_slot_0: "table_inv t \<Longrightarrow> find_slot 0 t = None"
  using chain_rep [of t] by (auto simp: find_slot_None trep_def)

text \<open>Writing a slot's data.\<close>

lemma set_slot_simps [simp]:
  "lslots (set_slot a f t) = (lslots t)(a := f (lslots t a))"
  "firstSlot (set_slot a f t) = firstSlot t" "recycler (set_slot a f t) = recycler t"
  "slotCount (set_slot a f t) = slotCount t" "chainModified (set_slot a f t) = chainModified t"
  "MAX_LOCOS (set_slot a f t) = MAX_LOCOS t" "ramSlots (set_slot a f t) = ramSlots t"
  by (simp_all add: set_slot_def)

definition keeps_key :: "(LocoSlot \<Rightarrow> LocoSlot) \<Rightarrow> bool" where
  "keeps_key f \<longleftrightarrow> (\<forall>s. snext (f s) = snext s \<and> loco (f s) = loco s)"

lemma keeps_keyD: "keeps_key f \<Longrightarrow> snext (f s) = snext s" "keeps_key f \<Longrightarrow> loco (f s) = loco s"
  by (simp_all add: keeps_key_def)

lemma sn_upd: "sn (h(a := s)) = (sn h)(a := snext s)"
  by auto

lemma set_slot_field:
  assumes "keeps_key f"
  shows "(\<lambda>x. snext (lslots (set_slot a f t) x)) = (\<lambda>x. snext (lslots t x))"
    and "(\<lambda>x. loco (lslots (set_slot a f t) x)) = (\<lambda>x. loco (lslots t x))"
  using assms by (auto simp: keeps_key_def fun_eq_iff)

lemma set_slot_chain: "keeps_key f \<Longrightarrow> chain (set_slot a f t) = chain t"
  unfolding chain_def set_slot_simps(2-) by (simp only: set_slot_field)

lemma set_slot_find: "keeps_key f \<Longrightarrow> find_slot l (set_slot a f t) = find_slot l t"
  unfolding find_slot_def set_slot_chain
  using set_slot_field(2) [of f a t] by (simp only: fun_eq_iff)

lemma set_slot_trep: "keeps_key f \<Longrightarrow> trep (set_slot a f t) as rs = trep t as rs"
  unfolding trep_def set_slot_simps(2-) set_slot_field
  using set_slot_field(2) [of f a t] by (simp only: fun_eq_iff)

lemma set_slot_inv: "keeps_key f \<Longrightarrow> table_inv (set_slot a f t) = table_inv t"
  by (simp only: table_inv_def set_slot_trep)

lemmas set_slot_keeps = set_slot_chain set_slot_find set_slot_inv

text \<open>Getting a slot.\<close>

lemma getSlot_found: "l \<noteq> 0 \<Longrightarrow> find_slot l t = Some a \<Longrightarrow> getSlot l c t = (Some a, t)"
  by (simp add: getSlot_def)

lemma getSlot_zero [simp]: "getSlot 0 c t = (None, t)"
  by (simp add: getSlot_def)

lemma getSlot_search: "table_inv t \<Longrightarrow> getSlot l False t = (find_slot l t, t)"
  by (auto simp: getSlot_def find_slot_0 split: option.split)

lemma getSlot_full: "find_slot l t = None \<Longrightarrow> \<not> has_room t \<Longrightarrow> getSlot l c t = (None, t)"
  by (auto simp: getSlot_def has_room_def split: option.splits)

lemma prepare_trep:
  assumes "trep t as rs" and "a \<notin> set as" and "slotCount t \<le> n" and "n \<le> MAX_LOCOS t"
    and "linked (sn (lslots t)) r rs'" and "set (a # as @ rs') = {..<n}" and "distinct (a # as @ rs')"
    and "l \<noteq> 0" and "\<forall>b \<in> set as. loco (lslots t b) \<noteq> l"
  shows "trep (prepare l a (t\<lparr>recycler := r, slotCount := n\<rparr>)) (a # as) rs'"
proof -
  let ?t = "prepare l a (t\<lparr>recycler := r, slotCount := n\<rparr>)"
  have "sn (lslots ?t) = (sn (lslots t))(a := firstSlot t)" by (auto simp: prepare_def)
  moreover have "loco (lslots ?t a) = l" "\<And>b. b \<in> set as \<Longrightarrow> loco (lslots ?t b) = loco (lslots t b)"
    using assms(2) by (auto simp: prepare_def)
  moreover from this assms(1) have "distinct (map (\<lambda>b. loco (lslots ?t b)) as)"
    by (simp add: trep_def cong: map_cong)
  moreover have "firstSlot ?t = Some a" "recycler ?t = r" "slotCount ?t = n" "MAX_LOCOS ?t = MAX_LOCOS t"
    by (simp_all add: prepare_def)
  moreover have "\<forall>b \<in> set as. l \<noteq> loco (lslots t b)" using assms(9) by auto
  ultimately show ?thesis using assms by (simp add: trep_def image_iff)
qed

lemma getSlot_created:
  assumes inv: "table_inv t" and l: "l \<noteq> 0" "find_slot l t = None" and room: "has_room t"
  shows "\<exists>a t'. getSlot l True t = (Some a, t') \<and> table_inv t' \<and> a \<notin> set (chain t) \<and> chain t' = a # chain t \<and>
    slot_data (lslots t' a) = fresh_slot l \<and> (\<forall>b. b \<noteq> a \<longrightarrow> lslots t' b = lslots t b) \<and> chainModified t' \<and>
    a < slotCount t' \<and> slotCount t \<le> slotCount t' \<and> MAX_LOCOS t' = MAX_LOCOS t"
proof -
  from chain_rep [OF inv] obtain rs where rep: "trep t (chain t) rs" by blast
  have fresh: "\<forall>b \<in> set (chain t). loco (lslots t b) \<noteq> l" using l(2) by (simp add: find_slot_None)
  have data: "slot_data (lslots (prepare l a s) a) = fresh_slot l" for a s
    by (cases "lslots s a") (simp add: prepare_def slot_data_def fresh_slot_def)
  show ?thesis
  proof (cases "recycler t")
    case (Some a)
    with rep obtain rs' where rs: "rs = a # rs'" "linked (sn (lslots t)) (snext (lslots t a)) rs'"
      by (auto simp: trep_def linked_Some)
    let ?t = "prepare l a (t\<lparr>recycler := snext (lslots t a)\<rparr>)"
    have t': "?t = prepare l a (t\<lparr>recycler := snext (lslots t a), slotCount := slotCount t\<rparr>)" by simp
    have "trep ?t (a # chain t) rs'" unfolding t'
      by (rule prepare_trep [OF rep]) (use rep rs fresh l in \<open>auto simp: trep_def\<close>)
    then have "chain ?t = a # chain t" "table_inv ?t" by (auto simp: trep_chain table_inv_def)
    moreover have "getSlot l True t = (Some a, ?t)" using l Some by (simp add: getSlot_def)
    moreover have "a \<notin> set (chain t)" "a < slotCount t" using rep rs by (auto simp: trep_def)
    ultimately show ?thesis
      by (intro exI [of _ a] exI [of _ ?t]) (simp add: data, simp add: prepare_def)
  next
    case None
    with room rep have n: "slotCount t < MAX_LOCOS t" "slotCount t < ramSlots t" "rs = []"
      by (auto simp: has_room_def trep_def)
    let ?t = "prepare l (slotCount t) (t\<lparr>slotCount := slotCount t + 1\<rparr>)"
    have t': "?t = prepare l (slotCount t) (t\<lparr>recycler := None, slotCount := slotCount t + 1\<rparr>)"
      using None by (cases t) simp
    have "trep ?t (slotCount t # chain t) []" unfolding t'
      by (rule prepare_trep [OF rep]) (use rep n fresh l in \<open>auto simp: trep_def\<close>)
    then have "chain ?t = slotCount t # chain t" "table_inv ?t" by (auto simp: trep_chain table_inv_def)
    moreover have "getSlot l True t = (Some (slotCount t), ?t)" using l None n by (simp add: getSlot_def)
    moreover have "slotCount t \<notin> set (chain t)" using rep by (auto simp: trep_def)
    ultimately show ?thesis
      by (intro exI [of _ "slotCount t"] exI [of _ ?t]) (simp add: data, simp add: prepare_def)
  qed
qed

text \<open>Forgetting a slot.\<close>

lemma find_prev_mid:
  assumes "linked (sn (lslots t)) (firstSlot t) (bs @ [p] @ [a] @ cs)" and "chain t = bs @ [p] @ [a] @ cs"
  shows "find_prev a t = Some p"
proof -
  have nx: "snext (lslots t p) = Some a"
    using linked_append [of "sn (lslots t)" "firstSlot t" bs p "a # cs"] assms(1) by simp
  have "snext (lslots t b) \<noteq> Some a" if "b \<in> set bs" for b
  proof
    assume b: "snext (lslots t b) = Some a"
    from that obtain xs ys where "bs = xs @ b # ys" by (meson split_list)
    with assms(1) have "linked (sn (lslots t)) (snext (lslots t b)) (ys @ [p] @ [a] @ cs)"
      using linked_append [of "sn (lslots t)" "firstSlot t" xs b "ys @ [p] @ [a] @ cs"] by simp
    with b have "a \<in> set (ys @ [p])" by (cases ys) auto
    with linked_distinct [OF assms(1)] \<open>bs = xs @ b # ys\<close> show False by auto
  qed
  then have "find (\<lambda>b. snext (lslots t b) = Some a) bs = None" by (auto simp: find_None_iff)
  with nx show ?thesis unfolding find_prev_def assms(2) by (simp add: find_app)
qed

lemma forget_trep:
  assumes rep: "trep t as rs" and a: "a \<in> set as"
  shows "trep (forget a t) (remove1 a as) (a # rs)"
    and "\<And>b. slot_data (lslots (forget a t) b) = slot_data (lslots t b)"
proof -
  have lk: "linked (sn (lslots t)) (firstSlot t) as" "linked (sn (lslots t)) (recycler t) rs"
    and dist: "distinct (as @ rs)" using rep by (simp_all add: trep_def)
  have ch: "chain t = as" by (rule trep_chain [OF rep])
  from linked_mem_split [OF lk(1) a] obtain bs cs where
    s: "as = bs @ a # cs" "linked (sn (lslots t)) (snext (lslots t a)) cs" "a \<notin> set bs" "a \<notin> set cs" .
  have sn: "linked (sn (lslots (forget a t))) (firstSlot (forget a t)) (bs @ cs) \<and>
      linked (sn (lslots (forget a t))) (recycler (forget a t)) (a # rs) \<and>
      (\<forall>b. slot_data (lslots (forget a t) b) = slot_data (lslots t b))"
  proof (cases bs rule: rev_cases)
    case Nil
    with s lk have first: "firstSlot t = Some a" by simp
    have "sn (lslots (forget a t)) = (sn (lslots t))(a := recycler t)"
      by (auto simp: forget_def first)
    with Nil s lk dist first show ?thesis
      by (simp del: fun_upd_apply) (simp add: forget_def slot_data_def)
  next
    case (snoc ds p)
    with lk(1) s(1) ch have prev: "find_prev a t = Some p"
      by (intro find_prev_mid [of t ds p a cs]) simp_all
    from snoc s(1) lk(1) have first: "firstSlot t \<noteq> Some a"
      using linked_distinct [OF lk(1)] by (cases ds) auto
    have "linked ((sn (lslots t))(p := snext (lslots t a))) (firstSlot t) (ds @ [p] @ cs)"
      using linked_unlink [of "sn (lslots t)" "firstSlot t" ds p a cs] lk(1) snoc s(1) by simp
    moreover have "p \<noteq> a" "p \<notin> set rs" "a \<notin> set rs" using snoc s dist by auto
    moreover from this have "sn (lslots (forget a t)) = (sn (lslots t))(p := snext (lslots t a), a := recycler t)"
      by (auto simp: forget_def first prev)
    ultimately show ?thesis using snoc s lk
      by (simp del: fun_upd_apply) (simp add: forget_def prev first slot_data_def)
  qed
  then show "\<And>b. slot_data (lslots (forget a t) b) = slot_data (lslots t b)" by blast
  then have "\<And>b. loco (lslots (forget a t) b) = loco (lslots t b)"
    by (metis LocoSlot.select_convs(7) LocoSlot.update_convs(4) LocoSlot.surjective slot_data_def)
  moreover have "slotCount (forget a t) = slotCount t" "MAX_LOCOS (forget a t) = MAX_LOCOS t"
    by (simp_all add: forget_def Let_def split: option.split)
  moreover have "remove1 a as = bs @ cs" using s by (simp add: remove1_append)
  ultimately show "trep (forget a t) (remove1 a as) (a # rs)"
    using sn rep s dist by (auto simp: trep_def)
qed

lemma forget_facts:
  assumes inv: "table_inv t" and a: "a \<in> set (chain t)"
  shows "table_inv (forget a t)" and "chain (forget a t) = remove1 a (chain t)"
    and "slot_data (lslots (forget a t) b) = slot_data (lslots t b)"
    and "chainModified (forget a t)" and "recycler (forget a t) = Some a"
proof -
  from chain_rep [OF inv] obtain rs where "trep t (chain t) rs" by blast
  note f = forget_trep [OF this a]
  from f(1) show "table_inv (forget a t)" "chain (forget a t) = remove1 a (chain t)"
    by (auto simp: table_inv_def trep_chain)
  from f(2) show "slot_data (lslots (forget a t) b) = slot_data (lslots t b)" .
qed (simp_all add: forget_def Let_def)

lemma slot_data_loco [simp]: "loco (slot_data s) = loco s"
  by (simp add: slot_data_def)

lemma forget_loco: "table_inv t \<Longrightarrow> a \<in> set (chain t) \<Longrightarrow> loco (lslots (forget a t) b) = loco (lslots t b)"
  by (metis forget_facts(3) slot_data_loco)

lemma forgetAll_inv: "table_inv (forgetAll t)" "chain (forgetAll t) = []"
  by (auto simp: table_inv_def trep_def forgetAll_def chain_def)

lemma new_table_inv: "table_inv (new_table h m r)" "chain (new_table h m r) = []"
  by (auto simp: table_inv_def trep_def new_table_def chain_def)

section \<open>The contract of the loco table\<close>

text \<open>
  What the rest of the firmware relies on: the table is a map from loco addresses to slot data.
  A loco is acquired with fresh data or as it is, releasing it makes room for another one, and an
  access changes the data of one loco only.
\<close>

locale loco_map =
  fixes inv :: "'t \<Rightarrow> bool"
    and valid :: "'k \<Rightarrow> bool"
    and view :: "'t \<Rightarrow> 'k \<Rightarrow> 'd option"
    and acquire :: "'k \<Rightarrow> 't \<Rightarrow> 't option"
    and release :: "'k \<Rightarrow> 't \<Rightarrow> 't"
    and ok :: "('d \<Rightarrow> 'd) \<Rightarrow> bool"
    and change :: "'k \<Rightarrow> ('d \<Rightarrow> 'd) \<Rightarrow> 't \<Rightarrow> 't"
    and blank :: "'k \<Rightarrow> 'd"
  assumes acquire_old: "inv t \<Longrightarrow> view t k \<noteq> None \<Longrightarrow> acquire k t = Some t"
    and acquire_new: "inv t \<Longrightarrow> view t k = None \<Longrightarrow> acquire k t = Some t' \<Longrightarrow>
      inv t' \<and> view t' = (view t)(k \<mapsto> blank k)"
    and release_view: "inv t \<Longrightarrow> inv (release k t) \<and> view (release k t) = (view t)(k := None)"
    and release_room: "inv t \<Longrightarrow> view t k \<noteq> None \<Longrightarrow> valid j \<Longrightarrow> acquire j (release k t) \<noteq> None"
    and change_view: "inv t \<Longrightarrow> ok f \<Longrightarrow>
      inv (change k f t) \<and> view (change k f t) = (view t)(k := map_option f (view t k))"
    and invalid_key: "inv t \<Longrightarrow> \<not> valid k \<Longrightarrow> view t k = None"
begin

lemma acquire_view:
  assumes "inv t" and "acquire k t = Some t'"
  shows "inv t'" and "view t' k \<noteq> None" and "j \<noteq> k \<Longrightarrow> view t' j = view t j"
  using assms acquire_old [of t k] acquire_new [of t k t'] by (cases "view t k"; auto)+

lemma acquire_twice: "inv t \<Longrightarrow> acquire k t = Some t' \<Longrightarrow> acquire k t' = Some t'"
  using acquire_view [of t k t'] by (simp add: acquire_old)

lemma release_acquire:
  assumes "inv t" and "view t k \<noteq> None"
  shows "\<exists>t'. acquire k (release k t) = Some t' \<and> inv t' \<and> view t' = (view t)(k \<mapsto> blank k)"
proof -
  from assms invalid_key [of t k] have "valid k" by (cases "valid k") auto
  with release_room [OF assms] obtain t' where a: "acquire k (release k t) = Some t'" by blast
  from release_view [OF assms(1), of k] have r: "inv (release k t)" "view (release k t) = (view t)(k := None)"
    by blast+
  then have "view (release k t) k = None" by simp
  with acquire_new [OF r(1) this a] r(2) a show ?thesis by auto
qed

lemma change_other: "inv t \<Longrightarrow> ok f \<Longrightarrow> j \<noteq> k \<Longrightarrow> view (change k f t) j = view t j"
  using change_view [of t f k] by simp

lemma change_change:
  "inv t \<Longrightarrow> ok f \<Longrightarrow> ok g \<Longrightarrow> j \<noteq> k \<Longrightarrow> view (change j g (change k f t)) = view (change k f (change j g t))"
  using change_view [of t f k] change_view [of t g j] change_view [of "change k f t" g j]
    change_view [of "change j g t" f k] by (auto simp: fun_eq_iff)

end

definition acquire_loco :: "u16 \<Rightarrow> slot_table \<Rightarrow> slot_table option" where
  "acquire_loco l t = (case getSlot l True t of (None, _) \<Rightarrow> None | (Some _, t') \<Rightarrow> Some t')"

definition release_loco :: "u16 \<Rightarrow> slot_table \<Rightarrow> slot_table" where
  "release_loco l t = (case find_slot l t of None \<Rightarrow> t | Some a \<Rightarrow> forget a t)"

definition change_loco :: "u16 \<Rightarrow> (LocoSlot \<Rightarrow> LocoSlot) \<Rightarrow> slot_table \<Rightarrow> slot_table" where
  "change_loco l f t = (case find_slot l t of None \<Rightarrow> t | Some a \<Rightarrow> set_slot a f t)"

definition data_change :: "(LocoSlot \<Rightarrow> LocoSlot) \<Rightarrow> bool" where
  "data_change f \<longleftrightarrow> keeps_key f \<and> (\<forall>s. slot_data (f s) = f (slot_data s))"

lemma abs_slots_eqI:
  assumes "table_inv t"
    and "\<And>a. a \<in> set (chain t) \<Longrightarrow> m (loco (lslots t a)) = Some (slot_data (lslots t a))"
    and "\<And>l. \<forall>a \<in> set (chain t). loco (lslots t a) \<noteq> l \<Longrightarrow> m l = None"
  shows "abs_slots t = m"
proof
  fix l
  show "abs_slots t l = m l"
  proof (cases "find_slot l t")
    case None
    with assms(3) show ?thesis by (simp add: abs_slots_def find_slot_None)
  next
    case (Some a)
    with find_slot_Some [OF Some] assms(2) show ?thesis by (auto simp: abs_slots_def)
  qed
qed

lemma abs_slots_mem: "table_inv t \<Longrightarrow> a \<in> set (chain t) \<Longrightarrow> abs_slots t (loco (lslots t a)) = Some (slot_data (lslots t a))"
  by (simp add: abs_slots_def find_slot_mem)

lemma abs_slots_None: "abs_slots t l = None \<longleftrightarrow> find_slot l t = None"
  by (simp add: abs_slots_def)

lemma fresh_slot_loco [simp]: "loco (fresh_slot l) = l"
  by (simp add: fresh_slot_def)

lemma getSlot_created_abs:
  assumes "table_inv t" and "l \<noteq> 0" and "find_slot l t = None" and "has_room t"
  obtains a t' where "getSlot l True t = (Some a, t')" "table_inv t'" "chain t' = a # chain t"
    "abs_slots t' = (abs_slots t)(l \<mapsto> fresh_slot l)"
proof -
  from getSlot_created [OF assms] obtain a t' where g: "getSlot l True t = (Some a, t')" "table_inv t'"
    "a \<notin> set (chain t)" "chain t' = a # chain t" "slot_data (lslots t' a) = fresh_slot l"
    "\<And>b. b \<noteq> a \<Longrightarrow> lslots t' b = lslots t b" by blast
  have l: "loco (lslots t' a) = l" using g(5) by (metis slot_data_loco fresh_slot_loco)
  have "abs_slots t' = (abs_slots t)(l \<mapsto> fresh_slot l)"
  proof (rule abs_slots_eqI [OF g(2)])
    fix b assume "b \<in> set (chain t')"
    then show "((abs_slots t)(l \<mapsto> fresh_slot l)) (loco (lslots t' b)) = Some (slot_data (lslots t' b))"
      using g assms(1,3) l by (cases "b = a") (auto simp: abs_slots_mem find_slot_None)
  next
    fix k assume "\<forall>b \<in> set (chain t'). loco (lslots t' b) \<noteq> k"
    then have "k \<noteq> l" "\<forall>b \<in> set (chain t). loco (lslots t b) \<noteq> k"
      using g l by auto (metis g(3) g(6))
    then show "((abs_slots t)(l \<mapsto> fresh_slot l)) k = None" by (simp add: abs_slots_None find_slot_None)
  qed
  with g that show thesis by blast
qed

lemma forget_abs:
  assumes "table_inv t" and "a \<in> set (chain t)"
  shows "abs_slots (forget a t) = (abs_slots t)(loco (lslots t a) := None)"
proof (rule abs_slots_eqI [OF forget_facts(1) [OF assms]])
  from chain_rep [OF assms(1)] have d: "distinct (chain t)" and inj: "inj_on (\<lambda>a. loco (lslots t a)) (set (chain t))"
    by (auto simp: trep_def distinct_map)
  fix b assume "b \<in> set (chain (forget a t))"
  with d have b: "b \<in> set (chain t)" "b \<noteq> a" by (auto simp: forget_facts [OF assms])
  with inj assms(2) have "loco (lslots t b) \<noteq> loco (lslots t a)" by (auto dest: inj_onD)
  with b assms show "((abs_slots t)(loco (lslots t a) := None)) (loco (lslots (forget a t) b)) =
      Some (slot_data (lslots (forget a t) b))"
    by (simp add: abs_slots_mem forget_loco forget_facts)
next
  from chain_rep [OF assms(1)] have d: "distinct (chain t)" by (auto simp: trep_def)
  fix l assume "\<forall>b \<in> set (chain (forget a t)). loco (lslots (forget a t) b) \<noteq> l"
  with assms d have "\<forall>b \<in> set (chain t). b \<noteq> a \<longrightarrow> loco (lslots t b) \<noteq> l"
    by (simp add: forget_facts forget_loco)
  then show "((abs_slots t)(loco (lslots t a) := None)) l = None"
    by (auto simp: abs_slots_None find_slot_None)
qed

lemma set_slot_abs:
  assumes "table_inv t" and "find_slot l t = Some a" and "data_change f"
  shows "abs_slots (set_slot a f t) = (abs_slots t)(l := map_option f (abs_slots t l))"
proof -
  have k: "keeps_key f" "\<And>s. slot_data (f s) = f (slot_data s)" using assms(3) by (auto simp: data_change_def)
  have "b \<noteq> a" if "find_slot j t = Some b" "j \<noteq> l" for j b
    using that assms(2) by (auto dest: find_slot_Some)
  then show ?thesis
    by (auto simp: fun_eq_iff abs_slots_def set_slot_keeps [OF k(1)] k(2) assms(2) split: option.split)
      (auto simp: map_option_case split: option.splits)
qed

lemma acquire_loco_cases:
  assumes "table_inv t"
  shows "acquire_loco l t =
    (if find_slot l t \<noteq> None then Some t else if l \<noteq> 0 \<and> has_room t then Some (snd (getSlot l True t)) else None)"
proof (cases "find_slot l t")
  case None
  then show ?thesis
    using getSlot_created [OF assms, of l] getSlot_full [OF None, of True]
    by (auto simp: acquire_loco_def split: prod.splits option.splits)
next
  case (Some a)
  with assms find_slot_0 have "l \<noteq> 0" by auto
  with Some show ?thesis by (simp add: acquire_loco_def getSlot_found)
qed

interpretation lt: loco_map table_inv "\<lambda>l. l \<noteq> 0" abs_slots acquire_loco release_loco data_change change_loco fresh_slot
proof (unfold_locales, goal_cases)
  case (1 t k)
  then show ?case by (simp add: acquire_loco_cases abs_slots_None)
next
  case (2 t k t')
  then have f: "find_slot k t = None" "k \<noteq> 0" "has_room t" "t' = snd (getSlot k True t)"
    by (auto simp: acquire_loco_cases abs_slots_None split: if_splits)
  from getSlot_created_abs [OF 2(1) f(2,1,3)] f(4) show ?case by (metis snd_conv)
next
  case (3 t k)
  show ?case
  proof (cases "find_slot k t")
    case None
    with 3 show ?thesis by (auto simp: release_loco_def abs_slots_def)
  next
    case (Some a)
    with find_slot_Some [OF Some] forget_abs [OF 3] forget_facts(1) [OF 3] show ?thesis
      by (auto simp: release_loco_def)
  qed
next
  case (4 t k j)
  then obtain a where a: "find_slot k t = Some a" by (auto simp: abs_slots_None)
  with find_slot_Some [OF a] have f: "table_inv (forget a t)" "recycler (forget a t) = Some a"
    using forget_facts [OF 4(1)] by auto
  then have "has_room (forget a t)" by (simp add: has_room_def)
  with f 4 a show ?case by (auto simp: release_loco_def acquire_loco_cases)
next
  case (5 t f k)
  show ?case
  proof (cases "find_slot k t")
    case None
    with 5 show ?thesis by (auto simp: change_loco_def abs_slots_def)
  next
    case (Some a)
    with 5 set_slot_abs [OF 5(1) Some 5(2)] show ?thesis
      by (simp add: change_loco_def data_change_def set_slot_keeps)
  qed
next
  case (6 t k)
  then show ?case by (simp add: abs_slots_None find_slot_0)
qed

lemma forget_count [simp]: "slotCount (forget a t) = slotCount t" "MAX_LOCOS (forget a t) = MAX_LOCOS t"
  "ramSlots (forget a t) = ramSlots t"
  by (simp_all add: forget_def Let_def split: option.split)

lemma getSlot_inv:
  assumes "table_inv t"
  shows "table_inv (snd (getSlot l c t))"
proof (cases "find_slot l t = None \<and> l \<noteq> 0 \<and> c \<and> has_room t")
  case True
  with getSlot_created [OF assms, of l] show ?thesis by auto
next
  case False
  then have "snd (getSlot l c t) = t"
    by (auto simp: getSlot_def has_room_def split: option.splits)
  with assms show ?thesis by simp
qed

text \<open>What a caller knows after a slot was returned.\<close>

lemma getSlot_Some:
  assumes "table_inv t" and "getSlot l c t = (Some a, t')"
  shows "table_inv t'" and "a \<in> set (chain t')" and "find_slot l t' = Some a" and "l \<noteq> 0"
    and "set (chain t) \<subseteq> set (chain t')" and "b \<in> set (chain t) \<Longrightarrow> lslots t' b = lslots t b"
    and "k \<noteq> l \<Longrightarrow> find_slot k t' = find_slot k t"
    and "find_slot l t = None \<Longrightarrow> slot_data (lslots t' a) = fresh_slot l \<and> a \<notin> set (chain t)"
    and "set (chain t') = insert a (set (chain t))"
proof -
  have l: "l \<noteq> 0" using assms(2) by (auto simp: getSlot_def split: if_splits)
  have "table_inv t' \<and> a \<in> set (chain t') \<and> find_slot l t' = Some a \<and> set (chain t') = insert a (set (chain t)) \<and>
    (\<forall>b \<in> set (chain t). lslots t' b = lslots t b) \<and> (\<forall>k. k \<noteq> l \<longrightarrow> find_slot k t' = find_slot k t) \<and>
    (find_slot l t = None \<longrightarrow> slot_data (lslots t' a) = fresh_slot l \<and> a \<notin> set (chain t))"
  proof (cases "find_slot l t")
    case (Some b)
    with assms l have "b = a" "t' = t" by (simp_all add: getSlot_found)
    with Some assms(1) find_slot_Some [OF Some] show ?thesis by auto
  next
    case None
    then have "c \<and> has_room t" using assms(2) l
      by (auto simp: getSlot_def has_room_def split: if_splits option.splits)
    with getSlot_created [OF assms(1) l None] assms(2)
    have g: "table_inv t'" "a \<notin> set (chain t)" "chain t' = a # chain t" "slot_data (lslots t' a) = fresh_slot l"
      "\<And>b. b \<noteq> a \<Longrightarrow> lslots t' b = lslots t b" by auto
    have la: "loco (lslots t' a) = l" using g(4) by (metis slot_data_loco fresh_slot_loco)
    have same: "lslots t' b = lslots t b" if "b \<in> set (chain t)" for b
      by (rule g(5)) (use that g(2) in auto)
    have "find_slot k t' = find_slot k t" if "k \<noteq> l" for k
      using that la same unfolding find_slot_def g(3) by (auto cong: find_cong)
    moreover have "find_slot l t' = Some a" using la by (simp add: find_slot_def g(3))
    ultimately show ?thesis using g same by auto
  qed
  with l show "table_inv t'" "a \<in> set (chain t')" "find_slot l t' = Some a" "l \<noteq> 0"
    "set (chain t) \<subseteq> set (chain t')" "b \<in> set (chain t) \<Longrightarrow> lslots t' b = lslots t b"
    "k \<noteq> l \<Longrightarrow> find_slot k t' = find_slot k t"
    "find_slot l t = None \<Longrightarrow> slot_data (lslots t' a) = fresh_slot l \<and> a \<notin> set (chain t)"
    "set (chain t') = insert a (set (chain t))"
    by auto
qed

section \<open>Properties\<close>

text \<open>A table with two locos for the instances.\<close>

definition blank_loco :: LocoSlot where
  "blank_loco = fresh_slot 0"

definition two_locos :: slot_table where
  "two_locos = snd (getSlot 4 True (snd (getSlot 3 True (new_table (\<lambda>_. blank_loco) 2 50))))"

lemma two_locos_facts:
  "table_inv two_locos" "find_slot 3 two_locos = Some 0" "find_slot 4 two_locos = Some 1"
  "slotCount two_locos = 2" "MAX_LOCOS two_locos = 2" "recycler two_locos = None"
proof -
  show "table_inv two_locos" unfolding two_locos_def by (intro getSlot_inv new_table_inv)
  show "find_slot 3 two_locos = Some 0" "find_slot 4 two_locos = Some 1"
    "slotCount two_locos = 2" "MAX_LOCOS two_locos = 2" "recycler two_locos = None"
    by (simp_all add: two_locos_def new_table_def getSlot_def find_slot_def chain_def prepare_def fresh_slot_def blank_loco_def)
qed




text \<open>
  Forgetting a loco. \<^verbatim>\<open>forget\<close> removes exactly that loco from the table, and the slot is
  not lost: even with the table full the next request for any loco succeeds, and the forgotten
  loco comes back with default values and nothing of its old state.
\<close>

theorem loco_forgotten:
  assumes "table_inv t" and "getSlot l False t = (Some a, t)" and "l \<noteq> 0"
  shows "table_inv (forget a t) \<and> abs_slots (forget a t) = (abs_slots t)(l := None) \<and>
    (\<forall>k. k \<noteq> 0 \<longrightarrow> fst (getSlot k True (forget a t)) \<noteq> None) \<and>
    abs_slots (snd (getSlot l True (forget a t))) = (abs_slots t)(l \<mapsto> fresh_slot l) \<and>
    slotCount (snd (getSlot l True (forget a t))) = slotCount t"
proof -
  have f: "find_slot l t = Some a" using assms(1,2) by (simp add: getSlot_search)
  then have v: "abs_slots t l \<noteq> None" and r: "release_loco l t = forget a t"
    by (simp_all add: abs_slots_None release_loco_def)
  note view = lt.release_view [OF assms(1), of l, unfolded r]
  have room: "\<forall>k. k \<noteq> 0 \<longrightarrow> fst (getSlot k True (forget a t)) \<noteq> None"
  proof (intro allI impI)
    fix k :: u16 assume "k \<noteq> 0"
    from lt.release_room [OF assms(1) v this] r show "fst (getSlot k True (forget a t)) \<noteq> None"
      by (auto simp: acquire_loco_def split: prod.splits option.splits)
  qed
  have again: "abs_slots (snd (getSlot l True (forget a t))) = (abs_slots t)(l \<mapsto> fresh_slot l)"
    using lt.release_acquire [OF assms(1) v] r by (auto simp: acquire_loco_def split: prod.splits option.splits)
  have "find_slot l (forget a t) = None" using view by (simp add: abs_slots_None [symmetric])
  then have "slotCount (snd (getSlot l True (forget a t))) = slotCount t"
    using forget_facts(5) [OF assms(1), of a] find_slot_Some [OF f] assms(3) by (simp add: getSlot_def prepare_def)
  with view room again show ?thesis by blast
qed

theorem loco_forgotten_witness:
  "getSlot 3 False two_locos = (Some 0, two_locos) \<and> table_inv (forget 0 two_locos) \<and>
   fst (getSlot 9 True (forget 0 two_locos)) \<noteq> None"
proof -
  have g: "getSlot 3 False two_locos = (Some 0, two_locos)"
    using two_locos_facts by (simp add: getSlot_search)
  show ?thesis using loco_forgotten [OF two_locos_facts(1) g] g by simp
qed

end
