(* ===== verification/Consist.thy ===== *)
theory Consist
  imports LocoSlots
begin

text \<open>
  Consists, \<^verbatim>\<open>DCCConsist.cpp\<close>: locos chained together through their slots, driven by the first.
  The theory translates the command that lists, creates and deletes consists, and the two calls
  the rest of the firmware makes. The invariant says that the chains are disjoint lists of at
  least two slots, each follower pointing at its lead; all operations keep it, which is what makes
  the unbounded pointer loops of the code end.

  The reply stream is a list of messages. A null pointer that the code would follow is the result
  \<open>None\<close>.
\<close>

section \<open>Model\<close>

datatype consist_msg =
    ConsistList "(bool \<times> u16) list"
  | InvalidLocoid int
  | DuplicateLocoid int
  | InAnotherConsist int

text \<open>The slots from one on along \<^verbatim>\<open>getConsistNext\<close>, and from one up along \<^verbatim>\<open>getConsistLead\<close>.\<close>

definition consist_from :: "slot_table \<Rightarrow> ptr \<Rightarrow> addr list" where
  "consist_from t = walk (slotCount t) (\<lambda>a. consistNext (lslots t a))"

definition leads_from :: "slot_table \<Rightarrow> ptr \<Rightarrow> addr list" where
  "leads_from t = walk (slotCount t) (\<lambda>a. consistLead (lslots t a))"

definition unchain :: "addr \<Rightarrow> slot_table \<Rightarrow> slot_table" where
  "unchain a = set_slot a (\<lambda>s. s\<lparr>consistLead := None, consistNext := None, consistReverse := False\<rparr>)"

definition deleteAnyConsist :: "int \<Rightarrow> slot_table \<Rightarrow> slot_table" where
  "deleteAnyConsist locoid t =
    (case getSlot (word_of_int \<bar>locoid\<bar>) False t of
       (None, _) \<Rightarrow> t
     | (Some slot, _) \<Rightarrow>
         fold unchain
           (consist_from t (if isConsistLead (lslots t slot) then Some slot else consistLead (lslots t slot))) t)"

definition addLocoToConsist :: "u16 \<Rightarrow> u16 \<Rightarrow> bool \<Rightarrow> slot_table \<Rightarrow> bool \<times> slot_table" where
  "addLocoToConsist consistId locoId reversed t =
    (if consistId < 1 \<or> consistId > 10239 then (False, t)
     else if locoId < 1 \<or> locoId > 10239 then (False, t)
     else if locoId = consistId then (True, t)
     else case getSlot consistId True t of
       (None, t1) \<Rightarrow> (False, t1)
     | (Some s, t1) \<Rightarrow>
         let leadSlot = last (leads_from t1 (Some s));
             tailSlot = last (consist_from t1 (Some leadSlot))
         in case getSlot locoId True t1 of
              (None, t2) \<Rightarrow> (False, t2)
            | (Some addSlot, t2) \<Rightarrow>
                if isConsistLead (lslots t2 addSlot) \<or> isConsistFollower (lslots t2 addSlot) then (False, t2)
                else
                  let t3 = set_slot addSlot (\<lambda>s. s\<lparr>consistReverse := reversed\<rparr>) t2;
                      t4 = (if addSlot \<noteq> leadSlot then set_slot addSlot (\<lambda>s. s\<lparr>consistLead := Some leadSlot\<rparr>) t3 else t3);
                      t5 = (if tailSlot \<noteq> addSlot then set_slot tailSlot (\<lambda>s. s\<lparr>consistNext := Some addSlot\<rparr>) t4 else t4)
                  in (True, t5))"

text \<open>The checks at the start of \<^verbatim>\<open>parse\<close>, in its order.\<close>

fun check_ids :: "int list \<Rightarrow> consist_msg option" where
  "check_ids [] = None"
| "check_ids (x # xs) =
    (if \<bar>x\<bar> < 1 \<or> \<bar>x\<bar> > 10239 then Some (InvalidLocoid x)
     else if \<exists>y \<in> set xs. \<bar>y\<bar> = \<bar>x\<bar> then Some (DuplicateLocoid x)
     else check_ids xs)"

fun check_members :: "slot_table \<Rightarrow> int list \<Rightarrow> consist_msg option" where
  "check_members t [] = None"
| "check_members t (x # xs) =
    (case getSlot (word_of_int \<bar>x\<bar>) False t of
       (Some a, _) \<Rightarrow>
         if isConsistLead (lslots t a) \<or> isConsistFollower (lslots t a) then Some (InAnotherConsist \<bar>x\<bar>)
         else check_members t xs
     | (None, _) \<Rightarrow> check_members t xs)"

fun chain_followers :: "addr \<Rightarrow> addr \<Rightarrow> int list \<Rightarrow> slot_table \<Rightarrow> slot_table option" where
  "chain_followers leadLoco prev [] t = Some t"
| "chain_followers leadLoco prev (x # xs) t =
    (case getSlot (word_of_int \<bar>x\<bar>) True t of
       (None, _) \<Rightarrow> None
     | (Some slot, t1) \<Rightarrow>
         chain_followers leadLoco slot xs
           (set_slot prev (\<lambda>s. s\<lparr>consistNext := Some slot\<rparr>)
             (set_slot slot (\<lambda>s. s\<lparr>consistReverse := x < 0\<rparr>)
               (set_slot slot (\<lambda>s. s\<lparr>consistLead := Some leadLoco\<rparr>) t1))))"

definition members :: "slot_table \<Rightarrow> addr list \<Rightarrow> (bool \<times> u16) list" where
  "members t = map (\<lambda>a. (consistReverse (lslots t a), loco (lslots t a)))"

definition list_consists :: "slot_table \<Rightarrow> consist_msg list" where
  "list_consists t = map (\<lambda>a. ConsistList (members t (consist_from t (Some a))))
     (filter (\<lambda>a. isConsistLead (lslots t a)) (chain t))"

definition parse :: "int list \<Rightarrow> slot_table \<Rightarrow> bool option \<times> consist_msg list \<times> slot_table" where
  "parse p t =
    (if p = [] then (Some True, list_consists t, t)
     else case check_ids p of
       Some msg \<Rightarrow> (Some False, [msg], t)
     | None \<Rightarrow>
         let t1 = (case getSlot (word_of_int \<bar>hd p\<bar>) False t of
                     (Some a, _) \<Rightarrow> if isConsistLead (lslots t a) then deleteAnyConsist (hd p) t else t
                   | (None, _) \<Rightarrow> t)
         in if length p < 2 then (Some True, [], t1)
            else case check_members t1 p of
              Some msg \<Rightarrow> (Some False, [msg], t1)
            | None \<Rightarrow>
                case getSlot (word_of_int \<bar>hd p\<bar>) True t1 of
                  (None, t2) \<Rightarrow> (None, [], t2)
                | (Some leadLoco, t2) \<Rightarrow>
                    case chain_followers leadLoco leadLoco (tl p)
                        (set_slot leadLoco (\<lambda>s. s\<lparr>consistReverse := hd p < 0\<rparr>) t2) of
                      None \<Rightarrow> (None, [], t2)
                    | Some t3 \<Rightarrow> (Some True, [], t3))"

section \<open>The consist invariant\<close>

abbreviation cn :: "lheap \<Rightarrow> addr \<Rightarrow> ptr" where
  "cn h \<equiv> \<lambda>a. consistNext (h a)"

definition consist_ok :: "lheap \<Rightarrow> addr list \<Rightarrow> bool" where
  "consist_ok h c \<longleftrightarrow> c \<noteq> [] \<and> linked (cn h) (Some (hd c)) c \<and> consistLead (h (hd c)) = None \<and>
     (\<forall>b \<in> set (tl c). consistLead (h b) = Some (hd c))"

definition crep :: "slot_table \<Rightarrow> addr list set \<Rightarrow> bool" where
  "crep t C \<longleftrightarrow> (\<forall>c \<in> C. consist_ok (lslots t) c \<and> 2 \<le> length c \<and> set c \<subseteq> set (chain t)) \<and>
     (\<forall>c \<in> C. \<forall>d \<in> C. c \<noteq> d \<longrightarrow> set c \<inter> set d = {}) \<and>
     (\<forall>a \<in> set (chain t). a \<notin> \<Union>(set ` C) \<longrightarrow> consistLead (lslots t a) = None \<and> consistNext (lslots t a) = None)"

definition consist_inv :: "slot_table \<Rightarrow> bool" where
  "consist_inv t \<longleftrightarrow> table_inv t \<and> (\<exists>C. crep t C)"

lemma chain_below: "table_inv t \<Longrightarrow> set (chain t) \<subseteq> {..<slotCount t}"
  using chain_rep [of t] by (auto simp: trep_def)

lemma consist_ok_from:
  "table_inv t \<Longrightarrow> consist_ok (lslots t) c \<Longrightarrow> set c \<subseteq> set (chain t) \<Longrightarrow> consist_from t (Some (hd c)) = c"
  using chain_below [of t] by (auto simp: consist_from_def consist_ok_def intro!: linked_walk)

lemma consist_ok_lead:
  assumes "table_inv t" and "consist_ok (lslots t) c" and "a \<in> set c" and "set c \<subseteq> set (chain t)"
  shows "last (leads_from t (Some a)) = hd c"
proof -
  from chain_below [OF assms(1)] assms(3,4) have "a < slotCount t" by auto
  moreover have "hd c \<in> set c" using assms(3) by (cases c) auto
  then have "hd c < slotCount t" using chain_below [OF assms(1)] assms(4) by auto
  ultimately obtain n where n: "slotCount t = Suc n" by (cases "slotCount t") auto
  show ?thesis
  proof (cases "a = hd c")
    case True
    with assms(2) n show ?thesis by (simp add: leads_from_def consist_ok_def)
  next
    case False
    with assms(2,3) have la: "consistLead (lslots t a) = Some (hd c)"
      by (cases c) (auto simp: consist_ok_def)
    have "a \<noteq> hd c" by fact
    with \<open>a < slotCount t\<close> \<open>hd c < slotCount t\<close> n obtain m where "n = Suc m" by (cases n) auto
    with la assms(2) n show ?thesis by (simp add: leads_from_def consist_ok_def)
  qed
qed

text \<open>Which slot is what, read off the chains.\<close>

lemma crep_member:
  assumes "crep t C" and "c \<in> C" and "a \<in> set c"
  shows "isConsistLead (lslots t a) \<longleftrightarrow> a = hd c" and "isConsistFollower (lslots t a) \<longleftrightarrow> a \<noteq> hd c"
    and "a \<noteq> hd c \<Longrightarrow> consistLead (lslots t a) = Some (hd c)"
proof -
  from assms have ok: "consist_ok (lslots t) c" "2 \<le> length c" by (auto simp: crep_def)
  then obtain x y zs where c: "c = x # y # zs" by (cases c; cases "tl c") auto
  with ok(1) have x: "consistLead (lslots t x) = None" "consistNext (lslots t x) = Some y"
    and f: "\<forall>b \<in> set (y # zs). consistLead (lslots t b) = Some x" by (auto simp: consist_ok_def)
  then have "\<forall>b \<in> set (y # zs). b \<noteq> x" by auto
  with x f c assms(3) show "isConsistLead (lslots t a) \<longleftrightarrow> a = hd c"
    "isConsistFollower (lslots t a) \<longleftrightarrow> a \<noteq> hd c" "a \<noteq> hd c \<Longrightarrow> consistLead (lslots t a) = Some (hd c)"
    by (auto simp: isConsistLead_def isConsistFollower_def)
qed

lemma crep_free:
  "crep t C \<Longrightarrow> a \<in> set (chain t) \<Longrightarrow>
   a \<notin> \<Union>(set ` C) \<longleftrightarrow> \<not> isConsistLead (lslots t a) \<and> \<not> isConsistFollower (lslots t a)"
  using crep_member [of t C _ a] by (auto simp: crep_def isConsistLead_def isConsistFollower_def)

lemma consist_ok_cong:
  assumes "consist_ok h d"
    and "\<And>b. b \<in> set d \<Longrightarrow> consistLead (h' b) = consistLead (h b) \<and> consistNext (h' b) = consistNext (h b)"
  shows "consist_ok h' d"
proof -
  have "linked (cn h') (Some (hd d)) d = linked (cn h) (Some (hd d)) d"
    by (rule linked_cong) (simp add: assms(2))
  with assms show ?thesis by (cases d) (simp_all add: consist_ok_def)
qed

lemma crep_cong:
  assumes "crep t C" and "set (chain t') = set (chain t)"
    and "\<And>a. a \<in> set (chain t) \<Longrightarrow> consistLead (lslots t' a) = consistLead (lslots t a) \<and>
      consistNext (lslots t' a) = consistNext (lslots t a)"
  shows "crep t' C"
proof -
  have "consist_ok (lslots t') c" if "consist_ok (lslots t) c" "set c \<subseteq> set (chain t)" for c
    by (rule consist_ok_cong [OF that(1)]) (use that(2) assms(3) in auto)
  with assms show ?thesis by (simp add: crep_def)
qed

lemma slot_data_consist [simp]:
  "consistLead (slot_data s) = consistLead s" "consistNext (slot_data s) = consistNext s"
  by (simp_all add: slot_data_def)

text \<open>Each operation and the chains.\<close>

definition keeps_consist :: "(LocoSlot \<Rightarrow> LocoSlot) \<Rightarrow> bool" where
  "keeps_consist f \<longleftrightarrow> keeps_key f \<and> (\<forall>s. consistLead (f s) = consistLead s \<and> consistNext (f s) = consistNext s)"

lemma set_slot_crep: "keeps_consist f \<Longrightarrow> crep t C \<Longrightarrow> crep (set_slot a f t) C"
  by (erule crep_cong) (auto simp: keeps_consist_def set_slot_chain)

lemma getSlot_crep:
  assumes "table_inv t" and "crep t C"
  shows "crep (snd (getSlot l c t)) C"
proof (cases "find_slot l t = None \<and> l \<noteq> 0 \<and> c \<and> has_room t")
  case True
  with getSlot_created [OF assms(1), of l] obtain a t' where g: "getSlot l c t = (Some a, t')"
    "a \<notin> set (chain t)" "chain t' = a # chain t" "slot_data (lslots t' a) = fresh_slot l"
    "\<And>b. b \<noteq> a \<Longrightarrow> lslots t' b = lslots t b" by auto
  have fresh: "consistLead (lslots t' a) = None" "consistNext (lslots t' a) = None"
    using slot_data_consist [of "lslots t' a"] by (simp_all add: g(4) fresh_slot_def)
  have "consist_ok (lslots t') c" if "consist_ok (lslots t) c" "set c \<subseteq> set (chain t)" for c
  proof -
    have "lslots t' b = lslots t b" if "b \<in> set c" for b
      by (rule g(5)) (use that g(2) \<open>set c \<subseteq> set (chain t)\<close> in auto)
    then show ?thesis by (intro consist_ok_cong [OF that(1)]) simp
  qed
  moreover have "lslots t' b = lslots t b" if "b \<in> set (chain t)" for b
    by (rule g(5)) (use that g(2) in auto)
  ultimately show ?thesis using assms(2) g(1-3) fresh by (auto simp: crep_def)
next
  case False
  then have "snd (getSlot l c t) = t"
    by (auto simp: getSlot_def has_room_def split: option.splits)
  with assms show ?thesis by simp
qed

lemma forget_crep:
  assumes inv: "table_inv t" and "crep t C" and "a \<in> set (chain t)" and "a \<notin> \<Union>(set ` C)"
  shows "crep (forget a t) C"
proof -
  note f = forget_facts [OF inv assms(3)]
  have d: "consistLead (lslots (forget a t) b) = consistLead (lslots t b)"
    "consistNext (lslots (forget a t) b) = consistNext (lslots t b)" for b
    using f(3) [of b] slot_data_consist by metis+
  have "distinct (chain t)" using chain_rep [OF inv] by (auto simp: trep_def)
  then have "set (chain (forget a t)) = set (chain t) - {a}" by (simp add: f(2))
  moreover have "consist_ok (lslots (forget a t)) c = consist_ok (lslots t) c" for c
    using linked_cong [of c "cn (lslots (forget a t))" "cn (lslots t)"] by (simp add: consist_ok_def d)
  ultimately show ?thesis using assms(2,4) by (auto simp: crep_def d)
qed

lemma unchain_keeps: "keeps_key (\<lambda>s. s\<lparr>consistLead := None, consistNext := None, consistReverse := False\<rparr>)"
  by (simp add: keeps_key_def)

lemma unchain_keeps_all:
  "chain (unchain a t) = chain t" "table_inv (unchain a t) = table_inv t" "find_slot l (unchain a t) = find_slot l t"
  "slotCount (unchain a t) = slotCount t" "recycler (unchain a t) = recycler t"
  "MAX_LOCOS (unchain a t) = MAX_LOCOS t" "ramSlots (unchain a t) = ramSlots t"
  unfolding unchain_def by (simp_all only: set_slot_keeps [OF unchain_keeps] set_slot_simps)

lemma fold_unchain_keeps:
  "chain (fold unchain as t) = chain t" "table_inv (fold unchain as t) = table_inv t"
  "find_slot l (fold unchain as t) = find_slot l t" "slotCount (fold unchain as t) = slotCount t"
  "recycler (fold unchain as t) = recycler t"
  "MAX_LOCOS (fold unchain as t) = MAX_LOCOS t" "ramSlots (fold unchain as t) = ramSlots t"
  by (induction as arbitrary: t) (simp_all add: unchain_keeps_all)

lemma fold_unchain_lslots:
  "lslots (fold unchain as t) a = (if a \<in> set as then
     (lslots t a)\<lparr>consistLead := None, consistNext := None, consistReverse := False\<rparr> else lslots t a)"
  by (induction as arbitrary: t) (auto simp: unchain_def)

lemmas fold_unchain = fold_unchain_keeps fold_unchain_lslots

lemma unchain_crep:
  assumes "crep t C" and "c \<in> C"
  shows "crep (fold unchain c t) (C - {c})"
proof -
  have "consist_ok (lslots (fold unchain c t)) d" if "d \<in> C - {c}" for d
  proof -
    from that assms have d: "consist_ok (lslots t) d" "set d \<inter> set c = {}" by (auto simp: crep_def)
    then have "lslots (fold unchain c t) b = lslots t b" if "b \<in> set d" for b
      using that by (auto simp: fold_unchain)
    then show ?thesis by (intro consist_ok_cong [OF d(1)]) simp
  qed
  with assms show ?thesis by (auto simp: crep_def fold_unchain)
qed

text \<open>
  Appending a free slot to a consist, or to a single loco, which is then the lead of a new one.
\<close>

definition extendable :: "slot_table \<Rightarrow> addr list set \<Rightarrow> addr list \<Rightarrow> bool" where
  "extendable t C c \<longleftrightarrow> c \<in> C \<or> (\<exists>l \<in> set (chain t). c = [l] \<and> l \<notin> \<Union>(set ` C))"

lemma extendable_ok: "crep t C \<Longrightarrow> extendable t C c \<Longrightarrow>
   consist_ok (lslots t) c \<and> set c \<subseteq> set (chain t) \<and> (\<forall>d \<in> C - {c}. set c \<inter> set d = {})"
  by (auto simp: extendable_def crep_def consist_ok_def)

lemma extend_crep:
  assumes C: "crep t C" and c: "extendable t C c" and a: "a \<in> set (chain t)" "a \<notin> \<Union>(set ` C)" "a \<notin> set c"
    and ch: "set (chain t') = set (chain t)"
    and lead: "\<And>b. consistLead (lslots t' b) = (if b = a then Some (hd c) else consistLead (lslots t b))"
    and nxt: "\<And>b. consistNext (lslots t' b) = (if b = last c then Some a else consistNext (lslots t b))"
  shows "crep t' (insert (c @ [a]) (C - {c}))"
proof -
  from extendable_ok [OF C c] have ok: "consist_ok (lslots t) c" "set c \<subseteq> set (chain t)"
    "\<forall>d \<in> C - {c}. set c \<inter> set d = {}" by auto
  then have ne: "c \<noteq> []" by (simp add: consist_ok_def)
  have na: "consistNext (lslots t a) = None" using C a by (auto simp: crep_def)
  from ne obtain bs z where z: "c = bs @ [z]" by (cases c rule: rev_cases) auto
  have "cn (lslots t') = (cn (lslots t))(z := Some a, a := None)"
    using na z a(3) by (auto simp: nxt fun_eq_iff)
  moreover have "linked ((cn (lslots t))(z := Some a, a := None)) (Some (hd c)) (bs @ [z, a])"
    using ok(1) a(3) z by (intro linked_snoc) (auto simp: consist_ok_def)
  ultimately have new: "consist_ok (lslots t') (c @ [a])"
    using ok(1) a(3) ne z by (auto simp: consist_ok_def lead tl_append split: list.split)
  have "consist_ok (lslots t') d" if "d \<in> C - {c}" for d
  proof -
    from that C have d: "consist_ok (lslots t) d" by (auto simp: crep_def)
    moreover have "last c \<in> set c" using ne by simp
    then have "a \<notin> set d" "last c \<notin> set d" using that a(2) ok(3) by auto
    ultimately show ?thesis by (intro consist_ok_cong [OF d]) (auto simp: lead nxt)
  qed
  moreover have "consistLead (lslots t' b) = None \<and> consistNext (lslots t' b) = None"
    if "b \<in> set (chain t)" "b \<notin> set (c @ [a])" "b \<notin> \<Union>(set ` (C - {c}))" for b
    using that C ne by (auto simp: crep_def lead nxt)
  moreover have "2 \<le> length (c @ [a])" using ne by (cases c) auto
  moreover have "\<forall>d \<in> C - {c}. set (c @ [a]) \<inter> set d = {}" using ok(3) a(2) by auto
  ultimately show ?thesis using C new ok(2) a(1) unfolding crep_def ch by (auto 0 4)
qed

text \<open>Deleting a consist.\<close>

lemma loco_word: "1 \<le> \<bar>x\<bar> \<Longrightarrow> \<bar>x\<bar> \<le> 10239 \<Longrightarrow> uint (word_of_int \<bar>x\<bar> :: u16) = \<bar>x\<bar>"
  by (simp add: uint_word_of_int)

lemma loco_word_pos: "1 \<le> \<bar>x\<bar> \<Longrightarrow> \<bar>x\<bar> \<le> 10239 \<Longrightarrow> (word_of_int \<bar>x\<bar> :: u16) \<noteq> 0"
  using loco_word [of x] by (metis uint_0_eq not_one_le_zero)

lemma deleteAnyConsist_crep:
  assumes "table_inv t" and "crep t C"
  shows "\<exists>C'. crep (deleteAnyConsist l t) C' \<and> C' \<subseteq> C \<and>
    (\<forall>a. find_slot (word_of_int \<bar>l\<bar>) t = Some a \<longrightarrow> C' = {c \<in> C. a \<notin> set c})"
proof (cases "find_slot (word_of_int \<bar>l\<bar>) t")
  case None
  with assms show ?thesis by (intro exI [of _ C]) (simp add: deleteAnyConsist_def getSlot_search)
next
  case (Some a)
  then have a: "a \<in> set (chain t)" by (simp add: find_slot_Some)
  let ?start = "if isConsistLead (lslots t a) then Some a else consistLead (lslots t a)"
  have d: "deleteAnyConsist l t = fold unchain (consist_from t ?start) t"
    using Some assms by (simp add: deleteAnyConsist_def getSlot_search)
  show ?thesis
  proof (cases "a \<in> \<Union>(set ` C)")
    case True
    then obtain c where c: "c \<in> C" "a \<in> set c" by blast
    from crep_member [OF assms(2) c] have "?start = Some (hd c)" by auto
    moreover from c assms(2) have "consist_from t (Some (hd c)) = c"
      by (intro consist_ok_from [OF assms(1)]) (auto simp: crep_def)
    ultimately have "deleteAnyConsist l t = fold unchain c t" using d by simp
    moreover have "\<forall>d \<in> C. d \<noteq> c \<longrightarrow> set c \<inter> set d = {}" using c assms(2) by (auto simp: crep_def)
    then have "C - {c} = {c \<in> C. a \<notin> set c}" using c by blast
    ultimately show ?thesis using unchain_crep [OF assms(2) c(1)] Some
      by (intro exI [of _ "C - {c}"]) auto
  next
    case False
    with a assms(2) have "?start = None" by (auto simp: crep_def isConsistLead_def)
    with d have "deleteAnyConsist l t = t" by (simp add: consist_from_def)
    with False assms(2) Some show ?thesis by (intro exI [of _ C]) auto
  qed
qed

lemma deleteAnyConsist_keeps:
  "chain (deleteAnyConsist l t) = chain t" "table_inv (deleteAnyConsist l t) = table_inv t"
  "find_slot k (deleteAnyConsist l t) = find_slot k t" "slotCount (deleteAnyConsist l t) = slotCount t"
  "recycler (deleteAnyConsist l t) = recycler t"
  "MAX_LOCOS (deleteAnyConsist l t) = MAX_LOCOS t" "ramSlots (deleteAnyConsist l t) = ramSlots t"
  by (auto simp: deleteAnyConsist_def fold_unchain_keeps split: prod.split option.split)

text \<open>The consist a loco is in, as a throttle sees it: the lead first, with the direction flags.\<close>

definition consist_of :: "slot_table \<Rightarrow> u16 \<Rightarrow> (bool \<times> u16) list" where
  "consist_of t l = (case find_slot l t of None \<Rightarrow> []
     | Some a \<Rightarrow> members t (consist_from t (Some (last (leads_from t (Some a))))))"

lemma consist_of_crep:
  assumes "table_inv t" and "crep t C" and "extendable t C c" and "a \<in> set c" and "find_slot l t = Some a"
  shows "consist_of t l = members t c"
  using extendable_ok [OF assms(2,3)] assms(4,5) consist_ok_lead [OF assms(1), of c a] consist_ok_from [OF assms(1), of c]
  by (simp add: consist_of_def)

lemma extendable_exists:
  assumes "crep t C" and "a \<in> set (chain t)"
  obtains c where "extendable t C c" and "a \<in> set c"
proof (cases "a \<in> \<Union>(set ` C)")
  case True
  then show thesis using that by (auto simp: extendable_def)
next
  case False
  then show thesis using that [of "[a]"] assms(2) by (auto simp: extendable_def)
qed

lemma extendable_mono:
  "extendable t C c \<Longrightarrow> set (chain t) \<subseteq> set (chain t') \<Longrightarrow> extendable t' C c"
  by (auto simp: extendable_def)

lemma members_cong: "(\<And>a. a \<in> set c \<Longrightarrow> lslots t' a = lslots t a) \<Longrightarrow> members t' c = members t c"
  by (simp add: members_def)

lemma members_append: "members t (c @ d) = members t c @ members t d"
  by (simp add: members_def)

text \<open>The step both callers make: \<open>a\<close> becomes the last follower of \<open>c\<close>.\<close>

definition hook :: "addr list \<Rightarrow> bool \<Rightarrow> addr \<Rightarrow> slot_table \<Rightarrow> slot_table" where
  "hook c r a t = set_slot (last c) (\<lambda>s. s\<lparr>consistNext := Some a\<rparr>)
     (set_slot a (\<lambda>s. s\<lparr>consistLead := Some (hd c), consistReverse := r\<rparr>) t)"

lemma hook_steps:
  "set_slot (last c) (\<lambda>s. s\<lparr>consistNext := Some a\<rparr>) (set_slot a (\<lambda>s. s\<lparr>consistLead := Some (hd c)\<rparr>)
     (set_slot a (\<lambda>s. s\<lparr>consistReverse := r\<rparr>) t)) = hook c r a t"
  "set_slot (last c) (\<lambda>s. s\<lparr>consistNext := Some a\<rparr>) (set_slot a (\<lambda>s. s\<lparr>consistReverse := r\<rparr>)
     (set_slot a (\<lambda>s. s\<lparr>consistLead := Some (hd c)\<rparr>) t)) = hook c r a t"
  by (cases "lslots t a"; simp add: hook_def set_slot_def)+

lemma hook_keeps:
  "chain (hook c r a t) = chain t" "find_slot l (hook c r a t) = find_slot l t" "table_inv (hook c r a t) = table_inv t"
  "slotCount (hook c r a t) = slotCount t" "recycler (hook c r a t) = recycler t"
  "MAX_LOCOS (hook c r a t) = MAX_LOCOS t" "ramSlots (hook c r a t) = ramSlots t"
proof -
  have k: "keeps_key (\<lambda>s. s\<lparr>consistNext := Some a\<rparr>)" "keeps_key (\<lambda>s. s\<lparr>consistLead := Some (hd c), consistReverse := r\<rparr>)"
    by (simp_all add: keeps_key_def)
  show "chain (hook c r a t) = chain t" "find_slot l (hook c r a t) = find_slot l t"
    "table_inv (hook c r a t) = table_inv t" "slotCount (hook c r a t) = slotCount t"
    "recycler (hook c r a t) = recycler t" "MAX_LOCOS (hook c r a t) = MAX_LOCOS t"
    "ramSlots (hook c r a t) = ramSlots t"
    by (simp_all only: hook_def set_slot_keeps [OF k(1)] set_slot_keeps [OF k(2)] set_slot_simps)
qed

lemma hook_crep:
  assumes "crep t C" and "extendable t C c" and "a \<in> set (chain t)" and "a \<notin> \<Union>(set ` C)" and "a \<notin> set c"
  shows "crep (hook c r a t) (insert (c @ [a]) (C - {c}))"
    and "members (hook c r a t) (c @ [a]) = members t c @ [(r, loco (lslots t a))]"
    and "\<And>b. b \<notin> set (c @ [a]) \<Longrightarrow> lslots (hook c r a t) b = lslots t b"
proof -
  from extendable_ok [OF assms(1,2)] have c: "c \<noteq> []" by (simp add: consist_ok_def)
  then have l: "last c \<in> set c" "last c \<noteq> a" using assms(5) by auto
  show "crep (hook c r a t) (insert (c @ [a]) (C - {c}))"
    by (rule extend_crep [OF assms]) (simp add: hook_keeps, use l in \<open>simp_all add: hook_def\<close>)
  show "members (hook c r a t) (c @ [a]) = members t c @ [(r, loco (lslots t a))]"
    using assms(5) l by (auto simp: members_def hook_def)
  show "lslots (hook c r a t) b = lslots t b" if "b \<notin> set (c @ [a])" for b
    using that l by (auto simp: hook_def)
qed

lemma hook_consist_of:
  assumes "table_inv t" and "crep t C" and "extendable t C c" and "a \<in> set (chain t)"
    and "a \<notin> \<Union>(set ` C)" and "a \<notin> set c" and "find_slot l t = Some s" and "s \<in> set c"
  shows "consist_inv (hook c r a t)" and "consist_of (hook c r a t) l = members t c @ [(r, loco (lslots t a))]"
proof -
  note h = hook_crep [OF assms(2-6), where r = r]
  from h(1) assms(1) show inv: "consist_inv (hook c r a t)" by (auto simp: consist_inv_def hook_keeps)
  have "extendable (hook c r a t) (insert (c @ [a]) (C - {c})) (c @ [a])" by (simp add: extendable_def)
  from consist_of_crep [OF _ h(1) this, of s l] assms show "consist_of (hook c r a t) l = members t c @ [(r, loco (lslots t a))]"
    by (simp add: hook_keeps h(2))
qed

lemma slot_data_reverse [simp]: "consistReverse (slot_data s) = consistReverse s"
  by (simp add: slot_data_def)

lemma lead_members:
  assumes "table_inv t" and "crep t C" and s: "getSlot l True t = (Some s, t1)" and "crep t1 C"
    and c: "extendable t1 C c" "s \<in> set c"
  shows "members t1 c = (if find_slot l t = None then [(False, l)] else consist_of t l)"
proof (cases "find_slot l t")
  case None
  from getSlot_Some(8) [OF assms(1) s None] have f: "slot_data (lslots t1 s) = fresh_slot l" "s \<notin> set (chain t)" by auto
  have "s \<notin> \<Union>(set ` C)" using assms(2) f(2) by (auto simp: crep_def)
  then have "c = [s]" using c by (auto simp: extendable_def)
  moreover have "loco (lslots t1 s) = l" "\<not> consistReverse (lslots t1 s)"
    using f(1) slot_data_loco [of "lslots t1 s"] slot_data_reverse [of "lslots t1 s"]
    by (simp_all add: fresh_slot_def)
  ultimately show ?thesis using None by (simp add: members_def)
next
  case (Some b)
  with s have "t1 = t" "b = s" using getSlot_Some(4) [OF assms(1) s] by (simp_all add: getSlot_found)
  with Some consist_of_crep [OF _ assms(4) c, of l] assms(1) show ?thesis by simp
qed

lemma addLocoToConsist_ok:
  assumes inv: "consist_inv t" and add: "addLocoToConsist cid lid r t = (ok, t')"
  shows "consist_inv t' \<and> (ok \<and> lid \<noteq> cid \<longrightarrow>
    consist_of t' cid = (if find_slot cid t = None then [(False, cid)] else consist_of t cid) @ [(r, lid)])"
proof -
  from inv obtain C where C: "table_inv t" "crep t C" by (auto simp: consist_inv_def)
  show ?thesis
  proof (cases "cid < 1 \<or> cid > 10239 \<or> lid < 1 \<or> lid > 10239 \<or> lid = cid \<or> fst (getSlot cid True t) = None")
    case True
    with add inv getSlot_inv [OF C(1), of cid True] getSlot_crep [OF C, of cid True] show ?thesis
      by (auto simp: addLocoToConsist_def consist_inv_def split: if_splits prod.splits option.splits)
  next
    case False
    then obtain s t1 where s: "getSlot cid True t = (Some s, t1)" by (cases "getSlot cid True t") auto
    note g1 = getSlot_Some [OF C(1) s]
    have C1: "crep t1 C" using getSlot_crep [OF C, of cid True] s by simp
    from extendable_exists [OF C1 g1(2)] obtain c where c: "extendable t1 C c" "s \<in> set c" .
    note okc = extendable_ok [OF C1 c(1)]
    have lead: "last (leads_from t1 (Some s)) = hd c" "consist_from t1 (Some (hd c)) = c"
      using okc c(2) g1(1) by (auto intro: consist_ok_lead consist_ok_from)
    obtain x t2 where x: "getSlot lid True t1 = (x, t2)" by (cases "getSlot lid True t1")
    note inv2 = getSlot_inv [OF g1(1), of lid True] getSlot_crep [OF g1(1) C1, of lid True]
    show ?thesis
    proof (cases "x = None \<or> isConsistLead (lslots t2 (the x)) \<or> isConsistFollower (lslots t2 (the x))")
      case True
      with False add s x inv2 show ?thesis
        by (auto simp: addLocoToConsist_def consist_inv_def Let_def split: if_splits option.splits)
    next
      case free: False
      then obtain a where a: "x = Some a" by (cases x) auto
      note g2 = getSlot_Some [OF g1(1) x [unfolded a]]
      have C2: "crep t2 C" using inv2(2) x by simp
      have e2: "extendable t2 C c" using c(1) g2(5) by (rule extendable_mono)
      have aC: "a \<notin> \<Union>(set ` C)" using crep_free [OF C2 g2(2)] free a by auto
      have fc: "find_slot cid t2 = Some s" using g2(7) [of cid] g1(3) False by auto
      then have "s \<noteq> a" using g2(3) False by (auto dest!: find_slot_Some)
      with aC c have ac: "a \<notin> set c" by (auto simp: extendable_def)
      then have "a \<noteq> hd c" "last c \<noteq> a" using okc by (cases c; auto simp: consist_ok_def)+
      then have t': "t' = hook c r a t2" "ok"
        using False free a x add s lead
        by (simp_all add: addLocoToConsist_def Let_def hook_steps del: not_less)
      have "members t2 c = members t1 c" by (rule members_cong) (use okc g2(6) in auto)
      with hook_consist_of [OF g2(1) C2 e2 g2(2) aC ac fc c(2), of r] t' find_slot_Some [OF g2(3)]
        lead_members [OF C s C1 c] show ?thesis by simp
    qed
  qed
qed

text \<open>The loop of \<^verbatim>\<open>parse\<close> that chains the followers.\<close>

abbreviation loco_id :: "int \<Rightarrow> u16" where
  "loco_id x \<equiv> word_of_int \<bar>x\<bar>"

definition valid_ids :: "int list \<Rightarrow> bool" where
  "valid_ids p \<longleftrightarrow> (\<forall>x \<in> set p. 1 \<le> \<bar>x\<bar> \<and> \<bar>x\<bar> \<le> 10239) \<and> distinct (map abs p)"

lemma check_ids_None: "check_ids p = None \<longleftrightarrow> valid_ids p"
  by (induction p) (auto simp: valid_ids_def image_iff, metis)

lemma loco_id_inj: "valid_ids (x # xs) \<Longrightarrow> y \<in> set xs \<Longrightarrow> loco_id y \<noteq> loco_id x"
proof
  assume v: "valid_ids (x # xs)" "y \<in> set xs" and e: "loco_id y = loco_id x"
  then have "\<bar>y\<bar> = \<bar>x\<bar>" using loco_word [of x] loco_word [of y] by (auto simp: valid_ids_def)
  with v show False by (auto simp: valid_ids_def image_iff)
qed

definition free_locos :: "slot_table \<Rightarrow> addr list set \<Rightarrow> addr list \<Rightarrow> int list \<Rightarrow> bool" where
  "free_locos t C c xs \<longleftrightarrow>
     (\<forall>x \<in> set xs. \<forall>a. find_slot (loco_id x) t = Some a \<longrightarrow> a \<notin> \<Union>(set ` C) \<and> a \<notin> set c)"

lemma chain_step:
  assumes "table_inv t" and C: "crep t C" and c: "extendable t C c" and v: "valid_ids (x # xs)"
    and free: "free_locos t C c (x # xs)" and g: "getSlot (loco_id x) True t = (Some a, t1)"
  defines "t2 \<equiv> hook c (x < 0) a t1" and "C2 \<equiv> insert (c @ [a]) (C - {c})"
  shows "table_inv t2" and "crep t2 C2" and "extendable t2 C2 (c @ [a])" and "free_locos t2 C2 (c @ [a]) xs"
    and "members t2 (c @ [a]) = members t c @ [(x < 0, loco_id x)]"
    and "C2 - {c @ [a]} = C - {c}" and "a \<notin> \<Union>(set ` C)"
    and "\<And>b. b \<in> set (chain t) \<Longrightarrow> b \<notin> set (c @ [a]) \<Longrightarrow> lslots t2 b = lslots t b"
    and "set (chain t) \<subseteq> set (chain t2)" and "k \<noteq> loco_id x \<Longrightarrow> find_slot k t2 = find_slot k t"
    and "find_slot (loco_id x) t2 = Some a"
proof -
  note s = getSlot_Some [OF assms(1) g]
  have C1: "crep t1 C" using getSlot_crep [OF assms(1) C, of "loco_id x" True] g by simp
  have e1: "extendable t1 C c" using c s(5) by (rule extendable_mono)
  have sub: "\<Union>(set ` C) \<subseteq> set (chain t)" "set c \<subseteq> set (chain t)"
    using C extendable_ok [OF C c] by (auto simp: crep_def)
  have "a \<notin> \<Union>(set ` C) \<and> a \<notin> set c"
  proof (cases "find_slot (loco_id x) t")
    case None
    then show ?thesis using s(8) sub by auto
  next
    case (Some b)
    with s(4) g have "b = a" by (simp add: getSlot_found)
    with Some free show ?thesis by (auto simp: free_locos_def)
  qed
  then have a: "a \<notin> \<Union>(set ` C)" "a \<notin> set c" by auto
  note h = hook_crep [OF C1 e1 s(2) a, where r = "x < 0", folded t2_def C2_def]
  show "table_inv t2" using s(1) by (simp add: t2_def hook_keeps)
  show "crep t2 C2" by (rule h(1))
  show "extendable t2 C2 (c @ [a])" by (simp add: extendable_def C2_def)
  show k: "find_slot k t2 = find_slot k t" if "k \<noteq> loco_id x" for k
    using s(7) [OF that] by (simp add: t2_def hook_keeps)
  show "find_slot (loco_id x) t2 = Some a" using s(3) by (simp add: t2_def hook_keeps)
  have la: "loco (lslots t1 a) = loco_id x" using find_slot_Some [OF s(3)] by simp
  have "b \<noteq> a" if "y \<in> set xs" "find_slot (loco_id y) t2 = Some b" for y b
    using loco_id_inj [OF v that(1)] that(2) la find_slot_Some [of "loco_id y" t1 b] by (auto simp: t2_def hook_keeps)
  then show "free_locos t2 C2 (c @ [a]) xs"
    using free k loco_id_inj [OF v] by (auto simp: free_locos_def C2_def)
  have "members t1 c = members t c" by (rule members_cong) (use sub(2) s(6) in auto)
  then show "members t2 (c @ [a]) = members t c @ [(x < 0, loco_id x)]" using h(2) la by simp
  have "c @ [a] \<notin> C" using a(1) by auto
  then show "C2 - {c @ [a]} = C - {c}" by (auto simp: C2_def)
  show "a \<notin> \<Union>(set ` C)" by (rule a(1))
  show "lslots t2 b = lslots t b" if "b \<in> set (chain t)" "b \<notin> set (c @ [a])" for b
    using h(3) [OF that(2)] s(6) [OF that(1)] by simp
  show "set (chain t) \<subseteq> set (chain t2)" using s(5) by (simp add: t2_def hook_keeps)
qed

lemma chain_followers_ok:
  assumes "table_inv t" and "crep t C" and "extendable t C c" and "valid_ids xs" and "free_locos t C c xs"
    and "chain_followers (hd c) (last c) xs t = Some t'"
  shows "\<exists>as. table_inv t' \<and> crep t' (if xs = [] then C else insert (c @ as) (C - {c})) \<and> length as = length xs \<and>
    members t' (c @ as) = members t c @ map (\<lambda>x. (x < 0, loco_id x)) xs \<and>
    (\<forall>b \<in> set (chain t). b \<notin> set (c @ as) \<longrightarrow> lslots t' b = lslots t b) \<and> set (chain t) \<subseteq> set (chain t') \<and>
    (\<forall>k. k \<notin> loco_id ` set xs \<longrightarrow> find_slot k t' = find_slot k t) \<and>
    map (\<lambda>x. find_slot (loco_id x) t') xs = map Some as"
  using assms
proof (induction xs arbitrary: t C c)
  case Nil
  then show ?case by simp
next
  case (Cons x xs)
  from Cons.prems(6) obtain a t1 where g: "getSlot (loco_id x) True t = (Some a, t1)"
    by (auto split: prod.splits option.splits)
  let ?t2 = "hook c (x < 0) a t1" and ?C2 = "insert (c @ [a]) (C - {c})" and ?d = "c @ [a]"
  note st = chain_step [OF Cons.prems(1-5) g]
  have ne: "c \<noteq> []" using extendable_ok [OF Cons.prems(2,3)] by (simp add: consist_ok_def)
  have run: "chain_followers (hd ?d) (last ?d) xs ?t2 = Some t'"
    using Cons.prems(6) g ne by (simp add: hook_steps)
  have v: "valid_ids xs" using Cons.prems(4) by (simp add: valid_ids_def)
  from Cons.IH [OF st(1-3) v st(4) run] obtain as where ih:
    "table_inv t'" "crep t' (if xs = [] then ?C2 else insert (?d @ as) (?C2 - {?d}))" "length as = length xs"
    "members t' (?d @ as) = members ?t2 ?d @ map (\<lambda>x. (x < 0, loco_id x)) xs"
    "\<And>b. b \<in> set (chain ?t2) \<Longrightarrow> b \<notin> set (?d @ as) \<Longrightarrow> lslots t' b = lslots ?t2 b"
    "set (chain ?t2) \<subseteq> set (chain t')" "\<And>k. k \<notin> loco_id ` set xs \<Longrightarrow> find_slot k t' = find_slot k ?t2"
    "map (\<lambda>x. find_slot (loco_id x) t') xs = map Some as" by blast
  have "crep t' (insert (c @ a # as) (C - {c}))" using ih(2,3) st(6) by (cases "xs = []") simp_all
  moreover have "members t' (c @ a # as) = members t c @ map (\<lambda>x. (x < 0, loco_id x)) (x # xs)"
    using ih(4) st(5) by simp
  moreover have "lslots t' b = lslots t b" if "b \<in> set (chain t)" "b \<notin> set (c @ a # as)" for b
    using ih(5) [of b] st(8) [of b] st(9) that by auto
  moreover have "find_slot k t' = find_slot k t" if "k \<notin> loco_id ` set (x # xs)" for k
  proof -
    from that have "k \<notin> loco_id ` set xs" "k \<noteq> loco_id x" by simp_all
    with ih(7) st(10) show ?thesis by metis
  qed
  moreover have "loco_id x \<notin> loco_id ` set xs"
  proof
    assume "loco_id x \<in> loco_id ` set xs"
    then obtain y where "y \<in> set xs" "loco_id x = loco_id y" by (rule imageE)
    with loco_id_inj [OF Cons.prems(4)] show False by metis
  qed
  then have "find_slot (loco_id x) t' = Some a" using ih(7) [of "loco_id x"] st(11) by simp
  moreover have "set (chain t) \<subseteq> set (chain t')" using st(9) ih(6) by (rule subset_trans)
  ultimately show ?case using ih(1,3,8)
    by (intro exI [of _ "a # as"] conjI ballI impI allI) simp_all
qed

text \<open>How many more locos the table takes, and that this many followers can be chained.\<close>

definition room :: "slot_table \<Rightarrow> nat" where
  "room t = length (walk (slotCount t) (sn (lslots t)) (recycler t)) + (min (MAX_LOCOS t) (ramSlots t) - slotCount t)"

lemma trep_room: "trep t as rs \<Longrightarrow> room t = length rs + (min (MAX_LOCOS t) (ramSlots t) - slotCount t)"
proof -
  assume r: "trep t as rs"
  then have "walk (slotCount t) (sn (lslots t)) (recycler t) = rs"
    by (intro linked_walk) (auto simp: trep_def)
  then show ?thesis by (simp add: room_def)
qed

lemma hook_room: "room (hook c r a t) = room t"
proof -
  have "sn (lslots (hook c r a t)) = sn (lslots t)" by (auto simp: hook_def fun_eq_iff)
  then show ?thesis by (simp only: room_def hook_keeps)
qed

lemma getSlot_room:
  assumes "table_inv t" and "l \<noteq> 0" and "0 < room t"
  shows "\<exists>a t'. getSlot l True t = (Some a, t') \<and> room t \<le> Suc (room t')"
proof (cases "find_slot l t")
  case (Some a)
  with assms show ?thesis by (simp add: getSlot_found)
next
  case None
  from chain_rep [OF assms(1)] obtain rs where rep: "trep t (chain t) rs" by blast
  have fresh: "\<forall>b \<in> set (chain t). loco (lslots t b) \<noteq> l" using None by (simp add: find_slot_None)
  show ?thesis
  proof (cases "recycler t")
    case (Some a)
    with rep obtain rs' where rs: "rs = a # rs'" "linked (sn (lslots t)) (snext (lslots t a)) rs'"
      by (auto simp: trep_def linked_Some)
    let ?t = "prepare l a (t\<lparr>recycler := snext (lslots t a), slotCount := slotCount t\<rparr>)"
    have "trep ?t (a # chain t) rs'"
      by (rule prepare_trep [OF rep]) (use rep rs fresh assms in \<open>auto simp: trep_def\<close>)
    from trep_room [OF this] trep_room [OF rep] rs None Some assms show ?thesis
      by (simp add: getSlot_def) (simp add: prepare_def)
  next
    case rNone: None
    with rep have n: "rs = []" by (auto simp: trep_def)
    with trep_room [OF rep] assms(3) have lt: "slotCount t < MAX_LOCOS t" "slotCount t < ramSlots t" by auto
    let ?t = "prepare l (slotCount t) (t\<lparr>recycler := None, slotCount := slotCount t + 1\<rparr>)"
    have "trep ?t (slotCount t # chain t) []"
      by (rule prepare_trep [OF rep]) (use rep n lt fresh assms in \<open>auto simp: trep_def\<close>)
    note trep_room [OF this]
    moreover have t1: "t\<lparr>slotCount := slotCount t + 1\<rparr> = t\<lparr>recycler := None, slotCount := slotCount t + 1\<rparr>"
      using rNone by (cases t) simp
    have "getSlot l True t = (Some (slotCount t), ?t)"
      using lt None rNone assms unfolding getSlot_def t1 [symmetric] by simp
    moreover have "slotCount ?t = slotCount t + 1" "MAX_LOCOS ?t = MAX_LOCOS t" "ramSlots ?t = ramSlots t"
      by (simp_all add: prepare_def)
    ultimately show ?thesis using trep_room [OF rep] n by simp
  qed
qed

lemma chain_followers_room:
  assumes "table_inv t" and "crep t C" and "extendable t C c" and "valid_ids xs" and "free_locos t C c xs"
    and "length xs \<le> room t"
  shows "chain_followers (hd c) (last c) xs t \<noteq> None"
  using assms
proof (induction xs arbitrary: t C c)
  case (Cons x xs)
  have "loco_id x \<noteq> 0" using Cons.prems(4) loco_word_pos [of x] by (auto simp: valid_ids_def)
  with getSlot_room [OF Cons.prems(1), of "loco_id x"] Cons.prems(6) obtain a t1 where
    g: "getSlot (loco_id x) True t = (Some a, t1)" "length xs \<le> room t1" by auto
  note st = chain_step [OF Cons.prems(1-5) g(1)]
  have "c \<noteq> []" using extendable_ok [OF Cons.prems(2,3)] by (simp add: consist_ok_def)
  moreover have "valid_ids xs" using Cons.prems(4) by (simp add: valid_ids_def)
  ultimately show ?case using Cons.IH [OF st(1-3) _ st(4)] g by (simp add: hook_steps hook_room)
qed simp

text \<open>The command as a whole: what happens before the followers are chained, then the result.\<close>

definition parse_prep :: "int \<Rightarrow> slot_table \<Rightarrow> slot_table" where
  "parse_prep x t = (case getSlot (loco_id x) False t of
     (Some a, _) \<Rightarrow> if isConsistLead (lslots t a) then deleteAnyConsist x t else t
   | (None, _) \<Rightarrow> t)"

lemma check_members_None:
  "table_inv t \<Longrightarrow> crep t C \<Longrightarrow> check_members t p = None \<Longrightarrow> free_locos t C [] p"
proof (induction p)
  case (Cons x xs)
  show ?case
  proof (cases "find_slot (loco_id x) t")
    case None
    with Cons show ?thesis by (auto simp: getSlot_search free_locos_def)
  next
    case (Some a)
    with Cons.prems have "\<not> isConsistLead (lslots t a)" "\<not> isConsistFollower (lslots t a)" "check_members t xs = None"
      by (auto simp: getSlot_search split: if_splits)
    with Cons crep_free [OF Cons.prems(2), of a] find_slot_Some [OF Some] Some show ?thesis
      by (auto simp: free_locos_def)
  qed
qed (simp add: free_locos_def)

lemma deleteAnyConsist_other:
  assumes "table_inv t" and "crep t C" and "find_slot (loco_id l) t = Some a"
    and "b \<in> set (chain t)" and "\<forall>c \<in> C. a \<in> set c \<longrightarrow> b \<notin> set c"
  shows "lslots (deleteAnyConsist l t) b = lslots t b"
proof -
  from assms(3) have a: "a \<in> set (chain t)" by (simp add: find_slot_Some)
  have "b \<notin> set (consist_from t (if isConsistLead (lslots t a) then Some a else consistLead (lslots t a)))"
  proof (cases "a \<in> \<Union>(set ` C)")
    case True
    then obtain c where c: "c \<in> C" "a \<in> set c" by blast
    moreover from c assms(2) have "consist_from t (Some (hd c)) = c"
      by (intro consist_ok_from [OF assms(1)]) (auto simp: crep_def)
    ultimately show ?thesis using crep_member [OF assms(2) c] assms(5) by (cases "a = hd c") auto
  next
    case False
    with a assms(2) show ?thesis by (auto simp: crep_def isConsistLead_def consist_from_def)
  qed
  with assms(1,3) show ?thesis by (simp add: deleteAnyConsist_def getSlot_search fold_unchain)
qed

lemma parse_prep_crep:
  assumes "table_inv t" and "crep t C"
  obtains C' where "crep (parse_prep x t) C'" and "C' \<subseteq> C"
    and "\<And>c a. c \<in> C \<Longrightarrow> find_slot (loco_id x) t = Some a \<Longrightarrow> a \<notin> set c \<Longrightarrow> c \<in> C'"
    and "find_slot (loco_id x) t = None \<Longrightarrow> C' = C"
    and "\<And>b c. extendable t C c \<Longrightarrow> b \<in> set c \<Longrightarrow> \<forall>a. find_slot (loco_id x) t = Some a \<longrightarrow> a \<notin> set c \<Longrightarrow>
      lslots (parse_prep x t) b = lslots t b"
proof (cases "\<exists>a. find_slot (loco_id x) t = Some a \<and> isConsistLead (lslots t a)")
  case False
  then have "parse_prep x t = t"
    using assms(1) by (auto simp: parse_prep_def getSlot_search split: option.split)
  with assms that [of C] show thesis by simp
next
  case True
  then obtain a where a: "find_slot (loco_id x) t = Some a" "isConsistLead (lslots t a)" by blast
  then have p: "parse_prep x t = deleteAnyConsist x t" using assms(1) by (simp add: parse_prep_def getSlot_search)
  from deleteAnyConsist_crep [OF assms, of x] a(1) have "crep (deleteAnyConsist x t) {c \<in> C. a \<notin> set c}" by auto
  moreover have "lslots (deleteAnyConsist x t) b = lslots t b"
    if "extendable t C c" "b \<in> set c" "a \<notin> set c" for b c
  proof (rule deleteAnyConsist_other [OF assms a(1)])
    from extendable_ok [OF assms(2) that(1)] that show "b \<in> set (chain t)" "\<forall>d \<in> C. a \<in> set d \<longrightarrow> b \<notin> set d"
      by (auto simp: disjoint_iff)
  qed
  ultimately show thesis using that [of "{c \<in> C. a \<notin> set c}"] p a(1) by simp
qed

lemma parse_prep_keeps: "chain (parse_prep x t) = chain t" "find_slot k (parse_prep x t) = find_slot k t"
  "table_inv (parse_prep x t) = table_inv t"
  by (auto simp: parse_prep_def deleteAnyConsist_keeps split: prod.split option.split)

lemma parse_lead:
  assumes "table_inv t" and "crep t C" and v: "valid_ids (x # xs)" and free: "free_locos t C [] (x # xs)"
    and g: "getSlot (loco_id x) True t = (Some a, t2)"
  defines "t3 \<equiv> set_slot a (\<lambda>s. s\<lparr>consistReverse := x < 0\<rparr>) t2"
  shows "table_inv t3" and "crep t3 C" and "extendable t3 C [a]" and "free_locos t3 C [a] xs"
    and "members t3 [a] = [(x < 0, loco_id x)]" and "find_slot (loco_id x) t3 = Some a"
    and "k \<noteq> loco_id x \<Longrightarrow> find_slot k t3 = find_slot k t" and "set (chain t) \<subseteq> set (chain t3)"
    and "b \<in> set (chain t) \<Longrightarrow> b \<noteq> a \<Longrightarrow> lslots t3 b = lslots t b" and "a \<notin> \<Union>(set ` C)"
proof -
  note s = getSlot_Some [OF assms(1) g]
  have kc: "keeps_consist (\<lambda>s. s\<lparr>consistReverse := x < 0\<rparr>)" by (simp add: keeps_consist_def keeps_key_def)
  then have kk: "keeps_key (\<lambda>s. s\<lparr>consistReverse := x < 0\<rparr>)" by (simp add: keeps_consist_def)
  note keep = set_slot_keeps [OF kk, folded t3_def]
  have C2: "crep t2 C" using getSlot_crep [OF assms(1,2), of "loco_id x" True] g by simp
  show "table_inv t3" using s(1) unfolding t3_def set_slot_inv [OF kk] .
  show "crep t3 C" unfolding t3_def by (rule set_slot_crep [OF kc C2])
  show aC: "a \<notin> \<Union>(set ` C)"
  proof (cases "find_slot (loco_id x) t")
    case None
    with s(8) assms(2) show ?thesis by (auto simp: crep_def)
  next
    case (Some b)
    with s(4) g have "b = a" by (simp add: getSlot_found)
    with Some free show ?thesis by (auto simp: free_locos_def)
  qed
  have c3: "chain t3 = chain t2" unfolding t3_def set_slot_chain [OF kk] ..
  have f3: "find_slot k t3 = find_slot k t2" for k unfolding t3_def set_slot_find [OF kk] ..
  show "extendable t3 C [a]" using aC s(2) c3 by (simp add: extendable_def)
  show fa: "find_slot (loco_id x) t3 = Some a" using f3 s(3) by simp
  show fk: "find_slot k t3 = find_slot k t" if "k \<noteq> loco_id x" for k using f3 s(7) [OF that] by simp
  show "set (chain t) \<subseteq> set (chain t3)" using s(5) c3 by simp
  show "lslots t3 b = lslots t b" if "b \<in> set (chain t)" "b \<noteq> a" for b
    using s(6) [OF that(1)] that(2) by (simp add: t3_def)
  show "members t3 [a] = [(x < 0, loco_id x)]"
    using find_slot_Some [OF fa] by (simp add: members_def t3_def)
  have "b \<noteq> a" if "y \<in> set xs" "find_slot (loco_id y) t3 = Some b" for y b
    using loco_id_inj [OF v that(1)] find_slot_Some [OF that(2)] find_slot_Some [OF fa] by auto
  moreover have "find_slot (loco_id y) t3 = find_slot (loco_id y) t" if "y \<in> set xs" for y
    using fk loco_id_inj [OF v that] .
  ultimately show "free_locos t3 C [a] xs" using free by (auto simp: free_locos_def)
qed

lemma parse_unfold:
  assumes "valid_ids (x # xs)" and "xs \<noteq> []"
  shows "parse (x # xs) t = (let t1 = parse_prep x t in
    case check_members t1 (x # xs) of
      Some msg \<Rightarrow> (Some False, [msg], t1)
    | None \<Rightarrow> case getSlot (loco_id x) True t1 of
        (None, t2) \<Rightarrow> (None, [], t2)
      | (Some a, t2) \<Rightarrow>
          case chain_followers a a xs (set_slot a (\<lambda>s. s\<lparr>consistReverse := x < 0\<rparr>) t2) of
            None \<Rightarrow> (None, [], t2) | Some t3 \<Rightarrow> (Some True, [], t3))"
proof -
  have "check_ids (x # xs) = None" by (simp add: check_ids_None assms(1) del: check_ids.simps)
  moreover have "\<not> length (x # xs) < 2" using assms(2) by (cases xs) auto
  ultimately show ?thesis unfolding parse_def parse_prep_def list.sel
    by (simp del: check_ids.simps check_members.simps)
qed

lemma loco_id_notin:
  assumes "valid_ids (x # xs)"
  shows "loco_id x \<notin> loco_id ` set xs"
proof
  assume "loco_id x \<in> loco_id ` set xs"
  then obtain y where "y \<in> set xs" "loco_id x = loco_id y" by (rule imageE)
  with loco_id_inj [OF assms] show False by metis
qed

text \<open>What a successful run is made of.\<close>

lemma parse_run:
  assumes inv: "table_inv t" "crep t C" and v: "valid_ids (x # xs)" and ne: "xs \<noteq> []"
    and run: "parse (x # xs) t = (Some True, msgs, t')"
    and C1: "crep (parse_prep x t) C1"
  obtains a as where "table_inv t'" and "crep t' (insert (a # as) (C1 - {[a]}))"
    and "members t' (a # as) = map (\<lambda>x. (x < 0, loco_id x)) (x # xs)"
    and "\<And>b. b \<in> set (chain t) \<Longrightarrow> b \<notin> set (a # as) \<Longrightarrow> lslots t' b = lslots (parse_prep x t) b"
    and "\<And>k. k \<notin> loco_id ` set (x # xs) \<Longrightarrow> find_slot k t' = find_slot k t"
    and "map (\<lambda>x. find_slot (loco_id x) t') (x # xs) = map Some (a # as)"
    and "set (chain t) \<subseteq> set (chain t')"
proof -
  let ?t1 = "parse_prep x t"
  have inv1: "table_inv ?t1" using inv by (simp add: parse_prep_keeps)
  from run obtain a t2 where cm: "check_members ?t1 (x # xs) = None"
    and g: "getSlot (loco_id x) True ?t1 = (Some a, t2)"
    and cf: "chain_followers a a xs (set_slot a (\<lambda>s. s\<lparr>consistReverse := x < 0\<rparr>) t2) = Some t'"
    unfolding parse_unfold [OF v ne] Let_def by (auto split: option.splits prod.splits simp del: check_members.simps)
  note ld = parse_lead [OF inv1 C1 v check_members_None [OF inv1 C1 cm] g]
  have "valid_ids xs" using v by (simp add: valid_ids_def)
  from chain_followers_ok [OF ld(1-3) this ld(4), unfolded list.sel last.simps if_True] cf ne ld(5)
  obtain as where r: "table_inv t'" "crep t' (insert (a # as) (C1 - {[a]}))"
    "members t' (a # as) = map (\<lambda>x. (x < 0, loco_id x)) (x # xs)"
    "\<And>b. b \<in> set (chain (set_slot a (\<lambda>s. s\<lparr>consistReverse := x < 0\<rparr>) t2)) \<Longrightarrow> b \<notin> set (a # as) \<Longrightarrow>
       lslots t' b = lslots (set_slot a (\<lambda>s. s\<lparr>consistReverse := x < 0\<rparr>) t2) b"
    "set (chain (set_slot a (\<lambda>s. s\<lparr>consistReverse := x < 0\<rparr>) t2)) \<subseteq> set (chain t')"
    "\<And>k. k \<notin> loco_id ` set xs \<Longrightarrow> find_slot k t' = find_slot k (set_slot a (\<lambda>s. s\<lparr>consistReverse := x < 0\<rparr>) t2)"
    "map (\<lambda>x. find_slot (loco_id x) t') xs = map Some as"
    by (simp del: set_slot_simps) blast
  have "find_slot (loco_id x) t' = Some a" using r(6) [OF loco_id_notin [OF v]] ld(6) by simp
  moreover have "lslots t' b = lslots ?t1 b" if "b \<in> set (chain t)" "b \<notin> set (a # as)" for b
    using r(4) [OF _ that(2)] ld(8,9) that by (auto simp: parse_prep_keeps)
  moreover have "find_slot k t' = find_slot k t" if "k \<notin> loco_id ` set (x # xs)" for k
    using r(6) [of k] ld(7) [of k] that by (simp add: parse_prep_keeps)
  ultimately show thesis using that [of a as] r(1-3,5,7) ld(8) by (simp add: parse_prep_keeps)
qed

lemma parse_created:
  assumes inv: "consist_inv t" and v: "valid_ids (x # xs)" and ne: "xs \<noteq> []"
    and run: "parse (x # xs) t = (Some True, msgs, t')"
  shows "consist_inv t'" and "consist_of t' (loco_id x) = map (\<lambda>x. (x < 0, loco_id x)) (x # xs)"
    and "\<And>l. l \<notin> loco_id ` set (x # xs) \<Longrightarrow> snd ` set (consist_of t l) \<inter> loco_id ` set (x # xs) = {} \<Longrightarrow>
      consist_of t' l = consist_of t l"
proof -
  from inv obtain C where C: "table_inv t" "crep t C" by (auto simp: consist_inv_def)
  obtain C1 where C1: "crep (parse_prep x t) C1" "C1 \<subseteq> C"
    "\<And>c a. c \<in> C \<Longrightarrow> find_slot (loco_id x) t = Some a \<Longrightarrow> a \<notin> set c \<Longrightarrow> c \<in> C1"
    "find_slot (loco_id x) t = None \<Longrightarrow> C1 = C"
    "\<And>b c. extendable t C c \<Longrightarrow> b \<in> set c \<Longrightarrow> \<forall>a. find_slot (loco_id x) t = Some a \<longrightarrow> a \<notin> set c \<Longrightarrow>
      lslots (parse_prep x t) b = lslots t b"
    using parse_prep_crep [OF C, of x] by blast
  obtain a as where r: "table_inv t'"
    "crep t' (insert (a # as) (C1 - {[a]}))" "members t' (a # as) = map (\<lambda>x. (x < 0, loco_id x)) (x # xs)"
    "\<And>b. b \<in> set (chain t) \<Longrightarrow> b \<notin> set (a # as) \<Longrightarrow> lslots t' b = lslots (parse_prep x t) b"
    "\<And>k. k \<notin> loco_id ` set (x # xs) \<Longrightarrow> find_slot k t' = find_slot k t"
    "map (\<lambda>x. find_slot (loco_id x) t') (x # xs) = map Some (a # as)" "set (chain t) \<subseteq> set (chain t')"
    by (rule parse_run [OF C v ne run C1(1)]) (assumption | blast)+
  show "consist_inv t'" using r(1,2) by (auto simp: consist_inv_def)
  have "extendable t' (insert (a # as) (C1 - {[a]})) (a # as)" by (simp add: extendable_def)
  from consist_of_crep [OF r(1,2) this, of a "loco_id x"] r(3,6)
  show "consist_of t' (loco_id x) = map (\<lambda>x. (x < 0, loco_id x)) (x # xs)" by simp
  show "consist_of t' l = consist_of t l" if l: "l \<notin> loco_id ` set (x # xs)"
    "snd ` set (consist_of t l) \<inter> loco_id ` set (x # xs) = {}" for l
  proof (cases "find_slot l t")
    case None
    with r(5) [OF l(1)] show ?thesis by (simp add: consist_of_def)
  next
    case (Some b)
    from extendable_exists [OF C(2)] find_slot_Some [OF Some] obtain c where c: "extendable t C c" "b \<in> set c" by blast
    have view: "consist_of t l = members t c" using consist_of_crep [OF C c Some] .
    have sub: "set c \<subseteq> set (chain t)" using extendable_ok [OF C(2) c(1)] by simp
    have key: "loco (lslots t d) \<notin> loco_id ` set (x # xs)" if "d \<in> set c" for d
    proof -
      have "loco (lslots t d) \<in> snd ` set (consist_of t l)" using that view by (force simp: members_def)
      with l(2) show ?thesis by blast
    qed
    have new: "d \<notin> set (a # as)" if "d \<in> set c" for d
    proof
      assume "d \<in> set (a # as)"
      then obtain y where "y \<in> set (x # xs)" "find_slot (loco_id y) t' = Some d"
        using r(6) by (metis (no_types, lifting) image_iff list.set_map option.inject)
      moreover have "find_slot (loco (lslots t d)) t' = Some d"
        using r(5) [OF key [OF that]] find_slot_mem [OF C(1), of d] sub that by auto
      ultimately show False using key [OF that] by (auto dest!: find_slot_Some)
    qed
    have ax: "\<forall>d. find_slot (loco_id x) t = Some d \<longrightarrow> d \<notin> set c"
      using key by (auto dest!: find_slot_Some)
    have "members t' c = members t c"
      by (rule members_cong) (use r(4) new sub C1(5) [OF c(1) _ ax] in auto)
    moreover have "extendable t' (insert (a # as) (C1 - {[a]})) c"
    proof (cases "c \<in> C")
      case True
      then have "c \<in> C1" using C1(3,4) ax by (cases "find_slot (loco_id x) t") auto
      moreover have "c \<noteq> [a]" using True C(2) by (auto simp: crep_def)
      ultimately show ?thesis by (simp add: extendable_def)
    next
      case False
      with c have "c = [b]" "b \<in> set (chain t')" "b \<notin> \<Union>(set ` C1)"
        using C1(2) r(7) by (auto simp: extendable_def)
      with new [of b] show ?thesis by (auto simp: extendable_def)
    qed
    ultimately show ?thesis
      using consist_of_crep [OF r(1,2) _ c(2), of l] r(5) [OF l(1)] Some view by simp
  qed
qed

lemma parse_prep_inv: "consist_inv t \<Longrightarrow> consist_inv (parse_prep x t)"
  by (auto simp: consist_inv_def parse_prep_keeps elim: parse_prep_crep [where x = x])

lemma parse_single: "valid_ids [x] \<Longrightarrow> parse [x] t = (Some True, [], parse_prep x t)"
  by (simp add: parse_def parse_prep_def check_ids_None [symmetric] split: option.split prod.split)

lemma parse_inv:
  assumes inv: "consist_inv t" and run: "parse p t = (Some ok, msgs, t')"
  shows "consist_inv t'"
proof (cases "p = [] \<or> \<not> valid_ids p")
  case True
  then show ?thesis using inv run by (cases "p = []") (auto simp: parse_def check_ids_None [symmetric])
next
  case False
  then obtain x xs where p: "p = x # xs" and v: "valid_ids (x # xs)" by (cases p) auto
  show ?thesis
  proof (cases "xs = []")
    case True
    with p v run have "t' = parse_prep x t" by (simp add: parse_single)
    with parse_prep_inv [OF inv] show ?thesis by simp
  next
    case ne: False
    show ?thesis
    proof (cases ok)
      case True
      with parse_created(1) [OF inv v ne, of msgs t'] run p show ?thesis by simp
    next
      case False
      with run p have "t' = parse_prep x t"
        unfolding p parse_unfold [OF v ne] Let_def
        by (auto split: option.splits prod.splits simp del: check_members.simps)
      with parse_prep_inv [OF inv] show ?thesis by simp
    qed
  qed
qed

lemma parse_prep_room: "room (parse_prep x t) = room t"
proof -
  have "sn (lslots (fold unchain as t)) = sn (lslots t)" for as by (auto simp: fold_unchain fun_eq_iff)
  then have "room (fold unchain as t) = room t" for as by (simp only: room_def fold_unchain_keeps)
  then show ?thesis by (auto simp: parse_prep_def deleteAnyConsist_def split: prod.split option.split)
qed

lemma parse_returns:
  assumes inv: "consist_inv t" and "length p \<le> room t"
  shows "fst (parse p t) \<noteq> None"
proof (cases "p = [] \<or> \<not> valid_ids p")
  case True
  then show ?thesis by (cases "p = []") (auto simp: parse_def check_ids_None [symmetric])
next
  case False
  then obtain x xs where p: "p = x # xs" and v: "valid_ids (x # xs)" by (cases p) auto
  show ?thesis
  proof (cases "xs = [] \<or> check_members (parse_prep x t) (x # xs) \<noteq> None")
    case True
    with p v show ?thesis
      by (cases "xs = []") (auto simp: parse_single parse_unfold simp del: check_members.simps)
  next
    case False
    then have ne: "xs \<noteq> []" and cm: "check_members (parse_prep x t) (x # xs) = None" by auto
    from parse_prep_inv [OF inv] obtain C where C: "table_inv (parse_prep x t)" "crep (parse_prep x t) C"
      by (auto simp: consist_inv_def)
    have "loco_id x \<noteq> 0" using v loco_word_pos [of x] by (auto simp: valid_ids_def)
    from getSlot_room [OF C(1) this] assms(2) p obtain a t2 where
      g: "getSlot (loco_id x) True (parse_prep x t) = (Some a, t2)" "length xs \<le> room t2"
      by (auto simp: parse_prep_room)
    note ld = parse_lead [OF C v check_members_None [OF C cm] g(1)]
    let ?t3 = "set_slot a (\<lambda>s. s\<lparr>consistReverse := x < 0\<rparr>) t2"
    have "sn (lslots ?t3) = sn (lslots t2)" by (auto simp: fun_eq_iff)
    then have "room ?t3 = room t2" by (simp only: room_def set_slot_simps)
    moreover have "valid_ids xs" using v by (simp add: valid_ids_def)
    ultimately have "chain_followers a a xs ?t3 \<noteq> None"
      using chain_followers_room [OF ld(1-3) _ ld(4)] g(2) by simp
    then show ?thesis unfolding p parse_unfold [OF v ne] Let_def cm
      by (auto simp: g(1) split: option.split)
  qed
qed

section \<open>Properties\<close>

lemma two_locos_consist: "consist_inv two_locos" "room (two_locos\<lparr>MAX_LOCOS := 10\<rparr>) = 8"
  "consist_inv (two_locos\<lparr>MAX_LOCOS := 10\<rparr>)"
proof -
  have ch: "chain two_locos = [1, 0]" "chain (two_locos\<lparr>MAX_LOCOS := 10\<rparr>) = [1, 0]"
    by (simp_all add: two_locos_def new_table_def getSlot_def find_slot_def chain_def prepare_def fresh_slot_def blank_loco_def)
  have "crep two_locos {}" by (simp add: crep_def ch)
    (simp add: two_locos_def new_table_def getSlot_def find_slot_def chain_def prepare_def fresh_slot_def blank_loco_def)
  then show "consist_inv two_locos" using two_locos_facts(1) by (auto simp: consist_inv_def)
  from \<open>crep two_locos {}\<close> have "crep (two_locos\<lparr>MAX_LOCOS := 10\<rparr>) {}" by (simp add: crep_def ch)
  moreover from two_locos_facts(1) have "table_inv (two_locos\<lparr>MAX_LOCOS := 10\<rparr>)"
    by (auto simp: table_inv_def trep_def two_locos_facts(4))
  ultimately show "consist_inv (two_locos\<lparr>MAX_LOCOS := 10\<rparr>)" by (auto simp: consist_inv_def)
  show "room (two_locos\<lparr>MAX_LOCOS := 10\<rparr>) = 8"
    by (simp add: room_def two_locos_def new_table_def getSlot_def find_slot_def chain_def prepare_def fresh_slot_def blank_loco_def)
qed

text \<open>
  C27: the consist command builds what it is told. When \<^verbatim>\<open>parse\<close> reports success for at least two
  locos, the consist of the first one reads back as exactly the locos given, in order, each with
  the direction flag its sign asked for; every other consist and every loco not named is as before.
\<close>

theorem consist_created:
  assumes "consist_inv t" and "2 \<le> length p" and "parse p t = (Some True, msgs, t')"
  shows "consist_inv t' \<and> consist_of t' (word_of_int \<bar>hd p\<bar>) = map (\<lambda>x. (x < 0, word_of_int \<bar>x\<bar>)) p \<and>
    (\<forall>l. l \<notin> loco_id ` set p \<longrightarrow> snd ` set (consist_of t l) \<inter> loco_id ` set p = {} \<longrightarrow>
       consist_of t' l = consist_of t l)"
proof -
  from assms(2) obtain x xs where p: "p = x # xs" "xs \<noteq> []" by (cases p; cases "tl p") auto
  with assms(3) have v: "valid_ids (x # xs)"
    by (auto simp: parse_def check_ids_None [symmetric] simp del: check_ids.simps split: option.splits)
  note c = parse_created [OF assms(1) v p(2) assms(3) [unfolded p]]
  show ?thesis unfolding p list.sel using c(1,2) c(3) by blast
qed

theorem consist_created_witness:
  "\<exists>t'. parse [-7, 4, -3] (two_locos\<lparr>MAX_LOCOS := 10\<rparr>) = (Some True, [], t') \<and>
     consist_of t' 7 = [(True, 7), (False, 4), (True, 3)]"
proof -
  have "fst (snd (parse [-7, 4, -3] (two_locos\<lparr>MAX_LOCOS := 10\<rparr>))) = [] \<and> fst (parse [-7, 4, -3] (two_locos\<lparr>MAX_LOCOS := 10\<rparr>)) = Some True"
    by code_simp
  then obtain t' where r: "parse [-7, 4, -3] (two_locos\<lparr>MAX_LOCOS := 10\<rparr>) = (Some True, [], t')"
    by (metis prod.collapse)
  from consist_created [OF two_locos_consist(3) _ r] r show ?thesis by simp
qed

text \<open>
  The chains stay well formed, and the code follows no null pointer while slots are left.
  Every run of \<^verbatim>\<open>parse\<close> that returns keeps the invariant of the chains, whatever the parameters;
  it does return when the table has room for as many locos as the command names.
\<close>

theorem consist_parse_safe:
  assumes "consist_inv t"
  shows "(\<forall>ok msgs t'. parse p t = (Some ok, msgs, t') \<longrightarrow> consist_inv t') \<and>
    (length p \<le> room t \<longrightarrow> fst (parse p t) \<noteq> None)"
  using parse_inv [OF assms] parse_returns [OF assms] by blast

theorem consist_parse_safe_witness:
  "consist_inv (two_locos\<lparr>MAX_LOCOS := 10\<rparr>) \<and> fst (parse [4, -8] (two_locos\<lparr>MAX_LOCOS := 10\<rparr>)) \<noteq> None"
  using consist_parse_safe [OF two_locos_consist(3), of "[4, -8]"] two_locos_consist by simp

text \<open>
  Without that room it fails. With the table full, a consist command that names a loco without
  a slot makes the code follow the null pointer \<^verbatim>\<open>getSlot\<close> returned.
\<close>

theorem consist_null_pointer:
  "consist_inv two_locos \<and> fst (parse [3, 7] two_locos) = None"
proof -
  have "fst (parse [3, 7] two_locos) = None" by code_simp
  with two_locos_consist(1) show ?thesis by simp
qed

text \<open>
  \<^verbatim>\<open>addLocoToConsist\<close> appends one loco to the consist its first argument belongs to, wherever in
  that consist it is, making a new consist when it is in none; it keeps the chains well formed
  whatever its result.
\<close>

theorem consist_extended:
  assumes "consist_inv t" and "addLocoToConsist consistId locoId reversed t = (ok, t')"
  shows "consist_inv t' \<and> (ok \<and> locoId \<noteq> consistId \<longrightarrow>
    consist_of t' consistId = (if find_slot consistId t = None then [(False, consistId)] else consist_of t consistId)
      @ [(reversed, locoId)])"
  by (rule addLocoToConsist_ok [OF assms])

theorem consist_extended_witness:
  "\<exists>t'. addLocoToConsist 3 4 True two_locos = (True, t') \<and> consist_inv t' \<and> consist_of t' 3 = [(False, 3), (True, 4)]"
proof -
  have "fst (addLocoToConsist 3 4 True two_locos) \<and> consist_of two_locos 3 = [(False, 3)]" by code_simp
  then obtain t' where r: "addLocoToConsist 3 4 True two_locos = (True, t')" "consist_of two_locos 3 = [(False, 3)]"
    by (metis prod.collapse)
  from consist_extended [OF two_locos_consist(1) r(1)] r two_locos_facts(2) show ?thesis by simp
qed

end
