(* ===== verification/DccApi.thy ===== *)
theory DccApi
  imports PacketQueue Consist
begin

text \<open>
  The DCC layer, \<^verbatim>\<open>DCC.cpp\<close>: the calls that throttles, the command parser and EXRAIL make, the
  packets they turn into, and the reminder loop that keeps repeating the state of every loco.
  The first part translates the calls; each works on the loco table and the packet queues. Calls
  into parts that are not modelled here (the DC outputs of the track manager, the broadcasts to
  clients, the EXRAIL event hook and the Railcom reader) are recorded as events, in order.

  \<^verbatim>\<open>millis()\<close> is the argument \<open>now\<close>, one value for the duration of a call. An \<^verbatim>\<open>int\<close> is an integer,
  converted to the width the code converts it to. The second part shows that every call keeps the
  invariants of table, consists and queues; the third states what the calls do.
\<close>

section \<open>State and constants\<close>

definition FN_GROUP_1 :: byte where "FN_GROUP_1 = 0x01"

definition FN_GROUP_2 :: byte where "FN_GROUP_2 = 0x02"

definition FN_GROUP_3 :: byte where "FN_GROUP_3 = 0x04"

definition FN_GROUP_4 :: byte where "FN_GROUP_4 = 0x08"

definition FN_GROUP_5 :: byte where "FN_GROUP_5 = 0x10"

definition HIGHEST_SHORT_ADDR :: int where "HIGHEST_SHORT_ADDR = 127"

definition MOMENTUM_FACTOR :: int where "MOMENTUM_FACTOR = 7"

definition SET_SPEED :: byte where "SET_SPEED = 0x3f"

definition WRITE_BYTE_MAIN :: byte where "WRITE_BYTE_MAIN = 0xEC"

definition READ_BYTE_MAIN :: byte where "READ_BYTE_MAIN = 0xE4"

definition WRITE_BIT_MAIN :: byte where "WRITE_BIT_MAIN = 0xE8"

definition WRITE_BIT :: byte where "WRITE_BIT = 0xF0"

definition BIT_ON :: byte where "BIT_ON = 0x08"

definition BIT_OFF :: byte where "BIT_OFF = 0x00"

lemmas dcc_consts [dcc_defs] = FN_GROUP_1_def FN_GROUP_2_def FN_GROUP_3_def FN_GROUP_4_def FN_GROUP_5_def
  HIGHEST_SHORT_ADDR_def MOMENTUM_FACTOR_def SET_SPEED_def WRITE_BYTE_MAIN_def READ_BYTE_MAIN_def
  WRITE_BIT_MAIN_def WRITE_BIT_def BIT_ON_def BIT_OFF_def

datatype dcc_event =
    SetDCSignal int byte
  | BroadcastLoco addr
  | BroadcastForgetLoco int
  | BroadcastEstopLock bool
  | ActivateEvent int bool
  | RailcomAnticipate int int

record dcc =
  dqueues :: queues
  dslots :: slot_table
  defaultMomentumA :: byte
  defaultMomentumD :: byte
  linearAcceleration :: bool
  globalSpeedsteps :: byte
  loopStatus :: nat
  nextLocoReminder :: ptr
  estopIsLocked :: bool
  devents :: "dcc_event list"

definition dcc_init :: "queues \<Rightarrow> slot_table \<Rightarrow> dcc" where
  "dcc_init q t = \<lparr>dqueues = q, dslots = t, defaultMomentumA = 0, defaultMomentumD = 0, linearAcceleration = False,
     globalSpeedsteps = 128, loopStatus = 0, nextLocoReminder = None, estopIsLocked = False, devents = []\<rparr>"

text \<open>Access to the parts: running a queue or a table operation, writing a slot, recording an event.\<close>

definition in_queues :: "(queues \<Rightarrow> queues) \<Rightarrow> dcc \<Rightarrow> dcc" where
  "in_queues f s = s\<lparr>dqueues := f (dqueues s)\<rparr>"

definition in_slots :: "(slot_table \<Rightarrow> slot_table) \<Rightarrow> dcc \<Rightarrow> dcc" where
  "in_slots f s = s\<lparr>dslots := f (dslots s)\<rparr>"

definition put :: "addr \<Rightarrow> (LocoSlot \<Rightarrow> LocoSlot) \<Rightarrow> dcc \<Rightarrow> dcc" where
  "put a f = in_slots (set_slot a f)"

definition slot :: "dcc \<Rightarrow> addr \<Rightarrow> LocoSlot" where
  "slot s a = lslots (dslots s) a"

definition log_event :: "dcc_event \<Rightarrow> dcc \<Rightarrow> dcc" where
  "log_event e s = s\<lparr>devents := devents s @ [e]\<rparr>"

definition get_slot :: "int \<Rightarrow> bool \<Rightarrow> dcc \<Rightarrow> ptr \<times> dcc" where
  "get_slot cab autoCreate s =
    (let (p, t) = LocoSlots.getSlot (word_of_int cab) autoCreate (dslots s) in (p, s\<lparr>dslots := t\<rparr>))"

section \<open>Packet encodings\<close>

text \<open>The address bytes every packet to a loco starts with.\<close>

definition cab_bytes :: "int \<Rightarrow> byte list" where
  "cab_bytes cab =
    (if cab > HIGHEST_SHORT_ADDR then [highByte (word_of_int cab :: u16) OR 0xC0] else []) @
    [lowByte (word_of_int cab :: u16)]"

definition speed_bytes :: "byte \<Rightarrow> byte \<Rightarrow> byte list" where
  "speed_bytes steps scode =
    (if steps \<le> 28 then
       let speed128 = scode AND 0x7F;
           code28 = (if speed128 = 0 \<or> speed128 = 1 then speed128
                     else let speed28 = (uint speed128 * 10 + 36) div 46
                          in word_of_int ((speed28 + 3) div 2) OR (if odd speed28 then 0 else 0b00010000))
       in [0b01000000 OR code28 OR (if scode AND 0x80 \<noteq> 0 then 0b00100000 else 0)]
     else [SET_SPEED, scode])"

definition cv1 :: "byte \<Rightarrow> int \<Rightarrow> byte" where
  "cv1 opcode cv = (highByte (word_of_int (cv - 1) :: u16) AND 0x03) OR opcode"

definition cv2 :: "int \<Rightarrow> byte" where
  "cv2 cv = lowByte (word_of_int (cv - 1) :: u16)"

definition accessory_bytes :: "int \<Rightarrow> byte \<Rightarrow> bool \<Rightarrow> byte list" where
  "accessory_bytes address port gate =
    [word_of_int (address mod 64 + 128),
     word_of_int (((address div 64) mod 8) * 16 + (uint port mod 4) * 2 + (if gate then 1 else 0)) XOR 0xF8]"

definition extended_bytes :: "int \<Rightarrow> int \<Rightarrow> byte list" where
  "extended_bytes address value =
    (let a = word_of_int (address + 3) :: u16
     in [0x80 OR (ucast (drop_bit 2 a) AND 0x3F),
         0x01 OR push_bit 4 (NOT (ucast (drop_bit 8 a)) AND 0x07) OR push_bit 1 (ucast a AND 0x03),
         word_of_int value])"

text \<open>The instruction bytes of a function reminder, for each of the five groups.\<close>

definition function_bytes :: "nat \<Rightarrow> u32 \<Rightarrow> byte \<times> byte" where
  "function_bytes fgroup fns =
    (if fgroup = 1 then (0, 128 OR (ucast (drop_bit 1 fns) AND 0x0F) OR push_bit 4 (ucast fns AND 0x01))
     else if fgroup = 2 then (0, 176 OR (ucast (drop_bit 5 fns) AND 0x0F))
     else if fgroup = 3 then (0, 160 OR (ucast (drop_bit 9 fns) AND 0x0F))
     else if fgroup = 4 then (222, ucast (drop_bit 13 fns))
     else (223, ucast (drop_bit 21 fns)))"

section \<open>Throttle and speed\<close>

definition getMomentum :: "dcc \<Rightarrow> addr \<Rightarrow> byte" where
  "getMomentum s a =
    (let target = uint (targetSpeed (slot s a) AND 0x7f); current = uint (speedCode (slot s a) AND 0x7f)
     in if target > current then
          let momentum = (if momentumA (slot s a) = MOMENTUM_USE_DEFAULT then defaultMomentumA s else momentumA (slot s a))
          in if momentum = 0 \<or> linearAcceleration s then momentum
             else let powerDifference = (target - current) div 8
                  in if uint momentum - powerDifference < 0 then 0 else word_of_int (uint momentum - powerDifference)
        else if momentumD (slot s a) = MOMENTUM_USE_DEFAULT then defaultMomentumD s else momentumD (slot s a))"

text \<open>The speed code that goes out: reversed for a reversed consist member, an emergency stop while locked.\<close>

definition effective_speed :: "dcc \<Rightarrow> ptr \<Rightarrow> byte \<Rightarrow> byte" where
  "effective_speed s p scode =
    (let sc = (case p of Some a \<Rightarrow> if consistReverse (slot s a) then scode XOR 0x80 else scode | None \<Rightarrow> scode)
     in if estopIsLocked s then (sc AND 0x80) OR 0x01 else sc)"

definition setThrottleDCC :: "ptr \<Rightarrow> byte \<Rightarrow> dcc \<Rightarrow> dcc" where
  "setThrottleDCC p scode s =
    (let cab = (case p of Some a \<Rightarrow> loco (slot s a) | None \<Rightarrow> 0);
         sc = effective_speed s p scode;
         b = cab_bytes (uint cab) @ speed_bytes (globalSpeedsteps s) sc;
         nB = word_of_nat (length b)
     in if sc AND 0x7F = 1 then in_queues (scheduleEstopPacket b nB 4 cab) s
        else in_queues (scheduleDCCSpeedPacket b nB 0 cab) s)"

definition setThrottle2_step :: "byte \<Rightarrow> addr \<Rightarrow> dcc \<Rightarrow> dcc" where
  "setThrottle2_step sc follower s =
    setThrottleDCC (Some follower) sc (put follower (\<lambda>x. x\<lparr>speedCode := sc\<rparr>) s)"

definition setThrottle2 :: "addr \<Rightarrow> byte \<Rightarrow> dcc \<Rightarrow> dcc" where
  "setThrottle2 a sc s = fold (setThrottle2_step sc) (consist_from (dslots s) (Some a)) s"

definition estopAll :: "dcc \<Rightarrow> dcc" where
  "estopAll s =
    (let s = log_event (SetDCSignal 0 1) (setThrottleDCC None 1 s)
     in fold (\<lambda>a s. let newspeed = (targetSpeed (slot s a) AND 0x80) OR 0x01
                    in log_event (BroadcastLoco a)
                         (put a (\<lambda>x. x\<lparr>speedCode := newspeed, targetSpeed := newspeed\<rparr>) s))
          (chain (dslots s)) s)"

definition copy_target :: "byte \<Rightarrow> addr \<Rightarrow> dcc \<Rightarrow> dcc" where
  "copy_target sc a s =
    put a (\<lambda>x. x\<lparr>targetSpeed := sc XOR (if consistReverse (slot s a) then 0x80 else 0)\<rparr>) s"

text \<open>The part of \<^verbatim>\<open>setThrottle\<close> after its early returns: a new target for a loco that is not a follower.\<close>

definition set_target :: "u32 \<Rightarrow> u16 \<Rightarrow> byte \<Rightarrow> byte \<Rightarrow> addr \<Rightarrow> dcc \<Rightarrow> dcc" where
  "set_target now cab tSpeed sc a s =
    (let s = put a (\<lambda>x. x\<lparr>targetSpeed := sc\<rparr>) s;
         s = fold (copy_target sc) (consist_from (dslots s) (consistNext (slot s a))) s;
         s = (if getMomentum s a \<noteq> 0 \<and> tSpeed \<noteq> 1 then put a (\<lambda>x. x\<lparr>momentum_base := now\<rparr>) s
              else let s = setThrottle2 a sc s
                   in if \<not> estopIsLocked s then log_event (SetDCSignal (uint cab) sc) s else s)
     in log_event (BroadcastLoco a) s)"

definition setThrottle :: "u32 \<Rightarrow> u16 \<Rightarrow> byte \<Rightarrow> bool \<Rightarrow> dcc \<Rightarrow> bool \<times> dcc" where
  "setThrottle now cab tSpeed tDirection s =
    (if tSpeed = 1 \<and> cab = 0 then (True, estopAll s)
     else
       let sc = (tSpeed AND 0x7F) + (if tDirection then 128 else 0)
       in case get_slot (uint cab) True s of
            (None, s) \<Rightarrow> (False, s)
          | (Some a, s) \<Rightarrow>
              if isConsistFollower (slot s a) then (True, s)
              else if targetSpeed (slot s a) = sc then (True, s)
              else (True, set_target now cab tSpeed sc a s))"

definition getThrottleSpeedByte :: "int \<Rightarrow> dcc \<Rightarrow> byte" where
  "getThrottleSpeedByte cab s = (case fst (get_slot cab False s) of Some a \<Rightarrow> targetSpeed (slot s a) | None \<Rightarrow> 128)"

definition getLocoSpeedByte :: "int \<Rightarrow> dcc \<Rightarrow> byte" where
  "getLocoSpeedByte cab s = (case fst (get_slot cab False s) of Some a \<Rightarrow> speedCode (slot s a) | None \<Rightarrow> 128)"

definition getThrottleSpeed :: "int \<Rightarrow> dcc \<Rightarrow> int" where
  "getThrottleSpeed cab s = uint (getThrottleSpeedByte cab s AND 0x7F)"

definition getThrottleDirection :: "int \<Rightarrow> dcc \<Rightarrow> bool" where
  "getThrottleDirection cab s \<longleftrightarrow> getThrottleSpeedByte cab s AND 0x80 \<noteq> 0"

definition getThrottleFrequency :: "int \<Rightarrow> dcc \<Rightarrow> byte" where
  "getThrottleFrequency cab s =
    (case fst (get_slot cab False s) of None \<Rightarrow> 0 | Some a \<Rightarrow> ucast (drop_bit 29 (functionMap (slot s a))))"

definition saveSpeed :: "int \<Rightarrow> dcc \<Rightarrow> dcc" where
  "saveSpeed cab s = (case get_slot cab False s of (None, s) \<Rightarrow> s | (Some a, s) \<Rightarrow> in_slots (slot_saveSpeed a) s)"

definition restoreSpeed :: "u32 \<Rightarrow> int \<Rightarrow> dcc \<Rightarrow> dcc" where
  "restoreSpeed now cab s =
    (case get_slot cab False s of
       (None, s) \<Rightarrow> s
     | (Some a, s) \<Rightarrow>
         let sc = savedSpeedCode (slot s a)
         in snd (setThrottle now (word_of_int cab) (sc AND 0x7f) (sc AND 0x80 \<noteq> 0) s))"

definition estopLock :: "bool \<Rightarrow> dcc \<Rightarrow> dcc" where
  "estopLock lock s =
    (if estopIsLocked s = lock then s
     else let s = s\<lparr>estopIsLocked := lock\<rparr>;
              s = (if lock then log_event (SetDCSignal 0 1) (setThrottleDCC None 1 s) else s)
          in log_event (BroadcastEstopLock lock) s)"

definition setMomentum :: "int \<Rightarrow> int \<Rightarrow> int \<Rightarrow> dcc \<Rightarrow> bool \<times> dcc" where
  "setMomentum cab accelerating decelerating s =
    (if cab < 0 then (False, s)
     else if cab = 0 then
       if accelerating < 0 \<or> decelerating < 0 then (False, s)
       else (True, s\<lparr>defaultMomentumA := word_of_int (trunc_div accelerating MOMENTUM_FACTOR),
                     defaultMomentumD := word_of_int (trunc_div decelerating MOMENTUM_FACTOR)\<rparr>)
     else if accelerating < -1 \<or> decelerating < -1 then (False, s)
     else if trunc_div accelerating MOMENTUM_FACTOR \<ge> uint MOMENTUM_USE_DEFAULT \<or>
             trunc_div decelerating MOMENTUM_FACTOR \<ge> uint MOMENTUM_USE_DEFAULT then (False, s)
     else case get_slot cab True s of
       (None, s) \<Rightarrow> (False, s)
     | (Some a, s) \<Rightarrow>
         (True, put a (\<lambda>x. x\<lparr>
             momentumA := (if accelerating < 0 then MOMENTUM_USE_DEFAULT else word_of_int (trunc_div accelerating MOMENTUM_FACTOR)),
             momentumD := (if decelerating < 0 then MOMENTUM_USE_DEFAULT else word_of_int (trunc_div decelerating MOMENTUM_FACTOR))\<rparr>) s))"

section \<open>Functions\<close>

definition setFunctionInternal :: "int \<Rightarrow> nat \<Rightarrow> byte \<Rightarrow> byte \<Rightarrow> dcc \<Rightarrow> dcc" where
  "setFunctionInternal cab fgroup byte1 byte2 s =
    (let b = cab_bytes cab @ (if byte1 \<noteq> 0 then [byte1] else []) @ [byte2]
     in in_queues (scheduleDCCFunctionPacket b (word_of_nat (length b)) (word_of_int cab) fgroup) s)"

definition updateGroupflags :: "addr \<Rightarrow> int \<Rightarrow> dcc \<Rightarrow> dcc" where
  "updateGroupflags a functionNumber s =
    (let groupMask = (if functionNumber \<le> 4 then FN_GROUP_1 else if functionNumber \<le> 8 then FN_GROUP_2
                      else if functionNumber \<le> 12 then FN_GROUP_3 else if functionNumber \<le> 20 then FN_GROUP_4
                      else FN_GROUP_5)
     in put a (\<lambda>x. x\<lparr>groupFlags := groupFlags x OR groupMask\<rparr>) s)"

definition binary_state_bytes :: "int \<Rightarrow> bool \<Rightarrow> byte list" where
  "binary_state_bytes functionNumber on =
    (if functionNumber \<le> 127 then [0b11011101, word_of_int functionNumber OR (if on then 0x80 else 0)]
     else [0b11000000, (word_of_int functionNumber AND 0x7F) OR (if on then 0x80 else 0),
           word_of_int (functionNumber div 128)])"

text \<open>The two parts of \<^verbatim>\<open>setFn\<close>: the packet for a function above 28, and the bit in the loco's slot.\<close>

definition send_binary_state :: "int \<Rightarrow> int \<Rightarrow> bool \<Rightarrow> dcc \<Rightarrow> dcc" where
  "send_binary_state cab functionNumber on s =
    (let b = cab_bytes cab @ binary_state_bytes functionNumber on
     in in_queues (scheduleDCCPacket b (word_of_nat (length b)) 4 (word_of_int cab)) s)"

definition set_function_bit :: "int \<Rightarrow> bool \<Rightarrow> addr \<Rightarrow> dcc \<Rightarrow> dcc" where
  "set_function_bit functionNumber on a s =
    (let previous = functionMap (slot s a);
         funcmask = push_bit (nat functionNumber) 1;
         newset = (if on then previous OR funcmask else previous AND NOT funcmask)
     in if newset \<noteq> previous then
          let s = put a (\<lambda>x. x\<lparr>functionMap := newset\<rparr>) s;
              s = (if functionNumber \<le> 28 then updateGroupflags a functionNumber s else s)
          in log_event (BroadcastLoco a) s
        else s)"

definition setFn :: "int \<Rightarrow> int \<Rightarrow> bool \<Rightarrow> dcc \<Rightarrow> bool \<times> dcc" where
  "setFn cab functionNumber on s =
    (if cab \<le> 0 then (False, s)
     else if functionNumber < 0 then (False, s)
     else
       let s = (if functionNumber > 28 then send_binary_state cab functionNumber on s else s)
       in if functionNumber > 31 then (True, s)
          else case get_slot cab True s of
            (None, s) \<Rightarrow> (False, s)
          | (Some a, s) \<Rightarrow> (True, set_function_bit functionNumber on a s))"

definition getFn :: "int \<Rightarrow> int \<Rightarrow> dcc \<Rightarrow> int" where
  "getFn cab functionNumber s =
    (if cab \<le> 0 \<or> functionNumber > 31 then -1
     else case fst (get_slot cab False s) of
       None \<Rightarrow> -1
     | Some a \<Rightarrow> if functionMap (slot s a) AND push_bit (nat functionNumber) 1 \<noteq> 0 then 1 else 0)"

definition changeFn :: "int \<Rightarrow> int \<Rightarrow> dcc \<Rightarrow> dcc" where
  "changeFn cab functionNumber s =
    (let currentValue = getFn cab functionNumber s
     in if currentValue < 0 then s else snd (setFn cab functionNumber (currentValue = 0) s))"

definition getFunctionMap :: "int \<Rightarrow> dcc \<Rightarrow> u32" where
  "getFunctionMap cab s =
    (if cab \<le> 0 then 0
     else case fst (get_slot cab False s) of Some a \<Rightarrow> functionMap (slot s a) | None \<Rightarrow> 0)"

definition setDCFreq :: "int \<Rightarrow> byte \<Rightarrow> dcc \<Rightarrow> dcc" where
  "setDCFreq cab freq s =
    (if cab = 0 \<or> freq > 3 then s
     else case get_slot cab True s of
       (None, s) \<Rightarrow> s
     | (Some a, s) \<Rightarrow>
         let cleared = functionMap (slot s a) AND 0x1FFFFFFF;
             newFunctions = (if freq \<noteq> 0 then cleared OR push_bit (28 + unat freq) 1 else cleared)
         in if newFunctions = functionMap (slot s a) then s
            else log_event (BroadcastLoco a) (put a (\<lambda>x. x\<lparr>functionMap := newFunctions\<rparr>) s))"

section \<open>Accessories, CVs on the main track, model time\<close>

definition setAccessory :: "int \<Rightarrow> byte \<Rightarrow> bool \<Rightarrow> byte \<Rightarrow> dcc \<Rightarrow> dcc" where
  "setAccessory address port gate onoff s =
    (if address < 0 \<or> address > 511 then s
     else if port \<noteq> (port AND 3) then s
     else
       let b = accessory_bytes address port gate;
           s = (if onoff = 0 then in_queues (scheduleDCCPacket [b ! 0, b ! 1 AND NOT 0x08] 2 3 0) s
                else if onoff = 1 then in_queues (scheduleDCCPacket b 2 3 0) s
                else in_queues (scheduleAccOnOffPacket b 2 3 100) s)
       in if onoff \<noteq> 0 then log_event (ActivateEvent (address * 4 + uint port) gate) s else s)"

definition setExtendedAccessory :: "int \<Rightarrow> int \<Rightarrow> byte \<Rightarrow> dcc \<Rightarrow> bool \<times> dcc" where
  "setExtendedAccessory address value repeats s =
    (if address > 2044 \<or> address < -3 then (False, s)
     else if value < 0 \<or> value > 0x1F then (False, s)
     else (True, in_queues (scheduleDCCPacket (extended_bytes address value) 3 repeats 0) s))"

definition pom_packet :: "int \<Rightarrow> byte \<Rightarrow> int \<Rightarrow> byte \<Rightarrow> byte \<Rightarrow> dcc \<Rightarrow> dcc" where
  "pom_packet cab opcode cv value repeats s =
    (let b = cab_bytes cab @ [cv1 opcode cv, cv2 cv, value]
     in in_queues (scheduleDCCPacket b (word_of_nat (length b)) repeats (word_of_int cab)) s)"

definition writeCVByteMain :: "int \<Rightarrow> int \<Rightarrow> byte \<Rightarrow> dcc \<Rightarrow> dcc" where
  "writeCVByteMain cab cv bValue = pom_packet cab WRITE_BYTE_MAIN cv bValue 4"

definition readCVByteMain :: "int \<Rightarrow> int \<Rightarrow> dcc \<Rightarrow> dcc" where
  "readCVByteMain cab cv s = log_event (RailcomAnticipate cab cv) (pom_packet cab READ_BYTE_MAIN cv 0 2 s)"

definition writeCVBitMain :: "int \<Rightarrow> int \<Rightarrow> byte \<Rightarrow> bool \<Rightarrow> dcc \<Rightarrow> dcc" where
  "writeCVBitMain cab cv bNum bValue =
    pom_packet cab WRITE_BIT_MAIN cv (WRITE_BIT OR (if bValue then BIT_ON else BIT_OFF) OR (bNum mod 8)) 4"

definition setTime :: "u16 \<Rightarrow> byte \<Rightarrow> bool \<Rightarrow> dcc \<Rightarrow> bool \<times> dcc" where
  "setTime minutes speed suddenChange s =
    (if minutes \<ge> 1440 \<or> speed > 63 then (False, s)
     else
       let b = [0, 0b11000001, ucast (minutes mod 60), 0b11100000 OR ucast (minutes div 60),
                (if suddenChange then 0b10000000 else 0) OR speed]
       in (True, in_queues (scheduleDCCPacket b 5 2 0) s))"

section \<open>Forgetting locos\<close>

definition forgetLoco :: "int \<Rightarrow> dcc \<Rightarrow> dcc" where
  "forgetLoco cab s =
    (case get_slot cab False s of
       (None, s) \<Rightarrow> s
     | (Some a, s) \<Rightarrow>
         let s = setThrottleDCC (Some a) 1 s;
             s = (if nextLocoReminder s = Some a then s\<lparr>nextLocoReminder := snext (slot s a)\<rparr> else s);
             s = (if isConsistLead (slot s a) \<or> isConsistFollower (slot s a)
                  then in_slots (deleteAnyConsist (sint (word_of_int cab :: 16 word))) s else s);
             s = in_slots (forget a) s
         in log_event (BroadcastForgetLoco cab) s)"

definition forgetAllLocos :: "dcc \<Rightarrow> dcc" where
  "forgetAllLocos s =
    (let s = setThrottleDCC None 1 s;
         s = fold (\<lambda>a s. log_event (BroadcastForgetLoco (uint (loco (slot s a)))) s) (chain (dslots s)) s
     in (in_slots forgetAll s)\<lparr>nextLocoReminder := None\<rparr>)"

section \<open>Reminders\<close>

definition normalize :: "byte \<Rightarrow> int" where
  "normalize speed = (if speed AND 0x80 \<noteq> 0 then uint (speed AND 0x7F) else -1 - uint speed)"

definition dccalize :: "int \<Rightarrow> byte" where
  "dccalize speed =
    (if speed > 127 then 0xFF
     else if speed < -127 then 0x7F
     else if speed \<ge> 0 then word_of_int speed OR 0x80
     else word_of_int (-1 - speed))"

text \<open>The new speed code of a loco under momentum, or none when no notch is due yet.\<close>

definition momentum_ticks :: "u32 \<Rightarrow> dcc \<Rightarrow> addr \<Rightarrow> int" where
  "momentum_ticks now s a =
    (let delay = sint (ucast (now - momentum_base (slot s a)) :: 16 word);
         millisPerNotch = MOMENTUM_FACTOR * uint (getMomentum s a)
     in if millisPerNotch > 0 then trunc_div delay millisPerNotch else 500)"

definition momentum_step :: "int \<Rightarrow> byte \<Rightarrow> byte \<Rightarrow> byte" where
  "momentum_step ticks sc target =
    (let current = normalize sc; goal = normalize target
     in dccalize (if current < goal then min (current + ticks) goal else max (current - ticks) goal))"

definition speed_reminder :: "u32 \<Rightarrow> addr \<Rightarrow> dcc \<Rightarrow> dcc" where
  "speed_reminder now a s =
    (let sc = speedCode (slot s a);
         ticks = momentum_ticks now s a
     in if targetSpeed (slot s a) \<noteq> sc \<and> ticks > 0 then
          let sc' = momentum_step ticks sc (targetSpeed (slot s a));
              s = put a (\<lambda>x. x\<lparr>speedCode := sc'\<rparr>) s;
              s = (if \<not> estopIsLocked s then log_event (SetDCSignal (uint (loco (slot s a))) sc') s else s);
              s = put a (\<lambda>x. x\<lparr>momentum_base := now\<rparr>) s
          in setThrottle2 a sc' s
        else setThrottle2 a sc s)"

definition function_reminder :: "nat \<Rightarrow> byte \<Rightarrow> addr \<Rightarrow> dcc \<Rightarrow> bool \<times> dcc" where
  "function_reminder fgroup flag a s =
    (if groupFlags (slot s a) AND flag \<noteq> 0 then
       let (byte1, byte2) = function_bytes fgroup (functionMap (slot s a))
       in (True, setFunctionInternal (uint (loco (slot s a))) fgroup byte1 byte2 s)
     else (False, s))"

definition issueReminder :: "u32 \<Rightarrow> addr \<Rightarrow> dcc \<Rightarrow> bool \<times> dcc" where
  "issueReminder now a s =
    (if loopStatus s \<in> {0, 2, 4, 6, 8} then
       if isConsistFollower (slot s a) then (False, s) else (True, speed_reminder now a s)
     else if loopStatus s = 1 then function_reminder 1 FN_GROUP_1 a s
     else if loopStatus s = 3 then function_reminder 2 FN_GROUP_2 a s
     else if loopStatus s = 5 then function_reminder 3 FN_GROUP_3 a s
     else if loopStatus s = 7 then function_reminder 4 FN_GROUP_4 a s
     else if loopStatus s = 9 then function_reminder 5 FN_GROUP_5 a s
     else (False, s))"

text \<open>The scan from \<^verbatim>\<open>nextLocoReminder\<close> to the end of the chain, up to the first reminder sent.\<close>

fun reminder_scan :: "u32 \<Rightarrow> addr list \<Rightarrow> dcc \<Rightarrow> dcc" where
  "reminder_scan now [] s = s\<lparr>nextLocoReminder := None\<rparr>"
| "reminder_scan now (a # as) s =
    (case issueReminder now a s of
       (True, s) \<Rightarrow> s\<lparr>nextLocoReminder := snext (slot s a)\<rparr>
     | (False, s) \<Rightarrow> reminder_scan now as s)"

definition rest_of_chain :: "dcc \<Rightarrow> addr list" where
  "rest_of_chain s = walk (slotCount (dslots s)) (\<lambda>a. snext (slot s a)) (nextLocoReminder s)"

definition issueReminders :: "u32 \<Rightarrow> dcc \<Rightarrow> dcc" where
  "issueReminders now s =
    (if chainModified (dslots s) \<or> nextLocoReminder s = None then
       let s = in_slots (\<lambda>t. t\<lparr>chainModified := False\<rparr>) s;
           s = s\<lparr>nextLocoReminder := firstSlot (dslots s)\<rparr>
       in if nextLocoReminder s = None then s
          else let s = s\<lparr>loopStatus := (if loopStatus s + 1 > 9 then 0 else loopStatus s + 1)\<rparr>
               in reminder_scan now (rest_of_chain s) s
     else reminder_scan now (rest_of_chain s) s)"

text \<open>
  The main loop: when the main track's window is open, a packet from the queues, else a reminder,
  else an idle packet is handed to the waveform. \<open>None\<close> would be the wait in \<^verbatim>\<open>schedulePacket\<close>.
  \<^verbatim>\<open>DCC::loop\<close> begins with \<^verbatim>\<open>TrackManager::loop\<close>, which has a state of its own: it is \<open>tracks_loop\<close> of theory Tracks
  and not part of \<open>dcc_loop\<close>.
\<close>

definition hand_over :: "transmission \<Rightarrow> track \<Rightarrow> track option" where
  "hand_over tx = schedulePacket (tx_packet tx) (unat (tx_length tx)) (unat (tx_repeats tx))"

definition dcc_loop :: "u32 \<Rightarrow> dcc \<times> track \<Rightarrow> (dcc \<times> track) option" where
  "dcc_loop now = (\<lambda>(s, w).
    if \<not> isReminderWindowOpen w then Some (s, w)
    else case scheduleNext False now (dqueues s) of
      (Some tx, q) \<Rightarrow> map_option (Pair (s\<lparr>dqueues := q\<rparr>)) (hand_over tx w)
    | (None, q) \<Rightarrow>
        let s = issueReminders now (s\<lparr>dqueues := q\<rparr>)
        in case scheduleNext True now (dqueues s) of
             (Some tx, q) \<Rightarrow> map_option (Pair (s\<lparr>dqueues := q\<rparr>)) (hand_over tx w)
           | (None, q) \<Rightarrow> Some (s\<lparr>dqueues := q\<rparr>, w))"

end
