(* ===== verification/AckManager.thy ===== *)
theory AckManager
  imports DccApi
begin

text \<open>
  The programming track, \<^verbatim>\<open>src/DCCACK.cpp\<close> and \<^verbatim>\<open>src/DCCACK.h\<close>: a small machine that runs
  programs of \<open>ackOp\<close> instructions. An instruction sends a service-mode packet on the
  programming track, waits for the acknowledgement pulse of the decoder, merges bits, or calls
  back with a result.

  \<open>ack\<close> holds the static members of the class. Its program pointer is the rest of the program
  array from the current instruction on, \<open>None\<close> being \<^verbatim>\<open>NULL\<close>. \<open>ack_step\<close> is one turn of the
  \<^verbatim>\<open>while\<close> loop in \<^verbatim>\<open>DCCACK::loop\<close>: it returns from the loop (\<open>Yield\<close>), goes on with
  the next instruction (\<open>Go\<close>), or does what the code must never do (\<open>Fault\<close>: read past the end
  of a program or wait in \<^verbatim>\<open>schedulePacket\<close>). \<open>ack_loop\<close> is the whole loop. \<open>checkAck\<close> is the
  pulse detector that the interrupt routine calls with one current sample.

  The motor driver and the track manager appear as what the machine uses of them: whether there
  is a programming track and whether it can measure current, its power mode, the joined flag.
  The readings of a call (clock, current, conversion of milliamps) are the record \<open>ack_io\<close>. The
  function to call back is a number, and a callback is logged with its value, cut to 16 bits as
  the function type says. Diagnostic output is not modelled; the branch of \<^verbatim>\<open>setJoin\<close> that the
  ESP32 needs is not modelled either.
\<close>

section \<open>State\<close>

datatype ackOp = BASELINE | W0 | W1 | WB | VB | V0 | V1 | WACK | ITC1 | ITC0 | ITCB | ITCBV
  | ITCB7 | NAKFAIL | CALLFAIL | BIV | STARTMERGE | MERGE | SETBIT | SETCV | SETBYTE | SETBYTEH
  | SETBYTEL | STASHLOCOID | COMBINELOCOID | ITSKIP | NAKSKIP | COMBINE1920 | BAD20SKIP
  | FAIL_IF_NONZERO_NAK | SKIPTARGET | ackOp_of byte

definition ackOps :: "ackOp list" where
  "ackOps = [BASELINE, W0, W1, WB, VB, V0, V1, WACK, ITC1, ITC0, ITCB, ITCBV, ITCB7, NAKFAIL,
    CALLFAIL, BIV, STARTMERGE, MERGE, SETBIT, SETCV, SETBYTE, SETBYTEH, SETBYTEL, STASHLOCOID,
    COMBINELOCOID, ITSKIP, NAKSKIP, COMBINE1920, BAD20SKIP, FAIL_IF_NONZERO_NAK]"

text \<open>
  A program is an array of bytes. A cast \<^verbatim>\<open>(ackOp)20\<close> in it is \<open>ackOp_of 20\<close>; \<open>flash_byte\<close> is an
  entry read as a number, \<open>opcode\<close> an entry read as an instruction.
\<close>

fun index_of :: "'a \<Rightarrow> 'a list \<Rightarrow> nat" where
  "index_of x [] = 0"
| "index_of x (y # ys) = (if x = y then 0 else Suc (index_of x ys))"

fun flash_byte :: "ackOp \<Rightarrow> byte" where
  "flash_byte (ackOp_of b) = b"
| "flash_byte SKIPTARGET = 0xFF"
| "flash_byte x = of_nat (index_of x ackOps)"

fun opcode :: "ackOp \<Rightarrow> ackOp" where
  "opcode (ackOp_of b) =
     (if unat b < length ackOps then ackOps ! unat b else if b = 0xFF then SKIPTARGET else ackOp_of b)"
| "opcode x = x"

datatype CALLBACK_STATE = AFTER_READ | AFTER_WRITE | WAITING_100 | WAITING_30 | READY

datatype POWERMODE = POWER_OFF | POWER_ON | POWER_OVERLOAD | POWER_ALERT

record ack =
  ackManagerProg :: "ackOp list option"
  ackManagerProgStart :: "ackOp list"
  ackManagerByte :: byte
  ackManagerByteVerify :: byte
  ackManagerStash :: byte
  ackManagerWord :: int
  ackManagerRetry :: byte
  ackRetry :: byte
  ackRetrySum :: u16
  ackRetryPSum :: u16
  ackManagerCv :: int
  ackManagerBitNum :: byte
  ackReceived :: bool
  ackManagerRejoin :: bool
  autoPowerOff :: bool
  callbackState :: CALLBACK_STATE
  callbackStart :: u32
  ackManagerCallback :: nat
  ackPending :: bool
  ackDetected :: bool
  ackThreshold :: int
  ackLimitmA :: int
  ackMaxCurrent :: int
  ackCheckStart :: u32
  ackCheckDuration :: u32
  ackPulseDuration :: u32
  ackPulseStart :: u32
  minAckPulseDuration :: u32
  maxAckPulseDuration :: u32
  numAckGaps :: byte
  numAckSamples :: byte
  trailingEdgeCounter :: byte
  hasProgDriver :: bool
  canMeasureCurrent :: bool
  progPower :: POWERMODE
  joined :: bool
  ackTrack :: track
  callbacks :: "(nat \<times> int) list"

record ack_io =
  io_millis :: u32
  io_micros :: u32
  io_current :: int
  io_mA2raw :: "int \<Rightarrow> int"

definition PROG_REPEATS :: nat where "PROG_REPEATS = 8"

definition RESET_MIN :: nat where "RESET_MIN = 8"

definition WRITE_BYTE :: byte where "WRITE_BYTE = 0x7C"

definition VERIFY_BYTE :: byte where "VERIFY_BYTE = 0x74"

definition BIT_MANIPULATE :: byte where "BIT_MANIPULATE = 0x78"

definition VERIFY_BIT :: byte where "VERIFY_BIT = 0xE0"

definition LONG_ADDR_MARKER :: int where "LONG_ADDR_MARKER = 0x4000"

section \<open>Setting a program up\<close>

text \<open>
  \<^verbatim>\<open>MotorDriver::setPower\<close> on the programming track, as far as the machine sees it: the power mode and the
  resets. The whole operation, with its time stamps, sense offset and pins, is \<open>setPower\<close> of theory Motors.
\<close>

definition setPower :: "POWERMODE \<Rightarrow> ack \<Rightarrow> ack" where
  "setPower mode a =
    (if progPower a = mode then a
     else let a = (if mode = POWER_ON \<or> mode = POWER_ALERT
                   then a\<lparr>ackTrack := clearResets (ackTrack a)\<rparr> else a)
          in a\<lparr>progPower := mode\<rparr>)"

definition call_back :: "nat \<Rightarrow> int \<Rightarrow> ack \<Rightarrow> ack" where
  "call_back f v a = a\<lparr>callbacks := callbacks a @ [(f, sint (word_of_int v :: u16))]\<rparr>"

definition Setup :: "int \<Rightarrow> byte \<Rightarrow> ackOp list \<Rightarrow> nat \<Rightarrow> ack \<Rightarrow> ack" where
  "Setup cv byteValueOrBitnum program f a =
    (let a = a\<lparr>ackManagerRejoin := joined a\<rparr>;
         a = (if ackManagerRejoin a
              then a\<lparr>joined := False, ackTrack := clearResets (ackTrack a)\<rparr> else a)
     in if \<not> hasProgDriver a then
          call_back f (-3) (if ackManagerRejoin a then a\<lparr>joined := False\<rparr> else a)
        else if \<not> canMeasureCurrent a then
          call_back f (-2) (a\<lparr>joined := ackManagerRejoin a\<rparr>)
        else
          (let a = a\<lparr>autoPowerOff := False\<rparr>;
               a = (if progPower a = POWER_OFF
                    then setPower POWER_ON (a\<lparr>autoPowerOff := True\<rparr>) else a)
           in a\<lparr>ackManagerCv := cv, ackManagerProg := Some program, ackManagerProgStart := program,
                ackManagerRetry := ackRetry a, ackManagerByte := byteValueOrBitnum,
                ackManagerByteVerify := byteValueOrBitnum, ackManagerBitNum := byteValueOrBitnum,
                ackManagerCallback := f\<rparr>))"

definition Setup_word :: "int \<Rightarrow> ackOp list \<Rightarrow> nat \<Rightarrow> ack \<Rightarrow> ack" where
  "Setup_word wordval program f a = Setup 0 0 program f (a\<lparr>ackManagerWord := wordval\<rparr>)"

definition setAckRetry :: "byte \<Rightarrow> ack \<Rightarrow> u16 \<times> ack" where
  "setAckRetry retry a =
    (let a = a\<lparr>ackRetry := retry, ackRetryPSum := ackRetrySum a, ackRetrySum := 0\<rparr>
     in (ackRetryPSum a, a))"

section \<open>The program loop\<close>

definition checkResets :: "nat \<Rightarrow> ack \<Rightarrow> bool" where
  "checkResets numResets a \<longleftrightarrow> getResets (ackTrack a) < numResets"

definition setAckBaseline :: "ack_io \<Rightarrow> ack \<Rightarrow> ack" where
  "setAckBaseline io a = a\<lparr>ackThreshold := io_current io + io_mA2raw io (ackLimitmA a)\<rparr>"

definition setAckPending :: "ack_io \<Rightarrow> ack \<Rightarrow> ack" where
  "setAckPending io a = a\<lparr>ackMaxCurrent := 0, ackPulseStart := 0, ackPulseDuration := 0,
     ackDetected := False, ackCheckStart := io_millis io, numAckSamples := 0, numAckGaps := 0,
     ackPending := True\<rparr>"

definition getAck :: "ack \<Rightarrow> byte" where
  "getAck a = (if ackPending a then 2 else if ackDetected a then 1 else 0)"

definition callback :: "ack_io \<Rightarrow> int \<Rightarrow> ack \<Rightarrow> ack" where
  "callback io v a =
    (if v = -1 \<and> ackManagerRetry a > 0 then
       a\<lparr>ackRetrySum := ackRetrySum a + 1, ackManagerRetry := ackManagerRetry a - 1,
         ackManagerProg := Some (ackManagerProgStart a)\<rparr>
     else case callbackState a of
       AFTER_READ \<Rightarrow>
         if ackManagerRejoin a \<and> \<not> autoPowerOff a
         then (setPower POWER_OFF a)\<lparr>callbackStart := io_millis io, callbackState := WAITING_30\<rparr>
         else a\<lparr>callbackState := READY\<rparr>
     | AFTER_WRITE \<Rightarrow>
         if \<not> ackManagerRejoin a \<and> \<not> autoPowerOff a then a\<lparr>callbackState := READY\<rparr>
         else a\<lparr>callbackStart := io_millis io, callbackState := WAITING_100\<rparr>
     | WAITING_100 \<Rightarrow>
         if io_millis io - callbackStart a < 100 then a
         else if autoPowerOff a then a\<lparr>callbackState := READY\<rparr>
         else (setPower POWER_OFF a)\<lparr>callbackStart := io_millis io, callbackState := WAITING_30\<rparr>
     | WAITING_30 \<Rightarrow>
         if io_millis io - callbackStart a < 30 then a
         else (setPower POWER_ON a)\<lparr>callbackState := READY\<rparr>
     | READY \<Rightarrow>
         (let a = (if autoPowerOff a then setPower POWER_OFF a else a);
              a = (if ackManagerRejoin a then a\<lparr>joined := True\<rparr> else a);
              a = a\<lparr>ackManagerProg := None\<rparr>
          in call_back (ackManagerCallback a) v a))"

datatype ack_result = Yield ack | Go ack | Fault

text \<open>
  The packet instructions: \<open>send\<close> hands the packet over and starts the acknowledgement window;
  \<open>after\<close> is what the code does to the callback state. \<open>Go\<close> is the \<^verbatim>\<open>break\<close> of the switch,
  after which the loop steps the program pointer; \<open>Yield\<close> is \<^verbatim>\<open>return\<close>.
\<close>

definition send :: "ack_io \<Rightarrow> byte list \<Rightarrow> (ack \<Rightarrow> ack) \<Rightarrow> ack \<Rightarrow> ack_result" where
  "send io message after a =
    (if checkResets RESET_MIN a then Yield a
     else case schedulePacket message (length message) PROG_REPEATS (ackTrack a) of
            None \<Rightarrow> Fault
          | Some t \<Rightarrow> Go (after (setAckPending io (a\<lparr>ackTrack := t\<rparr>))))"

definition bit_message :: "byte \<Rightarrow> bool \<Rightarrow> ack \<Rightarrow> byte list" where
  "bit_message how on a =
    [cv1 BIT_MANIPULATE (ackManagerCv a), cv2 (ackManagerCv a),
     how OR (if on then BIT_ON else BIT_OFF) OR ackManagerBitNum a]"

definition byte_message :: "byte \<Rightarrow> ack \<Rightarrow> byte list" where
  "byte_message how a = [cv1 how (ackManagerCv a), cv2 (ackManagerCv a), ackManagerByte a]"

definition call_if :: "bool \<Rightarrow> ack_io \<Rightarrow> int \<Rightarrow> ack \<Rightarrow> ack_result" where
  "call_if c io v a = (if c then Yield (callback io v a) else Go a)"

definition skip_if :: "bool \<Rightarrow> ack \<Rightarrow> ackOp list \<Rightarrow> ack_result" where
  "skip_if c a rest =
    (if c then case dropWhile (\<lambda>x. flash_byte x \<noteq> 0xFF) rest of
                 [] \<Rightarrow> Fault
               | target # r \<Rightarrow> Go (a\<lparr>ackManagerProg := Some (target # r)\<rparr>)
     else Go a)"

definition operand :: "(byte \<Rightarrow> ack \<Rightarrow> ack) \<Rightarrow> ackOp list \<Rightarrow> ack \<Rightarrow> ack_result" where
  "operand store rest a =
    (case rest of [] \<Rightarrow> Fault | x # r \<Rightarrow> Go (store (flash_byte x) (a\<lparr>ackManagerProg := Some rest\<rparr>)))"

definition combined_loco :: "ack \<Rightarrow> int" where
  "combined_loco a =
    LONG_ADDR_MARKER OR (uint (ackManagerByte a) + (uint (ackManagerStash a) - 192) * 256)"

text \<open>
  The switch on one instruction: \<open>rest\<close> is the program behind it, and the program pointer still
  points at it.
\<close>

fun exec_op :: "ackOp \<Rightarrow> ackOp list \<Rightarrow> ack_io \<Rightarrow> ack \<Rightarrow> ack_result" where
  "exec_op BASELINE rest io a =
    (if progPower a = POWER_OVERLOAD then Yield a
     else if checkResets (if autoPowerOff a \<or> ackManagerRejoin a then 20 else 3) a then Yield a
     else Go ((setAckBaseline io a)\<lparr>callbackState := AFTER_READ\<rparr>))"
| "exec_op W0 rest io a = send io (bit_message WRITE_BIT False a) (callbackState_update (\<lambda>_. AFTER_WRITE)) a"
| "exec_op W1 rest io a = send io (bit_message WRITE_BIT True a) (callbackState_update (\<lambda>_. AFTER_WRITE)) a"
| "exec_op WB rest io a = send io (byte_message WRITE_BYTE a) (callbackState_update (\<lambda>_. AFTER_WRITE)) a"
| "exec_op VB rest io a = send io (byte_message VERIFY_BYTE a) (\<lambda>a. a) a"
| "exec_op V0 rest io a = send io (bit_message VERIFY_BIT False a) (\<lambda>a. a) a"
| "exec_op V1 rest io a = send io (bit_message VERIFY_BIT True a) (\<lambda>a. a) a"
| "exec_op WACK rest io a = (if getAck a = 2 then Yield a else Go (a\<lparr>ackReceived := (getAck a = 1)\<rparr>))"
| "exec_op ITC0 rest io a = call_if (ackReceived a) io 0 a"
| "exec_op ITC1 rest io a = call_if (ackReceived a) io 1 a"
| "exec_op ITCB rest io a = call_if (ackReceived a) io (uint (ackManagerByte a)) a"
| "exec_op ITCBV rest io a =
    call_if (ackReceived a) io (uint (ackManagerByte a))
      (if ackReceived a \<and> ackManagerByte a = ackManagerByteVerify a
       then a\<lparr>ackRetrySum := ackRetrySum a + 1\<rparr> else a)"
| "exec_op ITCB7 rest io a = call_if (ackReceived a) io (uint (ackManagerByte a AND 0x7F)) a"
| "exec_op NAKFAIL rest io a = call_if (\<not> ackReceived a) io (-1) a"
| "exec_op CALLFAIL rest io a = call_if True io (-1) a"
| "exec_op BIV rest io a = Go (a\<lparr>ackManagerByte := ackManagerByteVerify a\<rparr>)"
| "exec_op STARTMERGE rest io a = Go (a\<lparr>ackManagerBitNum := 7, ackManagerByte := 0\<rparr>)"
| "exec_op MERGE rest io a =
    Go (a\<lparr>ackManagerByte := push_bit 1 (ackManagerByte a) OR (if ackReceived a then 0 else 1),
          ackManagerBitNum := ackManagerBitNum a - 1\<rparr>)"
| "exec_op SETBIT rest io a = operand (\<lambda>b. ackManagerBitNum_update (\<lambda>_. b)) rest a"
| "exec_op SETCV rest io a = operand (\<lambda>b. ackManagerCv_update (\<lambda>_. uint b)) rest a"
| "exec_op SETBYTE rest io a = operand (\<lambda>b. ackManagerByte_update (\<lambda>_. b)) rest a"
| "exec_op SETBYTEH rest io a = Go (a\<lparr>ackManagerByte := highByte (word_of_int (ackManagerWord a) :: u16)\<rparr>)"
| "exec_op SETBYTEL rest io a = Go (a\<lparr>ackManagerByte := lowByte (word_of_int (ackManagerWord a) :: u16)\<rparr>)"
| "exec_op STASHLOCOID rest io a = Go (a\<lparr>ackManagerStash := ackManagerByte a\<rparr>)"
| "exec_op COMBINELOCOID rest io a = call_if True io (combined_loco a) a"
| "exec_op COMBINE1920 rest io a =
    (let a = a\<lparr>ackManagerByte := (ackManagerByte a AND 0x7F) mod 100\<rparr>
     in call_if True io (uint (ackManagerStash a) * 100 + uint (ackManagerByte a)) a)"
| "exec_op ITSKIP rest io a = skip_if (ackReceived a) a rest"
| "exec_op NAKSKIP rest io a = skip_if (\<not> ackReceived a) a rest"
| "exec_op BAD20SKIP rest io a = skip_if (ackManagerByte a > 120) a rest"
| "exec_op FAIL_IF_NONZERO_NAK rest io a = call_if (ackManagerByte a \<noteq> 0) io (-4) a"
| "exec_op SKIPTARGET rest io a = Go a"
| "exec_op (ackOp_of b) rest io a = call_if True io (-1) a"

definition next_op :: "ack \<Rightarrow> ack" where
  "next_op a = a\<lparr>ackManagerProg := map_option tl (ackManagerProg a)\<rparr>"

definition ack_step :: "ack_io \<Rightarrow> ack \<Rightarrow> ack_result" where
  "ack_step io a =
    (case ackManagerProg a of
       None \<Rightarrow> Yield a
     | Some [] \<Rightarrow> Fault
     | Some (x # rest) \<Rightarrow>
         (case exec_op (opcode x) rest io a of Go a' \<Rightarrow> Go (next_op a') | r \<Rightarrow> r))"

definition prog_left :: "ack \<Rightarrow> nat" where
  "prog_left a = (case ackManagerProg a of None \<Rightarrow> 0 | Some p \<Rightarrow> length p)"

lemma send_Go: "send io m f a = Go a' \<Longrightarrow> (\<And>b. ackManagerProg (f b) = ackManagerProg b) \<Longrightarrow>
  ackManagerProg a' = ackManagerProg a"
  by (auto simp: send_def setAckPending_def split: if_splits option.splits)

lemma operand_Go: "operand f rest a = Go a' \<Longrightarrow> (\<And>b c. ackManagerProg (f b c) = ackManagerProg c) \<Longrightarrow>
  ackManagerProg a' = Some rest \<and> rest \<noteq> []"
  by (auto simp: operand_def split: list.splits)

lemma skip_Go: "skip_if c a rest = Go a' \<Longrightarrow>
  (if c then \<exists>p. ackManagerProg a' = Some p \<and> p \<noteq> [] \<and> length p \<le> length rest
   else ackManagerProg a' = ackManagerProg a)"
  using length_dropWhile_le [of "\<lambda>x. flash_byte x \<noteq> 0xFF" rest]
  by (auto simp: skip_if_def split: list.splits if_splits)

lemma exec_op_Go:
  assumes "exec_op x rest io a = Go a'" "ackManagerProg a = Some (y # rest)"
  shows "\<exists>p. ackManagerProg a' = Some p \<and> p \<noteq> [] \<and> length p \<le> Suc (length rest)"
  using assms
  by (cases x) (fastforce simp: call_if_def setAckBaseline_def Let_def
    dest: send_Go operand_Go skip_Go split: if_splits)+

lemma ack_step_Go: "ack_step io a = Go a' \<Longrightarrow> prog_left a' < prog_left a"
  using exec_op_Go
  by (fastforce simp: ack_step_def prog_left_def next_op_def split: option.splits list.splits ack_result.splits)

function ack_loop :: "ack_io \<Rightarrow> ack \<Rightarrow> ack option" where
  "ack_loop io a =
    (case ack_step io a of Yield a' \<Rightarrow> Some a' | Fault \<Rightarrow> None | Go a' \<Rightarrow> ack_loop io a')"
  by pat_completeness auto
termination by (relation "measure (\<lambda>(io, a). prog_left a)") (auto simp: ack_step_Go)

declare ack_loop.simps [simp del]

section \<open>The pulse detector\<close>

text \<open>\<^verbatim>\<open>checkAck\<close> runs in the interrupt routine, with the number of resets sent and one sample.\<close>

definition checkAck :: "nat \<Rightarrow> ack_io \<Rightarrow> ack \<Rightarrow> ack" where
  "checkAck resets io a =
    (if \<not> ackPending a then a
     else if resets > 6 then
       a\<lparr>ackCheckDuration := io_millis io - ackCheckStart a, ackPending := False\<rparr>
     else
       (let current = io_current io;
            a = a\<lparr>numAckSamples := numAckSamples a + 1,
                  ackMaxCurrent := (if current > ackMaxCurrent a then current else ackMaxCurrent a)\<rparr>
        in if current > ackThreshold a then
             (let a = (if trailingEdgeCounter a > 0
                       then a\<lparr>numAckGaps := numAckGaps a + 1, trailingEdgeCounter := 0\<rparr> else a)
              in if ackPulseStart a = 0 then a\<lparr>ackPulseStart := io_micros io\<rparr> else a)
           else if ackPulseStart a = 0 then a
           else
             (let a = (if trailingEdgeCounter a = 0
                       then a\<lparr>ackPulseDuration := io_micros io - ackPulseStart a\<rparr> else a)
              in if trailingEdgeCounter a < 2 then a\<lparr>trailingEdgeCounter := trailingEdgeCounter a + 1\<rparr>
                 else
                   (let a = a\<lparr>trailingEdgeCounter := 0\<rparr>
                    in if ackPulseDuration a \<ge> minAckPulseDuration a \<and>
                          (ackPulseDuration a \<le> maxAckPulseDuration a \<or> maxAckPulseDuration a = 0)
                       then a\<lparr>ackCheckDuration := io_millis io - ackCheckStart a, ackDetected := True,
                              ackPending := False, ackTrack := clearRepeats (ackTrack a)\<rparr>
                       else a\<lparr>ackPulseStart := 0\<rparr>))))"

end
