(* ===== verification/AckProgs.thy ===== *)
theory AckProgs
  imports AckManager
begin

text \<open>
  The programming-track calls of \<^verbatim>\<open>src/DCC.cpp\<close>: the programs for the machine of theory
  AckManager and the functions that start them. \<open>prog_ok\<close> is a static check of a program, and
  \<open>ack_reach\<close> the states that calls, loop turns, interrupts and power changes lead to: in all of
  them the loop returns.
\<close>

section \<open>The programs\<close>

definition WRITE_BIT0_PROG :: "ackOp list" where
  "WRITE_BIT0_PROG = [BASELINE, W0, WACK, V0, WACK, ITC1, CALLFAIL]"

definition WRITE_BIT1_PROG :: "ackOp list" where
  "WRITE_BIT1_PROG = [BASELINE, W1, WACK, V1, WACK, ITC1, CALLFAIL]"

definition VERIFY_BIT0_PROG :: "ackOp list" where
  "VERIFY_BIT0_PROG = [BASELINE, V0, WACK, ITC0, V1, WACK, ITC1, CALLFAIL]"

definition VERIFY_BIT1_PROG :: "ackOp list" where
  "VERIFY_BIT1_PROG = [BASELINE, V1, WACK, ITC1, V0, WACK, ITC0, CALLFAIL]"

definition READ_BIT_PROG :: "ackOp list" where
  "READ_BIT_PROG = [BASELINE, V1, WACK, ITC1, V0, WACK, ITC0, CALLFAIL]"

definition WRITE_BYTE_PROG :: "ackOp list" where
  "WRITE_BYTE_PROG = [BASELINE, WB, WACK, ITC1, VB, WACK, ITC1, CALLFAIL]"

definition VERIFY_BYTE_PROG :: "ackOp list" where
  "VERIFY_BYTE_PROG =
    [BASELINE, BIV, VB, WACK, ITCB, STARTMERGE,
     V0, WACK, MERGE,
     ITSKIP, SETBIT, ackOp_of 7, V1, WACK, NAKFAIL, SETBIT, ackOp_of 6, SKIPTARGET,
     V0, WACK, MERGE, V0, WACK, MERGE, V0, WACK, MERGE, V0, WACK, MERGE, V0, WACK, MERGE,
     V0, WACK, MERGE, V0, WACK, MERGE,
     VB, WACK, ITCBV, CALLFAIL]"

definition READ_CV_PROG :: "ackOp list" where
  "READ_CV_PROG =
    [BASELINE, STARTMERGE,
     V0, WACK, MERGE,
     ITSKIP, SETBIT, ackOp_of 7, V1, WACK, NAKFAIL, SETBIT, ackOp_of 6, SKIPTARGET,
     V0, WACK, MERGE, V0, WACK, MERGE, V0, WACK, MERGE, V0, WACK, MERGE, V0, WACK, MERGE,
     V0, WACK, MERGE, V0, WACK, MERGE,
     VB, WACK, ITCB, CALLFAIL]"

definition LOCO_DRIVEAWAY_PROG :: "ackOp list" where
  "LOCO_DRIVEAWAY_PROG =
    [BASELINE,
     SETCV, ackOp_of 20, SETBYTE, ackOp_of 0, VB, WACK, ITSKIP,
     STARTMERGE,
     V0, WACK, MERGE, V0, WACK, MERGE, V0, WACK, MERGE, V0, WACK, MERGE,
     V0, WACK, MERGE, V0, WACK, MERGE, V0, WACK, MERGE, V0, WACK, MERGE,
     VB, WACK, NAKSKIP, BAD20SKIP, STASHLOCOID,
     SETCV, ackOp_of 19, STARTMERGE,
     V0, WACK, MERGE, V0, WACK, MERGE, V0, WACK, MERGE, V0, WACK, MERGE,
     V0, WACK, MERGE, V0, WACK, MERGE, V0, WACK, MERGE, V0, WACK, MERGE,
     VB, WACK, NAKFAIL, COMBINE1920,
     SKIPTARGET,
     SETCV, ackOp_of 19, SETBYTE, ackOp_of 0, VB, WACK, ITSKIP,
     SETBYTE, ackOp_of 128, VB, WACK, ITSKIP,
     STARTMERGE,
     V0, WACK, MERGE, V0, WACK, MERGE, V0, WACK, MERGE, V0, WACK, MERGE,
     V0, WACK, MERGE, V0, WACK, MERGE, V0, WACK, MERGE, V0, WACK, MERGE,
     VB, WACK, ITCB7,
     SKIPTARGET,
     SETCV, ackOp_of 29, SETBIT, ackOp_of 5, V0, WACK, ITSKIP,
     SETCV, ackOp_of 17, STARTMERGE,
     V0, WACK, MERGE, V0, WACK, MERGE, V0, WACK, MERGE, V0, WACK, MERGE,
     V0, WACK, MERGE, V0, WACK, MERGE, V0, WACK, MERGE, V0, WACK, MERGE,
     VB, WACK, NAKFAIL, STASHLOCOID,
     SETCV, ackOp_of 18, STARTMERGE,
     V0, WACK, MERGE, V0, WACK, MERGE, V0, WACK, MERGE, V0, WACK, MERGE,
     V0, WACK, MERGE, V0, WACK, MERGE, V0, WACK, MERGE, V0, WACK, MERGE,
     VB, WACK, NAKFAIL, COMBINELOCOID,
     SKIPTARGET,
     SETCV, ackOp_of 1, STARTMERGE, SETBIT, ackOp_of 6,
     V0, WACK, MERGE, V0, WACK, MERGE, V0, WACK, MERGE, V0, WACK, MERGE,
     V0, WACK, MERGE, V0, WACK, MERGE, V0, WACK, MERGE,
     VB, WACK, ITCB, CALLFAIL]"

definition LOCO_READ_ID_PROG :: "ackOp list" where
  "LOCO_READ_ID_PROG =
    [BASELINE,
     SETCV, ackOp_of 29, SETBIT, ackOp_of 5, V0, WACK, ITSKIP,
     SETCV, ackOp_of 17, STARTMERGE,
     V0, WACK, MERGE, V0, WACK, MERGE, V0, WACK, MERGE, V0, WACK, MERGE,
     V0, WACK, MERGE, V0, WACK, MERGE, V0, WACK, MERGE, V0, WACK, MERGE,
     VB, WACK, NAKFAIL, STASHLOCOID,
     SETCV, ackOp_of 18, STARTMERGE,
     V0, WACK, MERGE, V0, WACK, MERGE, V0, WACK, MERGE, V0, WACK, MERGE,
     V0, WACK, MERGE, V0, WACK, MERGE, V0, WACK, MERGE, V0, WACK, MERGE,
     VB, WACK, NAKFAIL, COMBINELOCOID,
     SKIPTARGET,
     SETCV, ackOp_of 1, STARTMERGE, SETBIT, ackOp_of 6,
     V0, WACK, MERGE, V0, WACK, MERGE, V0, WACK, MERGE, V0, WACK, MERGE,
     V0, WACK, MERGE, V0, WACK, MERGE, V0, WACK, MERGE,
     VB, WACK, ITCB, CALLFAIL]"

definition LOCO_READ_CONSIST_PROG :: "ackOp list" where
  "LOCO_READ_CONSIST_PROG =
    [BASELINE,
     SETCV, ackOp_of 20, SETBYTE, ackOp_of 0, VB, WACK, ITSKIP,
     STARTMERGE,
     V0, WACK, MERGE, V0, WACK, MERGE, V0, WACK, MERGE, V0, WACK, MERGE,
     V0, WACK, MERGE, V0, WACK, MERGE, V0, WACK, MERGE, V0, WACK, MERGE,
     VB, WACK, NAKSKIP, BAD20SKIP, STASHLOCOID,
     SETCV, ackOp_of 19, STARTMERGE,
     V0, WACK, MERGE, V0, WACK, MERGE, V0, WACK, MERGE, V0, WACK, MERGE,
     V0, WACK, MERGE, V0, WACK, MERGE, V0, WACK, MERGE, V0, WACK, MERGE,
     VB, WACK, NAKFAIL, COMBINE1920,
     SKIPTARGET,
     SETCV, ackOp_of 19, SETBYTE, ackOp_of 0, VB, WACK, ITC0,
     SETBYTE, ackOp_of 128, VB, WACK, ITC0,
     STARTMERGE,
     V0, WACK, MERGE, V0, WACK, MERGE, V0, WACK, MERGE, V0, WACK, MERGE,
     V0, WACK, MERGE, V0, WACK, MERGE, V0, WACK, MERGE, V0, WACK, MERGE,
     VB, WACK, ITCB7, CALLFAIL]"

definition SHORT_LOCO_ID_PROG :: "ackOp list" where
  "SHORT_LOCO_ID_PROG =
    [BASELINE,
     SETCV, ackOp_of 20, SETBYTE, ackOp_of 0, WB, WACK,
     SETCV, ackOp_of 19, SETBYTE, ackOp_of 0, WB, WACK,
     SETCV, ackOp_of 29, SETBIT, ackOp_of 5, W0, WACK, V0, WACK, NAKFAIL,
     SETCV, ackOp_of 1, SETBYTEL, WB, WACK, ITC1, VB, WACK, ITC1, CALLFAIL]"

definition CONSIST_ID_PROG :: "ackOp list" where
  "CONSIST_ID_PROG =
    [BASELINE,
     SETCV, ackOp_of 20, SETBYTEH, WB, WACK, ITSKIP, FAIL_IF_NONZERO_NAK, SKIPTARGET,
     SETCV, ackOp_of 19, SETBYTEL, WB, WACK, ITC1, VB, WACK, ITC1, CALLFAIL]"

definition LONG_LOCO_ID_PROG :: "ackOp list" where
  "LONG_LOCO_ID_PROG =
    [BASELINE,
     SETCV, ackOp_of 20, SETBYTE, ackOp_of 0, WB, WACK,
     SETCV, ackOp_of 19, SETBYTE, ackOp_of 0, WB, WACK,
     SETCV, ackOp_of 29, SETBIT, ackOp_of 5, W1, WACK, V1, WACK, NAKFAIL,
     SETCV, ackOp_of 17, SETBYTEH, WB, WACK, ITSKIP, VB, WACK, ITSKIP, CALLFAIL, SKIPTARGET,
     SETCV, ackOp_of 18, SETBYTEL, WB, WACK, ITC1, VB, WACK, ITC1, CALLFAIL]"

section \<open>The calls that start them\<close>

definition writeCVByte :: "int \<Rightarrow> byte \<Rightarrow> nat \<Rightarrow> ack \<Rightarrow> ack" where
  "writeCVByte cv byteValue f = Setup cv byteValue WRITE_BYTE_PROG f"

definition writeCVBit :: "int \<Rightarrow> byte \<Rightarrow> bool \<Rightarrow> nat \<Rightarrow> ack \<Rightarrow> ack" where
  "writeCVBit cv bitNum bitValue f =
    (if bitNum \<ge> 8 then call_back f (-1)
     else Setup cv bitNum (if bitValue then WRITE_BIT1_PROG else WRITE_BIT0_PROG) f)"

definition verifyCVByte :: "int \<Rightarrow> byte \<Rightarrow> nat \<Rightarrow> ack \<Rightarrow> ack" where
  "verifyCVByte cv byteValue f = Setup cv byteValue VERIFY_BYTE_PROG f"

definition verifyCVBit :: "int \<Rightarrow> byte \<Rightarrow> bool \<Rightarrow> nat \<Rightarrow> ack \<Rightarrow> ack" where
  "verifyCVBit cv bitNum bitValue f =
    (if bitNum \<ge> 8 then call_back f (-1)
     else Setup cv bitNum (if bitValue then VERIFY_BIT1_PROG else VERIFY_BIT0_PROG) f)"

definition readCVBit :: "int \<Rightarrow> byte \<Rightarrow> nat \<Rightarrow> ack \<Rightarrow> ack" where
  "readCVBit cv bitNum f =
    (if bitNum \<ge> 8 then call_back f (-1) else Setup cv bitNum READ_BIT_PROG f)"

definition readCV :: "int \<Rightarrow> nat \<Rightarrow> ack \<Rightarrow> ack" where
  "readCV cv f = Setup cv 0 READ_CV_PROG f"

definition getDriveawayLocoId :: "nat \<Rightarrow> ack \<Rightarrow> ack" where
  "getDriveawayLocoId f = Setup 0 0 LOCO_DRIVEAWAY_PROG f"

definition getLocoId :: "nat \<Rightarrow> ack \<Rightarrow> ack" where
  "getLocoId f = Setup 0 0 LOCO_READ_ID_PROG f"

definition getConsistId :: "nat \<Rightarrow> ack \<Rightarrow> ack" where
  "getConsistId f = Setup 0 0 LOCO_READ_CONSIST_PROG f"

definition setLocoId :: "int \<Rightarrow> nat \<Rightarrow> ack \<Rightarrow> ack" where
  "setLocoId ident f =
    (if ident < 1 \<or> ident > 10239 then call_back f (-1)
     else if ident \<le> HIGHEST_SHORT_ADDR then Setup_word ident SHORT_LOCO_ID_PROG f
     else Setup_word (ident OR 0xC000) LONG_LOCO_ID_PROG f)"

definition consist_cvs :: "int \<Rightarrow> bool \<Rightarrow> byte \<times> byte" where
  "consist_cvs ident reverse =
    (let (cv20, cv19) = (if ident \<le> HIGHEST_SHORT_ADDR then (0, word_of_int ident)
                         else (word_of_int (ident div 100), word_of_int (ident mod 100)))
     in (cv20, if reverse then cv19 OR 0x80 else cv19))"

definition setConsistId :: "int \<Rightarrow> bool \<Rightarrow> nat \<Rightarrow> ack \<Rightarrow> ack" where
  "setConsistId ident reverse f =
    (if ident < 0 \<or> ident > 10239 then call_back f (-1)
     else let (cv20, cv19) = consist_cvs ident reverse
          in Setup_word (push_bit 8 (uint cv20) OR uint cv19) CONSIST_ID_PROG f)"


section \<open>Programs that cannot run off their end\<close>

definition skip_target :: "ackOp list \<Rightarrow> ackOp list" where
  "skip_target p = dropWhile (\<lambda>x. flash_byte x \<noteq> 0xFF) p"

definition takes_operand :: "ackOp \<Rightarrow> bool" where
  "takes_operand x \<longleftrightarrow> x \<in> {SETBIT, SETCV, SETBYTE}"

definition may_skip :: "ackOp \<Rightarrow> bool" where
  "may_skip x \<longleftrightarrow> x \<in> {ITSKIP, NAKSKIP, BAD20SKIP}"

definition always_calls :: "ackOp \<Rightarrow> bool" where
  "always_calls x \<longleftrightarrow> x \<in> {CALLFAIL, COMBINELOCOID, COMBINE1920} \<or> (\<exists>b. x = ackOp_of b)"

text \<open>
  The static check: an entry that takes an operand is followed by one, which is not mistaken for
  a skip target; a skip has a target ahead; the last entry calls back whatever happens.
\<close>

fun prog_ok :: "ackOp list \<Rightarrow> bool" where
  "prog_ok [] \<longleftrightarrow> False"
| "prog_ok (x # p) \<longleftrightarrow>
     (if takes_operand (opcode x) then p \<noteq> [] \<and> flash_byte (hd p) \<noteq> 0xFF \<and> prog_ok (tl p)
      else if always_calls (opcode x) then p = [] \<or> prog_ok p
      else prog_ok p \<and> (may_skip (opcode x) \<longrightarrow> skip_target p \<noteq> []))"

lemmas op_classes = takes_operand_def may_skip_def always_calls_def

lemma is_target: "flash_byte x = 0xFF \<longleftrightarrow> opcode x = SKIPTARGET"
  by (cases x) (auto simp: ackOps_def nth_Cons split: nat.split)

lemma skip_target_simps [simp]:
  "skip_target [] = []"
  "skip_target (SKIPTARGET # p) = SKIPTARGET # p"
  "skip_target (ackOp_of b # p) = (if b = 0xFF then ackOp_of b # p else skip_target p)"
  "x \<noteq> SKIPTARGET \<Longrightarrow> (\<And>b. x \<noteq> ackOp_of b) \<Longrightarrow> skip_target (x # p) = skip_target p"
  using is_target [of x] by (cases x; simp add: skip_target_def)+

lemma skip_target_ok: "prog_ok p \<Longrightarrow> skip_target p \<noteq> [] \<Longrightarrow> prog_ok (tl (skip_target p))"
proof (induction p rule: prog_ok.induct)
  case (2 x p)
  show ?case
  proof (cases "flash_byte x = 0xFF")
    case True
    then have "prog_ok p" using 2(4) by (simp add: is_target op_classes)
    then show ?thesis using True by (simp add: skip_target_def)
  next
    case False
    then have s: "skip_target (x # p) = skip_target p" by (simp add: skip_target_def)
    show ?thesis
    proof (cases "takes_operand (opcode x)")
      case True
      then have "skip_target p = skip_target (tl p)" using 2(4) by (cases p) (auto simp: skip_target_def)
      then show ?thesis using 2(1) [OF True] 2(4,5) True s by simp
    next
      case F: False
      then have "prog_ok p" using 2(4,5) s by (auto simp: skip_target_def split: if_splits)
      then show ?thesis using 2(2,3,5) F s by (auto split: if_splits)
    qed
  qed
qed simp

definition programs :: "ackOp list set" where
  "programs = {WRITE_BIT0_PROG, WRITE_BIT1_PROG, VERIFY_BIT0_PROG, VERIFY_BIT1_PROG, READ_BIT_PROG,
     WRITE_BYTE_PROG, VERIFY_BYTE_PROG, READ_CV_PROG, LOCO_DRIVEAWAY_PROG, LOCO_READ_ID_PROG,
     LOCO_READ_CONSIST_PROG, SHORT_LOCO_ID_PROG, CONSIST_ID_PROG, LONG_LOCO_ID_PROG}"

lemmas prog_defs = WRITE_BIT0_PROG_def WRITE_BIT1_PROG_def VERIFY_BIT0_PROG_def VERIFY_BIT1_PROG_def
  READ_BIT_PROG_def WRITE_BYTE_PROG_def VERIFY_BYTE_PROG_def READ_CV_PROG_def LOCO_DRIVEAWAY_PROG_def
  LOCO_READ_ID_PROG_def LOCO_READ_CONSIST_PROG_def SHORT_LOCO_ID_PROG_def CONSIST_ID_PROG_def
  LONG_LOCO_ID_PROG_def

lemma programs_ok: "p \<in> programs \<Longrightarrow> prog_ok p"
  unfolding programs_def
  by (elim insertE emptyE; hypsubst; simp add: prog_defs op_classes is_target)

text \<open>
  The programming track never has a packet waiting while it has sent resets: that is why the
  packet instructions, which wait for resets first, do not block in \<open>schedulePacket\<close>.
\<close>

definition prog_track_ok :: "track \<Rightarrow> bool" where
  "prog_track_ok t \<longleftrightarrow> wf_track t \<and> (packetPending t \<longrightarrow> getResets t = 0)"

definition ack_inv :: "ack \<Rightarrow> bool" where
  "ack_inv a \<longleftrightarrow> prog_track_ok (ackTrack a) \<and>
     (\<forall>p. ackManagerProg a = Some p \<longrightarrow> prog_ok p \<and> prog_ok (ackManagerProgStart a))"


definition blank_ack :: "track \<Rightarrow> ack" where
  "blank_ack t = \<lparr>ackManagerProg = None, ackManagerProgStart = [], ackManagerByte = 0,
     ackManagerByteVerify = 0, ackManagerStash = 0, ackManagerWord = 0, ackManagerRetry = 0,
     ackRetry = 2, ackRetrySum = 0, ackRetryPSum = 0, ackManagerCv = 0, ackManagerBitNum = 0,
     ackReceived = False, ackManagerRejoin = False, autoPowerOff = False, callbackState = READY,
     callbackStart = 0, ackManagerCallback = 0, ackPending = False, ackDetected = False,
     ackThreshold = 0, ackLimitmA = 50, ackMaxCurrent = 0, ackCheckStart = 0, ackCheckDuration = 0,
     ackPulseDuration = 0, ackPulseStart = 0, minAckPulseDuration = 2000,
     maxAckPulseDuration = 20000, numAckGaps = 0, numAckSamples = 0, trailingEdgeCounter = 0,
     hasProgDriver = False, canMeasureCurrent = False, progPower = POWER_OFF, joined = False,
     ackTrack = t, callbacks = []\<rparr>"

text \<open>What leaves the program and the track alone keeps the invariant.\<close>

lemma ack_inv_cong:
  "ackTrack a' = ackTrack a \<Longrightarrow> ackManagerProg a' = ackManagerProg a \<Longrightarrow>
   ackManagerProgStart a' = ackManagerProgStart a \<Longrightarrow> ack_inv a' = ack_inv a"
  by (simp add: ack_inv_def split: option.split)

lemma track_ok_clear [simp]:
  "prog_track_ok t \<Longrightarrow> prog_track_ok (clearResets t)" "prog_track_ok t \<Longrightarrow> prog_track_ok (clearRepeats t)"
  by (simp_all add: prog_track_ok_def wf_track_def clearResets_def clearRepeats_def getResets_def)

lemma interrupt2_pending:
  "packetPending t \<longrightarrow> getResets t = 0 \<Longrightarrow> packetPending (interrupt2 t) \<longrightarrow> getResets (interrupt2 t) = 0"
  by (auto simp: interrupt2_def Let_def promotePendingPacket_def clearResets_def getResets_def split: if_splits)

lemma track_ok_interrupt: "prog_track_ok t \<Longrightarrow> prog_track_ok (fst (trackInterrupt t))"
  using interrupt2_pending [of "t\<lparr>wstate := WAVE_PENDING\<rparr>"]
  by (auto simp: prog_track_ok_def trackInterrupt_def wf_wstate wf_interrupt2 Let_def getResets_def)

lemma track_ok_schedule:
  assumes "prog_track_ok t" "getResets t \<noteq> 0" "length m \<le> MAX_PACKET_SIZE" "n < 256"
  shows "\<exists>t'. schedulePacket m (length m) n t = Some t' \<and> prog_track_ok t' \<and> packetPending t' \<and>
    take (pendingLength t' - 1) (pendingPacket t') = m"
proof -
  have "\<not> packetPending t" "wf_track t" using assms by (auto simp: prog_track_ok_def)
  moreover from this have "length (pendingPacket t) = MAX_PACKET_SIZE + 1" by (simp add: wf_track_def)
  ultimately obtain t' where t': "schedulePacket m (length m) n t = Some t'"
    and "getResets t' = 0" "packetPending t'" "take (pendingLength t' - 1) (pendingPacket t') = m"
    using assms(3) by (auto simp: schedulePacket_def Let_def getResets_def clearResets_def memcpy_into_def)
  then show ?thesis using wf_schedulePacket [OF \<open>wf_track t\<close> _ assms(4) t'] by (auto simp: prog_track_ok_def)
qed

lemma setPower_parts [simp]:
  "ackManagerProg (setPower m a) = ackManagerProg a"
  "ackManagerProgStart (setPower m a) = ackManagerProgStart a"
  "prog_track_ok (ackTrack a) \<Longrightarrow> prog_track_ok (ackTrack (setPower m a))"
  by (simp_all add: setPower_def Let_def)

lemma callback_inv: "ack_inv a \<Longrightarrow> ackManagerProg a \<noteq> None \<Longrightarrow> ack_inv (callback io v a)"
  by (auto simp: callback_def ack_inv_def call_back_def Let_def split: CALLBACK_STATE.split)

section \<open>The loop returns\<close>

text \<open>What a turn of the loop may do: stay inside a checked program.\<close>

definition step_ok :: "ack_result \<Rightarrow> bool" where
  "step_ok r = (case r of Fault \<Rightarrow> False | Go a \<Rightarrow> ack_inv (next_op a) \<and> ackManagerProg a \<noteq> None | Yield a \<Rightarrow> ack_inv a)"

lemma step_ok_send:
  assumes "ack_inv a" "ackManagerProg a = Some (x # p)" "prog_ok p" "length m = 3"
    and f: "\<And>b. ackTrack (f b) = ackTrack b \<and> ackManagerProg (f b) = ackManagerProg b \<and> ackManagerProgStart (f b) = ackManagerProgStart b"
  shows "step_ok (send io m f a)"
proof (cases "checkResets RESET_MIN a")
  case True
  then show ?thesis using assms(1) by (simp add: send_def step_ok_def)
next
  case False
  then have "getResets (ackTrack a) \<noteq> 0" "prog_track_ok (ackTrack a)" "prog_ok (ackManagerProgStart a)"
    using assms(1,2) by (simp_all add: checkResets_def RESET_MIN_def ack_inv_def)
  then obtain t' where "schedulePacket m (length m) PROG_REPEATS (ackTrack a) = Some t'" "prog_track_ok t'"
    using track_ok_schedule [of "ackTrack a" m PROG_REPEATS] assms(4)
    by (auto simp: MAX_PACKET_SIZE_def PROG_REPEATS_def)
  then show ?thesis
    using False assms(2,3) \<open>prog_ok (ackManagerProgStart a)\<close>
    by (simp add: send_def step_ok_def ack_inv_def next_op_def f setAckPending_def)
qed

lemma step_ok_call: "ack_inv a \<Longrightarrow> ackManagerProg a = Some (x # p) \<Longrightarrow> c \<or> prog_ok p \<Longrightarrow> step_ok (call_if c io v a)"
  using callback_inv [of a io v] by (auto simp: call_if_def step_ok_def ack_inv_def next_op_def)

lemma step_ok_skip:
  "ack_inv a \<Longrightarrow> ackManagerProg a = Some (x # p) \<Longrightarrow> prog_ok p \<Longrightarrow> skip_target p \<noteq> [] \<Longrightarrow> prog_ok (tl (skip_target p)) \<Longrightarrow>
   step_ok (skip_if c a p)"
  by (auto simp: skip_if_def step_ok_def ack_inv_def next_op_def skip_target_def split: list.split)

lemma step_ok_go: "ack_inv a \<Longrightarrow> ackManagerProg a = Some (x # p) \<Longrightarrow> prog_ok p \<Longrightarrow>
  ackTrack a' = ackTrack a \<Longrightarrow> ackManagerProg a' = ackManagerProg a \<Longrightarrow> ackManagerProgStart a' = ackManagerProgStart a \<Longrightarrow> step_ok (Go a')"
  by (simp add: step_ok_def ack_inv_def next_op_def)

lemma step_ok_operand:
  "ack_inv a \<Longrightarrow> ackManagerProg a = Some (x # p) \<Longrightarrow> p \<noteq> [] \<Longrightarrow> prog_ok (tl p) \<Longrightarrow>
   (\<And>b c. ackTrack (f b c) = ackTrack c \<and> ackManagerProg (f b c) = ackManagerProg c \<and> ackManagerProgStart (f b c) = ackManagerProgStart c) \<Longrightarrow>
   step_ok (operand f p a)"
  by (cases p) (simp_all add: operand_def step_ok_def ack_inv_def next_op_def)

lemma exec_op_ok:
  assumes inv: "ack_inv a" and p: "ackManagerProg a = Some (y # p)" and x: "x = opcode y"
  shows "step_ok (exec_op x p io a)"
proof -
  have ok: "prog_ok (y # p)" using inv p by (simp add: ack_inv_def)
  note go = step_ok_go [OF inv p] and skip = step_ok_skip [OF inv p] and send = step_ok_send [OF inv p]
    and operand = step_ok_operand [OF inv p]
  have call: "step_ok (call_if c io v a')" if "c \<or> prog_ok p" "ackTrack a' = ackTrack a"
    "ackManagerProg a' = ackManagerProg a" "ackManagerProgStart a' = ackManagerProgStart a" for c v a'
    using step_ok_call [of a' y p c io v] that inv p ack_inv_cong [of a' a] by simp
  have yield: "step_ok (Yield a)" using inv by (simp add: step_ok_def)
  show ?thesis
    using ok [unfolded prog_ok.simps, folded x] skip_target_ok [of p]
    by (cases x) (simp_all add: op_classes go skip send operand call yield Let_def bit_message_def
        byte_message_def setAckBaseline_def)
qed

lemma ack_step_ok: "ack_inv a \<Longrightarrow> case ack_step io a of Fault \<Rightarrow> False | Go a' \<Rightarrow> ack_inv a' | Yield a' \<Rightarrow> ack_inv a'"
proof (cases "ackManagerProg a")
  case (Some p)
  assume inv: "ack_inv a"
  then obtain y q where p: "p = y # q" using Some by (cases p) (simp_all add: ack_inv_def)
  show ?thesis
    using exec_op_ok [OF inv Some [unfolded p] refl, of io] Some p
    by (simp add: ack_step_def step_ok_def split: ack_result.splits)
qed (simp add: ack_step_def)

lemma ack_loop_ok: "ack_inv a \<Longrightarrow> \<exists>a'. ack_loop io a = Some a' \<and> ack_inv a'"
proof (induction io a rule: ack_loop.induct)
  case (1 io a)
  then show ?case
    using ack_step_ok [of a io] by (cases "ack_step io a") (simp_all add: ack_loop.simps [of io a])
qed

lemma Setup_inv: "ack_inv a \<Longrightarrow> p \<in> programs \<Longrightarrow> ack_inv (Setup cv b p f a)"
  by (simp add: Setup_def ack_inv_def call_back_def programs_ok Let_def)

lemma call_back_inv: "ack_inv a \<Longrightarrow> ack_inv (call_back f v a)"
  by (simp add: ack_inv_def call_back_def)

lemma Setup_word_inv: "ack_inv a \<Longrightarrow> p \<in> programs \<Longrightarrow> ack_inv (Setup_word w p f a)"
  unfolding Setup_word_def by (rule Setup_inv) (simp_all add: ack_inv_def)

lemma checkAck_inv: "ack_inv a \<Longrightarrow> ack_inv (checkAck n io a)"
  by (simp add: checkAck_def ack_inv_def Let_def)

section \<open>Reachable states\<close>

text \<open>
  A call that starts a program, a turn of \<^verbatim>\<open>DCCACK::loop\<close>, an interrupt on the programming track
  with its sample, a change of the retry count or of the power, and whatever the track manager
  does to the joined flag and the driver.
\<close>

inductive prog_call :: "(ack \<Rightarrow> ack) \<Rightarrow> bool" where
  "prog_call (writeCVByte cv b f)"
| "prog_call (writeCVBit cv n v f)"
| "prog_call (verifyCVByte cv b f)"
| "prog_call (verifyCVBit cv n v f)"
| "prog_call (readCVBit cv n f)"
| "prog_call (readCV cv f)"
| "prog_call (getDriveawayLocoId f)"
| "prog_call (getLocoId f)"
| "prog_call (getConsistId f)"
| "prog_call (setLocoId ident f)"
| "prog_call (setConsistId ident r f)"

inductive ack_reach :: "ack \<Rightarrow> bool" where
  boot: "ack_reach (blank_ack (newTrack PREAMBLE_BITS_PROG False))"
| call: "ack_reach a \<Longrightarrow> prog_call c \<Longrightarrow> ack_reach (c a)"
| turn: "ack_reach a \<Longrightarrow> ack_loop io a = Some a' \<Longrightarrow> ack_reach a'"
| wave: "ack_reach a \<Longrightarrow> ack_reach (a\<lparr>ackTrack := fst (trackInterrupt (ackTrack a))\<rparr>)"
| sample: "ack_reach a \<Longrightarrow> ack_reach (checkAck (getResets (ackTrack a)) io a)"
| retry: "ack_reach a \<Longrightarrow> ack_reach (snd (setAckRetry n a))"
| limits: "ack_reach a \<Longrightarrow> ack_reach (a\<lparr>ackLimitmA := l, minAckPulseDuration := d, maxAckPulseDuration := e\<rparr>)"
| power: "ack_reach a \<Longrightarrow> ack_reach (setPower m a)"
| tracks: "ack_reach a \<Longrightarrow> ack_reach (a\<lparr>joined := j, hasProgDriver := h, canMeasureCurrent := m\<rparr>)"

lemma prog_call_inv: "prog_call c \<Longrightarrow> ack_inv a \<Longrightarrow> ack_inv (c a)"
  by (erule prog_call.cases)
    (simp_all add: writeCVByte_def writeCVBit_def verifyCVByte_def verifyCVBit_def readCVBit_def readCV_def
      getDriveawayLocoId_def getLocoId_def getConsistId_def setLocoId_def setConsistId_def
      Setup_inv Setup_word_inv call_back_inv programs_def split: prod.split)

lemma ack_reach_inv: "ack_reach a \<Longrightarrow> ack_inv a"
proof (induction rule: ack_reach.induct)
  case boot
  show ?case
    by (simp add: ack_inv_def blank_ack_def prog_track_ok_def wf_newTrack PREAMBLE_BITS_PROG_def)
      (simp add: newTrack_def)
next
  case (turn a io a')
  then show ?case using ack_loop_ok [of a io] by auto
next
  case (wave a)
  then show ?case by (simp add: ack_inv_def track_ok_interrupt)
next
  case (power a m)
  then show ?case by (simp add: ack_inv_def)
next
  case (call a c)
  then show ?case by (rule_tac prog_call_inv)
next
  case (sample a io)
  then show ?case by (rule_tac checkAck_inv)
qed (simp_all add: setAckRetry_def ack_inv_def)

end
