(* ===== verification/AckSession.thy ===== *)
theory AckSession
  imports AckProgs
begin

text \<open>
  What the programs compute. \<open>run_prog\<close> is the meaning of a program: a run over the registers of
  the machine in which every packet gets the answer of the decoder at once. \<open>inevitable\<close> says
  that the machine of theory AckManager comes to a state, whatever the clock and the current
  readings of each loop turn are, when between two turns the programming track does its part:
  it settles an acknowledgement window with the decoder's answer to the packet sent and sends
  enough resets (\<open>settles\<close>). \<open>machine_runs\<close> joins the two: what \<open>run_prog\<close> computes the machine
  calls back.

  The decoder on the track is a parameter: \<open>answer\<close> maps a service-mode packet and the decoder's
  state to acknowledgement and new state. \<open>service_decoder\<close> states what the NMRA direct mode
  (S-9.2.3) asks of it. An acknowledgement of a write is left open, as the programs do.
\<close>

section \<open>The meaning of a program\<close>

record regs =
  r_cv :: int
  r_byte :: byte
  r_verify :: byte
  r_bit :: byte
  r_stash :: byte
  r_word :: int
  r_ack :: bool

definition regs_of :: "ack \<Rightarrow> regs" where
  "regs_of a = \<lparr>r_cv = ackManagerCv a, r_byte = ackManagerByte a, r_verify = ackManagerByteVerify a,
     r_bit = ackManagerBitNum a, r_stash = ackManagerStash a, r_word = ackManagerWord a,
     r_ack = ackReceived a\<rparr>"

definition bit_packet :: "byte \<Rightarrow> bool \<Rightarrow> int \<Rightarrow> byte \<Rightarrow> byte list" where
  "bit_packet how on cv b = [cv1 BIT_MANIPULATE cv, cv2 cv, how OR (if on then BIT_ON else BIT_OFF) OR b]"

definition byte_packet :: "byte \<Rightarrow> int \<Rightarrow> byte \<Rightarrow> byte list" where
  "byte_packet how cv v = [cv1 how cv, cv2 cv, v]"

fun packet_of :: "ackOp \<Rightarrow> regs \<Rightarrow> byte list option" where
  "packet_of W0 r = Some (bit_packet WRITE_BIT False (r_cv r) (r_bit r))"
| "packet_of W1 r = Some (bit_packet WRITE_BIT True (r_cv r) (r_bit r))"
| "packet_of WB r = Some (byte_packet WRITE_BYTE (r_cv r) (r_byte r))"
| "packet_of VB r = Some (byte_packet VERIFY_BYTE (r_cv r) (r_byte r))"
| "packet_of V0 r = Some (bit_packet VERIFY_BIT False (r_cv r) (r_bit r))"
| "packet_of V1 r = Some (bit_packet VERIFY_BIT True (r_cv r) (r_bit r))"
| "packet_of _ r = None"

fun result_of :: "ackOp \<Rightarrow> regs \<Rightarrow> int option" where
  "result_of ITC0 r = (if r_ack r then Some 0 else None)"
| "result_of ITC1 r = (if r_ack r then Some 1 else None)"
| "result_of ITCB r = (if r_ack r then Some (uint (r_byte r)) else None)"
| "result_of ITCBV r = (if r_ack r then Some (uint (r_byte r)) else None)"
| "result_of ITCB7 r = (if r_ack r then Some (uint (r_byte r AND 0x7F)) else None)"
| "result_of NAKFAIL r = (if r_ack r then None else Some (-1))"
| "result_of CALLFAIL r = Some (-1)"
| "result_of COMBINELOCOID r = Some (LONG_ADDR_MARKER OR (uint (r_byte r) + (uint (r_stash r) - 192) * 256))"
| "result_of COMBINE1920 r = Some (uint (r_stash r) * 100 + uint ((r_byte r AND 0x7F) mod 100))"
| "result_of FAIL_IF_NONZERO_NAK r = (if r_byte r = 0 then None else Some (-4))"
| "result_of (ackOp_of b) r = Some (-1)"
| "result_of _ r = None"

fun skips :: "ackOp \<Rightarrow> regs \<Rightarrow> bool" where
  "skips ITSKIP r \<longleftrightarrow> r_ack r"
| "skips NAKSKIP r \<longleftrightarrow> \<not> r_ack r"
| "skips BAD20SKIP r \<longleftrightarrow> r_byte r > 120"
| "skips _ r \<longleftrightarrow> False"

fun put_operand :: "ackOp \<Rightarrow> byte \<Rightarrow> regs \<Rightarrow> regs" where
  "put_operand SETBIT b r = r\<lparr>r_bit := b\<rparr>"
| "put_operand SETCV b r = r\<lparr>r_cv := uint b\<rparr>"
| "put_operand _ b r = r\<lparr>r_byte := b\<rparr>"

fun effect :: "ackOp \<Rightarrow> regs \<Rightarrow> regs" where
  "effect BIV r = r\<lparr>r_byte := r_verify r\<rparr>"
| "effect STARTMERGE r = r\<lparr>r_bit := 7, r_byte := 0\<rparr>"
| "effect MERGE r = r\<lparr>r_byte := push_bit 1 (r_byte r) OR (if r_ack r then 0 else 1), r_bit := r_bit r - 1\<rparr>"
| "effect SETBYTEH r = r\<lparr>r_byte := highByte (word_of_int (r_word r) :: u16)\<rparr>"
| "effect SETBYTEL r = r\<lparr>r_byte := lowByte (word_of_int (r_word r) :: u16)\<rparr>"
| "effect STASHLOCOID r = r\<lparr>r_stash := r_byte r\<rparr>"
| "effect _ r = r"

lemma length_skip_target: "length (skip_target p) \<le> length p"
  by (simp add: skip_target_def length_dropWhile_le)

function run_prog :: "(byte list \<Rightarrow> 'd \<Rightarrow> bool \<times> 'd) \<Rightarrow> ackOp list \<Rightarrow> regs \<Rightarrow> 'd \<Rightarrow> (int \<times> regs \<times> 'd) option" where
  "run_prog answer [] r d = None"
| "run_prog answer (y # p) r d =
    (let x = opcode y in
     case result_of x r of
       Some v \<Rightarrow> Some (v, r, d)
     | None \<Rightarrow>
        case packet_of x r of
          Some m \<Rightarrow>
            (let (k, d') = answer m d
             in if p \<noteq> [] \<and> opcode (hd p) = WACK then run_prog answer (tl p) (r\<lparr>r_ack := k\<rparr>) d' else None)
        | None \<Rightarrow>
            if x = WACK then None
            else if skips x r then
              (if skip_target p \<noteq> [] then run_prog answer (tl (skip_target p)) r d else None)
            else if takes_operand x then
              (if p \<noteq> [] then run_prog answer (tl p) (put_operand x (flash_byte (hd p)) r) d else None)
            else run_prog answer p (effect x r) d)"
  by pat_completeness auto
termination
  using length_skip_target
  by (relation "measure (\<lambda>(answer, p, r, d). length p)") (simp_all add: less_Suc_eq_le le_diff_conv le_SucI)

text \<open>The retries of \<^verbatim>\<open>DCCACK::callback\<close>: a program that fails starts again with the registers it left.\<close>

fun run_retries :: "(byte list \<Rightarrow> 'd \<Rightarrow> bool \<times> 'd) \<Rightarrow> ackOp list \<Rightarrow> nat \<Rightarrow> regs \<Rightarrow> 'd \<Rightarrow> (int \<times> 'd) option" where
  "run_retries answer p n r d =
    (case run_prog answer p r d of
       None \<Rightarrow> None
     | Some (v, r', d') \<Rightarrow>
         if v = -1 then (case n of 0 \<Rightarrow> Some (v, d') | Suc m \<Rightarrow> run_retries answer p m r' d') else Some (v, d'))"


section \<open>Sessions on the programming track\<close>

definition sent_packet :: "ack \<Rightarrow> byte list" where
  "sent_packet a = take (pendingLength (ackTrack a) - 1) (pendingPacket (ackTrack a))"

definition settles :: "(byte list \<Rightarrow> 'd \<Rightarrow> bool \<times> 'd) \<Rightarrow> ack \<Rightarrow> 'd \<Rightarrow> ack \<Rightarrow> 'd \<Rightarrow> bool" where
  "settles answer a d a' d' \<longleftrightarrow>
    (\<exists>t det cd pd ps mc ng ns te.
       a' = a\<lparr>ackTrack := t, ackPending := False, ackDetected := det, ackCheckDuration := cd,
              ackPulseDuration := pd, ackPulseStart := ps, ackMaxCurrent := mc, numAckGaps := ng,
              numAckSamples := ns, trailingEdgeCounter := te\<rparr> \<and>
       wf_track t \<and> \<not> packetPending t \<and> 20 \<le> getResets t) \<and>
    (if ackPending a then answer (sent_packet a) d = (ackDetected a', d')
     else d' = d \<and> ackDetected a' = ackDetected a)"

inductive inevitable :: "(byte list \<Rightarrow> 'd \<Rightarrow> bool \<times> 'd) \<Rightarrow> (ack \<Rightarrow> 'd \<Rightarrow> bool) \<Rightarrow> ack \<Rightarrow> 'd \<Rightarrow> bool"
  for answer Q where
  now: "Q a d \<Longrightarrow> inevitable answer Q a d"
| later: "(\<And>io. \<exists>a1. ack_loop io a = Some a1 \<and>
      (\<forall>a' d'. settles answer a1 d a' d' \<longrightarrow> inevitable answer Q a' d')) \<Longrightarrow> inevitable answer Q a d"

definition leads :: "(byte list \<Rightarrow> 'd \<Rightarrow> bool \<times> 'd) \<Rightarrow> (ack \<Rightarrow> 'd \<Rightarrow> bool) \<Rightarrow> ack_io \<Rightarrow> ack \<Rightarrow> 'd \<Rightarrow> bool" where
  "leads answer Q io a d \<longleftrightarrow>
    (\<exists>a1. ack_loop io a = Some a1 \<and> (\<forall>a' d'. settles answer a1 d a' d' \<longrightarrow> inevitable answer Q a' d'))"

lemma leads_inevitable: "(\<And>io. leads answer Q io a d) \<Longrightarrow> inevitable answer Q a d"
  unfolding leads_def by (rule inevitable.later)

lemma leads_Go: "ack_step io a = Go a1 \<Longrightarrow> leads answer Q io a1 d \<Longrightarrow> leads answer Q io a d"
  by (simp add: leads_def ack_loop.simps [of io a])

lemma leads_Yield: "ack_step io a = Yield a1 \<Longrightarrow>
  (\<And>a' d'. settles answer a1 d a' d' \<Longrightarrow> inevitable answer Q a' d') \<Longrightarrow> leads answer Q io a d"
  by (simp add: leads_def ack_loop.simps [of io a])

text \<open>The decoder always finds a way on: every state can settle.\<close>

lemma settles_exists: "wf_track (ackTrack a) \<Longrightarrow> \<exists>a' d'. settles answer a d a' d'"
proof -
  assume wf: "wf_track (ackTrack a)"
  define t where "t = (ackTrack a)\<lparr>packetPending := False, sentResetsSincePacket := 20\<rparr>"
  have t: "wf_track t" "\<not> packetPending t" "20 \<le> getResets t"
    using wf by (simp_all add: t_def wf_track_def getResets_def)
  define b where "b k = a\<lparr>ackTrack := t, ackPending := False, ackDetected := k, ackCheckDuration := 0,
     ackPulseDuration := 0, ackPulseStart := 0, ackMaxCurrent := 0, numAckGaps := 0, numAckSamples := 0,
     trailingEdgeCounter := 0\<rparr>" for k
  obtain k d' where k: "if ackPending a then answer (sent_packet a) d = (k, d') else d' = d \<and> k = ackDetected a"
    by (metis surj_pair)
  then have "settles answer a d (b k) d'"
    unfolding settles_def b_def using t by (intro conjI exI) (rule refl | simp)+
  then show ?thesis by blast
qed

section \<open>The machine does what the program means\<close>

text \<open>
  A session on a powered programming track that is not joined to the main track: then a callback
  needs no waiting times. \<open>tag\<close> is what a run leaves alone.
\<close>

definition mode_ok :: "ack \<Rightarrow> bool" where
  "mode_ok a \<longleftrightarrow> hasProgDriver a \<and> canMeasureCurrent a \<and> progPower a \<noteq> POWER_OFF \<and>
     progPower a \<noteq> POWER_OVERLOAD \<and> \<not> joined a \<and> \<not> ackManagerRejoin a \<and> \<not> autoPowerOff a \<and>
     callbackState a \<noteq> WAITING_100 \<and> callbackState a \<noteq> WAITING_30"

definition session_ok :: "ack \<Rightarrow> bool" where
  "session_ok a \<longleftrightarrow> mode_ok a \<and> \<not> ackPending a \<and> 20 \<le> getResets (ackTrack a) \<and>
     \<not> packetPending (ackTrack a) \<and> wf_track (ackTrack a)"

definition tag :: "ack \<Rightarrow> byte \<times> ackOp list \<times> (nat \<times> int) list \<times> nat" where
  "tag a = (ackManagerRetry a, ackManagerProgStart a, callbacks a, ackManagerCallback a)"

lemmas session_defs = session_ok_def mode_ok_def tag_def regs_of_def

lemma settles_session:
  "settles answer a d a' d' \<Longrightarrow> mode_ok a \<Longrightarrow>
   session_ok a' \<and> regs_of a' = regs_of a \<and> tag a' = tag a \<and> ackManagerProg a' = ackManagerProg a \<and>
   callbackState a' = callbackState a"
  by (auto simp: settles_def session_defs)

lemma settles_frame:
  "settles answer a d a' d' \<Longrightarrow> callbacks a' = callbacks a \<and> ackManagerProg a' = ackManagerProg a \<and>
     joined a' = joined a \<and> progPower a' = progPower a"
  by (auto simp: settles_def)

lemma plain_step:
  assumes "session_ok a" "ackManagerProg a = Some (y # p)" "x = opcode y"
    "result_of x (regs_of a) = None" "packet_of x (regs_of a) = None" "x \<noteq> WACK"
    "\<not> skips x (regs_of a)" "\<not> takes_operand x"
  shows "\<exists>a1. ack_step io a = Go a1 \<and> session_ok a1 \<and> regs_of a1 = effect x (regs_of a) \<and>
    ackManagerProg a1 = Some p \<and> tag a1 = tag a"
proof -
  have "\<exists>b. exec_op x p io a = Go b \<and> session_ok b \<and> regs_of b = effect x (regs_of a) \<and>
    ackManagerProg b = Some (y # p) \<and> tag b = tag a"
    using assms(1,2,4-) by (cases x) (auto simp: call_if_def skip_if_def session_defs op_classes setAckBaseline_def
      checkResets_def split: if_splits)
  then obtain b where "exec_op x p io a = Go b" "session_ok b" "regs_of b = effect x (regs_of a)"
    "ackManagerProg b = Some (y # p)" "tag b = tag a" by blast
  then show ?thesis
    using assms(2,3) by (auto simp: ack_step_def next_op_def session_defs)
qed

lemma operand_step:
  assumes "session_ok a" "ackManagerProg a = Some (y # z # p)" "takes_operand (opcode y)"
  shows "\<exists>a1. ack_step io a = Go a1 \<and> session_ok a1 \<and>
    regs_of a1 = put_operand (opcode y) (flash_byte z) (regs_of a) \<and> ackManagerProg a1 = Some p \<and> tag a1 = tag a"
  using assms by (auto simp: op_classes ack_step_def operand_def next_op_def session_defs)

lemma skip_step:
  assumes "session_ok a" "ackManagerProg a = Some (y # p)" "skips (opcode y) (regs_of a)" "skip_target p \<noteq> []"
  shows "\<exists>a1. ack_step io a = Go a1 \<and> session_ok a1 \<and> regs_of a1 = regs_of a \<and>
    ackManagerProg a1 = Some (tl (skip_target p)) \<and> tag a1 = tag a"
proof -
  obtain z q where q: "dropWhile (\<lambda>x. flash_byte x \<noteq> 0xFF) p = z # q"
    using assms(4) by (cases "skip_target p") (auto simp: skip_target_def)
  have "exec_op (opcode y) p io a = Go (a\<lparr>ackManagerProg := Some (z # q)\<rparr>)"
    using assms(3) q by (cases "opcode y") (simp_all add: skip_if_def regs_of_def)
  then show ?thesis
    using assms(1,2) q by (simp add: ack_step_def next_op_def skip_target_def session_defs)
qed

lemma packet_step:
  assumes "session_ok a" "ackManagerProg a = Some (y # p)" "packet_of (opcode y) (regs_of a) = Some m"
  shows "\<exists>a1. ack_step io a = Go a1 \<and> mode_ok a1 \<and> ackPending a1 \<and> sent_packet a1 = m \<and>
    regs_of a1 = regs_of a \<and> ackManagerProg a1 = Some p \<and> tag a1 = tag a"
proof -
  let ?x = "opcode y"
  have "length m \<le> MAX_PACKET_SIZE"
    using assms(3) by (cases ?x) (auto simp: bit_packet_def byte_packet_def MAX_PACKET_SIZE_def)
  then obtain t where t: "schedulePacket m (length m) PROG_REPEATS (ackTrack a) = Some t"
      "take (pendingLength t - 1) (pendingPacket t) = m"
    using track_ok_schedule [of "ackTrack a" m PROG_REPEATS] assms(1)
    by (auto simp: PROG_REPEATS_def session_ok_def prog_track_ok_def)
  have res: "\<not> checkResets RESET_MIN a" using assms(1) by (simp add: session_ok_def checkResets_def RESET_MIN_def)
  have "\<exists>f. exec_op ?x p io a = Go (f (setAckPending io (a\<lparr>ackTrack := t\<rparr>))) \<and>
      (f = (\<lambda>a. a) \<or> f = callbackState_update (\<lambda>_. AFTER_WRITE))"
    using assms(3) t(1) res
    by (cases ?x) (auto simp: send_def bit_message_def byte_message_def bit_packet_def byte_packet_def regs_of_def
      intro: exI [where x = "\<lambda>a. a"] exI [where x = "callbackState_update (\<lambda>_. AFTER_WRITE)"])
  then show ?thesis
    using assms(1,2) t(2)
    by (auto simp: ack_step_def next_op_def setAckPending_def session_defs sent_packet_def)
qed

lemma wack_wait: "ackPending a \<Longrightarrow> ackManagerProg a = Some (y # p) \<Longrightarrow> opcode y = WACK \<Longrightarrow> ack_step io a = Yield a"
  by (simp add: ack_step_def getAck_def)

lemma wack_step:
  "session_ok a \<Longrightarrow> ackManagerProg a = Some (y # p) \<Longrightarrow> opcode y = WACK \<Longrightarrow>
   \<exists>a1. ack_step io a = Go a1 \<and> session_ok a1 \<and> regs_of a1 = (regs_of a)\<lparr>r_ack := ackDetected a\<rparr> \<and>
     ackManagerProg a1 = Some p \<and> tag a1 = tag a"
  by (auto simp: ack_step_def getAck_def next_op_def session_defs)


text \<open>A run comes to the instruction that calls back, with the registers \<open>run_prog\<close> computes.\<close>

definition at_result :: "int \<Rightarrow> ack \<Rightarrow> bool" where
  "at_result v a \<longleftrightarrow> (\<exists>y p. ackManagerProg a = Some (y # p) \<and> result_of (opcode y) (regs_of a) = Some v)"

lemma run_to_result:
  assumes "run_prog answer p r d = Some (v, r', d')" "session_ok a" "regs_of a = r" "ackManagerProg a = Some p"
    and goal: "\<And>b io. session_ok b \<Longrightarrow> at_result v b \<Longrightarrow> regs_of b = r' \<Longrightarrow> tag b = tag a \<Longrightarrow> leads answer Q io b d'"
  shows "leads answer Q io a d"
  using assms
proof (induction answer p r d arbitrary: a io rule: run_prog.induct)
  case (1 answer r d)
  then show ?case by simp
next
  case (2 answer y p r d)
  let ?x = "opcode y"
  note ok = \<open>session_ok a\<close> and r = \<open>regs_of a = r\<close> and prog = \<open>ackManagerProg a = Some (y # p)\<close>
    and run = \<open>run_prog answer (y # p) r d = Some (v, r', d')\<close>
  show ?case
  proof (cases "result_of ?x r")
    case (Some w)
    then have "at_result v a" "r' = r" "d' = d" using run r prog by (simp_all add: at_result_def)
    then show ?thesis using "2.prems"(5) [of a] ok r by simp
  next
    case res: None
    show ?thesis
    proof (cases "packet_of ?x r")
      case (Some m)
      obtain k d1 where k: "answer m d = (k, d1)" by (cases "answer m d")
      obtain z q where p: "p = z # q" and z: "opcode z = WACK"
        and run': "run_prog answer q (r\<lparr>r_ack := k\<rparr>) d1 = Some (v, r', d')"
        using run res Some k by (cases p) (auto split: if_splits)
      obtain a1 where a1: "ack_step io a = Go a1" "mode_ok a1" "ackPending a1" "sent_packet a1 = m"
          "regs_of a1 = r" "ackManagerProg a1 = Some (z # q)" "tag a1 = tag a"
        using packet_step [OF ok prog, of m io] Some r p by auto
      have "inevitable answer Q a2 d2" if s: "settles answer a1 d a2 d2" for a2 d2
      proof (rule leads_inevitable)
        fix io'
        have a2: "session_ok a2" "regs_of a2 = r" "tag a2 = tag a" "ackManagerProg a2 = Some (z # q)"
          "ackDetected a2 = k" "d2 = d1"
          using settles_session [OF s a1(2)] a1(3-7) s k by (simp_all add: settles_def)
        obtain a3 where "ack_step io' a2 = Go a3" "session_ok a3" "regs_of a3 = r\<lparr>r_ack := k\<rparr>"
            "ackManagerProg a3 = Some q" "tag a3 = tag a"
          using wack_step [OF a2(1,4) z, of io'] a2 by auto
        moreover have "leads answer Q io' a3 d1"
          using "2.IH"(4) [OF refl res Some k [symmetric] refl, of a3 io'] p z run' calculation "2.prems"(5) by simp
        ultimately show "leads answer Q io' a2 d2" using a2(6) by (blast intro: leads_Go)
      qed
      then have "leads answer Q io a1 d"
        using wack_wait [OF a1(3,6) z] by (blast intro: leads_Yield)
      with a1(1) show ?thesis by (rule leads_Go)
    next
      case pk: None
      note IH = "2.IH"(1-3) [OF refl res pk]
      have "?x \<noteq> WACK" using run res pk by auto
      consider (skip) "skips ?x r" | (operand) "\<not> skips ?x r" "takes_operand ?x"
        | (plain) "\<not> skips ?x r" "\<not> takes_operand ?x" by blast
      then show ?thesis
      proof cases
        case skip
        then have t: "skip_target p \<noteq> []" "run_prog answer (tl (skip_target p)) r d = Some (v, r', d')"
          using run res pk \<open>?x \<noteq> WACK\<close> by (auto split: if_splits)
        obtain a1 where a1: "ack_step io a = Go a1" "session_ok a1" "regs_of a1 = r"
            "ackManagerProg a1 = Some (tl (skip_target p))" "tag a1 = tag a"
          using skip_step [OF ok prog _ t(1), of io] skip r by auto
        then have "leads answer Q io a1 d"
          using IH(1) [OF \<open>?x \<noteq> WACK\<close> skip t(1), of a1 io] t "2.prems"(5) by simp
        with a1(1) show ?thesis by (rule leads_Go)
      next
        case operand
        obtain z q where p: "p = z # q"
          and run': "run_prog answer q (put_operand ?x (flash_byte z) r) d = Some (v, r', d')"
          using run res pk \<open>?x \<noteq> WACK\<close> operand by (cases p) (auto split: if_splits)
        obtain a1 where a1: "ack_step io a = Go a1" "session_ok a1"
            "regs_of a1 = put_operand ?x (flash_byte z) r" "ackManagerProg a1 = Some q" "tag a1 = tag a"
          using operand_step [OF ok prog [unfolded p], of io] operand r by auto
        then have "leads answer Q io a1 d"
          using IH(2) [OF \<open>?x \<noteq> WACK\<close> operand, of a1 io] p run' "2.prems"(5) by simp
        with a1(1) show ?thesis by (rule leads_Go)
      next
        case plain
        have run': "run_prog answer p (effect ?x r) d = Some (v, r', d')"
          using run res pk \<open>?x \<noteq> WACK\<close> plain by auto
        obtain a1 where a1: "ack_step io a = Go a1" "session_ok a1"
            "regs_of a1 = effect ?x r" "ackManagerProg a1 = Some p" "tag a1 = tag a"
          using plain_step [OF ok prog refl, of io] res pk plain r \<open>?x \<noteq> WACK\<close> by auto
        then have "leads answer Q io a1 d"
          using IH(3) [OF \<open>?x \<noteq> WACK\<close> plain, of a1 io] run' "2.prems"(5) by simp
        with a1(1) show ?thesis by (rule leads_Go)
      qed
    qed
  qed
qed

section \<open>Callbacks and retries\<close>

lemma result_step:
  assumes "ackManagerProg a = Some (y # p)" "result_of (opcode y) (regs_of a) = Some v"
  shows "\<exists>b s. ack_step io a = Yield (callback io v (a\<lparr>ackManagerByte := b, ackRetrySum := s\<rparr>)) \<and>
    result_of (opcode y) ((regs_of a)\<lparr>r_byte := b\<rparr>) = Some v \<and> (v = -1 \<longrightarrow> b = ackManagerByte a)"
proof -
  have idem: "((b AND 0x7F) mod 100 AND 0x7F) mod 100 = (b AND 0x7F) mod 100" for b :: byte
  proof -
    have "uint ((b AND 0x7F) mod 100) < 100" by (simp add: uint_mod)
    then show ?thesis by (simp add: word_uint_eq_iff uint_mod and_7F)
  qed
  show ?thesis
  proof (cases "opcode y = COMBINE1920 \<or> opcode y = ITCBV")
    case False
    then have "ack_step io a = Yield (callback io v a) \<and> a = a\<lparr>ackManagerByte := ackManagerByte a, ackRetrySum := ackRetrySum a\<rparr>"
      using assms by (cases "opcode y") (auto simp: ack_step_def call_if_def regs_of_def combined_loco_def split: if_splits)
    then show ?thesis using assms(2)
      by (intro exI [where x = "ackManagerByte a"] exI [where x = "ackRetrySum a"]) (simp add: regs_of_def)
  next
    case True
    then show ?thesis
    proof
      assume y: "opcode y = COMBINE1920"
      then have "ack_step io a = Yield (callback io v (a\<lparr>ackManagerByte := (ackManagerByte a AND 0x7F) mod 100,
          ackRetrySum := ackRetrySum a\<rparr>))"
        using assms by (simp add: ack_step_def call_if_def regs_of_def Let_def)
      moreover have "0 \<le> v" using assms(2) y by auto
      ultimately show ?thesis using assms(2) y idem [of "ackManagerByte a"]
        by (intro exI [where x = "(ackManagerByte a AND 0x7F) mod 100"] exI [where x = "ackRetrySum a"])
          (simp add: regs_of_def)
    next
      assume y: "opcode y = ITCBV"
      then have "ack_step io a = Yield (callback io v (a\<lparr>ackManagerByte := ackManagerByte a,
          ackRetrySum := (if ackManagerByte a = ackManagerByteVerify a then ackRetrySum a + 1 else ackRetrySum a)\<rparr>))"
        using assms by (auto simp: ack_step_def call_if_def regs_of_def split: if_splits)
      then show ?thesis using assms(2) y by (intro exI conjI) (assumption | simp add: regs_of_def)+
    qed
  qed
qed

definition called_back :: "ack \<Rightarrow> int \<Rightarrow> 'd \<Rightarrow> ack \<Rightarrow> 'd \<Rightarrow> bool" where
  "called_back a v d' b d \<longleftrightarrow> session_ok b \<and> ackManagerProg b = None \<and> d = d' \<and>
     callbacks b = callbacks a @ [(ackManagerCallback a, sint (word_of_int v :: u16))]"

lemma result_called_back:
  assumes "session_ok b" "at_result v b" "tag b = tag a" "v \<noteq> -1 \<or> ackManagerRetry a = 0"
  shows "leads answer (called_back a v d) io b d"
proof -
  have ready: "leads answer (called_back a v d) io c d"
    if c: "session_ok c" "at_result v c" "tag c = tag a" "callbackState c = READY" for c io
  proof -
    obtain y p where y: "ackManagerProg c = Some (y # p)" "result_of (opcode y) (regs_of c) = Some v"
      using c(2) by (auto simp: at_result_def)
    obtain x s where s: "ack_step io c = Yield (callback io v (c\<lparr>ackManagerByte := x, ackRetrySum := s\<rparr>))"
      using result_step [OF y, of io] by blast
    have "callback io v (c\<lparr>ackManagerByte := x, ackRetrySum := s\<rparr>) =
        call_back (ackManagerCallback c) v (c\<lparr>ackManagerByte := x, ackRetrySum := s, ackManagerProg := None\<rparr>)"
      using c assms(4) by (auto simp: callback_def session_defs Let_def)
    with s have st: "ack_step io c = Yield (call_back (ackManagerCallback c) v (c\<lparr>ackManagerByte := x, ackRetrySum := s, ackManagerProg := None\<rparr>))"
      by simp
    show ?thesis
    proof (rule leads_Yield [OF st], rule inevitable.now)
      fix a' d' assume "settles answer (call_back (ackManagerCallback c) v (c\<lparr>ackManagerByte := x, ackRetrySum := s, ackManagerProg := None\<rparr>)) d a' d'"
      from settles_frame [OF this] settles_session [OF this] this show "called_back a v d a' d'"
        using c(1,3) by (auto simp: called_back_def call_back_def session_defs settles_def)
    qed
  qed
  show ?thesis
  proof (cases "callbackState b = READY")
    case True
    then show ?thesis using ready assms by blast
  next
    case False
    obtain y p where y: "ackManagerProg b = Some (y # p)" "result_of (opcode y) (regs_of b) = Some v"
      using assms(2) by (auto simp: at_result_def)
    obtain x s where s: "ack_step io b = Yield (callback io v (b\<lparr>ackManagerByte := x, ackRetrySum := s\<rparr>))"
        "result_of (opcode y) ((regs_of b)\<lparr>r_byte := x\<rparr>) = Some v"
      using result_step [OF y, of io] by blast
    let ?c = "b\<lparr>ackManagerByte := x, ackRetrySum := s, callbackState := READY\<rparr>"
    have "callback io v (b\<lparr>ackManagerByte := x, ackRetrySum := s\<rparr>) = ?c"
      using assms False by (cases "callbackState b") (auto simp: callback_def session_defs Let_def)
    with s(1) have st: "ack_step io b = Yield ?c" by simp
    have c: "mode_ok ?c" "regs_of ?c = (regs_of b)\<lparr>r_byte := x\<rparr>" "tag ?c = tag a"
      using assms(1,3) by (simp_all add: session_defs)
    show ?thesis
    proof (rule leads_Yield [OF st], rule leads_inevitable)
      fix a' d' io' assume st': "settles answer ?c d a' d'"
      note f = settles_session [OF this c(1)]
      have "at_result v a'" unfolding at_result_def
        using f y(1) s(2) c(2) by (intro exI [where x = y] exI [where x = p]) simp
      moreover have "d' = d" using st' assms(1) by (simp add: settles_def session_ok_def)
      ultimately show "leads answer (called_back a v d) io' a' d'" using ready [of a' io'] f c(3) by simp
    qed
  qed
qed

lemma retry_step:
  assumes "session_ok b" "at_result (-1) b" "ackManagerRetry b \<noteq> 0"
  shows "\<exists>s. ack_step io b = Yield (b\<lparr>ackRetrySum := s, ackManagerRetry := ackManagerRetry b - 1,
    ackManagerProg := Some (ackManagerProgStart b)\<rparr>)"
proof -
  obtain y p where y: "ackManagerProg b = Some (y # p)" "result_of (opcode y) (regs_of b) = Some (-1)"
    using assms(2) by (auto simp: at_result_def)
  obtain s where "ack_step io b = Yield (callback io (-1) (b\<lparr>ackManagerByte := ackManagerByte b, ackRetrySum := s\<rparr>))"
    using result_step [OF y, of io] by blast
  then show ?thesis using assms(3) by (auto simp: callback_def word_gt_0)
qed

lemma machine_runs:
  assumes "run_retries answer p n r d = Some (v, d')" "session_ok a" "regs_of a = r"
    "ackManagerProg a = Some p" "ackManagerProgStart a = p" "unat (ackManagerRetry a) = n"
    "callbacks a = cbs" "ackManagerCallback a = f"
  shows "leads answer (\<lambda>b e. session_ok b \<and> ackManagerProg b = None \<and> e = d' \<and> callbacks b = cbs @ [(f, sint (word_of_int v :: u16))]) io a d"
  using assms
proof (induction answer p n r d arbitrary: a io rule: run_retries.induct)
  case (1 answer p n r d)
  let ?Q = "\<lambda>b e. session_ok b \<and> ackManagerProg b = None \<and> e = d' \<and> callbacks b = cbs @ [(f, sint (word_of_int v :: u16))]"
  obtain w r1 d1 where run: "run_prog answer p r d = Some (w, r1, d1)"
    using "1.prems"(1) by (cases "run_prog answer p r d") auto
  show ?case
  proof (rule run_to_result [OF run "1.prems"(2-4)])
    fix b io assume b: "session_ok b" "at_result w b" "regs_of b = r1" "tag b = tag a"
    show "leads answer ?Q io b d1"
    proof (cases "w = -1 \<and> n \<noteq> 0")
      case False
      then have w: "v = w" "d' = d1" using "1.prems"(1) run by (auto split: if_splits nat.splits)
      have "w \<noteq> -1 \<or> ackManagerRetry a = 0" using False "1.prems"(6) by (auto simp: unat_eq_0)
      moreover have "called_back a w d1 = ?Q"
        using w "1.prems"(7,8) by (intro ext) (simp add: called_back_def)
      ultimately show ?thesis using result_called_back [OF b(1,2,4), of answer d1 io] by simp
    next
      case True
      then obtain m where m: "n = Suc m" by (cases n) auto
      have "ackManagerRetry b \<noteq> 0" using b(4) "1.prems"(6) m by (auto simp: tag_def)
      then obtain s where st: "ack_step io b = Yield (b\<lparr>ackRetrySum := s, ackManagerRetry := ackManagerRetry b - 1,
          ackManagerProg := Some (ackManagerProgStart b)\<rparr>)" (is "_ = Yield ?c")
        using retry_step [OF b(1)] b(2) True by blast
      have c: "mode_ok ?c" "regs_of ?c = r1" using b by (simp_all add: session_defs)
      have n: "unat (ackManagerRetry b - 1) = m"
        using b(4) "1.prems"(6) m unat_minus_one [OF \<open>ackManagerRetry b \<noteq> 0\<close>] by (simp add: tag_def)
      have run': "run_retries answer p m r1 d1 = Some (v, d')" using "1.prems"(1) run True m by simp
      show ?thesis
      proof (rule leads_Yield [OF st], rule leads_inevitable)
        fix a' e io' assume s: "settles answer ?c d1 a' e"
        note g = settles_session [OF s c(1)]
        have "e = d1" using s b(1) by (simp add: settles_def session_ok_def)
        moreover have "leads answer ?Q io' a' d1"
        proof (rule "1.IH" [OF run refl refl _ m run'])
          show "w = -1" using True by simp
        qed (use g c(2) n b(4) "1.prems"(5,7,8) in \<open>simp_all add: tag_def\<close>)
        ultimately show "leads answer ?Q io' a' e" by simp
      qed
    qed
  qed
qed


lemma inevitable_mono: "inevitable answer Q a d \<Longrightarrow> (\<And>b e. Q b e \<Longrightarrow> R b e) \<Longrightarrow> inevitable answer R a d"
proof (induction rule: inevitable.induct)
  case (now a d)
  then show ?case by (auto intro: inevitable.now)
next
  case (later a d)
  show ?case
  proof (rule inevitable.later)
    fix io
    from later(1) [of io] obtain a1 where "ack_loop io a = Some a1"
      "\<And>a' d'. settles answer a1 d a' d' \<Longrightarrow> inevitable answer R a' d'" using later(2) by blast
    then show "\<exists>a1. ack_loop io a = Some a1 \<and> (\<forall>a' d'. settles answer a1 d a' d' \<longrightarrow> inevitable answer R a' d')"
      by blast
  qed
qed

text \<open>A program started with \<open>Setup\<close> on an idle programming track.\<close>

definition start_regs :: "int \<Rightarrow> byte \<Rightarrow> ack \<Rightarrow> regs" where
  "start_regs cv b a = (regs_of a)\<lparr>r_cv := cv, r_byte := b, r_verify := b, r_bit := b\<rparr>"

lemma Setup_session:
  "session_ok a \<Longrightarrow> session_ok (Setup cv b p f a) \<and> regs_of (Setup cv b p f a) = start_regs cv b a \<and>
     tag (Setup cv b p f a) = (ackRetry a, p, callbacks a, f) \<and> ackManagerProg (Setup cv b p f a) = Some p"
  by (simp add: Setup_def session_defs start_regs_def Let_def)

lemma Setup_runs:
  assumes "session_ok a" "run_retries answer p (unat (ackRetry a)) (start_regs cv b a) d = Some (v, d')"
  shows "inevitable answer (\<lambda>b e. session_ok b \<and> ackManagerProg b = None \<and> e = d' \<and>
    callbacks b = callbacks a @ [(f, sint (word_of_int v :: u16))]) (Setup cv b p f a) d"
  by (rule leads_inevitable, rule machine_runs [OF assms(2)])
    (use Setup_session [OF assms(1)] in \<open>simp_all add: tag_def\<close>)

end
