(* ===== verification/WordFacts.thy ===== *)
theory WordFacts
  imports Prelude
begin

text \<open>
  Arithmetic of the bytes and 16-bit words the packet encodings take apart: the number a byte or a
  half of a word stands for, masks as remainders, and bits as divisions.
\<close>

lemma or_high: "0 \<le> i \<Longrightarrow> i < 2 ^ 14 \<Longrightarrow> (i OR 0xC000) = i + 0xC000" "0 \<le> i \<Longrightarrow> i < 2 ^ 14 \<Longrightarrow> (0x4000 OR i) = i + 0x4000" for i :: int
proof -
  have *: "i AND push_bit 14 k = 0" if "0 \<le> i" "i < 2 ^ 14" for k :: int
  proof (rule bit_eqI)
    fix n
    have "take_bit 14 i = i" using that by (simp add: take_bit_int_eq_self)
    then have "bit i n \<Longrightarrow> n < 14" by (metis bit_take_bit_iff)
    then show "bit (i AND push_bit 14 k) n = bit 0 n" by (auto simp: bit_simps)
  qed
  show "0 \<le> i \<Longrightarrow> i < 2 ^ 14 \<Longrightarrow> (i OR 0xC000) = i + 0xC000"
    using * [of 3] disjunctive_add_eq_or [of i "0xC000"] by simp
  show "0 \<le> i \<Longrightarrow> i < 2 ^ 14 \<Longrightarrow> (0x4000 OR i) = i + 0x4000"
    using * [of 1] disjunctive_add_eq_or [of i "0x4000"] by (simp add: or.commute)
qed

lemma uint_lowByte: "uint (lowByte (w :: u16)) = uint w mod 256"
  by (simp add: lowByte_def unsigned_ucast_eq take_bit_eq_mod)

lemma uint_highByte: "uint (highByte (w :: u16)) = uint w div 256"
proof -
  have "uint w < 65536" using uint_bounded [of w] by simp
  then have "uint w div 256 mod 256 = uint w div 256"
    using uint_ge_0 [of w] by (intro mod_pos_pos_trivial) (simp_all add: pos_imp_zdiv_nonneg_iff)
  then show ?thesis
    by (simp add: highByte_def unsigned_ucast_eq take_bit_eq_mod drop_bit_eq_div uint_div)
qed

lemma uint_u16: "0 \<le> i \<Longrightarrow> i < 65536 \<Longrightarrow> uint (word_of_int i :: u16) = i"
  by (simp add: uint_word_of_int take_bit_int_eq_self)

lemma or_byte_80: "uint b < 128 \<Longrightarrow> uint (b OR 0x80) = uint b + 128" for b :: byte
  by (simp add: unsigned_or_eq int_or_80)

lemma uint_u8: "0 \<le> i \<Longrightarrow> i < 256 \<Longrightarrow> uint (word_of_int i :: byte) = i"
  by (simp add: uint_word_of_int take_bit_int_eq_self)

lemma bit_uint: "n < 8 \<Longrightarrow> bit b n = odd (uint b div 2 ^ n)" for b :: byte
  by (simp flip: bit_iff_odd) (simp add: bit_uint_iff)

lemma and_3F: "uint (b AND 0x3F) = uint b mod 64" for b :: byte
  using take_bit_eq_mask [of 6 "uint b"] by (simp add: unsigned_and_eq mask_eq_exp_minus_1 take_bit_eq_mod)

lemma word_halves: "256 * ucast (highByte w) + ucast (lowByte w) = (w :: u16)"
proof -
  have "uint w < 65536" using uint_bounded [of w] by simp
  then have "256 * (uint w div 256) + uint w mod 256 = uint w" by simp
  then have "(256 * (uint w div 256) + uint w mod 256) mod 65536 = uint w"
    using \<open>uint w < 65536\<close> uint_ge_0 [of w] by simp
  then show ?thesis
    by (simp add: word_uint_eq_iff uint_word_ariths unsigned_ucast_eq uint_highByte uint_lowByte take_bit_int_eq_self mod_simps)
qed

end
