(* ===== verification/AckProps.thy ===== *)
theory AckProps
  imports AckSession WordFacts
begin

text \<open>
  What the programming-track calls achieve with a decoder that follows the service-mode standard,
  and the properties of the programming track: the loop always returns, reading gives the
  value stored, writing and reading back a loco address or a consist address are inverse, and
  which current pulses count as an acknowledgement.
\<close>

section \<open>A decoder in direct mode\<close>

definition put_bit :: "nat \<Rightarrow> bool \<Rightarrow> byte \<Rightarrow> byte" where
  "put_bit i on w = (if on then set_bit i w else unset_bit i w)"

definition service_decoder :: "(byte list \<Rightarrow> 'd \<Rightarrow> bool \<times> 'd) \<Rightarrow> ('d \<Rightarrow> int \<Rightarrow> byte) \<Rightarrow> bool" where
  "service_decoder answer cvs \<longleftrightarrow>
    (\<forall>d cv. 1 \<le> cv \<and> cv \<le> 1024 \<longrightarrow>
      (\<forall>v. fst (answer (byte_packet VERIFY_BYTE cv v) d) = (cvs d cv = v) \<and>
           cvs (snd (answer (byte_packet VERIFY_BYTE cv v) d)) = cvs d \<and>
           cvs (snd (answer (byte_packet WRITE_BYTE cv v) d)) = (cvs d)(cv := v)) \<and>
      (\<forall>i on. i < 8 \<longrightarrow>
           fst (answer (bit_packet VERIFY_BIT on cv (of_nat i)) d) = (bit (cvs d cv) i = on) \<and>
           cvs (snd (answer (bit_packet VERIFY_BIT on cv (of_nat i)) d)) = cvs d \<and>
           cvs (snd (answer (bit_packet WRITE_BIT on cv (of_nat i)) d)) = (cvs d)(cv := put_bit i on (cvs d cv))))"

text \<open>\<open>returns\<close>: a program calls back \<open>v\<close> and leaves a decoder with these CVs.\<close>

definition returns :: "(byte list \<Rightarrow> 'd \<Rightarrow> bool \<times> 'd) \<Rightarrow> ('d \<Rightarrow> int \<Rightarrow> byte) \<Rightarrow> ackOp list \<Rightarrow> regs \<Rightarrow> 'd \<Rightarrow> int \<Rightarrow> (int \<Rightarrow> byte) \<Rightarrow> bool" where
  "returns answer cvs p r d v m \<longleftrightarrow> (\<exists>r' d'. run_prog answer p r d = Some (v, r', d') \<and> cvs d' = m)"

lemma returns_packet:
  "packet_of (opcode y) r = Some pk \<Longrightarrow> result_of (opcode y) r = None \<Longrightarrow>
   returns answer cvs (y # WACK # p) r d v m =
     returns answer cvs p (r\<lparr>r_ack := fst (answer pk d)\<rparr>) (snd (answer pk d)) v m"
  by (simp add: returns_def split: prod.split)

lemma returns_VB:
  "service_decoder answer cvs \<Longrightarrow> 1 \<le> r_cv r \<Longrightarrow> r_cv r \<le> 1024 \<Longrightarrow>
   (\<And>d'. cvs d' = cvs d \<Longrightarrow> returns answer cvs p (r\<lparr>r_ack := (cvs d (r_cv r) = r_byte r)\<rparr>) d' v m) \<Longrightarrow>
   returns answer cvs (VB # WACK # p) r d v m"
  using returns_packet [of VB r "byte_packet VERIFY_BYTE (r_cv r) (r_byte r)" answer cvs p d v m]
  by (simp add: service_decoder_def)

lemma returns_WB:
  "service_decoder answer cvs \<Longrightarrow> 1 \<le> r_cv r \<Longrightarrow> r_cv r \<le> 1024 \<Longrightarrow>
   (\<And>d' k. cvs d' = (cvs d)(r_cv r := r_byte r) \<Longrightarrow> k = fst (answer (byte_packet WRITE_BYTE (r_cv r) (r_byte r)) d) \<Longrightarrow>
      returns answer cvs p (r\<lparr>r_ack := k\<rparr>) d' v m) \<Longrightarrow>
   returns answer cvs (WB # WACK # p) r d v m"
  using returns_packet [of WB r "byte_packet WRITE_BYTE (r_cv r) (r_byte r)" answer cvs p d v m]
  by (simp add: service_decoder_def)

lemma returns_V:
  assumes "service_decoder answer cvs" "1 \<le> r_cv r" "r_cv r \<le> 1024" "r_bit r = of_nat i" "i < 8"
    and "\<And>d'. cvs d' = cvs d \<Longrightarrow> returns answer cvs p (r\<lparr>r_ack := (bit (cvs d (r_cv r)) i = on)\<rparr>) d' v m"
  shows "returns answer cvs ((if on then V1 else V0) # WACK # p) r d v m"
  using returns_packet [of "if on then V1 else V0" r "bit_packet VERIFY_BIT on (r_cv r) (of_nat i)" answer cvs p d v m] assms
  by (cases on) (simp_all add: service_decoder_def)

lemmas returns_V0 = returns_V [where on = False, simplified] and returns_V1 = returns_V [where on = True, simplified]

lemma returns_W:
  assumes "service_decoder answer cvs" "1 \<le> r_cv r" "r_cv r \<le> 1024" "r_bit r = of_nat i" "i < 8"
    and "\<And>d' k. cvs d' = (cvs d)(r_cv r := put_bit i on (cvs d (r_cv r))) \<Longrightarrow> returns answer cvs p (r\<lparr>r_ack := k\<rparr>) d' v m"
  shows "returns answer cvs ((if on then W1 else W0) # WACK # p) r d v m"
  using returns_packet [of "if on then W1 else W0" r "bit_packet WRITE_BIT on (r_cv r) (of_nat i)" answer cvs p d v m] assms
  by (cases on) (simp_all add: service_decoder_def)

lemmas returns_W0 = returns_W [where on = False, simplified] and returns_W1 = returns_W [where on = True, simplified]

lemma returns_result [simp]: "result_of (opcode y) r = Some w \<Longrightarrow> returns answer cvs (y # p) r d v m \<longleftrightarrow> w = v \<and> cvs d = m"
  by (auto simp: returns_def)

lemma returns_operand [simp]:
  "returns answer cvs (SETCV # z # p) r d v m = returns answer cvs p (r\<lparr>r_cv := uint (flash_byte z)\<rparr>) d v m"
  "returns answer cvs (SETBIT # z # p) r d v m = returns answer cvs p (r\<lparr>r_bit := flash_byte z\<rparr>) d v m"
  "returns answer cvs (SETBYTE # z # p) r d v m = returns answer cvs p (r\<lparr>r_byte := flash_byte z\<rparr>) d v m"
  by (simp_all add: returns_def op_classes)

lemma returns_plain [simp]:
  "opcode y \<in> {BASELINE, BIV, MERGE, SETBYTEH, SETBYTEL, STASHLOCOID, SKIPTARGET} \<Longrightarrow>
   returns answer cvs (y # p) r d v m = returns answer cvs p (effect (opcode y) r) d v m"
  by (auto simp: returns_def op_classes)

lemma returns_start:
  "returns answer cvs (STARTMERGE # p) r d v m = returns answer cvs p (r\<lparr>r_bit := 7, r_byte := 0\<rparr>) d v m"
  by (simp add: returns_def op_classes)

lemma returns_pass [simp]:
  "result_of (opcode y) r = None \<Longrightarrow>
   opcode y \<in> {ITC0, ITC1, ITCB, ITCBV, ITCB7, NAKFAIL, FAIL_IF_NONZERO_NAK} \<Longrightarrow>
   returns answer cvs (y # p) r d v m = returns answer cvs p r d v m"
  by (auto simp: returns_def op_classes)

lemma returns_skip:
  "opcode y \<in> {ITSKIP, NAKSKIP, BAD20SKIP} \<Longrightarrow> returns answer cvs (y # p) r d v m =
     (if skips (opcode y) r then skip_target p \<noteq> [] \<and> returns answer cvs (tl (skip_target p)) r d v m
      else returns answer cvs p r d v m)"
  by (auto simp: returns_def op_classes)

section \<open>Merging bits\<close>

fun merges :: "nat \<Rightarrow> ackOp list \<Rightarrow> ackOp list" where
  "merges 0 p = p"
| "merges (Suc n) p = V0 # WACK # MERGE # merges n p"

lemma skip_target_merges [simp]: "skip_target (merges n p) = skip_target p"
  by (induction n) simp_all

lemma merge_bit: "push_bit 1 (drop_bit (Suc i) c) OR (if bit c i then 1 else 0) = drop_bit i (c :: byte)"
proof (rule bit_eqI)
  fix n
  assume "possible_bit TYPE(8 word) n"
  then show "bit (push_bit 1 (drop_bit (Suc i) c) OR (if bit c i then 1 else 0)) n = bit (drop_bit i c) n"
    by (cases n) (auto simp: bit_simps simp del: push_bit_Suc)
qed

lemma returns_merges:
  assumes dec: "service_decoder answer cvs" and cv: "1 \<le> r_cv r" "r_cv r \<le> 1024"
    and "n \<le> 8" "r_bit r = of_nat n - 1" "r_byte r = drop_bit n (cvs d (r_cv r))"
    and rest: "\<And>d' k. cvs d' = cvs d \<Longrightarrow>
      returns answer cvs p (r\<lparr>r_byte := cvs d (r_cv r), r_bit := -1, r_ack := k\<rparr>) d' v m"
  shows "returns answer cvs (merges n p) r d v m"
  using assms(2-)
proof (induction n arbitrary: r d)
  case 0
  then have r: "r\<lparr>r_byte := cvs d (r_cv r), r_bit := -1, r_ack := r_ack r\<rparr> = r" by simp
  have "returns answer cvs p (r\<lparr>r_byte := cvs d (r_cv r), r_bit := -1, r_ack := r_ack r\<rparr>) d v m"
    by (rule 0) (rule refl)
  then show ?case unfolding r by simp
next
  case (Suc n)
  let ?c = "cvs d (r_cv r)"
  have step: "returns answer cvs (merges n p) (effect MERGE (r\<lparr>r_ack := (bit ?c n = False)\<rparr>)) d' v m"
    if d': "cvs d' = cvs d" for d'
  proof (rule Suc.IH)
    show "r_byte (effect MERGE (r\<lparr>r_ack := (bit ?c n = False)\<rparr>)) =
        drop_bit n (cvs d' (r_cv (effect MERGE (r\<lparr>r_ack := (bit ?c n = False)\<rparr>))))"
      using merge_bit [of n ?c] Suc.prems(5) d' by auto
  next
    fix d'' k assume "cvs d'' = cvs d'"
    then show "returns answer cvs p ((effect MERGE (r\<lparr>r_ack := (bit ?c n = False)\<rparr>))
        \<lparr>r_byte := cvs d' (r_cv (effect MERGE (r\<lparr>r_ack := (bit ?c n = False)\<rparr>))), r_bit := -1, r_ack := k\<rparr>) d'' v m"
      using Suc.prems(6) [of d'' k] d' by simp
  qed (use Suc.prems in simp_all)
  show ?case
    using returns_V0 [OF dec Suc.prems(1,2), of n d "MERGE # merges n p" v m] Suc.prems(3,4) step by simp
qed


lemma returns_merge8:
  assumes "service_decoder answer cvs" "1 \<le> r_cv r" "r_cv r \<le> 1024"
    and "\<And>d' k. cvs d' = cvs d \<Longrightarrow>
      returns answer cvs p (r\<lparr>r_byte := cvs d (r_cv r), r_bit := -1, r_ack := k\<rparr>) d' v m"
  shows "returns answer cvs (STARTMERGE # merges 8 p) r d v m"
proof -
  have "drop_bit 8 (cvs d (r_cv r)) = 0" by (rule bit_eqI) (simp add: bit_simps)
  then show ?thesis
    using returns_merges [of answer cvs "r\<lparr>r_bit := 7, r_byte := 0\<rparr>" 8 d p v m] assms
    by (cases r) (simp add: returns_start)
qed

text \<open>The reading of one CV with a check of the top bit.\<close>

definition read_byte :: "ackOp list \<Rightarrow> ackOp list" where
  "read_byte p = STARTMERGE # V0 # WACK # MERGE # ITSKIP # SETBIT # ackOp_of 7 # V1 # WACK # NAKFAIL #
     SETBIT # ackOp_of 6 # SKIPTARGET # merges 7 p"

lemma returns_read_byte:
  assumes dec: "service_decoder answer cvs" and cv: "1 \<le> r_cv r" "r_cv r \<le> 1024"
    and rest: "\<And>d' k. cvs d' = cvs d \<Longrightarrow>
      returns answer cvs p (r\<lparr>r_byte := cvs d (r_cv r), r_bit := -1, r_ack := k\<rparr>) d' v m"
  shows "returns answer cvs (read_byte p) r d v m"
proof -
  let ?c = "cvs d (r_cv r)"
  let ?tail = "ITSKIP # SETBIT # ackOp_of 7 # V1 # WACK # NAKFAIL # SETBIT # ackOp_of 6 # SKIPTARGET # merges 7 p"
  let ?r = "\<lambda>k. r\<lparr>r_bit := 6, r_byte := drop_bit 7 ?c, r_ack := k\<rparr>"
  have m7: "returns answer cvs (merges 7 p) (?r k) d' v m" if "cvs d' = cvs d" for k d'
    using returns_merges [OF dec, of "?r k" 7 d' p v m] cv rest that by (cases r) simp
  have "drop_bit 8 ?c = 0" by (rule bit_eqI) (simp add: bit_simps)
  then have top: "push_bit 1 0 OR (if bit ?c 7 then 1 else 0) = drop_bit 7 ?c"
    using merge_bit [of 7 ?c] by simp
  have tail: "returns answer cvs ?tail (?r (\<not> bit ?c 7)) d' v m" if d': "cvs d' = cvs d" for d'
  proof (cases "bit ?c 7")
    case True
    have "returns answer cvs (V1 # WACK # NAKFAIL # SETBIT # ackOp_of 6 # SKIPTARGET # merges 7 p)
        (?r False\<lparr>r_bit := 7\<rparr>) d' v m"
      using returns_V1 [OF dec, of "?r False\<lparr>r_bit := 7\<rparr>" 7 d'] cv True d' m7 by (cases r) simp
    then show ?thesis using True by (cases r) (simp add: returns_skip)
  next
    case False
    then show ?thesis using m7 [OF d'] by (cases r) (simp add: returns_skip)
  qed
  show ?thesis
    unfolding read_byte_def
    using returns_V0 [OF dec, of "r\<lparr>r_bit := 7, r_byte := 0\<rparr>" 7 d "MERGE # ?tail" v m] cv tail top
    by (cases r; cases "bit ?c 7") (simp_all add: returns_start)
qed


section \<open>What the programs compute\<close>

lemma READ_CV_merges: "READ_CV_PROG = BASELINE # read_byte [VB, WACK, ITCB, CALLFAIL]"
  by (simp add: READ_CV_PROG_def read_byte_def numeral_eq_Suc)


lemma returns_READ_CV:
  assumes dec: "service_decoder answer cvs" and cv: "1 \<le> r_cv r" "r_cv r \<le> 1024"
  shows "returns answer cvs READ_CV_PROG r d (uint (cvs d (r_cv r))) (cvs d)"
  unfolding READ_CV_merges using cv
  by - (simp, rule returns_read_byte [OF dec], simp, simp, rule returns_VB [OF dec], simp_all)

definition read_short :: "ackOp list" where
  "read_short = SETCV # ackOp_of 1 # STARTMERGE # SETBIT # ackOp_of 6 # merges 7 [VB, WACK, ITCB, CALLFAIL]"

lemma LOCO_READ_ID_merges: "LOCO_READ_ID_PROG =
  BASELINE # SETCV # ackOp_of 29 # SETBIT # ackOp_of 5 # V0 # WACK # ITSKIP #
  SETCV # ackOp_of 17 # STARTMERGE # merges 8 (VB # WACK # NAKFAIL # STASHLOCOID #
  SETCV # ackOp_of 18 # STARTMERGE # merges 8 (VB # WACK # NAKFAIL # COMBINELOCOID #
  SKIPTARGET # read_short))"
  by (simp add: LOCO_READ_ID_PROG_def read_short_def numeral_eq_Suc)

definition loco_value :: "(int \<Rightarrow> byte) \<Rightarrow> int" where
  "loco_value m = (if bit (m 29) 5 then LONG_ADDR_MARKER OR (uint (m 18) + (uint (m 17) - 192) * 256)
     else uint (m 1))"

lemma returns_read_short:
  assumes dec: "service_decoder answer cvs" and small: "cvs d 1 < 128"
  shows "returns answer cvs read_short r d (uint (cvs d 1)) (cvs d)"
proof -
  have "drop_bit 7 (cvs d 1) = 0"
    using small by (simp add: drop_bit_eq_div word_less_def word_uint_eq_iff uint_div)
  then show ?thesis
    unfolding read_short_def
    by - (simp add: returns_start, rule returns_merges [OF dec], simp_all, rule returns_VB [OF dec], simp_all)
qed

lemma returns_READ_ID:
  assumes dec: "service_decoder answer cvs" and "bit (cvs d 29) 5 \<or> cvs d 1 < 128"
  shows "returns answer cvs LOCO_READ_ID_PROG r d (loco_value (cvs d)) (cvs d)"
proof -
  let ?rest = "SETCV # ackOp_of 17 # STARTMERGE # merges 8 (VB # WACK # NAKFAIL # STASHLOCOID #
    SETCV # ackOp_of 18 # STARTMERGE # merges 8 (VB # WACK # NAKFAIL # COMBINELOCOID # SKIPTARGET # read_short))"
  have "returns answer cvs (ITSKIP # ?rest) (s\<lparr>r_ack := (\<not> bit (cvs d 29) 5)\<rparr>) d' (loco_value (cvs d)) (cvs d)"
    if d': "cvs d' = cvs d" for s d'
  proof (cases "bit (cvs d 29) 5")
    case True
    then show ?thesis using d'
      by - (simp add: returns_skip, rule returns_merge8 [OF dec], simp_all, rule returns_VB [OF dec], simp_all,
        rule returns_merge8 [OF dec], simp_all, rule returns_VB [OF dec], simp_all add: loco_value_def)
  next
    case False
    then show ?thesis using returns_read_short [OF dec, of d'] assms(2) d' by (simp add: returns_skip loco_value_def)
  qed
  then show ?thesis
    unfolding LOCO_READ_ID_merges
    using returns_V0 [OF dec, of "r\<lparr>r_cv := 29, r_bit := 5\<rparr>" 5 d "ITSKIP # ?rest"] by simp
qed


lemma bit_put_bit: "bit (put_bit i on w) i = on" if "i < 8" for w :: byte
  using that by (simp add: put_bit_def bit_simps)

definition short_id_cvs :: "byte \<Rightarrow> (int \<Rightarrow> byte) \<Rightarrow> int \<Rightarrow> byte" where
  "short_id_cvs b m = m(20 := 0, 19 := 0, 29 := put_bit 5 False (m 29), 1 := b)"

definition long_id_cvs :: "byte \<Rightarrow> byte \<Rightarrow> (int \<Rightarrow> byte) \<Rightarrow> int \<Rightarrow> byte" where
  "long_id_cvs h b m = m(20 := 0, 19 := 0, 29 := put_bit 5 True (m 29), 17 := h, 18 := b)"

text \<open>The end of the writing programs: a write that is acknowledged, or verified instead.\<close>

lemma returns_write_end:
  assumes dec: "service_decoder answer cvs" and "1 \<le> r_cv r" "r_cv r \<le> 1024" "m = (cvs d)(r_cv r := r_byte r)"
  shows "returns answer cvs (WB # WACK # ITC1 # VB # WACK # ITC1 # p) r d 1 m"
proof (rule returns_WB [OF dec assms(2,3)])
  fix d' k assume d': "cvs d' = (cvs d)(r_cv r := r_byte r)"
  show "returns answer cvs (ITC1 # VB # WACK # ITC1 # p) (r\<lparr>r_ack := k\<rparr>) d' 1 m"
  proof (cases k)
    case True
    then show ?thesis using d' assms(4) by simp
  next
    case False
    then show ?thesis using returns_VB [OF dec, of "r\<lparr>r_ack := k\<rparr>" d' "ITC1 # p" 1 m] assms(2-) d' by simp
  qed
qed

lemma returns_SHORT_ID:
  assumes dec: "service_decoder answer cvs"
  shows "returns answer cvs SHORT_LOCO_ID_PROG r d 1 (short_id_cvs (lowByte (word_of_int (r_word r) :: u16)) (cvs d))"
  unfolding SHORT_LOCO_ID_PROG_def
  by (simp, rule returns_WB [OF dec], simp, simp, simp, rule returns_WB [OF dec], simp, simp, simp,
    rule returns_W0 [OF dec, where i = 5], simp, simp, simp, simp,
    rule returns_V0 [OF dec, where i = 5], simp, simp, simp, simp,
    simp add: bit_put_bit, rule returns_write_end [OF dec], simp_all add: short_id_cvs_def fun_eq_iff)

lemma returns_LONG_ID:
  assumes dec: "service_decoder answer cvs"
  shows "returns answer cvs LONG_LOCO_ID_PROG r d 1
    (long_id_cvs (highByte (word_of_int (r_word r) :: u16)) (lowByte (word_of_int (r_word r) :: u16)) (cvs d))"
proof -
  let ?final = "[SETCV, ackOp_of 18, SETBYTEL, WB, WACK, ITC1, VB, WACK, ITC1, CALLFAIL]"
  let ?h = "highByte (word_of_int (r_word r) :: u16)" and ?l = "lowByte (word_of_int (r_word r) :: u16)"
  let ?tail = "ITSKIP # VB # WACK # ITSKIP # CALLFAIL # SKIPTARGET # ?final"
  have fin: "returns answer cvs ?final s d' 1 m" if "m = (cvs d')(18 := lowByte (word_of_int (r_word s) :: u16))" for s d' m
    using that by - (simp, rule returns_write_end [OF dec], simp_all)
  have mid: "returns answer cvs ?tail s d' 1 m"
    if "r_cv s = 17" "cvs d' 17 = r_byte s" "m = (cvs d')(18 := lowByte (word_of_int (r_word s) :: u16))" for s d' m
  proof (cases "r_ack s")
    case True
    then show ?thesis using fin [OF that(3)] by (simp add: returns_skip)
  next
    case False
    have "returns answer cvs (VB # WACK # ITSKIP # CALLFAIL # SKIPTARGET # ?final) s d' 1 m"
      by (rule returns_VB [OF dec]) (use that in \<open>simp_all add: returns_skip returns_write_end [OF dec]\<close>)
    then show ?thesis using False by (simp add: returns_skip)
  qed
  show ?thesis
    unfolding LONG_LOCO_ID_PROG_def
    by (simp, rule returns_WB [OF dec], simp, simp, simp, rule returns_WB [OF dec], simp, simp, simp,
      rule returns_W1 [OF dec, where i = 5], simp, simp, simp, simp,
      rule returns_V1 [OF dec, where i = 5], simp, simp, simp, simp,
      simp add: bit_put_bit, rule returns_WB [OF dec], simp, simp, rule mid)
      (simp_all add: long_id_cvs_def fun_eq_iff)
qed


lemma returns_CONSIST_ID:
  assumes dec: "service_decoder answer cvs"
    and acks: "highByte (word_of_int (r_word r) :: u16) = 0 \<or> fst (answer (byte_packet WRITE_BYTE 20 (highByte (word_of_int (r_word r) :: u16))) d)"
  shows "returns answer cvs CONSIST_ID_PROG r d 1
    ((cvs d)(20 := highByte (word_of_int (r_word r) :: u16), 19 := lowByte (word_of_int (r_word r) :: u16)))"
proof -
  let ?h = "highByte (word_of_int (r_word r) :: u16)"
  let ?final = "[SETCV, ackOp_of 19, SETBYTEL, WB, WACK, ITC1, VB, WACK, ITC1, CALLFAIL]"
  have fin: "returns answer cvs ?final s d' 1 m" if "m = (cvs d')(19 := lowByte (word_of_int (r_word s) :: u16))" for s d' m
    using that by - (simp, rule returns_write_end [OF dec], simp_all)
  have mid: "returns answer cvs (ITSKIP # FAIL_IF_NONZERO_NAK # SKIPTARGET # ?final) s d' 1 m"
    if "r_byte s = 0 \<or> r_ack s" "m = (cvs d')(19 := lowByte (word_of_int (r_word s) :: u16))" for s d' m
    using fin [OF that(2)] that(1) by (auto simp: returns_skip)
  show ?thesis
    unfolding CONSIST_ID_PROG_def
    by (simp, rule returns_WB [OF dec], simp, simp, rule mid) (use acks in auto)
qed

definition consist_value :: "(int \<Rightarrow> byte) \<Rightarrow> int" where
  "consist_value m =
    (if m 20 = 0 \<or> m 20 > 120 then (if m 19 = 0 \<or> m 19 = 128 then 0 else uint (m 19 AND 0x7F))
     else uint (m 20) * 100 + uint ((m 19 AND 0x7F) mod 100))"

lemma LOCO_READ_CONSIST_merges: "LOCO_READ_CONSIST_PROG =
  BASELINE # SETCV # ackOp_of 20 # SETBYTE # ackOp_of 0 # VB # WACK # ITSKIP #
  STARTMERGE # merges 8 (VB # WACK # NAKSKIP # BAD20SKIP # STASHLOCOID #
  SETCV # ackOp_of 19 # STARTMERGE # merges 8 (VB # WACK # NAKFAIL # COMBINE1920 #
  SKIPTARGET # SETCV # ackOp_of 19 # SETBYTE # ackOp_of 0 # VB # WACK # ITC0 #
  SETBYTE # ackOp_of 128 # VB # WACK # ITC0 # STARTMERGE # merges 8 [VB, WACK, ITCB7, CALLFAIL]))"
  by (simp add: LOCO_READ_CONSIST_PROG_def numeral_eq_Suc)

lemma returns_READ_CONSIST:
  assumes dec: "service_decoder answer cvs"
  shows "returns answer cvs LOCO_READ_CONSIST_PROG r d (consist_value (cvs d)) (cvs d)"
proof -
  let ?m = "cvs d"
  let ?t3 = "STARTMERGE # merges 8 [VB, WACK, ITCB7, CALLFAIL]"
  let ?t2 = "SETBYTE # ackOp_of 128 # VB # WACK # ITC0 # ?t3"
  let ?t1 = "SETCV # ackOp_of 19 # SETBYTE # ackOp_of 0 # VB # WACK # ITC0 # ?t2"
  let ?ext = "STASHLOCOID # SETCV # ackOp_of 19 # STARTMERGE # merges 8 (VB # WACK # NAKFAIL # COMBINE1920 # SKIPTARGET # ?t1)"
  let ?v = "if ?m 19 = 0 \<or> ?m 19 = 128 then 0 else uint (?m 19 AND 0x7F)"
  have t3: "returns answer cvs ?t3 s d' (uint (?m 19 AND 0x7F)) ?m" if "cvs d' = ?m" "r_cv s = 19" for s d'
    using that by - (rule returns_merge8 [OF dec], simp, simp, rule returns_VB [OF dec], simp_all)
  have t2: "returns answer cvs ?t2 s d' (if ?m 19 = 128 then 0 else uint (?m 19 AND 0x7F)) ?m"
    if "cvs d' = ?m" "r_cv s = 19" for s d'
    using that t3 by (cases "?m 19 = 128") (simp, rule returns_VB [OF dec], simp, simp, simp)+
  have t1: "returns answer cvs ?t1 s d' ?v ?m" if "cvs d' = ?m" for s d'
    using that t2 by (cases "?m 19 = 0") (simp split del: if_split, rule returns_VB [OF dec], simp, simp, simp split del: if_split)+
  have ext: "returns answer cvs ?ext s d' (uint (r_byte s) * 100 + uint ((?m 19 AND 0x7F) mod 100)) ?m"
    if "cvs d' = ?m" for s d'
    using that by - (simp, rule returns_merge8 [OF dec], simp, simp, rule returns_VB [OF dec], simp_all)
  have rd: "returns answer cvs (STARTMERGE # merges 8 (VB # WACK # NAKSKIP # BAD20SKIP # ?ext)) s d' (consist_value ?m) ?m"
    if d': "cvs d' = ?m" "r_cv s = 20" "?m 20 \<noteq> 0" for s d'
  proof (rule returns_merge8 [OF dec])
    fix d'' k assume d'': "cvs d'' = cvs d'"
    show "returns answer cvs (VB # WACK # NAKSKIP # BAD20SKIP # ?ext)
        (s\<lparr>r_byte := cvs d' (r_cv s), r_bit := -1, r_ack := k\<rparr>) d'' (consist_value ?m) ?m"
    proof (rule returns_VB [OF dec])
      fix e assume e: "cvs e = cvs d''"
      show "returns answer cvs (NAKSKIP # BAD20SKIP # ?ext) (s\<lparr>r_byte := cvs d' (r_cv s), r_bit := -1, r_ack := k\<rparr>
          \<lparr>r_ack := cvs d'' (r_cv (s\<lparr>r_byte := cvs d' (r_cv s), r_bit := -1, r_ack := k\<rparr>)) =
             r_byte (s\<lparr>r_byte := cvs d' (r_cv s), r_bit := -1, r_ack := k\<rparr>)\<rparr>) e (consist_value ?m) ?m"
      proof (cases "?m 20 > 120")
        case True
        then show ?thesis using t1 [of e] d' d'' e by (simp add: returns_skip consist_value_def)
      next
        case False
        then show ?thesis
          using ext [of e "s\<lparr>r_byte := ?m 20, r_bit := -1, r_ack := True\<rparr>"] d' d'' e
          by (simp add: returns_skip consist_value_def)
      qed
    qed (use d' in simp_all)
  qed (use d' in simp_all)
  show ?thesis
    unfolding LOCO_READ_CONSIST_merges
    apply (simp, rule returns_VB [OF dec], simp, simp)
    subgoal for e
      using t1 [of e] rd [of e "r\<lparr>r_cv := 20, r_byte := 0, r_ack := False\<rparr>"]
      by (cases "?m 20 = 0") (simp_all add: returns_skip consist_value_def)
    done
qed


lemma returns_retries: "returns answer cvs p r d v m \<Longrightarrow> v \<noteq> -1 \<Longrightarrow>
  \<exists>d'. run_retries answer p n r d = Some (v, d') \<and> cvs d' = m"
  by (subst run_retries.simps) (auto simp: returns_def)

lemma Setup_returns:
  assumes "session_ok a" "returns answer cvs p (start_regs cv b a) d v m" "v \<noteq> -1"
  shows "inevitable answer (\<lambda>b e. session_ok b \<and> ackManagerProg b = None \<and> cvs e = m \<and>
    callbacks b = callbacks a @ [(f, sint (word_of_int v :: u16))]) (Setup cv b p f a) d"
proof -
  obtain d' where "run_retries answer p (unat (ackRetry a)) (start_regs cv b a) d = Some (v, d')" "cvs d' = m"
    using returns_retries [OF assms(2,3)] by blast
  then show ?thesis using inevitable_mono [OF Setup_runs [OF assms(1)], of answer p cv b d v d' f] by simp
qed

lemma session_word: "session_ok a \<Longrightarrow> session_ok (a\<lparr>ackManagerWord := w\<rparr>)"
  by (simp add: session_defs)

lemma Setup_word_returns:
  assumes "session_ok a" "returns answer cvs p (start_regs 0 0 (a\<lparr>ackManagerWord := w\<rparr>)) d v m" "v \<noteq> -1"
  shows "inevitable answer (\<lambda>b e. session_ok b \<and> ackManagerProg b = None \<and> cvs e = m \<and>
    callbacks b = callbacks a @ [(f, sint (word_of_int v :: u16))]) (Setup_word w p f a) d"
  using Setup_returns [OF session_word [OF assms(1)] assms(2,3), of f] by (simp add: Setup_word_def)

lemma sint_small: "-32768 \<le> v \<Longrightarrow> v < 32768 \<Longrightarrow> sint (word_of_int v :: u16) = v"
  by transfer (simp add: signed_take_bit_int_eq_self)

lemma Setup_calls:
  assumes "session_ok a" "returns answer cvs p (start_regs cv b a) d v m" "0 \<le> v" "v < 32768"
  shows "inevitable answer (\<lambda>b e. cvs e = m \<and> callbacks b = callbacks a @ [(f, v)]) (Setup cv b p f a) d"
proof -
  have "v \<noteq> -1" "sint (word_of_int v :: u16) = v" using assms(3,4) by (simp_all only: sint_small)
  with inevitable_mono [OF Setup_returns [OF assms(1,2)]] show ?thesis by simp
qed

section \<open>Addresses\<close>

lemma short_address:
  assumes "1 \<le> i" "i \<le> 127"
  shows "loco_value (short_id_cvs (lowByte (word_of_int i :: u16)) m) = i"
    and "short_id_cvs (lowByte (word_of_int i :: u16)) m 1 < 128"
  using assms by (simp_all add: loco_value_def short_id_cvs_def bit_put_bit uint_lowByte uint_u16 word_less_def)

lemma long_address:
  assumes "128 \<le> i" "i \<le> 10239"
  shows "loco_value (long_id_cvs (highByte (word_of_int (i OR 0xC000) :: u16)) (lowByte (word_of_int (i OR 0xC000) :: u16)) m) = i + 0x4000"
    and "bit (long_id_cvs h b m 29) 5"
proof -
  have w: "uint (word_of_int (i OR 0xC000) :: u16) = i + 0xC000"
    using assms or_high(1) [of i] uint_u16 [of "i + 0xC000"] by simp
  have "(i + 0xC000) mod 256 + ((i + 0xC000) div 256 - 192) * 256 = i" by presburger
  then show "loco_value (long_id_cvs (highByte (word_of_int (i OR 0xC000) :: u16)) (lowByte (word_of_int (i OR 0xC000) :: u16)) m) = i + 0x4000"
    using assms w or_high(2) [of i]
    by (simp add: loco_value_def long_id_cvs_def bit_put_bit uint_lowByte uint_highByte LONG_ADDR_MARKER_def)
  show "bit (long_id_cvs h b m 29) 5" by (simp add: long_id_cvs_def bit_put_bit)
qed


lemma consist_word:
  "highByte (word_of_int (push_bit 8 (uint a) OR uint b) :: u16) = a"
  "lowByte (word_of_int (push_bit 8 (uint a) OR uint b) :: u16) = b" for a b :: byte
proof -
  have "push_bit 8 (uint a) AND uint b = 0"
  proof (rule bit_eqI)
    fix n
    show "bit (push_bit 8 (uint a) AND uint b) n = bit 0 n"
      by (auto simp: bit_simps dest: bit_imp_le_length)
  qed
  then have "push_bit 8 (uint a) OR uint b = uint a * 256 + uint b"
    using disjunctive_add_eq_or [of "push_bit 8 (uint a)" "uint b"] by (simp add: push_bit_eq_mult)
  moreover have "0 \<le> uint a * 256 + uint b \<and> uint a * 256 + uint b < 65536"
    using uint_byte [of a] uint_byte [of b] by simp
  ultimately have w: "uint (word_of_int (push_bit 8 (uint a) OR uint b) :: u16) = uint a * 256 + uint b"
    using uint_u16 [of "uint a * 256 + uint b"] by simp
  show "highByte (word_of_int (push_bit 8 (uint a) OR uint b) :: u16) = a"
    using uint_byte [of b] by (simp add: word_uint_eq_iff uint_highByte w)
  show "lowByte (word_of_int (push_bit 8 (uint a) OR uint b) :: u16) = b"
    using uint_byte [of b] by (simp add: word_uint_eq_iff uint_lowByte w)
qed

lemma consist_address:
  assumes "0 \<le> i" "i \<le> 10239"
  shows "case consist_cvs i reverse of (cv20, cv19) \<Rightarrow> consist_value (m(20 := cv20, 19 := cv19)) = i"
proof (cases "i \<le> 127")
  case True
  define b where "b = (word_of_int i :: byte)"
  have b: "uint b = i" using assms(1) True by (simp add: b_def uint_word_of_int)
  have "(b OR 0x80) AND 0x7F = b" "b AND 0x7F = b" "b OR 0x80 \<noteq> 0" "b OR 0x80 = 128 \<longleftrightarrow> b = 0" "b \<noteq> 128"
    using b True assms(1) by (auto simp: word_uint_eq_iff and_7F or_byte_80)
  then show ?thesis
    using True b by (auto simp: consist_cvs_def HIGHEST_SHORT_ADDR_def consist_value_def b_def [symmetric] word_uint_eq_iff)
next
  case False
  define h b where "h = (word_of_int (i div 100) :: byte)" and "b = (word_of_int (i mod 100) :: byte)"
  have u: "uint h = i div 100" "uint b = i mod 100"
    using assms(2) False by (auto simp: h_def b_def uint_word_of_int intro!: mod_pos_pos_trivial)
  have "((b OR 0x80) AND 0x7F) mod 100 = b" "(b AND 0x7F) mod 100 = b"
    using u by (auto simp: word_uint_eq_iff uint_mod and_7F or_byte_80)
  moreover have "h \<noteq> 0" "\<not> 120 < h" using u False assms(2) by (auto simp: word_uint_eq_iff word_less_def)
  ultimately show ?thesis
    using False u by (simp add: consist_cvs_def HIGHEST_SHORT_ADDR_def consist_value_def h_def [symmetric] b_def [symmetric])
qed

section \<open>Pulses\<close>

definition samples :: "nat \<Rightarrow> ack_io list \<Rightarrow> ack \<Rightarrow> ack" where
  "samples resets ios a = fold (checkAck resets) ios a"

definition high :: "ack \<Rightarrow> ack_io \<Rightarrow> bool" where
  "high a io \<longleftrightarrow> io_current io > ackThreshold a"

text \<open>A pulse may have gaps of at most two low samples; \<open>k\<close> low samples came just before.\<close>

fun short_gaps :: "nat \<Rightarrow> bool list \<Rightarrow> bool" where
  "short_gaps k [] \<longleftrightarrow> k = 0"
| "short_gaps k (b # bs) \<longleftrightarrow> (if b then short_gaps 0 bs else k < 2 \<and> short_gaps (Suc k) bs)"

definition detector :: "ack \<Rightarrow> int \<times> u32 \<times> u32 \<times> bool" where
  "detector a = (ackThreshold a, minAckPulseDuration a, maxAckPulseDuration a, ackDetected a)"

lemma checkAck_quiet:
  "resets \<le> 6 \<Longrightarrow> ackPending a \<Longrightarrow> ackPulseStart a = 0 \<Longrightarrow> \<not> high a io \<Longrightarrow>
   ackPending (checkAck resets io a) \<and> ackPulseStart (checkAck resets io a) = 0 \<and> detector (checkAck resets io a) = detector a"
  by (simp add: checkAck_def high_def detector_def Let_def)

lemma checkAck_high:
  "resets \<le> 6 \<Longrightarrow> ackPending a \<Longrightarrow> high a io \<Longrightarrow>
   ackPending (checkAck resets io a) \<and> trailingEdgeCounter (checkAck resets io a) = 0 \<and>
   ackPulseStart (checkAck resets io a) = (if ackPulseStart a = 0 then io_micros io else ackPulseStart a) \<and>
   detector (checkAck resets io a) = detector a"
  by (auto simp: checkAck_def high_def detector_def Let_def word_gt_0)

lemma checkAck_low:
  "resets \<le> 6 \<Longrightarrow> ackPending a \<Longrightarrow> \<not> high a io \<Longrightarrow> ackPulseStart a \<noteq> 0 \<Longrightarrow> trailingEdgeCounter a < 2 \<Longrightarrow>
   ackPending (checkAck resets io a) \<and> trailingEdgeCounter (checkAck resets io a) = trailingEdgeCounter a + 1 \<and>
   ackPulseStart (checkAck resets io a) = ackPulseStart a \<and>
   ackPulseDuration (checkAck resets io a) =
     (if trailingEdgeCounter a = 0 then io_micros io - ackPulseStart a else ackPulseDuration a) \<and>
   detector (checkAck resets io a) = detector a"
  by (simp add: checkAck_def high_def detector_def Let_def)

lemma high_detector: "detector b = detector a \<Longrightarrow> high b = high a"
  by (auto simp: high_def detector_def)

lemma samples_quiet:
  "resets \<le> 6 \<Longrightarrow> ackPending a \<Longrightarrow> ackPulseStart a = 0 \<Longrightarrow> list_all (\<lambda>io. \<not> high a io) ios \<Longrightarrow>
   ackPending (samples resets ios a) \<and> ackPulseStart (samples resets ios a) = 0 \<and> detector (samples resets ios a) = detector a"
proof (induction ios arbitrary: a)
  case (Cons io ios)
  note q = checkAck_quiet [of resets a io]
  show ?case
    using Cons.IH [of "checkAck resets io a"] Cons.prems q high_detector [of "checkAck resets io a" a]
    by (simp add: samples_def)
qed (simp add: samples_def)

lemma samples_pulse:
  "resets \<le> 6 \<Longrightarrow> ackPending a \<Longrightarrow> ackPulseStart a \<noteq> 0 \<Longrightarrow> trailingEdgeCounter a = of_nat k \<Longrightarrow> k \<le> 2 \<Longrightarrow>
   short_gaps k (map (high a) ios) \<Longrightarrow>
   ackPending (samples resets ios a) \<and> ackPulseStart (samples resets ios a) = ackPulseStart a \<and>
   trailingEdgeCounter (samples resets ios a) = 0 \<and> detector (samples resets ios a) = detector a"
proof (induction ios arbitrary: a k)
  case (Cons io ios)
  show ?case
  proof (cases "high a io")
    case True
    note h = checkAck_high [of resets a io]
    show ?thesis
      using Cons.IH [of "checkAck resets io a" 0] Cons.prems True h high_detector [of "checkAck resets io a" a]
      by (simp add: samples_def)
  next
    case False
    have k: "k < 2" using Cons.prems(6) False by simp
    then have "trailingEdgeCounter a < 2" using Cons.prems(4) by (auto simp: less_2_cases_iff)
    note l = checkAck_low [OF Cons.prems(1,2) False Cons.prems(3) this]
    show ?thesis
      using Cons.IH [of "checkAck resets io a" "Suc k"] Cons.prems False k l high_detector [of "checkAck resets io a" a]
      by (simp add: samples_def add.commute)
  qed
qed (simp add: samples_def)

lemma checkAck_end:
  assumes "resets \<le> 6" "ackPending a" "ackPulseStart a \<noteq> 0" "trailingEdgeCounter a = 2" "\<not> high a io"
  shows "let b = checkAck resets io a in
    if minAckPulseDuration a \<le> ackPulseDuration a \<and> (ackPulseDuration a \<le> maxAckPulseDuration a \<or> maxAckPulseDuration a = 0)
    then \<not> ackPending b \<and> ackDetected b \<and> transmitRepeats (ackTrack b) = 0
    else ackPending b \<and> ackDetected b = ackDetected a \<and> ackPulseStart b = 0"
  using assms by (auto simp: checkAck_def Let_def high_def clearRepeats_def)

lemma samples_edge:
  assumes "resets \<le> 6" "ackPending a" "ackPulseStart a \<noteq> 0" "trailingEdgeCounter a = 0"
    "\<not> high a l1" "\<not> high a l2" "\<not> high a l3"
  defines "width \<equiv> io_micros l1 - ackPulseStart a" and "b \<equiv> samples resets [l1, l2, l3] a"
  shows "if minAckPulseDuration a \<le> width \<and> (width \<le> maxAckPulseDuration a \<or> maxAckPulseDuration a = 0)
    then \<not> ackPending b \<and> ackDetected b \<and> transmitRepeats (ackTrack b) = 0
    else ackPending b \<and> ackDetected b = ackDetected a \<and> ackPulseStart b = 0"
proof -
  let ?a1 = "checkAck resets l1 a"
  let ?a2 = "checkAck resets l2 ?a1"
  have 1: "ackPending ?a1" "trailingEdgeCounter ?a1 = 1" "ackPulseStart ?a1 = ackPulseStart a" "ackPulseDuration ?a1 = width"
      "detector ?a1 = detector a"
    using checkAck_low [OF assms(1,2,5,3)] assms(4) by (simp_all add: width_def)
  have 2: "ackPending ?a2" "trailingEdgeCounter ?a2 = 2" "ackPulseStart ?a2 = ackPulseStart a" "ackPulseDuration ?a2 = width"
      "detector ?a2 = detector a"
    using checkAck_low [of resets ?a1 l2] 1 assms(1,3,6) high_detector [OF 1(5)] by simp_all
  have "b = checkAck resets l3 ?a2" by (simp add: b_def samples_def)
  then show ?thesis
    using checkAck_end [OF assms(1) 2(1) _ 2(2), of l3] 2(3,4) assms(3,7) high_detector [OF 2(5)] 2(5)
    by (simp add: Let_def detector_def)
qed

section \<open>A decoder\<close>

text \<open>A decoder that keeps its CVs in a memory and acknowledges every write.\<close>

definition cv_answer :: "byte list \<Rightarrow> (int \<Rightarrow> byte) \<Rightarrow> bool \<times> (int \<Rightarrow> byte)" where
  "cv_answer pk m =
    (case pk of
       [b0, b1, b2] \<Rightarrow>
         (let cv = uint (b0 AND 3) * 256 + uint b1 + 1; i = unat (b2 AND 7); on = (b2 AND 8 \<noteq> 0)
          in if b0 AND 0xFC = VERIFY_BYTE then (m cv = b2, m)
             else if b0 AND 0xFC = WRITE_BYTE then (True, m(cv := b2))
             else if b2 AND 0x10 = 0 then (bit (m cv) i = on, m)
             else (True, m(cv := put_bit i on (m cv))))
     | _ \<Rightarrow> (False, m))"

lemma cv_packet:
  assumes "1 \<le> cv" "cv \<le> 1024" "x \<in> {VERIFY_BYTE, WRITE_BYTE, BIT_MANIPULATE}"
  shows "cv1 x cv AND 0xFC = x" "uint (cv1 x cv AND 3) * 256 + uint (cv2 cv) + 1 = cv"
proof -
  let ?h = "highByte (word_of_int (cv - 1) :: u16)"
  show "cv1 x cv AND 0xFC = x"
    using assms(3) by (auto simp: cv1_def VERIFY_BYTE_def WRITE_BYTE_def BIT_MANIPULATE_def bit.conj_disj_distrib2 and.assoc)
  have w: "uint (word_of_int (cv - 1) :: u16) = cv - 1" using uint_u16 [of "cv - 1"] assms by simp
  have "cv1 x cv AND 3 = ?h AND 3"
    using assms(3) by (auto simp: cv1_def VERIFY_BYTE_def WRITE_BYTE_def BIT_MANIPULATE_def bit.conj_disj_distrib2 and.assoc)
  moreover have "uint (?h AND 3) = (cv - 1) div 256"
  proof -
    have "uint ?h = (cv - 1) div 256" by (simp only: uint_highByte w)
    moreover have "(cv - 1) div 256 mod 4 = (cv - 1) div 256" using assms by (intro mod_pos_pos_trivial) auto
    moreover have "uint (?h AND 3) = uint ?h mod 4"
      using take_bit_eq_mask [of 2 "uint ?h"] by (simp add: unsigned_and_eq mask_eq_exp_minus_1 take_bit_eq_mod)
    ultimately show ?thesis by simp
  qed
  ultimately show "uint (cv1 x cv AND 3) * 256 + uint (cv2 cv) + 1 = cv"
    by (simp only: cv2_def uint_lowByte w) simp
qed


lemma bit_instruction:
  assumes "i < 8" and x: "x \<in> {VERIFY_BIT, WRITE_BIT}"
  shows "unat ((x OR (if on then BIT_ON else BIT_OFF) OR of_nat i) AND 7) = i \<and>
    (((x OR (if on then BIT_ON else BIT_OFF) OR of_nat i) AND 8 \<noteq> 0) = on) \<and>
    ((x OR (if on then BIT_ON else BIT_OFF) OR of_nat i) AND 0x10 = 0) = (x = VERIFY_BIT)"
proof -
  have "i \<in> {0, 1, 2, 3, 4, 5, 6, 7}" using assms by auto
  then show ?thesis using x by (auto simp: BIT_ON_def BIT_OFF_def VERIFY_BIT_def WRITE_BIT_def)
qed

lemma cv_answer_service: "service_decoder cv_answer (\<lambda>m. m)"
  unfolding service_decoder_def
proof (intro allI impI conjI)
  fix d :: "int \<Rightarrow> byte" and cv :: int and v
  assume "1 \<le> cv \<and> cv \<le> 1024"
  then have cv: "1 \<le> cv" "cv \<le> 1024" by simp_all
  note pk = cv_packet [OF cv]
  show "fst (cv_answer (byte_packet VERIFY_BYTE cv v) d) = (d cv = v)"
    "snd (cv_answer (byte_packet VERIFY_BYTE cv v) d) = d"
    using pk [of VERIFY_BYTE] by (simp_all add: cv_answer_def byte_packet_def Let_def)
  show "snd (cv_answer (byte_packet WRITE_BYTE cv v) d) = d(cv := v)"
    using pk [of WRITE_BYTE] by (simp add: cv_answer_def byte_packet_def Let_def WRITE_BYTE_def VERIFY_BYTE_def)
next
  fix d :: "int \<Rightarrow> byte" and cv :: int and i :: nat and on
  assume "1 \<le> cv \<and> cv \<le> 1024" and i: "i < 8"
  then have cv: "1 \<le> cv" "cv \<le> 1024" by simp_all
  note pk = cv_packet [OF cv, of BIT_MANIPULATE]
  show "fst (cv_answer (bit_packet VERIFY_BIT on cv (of_nat i)) d) = (bit (d cv) i = on)"
    "snd (cv_answer (bit_packet VERIFY_BIT on cv (of_nat i)) d) = d"
    using pk bit_instruction [OF i, of VERIFY_BIT on]
    by (simp_all add: cv_answer_def bit_packet_def Let_def BIT_MANIPULATE_def VERIFY_BYTE_def WRITE_BYTE_def)
  show "snd (cv_answer (bit_packet WRITE_BIT on cv (of_nat i)) d) = d(cv := put_bit i on (d cv))"
    using pk bit_instruction [OF i, of WRITE_BIT on]
    by (simp add: cv_answer_def bit_packet_def Let_def BIT_MANIPULATE_def VERIFY_BYTE_def WRITE_BYTE_def VERIFY_BIT_def WRITE_BIT_def)
qed

definition idle_ack :: ack where
  "idle_ack = (blank_ack ((newTrack PREAMBLE_BITS_PROG False)\<lparr>sentResetsSincePacket := 20\<rparr>))
     \<lparr>hasProgDriver := True, canMeasureCurrent := True, progPower := POWER_ON\<rparr>"

lemma idle_session: "session_ok idle_ack"
  using wf_newTrack [of PREAMBLE_BITS_PROG False]
  by (simp add: idle_ack_def session_ok_def mode_ok_def blank_ack_def getResets_def PREAMBLE_BITS_PROG_def wf_track_def)
    (simp add: newTrack_def)

section \<open>Properties\<close>

text \<open>
  C28: the program loop always returns. In every state of the programming track that calls, loop
  turns, interrupts, current samples, power changes and changes of the track layout can lead
  to, \<^verbatim>\<open>DCCACK::loop\<close> neither reads past the end of a program nor waits in
  \<^verbatim>\<open>schedulePacket\<close>, whatever the readings are.
\<close>

theorem ack_loop_returns:
  assumes "ack_reach a"
  shows "\<exists>a'. ack_loop io a = Some a' \<and> ack_reach a'"
  using ack_loop_ok [OF ack_reach_inv [OF assms], of io] assms by (blast intro: ack_reach.turn)

theorem ack_loop_returns_witness:
  "ack_reach (readCV 29 0 (blank_ack (newTrack PREAMBLE_BITS_PROG False))) \<and>
   (\<exists>a'. ack_loop \<lparr>io_millis = 0, io_micros = 0, io_current = 0, io_mA2raw = \<lambda>x. x\<rparr>
      (readCV 29 0 (blank_ack (newTrack PREAMBLE_BITS_PROG False))) = Some a')"
proof -
  have "ack_reach (readCV 29 0 (blank_ack (newTrack PREAMBLE_BITS_PROG False)))"
    by (rule ack_reach.call [OF ack_reach.boot prog_call.intros(6)])
  note r = this
  show ?thesis
    using r ack_loop_returns [OF r, of "\<lparr>io_millis = 0, io_micros = 0, io_current = 0, io_mA2raw = \<lambda>x. x\<rparr>"]
    by (elim exE conjE) (rule conjI, assumption, rule exI, assumption)
qed

text \<open>
  C22: reading a CV gives the value in the decoder. For a decoder that follows the service-mode
  rules, \<^verbatim>\<open>DCC::readCV\<close> calls back once, with the byte stored in the CV, and changes nothing in
  the decoder.
\<close>

theorem read_cv_value:
  assumes "service_decoder answer cvs" and "session_ok a" and "1 \<le> cv" and "cv \<le> 1024"
  shows "inevitable answer (\<lambda>b e. cvs e = cvs d \<and> callbacks b = callbacks a @ [(f, uint (cvs d cv))]) (readCV cv f a) d"
proof -
  have "returns answer cvs READ_CV_PROG (start_regs cv 0 a) d (uint (cvs d cv)) (cvs d)"
    using returns_READ_CV [OF assms(1), of "start_regs cv 0 a" d] assms(3,4) by (simp add: start_regs_def)
  from Setup_calls [OF assms(2) this, of f] uint_byte [of "cvs d cv"] show ?thesis
    unfolding readCV_def by simp
qed

theorem read_cv_value_witness:
  "service_decoder cv_answer (\<lambda>m. m) \<and> session_ok idle_ack \<and>
   inevitable cv_answer (\<lambda>b e. callbacks b = [(7, 6)]) (readCV 29 7 idle_ack) ((\<lambda>_. 0)(29 := 6))"
proof -
  have c: "callbacks idle_ack = []" by (simp add: idle_ack_def blank_ack_def)
  from inevitable_mono [OF read_cv_value [OF cv_answer_service idle_session, of 29 "(\<lambda>_. 0)(29 := 6)" 7]]
  show ?thesis using cv_answer_service idle_session c by simp
qed

text \<open>
  C21: a loco address reads back. \<^verbatim>\<open>DCC::setLocoId\<close> with any address from 1 to 10239 calls back 1,
  and \<^verbatim>\<open>DCC::getLocoId\<close> afterwards calls back that address, with the marker bit 0x4000 added to a
  long address, also for a decoder that does not acknowledge writes.
\<close>

theorem loco_id_roundtrip:
  assumes dec: "service_decoder answer cvs" and ok: "session_ok a" and i: "1 \<le> i" "i \<le> 10239"
  shows "inevitable answer (\<lambda>b e. callbacks b = callbacks a @ [(f, 1)] \<and>
      inevitable answer (\<lambda>b' e'. callbacks b' = callbacks b @ [(g, if i \<le> HIGHEST_SHORT_ADDR then i else i + 0x4000)])
        (getLocoId g b) e) (setLocoId i f a) d"
proof -
  define m where "m = (if i \<le> 127 then short_id_cvs (lowByte (word_of_int i :: u16)) (cvs d)
    else long_id_cvs (highByte (word_of_int (i OR 0xC000) :: u16)) (lowByte (word_of_int (i OR 0xC000) :: u16)) (cvs d))"
  define v where "v = (if i \<le> 127 then i else i + 0x4000)"
  have m: "loco_value m = v" "bit (m 29) 5 \<or> m 1 < 128" "-1 < v" "v < 32768"
    using short_address [where i = i and m = "cvs d"] long_address [where i = i and m = "cvs d"] i by (auto simp: m_def v_def)
  have again: "inevitable answer (\<lambda>b' e'. callbacks b' = callbacks b @ [(g, v)]) (getLocoId g b) e"
    if "session_ok b" "cvs e = m" for b e
  proof -
    have "returns answer cvs LOCO_READ_ID_PROG (start_regs 0 0 b) e v m"
      using returns_READ_ID [OF dec, of e] that(2) m(1,2) by metis
    from Setup_calls [OF that(1) this, of g] m(3,4)
    have "inevitable answer (\<lambda>b' e'. cvs e' = m \<and> callbacks b' = callbacks b @ [(g, v)]) (getLocoId g b) e"
      unfolding getLocoId_def by simp
    then show ?thesis by (rule inevitable_mono) simp
  qed
  have "inevitable answer (\<lambda>b e. session_ok b \<and> ackManagerProg b = None \<and> cvs e = m \<and>
      callbacks b = callbacks a @ [(f, sint (word_of_int 1 :: u16))]) (setLocoId i f a) d"
  proof (cases "i \<le> 127")
    case True
    have "returns answer cvs SHORT_LOCO_ID_PROG (start_regs 0 0 (a\<lparr>ackManagerWord := i\<rparr>)) d 1 m"
      using returns_SHORT_ID [OF dec, of "start_regs 0 0 (a\<lparr>ackManagerWord := i\<rparr>)" d] True
      by (simp add: m_def start_regs_def regs_of_def)
    from Setup_word_returns [OF ok this] show ?thesis
      using True i by (simp add: setLocoId_def HIGHEST_SHORT_ADDR_def)
  next
    case False
    have "returns answer cvs LONG_LOCO_ID_PROG (start_regs 0 0 (a\<lparr>ackManagerWord := i OR 0xC000\<rparr>)) d 1 m"
      using returns_LONG_ID [OF dec, of "start_regs 0 0 (a\<lparr>ackManagerWord := i OR 0xC000\<rparr>)" d] False
      by (simp add: m_def start_regs_def regs_of_def)
    from Setup_word_returns [OF ok this] show ?thesis
      using False i by (simp add: setLocoId_def HIGHEST_SHORT_ADDR_def)
  qed
  moreover have "(if i \<le> HIGHEST_SHORT_ADDR then i else i + 0x4000) = v" by (simp add: v_def HIGHEST_SHORT_ADDR_def)
  ultimately show ?thesis
    by (simp only:) (rule inevitable_mono, assumption, elim conjE, intro conjI, simp, rule again)
qed

theorem loco_id_roundtrip_witness:
  "service_decoder cv_answer (\<lambda>m. m) \<and> session_ok idle_ack \<and>
   inevitable cv_answer (\<lambda>b e. callbacks b = [(1, 1)] \<and>
     inevitable cv_answer (\<lambda>b' e'. callbacks b' = callbacks b @ [(2, 1234 + 0x4000)]) (getLocoId 2 b) e)
     (setLocoId 1234 1 idle_ack) (\<lambda>_. 0)"
proof -
  have c: "callbacks idle_ack = []" by (simp add: idle_ack_def blank_ack_def)
  from loco_id_roundtrip [OF cv_answer_service idle_session, of 1234 1 2 "\<lambda>_. 0"] cv_answer_service idle_session c
  show ?thesis by (simp add: HIGHEST_SHORT_ADDR_def)
qed

text \<open>
  A consist address reads back. \<^verbatim>\<open>DCC::setConsistId\<close> with any address from 0 to 10239, in either
  direction, calls back 1 and \<^verbatim>\<open>DCC::getConsistId\<close> afterwards that address. Addresses over 127
  need CV 20, and the call wants its write acknowledged.
\<close>

theorem consist_id_roundtrip:
  assumes dec: "service_decoder answer cvs" and ok: "session_ok a" and i: "0 \<le> i" "i \<le> 10239"
    and acks: "i \<le> HIGHEST_SHORT_ADDR \<or> (\<forall>v. fst (answer (byte_packet WRITE_BYTE 20 v) d))"
  shows "inevitable answer (\<lambda>b e. callbacks b = callbacks a @ [(f, 1)] \<and>
      inevitable answer (\<lambda>b' e'. callbacks b' = callbacks b @ [(g, i)]) (getConsistId g b) e)
    (setConsistId i reverse f a) d"
proof -
  obtain h l where c: "consist_cvs i reverse = (h, l)" by (cases "consist_cvs i reverse")
  define m where "m = (cvs d)(20 := h, 19 := l)"
  have v: "consist_value m = i" using consist_address [OF i, where reverse = reverse and m = "cvs d"] c by (simp add: m_def)
  have again: "inevitable answer (\<lambda>b' e'. callbacks b' = callbacks b @ [(g, i)]) (getConsistId g b) e"
    if "session_ok b" "cvs e = m" for b e
  proof -
    have "returns answer cvs LOCO_READ_CONSIST_PROG (start_regs 0 0 b) e i m"
      using returns_READ_CONSIST [OF dec, of "start_regs 0 0 b" e] that(2) v by simp
    from Setup_calls [OF that(1) this, of g] i
    have "inevitable answer (\<lambda>b' e'. cvs e' = m \<and> callbacks b' = callbacks b @ [(g, i)]) (getConsistId g b) e"
      unfolding getConsistId_def by simp
    then show ?thesis by (rule inevitable_mono) simp
  qed
  let ?w = "push_bit 8 (uint h) OR uint l"
  have "i \<le> HIGHEST_SHORT_ADDR \<longrightarrow> h = 0" using c by (auto simp: consist_cvs_def Let_def split: if_splits)
  then have "returns answer cvs CONSIST_ID_PROG (start_regs 0 0 (a\<lparr>ackManagerWord := ?w\<rparr>)) d 1 m"
    using returns_CONSIST_ID [OF dec, of "start_regs 0 0 (a\<lparr>ackManagerWord := ?w\<rparr>)" d] acks consist_word [of h l]
    by (auto simp: m_def start_regs_def regs_of_def)
  from Setup_word_returns [OF ok this, of f] c i
  have "inevitable answer (\<lambda>b e. session_ok b \<and> ackManagerProg b = None \<and> cvs e = m \<and>
      callbacks b = callbacks a @ [(f, sint (word_of_int 1 :: u16))]) (setConsistId i reverse f a) d"
    by (simp add: setConsistId_def)
  then show ?thesis
    by (rule inevitable_mono) (elim conjE, intro conjI, simp, rule again)
qed

theorem consist_id_roundtrip_witness:
  "service_decoder cv_answer (\<lambda>m. m) \<and> session_ok idle_ack \<and>
   inevitable cv_answer (\<lambda>b e. callbacks b = [(1, 1)] \<and>
     inevitable cv_answer (\<lambda>b' e'. callbacks b' = callbacks b @ [(2, 99)]) (getConsistId 2 b) e)
     (setConsistId 99 True 1 idle_ack) (\<lambda>_. 0)"
proof -
  have c: "callbacks idle_ack = []" by (simp add: idle_ack_def blank_ack_def)
  from consist_id_roundtrip [OF cv_answer_service idle_session, of 99 "\<lambda>_. 0" 1 2 True] cv_answer_service idle_session c
  show ?thesis by (simp add: HIGHEST_SHORT_ADDR_def)
qed


text \<open>
  C29: which current pulses are an acknowledgement. In an open window, samples below the threshold
  are passed over; a pulse starts with a sample above it, survives gaps of at most two low
  samples and ends with three low samples in a row. It counts exactly when the time from its
  first sample to the first of the three lies between the configured limits (an upper limit of 0
  being none): then the window closes with an acknowledgement and the remaining repeats of
  the packet are dropped. Any other pulse leaves the window open and waits for the next.
\<close>

theorem ack_pulse:
  assumes "resets \<le> 6" and "ackPending a" and "ackPulseStart a = 0"
    and "list_all (\<lambda>io. \<not> high a io) quiet" and "high a h" and "io_micros h \<noteq> 0"
    and "short_gaps 0 (map (high a) pulse)" and "list_all (\<lambda>io. \<not> high a io) [l1, l2, l3]"
  shows "let b = samples resets (quiet @ h # pulse @ [l1, l2, l3]) a; width = io_micros l1 - io_micros h
    in if minAckPulseDuration a \<le> width \<and> (width \<le> maxAckPulseDuration a \<or> maxAckPulseDuration a = 0)
       then \<not> ackPending b \<and> ackDetected b \<and> transmitRepeats (ackTrack b) = 0
       else ackPending b \<and> ackDetected b = ackDetected a \<and> ackPulseStart b = 0"
proof -
  let ?q = "samples resets quiet a"
  let ?h = "checkAck resets h ?q"
  let ?p = "samples resets pulse ?h"
  have q: "ackPending ?q" "ackPulseStart ?q = 0" "detector ?q = detector a"
    using samples_quiet [OF assms(1-4)] by simp_all
  have h: "ackPending ?h" "ackPulseStart ?h = io_micros h" "trailingEdgeCounter ?h = 0" "detector ?h = detector a"
    using checkAck_high [OF assms(1) q(1), of h] q assms(5) high_detector [OF q(3)] by simp_all
  have p: "ackPending ?p" "ackPulseStart ?p = io_micros h" "trailingEdgeCounter ?p = 0" "detector ?p = detector a"
    using samples_pulse [OF assms(1) h(1), of 0 pulse] h assms(6,7) high_detector [OF h(4)] by simp_all
  have "samples resets (quiet @ h # pulse @ [l1, l2, l3]) a = samples resets [l1, l2, l3] ?p"
    by (simp add: samples_def)
  then show ?thesis
    using samples_edge [OF assms(1) p(1), of l1 l2 l3] p assms(6,8) high_detector [OF p(4)]
    by (simp add: detector_def Let_def)
qed

theorem ack_pulse_witness:
  "let io = (\<lambda>t c. \<lparr>io_millis = 0, io_micros = t, io_current = c, io_mA2raw = (\<lambda>x. x)\<rparr>);
       a = idle_ack\<lparr>ackPending := True, ackThreshold := 100\<rparr>;
       b = samples 2 ([io 58 0] @ io 116 120 # [io 3000 90, io 5000 130] @ [io 6116 0, io 6174 0, io 6232 0]) a
   in ackDetected b \<and> \<not> ackPending b"
proof -
  define io where "io = (\<lambda>t c. \<lparr>io_millis = 0, io_micros = t, io_current = c, io_mA2raw = (\<lambda>x. x)\<rparr>)"
  define a where "a = idle_ack\<lparr>ackPending := True, ackThreshold := 100\<rparr>"
  have "ackPending a" "ackPulseStart a = 0" "ackThreshold a = 100" "minAckPulseDuration a = 2000" "maxAckPulseDuration a = 20000"
    by (simp_all add: a_def idle_ack_def blank_ack_def)
  from ack_pulse [of 2 a "[io 58 0]" "io 116 120" "[io 3000 90, io 5000 130]" "io 6116 0" "io 6174 0" "io 6232 0"] this
  show ?thesis unfolding Let_def io_def [symmetric] a_def [symmetric] by (simp add: high_def io_def Let_def)
qed

end
