(* ===== verification/AckRuns.thy ===== *)
theory AckRuns
  imports AckSession "HOL-Library.Product_Lexorder"
begin

text \<open>
  Sessions on the programming track with everything that interleaves: turns of \<^verbatim>\<open>DCCACK::loop\<close> and
  timer interrupts on the programming track, in any order. A session is a sequence of events; a
  \<open>Tick\<close> is the programming track's share of \<^verbatim>\<open>DCCWaveform::interruptHandler\<close>, with the current sample of
  \<^verbatim>\<open>DCCACK::checkAck\<close>. The machine waits in such a run: for resets in front of a packet, for the
  end of the acknowledgement window, for the clock in the states \<^verbatim>\<open>WAITING_100\<close> and \<^verbatim>\<open>WAITING_30\<close> of a
  callback. The track may be off (it is switched on for the program and off afterwards) or joined to the main
  track (it is taken apart for the program and joined again).

  Of the decoder a run assumes that an acknowledgement window closes with the decoder's answer to
  the packet sent. That it does close, that resets are sent and that every wait ends is proved: \<open>tick_less\<close> and
  \<open>resets_come\<close> show it of the waveform generator, \<open>step_moves\<close> shows that a turn of the loop either moves the program on or waits.
\<close>

section \<open>Runs\<close>

datatype event = Turn ack_io | Tick ack_io

definition prog_interrupt :: "ack_io \<Rightarrow> ack \<Rightarrow> ack" where
  "prog_interrupt io a =
    (let (t, sampled) = trackInterrupt (ackTrack a)
     in if sampled then checkAck (getResets t) io (a\<lparr>ackTrack := t\<rparr>) else a\<lparr>ackTrack := t\<rparr>)"

fun happens :: "(byte list \<Rightarrow> 'd \<Rightarrow> bool \<times> 'd) \<Rightarrow> event \<Rightarrow> ack \<times> 'd \<Rightarrow> ack \<times> 'd \<Rightarrow> bool" where
  "happens answer (Turn io) (a, d) (a', d') \<longleftrightarrow> a' = (case ack_loop io a of Some b \<Rightarrow> b | None \<Rightarrow> a) \<and> d' = d"
| "happens answer (Tick io) (a, d) (a', d') \<longleftrightarrow> a' = prog_interrupt io a \<and>
     (if ackPending a \<and> \<not> ackPending a' then answer (sent_packet a) d = (ackDetected a', d') else d' = d)"

definition session_run :: "(byte list \<Rightarrow> 'd \<Rightarrow> bool \<times> 'd) \<Rightarrow> (nat \<Rightarrow> event) \<Rightarrow> (nat \<Rightarrow> ack \<times> 'd) \<Rightarrow> bool" where
  "session_run answer ev s \<longleftrightarrow> (\<forall>n. happens answer (ev n) (s n) (s (Suc n)))"

text \<open>Interrupts go on, and so do the turns of the loop, on a clock that does not stand still.\<close>

definition goes_on :: "(nat \<Rightarrow> event) \<Rightarrow> bool" where
  "goes_on ev \<longleftrightarrow> (\<forall>n. \<exists>m \<ge> n. \<exists>io. ev m = Tick io) \<and>
     (\<forall>n x. \<exists>m \<ge> n. \<exists>io. ev m = Turn io \<and> 100 \<le> io_millis io - x)"

lemma goes_onD:
  assumes "goes_on ev"
  obtains (tick) m io where "n \<le> m" "ev m = Tick io"
  using assms unfolding goes_on_def by blast

section \<open>Interrupts bring resets\<close>

text \<open>
  How far the generator is from the end of what it has to send: the packet handed in, its repeats, the
  resets up to the 250 it counts, the bits up to the next packet, the pulses of the bit.
\<close>

definition bits_left :: "track \<Rightarrow> nat" where
  "bits_left t = (if remainingPreambles t \<le> 1
     then requiredPreambles t + 9 * max 1 (transmitLength t) - data_pos t + remainingPreambles t
     else remainingPreambles t)"

fun pulses_left :: "WAVE_STATE \<Rightarrow> nat" where
  "pulses_left WAVE_HIGH_0 = 3"
| "pulses_left WAVE_MID_0 = 2"
| "pulses_left WAVE_LOW_0 = 1"
| "pulses_left WAVE_MID_1 = 1"
| "pulses_left _ = 0"

definition sending_left :: "track \<Rightarrow> nat \<times> nat \<times> nat \<times> nat \<times> nat" where
  "sending_left t = (of_bool (packetPending t), transmitRepeats t, 250 - getResets t, bits_left t, pulses_left (wstate t))"

lemma data_pos_less: "wf_track t \<Longrightarrow> data_pos t < 9 * max 1 (transmitLength t)"
  by (auto simp: wf_track_def data_pos_def max_def split: if_splits)

lemma interrupt2_less:
  assumes "wf_track t" "getResets t < 250"
  shows "sending_left (interrupt2 t) < (of_bool (packetPending t), transmitRepeats t, 250 - getResets t, bits_left t, 0)"
proof (cases "remainingPreambles t = 2")
  case True
  then show ?thesis using assms(2)
    by (auto simp: interrupt2_def Let_def promotePendingPacket_def sending_left_def clearResets_def getResets_def)
next
  case False
  then have same: "packetPending (interrupt2 t) = packetPending t" "transmitRepeats (interrupt2 t) = transmitRepeats t"
      "getResets (interrupt2 t) = getResets t"
    by (auto simp: interrupt2_def Let_def getResets_def)
  have "bits_left (interrupt2 t) < bits_left t"
  proof (cases "remainingPreambles t = 0")
    case True
    then show ?thesis
      using interrupt2_data_pos [OF assms(1) True] interrupt2_data_same [OF True] data_pos_less [OF assms(1)] assms(1)
      by (auto simp: bits_left_def same_packet_def wf_track_def split: if_splits)
  next
    case pos: False
    then show ?thesis using False data_pos_less [OF assms(1)] assms(1)
      by (auto simp: interrupt2_def Let_def bits_left_def wf_track_def data_pos_def)
  qed
  then show ?thesis by (simp add: sending_left_def same)
qed

lemma pulses_less: "stateTransform w \<noteq> WAVE_PENDING \<Longrightarrow> pulses_left (stateTransform w) < pulses_left w"
  by (cases w) simp_all

lemma tick_less:
  assumes "wf_track t" "getResets t < 250"
  shows "sending_left (fst (trackInterrupt t)) < sending_left t"
proof (cases "stateTransform (wstate t) = WAVE_PENDING")
  case True
  let ?t = "t\<lparr>wstate := WAVE_PENDING\<rparr>"
  have "bits_left ?t = bits_left t" "getResets ?t = getResets t" by (simp_all add: bits_left_def data_pos_def getResets_def)
  then have "sending_left (interrupt2 ?t) < (of_bool (packetPending t), transmitRepeats t, 250 - getResets t, bits_left t, 0)"
    using interrupt2_less [of ?t] assms by (simp add: wf_wstate)
  then show ?thesis using True by (auto simp: trackInterrupt_def Let_def sending_left_def less_prod_def)
next
  case False
  then show ?thesis using pulses_less [OF False]
    by (simp add: trackInterrupt_def Let_def sending_left_def getResets_def bits_left_def data_pos_def)
qed

text \<open>Without a packet waiting the count never falls.\<close>

lemma tick_keeps_resets: "getResets t = 250 \<Longrightarrow> \<not> packetPending t \<Longrightarrow>
  getResets (fst (trackInterrupt t)) = 250 \<and> \<not> packetPending (fst (trackInterrupt t))"
  by (auto simp: trackInterrupt_def interrupt2_def Let_def promotePendingPacket_def getResets_def)

lemma tick_pending_packet [simp]:
  "pendingPacket (fst (trackInterrupt t)) = pendingPacket t" "pendingLength (fst (trackInterrupt t)) = pendingLength t"
  by (auto simp: trackInterrupt_def interrupt2_def Let_def promotePendingPacket_def clearResets_def)

text \<open>A bit begins with a pulse of which the next interrupt takes a sample.\<close>

lemma tick_sampled: "snd (trackInterrupt t) \<longleftrightarrow> stateTransform (wstate t) \<noteq> WAVE_PENDING"
  by (simp add: trackInterrupt_def Let_def)

lemma tick_not_sampled: "\<not> snd (trackInterrupt t) \<Longrightarrow> stateTransform (wstate (fst (trackInterrupt t))) \<noteq> WAVE_PENDING"
  by (auto simp: trackInterrupt_def interrupt2_def Let_def promotePendingPacket_def clearResets_def split: if_splits)

text \<open>What a sample leaves alone.\<close>

lemma checkAck_frame [simp]:
  "regs_of (checkAck n io a) = regs_of a" "tag (checkAck n io a) = tag a" "ackManagerProg (checkAck n io a) = ackManagerProg a"
  "joined (checkAck n io a) = joined a" "ackManagerRejoin (checkAck n io a) = ackManagerRejoin a"
  "autoPowerOff (checkAck n io a) = autoPowerOff a" "progPower (checkAck n io a) = progPower a"
  "callbackState (checkAck n io a) = callbackState a" "callbackStart (checkAck n io a) = callbackStart a"
  "callbacks (checkAck n io a) = callbacks a" "ackManagerCallback (checkAck n io a) = ackManagerCallback a"
  "\<not> ackPending a \<Longrightarrow> checkAck n io a = a"
  by (simp_all add: checkAck_def Let_def session_defs)

lemma checkAck_track: "ackTrack (checkAck n io a) = ackTrack a \<or> ackTrack (checkAck n io a) = clearRepeats (ackTrack a)"
  by (simp add: checkAck_def Let_def)

lemma checkAck_closes: "6 < n \<Longrightarrow> \<not> ackPending (checkAck n io a)"
  by (simp add: checkAck_def)

section \<open>A program under way\<close>

text \<open>
  What the program of a state still computes: behind a packet the decoder's answer, if it is not in yet,
  is the one it will give.
\<close>

definition at_wack :: "ack \<Rightarrow> bool" where
  "at_wack a \<longleftrightarrow> (\<exists>y p. ackManagerProg a = Some (y # p) \<and> opcode y = WACK)"

definition answered :: "(byte list \<Rightarrow> 'd \<Rightarrow> bool \<times> 'd) \<Rightarrow> ack \<Rightarrow> 'd \<Rightarrow> bool \<times> 'd" where
  "answered answer a d = (if ackPending a then answer (sent_packet a) d else (ackDetected a, d))"

definition rest_of_run :: "(byte list \<Rightarrow> 'd \<Rightarrow> bool \<times> 'd) \<Rightarrow> ack \<Rightarrow> 'd \<Rightarrow> (int \<times> regs \<times> 'd) option" where
  "rest_of_run answer a d =
    (case ackManagerProg a of
       None \<Rightarrow> None
     | Some p \<Rightarrow>
         if at_wack a then (let (k, e) = answered answer a d in run_prog answer (tl p) ((regs_of a)\<lparr>r_ack := k\<rparr>) e)
         else run_prog answer p (regs_of a) d)"

definition retried :: "(byte list \<Rightarrow> 'd \<Rightarrow> bool \<times> 'd) \<Rightarrow> ackOp list \<Rightarrow> nat \<Rightarrow> (int \<times> regs \<times> 'd) option \<Rightarrow> (int \<times> 'd) option" where
  "retried answer p n run =
    (case run of
       None \<Rightarrow> None
     | Some (v, r, d) \<Rightarrow>
         if v = -1 then (case n of 0 \<Rightarrow> Some (v, d) | Suc m \<Rightarrow> run_retries answer p m r d) else Some (v, d))"

definition outcome :: "(byte list \<Rightarrow> 'd \<Rightarrow> bool \<times> 'd) \<Rightarrow> ack \<Rightarrow> 'd \<Rightarrow> (int \<times> 'd) option" where
  "outcome answer a d = retried answer (ackManagerProgStart a) (unat (ackManagerRetry a)) (rest_of_run answer a d)"

lemma run_retries_retried: "run_retries answer p n r d = retried answer p n (run_prog answer p r d)"
  by (simp add: retried_def split: option.split nat.split)

text \<open>
  While a program is under way the track is on, except in the pause of 30 ms that ends a session on a joined track:
  then the result is there already.
\<close>

definition result_there :: "ack \<Rightarrow> bool" where
  "result_there a \<longleftrightarrow> (\<exists>v. at_result v a \<and> (v = -1 \<longrightarrow> ackManagerRetry a = 0))"

definition powered :: "ack \<Rightarrow> bool" where
  "powered a \<longleftrightarrow> progPower a \<noteq> POWER_OVERLOAD \<and>
     (progPower a = POWER_OFF \<longrightarrow> callbackState a = WAITING_30 \<and> result_there a)"

definition account :: "ack \<Rightarrow> (nat \<times> int) list \<times> nat \<times> bool \<times> bool \<times> bool" where
  "account a = (callbacks a, ackManagerCallback a, joined a, ackManagerRejoin a, autoPowerOff a)"

definition underway :: "(byte list \<Rightarrow> 'd \<Rightarrow> bool \<times> 'd) \<Rightarrow> int \<times> 'd \<Rightarrow> (nat \<times> int) list \<times> nat \<times> bool \<times> bool \<times> bool \<Rightarrow> ack \<Rightarrow> 'd \<Rightarrow> bool" where
  "underway answer goal acc a d \<longleftrightarrow> outcome answer a d = Some goal \<and> account a = acc \<and> \<not> joined a \<and>
     prog_track_ok (ackTrack a) \<and> powered a \<and> (ackPending a \<longrightarrow> at_wack a)"

fun finished :: "int \<times> 'd \<Rightarrow> (nat \<times> int) list \<times> nat \<times> bool \<times> bool \<times> bool \<Rightarrow> ack \<Rightarrow> 'd \<Rightarrow> bool" where
  "finished (v, d') (cbs, f, j, rejoin, off) a d \<longleftrightarrow>
     ackManagerProg a = None \<and> \<not> ackPending a \<and> d = d' \<and> callbacks a = cbs @ [(f, sint (word_of_int v :: u16))] \<and>
     (joined a \<longleftrightarrow> rejoin) \<and> (progPower a = POWER_OFF \<longleftrightarrow> off)"

fun callbacks_left :: "CALLBACK_STATE \<Rightarrow> nat" where
  "callbacks_left AFTER_READ = 3"
| "callbacks_left AFTER_WRITE = 3"
| "callbacks_left WAITING_100 = 2"
| "callbacks_left WAITING_30 = 1"
| "callbacks_left READY = 0"

definition work_left :: "ack \<Rightarrow> nat \<times> nat \<times> nat" where
  "work_left a = (unat (ackManagerRetry a), prog_left a, callbacks_left (callbackState a))"

text \<open>A turn that does not move on leaves what it waits for alone; nothing makes it wait for longer than this.\<close>

definition waits :: "ack_io \<Rightarrow> ack \<Rightarrow> ack \<Rightarrow> bool" where
  "waits io a a' \<longleftrightarrow> ackTrack a' = ackTrack a \<and> ackPending a' = ackPending a \<and> callbackStart a' = callbackStart a \<and>
     work_left a' = work_left a \<and> (ackPending a \<or> getResets (ackTrack a) < 20 \<or> io_millis io - callbackStart a < 100)"

definition moves :: "(byte list \<Rightarrow> 'd \<Rightarrow> bool \<times> 'd) \<Rightarrow> int \<times> 'd \<Rightarrow> (nat \<times> int) list \<times> nat \<times> bool \<times> bool \<times> bool \<Rightarrow>
    ack_io \<Rightarrow> ack \<Rightarrow> 'd \<Rightarrow> ack \<Rightarrow> bool" where
  "moves answer goal acc io a d a' \<longleftrightarrow>
     finished goal acc a' d \<or> underway answer goal acc a' d \<and> (work_left a' < work_left a \<or> waits io a a')"

text \<open>Stepping on inside the program: an instruction that does not call back.\<close>

lemma outcome_cong:
  assumes "rest_of_run answer a' d = rest_of_run answer a d" "tag a' = tag a"
  shows "outcome answer a' d = outcome answer a d"
  using assms by (simp add: outcome_def tag_def)

lemma not_at_wack_run:
  "\<not> ackPending a \<Longrightarrow> ackManagerProg a = Some p \<Longrightarrow> run_prog answer p (regs_of a) d = Some x \<Longrightarrow>
   rest_of_run answer a d = run_prog answer p (regs_of a) d"
  by (cases p) (auto simp: rest_of_run_def at_wack_def split: if_splits)

definition progressed :: "ack \<Rightarrow> ack \<Rightarrow> bool" where
  "progressed a a' \<longleftrightarrow> tag a' = tag a \<and> account a' = account a \<and> progPower a' = progPower a \<and> prog_track_ok (ackTrack a') \<and>
     prog_left a' < prog_left a"

lemma progressed_underway:
  assumes "underway answer goal acc a d" "progressed a a'" "progPower a \<noteq> POWER_OFF"
    and "rest_of_run answer a' d = rest_of_run answer a d" "ackPending a' \<longrightarrow> at_wack a'"
  shows "underway answer goal acc a' d \<and> work_left a' < work_left a"
  using assms outcome_cong [of answer a' d a]
  by (auto simp: underway_def progressed_def powered_def work_left_def tag_def account_def)

lemma result_outcome:
  assumes "at_result v a" "\<not> ackPending a" "v = -1 \<longrightarrow> ackManagerRetry a = 0"
  shows "outcome answer a d = Some (v, d)"
proof -
  obtain y p where y: "ackManagerProg a = Some (y # p)" "result_of (opcode y) (regs_of a) = Some v"
    using assms(1) by (auto simp: at_result_def)
  then have "rest_of_run answer a d = Some (v, regs_of a, d)" by (auto simp: rest_of_run_def at_wack_def)
  then show ?thesis using assms(3) by (auto simp: outcome_def retried_def)
qed

lemma result_run:
  assumes "underway answer goal acc a d" "ackManagerProg a = Some (y # p)" "result_of (opcode y) (regs_of a) = Some v"
  shows "\<not> ackPending a" "outcome answer a d = retried answer (ackManagerProgStart a) (unat (ackManagerRetry a)) (Some (v, regs_of a, d))"
    "progPower a = POWER_OFF \<Longrightarrow> v = -1 \<Longrightarrow> ackManagerRetry a = 0"
proof -
  have "\<not> at_wack a" using assms(2,3) by (auto simp: at_wack_def)
  then show "\<not> ackPending a" using assms(1) by (simp add: underway_def)
  show "outcome answer a d = retried answer (ackManagerProgStart a) (unat (ackManagerRetry a)) (Some (v, regs_of a, d))"
    using assms(2,3) \<open>\<not> at_wack a\<close> by (simp add: outcome_def rest_of_run_def)
  show "ackManagerRetry a = 0" if "progPower a = POWER_OFF" "v = -1"
    using assms that by (auto simp: underway_def powered_def result_there_def at_result_def)
qed

text \<open>A failed run with retries left starts the program again.\<close>

lemma restart_underway:
  assumes "underway answer goal acc a d" "ackManagerProg a = Some (y # p)" "result_of (opcode y) (regs_of a) = Some (-1)"
    and "ackManagerRetry a \<noteq> 0"
    and c: "c = a\<lparr>ackRetrySum := s, ackManagerRetry := ackManagerRetry a - 1, ackManagerProg := Some (ackManagerProgStart a)\<rparr>"
  shows "underway answer goal acc c d \<and> work_left c < work_left a"
proof -
  let ?n = "unat (ackManagerRetry a - 1)"
  note r = result_run [OF assms(1-3)]
  have n: "unat (ackManagerRetry a) = Suc ?n" using assms(4) by (simp add: unat_minus_one unat_gt_0)
  then have goal: "run_retries answer (ackManagerProgStart a) ?n (regs_of a) d = Some goal"
    using assms(1) r(2) by (simp add: underway_def retried_def)
  then obtain x where "run_prog answer (ackManagerProgStart a) (regs_of a) d = Some x"
    by (simp only: run_retries_retried) (auto simp: retried_def split: option.splits)
  then have "rest_of_run answer c d = run_prog answer (ackManagerProgStart a) (regs_of a) d"
    using not_at_wack_run [of c "ackManagerProgStart a" answer d x] r(1) by (simp add: c regs_of_def)
  then have "outcome answer c d = Some goal" using goal by (simp add: outcome_def c run_retries_retried del: run_retries.simps)
  moreover have "progPower a \<noteq> POWER_OFF" using r(3) assms(4) by blast
  ultimately show ?thesis using assms(1) r(1) n
    by (auto simp: underway_def c account_def powered_def work_left_def)
qed

lemma callback_moves:
  assumes u: "underway answer goal acc a d" and v: "at_result v a" "v = -1 \<longrightarrow> ackManagerRetry a = 0" and np: "\<not> ackPending a"
  shows "moves answer goal acc io a d (callback io v a)"
proof -
  have goal: "goal = (v, d)" using result_outcome [OF v(1) np v(2), of answer d] u by (simp add: underway_def)
  have stays: "underway answer goal acc c d"
    if "regs_of c = regs_of a" "ackManagerProg c = ackManagerProg a" "ackManagerRetry c = ackManagerRetry a" "\<not> ackPending c"
      "account c = account a" "prog_track_ok (ackTrack c)" "progPower c \<noteq> POWER_OVERLOAD"
      "progPower c = POWER_OFF \<longrightarrow> callbackState c = WAITING_30" for c
  proof -
    have "at_result v c" "v = -1 \<longrightarrow> ackManagerRetry c = 0" using v that by (simp_all add: at_result_def)
    then show ?thesis using result_outcome [of v c answer d] that u goal
      by (auto simp: underway_def powered_def result_there_def account_def)
  qed
  have off: "progPower a = POWER_OFF \<longrightarrow> callbackState a = WAITING_30" "progPower a \<noteq> POWER_OVERLOAD" "prog_track_ok (ackTrack a)"
      "\<not> joined a" "account a = acc"
    using u by (simp_all add: underway_def powered_def)
  have "\<not> (v = -1 \<and> ackManagerRetry a > 0)" using v(2) by auto
  note def = callback_def if_not_P [OF this]
  show ?thesis
  proof (cases "callbackState a = READY")
    case READY: True
    have "ackManagerProg (callback io v a) = None" "\<not> ackPending (callback io v a)"
        "callbacks (callback io v a) = callbacks a @ [(ackManagerCallback a, sint (word_of_int v :: u16))]"
        "joined (callback io v a) = ackManagerRejoin a" "progPower (callback io v a) = POWER_OFF \<longleftrightarrow> autoPowerOff a"
      using READY np off(1,4) by (simp_all add: def Let_def call_back_def AckManager.setPower_def)
    then show ?thesis using off(5) goal by (cases acc) (simp add: moves_def account_def)
  next
    case False
    then have "underway answer goal acc (callback io v a) d"
      using off np by (intro stays; cases "callbackState a") (auto simp: def AckManager.setPower_def regs_of_def account_def)
    moreover have "work_left (callback io v a) < work_left a \<or> waits io a (callback io v a)"
      using False less_trans [of "io_millis io - callbackStart a" 30 100]
      by (cases "callbackState a") (auto simp: def waits_def work_left_def prog_left_def AckManager.setPower_def)
    ultimately show ?thesis by (simp add: moves_def)
  qed
qed

lemma result_moves:
  assumes u: "underway answer goal acc a d" and y: "ackManagerProg a = Some (y # p)" "result_of (opcode y) (regs_of a) = Some v"
  shows "\<exists>a'. ack_step io a = Yield a' \<and> moves answer goal acc io a d a'"
proof -
  obtain b s where st: "ack_step io a = Yield (callback io v (a\<lparr>ackManagerByte := b, ackRetrySum := s\<rparr>))"
    and b: "result_of (opcode y) ((regs_of a)\<lparr>r_byte := b\<rparr>) = Some v" "v = -1 \<longrightarrow> b = ackManagerByte a"
    using result_step [OF y, of io] by blast
  let ?a = "a\<lparr>ackManagerByte := b, ackRetrySum := s\<rparr>"
  note r = result_run [OF u y]
  show ?thesis
  proof (cases "v = -1 \<and> ackManagerRetry a \<noteq> 0")
    case True
    then have "callback io v ?a = a\<lparr>ackRetrySum := s + 1, ackManagerRetry := ackManagerRetry a - 1,
        ackManagerProg := Some (ackManagerProgStart a)\<rparr>"
      using b(2) by (simp add: callback_def word_gt_0)
    then show ?thesis using st restart_underway [OF u y(1), of "callback io v ?a" "s + 1"] True y(2) by (simp add: moves_def)
  next
    case False
    have res: "at_result v ?a" using y b(1) by (simp add: at_result_def regs_of_def)
    have np: "\<not> ackPending ?a" "v = -1 \<longrightarrow> ackManagerRetry ?a = 0" using r(1) False by simp_all
    have "outcome answer ?a d = Some (v, d)" by (rule result_outcome [OF res np])
    moreover have "outcome answer a d = Some (v, d)" using r(2) False by (auto simp: retried_def)
    moreover have "result_there ?a" using res False by (auto simp: result_there_def)
    ultimately have "underway answer goal acc ?a d" using u r(1) by (auto simp: underway_def account_def powered_def)
    then have "moves answer goal acc io ?a d (callback io v ?a)" by (rule callback_moves [OF _ res np(2,1)])
    then show ?thesis using st by (auto simp: moves_def waits_def work_left_def prog_left_def)
  qed
qed

text \<open>An instruction that does not call back goes on or waits.\<close>

definition steps_on :: "(byte list \<Rightarrow> 'd \<Rightarrow> bool \<times> 'd) \<Rightarrow> ack_io \<Rightarrow> ack \<Rightarrow> 'd \<Rightarrow> bool" where
  "steps_on answer io a d \<longleftrightarrow>
     (\<exists>a'. ack_step io a = Go a' \<and> progressed a a' \<and> rest_of_run answer a' d = rest_of_run answer a d \<and> (ackPending a' \<longrightarrow> at_wack a')) \<or>
     ack_step io a = Yield a \<and> waits io a a"

lemma packet_steps:
  assumes ok: "prog_track_ok (ackTrack a)" and y: "ackManagerProg a = Some (y # p)" "packet_of (opcode y) (regs_of a) = Some m"
    and run: "rest_of_run answer a d = Some x"
  shows "steps_on answer io a d"
proof (cases "checkResets RESET_MIN a")
  case True
  then have "ack_step io a = Yield a" using y by (cases "opcode y") (simp_all add: ack_step_def send_def)
  then show ?thesis using True by (simp add: steps_on_def waits_def checkResets_def RESET_MIN_def)
next
  case False
  let ?x = "opcode y"
  obtain z q where p: "p = z # q" "opcode z = WACK"
    and r: "rest_of_run answer a d = (let (k, e) = answer m d in run_prog answer q ((regs_of a)\<lparr>r_ack := k\<rparr>) e)"
  proof -
    have "\<not> at_wack a" "result_of ?x (regs_of a) = None" using y by (cases ?x; auto simp: at_wack_def)+
    then show thesis using run y that by (cases p) (auto simp: rest_of_run_def Let_def split: if_splits prod.splits)
  qed
  have "length m \<le> MAX_PACKET_SIZE" using y(2) by (cases ?x) (auto simp: bit_packet_def byte_packet_def MAX_PACKET_SIZE_def)
  then obtain t where t: "schedulePacket m (length m) PROG_REPEATS (ackTrack a) = Some t" "prog_track_ok t"
      "take (pendingLength t - 1) (pendingPacket t) = m"
    using track_ok_schedule [OF ok _ _, of m PROG_REPEATS] False by (auto simp: PROG_REPEATS_def checkResets_def RESET_MIN_def)
  have "\<exists>f. exec_op ?x p io a = Go (f (setAckPending io (a\<lparr>ackTrack := t\<rparr>))) \<and>
      (f = (\<lambda>a. a) \<or> f = callbackState_update (\<lambda>_. AFTER_WRITE))"
    using y(2) t(1) False
    by (cases ?x) (auto simp: send_def bit_message_def byte_message_def bit_packet_def byte_packet_def regs_of_def
      intro: exI [where x = "\<lambda>a. a"] exI [where x = "callbackState_update (\<lambda>_. AFTER_WRITE)"])
  then obtain f where f: "ack_step io a = Go (next_op (f (setAckPending io (a\<lparr>ackTrack := t\<rparr>))))"
    "f = (\<lambda>a. a) \<or> f = callbackState_update (\<lambda>_. AFTER_WRITE)"
    using y(1) by (auto simp: ack_step_def)
  let ?a = "next_op (f (setAckPending io (a\<lparr>ackTrack := t\<rparr>)))"
  have a: "ackManagerProg ?a = Some p" "ackPending ?a" "sent_packet ?a = m" "regs_of ?a = regs_of a" "progressed a ?a"
    using f(2) y(1) t(2,3)
    by (auto simp: next_op_def setAckPending_def sent_packet_def regs_of_def progressed_def tag_def account_def prog_left_def)
  moreover have "at_wack ?a" using a(1) p by (simp add: at_wack_def)
  ultimately have "rest_of_run answer ?a d = (let (k, e) = answer m d in run_prog answer q ((regs_of a)\<lparr>r_ack := k\<rparr>) e)"
    using p by (simp add: rest_of_run_def answered_def)
  with r have "rest_of_run answer ?a d = rest_of_run answer a d" by simp
  with f(1) a(5) \<open>at_wack ?a\<close> show ?thesis unfolding steps_on_def by blast
qed

lemma wack_steps:
  assumes "prog_track_ok (ackTrack a)" "ackManagerProg a = Some (y # p)" "opcode y = WACK" "rest_of_run answer a d = Some x"
  shows "steps_on answer io a d"
proof (cases "ackPending a")
  case True
  then show ?thesis using assms by (simp add: steps_on_def ack_step_def getAck_def waits_def)
next
  case False
  let ?a = "next_op (a\<lparr>ackReceived := ackDetected a\<rparr>)"
  have "at_wack a" using assms(2,3) by (simp add: at_wack_def)
  then have r: "rest_of_run answer a d = run_prog answer p (regs_of ?a) d"
    using assms(2) False by (simp add: rest_of_run_def answered_def regs_of_def next_op_def)
  then have "rest_of_run answer ?a d = rest_of_run answer a d"
    using not_at_wack_run [of ?a p answer d x] assms(2,4) False by (simp add: next_op_def)
  moreover have "ack_step io a = Go ?a" using assms(2,3) False by (simp add: ack_step_def getAck_def)
  moreover have "progressed a ?a" using assms(1,2) by (simp add: progressed_def next_op_def tag_def account_def prog_left_def)
  moreover have "\<not> ackPending ?a" using False by (simp add: next_op_def)
  ultimately show ?thesis unfolding steps_on_def by blast
qed

lemma operand_steps:
  assumes "prog_track_ok (ackTrack a)" "ackManagerProg a = Some (y # z # p)" "takes_operand (opcode y)" "\<not> ackPending a"
    and r: "rest_of_run answer a d = run_prog answer p (put_operand (opcode y) (flash_byte z) (regs_of a)) d" "rest_of_run answer a d = Some x"
  shows "steps_on answer io a d"
proof -
  have "\<exists>a1. ack_step io a = Go a1 \<and> regs_of a1 = put_operand (opcode y) (flash_byte z) (regs_of a) \<and> ackManagerProg a1 = Some p \<and>
      progressed a a1 \<and> \<not> ackPending a1"
    using assms(1-4) by (auto simp: op_classes ack_step_def operand_def next_op_def regs_of_def progressed_def tag_def account_def prog_left_def)
  then obtain a1 where a1: "ack_step io a = Go a1" "regs_of a1 = put_operand (opcode y) (flash_byte z) (regs_of a)"
    "ackManagerProg a1 = Some p" "progressed a a1" "\<not> ackPending a1" by blast
  then have "rest_of_run answer a1 d = rest_of_run answer a d" using not_at_wack_run [of a1 p answer d x] r by simp
  then show ?thesis using a1 unfolding steps_on_def by blast
qed

lemma skip_steps:
  assumes "prog_track_ok (ackTrack a)" "ackManagerProg a = Some (y # p)" "skips (opcode y) (regs_of a)" "skip_target p \<noteq> []" "\<not> ackPending a"
    and r: "rest_of_run answer a d = run_prog answer (tl (skip_target p)) (regs_of a) d" "rest_of_run answer a d = Some x"
  shows "steps_on answer io a d"
proof -
  obtain z q where q: "dropWhile (\<lambda>x. flash_byte x \<noteq> 0xFF) p = z # q"
    using assms(4) by (cases "skip_target p") (auto simp: skip_target_def)
  have "exec_op (opcode y) p io a = Go (a\<lparr>ackManagerProg := Some (z # q)\<rparr>)"
    using assms(3) q by (cases "opcode y") (simp_all add: skip_if_def regs_of_def)
  then have st: "ack_step io a = Go (a\<lparr>ackManagerProg := Some q\<rparr>)" using assms(2) by (simp add: ack_step_def next_op_def)
  have "length q \<le> length p" using length_dropWhile_le [of "\<lambda>x. flash_byte x \<noteq> 0xFF" p] q by simp
  then have "progressed a (a\<lparr>ackManagerProg := Some q\<rparr>)"
    using assms(1,2) by (simp add: progressed_def tag_def account_def prog_left_def)
  moreover have "rest_of_run answer (a\<lparr>ackManagerProg := Some q\<rparr>) d = rest_of_run answer a d"
    using not_at_wack_run [of "a\<lparr>ackManagerProg := Some q\<rparr>" q answer d x] r q assms(5) by (simp add: skip_target_def regs_of_def)
  ultimately show ?thesis using st assms(5) unfolding steps_on_def by (intro disjI1 exI [where x = "a\<lparr>ackManagerProg := Some q\<rparr>"]) simp
qed

lemma plain_steps:
  assumes "prog_track_ok (ackTrack a)" "ackManagerProg a = Some (y # p)" "result_of (opcode y) (regs_of a) = None"
      "packet_of (opcode y) (regs_of a) = None" "opcode y \<noteq> WACK" "\<not> skips (opcode y) (regs_of a)" "\<not> takes_operand (opcode y)"
      "\<not> ackPending a" "progPower a \<noteq> POWER_OVERLOAD"
    and r: "rest_of_run answer a d = run_prog answer p (effect (opcode y) (regs_of a)) d" "rest_of_run answer a d = Some x"
  shows "steps_on answer io a d"
proof (cases "opcode y = BASELINE \<and> checkResets (if autoPowerOff a \<or> ackManagerRejoin a then 20 else 3) a")
  case True
  then have "ack_step io a = Yield a" using assms(2) by (simp add: ack_step_def)
  then show ?thesis using True by (auto simp: steps_on_def waits_def checkResets_def split: if_splits)
next
  case False
  have "\<exists>b. exec_op (opcode y) p io a = Go b \<and> regs_of b = effect (opcode y) (regs_of a) \<and> ackManagerProg b = Some (y # p) \<and>
      progressed a (next_op b) \<and> \<not> ackPending b"
    using assms(1-9) False by (cases "opcode y") (auto simp: call_if_def skip_if_def op_classes setAckBaseline_def regs_of_def
      progressed_def tag_def account_def prog_left_def next_op_def split: if_splits)
  then obtain b where "exec_op (opcode y) p io a = Go b" "regs_of b = effect (opcode y) (regs_of a)" "ackManagerProg b = Some (y # p)"
      "progressed a (next_op b)" "\<not> ackPending b" by blast
  then have b: "ack_step io a = Go (next_op b)" "regs_of (next_op b) = effect (opcode y) (regs_of a)"
      "ackManagerProg (next_op b) = Some p" "progressed a (next_op b)" "\<not> ackPending (next_op b)"
    using assms(2) by (simp_all add: ack_step_def next_op_def regs_of_def)
  then have "rest_of_run answer (next_op b) d = rest_of_run answer a d" using not_at_wack_run [of "next_op b" p answer d x] r by simp
  then show ?thesis using b unfolding steps_on_def by blast
qed

lemma inner_steps:
  assumes u: "underway answer goal acc a d" and y: "ackManagerProg a = Some (y # p)" "result_of (opcode y) (regs_of a) = None"
  shows "steps_on answer io a d"
proof -
  let ?x = "opcode y"
  have ok: "prog_track_ok (ackTrack a)" "progPower a \<noteq> POWER_OVERLOAD" using u by (simp_all add: underway_def powered_def)
  obtain x where run: "rest_of_run answer a d = Some x"
    using u by (auto simp: underway_def outcome_def retried_def split: option.splits)
  consider (wack) "?x = WACK" | (packet) m where "packet_of ?x (regs_of a) = Some m" | (other) "?x \<noteq> WACK" "packet_of ?x (regs_of a) = None"
    by fastforce
  then show ?thesis
  proof cases
    case wack
    with ok y run show ?thesis by (blast intro: wack_steps)
  next
    case packet
    with ok y run show ?thesis by (blast intro: packet_steps)
  next
    case other
    then have "\<not> at_wack a" using y by (auto simp: at_wack_def)
    then have np: "\<not> ackPending a" and r: "rest_of_run answer a d = run_prog answer (y # p) (regs_of a) d"
      using u y by (auto simp: underway_def rest_of_run_def)
    consider (skip) "skips ?x (regs_of a)" | (operand) "\<not> skips ?x (regs_of a)" "takes_operand ?x"
      | (plain) "\<not> skips ?x (regs_of a)" "\<not> takes_operand ?x" by blast
    then show ?thesis
    proof cases
      case skip
      then have t: "skip_target p \<noteq> []" "rest_of_run answer a d = run_prog answer (tl (skip_target p)) (regs_of a) d"
        using r run y(2) other by (auto split: if_splits)
      show ?thesis by (rule skip_steps [OF ok(1) y(1) skip t(1) np t(2) run])
    next
      case operand
      then obtain z q where q: "p = z # q" "rest_of_run answer a d = run_prog answer q (put_operand ?x (flash_byte z) (regs_of a)) d"
        using r run y(2) other by (cases p) (auto split: if_splits)
      show ?thesis by (rule operand_steps [OF ok(1) y(1) [unfolded q(1)] operand(2) np q(2) run])
    next
      case plain
      then have e: "rest_of_run answer a d = run_prog answer p (effect ?x (regs_of a)) d" using r y(2) other by simp
      show ?thesis by (rule plain_steps [OF ok(1) y other(2,1) plain np ok(2) e run])
    qed
  qed
qed

lemma step_moves:
  assumes u: "underway answer goal acc a d"
  shows "case ack_step io a of Fault \<Rightarrow> False | Go a' \<Rightarrow> underway answer goal acc a' d \<and> work_left a' < work_left a
    | Yield a' \<Rightarrow> moves answer goal acc io a d a'"
proof -
  obtain x where x: "rest_of_run answer a d = Some x"
    using u by (auto simp: underway_def outcome_def retried_def split: option.splits)
  then obtain q where q: "ackManagerProg a = Some q" by (auto simp: rest_of_run_def split: option.splits)
  with x have "q \<noteq> []" by (auto simp: rest_of_run_def at_wack_def)
  with q obtain y p where y: "ackManagerProg a = Some (y # p)" by (cases q) auto
  show ?thesis
  proof (cases "result_of (opcode y) (regs_of a)")
    case None
    then have "progPower a \<noteq> POWER_OFF" using u y by (auto simp: underway_def powered_def result_there_def at_result_def)
    then show ?thesis using inner_steps [OF u y None, of io] progressed_underway [OF u] u
      by (auto simp: steps_on_def moves_def)
  next
    case (Some v)
    then show ?thesis using result_moves [OF u y, of v io] by auto
  qed
qed

lemma loop_moves: "underway answer goal acc a d \<Longrightarrow> \<exists>a'. ack_loop io a = Some a' \<and> moves answer goal acc io a d a'"
proof (induction io a rule: ack_loop.induct)
  case (1 io a)
  note st = step_moves [OF "1.prems", of io]
  show ?case
  proof (cases "ack_step io a")
    case (Go b)
    then obtain a' where "ack_loop io b = Some a'" "moves answer goal acc io b d a'" "work_left b < work_left a"
      using "1.IH" [of b] st by auto
    then show ?thesis using Go by (auto simp: ack_loop.simps [of io a] moves_def waits_def)
  qed (use st in \<open>auto simp: ack_loop.simps [of io a]\<close>)
qed

section \<open>Interrupts leave the program alone\<close>

lemma interrupt_cases:
  "prog_interrupt io a = (if snd (trackInterrupt (ackTrack a))
     then checkAck (getResets (fst (trackInterrupt (ackTrack a)))) io (a\<lparr>ackTrack := fst (trackInterrupt (ackTrack a))\<rparr>)
     else a\<lparr>ackTrack := fst (trackInterrupt (ackTrack a))\<rparr>)"
  by (simp add: prog_interrupt_def split_def Let_def)

lemma interrupt_frame [simp]:
  "regs_of (prog_interrupt io a) = regs_of a" "tag (prog_interrupt io a) = tag a"
  "ackManagerProg (prog_interrupt io a) = ackManagerProg a" "account (prog_interrupt io a) = account a"
  "progPower (prog_interrupt io a) = progPower a" "callbackState (prog_interrupt io a) = callbackState a"
  "callbackStart (prog_interrupt io a) = callbackStart a"
  "\<not> ackPending a \<Longrightarrow> \<not> ackPending (prog_interrupt io a) \<and> ackDetected (prog_interrupt io a) = ackDetected a"
  by (simp_all add: interrupt_cases account_def) (simp_all add: regs_of_def tag_def)

lemma interrupt_track:
  "ackTrack (prog_interrupt io a) = fst (trackInterrupt (ackTrack a)) \<or>
   ackTrack (prog_interrupt io a) = clearRepeats (fst (trackInterrupt (ackTrack a)))"
  using checkAck_track [of _ io "a\<lparr>ackTrack := fst (trackInterrupt (ackTrack a))\<rparr>"] by (simp add: interrupt_cases)

lemma tick_underway:
  assumes u: "underway answer goal acc a d" and h: "happens answer (Tick io) (a, d) (a', d')"
  shows "underway answer goal acc a' d' \<and> work_left a' = work_left a"
proof -
  have a': "a' = prog_interrupt io a" using h by simp
  have f: "regs_of a' = regs_of a" "tag a' = tag a" "ackManagerProg a' = ackManagerProg a"
    "account a' = account a" "progPower a' = progPower a" "callbackState a' = callbackState a"
    "\<not> ackPending a \<longrightarrow> \<not> ackPending a' \<and> ackDetected a' = ackDetected a" by (simp_all add: a')
  have sent: "sent_packet a' = sent_packet a" using interrupt_track [of io a] by (auto simp: a' sent_packet_def clearRepeats_def)
  have t: "prog_track_ok (ackTrack a')" using interrupt_track [of io a] u by (auto simp: a' underway_def track_ok_interrupt)
  have ret: "ackManagerRetry a' = ackManagerRetry a" using f(2) by (simp add: tag_def)
  have w: "at_wack a' = at_wack a" "result_there a' = result_there a" using f(1,3) ret by (simp_all add: at_wack_def result_there_def at_result_def)
  have "answered answer a' d' = answered answer a d" using h f(7) sent by (auto simp: answered_def split: if_splits)
  moreover have "\<not> at_wack a \<longrightarrow> d' = d" using h u by (auto simp: underway_def)
  ultimately have "rest_of_run answer a' d' = rest_of_run answer a d" using f(1,3) w by (auto simp: rest_of_run_def split: option.split)
  then have "outcome answer a' d' = outcome answer a d" using f(2) by (simp add: outcome_def tag_def)
  then show ?thesis using u f t w ret by (auto simp: underway_def powered_def account_def work_left_def prog_left_def)
qed

lemma finished_stays:
  assumes "finished goal acc a d" "happens answer e (a, d) (a', d')"
  shows "finished goal acc a' d'"
proof (cases e)
  case (Turn io)
  obtain v e1 cbs f j r off where g: "goal = (v, e1)" "acc = (cbs, f, j, r, off)" by (cases goal; cases acc) auto
  have "ack_loop io a = Some a" using assms(1) g by (simp add: ack_loop.simps [of io a] ack_step_def)
  then show ?thesis using assms Turn by simp
next
  case (Tick io)
  obtain v e1 cbs f j r off where g: "goal = (v, e1)" "acc = (cbs, f, j, r, off)" by (cases goal; cases acc) auto
  have "account (prog_interrupt io a) = account a" by simp
  then show ?thesis using assms Tick g by (auto simp: account_def)
qed

section \<open>Every wait ends\<close>

lemma stabilises:
  fixes f :: "nat \<Rightarrow> 'a :: wellorder"
  assumes "\<And>n. N \<le> n \<Longrightarrow> f (Suc n) \<le> f n"
  shows "\<exists>n \<ge> N. \<forall>m \<ge> n. f m = f n"
proof -
  have mono: "f m \<le> f n" if "N \<le> n" "n \<le> m" for n m using that(2,1) assms by (induction rule: dec_induct) (auto intro: order_trans)
  obtain n where n: "N \<le> n" "f n = (LEAST x. \<exists>n \<ge> N. f n = x)" using LeastI [of "\<lambda>x. \<exists>n \<ge> N. f n = x" "f N"] by auto
  have "f m = f n" if "n \<le> m" for m
  proof (rule antisym)
    have "\<exists>k \<ge> N. f k = f m" using n(1) that by (auto intro: exI [of _ m])
    then show "f n \<le> f m" unfolding n(2) by (rule Least_le)
  qed (rule mono [OF n(1) that])
  then show ?thesis using n(1) by blast
qed

text \<open>
  The programming track in a stretch of a run in which the program does not move: turns leave it alone, and
  so it counts resets and the window closes.
\<close>

definition idling :: "(nat \<Rightarrow> event) \<Rightarrow> (nat \<Rightarrow> ack) \<Rightarrow> nat \<Rightarrow> bool" where
  "idling ev A N \<longleftrightarrow> (\<forall>n \<ge> N. prog_track_ok (ackTrack (A n)) \<and>
     (case ev n of Tick io \<Rightarrow> A (Suc n) = prog_interrupt io (A n)
      | Turn io \<Rightarrow> ackTrack (A (Suc n)) = ackTrack (A n) \<and> ackPending (A (Suc n)) = ackPending (A n)))"

lemma idlingD:
  assumes "idling ev A N" "N \<le> n"
  shows "prog_track_ok (ackTrack (A n))" "ev n = Tick io \<Longrightarrow> A (Suc n) = prog_interrupt io (A n)"
    "ev n = Turn io \<Longrightarrow> ackTrack (A (Suc n)) = ackTrack (A n) \<and> ackPending (A (Suc n)) = ackPending (A n)"
  using assms by (auto simp: idling_def split: event.splits)

lemma clearRepeats_le: "sending_left (clearRepeats t) \<le> sending_left t"
  by (simp add: sending_left_def clearRepeats_def getResets_def bits_left_def data_pos_def)

lemma resets_come:
  assumes i: "idling ev A N" and go: "goes_on ev"
  shows "\<exists>n \<ge> N. getResets (ackTrack (A n)) = 250"
proof (rule ccontr)
  assume not: "\<not> ?thesis"
  have ok: "wf_track (ackTrack (A n))" "getResets (ackTrack (A n)) < 250" if "N \<le> n" for n
  proof -
    show wf: "wf_track (ackTrack (A n))" using idlingD(1) [OF i that] by (simp add: prog_track_ok_def)
    have "getResets (ackTrack (A n)) \<noteq> 250" using not that by blast
    then show "getResets (ackTrack (A n)) < 250" using wf by (simp add: wf_track_def getResets_def)
  qed
  have tick: "sending_left (ackTrack (A (Suc n))) < sending_left (ackTrack (A n))" if "N \<le> n" "ev n = Tick io" for n io
    unfolding idlingD(2) [OF i that]
    using interrupt_track [of io "A n"] tick_less [OF ok [OF that(1)]] clearRepeats_le [of "fst (trackInterrupt (ackTrack (A n)))"]
    by (elim disjE) (simp_all only: le_less_trans)
  have "sending_left (ackTrack (A (Suc n))) \<le> sending_left (ackTrack (A n))" if "N \<le> n" for n
  proof (cases "ev n")
    case (Turn io)
    then show ?thesis using idlingD(3) [OF i that Turn] by simp
  next
    case (Tick io)
    show ?thesis by (rule less_imp_le [OF tick [OF that Tick]])
  qed
  from stabilises [of N "\<lambda>n. sending_left (ackTrack (A n))", OF this] obtain n
    where n: "N \<le> n" "\<And>m. n \<le> m \<Longrightarrow> sending_left (ackTrack (A m)) = sending_left (ackTrack (A n))" by blast
  obtain m io where "n \<le> m" "ev m = Tick io" by (rule goes_onD [OF go])
  with tick [of m io] n(1) n(2) [of m] n(2) [of "Suc m"] show False by simp
qed

lemma resets_stay:
  assumes i: "idling ev A N" and "N \<le> n" "getResets (ackTrack (A n)) = 250" "n \<le> m"
  shows "getResets (ackTrack (A m)) = 250 \<and> \<not> packetPending (ackTrack (A m))"
  using assms(4)
proof (induction rule: dec_induct)
  case base
  then show ?case using assms(3) idlingD(1) [OF i assms(2)] by (auto simp: prog_track_ok_def)
next
  case (step m)
  have "N \<le> m" using assms(2) step.hyps by simp
  show ?case
  proof (cases "ev m")
    case (Turn io)
    then show ?thesis using idlingD(3) [OF i \<open>N \<le> m\<close> Turn] step.IH by simp
  next
    case (Tick io)
    then show ?thesis using idlingD(2) [OF i \<open>N \<le> m\<close> Tick] tick_keeps_resets [of "ackTrack (A m)"] interrupt_track [of io "A m"] step.IH
      by (auto simp: clearRepeats_def getResets_def)
  qed
qed

lemma window_closes:
  assumes i: "idling ev A N" and go: "goes_on ev" and r: "\<And>m. N \<le> m \<Longrightarrow> getResets (ackTrack (A m)) = 250 \<and> \<not> packetPending (ackTrack (A m))"
  shows "\<exists>n \<ge> N. \<not> ackPending (A n)"
proof (rule ccontr)
  assume "\<not> ?thesis"
  then have pend: "ackPending (A n)" if "N \<le> n" for n using that by blast
  have unsampled: "\<not> snd (trackInterrupt (ackTrack (A n)))" if "N \<le> n" "ev n = Tick io" for n io
  proof
    assume "snd (trackInterrupt (ackTrack (A n)))"
    then have "\<not> ackPending (A (Suc n))"
      using idlingD(2) [OF i that] tick_keeps_resets [of "ackTrack (A n)"] r [OF that(1)] by (simp add: interrupt_cases checkAck_closes)
    then show False using pend that(1) by simp
  qed
  obtain n io where n: "N \<le> n" "ev n = Tick io" by (rule goes_onD [OF go])
  let ?due = "\<lambda>m. stateTransform (wstate (ackTrack (A m))) \<noteq> WAVE_PENDING"
  have "?due m" if "Suc n \<le> m" for m
    using that
  proof (induction rule: dec_induct)
    case base
    then show ?case using tick_not_sampled [OF unsampled [OF n]] idlingD(2) [OF i n] unsampled [OF n] by (simp add: interrupt_cases)
  next
    case (step m)
    then show ?case using idlingD(3) [OF i, of m] unsampled [of m] n(1) by (cases "ev m") (auto simp: tick_sampled)
  qed
  moreover obtain m io' where "Suc n \<le> m" "ev m = Tick io'" by (rule goes_onD [OF go])
  ultimately show False using unsampled [of m io'] n(1) by (simp add: tick_sampled)
qed

lemma window_stays_closed:
  assumes "idling ev A N" "N \<le> n" "\<not> ackPending (A n)" "n \<le> m"
  shows "\<not> ackPending (A m)"
  using assms(4)
proof (induction rule: dec_induct)
  case (step m)
  then show ?case using idlingD(2,3) [OF assms(1), of m] assms(2) by (cases "ev m") auto
qed (rule assms(3))

section \<open>The session\<close>

definition prog_idle :: "ack \<Rightarrow> bool" where
  "prog_idle a \<longleftrightarrow> hasProgDriver a \<and> canMeasureCurrent a \<and> progPower a \<noteq> POWER_OVERLOAD \<and> \<not> ackPending a \<and>
     prog_track_ok (ackTrack a)"

lemma Setup_underway:
  assumes "prog_idle a" "run_retries answer p (unat (ackRetry a)) (start_regs cv b a) d = Some goal"
  shows "underway answer goal (callbacks a, f, False, joined a, progPower a = POWER_OFF) (Setup cv b p f a) d"
proof -
  let ?a = "Setup cv b p f a"
  have s: "ackManagerProg ?a = Some p" "ackManagerProgStart ?a = p" "ackManagerRetry ?a = ackRetry a" "regs_of ?a = start_regs cv b a"
      "\<not> ackPending ?a" "\<not> joined ?a" "account ?a = (callbacks a, f, False, joined a, progPower a = POWER_OFF)"
      "progPower ?a \<noteq> POWER_OFF" "progPower ?a \<noteq> POWER_OVERLOAD" "prog_track_ok (ackTrack ?a)"
    using assms(1) by (auto simp: prog_idle_def Setup_def Let_def AckManager.setPower_def regs_of_def start_regs_def account_def)
  obtain x where x: "run_prog answer p (regs_of ?a) d = Some x"
    using assms(2) s(4) by (simp only: run_retries_retried) (auto simp: retried_def split: option.splits)
  have "outcome answer ?a d = Some goal"
    using not_at_wack_run [OF s(5,1) x] assms(2) s(2-4) by (simp add: outcome_def run_retries_retried del: run_retries.simps)
  then show ?thesis using s by (simp add: underway_def powered_def)
qed

lemma run_step:
  assumes "session_run answer ev s" "underway answer goal acc (fst (s n)) (snd (s n))" "\<not> finished goal acc (fst (s (Suc n))) (snd (s (Suc n)))"
  shows "underway answer goal acc (fst (s (Suc n))) (snd (s (Suc n)))" "work_left (fst (s (Suc n))) \<le> work_left (fst (s n))"
    "ev n = Turn io \<Longrightarrow> work_left (fst (s (Suc n))) < work_left (fst (s n)) \<or> waits io (fst (s n)) (fst (s (Suc n)))"
    "ev n = Tick io \<Longrightarrow> fst (s (Suc n)) = prog_interrupt io (fst (s n))"
proof -
  obtain a d a' d' where s: "s n = (a, d)" "s (Suc n) = (a', d')" by (cases "s n"; cases "s (Suc n)")
  have h: "happens answer (ev n) (a, d) (a', d')" using assms(1) s by (auto simp: session_run_def dest: spec [of _ n])
  have u: "underway answer goal acc a d" "\<not> finished goal acc a' d'" using assms(2,3) s by simp_all
  have turn: "underway answer goal acc a' d' \<and> (work_left a' < work_left a \<or> waits io a a')" if "ev n = Turn io" for io
    using loop_moves [OF u(1), of io] u(2) h that by (auto simp: moves_def)
  have tick: "underway answer goal acc a' d' \<and> work_left a' = work_left a" if "ev n = Tick io" for io
    using tick_underway [OF u(1), of io a' d'] h that by simp
  show "underway answer goal acc (fst (s (Suc n))) (snd (s (Suc n)))" using turn tick s by (cases "ev n") simp_all
  show "work_left (fst (s (Suc n))) \<le> work_left (fst (s n))"
    using turn tick s by (cases "ev n") (auto simp: waits_def intro: less_imp_le)
  show "work_left (fst (s (Suc n))) < work_left (fst (s n)) \<or> waits io (fst (s n)) (fst (s (Suc n)))" if "ev n = Turn io"
    using turn [OF that] s by simp
  show "fst (s (Suc n)) = prog_interrupt io (fst (s n))" if "ev n = Tick io" using h that s by simp
qed

lemma session_finishes:
  assumes run: "session_run answer ev s" and go: "goes_on ev" and u0: "underway answer goal acc (fst (s 0)) (snd (s 0))"
  shows "\<exists>n. finished goal acc (fst (s n)) (snd (s n))"
proof (rule ccontr)
  assume "\<not> ?thesis"
  then have nf: "\<not> finished goal acc (fst (s n)) (snd (s n))" for n by blast
  have u: "underway answer goal acc (fst (s n)) (snd (s n))" for n by (induction n) (use u0 run_step(1) [OF run _ nf] in auto)
  note st = run_step [OF run u nf]
  define A where "A n = fst (s n)" for n
  obtain N where N: "\<And>m. N \<le> m \<Longrightarrow> work_left (A m) = work_left (A N)"
    using stabilises [of 0 "\<lambda>n. work_left (A n)"] st(2) unfolding A_def by blast
  have w: "waits io (A m) (A (Suc m))" if "N \<le> m" "ev m = Turn io" for m io
    using st(3) [OF that(2)] N [OF that(1)] N [of "Suc m"] that(1) by (simp add: A_def)
  have "prog_track_ok (ackTrack (A m))" for m using u [of m] by (simp add: underway_def A_def)
  then have i: "idling ev A N" using w st(4) by (auto simp: idling_def waits_def A_def split: event.split)
  obtain n where n: "N \<le> n" "getResets (ackTrack (A n)) = 250" using resets_come [OF i go] by blast
  note r = resets_stay [OF i n]
  have i': "idling ev A n" using i n(1) by (simp add: idling_def)
  obtain k where k: "n \<le> k" "\<not> ackPending (A k)" using window_closes [OF i' go r] by blast
  have cs: "callbackStart (A m) = callbackStart (A k)" if "k \<le> m" for m
    using that
  proof (induction rule: dec_induct)
    case (step m)
    then show ?case using w [of m] st(4) [of m] n(1) k(1) by (cases "ev m") (auto simp: waits_def A_def)
  qed simp
  obtain m io where m: "k \<le> m" "ev m = Turn io" "100 \<le> io_millis io - callbackStart (A k)" using go unfolding goes_on_def by blast
  have "waits io (A m) (A (Suc m))" using w m n(1) k(1) by simp
  then show False using window_stays_closed [OF i' k m(1)] r [of m] k(1) m cs [OF m(1)] by (simp add: waits_def linorder_not_le [symmetric])
qed

section \<open>A session without a decoder\<close>

text \<open>
  A run on an empty track: turns and interrupts alternate, the clock goes up with them, and no sample shows a
  current. No acknowledgement window closes with a pulse, so the decoder that never answers obeys the law of a run.
\<close>

definition quiet_io :: "nat \<Rightarrow> ack_io" where
  "quiet_io n = \<lparr>io_millis = of_nat n, io_micros = of_nat n, io_current = 0, io_mA2raw = (\<lambda>x. x)\<rparr>"

definition quiet_event :: "nat \<Rightarrow> event" where
  "quiet_event n = (if even n then Turn (quiet_io n) else Tick (quiet_io n))"

primrec quiet_run :: "ack \<Rightarrow> nat \<Rightarrow> ack \<times> unit" where
  "quiet_run a 0 = (a, ())"
| "quiet_run a (Suc n) =
    (case quiet_event n of
       Turn io \<Rightarrow> (case ack_loop io (fst (quiet_run a n)) of Some b \<Rightarrow> b | None \<Rightarrow> fst (quiet_run a n), ())
     | Tick io \<Rightarrow> (prog_interrupt io (fst (quiet_run a n)), ()))"

definition quiet :: "ack \<Rightarrow> bool" where
  "quiet a \<longleftrightarrow> 0 \<le> ackThreshold a \<and> 0 \<le> ackLimitmA a \<and> (ackPending a \<longrightarrow> \<not> ackDetected a \<and> ackPulseStart a = 0)"

lemma quiet_exec:
  "quiet a \<Longrightarrow> case exec_op x p (quiet_io n) a of Fault \<Rightarrow> True | Go a' \<Rightarrow> quiet a' | Yield a' \<Rightarrow> quiet a'"
  by (cases x) (auto simp: quiet_def quiet_io_def call_if_def skip_if_def operand_def send_def setAckBaseline_def setAckPending_def
    callback_def call_back_def AckManager.setPower_def Let_def split: option.split list.split CALLBACK_STATE.split)

lemma quiet_step: "quiet a \<Longrightarrow> case ack_step (quiet_io n) a of Fault \<Rightarrow> True | Go a' \<Rightarrow> quiet a' | Yield a' \<Rightarrow> quiet a'"
proof (cases "ackManagerProg a")
  case (Some q)
  assume "quiet a"
  then show ?thesis using Some
  proof (cases q)
    case (Cons y p)
    then show ?thesis using Some quiet_exec [OF \<open>quiet a\<close>, of "opcode y" p n]
      by (auto simp: ack_step_def next_op_def quiet_def split: ack_result.splits)
  qed (simp add: ack_step_def)
qed (simp add: ack_step_def)

lemma quiet_loop: "quiet a \<Longrightarrow> ack_loop (quiet_io n) a = Some a' \<Longrightarrow> quiet a'"
proof (induction "quiet_io n" a rule: ack_loop.induct)
  case (1 a)
  show ?case using quiet_step [OF "1.prems"(1), of n] "1.hyps" "1.prems"(2)
    by (cases "ack_step (quiet_io n) a") (auto simp: ack_loop.simps [of _ a])
qed

lemma quiet_tick: "quiet a \<Longrightarrow> quiet (prog_interrupt (quiet_io n) a) \<and> (ackPending a \<longrightarrow> \<not> ackDetected (prog_interrupt (quiet_io n) a))"
  by (auto simp: interrupt_cases checkAck_def Let_def quiet_def quiet_io_def)

lemma quiet_run_quiet: "quiet a \<Longrightarrow> quiet (fst (quiet_run a n))"
  by (induction n) (auto simp: quiet_event_def quiet_tick intro: quiet_loop split: option.split)

lemma quiet_session: "quiet a \<Longrightarrow> session_run (\<lambda>pk d. (False, d)) quiet_event (quiet_run a)"
  unfolding session_run_def
proof
  fix n
  assume "quiet a"
  then have "quiet (fst (quiet_run a n))" by (rule quiet_run_quiet)
  then show "happens (\<lambda>pk d. (False, d)) (quiet_event n) (quiet_run a n) (quiet_run a (Suc n))"
    using quiet_tick [of "fst (quiet_run a n)" n] by (cases "quiet_run a n") (auto simp: quiet_event_def split: option.split)
qed

lemma quiet_goes_on: "goes_on quiet_event"
  unfolding goes_on_def
proof (intro conjI allI)
  fix n
  show "\<exists>m \<ge> n. \<exists>io. quiet_event m = Tick io" by (rule exI [of _ "Suc (2 * n)"]) (simp add: quiet_event_def)
next
  fix n and x :: u32
  let ?m = "n * 2 ^ 32 + 100 + unat x + (if even (unat x) then 0 else 1)"
  have "(of_nat (n * 2 ^ 32) :: u32) = 0" by (simp only: word_of_nat_eq_0_iff) simp
  then have "(of_nat ?m :: u32) - x = 100 + (if even (unat x) then 0 else 1)" by simp
  then have "100 \<le> (of_nat ?m :: u32) - x" by (cases "even (unat x)") simp_all
  moreover have "even ?m" by simp
  ultimately show "\<exists>m \<ge> n. \<exists>io. quiet_event m = Turn io \<and> 100 \<le> io_millis io - x"
    by (intro exI [of _ ?m] exI [of _ "quiet_io ?m"]) (simp add: quiet_event_def quiet_io_def)
qed

definition first_start :: ack where
  "first_start = (blank_ack (newTrack PREAMBLE_BITS_PROG False))\<lparr>hasProgDriver := True, canMeasureCurrent := True, joined := True\<rparr>"

section \<open>Properties\<close>

text \<open>
  C20: the programming machine does what its program means. A program is started on a programming track that is on
  or off, alone or joined to the main track, not overloaded and without an acknowledgement
  window open; turns of the loop and timer interrupts follow in any order, without an end, on a clock that does not
  stand still; every acknowledgement window closes with the decoder's answer to the packet sent. Then the
  loop always returns, and after some time the machine calls back exactly once, with the value the program computes when every
  packet is answered at once, retries of failed runs included, the decoder is in the state that this run
  leaves, and the track is joined and on as it was before. The waits for resets, for the window and for the
  pauses of 100 and 30 ms before a callback all end.
\<close>

theorem prog_machine_refines:
  assumes "prog_idle a" and "run_retries answer p (unat (ackRetry a)) (start_regs cv b a) d = Some (v, d')"
    and "s 0 = (Setup cv b p f a, d)" and "session_run answer ev s" and "goes_on ev"
  shows "(\<forall>m io. ack_loop io (fst (s m)) \<noteq> None) \<and>
    (\<exists>n. (\<forall>m < n. callbacks (fst (s m)) = callbacks a) \<and> (\<forall>m \<ge> n. callbacks (fst (s m)) = callbacks a @ [(f, sint (word_of_int v :: u16))] \<and> ackManagerProg (fst (s m)) = None \<and>
       snd (s m) = d' \<and> joined (fst (s m)) = joined a \<and> (progPower (fst (s m)) = POWER_OFF \<longleftrightarrow> progPower a = POWER_OFF)))"
proof -
  let ?acc = "(callbacks a, f, False, joined a, progPower a = POWER_OFF)"
  have u0: "underway answer (v, d') ?acc (fst (s 0)) (snd (s 0))" using Setup_underway [OF assms(1,2)] assms(3) by simp
  let ?done = "\<lambda>n. finished (v, d') ?acc (fst (s n)) (snd (s n))"
  define n where "n = (LEAST n. ?done n)"
  have fin: "?done n" unfolding n_def by (rule LeastI_ex [OF session_finishes [OF assms(4,5) u0]])
  have before: "\<not> ?done m" if "m < n" for m using that not_less_Least unfolding n_def by blast
  have under: "underway answer (v, d') ?acc (fst (s m)) (snd (s m))" if "m < n" for m
    using that by (induction m) (use u0 run_step(1) [OF assms(4) _ before] in auto)
  have after: "?done m" if "n \<le> m" for m
    using that
  proof (induction rule: dec_induct)
    case (step m)
    then show ?case using finished_stays [of "(v, d')" ?acc "fst (s m)" "snd (s m)" answer "ev m"] assms(4)
      by (simp add: session_run_def del: finished.simps)
  qed (rule fin)
  have "ack_loop io (fst (s m)) \<noteq> None" for m io
  proof (cases "m < n")
    case True
    from loop_moves [OF under [OF this], of io] show ?thesis by (elim exE conjE) simp
  next
    case False
    then show ?thesis using after [of m] by (simp add: ack_loop.simps [of io "fst (s m)"] ack_step_def)
  qed
  moreover have "callbacks (fst (s m)) = callbacks a" if "m < n" for m using under [OF that] by (simp add: underway_def account_def)
  ultimately show ?thesis using after by (intro conjI exI [of _ n]) auto
qed

theorem prog_machine_refines_witness:
  "prog_idle first_start \<and> joined first_start \<and> progPower first_start = POWER_OFF \<and>
   (\<exists>n. \<forall>m \<ge> n. callbacks (fst (quiet_run (Setup 8 1 WRITE_BYTE_PROG 5 first_start) m)) = [(5, -1)] \<and>
      joined (fst (quiet_run (Setup 8 1 WRITE_BYTE_PROG 5 first_start) m)) \<and>
      progPower (fst (quiet_run (Setup 8 1 WRITE_BYTE_PROG 5 first_start) m)) = POWER_OFF)"
proof -
  let ?a = "Setup 8 1 WRITE_BYTE_PROG 5 first_start"
  have idle: "prog_idle first_start"
    by (simp add: prog_idle_def first_start_def blank_ack_def prog_track_ok_def wf_newTrack PREAMBLE_BITS_PROG_def) (simp add: newTrack_def)
  have run: "run_prog (\<lambda>pk d. (False, d)) WRITE_BYTE_PROG r e = Some (-1, r\<lparr>r_ack := False\<rparr>, e)" for r and e :: unit
    by (simp add: WRITE_BYTE_PROG_def op_classes)
  have "unat (ackRetry first_start) = 2" by (simp add: first_start_def blank_ack_def)
  then have goal: "run_retries (\<lambda>pk d. (False, d)) WRITE_BYTE_PROG (unat (ackRetry first_start)) (start_regs 8 1 first_start) () = Some (-1, ())"
    using run by (simp add: numeral_2_eq_2)
  have q: "quiet ?a"
    by (simp add: quiet_def Setup_def Let_def AckManager.setPower_def first_start_def blank_ack_def)
  have z: "quiet_run ?a 0 = (?a, ())" by simp
  have f: "callbacks first_start = []" "joined first_start" "progPower first_start = POWER_OFF"
    by (simp_all add: first_start_def blank_ack_def)
  from prog_machine_refines [OF idle goal z quiet_session [OF q] quiet_goes_on] idle f show ?thesis by auto
qed

end
