(* ===== verification/DccInvariant.thy ===== *)
theory DccInvariant
  imports DccApi
begin

text \<open>
  The invariant of the DCC layer and the proof that every call keeps it: the queues are well formed,
  the loco table and its consists are well formed, the reminder loop's status is one of its ten
  states, and the loop's saved position is a slot of the chain unless the chain is marked as
  modified, in which case the position is not used. The last section puts the main loop and the
  waveform of the main track together.
\<close>

section \<open>The invariant\<close>

definition reminder_ok :: "slot_table \<Rightarrow> ptr \<Rightarrow> bool" where
  "reminder_ok t p \<longleftrightarrow> chainModified t \<or> (case p of None \<Rightarrow> True | Some a \<Rightarrow> a \<in> set (chain t))"

definition dcc_inv :: "dcc \<Rightarrow> bool" where
  "dcc_inv s \<longleftrightarrow> queues_inv (dqueues s) \<and> short_packets (dqueues s) \<and> consist_inv (dslots s) \<and> loopStatus s \<le> 9 \<and>
     reminder_ok (dslots s) (nextLocoReminder s)"

lemma parts_simps [simp]:
  "dslots (in_queues f s) = dslots s" "dqueues (in_queues f s) = f (dqueues s)"
  "dslots (in_slots g s) = g (dslots s)" "dqueues (in_slots g s) = dqueues s"
  "dslots (log_event e s) = dslots s" "dqueues (log_event e s) = dqueues s"
  "estopIsLocked (in_queues f s) = estopIsLocked s" "estopIsLocked (in_slots g s) = estopIsLocked s"
  "estopIsLocked (log_event e s) = estopIsLocked s"
  "globalSpeedsteps (in_queues f s) = globalSpeedsteps s" "globalSpeedsteps (in_slots g s) = globalSpeedsteps s"
  "globalSpeedsteps (log_event e s) = globalSpeedsteps s"
  "loopStatus (in_queues f s) = loopStatus s" "loopStatus (in_slots g s) = loopStatus s"
  "loopStatus (log_event e s) = loopStatus s"
  "nextLocoReminder (in_queues f s) = nextLocoReminder s" "nextLocoReminder (in_slots g s) = nextLocoReminder s"
  "nextLocoReminder (log_event e s) = nextLocoReminder s"
  "devents (in_queues f s) = devents s" "devents (in_slots g s) = devents s"
  "devents (log_event e s) = devents s @ [e]"
  by (simp_all add: in_queues_def in_slots_def log_event_def)

lemma put_simps [simp]:
  "dslots (put a f s) = set_slot a f (dslots s)" "dqueues (put a f s) = dqueues s"
  "estopIsLocked (put a f s) = estopIsLocked s" "globalSpeedsteps (put a f s) = globalSpeedsteps s"
  "loopStatus (put a f s) = loopStatus s" "nextLocoReminder (put a f s) = nextLocoReminder s"
  "devents (put a f s) = devents s"
  by (simp_all add: put_def)

lemma slot_simps [simp]:
  "slot (in_queues g s) = slot s" "slot (log_event e s) = slot s"
  "slot (put a f s) = (slot s)(a := f (slot s a))"
  by (auto simp: slot_def fun_eq_iff)

text \<open>Each primitive keeps the invariant.\<close>

lemma in_queues_inv:
  "dcc_inv s \<Longrightarrow> queues_inv (f (dqueues s)) \<Longrightarrow> short_packets (f (dqueues s)) \<Longrightarrow> dcc_inv (in_queues f s)"
  by (simp add: dcc_inv_def)

lemma log_event_inv: "dcc_inv s \<Longrightarrow> dcc_inv (log_event e s)"
  by (simp add: dcc_inv_def)

lemma set_slot_consist_inv: "keeps_consist f \<Longrightarrow> consist_inv t \<Longrightarrow> consist_inv (set_slot a f t)"
  using set_slot_crep [of f t] by (auto simp: consist_inv_def keeps_consist_def set_slot_inv)

lemma put_inv:
  assumes "keeps_consist f" and "dcc_inv s"
  shows "dcc_inv (put a f s)"
proof -
  from assms(1) have "keeps_key f" by (simp add: keeps_consist_def)
  then have "chain (set_slot a f (dslots s)) = chain (dslots s)" by (rule set_slot_chain)
  with assms set_slot_consist_inv [of f "dslots s" a] show ?thesis
    by (cases "nextLocoReminder s") (simp_all add: dcc_inv_def reminder_ok_def)
qed

lemma dcc_inv_other [simp]:
  "dcc_inv (s\<lparr>defaultMomentumA := x, defaultMomentumD := y\<rparr>) = dcc_inv s"
  "dcc_inv (s\<lparr>estopIsLocked := l\<rparr>) = dcc_inv s"
  by (simp_all add: dcc_inv_def)

lemma keeps_consist_fields:
  "keeps_consist (\<lambda>x. x\<lparr>targetSpeed := v\<rparr>)" "keeps_consist (\<lambda>x. x\<lparr>speedCode := v\<rparr>)"
  "keeps_consist (\<lambda>x. x\<lparr>speedCode := v, targetSpeed := w\<rparr>)"
  "keeps_consist (\<lambda>x. x\<lparr>momentum_base := b\<rparr>)" "keeps_consist (\<lambda>x. x\<lparr>functionMap := m\<rparr>)"
  "keeps_consist (\<lambda>x. x\<lparr>groupFlags := groupFlags x OR g\<rparr>)"
  "keeps_consist (\<lambda>x. x\<lparr>savedSpeedCode := targetSpeed x\<rparr>)"
  "keeps_consist (\<lambda>x. x\<lparr>momentumA := v, momentumD := w\<rparr>)"
  "keeps_consist (\<lambda>x. x\<lparr>snifferSpeedCode := v\<rparr>)" "keeps_consist (\<lambda>x. x\<lparr>snifferFunctions := m\<rparr>)"
  by (simp_all add: keeps_consist_def keeps_key_def)

lemma getSlot_modified:
  assumes "table_inv t"
  shows "LocoSlots.getSlot l c t = (fst (LocoSlots.getSlot l c t), t) \<or> chainModified (snd (LocoSlots.getSlot l c t))"
  by (auto simp: LocoSlots.getSlot_def prepare_def split: option.split)

lemma get_slot_inv:
  assumes "dcc_inv s"
  shows "dcc_inv (snd (get_slot cab c s))"
proof -
  let ?r = "LocoSlots.getSlot (word_of_int cab) c (dslots s)"
  from assms have t: "table_inv (dslots s)" "consist_inv (dslots s)" by (auto simp: dcc_inv_def consist_inv_def)
  then have "consist_inv (snd ?r)"
    using getSlot_inv [OF t(1)] getSlot_crep [OF t(1)] unfolding consist_inv_def by blast
  moreover have "reminder_ok (snd ?r) (nextLocoReminder s)"
    using getSlot_modified [OF t(1), of "word_of_int cab" c] assms
    by (auto simp: dcc_inv_def reminder_ok_def) (metis snd_conv)+
  ultimately show ?thesis using assms by (cases ?r) (simp add: get_slot_def dcc_inv_def)
qed

lemma get_slot_inv': "dcc_inv s \<Longrightarrow> get_slot cab c s = (p, s') \<Longrightarrow> dcc_inv s'"
  using get_slot_inv [of s cab c] by simp

text \<open>Packets that fit.\<close>

lemma packet_len:
  assumes "length b \<le> 5"
  shows "unat (word_of_nat (length b) :: byte) \<le> MAX_PACKET_SIZE" "unat (word_of_nat (length b) :: byte) \<le> length b"
    "unat (word_of_nat (length b) :: byte) = length b"
proof -
  have "unat (word_of_nat (length b) :: byte) = length b" using assms by (simp add: unat_of_nat)
  with assms show "unat (word_of_nat (length b) :: byte) \<le> MAX_PACKET_SIZE"
    "unat (word_of_nat (length b) :: byte) \<le> length b" "unat (word_of_nat (length b) :: byte) = length b"
    by (simp_all add: MAX_PACKET_SIZE_def)
qed

lemma length_cab_bytes: "length (cab_bytes cab) \<le> 2" "0 < length (cab_bytes cab)"
  by (simp_all add: cab_bytes_def)

lemma length_speed_bytes: "length (speed_bytes n sc) \<le> 2"
  by (simp add: speed_bytes_def Let_def)

lemma setThrottleDCC_inv:
  assumes "dcc_inv s"
  shows "dcc_inv (setThrottleDCC p sc s)"
proof -
  let ?b = "\<lambda>cab sc. cab_bytes cab @ speed_bytes (globalSpeedsteps s) sc"
  have "length (?b cab sc) \<le> 5" for cab sc
    using length_cab_bytes(1) [of cab] length_speed_bytes [of "globalSpeedsteps s" sc] by simp
  note len = packet_len [OF this]
  have q: "queues_inv (dqueues s)" "short_packets (dqueues s)" using assms by (simp_all add: dcc_inv_def)
  from abs_queue_ops(5,7) [OF q(1) len(1,2)] short_ops(2,4) [OF q(2) len(1)] show ?thesis
    using assms by (auto simp: setThrottleDCC_def Let_def intro!: in_queues_inv)
qed

lemma packet_inv:
  assumes "dcc_inv s" and "length b \<le> 5"
  shows "dcc_inv (in_queues (scheduleDCCPacket b (word_of_nat (length b)) r l) s)"
    and "dcc_inv (in_queues (scheduleDCCFunctionPacket b (word_of_nat (length b)) l g) s)"
  using assms packet_len [OF assms(2)] by (auto simp: dcc_inv_def intro!: abs_queue_ops short_ops)

lemma length_binary_state: "length (binary_state_bytes n on) \<le> 3"
  by (simp add: binary_state_bytes_def)

text \<open>The first byte of an accessory packet has the form \<^verbatim>\<open>10AAAAAA\<close>.\<close>

lemma accessory_first_byte: "(word_of_int (address mod 64) + 128 :: byte) AND 0xC0 = 0x80"
proof -
  have "(word_of_int x + 128 :: byte) AND 0xC0 = 0x80" if "x \<in> {0..63}" for x
  proof -
    have "\<forall>x \<in> {0..63 :: int}. (word_of_int x + 128 :: byte) AND 0xC0 = 0x80" by code_simp
    with that show ?thesis by blast
  qed
  then show ?thesis by simp
qed

section \<open>What every call keeps\<close>

text \<open>
  A property of the state that the primitives keep (writing a loco's data, recording an event, getting
  a slot, the speed packet, the other packets) is kept by every call built from them. The locale
  proves this once; it is used for the invariant above and, further below, for the emergency
  stop lock.
\<close>

locale call_invariant =
  fixes P :: "dcc \<Rightarrow> bool"
  assumes put_kept: "keeps_consist f \<Longrightarrow> P s \<Longrightarrow> P (put a f s)"
    and log_kept: "P s \<Longrightarrow> P (log_event e s)"
    and get_kept: "P s \<Longrightarrow> P (snd (get_slot cab c s))"
    and throttle_kept: "P s \<Longrightarrow> P (setThrottleDCC p sc s)"
    and packet_kept: "P s \<Longrightarrow> length b \<le> 5 \<Longrightarrow> P (in_queues (scheduleDCCPacket b (word_of_nat (length b)) r l) s)"
    and function_kept: "P s \<Longrightarrow> length b \<le> 5 \<Longrightarrow>
      P (in_queues (scheduleDCCFunctionPacket b (word_of_nat (length b)) l g) s)"
    and pulse_kept: "P s \<Longrightarrow> x AND 0xC0 = 0x80 \<Longrightarrow> P (in_queues (scheduleAccOnOffPacket [x, y] 2 r d) s)"
    and momentum_kept: "P s \<Longrightarrow> P (s\<lparr>defaultMomentumA := x, defaultMomentumD := y\<rparr>)"
begin

lemma fold_kept: "(\<And>a s. P s \<Longrightarrow> P (f a s)) \<Longrightarrow> P s \<Longrightarrow> P (fold f as s)"
  by (induction as arbitrary: s) auto

lemma two_bytes:
  assumes "P s"
  shows "P (in_queues (scheduleDCCPacket [x, y] 2 r l) s)"
    "x AND 0xC0 = 0x80 \<Longrightarrow> P (in_queues (scheduleAccOnOffPacket [x, y] 2 r d) s)"
  using packet_kept [OF assms, of "[x, y]" r l] pulse_kept [OF assms] by simp_all

lemma setThrottle2_kept: "P s \<Longrightarrow> P (setThrottle2 a sc s)"
  unfolding setThrottle2_def
  by (rule fold_kept) (simp_all add: setThrottle2_step_def throttle_kept put_kept keeps_consist_fields)

lemma estopAll_kept: "P s \<Longrightarrow> P (estopAll s)"
  unfolding estopAll_def Let_def
  by (rule fold_kept) (simp_all add: log_kept put_kept keeps_consist_fields throttle_kept)

lemma copy_target_kept: "P s \<Longrightarrow> P (copy_target sc a s)"
  by (simp add: copy_target_def put_kept keeps_consist_fields)

lemma set_target_kept: "P s \<Longrightarrow> P (set_target now cab sp sc a s)"
proof -
  assume "P s"
  then have "P (fold (copy_target sc) as (put a (\<lambda>x. x\<lparr>targetSpeed := sc\<rparr>) s))" for as
    by (intro fold_kept copy_target_kept put_kept keeps_consist_fields)
  then show ?thesis
    by (simp add: set_target_def Let_def log_kept put_kept keeps_consist_fields setThrottle2_kept)
qed

lemma setThrottle_kept: "P s \<Longrightarrow> P (snd (setThrottle now cab sp dir s))"
  using get_kept [of s "uint cab" True] unfolding setThrottle_def Let_def
  by (cases "get_slot (uint cab) True s") (simp add: estopAll_kept set_target_kept split: option.split)

lemma saveSpeed_kept: "P s \<Longrightarrow> P (saveSpeed cab s)"
  using get_kept [of s cab False] unfolding saveSpeed_def slot_saveSpeed_def put_def [symmetric]
  by (cases "get_slot cab False s") (simp add: put_kept keeps_consist_fields split: option.split)

lemma restoreSpeed_kept: "P s \<Longrightarrow> P (restoreSpeed now cab s)"
  using get_kept [of s cab False] unfolding restoreSpeed_def
  by (cases "get_slot cab False s") (simp add: Let_def setThrottle_kept split: option.split)

lemma setMomentum_kept: "P s \<Longrightarrow> P (snd (setMomentum cab x y s))"
  using get_kept [of s cab True] unfolding setMomentum_def
  by (cases "get_slot cab True s") (simp add: put_kept momentum_kept keeps_consist_fields split: option.split)

lemma setFunctionInternal_kept: "P s \<Longrightarrow> P (setFunctionInternal cab g b1 b2 s)"
proof -
  assume inv: "P s"
  have "length (cab_bytes cab @ (if b1 \<noteq> 0 then [b1] else []) @ [b2]) \<le> 5"
    using length_cab_bytes(1) [of cab] by simp
  from function_kept [OF inv this] show ?thesis unfolding setFunctionInternal_def Let_def .
qed

lemma updateGroupflags_kept: "P s \<Longrightarrow> P (updateGroupflags a n s)"
  unfolding updateGroupflags_def Let_def by (intro put_kept keeps_consist_fields)

lemma send_binary_state_kept: "P s \<Longrightarrow> P (send_binary_state cab n on s)"
proof -
  assume inv: "P s"
  have "length (cab_bytes cab @ binary_state_bytes n on) \<le> 5"
    using length_cab_bytes(1) [of cab] length_binary_state [of n on] by simp
  from packet_kept [OF inv this] show ?thesis unfolding send_binary_state_def Let_def .
qed

lemma set_function_bit_kept: "P s \<Longrightarrow> P (set_function_bit n on a s)"
  by (simp add: set_function_bit_def Let_def log_kept put_kept keeps_consist_fields updateGroupflags_kept)

lemma setFn_kept: "P s \<Longrightarrow> P (snd (setFn cab n on s))"
  using get_kept [of s cab True] get_kept [of "send_binary_state cab n on s" cab True]
  unfolding setFn_def Let_def
  by (cases "get_slot cab True s"; cases "get_slot cab True (send_binary_state cab n on s)")
    (simp add: send_binary_state_kept set_function_bit_kept split: option.split)

lemma changeFn_kept: "P s \<Longrightarrow> P (changeFn cab n s)"
  by (simp add: changeFn_def Let_def setFn_kept)

lemma setDCFreq_kept: "P s \<Longrightarrow> P (setDCFreq cab freq s)"
  using get_kept [of s cab True] unfolding setDCFreq_def Let_def
  by (cases "get_slot cab True s") (simp add: log_kept put_kept keeps_consist_fields split: option.split)

lemma setAccessory_kept: "P s \<Longrightarrow> P (setAccessory addr port gate onoff s)"
  by (simp add: setAccessory_def accessory_bytes_def Let_def two_bytes log_kept accessory_first_byte)

lemma setExtendedAccessory_kept: "P s \<Longrightarrow> P (snd (setExtendedAccessory addr v r s))"
  using packet_kept [of s "extended_bytes addr v" r 0] by (simp add: setExtendedAccessory_def extended_bytes_def Let_def)

lemma pom_packet_kept: "P s \<Longrightarrow> P (pom_packet cab opcode cv v r s)"
proof -
  assume inv: "P s"
  have "length (cab_bytes cab @ [cv1 opcode cv, cv2 cv, v]) \<le> 5" using length_cab_bytes(1) [of cab] by simp
  from packet_kept [OF inv this] show ?thesis unfolding pom_packet_def Let_def .
qed

lemma setTime_kept: "P s \<Longrightarrow> P (snd (setTime m sp sudden s))"
  using packet_kept [of s "[_, _, _, _, _]" 2 0] by (simp add: setTime_def Let_def)

lemma speed_reminder_kept: "P s \<Longrightarrow> P (speed_reminder now a s)"
  by (simp add: speed_reminder_def Let_def setThrottle2_kept put_kept log_kept keeps_consist_fields)

lemma issueReminder_kept: "P s \<Longrightarrow> P (snd (issueReminder now a s))"
  by (simp add: issueReminder_def function_reminder_def speed_reminder_kept setFunctionInternal_kept split: prod.split)

end

interpretation di: call_invariant dcc_inv
proof (unfold_locales, goal_cases)
  case (7 s x y r d)
  then show ?case by (auto simp: dcc_inv_def MAX_PACKET_SIZE_def intro!: abs_queue_ops short_ops)
qed (simp_all add: put_inv log_event_inv get_slot_inv setThrottleDCC_inv packet_inv)

lemma estopLock_inv: "dcc_inv s \<Longrightarrow> dcc_inv (estopLock lock s)"
  by (cases lock) (simp_all add: estopLock_def Let_def log_event_inv setThrottleDCC_inv)

text \<open>Forgetting.\<close>

lemma get_slot_found:
  assumes "dcc_inv s" and "get_slot cab False s = (Some a, s')"
  shows "s' = s" and "a \<in> set (chain (dslots s))" and "find_slot (word_of_int cab) (dslots s) = Some a"
  using assms by (auto simp: get_slot_def dcc_inv_def consist_inv_def getSlot_search dest: find_slot_Some)

lemma consist_forget:
  assumes "consist_inv t" and "a \<in> set (chain t)" and "\<not> isConsistLead (lslots t a)" and "\<not> isConsistFollower (lslots t a)"
  shows "consist_inv (forget a t)"
proof -
  from assms(1) obtain C where C: "table_inv t" "crep t C" by (auto simp: consist_inv_def)
  with crep_free [OF C(2) assms(2)] assms(3,4) have "a \<notin> \<Union>(set ` C)" by blast
  from forget_crep [OF C assms(2) this] forget_facts(1) [OF C(1) assms(2)] show ?thesis
    by (auto simp: consist_inv_def)
qed

lemma delete_unlinks:
  assumes "consist_inv t" and "find_slot (word_of_int \<bar>l\<bar>) t = Some a"
  shows "consist_inv (deleteAnyConsist l t)" and "\<not> isConsistLead (lslots (deleteAnyConsist l t) a)"
    and "\<not> isConsistFollower (lslots (deleteAnyConsist l t) a)"
proof -
  from assms(1) obtain C where C: "table_inv t" "crep t C" by (auto simp: consist_inv_def)
  from deleteAnyConsist_crep [OF C, of l] assms(2) have d: "crep (deleteAnyConsist l t) {c \<in> C. a \<notin> set c}" by auto
  with C(1) show "consist_inv (deleteAnyConsist l t)" by (auto simp: consist_inv_def deleteAnyConsist_keeps)
  have "a \<in> set (chain (deleteAnyConsist l t))" using find_slot_Some [OF assms(2)] by (simp add: deleteAnyConsist_keeps)
  from crep_free [OF d this] show "\<not> isConsistLead (lslots (deleteAnyConsist l t) a)"
    "\<not> isConsistFollower (lslots (deleteAnyConsist l t) a)" by auto
qed

lemma setThrottleDCC_slots [simp]: "dslots (setThrottleDCC p sc s) = dslots s" "slot (setThrottleDCC p sc s) = slot s"
  "nextLocoReminder (setThrottleDCC p sc s) = nextLocoReminder s" "estopIsLocked (setThrottleDCC p sc s) = estopIsLocked s"
  "loopStatus (setThrottleDCC p sc s) = loopStatus s" "devents (setThrottleDCC p sc s) = devents s"
  "globalSpeedsteps (setThrottleDCC p sc s) = globalSpeedsteps s"
  by (simp_all add: setThrottleDCC_def Let_def)

lemma forgetLoco_parts:
  assumes "dcc_inv s" and cab: "0 < cab" "cab \<le> 32767" and g: "get_slot cab False s = (Some a, s')"
  defines "u \<equiv> if isConsistLead (slot s a) \<or> isConsistFollower (slot s a) then deleteAnyConsist cab (dslots s) else dslots s"
  shows "consist_inv u" and "\<not> isConsistLead (lslots u a)" and "\<not> isConsistFollower (lslots u a)"
    and "a \<in> set (chain u)" and "find_slot k u = find_slot k (dslots s)"
    and "dslots (forgetLoco cab s) = forget a u" and "dqueues (forgetLoco cab s) = dqueues (setThrottleDCC (Some a) 1 s)"
    and "loopStatus (forgetLoco cab s) = loopStatus s"
proof -
  note f = get_slot_found [OF assms(1) g]
  have w: "sint (word_of_int cab :: 16 word) = cab"
    using cab by (simp add: int_word_sint)
  have inv: "consist_inv (dslots s)" using assms(1) by (simp add: dcc_inv_def)
  have "find_slot (word_of_int \<bar>cab\<bar>) (dslots s) = Some a" using f(3) cab by simp
  from delete_unlinks [OF inv this] inv f(2)
  show "consist_inv u" "\<not> isConsistLead (lslots u a)" "\<not> isConsistFollower (lslots u a)" "a \<in> set (chain u)"
    "find_slot k u = find_slot k (dslots s)"
    by (auto simp: u_def slot_def deleteAnyConsist_keeps)
  show "dslots (forgetLoco cab s) = forget a u" "dqueues (forgetLoco cab s) = dqueues (setThrottleDCC (Some a) 1 s)"
    "loopStatus (forgetLoco cab s) = loopStatus s"
    using g f(1) w by (simp_all add: forgetLoco_def Let_def u_def slot_def)
qed

lemma forgetLoco_inv:
  assumes "dcc_inv s" and cab: "0 < cab" "cab \<le> 32767"
  shows "dcc_inv (forgetLoco cab s)"
proof (cases "get_slot cab False s")
  case (Pair p s')
  show ?thesis
  proof (cases p)
    case None
    with Pair get_slot_inv' [OF assms(1) Pair] show ?thesis by (simp add: forgetLoco_def)
  next
    case (Some a)
    note f = forgetLoco_parts [OF assms Pair [unfolded Some]]
    from consist_forget [OF f(1,4,2,3)] have "consist_inv (dslots (forgetLoco cab s))" by (simp only: f(6))
    moreover have "chainModified (dslots (forgetLoco cab s))" unfolding f(6) by (simp add: forget_def Let_def)
    ultimately show ?thesis using assms(1) setThrottleDCC_inv [OF assms(1), of "Some a" 1] f(7,8)
      by (simp add: dcc_inv_def reminder_ok_def)
  qed
qed

lemma forgetAll_consist: "consist_inv (forgetAll t)"
  using forgetAll_inv [of t] by (auto simp: consist_inv_def crep_def)

lemma forgetAllLocos_inv: "dcc_inv s \<Longrightarrow> dcc_inv (forgetAllLocos s)"
proof -
  assume inv: "dcc_inv s"
  have "dcc_inv (fold (\<lambda>a s. log_event (BroadcastForgetLoco (uint (loco (slot s a)))) s) as (setThrottleDCC None 1 s))" for as
    by (intro di.fold_kept log_event_inv setThrottleDCC_inv inv)
  then show ?thesis by (simp add: forgetAllLocos_def Let_def dcc_inv_def forgetAll_consist reminder_ok_def)
qed

text \<open>Reminders: the scan stays in the chain, which no reminder changes.\<close>

lemma setThrottle2_step_keeps:
  "chain (dslots (setThrottle2_step sc a s)) = chain (dslots s)"
  "chainModified (dslots (setThrottle2_step sc a s)) = chainModified (dslots s)"
  "loopStatus (setThrottle2_step sc a s) = loopStatus s"
  "estopIsLocked (setThrottle2_step sc a s) = estopIsLocked s"
  "devents (setThrottle2_step sc a s) = devents s"
  "globalSpeedsteps (setThrottle2_step sc a s) = globalSpeedsteps s"
  using set_slot_chain [of "\<lambda>x. x\<lparr>speedCode := sc\<rparr>" a "dslots s"]
  by (simp_all add: setThrottle2_step_def keeps_key_def)

lemma setThrottle2_keeps:
  "chain (dslots (setThrottle2 a sc s)) = chain (dslots s)"
  "chainModified (dslots (setThrottle2 a sc s)) = chainModified (dslots s)"
  "loopStatus (setThrottle2 a sc s) = loopStatus s"
  "estopIsLocked (setThrottle2 a sc s) = estopIsLocked s"
  "devents (setThrottle2 a sc s) = devents s"
  "globalSpeedsteps (setThrottle2 a sc s) = globalSpeedsteps s"
proof -
  have "chain (dslots (fold (setThrottle2_step sc) as s)) = chain (dslots s) \<and>
    chainModified (dslots (fold (setThrottle2_step sc) as s)) = chainModified (dslots s) \<and>
    loopStatus (fold (setThrottle2_step sc) as s) = loopStatus s \<and>
    estopIsLocked (fold (setThrottle2_step sc) as s) = estopIsLocked s \<and>
    devents (fold (setThrottle2_step sc) as s) = devents s \<and>
    globalSpeedsteps (fold (setThrottle2_step sc) as s) = globalSpeedsteps s" for as
    by (induction as arbitrary: s) (simp_all add: setThrottle2_step_keeps)
  then show "chain (dslots (setThrottle2 a sc s)) = chain (dslots s)"
    "chainModified (dslots (setThrottle2 a sc s)) = chainModified (dslots s)"
    "loopStatus (setThrottle2 a sc s) = loopStatus s"
    "estopIsLocked (setThrottle2 a sc s) = estopIsLocked s"
    "devents (setThrottle2 a sc s) = devents s"
    "globalSpeedsteps (setThrottle2 a sc s) = globalSpeedsteps s"
    by (simp_all add: setThrottle2_def)
qed

lemma speed_reminder_keeps:
  "chain (dslots (speed_reminder now a s)) = chain (dslots s)"
  "chainModified (dslots (speed_reminder now a s)) = chainModified (dslots s)"
  "loopStatus (speed_reminder now a s) = loopStatus s"
proof -
  have "chain (set_slot a (\<lambda>x. x\<lparr>momentum_base := b\<rparr>) (set_slot a (\<lambda>x. x\<lparr>speedCode := v\<rparr>) t)) = chain t" for b v t
    by (simp add: set_slot_chain keeps_key_def del: set_slot_simps)
  then show "chain (dslots (speed_reminder now a s)) = chain (dslots s)"
    "chainModified (dslots (speed_reminder now a s)) = chainModified (dslots s)"
    "loopStatus (speed_reminder now a s) = loopStatus s"
    by (simp_all add: speed_reminder_def Let_def setThrottle2_keeps)
qed

lemma setFunctionInternal_slots [simp]: "dslots (setFunctionInternal cab g x y s) = dslots s"
  "loopStatus (setFunctionInternal cab g x y s) = loopStatus s"
  by (simp_all add: setFunctionInternal_def Let_def)

lemma issueReminder_keeps:
  "chain (dslots (snd (issueReminder now a s))) = chain (dslots s)"
  "chainModified (dslots (snd (issueReminder now a s))) = chainModified (dslots s)"
  "loopStatus (snd (issueReminder now a s)) = loopStatus s"
  by (simp_all add: issueReminder_def function_reminder_def speed_reminder_keeps split: prod.split)

lemma chain_suffix:
  assumes "table_inv t" and "a \<in> set (chain t)"
  obtains bs cs where "chain t = bs @ a # cs" and "linked (sn (lslots t)) (Some a) (a # cs)"
proof -
  from chain_rep [OF assms(1)] have "linked (sn (lslots t)) (firstSlot t) (chain t)" by (auto simp: trep_def)
  from linked_mem_split [OF this assms(2)] show thesis using that by (metis linked.simps(2))
qed

lemma chain_next:
  assumes "table_inv t" and "a \<in> set (chain t)" and "snext (lslots t a) = Some b"
  shows "b \<in> set (chain t)"
proof -
  from chain_suffix [OF assms(1,2)] obtain bs cs where c: "chain t = bs @ a # cs"
    "linked (sn (lslots t)) (Some a) (a # cs)" .
  with assms(3) have "b \<in> set cs" by (cases cs) auto
  with c show ?thesis by simp
qed

lemma walk_in_chain:
  assumes "table_inv t" and "a \<in> set (chain t)"
  shows "set (walk (slotCount t) (sn (lslots t)) (Some a)) \<subseteq> set (chain t)"
    and "\<exists>as. walk (slotCount t) (sn (lslots t)) (Some a) = a # as"
proof -
  from chain_suffix [OF assms] obtain bs cs where c: "chain t = bs @ a # cs"
    "linked (sn (lslots t)) (Some a) (a # cs)" .
  have "walk (slotCount t) (sn (lslots t)) (Some a) = a # cs"
    by (rule linked_walk [OF c(2)]) (use chain_below [OF assms(1)] c(1) in auto)
  with c(1) show "set (walk (slotCount t) (sn (lslots t)) (Some a)) \<subseteq> set (chain t)"
    "\<exists>as. walk (slotCount t) (sn (lslots t)) (Some a) = a # as" by auto
qed

lemma dcc_table [simp]: "dcc_inv s \<Longrightarrow> table_inv (dslots s)"
  by (simp add: dcc_inv_def consist_inv_def)

lemma set_position:
  assumes "dcc_inv s" and "case p of None \<Rightarrow> True | Some b \<Rightarrow> b \<in> set (chain (dslots s))"
  shows "dcc_inv (s\<lparr>nextLocoReminder := p\<rparr>)"
  using assms by (simp add: dcc_inv_def reminder_ok_def)

lemma reminder_scan_inv:
  "dcc_inv s \<Longrightarrow> set as \<subseteq> set (chain (dslots s)) \<Longrightarrow> dcc_inv (reminder_scan now as s)"
proof (induction as arbitrary: s)
  case Nil
  then show ?case by (simp add: set_position)
next
  case (Cons a as)
  obtain r s' where i: "issueReminder now a s = (r, s')" by (cases "issueReminder now a s")
  with di.issueReminder_kept [OF Cons.prems(1), of now a] issueReminder_keeps [of now a s] Cons.prems(2)
  have s': "dcc_inv s'" "a \<in> set (chain (dslots s'))" "set as \<subseteq> set (chain (dslots s'))" by simp_all
  show ?case
  proof (cases r)
    case True
    have "dcc_inv (s'\<lparr>nextLocoReminder := snext (slot s' a)\<rparr>)"
      by (rule set_position [OF s'(1)])
        (use chain_next [OF dcc_table [OF s'(1)] s'(2)] in \<open>auto simp: slot_def split: option.split\<close>)
    with True i show ?thesis by simp
  next
    case False
    with i Cons.IH [OF s'(1,3)] show ?thesis by simp
  qed
qed

lemma chain_flag [simp]: "chain (t\<lparr>chainModified := b\<rparr>) = chain t"
  by (simp add: chain_def)

lemma consist_flag [simp]: "consist_inv (t\<lparr>chainModified := b\<rparr>) = consist_inv t"
  by (simp add: consist_inv_def table_inv_def trep_def crep_def)

lemma first_in_chain:
  assumes "table_inv t" and "firstSlot t = Some a"
  shows "a \<in> set (chain t)"
proof -
  from chain_rep [OF assms(1)] obtain rs where "trep t (chain t) rs" by blast
  with assms(2) show ?thesis by (auto simp: trep_def linked_Some)
qed

text \<open>The state a restarted scan begins with.\<close>

definition restart :: "dcc \<Rightarrow> dcc" where
  "restart s = (in_slots (\<lambda>t. t\<lparr>chainModified := False\<rparr>) s)
     \<lparr>nextLocoReminder := firstSlot (dslots s), loopStatus := (if loopStatus s + 1 > 9 then 0 else loopStatus s + 1)\<rparr>"

lemma restart_inv: "dcc_inv s \<Longrightarrow> dcc_inv (restart s)"
proof -
  assume inv: "dcc_inv s"
  have "case firstSlot (dslots s) of None \<Rightarrow> True | Some a \<Rightarrow> a \<in> set (chain (dslots s))"
    using first_in_chain [OF dcc_table [OF inv]] by (cases "firstSlot (dslots s)") simp_all
  with inv show ?thesis
    by (cases "firstSlot (dslots s)") (simp_all add: restart_def dcc_inv_def reminder_ok_def)
qed

lemma issueReminders_cases:
  assumes "dcc_inv s"
  shows "issueReminders now s =
    (if chainModified (dslots s) \<or> nextLocoReminder s = None then
       if firstSlot (dslots s) = None
       then (in_slots (\<lambda>t. t\<lparr>chainModified := False\<rparr>) s)\<lparr>nextLocoReminder := None\<rparr>
       else reminder_scan now (rest_of_chain (restart s)) (restart s)
     else reminder_scan now (rest_of_chain s) s)"
  by (simp add: issueReminders_def restart_def Let_def in_slots_def)

lemma rest_in_chain:
  assumes "dcc_inv s" and "\<not> chainModified (dslots s)" and "nextLocoReminder s \<noteq> None"
  shows "set (rest_of_chain s) \<subseteq> set (chain (dslots s))" and "\<exists>as. rest_of_chain s = the (nextLocoReminder s) # as"
proof -
  from assms obtain a where a: "nextLocoReminder s = Some a" "a \<in> set (chain (dslots s))"
    by (auto simp: dcc_inv_def reminder_ok_def)
  from walk_in_chain [OF dcc_table [OF assms(1)] a(2)] a(1)
  show "set (rest_of_chain s) \<subseteq> set (chain (dslots s))" "\<exists>as. rest_of_chain s = the (nextLocoReminder s) # as"
    by (simp_all add: rest_of_chain_def slot_def)
qed

lemma restart_ready: "\<not> chainModified (dslots (restart s))" "nextLocoReminder (restart s) = firstSlot (dslots s)"
  by (simp_all add: restart_def)

lemma issueReminders_inv:
  assumes "dcc_inv s"
  shows "dcc_inv (issueReminders now s)"
proof -
  have "dcc_inv ((in_slots (\<lambda>t. t\<lparr>chainModified := False\<rparr>) s)\<lparr>nextLocoReminder := None\<rparr>)"
    using assms by (simp add: dcc_inv_def reminder_ok_def)
  moreover have "dcc_inv (reminder_scan now (rest_of_chain (restart s)) (restart s))" if "firstSlot (dslots s) \<noteq> None"
    using restart_inv [OF assms] rest_in_chain(1) [OF restart_inv [OF assms] restart_ready(1)] that
    by (intro reminder_scan_inv) (simp_all add: restart_ready)
  moreover have "dcc_inv (reminder_scan now (rest_of_chain s) s)"
    if "\<not> chainModified (dslots s)" "nextLocoReminder s \<noteq> None"
    using rest_in_chain(1) [OF assms that] by (rule reminder_scan_inv [OF assms])
  ultimately show ?thesis unfolding issueReminders_cases [OF assms] by simp
qed

section \<open>The main loop and the waveform\<close>

lemma hand_over_ok:
  assumes "wf_track w" and "isReminderWindowOpen w" and "unat (tx_length tx) \<le> MAX_PACKET_SIZE"
    and "unat (tx_length tx) \<le> length (tx_packet tx)"
  shows "\<exists>w'. hand_over tx w = Some w' \<and> wf_track w' \<and> packetPending w' \<and>
    take (pendingLength w') (pendingPacket w') = fst (tx_view tx) @ [xor_all (fst (tx_view tx))] \<and>
    pendingRepeats w' = unat (snd (tx_view tx))"
proof -
  have np: "\<not> packetPending w" using assms(2) by (simp add: isReminderWindowOpen_def)
  then have "hand_over tx w = Some (clearResets (w\<lparr>
      pendingPacket := (memcpy_into (pendingPacket w) (tx_packet tx) (unat (tx_length tx)))[unat (tx_length tx) := xor_all (take (unat (tx_length tx)) (tx_packet tx))],
      pendingLength := unat (tx_length tx) + 1, pendingRepeats := unat (tx_repeats tx), packetPending := True\<rparr>))"
    using assms(3) by (simp add: hand_over_def schedulePacket_def Let_def)
  moreover from this have "wf_track (the (hand_over tx w))"
    using wf_schedulePacket [OF assms(1,4), of "unat (tx_repeats tx)"] unsigned_less [of "tx_repeats tx", where 'a = nat]
    by (simp add: hand_over_def)
  moreover have "length (pendingPacket w) = MAX_PACKET_SIZE + 1" using assms(1) by (simp add: wf_track_def)
  ultimately show ?thesis using assms(3,4)
    by (simp add: clearResets_def tx_view_def memcpy_into_def take_Suc_conv_app_nth nth_append list_update_append min_def)
qed

lemma dcc_loop_ok:
  assumes inv: "dcc_inv s" and wf: "wf_track w"
  shows "\<exists>s' w'. dcc_loop now (s, w) = Some (s', w') \<and> dcc_inv s' \<and> wf_track w' \<and>
    (isReminderWindowOpen w \<longrightarrow> packetPending w') \<and> (\<not> isReminderWindowOpen w \<longrightarrow> s' = s \<and> w' = w)"
proof (cases "isReminderWindowOpen w")
  case False
  with assms show ?thesis by (simp add: dcc_loop_def)
next
  case True
  have q: "queues_inv (dqueues s)" "short_packets (dqueues s)" using inv by (simp_all add: dcc_inv_def)
  obtain o1 q1 where n: "scheduleNext False now (dqueues s) = (o1, q1)" by (cases "scheduleNext False now (dqueues s)")
  have q1: "queues_inv q1" "short_packets q1" using scheduleNext_ref [OF q(1), of now] short_next(1) [OF q(2,1) n] n by auto
  then have i1: "dcc_inv (s\<lparr>dqueues := q1\<rparr>)" using inv by (simp add: dcc_inv_def)
  show ?thesis
  proof (cases o1)
    case (Some tx)
    from short_next(2) [OF q(2,1) n Some] hand_over_ok [OF wf True, of tx] n Some i1 True show ?thesis
      by (auto simp: dcc_loop_def)
  next
    case None
    let ?s = "issueReminders now (s\<lparr>dqueues := q1\<rparr>)"
    have i2: "dcc_inv ?s" by (rule issueReminders_inv [OF i1])
    then have q2: "queues_inv (dqueues ?s)" "short_packets (dqueues ?s)" by (simp_all add: dcc_inv_def)
    obtain o3 q3 where m: "scheduleNext True now (dqueues ?s) = (o3, q3)" by (cases "scheduleNext True now (dqueues ?s)")
    from m have "o3 \<noteq> None" by (auto simp: scheduleNext_def split: prod.splits option.splits)
    then obtain tx where tx: "o3 = Some tx" by blast
    have "queues_inv q3"
      using scheduleNext_ref [OF q2(1), of now] m by (auto simp: scheduleNext_force queues_inv_last split: option.splits)
    moreover have "short_packets q3" by (rule short_next(1) [OF q2(2,1) m])
    ultimately have "dcc_inv (?s\<lparr>dqueues := q3\<rparr>)" using i2 by (simp add: dcc_inv_def)
    with short_next(2) [OF q2(2,1) m tx] hand_over_ok [OF wf True, of tx] n None m tx True show ?thesis
      by (auto simp: dcc_loop_def)
  qed
qed

end
