(* ===== verification/DccProps.thy ===== *)
theory DccProps
  imports DccInvariant
begin

text \<open>
  What the calls of the DCC layer guarantee: the reachable states of firmware and waveform together,
  the emergency stop lock, reading back what was set, momentum, the progress of the reminder loop,
  and forgetting a loco.
\<close>

section \<open>Reachable states\<close>

inductive dcc_call :: "dcc \<Rightarrow> dcc \<Rightarrow> bool" where
  throttle: "dcc_call s (snd (setThrottle now cab sp dir s))"
| estop: "dcc_call s (estopAll s)"
| save: "dcc_call s (saveSpeed c s)"
| restore: "dcc_call s (restoreSpeed now c s)"
| momentum: "dcc_call s (snd (setMomentum c x y s))"
| func: "dcc_call s (snd (setFn c n on s))"
| change: "dcc_call s (changeFn c n s)"
| freq: "dcc_call s (setDCFreq c f s)"
| accessory: "dcc_call s (setAccessory adr port gate onoff s)"
| extended: "dcc_call s (snd (setExtendedAccessory adr v r s))"
| writeByte: "dcc_call s (writeCVByteMain c cv b s)"
| readByte: "dcc_call s (readCVByteMain c cv s)"
| writeBit: "dcc_call s (writeCVBitMain c cv bn bv s)"
| time: "dcc_call s (snd (setTime m tsp sudden s))"
| steps: "dcc_call s (s\<lparr>globalSpeedsteps := st\<rparr>)"
| forget: "0 < c \<Longrightarrow> c \<le> 32767 \<Longrightarrow> dcc_call s (forgetLoco c s)"
| forgetAll: "dcc_call s (forgetAllLocos s)"

inductive firmware :: "dcc \<times> track \<Rightarrow> bool" where
  boot: "\<forall>a. length (packet (ph a)) = MAX_PACKET_SIZE \<Longrightarrow>
    firmware (dcc_init (new_queues ph) (new_table lh maxLocos ram), newTrack PREAMBLE_BITS_MAIN True)"
| call: "firmware (s, w) \<Longrightarrow> dcc_call s s' \<Longrightarrow> firmware (s', w)"
| lock: "firmware (s, w) \<Longrightarrow> firmware (estopLock b s, w)"
| loop: "firmware (s, w) \<Longrightarrow> dcc_loop now (s, w) = Some sw \<Longrightarrow> firmware sw"
| wave: "firmware (s, w) \<Longrightarrow> firmware (s, interrupt2 w)"

lemma dcc_call_inv: "dcc_call s s' \<Longrightarrow> dcc_inv s \<Longrightarrow> dcc_inv s'"
  by (induction rule: dcc_call.induct)
    (simp_all add: di.setThrottle_kept di.estopAll_kept di.saveSpeed_kept di.restoreSpeed_kept di.setMomentum_kept
      di.setFn_kept di.changeFn_kept di.setDCFreq_kept di.setAccessory_kept di.setExtendedAccessory_kept
      di.pom_packet_kept writeCVByteMain_def readCVByteMain_def writeCVBitMain_def log_event_inv di.setTime_kept
      forgetLoco_inv forgetAllLocos_inv, simp add: dcc_inv_def)

lemma firmware_inv: "firmware sw \<Longrightarrow> dcc_inv (fst sw) \<and> wf_track (snd sw)"
proof (induction rule: firmware.induct)
  case (boot ph lh maxLocos ram)
  have "consist_inv (new_table lh maxLocos ram)"
    using new_table_inv [of lh maxLocos ram] by (auto simp: consist_inv_def crep_def)
  moreover have "queues_inv (new_queues ph)" using qrep_new [OF boot] by (rule queues_invI)
  moreover have "short_packets (new_queues ph)" by (simp add: short_packets_def new_queues_def)
  ultimately show ?case
    by (simp add: dcc_inv_def dcc_init_def reminder_ok_def wf_newTrack PREAMBLE_BITS_MAIN_def)
next
  case (call s w s')
  then show ?case by (auto intro: dcc_call_inv)
next
  case (loop s w now sw)
  with dcc_loop_ok [of s w now] show ?case by auto
qed (simp_all add: estopLock_inv wf_interrupt2)

section \<open>The emergency stop lock\<close>

text \<open>
  What the queues hold. A speed entry is a stop when its packet is an emergency stop of some loco or
  of all; an accessory packet is known by its first byte. The low priority queue never holds a speed
  entry, and its entries for an accessory pulse hold accessory packets (\<open>low_plain\<close>). Under the lock the high priority
  queue holds stops and the entries that switch an accessory off, nothing else (\<open>high_held\<close>).
\<close>

definition is_stop :: "byte list \<Rightarrow> bool" where
  "is_stop b \<longleftrightarrow> (\<exists>(cab :: u16) n sc. b = cab_bytes (uint cab) @ speed_bytes n sc \<and> sc AND 0x7F = 1)"

definition is_accessory :: "byte list \<Rightarrow> bool" where
  "is_accessory b \<longleftrightarrow> b \<noteq> [] \<and> hd b AND 0xC0 = 0x80"

definition low_plain :: "aqueues \<Rightarrow> bool" where
  "low_plain aq \<longleftrightarrow> (\<forall>e \<in> set (alow aq). e_type e \<noteq> SPEED_PACKET \<and> (e_type e = ACC_ON_PACKET \<longrightarrow> is_accessory (e_bytes e)))"

definition high_held :: "aqueues \<Rightarrow> bool" where
  "high_held aq \<longleftrightarrow> (\<forall>e \<in> set (ahigh aq).
     e_type e = SPEED_PACKET \<and> is_stop (e_bytes e) \<or> e_type e = ACC_OFF_PACKET \<and> is_accessory (e_bytes e))"

text \<open>The invariant of the queues, with (\<open>l\<close> true) or without the lock.\<close>

definition guarded :: "bool \<Rightarrow> dcc \<Rightarrow> bool" where
  "guarded l s \<longleftrightarrow> dcc_inv s \<and> low_plain (abs_queues (dqueues s)) \<and>
     (l \<longrightarrow> estopIsLocked s \<and> high_held (abs_queues (dqueues s)))"

lemma locked_code: "((x AND 0x80) OR 0x01) AND 0x7F = (1 :: byte)"
  by (simp add: bit.conj_disj_distrib2 and.assoc)

lemma setThrottleDCC_abs:
  assumes "dcc_inv s"
  defines "cab p \<equiv> (case p of Some a \<Rightarrow> loco (slot s a) | None \<Rightarrow> 0)"
    and "b p sc \<equiv> cab_bytes (uint (case p of Some a \<Rightarrow> loco (slot s a) | None \<Rightarrow> 0)) @
      speed_bytes (globalSpeedsteps s) (effective_speed s p sc)"
  shows "abs_queues (dqueues (setThrottleDCC p sc s)) =
    (if effective_speed s p sc AND 0x7F = 1 then a_estop (b p sc) (word_of_nat (length (b p sc))) 4 (cab p) (abs_queues (dqueues s))
     else a_speed (b p sc) (word_of_nat (length (b p sc))) 0 (cab p) (abs_queues (dqueues s)))"
    and "unat (word_of_nat (length (b p sc)) :: byte) = length (b p sc)"
proof -
  have l: "length (b p sc) \<le> 5" for p sc
    using length_cab_bytes(1) [of "uint (cab p)"] length_speed_bytes [of "globalSpeedsteps s" "effective_speed s p sc"]
    by (simp add: b_def cab_def)
  note len = packet_len [OF l [of p sc]]
  show "unat (word_of_nat (length (b p sc)) :: byte) = length (b p sc)" by (rule len(3))
  have "queues_inv (dqueues s)" using assms(1) by (simp add: dcc_inv_def)
  note ops = abs_queue_ops [OF this len(1,2)]
  show "abs_queues (dqueues (setThrottleDCC p sc s)) =
    (if effective_speed s p sc AND 0x7F = 1 then a_estop (b p sc) (word_of_nat (length (b p sc))) 4 (cab p) (abs_queues (dqueues s))
     else a_speed (b p sc) (word_of_nat (length (b p sc))) 0 (cab p) (abs_queues (dqueues s)))"
    unfolding setThrottleDCC_def Let_def using ops(6,8) by (simp add: b_def cab_def)
qed

lemma guarded_throttle:
  assumes "guarded l s"
  shows "guarded l (setThrottleDCC p sc s)"
proof -
  from assms have s: "dcc_inv s" "low_plain (abs_queues (dqueues s))"
    "l \<Longrightarrow> estopIsLocked s" "l \<Longrightarrow> high_held (abs_queues (dqueues s))" by (simp_all add: guarded_def)
  have "high_held (abs_queues (dqueues (setThrottleDCC p sc s)))" if l
  proof -
    have e: "effective_speed s p sc AND 0x7F = 1" using s(3) [OF that] by (simp add: effective_speed_def Let_def locked_code)
    then have "is_stop (cab_bytes (uint (case p of Some a \<Rightarrow> loco (slot s a) | None \<Rightarrow> 0)) @
        speed_bytes (globalSpeedsteps s) (effective_speed s p sc))"
      unfolding is_stop_def by blast
    with s(4) [OF that] setThrottleDCC_abs [OF s(1), of p sc] e show ?thesis by (auto simp: high_held_def a_estop_def)
  qed
  moreover have "low_plain (abs_queues (dqueues (setThrottleDCC p sc s)))"
    using s(2) setThrottleDCC_abs(1) [OF s(1), of p sc] by (simp add: low_plain_def a_estop_def a_speed_def)
  ultimately show ?thesis using setThrottleDCC_inv [OF s(1)] s(3) by (simp add: guarded_def)
qed

lemma get_slot_other [simp]:
  "dqueues (snd (get_slot cab c s)) = dqueues s" "estopIsLocked (snd (get_slot cab c s)) = estopIsLocked s"
  "globalSpeedsteps (snd (get_slot cab c s)) = globalSpeedsteps s" "devents (snd (get_slot cab c s)) = devents s"
  by (simp_all add: get_slot_def split: prod.split)

lemma function_type_plain:
  assumes "function_type g = Some ty"
  shows "ty \<noteq> SPEED_PACKET" "ty \<noteq> ACC_ON_PACKET"
  using assms by (auto split: if_splits)

lemma low_plain_function:
  assumes "low_plain aq" "ty \<noteq> SPEED_PACKET" "ty \<noteq> ACC_ON_PACKET"
  shows "low_plain (a_function b len loc ty aq)"
proof -
  have "e_type e \<noteq> SPEED_PACKET \<and> (e_type e = ACC_ON_PACKET \<longrightarrow> is_accessory (e_bytes e))"
    if "e \<in> set (replace_first (\<lambda>e. e_loco e = loc \<and> e_type e = ty) (\<lambda>e. e\<lparr>e_bytes := b', e_repeat := 0\<rparr>) es)"
      "\<forall>e \<in> set es. e_type e \<noteq> SPEED_PACKET \<and> (e_type e = ACC_ON_PACKET \<longrightarrow> is_accessory (e_bytes e))" for e b' es
    using that assms(2,3) by (induction es) (auto split: if_splits)
  with assms show ?thesis by (auto simp: low_plain_def a_function_def Let_def)
qed

interpretation lk: call_invariant "guarded l" for l
proof (unfold_locales, goal_cases)
  case (4 s p sc)
  then show ?case by (rule guarded_throttle)
next
  case (5 s b r loc)
  then show ?case using abs_queue_ops(2) [OF _ packet_len(1,2) [OF 5(2)], of "dqueues s" r loc] packet_inv(1) [of s b r loc]
    by (auto simp: guarded_def dcc_inv_def a_packet_def high_held_def low_plain_def)
next
  case (6 s b loc g)
  let ?aq = "abs_queues (dqueues s)" and ?s = "in_queues (scheduleDCCFunctionPacket b (word_of_nat (length b)) loc g) s"
  from 6 have s: "dcc_inv s" "queues_inv (dqueues s)" "low_plain ?aq" by (simp_all add: guarded_def dcc_inv_def)
  have aq: "abs_queues (dqueues ?s) =
      (case function_type g of None \<Rightarrow> ?aq | Some ty \<Rightarrow> a_function b (word_of_nat (length b)) loc ty ?aq)"
    using abs_queue_ops(10) [OF s(2) packet_len(1,2) [OF 6(2)]] by (simp del: function_type.simps)
  have "low_plain (abs_queues (dqueues ?s))"
    unfolding aq using s(3) function_type_plain [of g]
    by (auto simp: low_plain_function simp del: function_type.simps split: option.split)
  moreover have "ahigh (abs_queues (dqueues ?s)) = ahigh ?aq"
    unfolding aq by (simp add: a_function_def Let_def del: function_type.simps split: option.split)
  ultimately show ?case using 6 packet_inv(2) [OF s(1) 6(2)] by (simp add: guarded_def high_held_def)
next
  case (7 s x y r d)
  have "unat (2 :: byte) \<le> MAX_PACKET_SIZE" "unat (2 :: byte) \<le> length [x, y]" by (simp_all add: MAX_PACKET_SIZE_def)
  from abs_queue_ops(4) [OF _ this, of "dqueues s" r d] 7 di.pulse_kept [of s x y r d] show ?case
    by (auto simp: guarded_def dcc_inv_def a_accOnOff_def high_held_def low_plain_def is_accessory_def)
qed (auto simp: guarded_def put_inv log_event_inv get_slot_inv)

text \<open>Choosing the next packet: what is left of a list of entries, and the entry that switches an accessory off.\<close>

lemma a_rest_old:
  assumes "e \<in> set (a_rest now lst x es)"
  shows "\<exists>e' \<in> set es. e_type e' = e_type e \<and> e_bytes e' = e_bytes e"
proof -
  have "\<exists>e' \<in> set es. e_type e' = e_type e \<and> e_bytes e' = e_bytes e"
    if "e \<in> set (replace_first R (\<lambda>e. e\<lparr>e_repeat := e_repeat e - 1\<rparr>) es)" for R
    using that by (induction es) (auto split: if_splits)
  moreover have "e \<in> set es" if "e \<in> set (remove_first R es)" for R
    using that by (induction es) (auto split: if_splits)
  ultimately show ?thesis using assms by (auto simp: a_rest_def split: if_splits)
qed

lemma a_off_accessory:
  assumes "e \<in> set (a_off now x)" "e_type x = ACC_ON_PACKET \<Longrightarrow> is_accessory (e_bytes x)"
  shows "e_type e = ACC_OFF_PACKET \<and> is_accessory (e_bytes e)"
proof -
  have "e_type x = ACC_ON_PACKET" using assms(1) by (cases "e_type x = ACC_ON_PACKET") (simp_all add: a_off_def)
  moreover from this have "is_accessory (e_bytes x)" by (rule assms(2))
  moreover have "hd (bs[1 := y]) = hd bs" for bs :: "byte list" and y by (cases bs) simp_all
  ultimately show ?thesis using assms(1) by (auto simp: a_off_def is_accessory_def)
qed

lemma find_in_set: "find R xs = Some x \<Longrightarrow> x \<in> set xs"
  by (auto simp: find_Some_iff)

lemma a_next_guarded:
  assumes "low_plain aq"
  shows "low_plain (snd (a_next now aq))" and "high_held aq \<Longrightarrow> high_held (snd (a_next now aq))"
    and "high_held aq \<Longrightarrow> fst (a_next now aq) = Some (b, r) \<Longrightarrow>
      is_stop b \<or> is_accessory b \<or> (\<exists>e \<in> set (alow aq). e_bytes e = b)"
proof -
  have low: "e_type e = ACC_ON_PACKET \<longrightarrow> is_accessory (e_bytes e)" if "e \<in> set (alow aq)" for e
    using assms that by (simp add: low_plain_def)
  show "low_plain (snd (a_next now aq))" unfolding low_plain_def
  proof
    fix e assume "e \<in> set (alow (snd (a_next now aq)))"
    then have "e \<in> set (alow aq) \<or> (\<exists>x. e \<in> set (a_rest now (alast aq) x (alow aq)))"
      by (auto simp: a_next_def split: option.splits)
    with a_rest_old [of e] assms show "e_type e \<noteq> SPEED_PACKET \<and> (e_type e = ACC_ON_PACKET \<longrightarrow> is_accessory (e_bytes e))"
      unfolding low_plain_def by metis
  qed
  show "is_stop b \<or> is_accessory b \<or> (\<exists>e \<in> set (alow aq). e_bytes e = b)"
    if "high_held aq" "fst (a_next now aq) = Some (b, r)"
    using that by (auto simp: a_next_def a_sent_def high_held_def split: option.splits dest: find_in_set)
  show "high_held (snd (a_next now aq))" if h: "high_held aq" unfolding high_held_def
  proof
    fix e assume e: "e \<in> set (ahigh (snd (a_next now aq)))"
    have on: "e_type x \<noteq> ACC_ON_PACKET" if "find R (ahigh aq) = Some x" for x R
      using h find_in_set [OF that] by (auto simp: high_held_def)
    have lo: "e_type x = ACC_ON_PACKET \<longrightarrow> is_accessory (e_bytes x)" if "find R (alow aq) = Some x" for x R
      using low find_in_set [OF that] by blast
    from e have "(\<exists>e' \<in> set (ahigh aq). e_type e' = e_type e \<and> e_bytes e' = e_bytes e) \<or>
        (\<exists>x. e \<in> set (a_off now x) \<and> (e_type x = ACC_ON_PACKET \<longrightarrow> is_accessory (e_bytes x)))"
      by (auto simp: a_next_def split: option.splits if_splits dest: a_rest_old on lo)
    with a_off_accessory [of e now] h
    show "e_type e = SPEED_PACKET \<and> is_stop (e_bytes e) \<or> e_type e = ACC_OFF_PACKET \<and> is_accessory (e_bytes e)"
      unfolding high_held_def by metis
  qed
qed

lemma guarded_next:
  assumes "guarded l s" and "scheduleNext force now (dqueues s) = (otx, q)"
  shows "guarded l (s\<lparr>dqueues := q\<rparr>)"
proof -
  from assms(1) have s: "dcc_inv s" "low_plain (abs_queues (dqueues s))" "queues_inv (dqueues s)" "short_packets (dqueues s)"
    by (simp_all add: guarded_def dcc_inv_def)
  from scheduleNext_ref [OF s(3), of now] obtain o1 q1 where n: "scheduleNext False now (dqueues s) = (o1, q1)"
    "queues_inv q1" "a_next now (abs_queues (dqueues s)) = (map_option tx_view o1, abs_queues q1)" by blast
  have "low_plain (abs_queues q1)" "high_held (abs_queues (dqueues s)) \<longrightarrow> high_held (abs_queues q1)"
    using a_next_guarded(1,2) [OF s(2), of now] n(3) by simp_all
  moreover have "q = q1 \<or> q = q1\<lparr>lastSentPacketLocoId := 0\<rparr>"
    using assms(2) n(1) by (cases force) (auto simp: scheduleNext_force split: option.splits)
  ultimately have "queues_inv q" "low_plain (abs_queues q)" "high_held (abs_queues (dqueues s)) \<longrightarrow> high_held (abs_queues q)"
    using n(2) by (auto simp: queues_inv_last abs_queues_last low_plain_def high_held_def)
  with s(1) short_next(1) [OF s(4,3) assms(2)] assms(1) show ?thesis by (simp add: guarded_def dcc_inv_def)
qed

lemma guarded_scan: "guarded l s \<Longrightarrow> set as \<subseteq> set (chain (dslots s)) \<Longrightarrow> guarded l (reminder_scan now as s)"
proof (induction as arbitrary: s)
  case Nil
  then show ?case by (simp add: guarded_def set_position)
next
  case (Cons a as)
  obtain r s' where i: "issueReminder now a s = (r, s')" by (cases "issueReminder now a s")
  have l: "guarded l s'" using lk.issueReminder_kept [OF Cons.prems(1), of now a] i by simp
  have c: "chain (dslots s') = chain (dslots s)" using issueReminder_keeps(1) [of now a s] i by simp
  show ?case
  proof (cases r)
    case True
    with Cons.prems have "dcc_inv (reminder_scan now (a # as) s)" by (intro reminder_scan_inv) (simp_all add: guarded_def)
    with True i l show ?thesis by (simp add: guarded_def)
  next
    case False
    with i l c Cons show ?thesis by simp
  qed
qed

lemma guarded_reminders:
  assumes "guarded l s"
  shows "guarded l (issueReminders now s)"
proof -
  have inv: "dcc_inv s" using assms by (simp add: guarded_def)
  have r: "guarded l (restart s)" using assms restart_inv [OF inv] by (simp add: guarded_def restart_def)
  have "guarded l (reminder_scan now (rest_of_chain (restart s)) (restart s))" if "firstSlot (dslots s) \<noteq> None"
    using rest_in_chain(1) [OF restart_inv [OF inv] restart_ready(1)] that by (intro guarded_scan r) (simp add: restart_ready)
  moreover have "guarded l (reminder_scan now (rest_of_chain s) s)" if "\<not> chainModified (dslots s)" "nextLocoReminder s \<noteq> None"
    using rest_in_chain(1) [OF inv that] by (rule guarded_scan [OF assms])
  moreover have "guarded l ((in_slots (\<lambda>t. t\<lparr>chainModified := False\<rparr>) s)\<lparr>nextLocoReminder := None\<rparr>)"
    using assms by (simp add: guarded_def dcc_inv_def reminder_ok_def)
  ultimately show ?thesis unfolding issueReminders_cases [OF inv] by simp
qed

lemma guarded_loop: "guarded l s \<Longrightarrow> dcc_loop now (s, w) = Some (s', w') \<Longrightarrow> guarded l s'"
proof -
  assume l: "guarded l s" and r: "dcc_loop now (s, w) = Some (s', w')"
  obtain o1 q1 where n: "scheduleNext False now (dqueues s) = (o1, q1)" by (cases "scheduleNext False now (dqueues s)")
  note l1 = guarded_next [OF l n]
  have l2: "guarded l (issueReminders now (s\<lparr>dqueues := q1\<rparr>))" by (rule guarded_reminders [OF l1])
  show ?thesis using l r n l1 guarded_next [OF l2] l2
    by (auto simp: dcc_loop_def Let_def split: if_splits option.splits prod.splits)
qed

lemma guarded_call: "dcc_call s s' \<Longrightarrow> guarded l s \<Longrightarrow> guarded l s'"
proof (induction rule: dcc_call.induct)
  case (forget c s)
  have q: "dqueues (forgetLoco c s) = dqueues s \<or> (\<exists>a. dqueues (forgetLoco c s) = dqueues (setThrottleDCC (Some a) 1 s))"
    and e: "estopIsLocked (forgetLoco c s) = estopIsLocked s"
    using get_slot_found [of s c] forget(3)
    by (auto simp: forgetLoco_def Let_def guarded_def get_slot_def split: option.splits prod.splits)
  with forget forgetLoco_inv [of s c] lk.throttle_kept [OF forget(3)] show ?case by (auto simp: guarded_def)
next
  case (forgetAll s)
  have "guarded l (fold (\<lambda>a s. log_event (BroadcastForgetLoco (uint (loco (slot s a)))) s) as (setThrottleDCC None 1 s))" for as
    by (intro lk.fold_kept lk.log_kept lk.throttle_kept forgetAll)
  with forgetAllLocos_inv [of s] forgetAll show ?case by (simp add: forgetAllLocos_def Let_def guarded_def)
qed (simp_all add: lk.setThrottle_kept lk.estopAll_kept lk.saveSpeed_kept lk.restoreSpeed_kept lk.setMomentum_kept
      lk.setFn_kept lk.changeFn_kept lk.setDCFreq_kept lk.setAccessory_kept lk.setExtendedAccessory_kept
      lk.pom_packet_kept writeCVByteMain_def readCVByteMain_def writeCVBitMain_def lk.log_kept lk.setTime_kept,
      simp add: guarded_def dcc_inv_def)

text \<open>What can happen while the lock is held: any call but unlocking, and the main loop.\<close>

inductive locked_run :: "dcc \<Rightarrow> dcc \<Rightarrow> bool" where
  start: "locked_run s s"
| call: "locked_run s s1 \<Longrightarrow> dcc_call s1 s2 \<Longrightarrow> locked_run s s2"
| loop: "locked_run s s1 \<Longrightarrow> dcc_loop now (s1, w) = Some (s2, w2) \<Longrightarrow> locked_run s s2"

lemma locked_run_guarded: "locked_run s s' \<Longrightarrow> guarded True s \<Longrightarrow> guarded True s'"
  by (induction rule: locked_run.induct) (auto intro: guarded_call guarded_loop)

lemma guarded_lock: "guarded False s \<Longrightarrow> guarded False (estopLock b s)"
proof -
  assume "guarded False s"
  then have "guarded False (s\<lparr>estopIsLocked := b\<rparr>)" by (simp add: guarded_def)
  then show ?thesis using \<open>guarded False s\<close>
    by (cases b) (simp_all add: estopLock_def Let_def lk.log_kept lk.throttle_kept)
qed

lemma firmware_guarded: "firmware sw \<Longrightarrow> guarded False (fst sw)"
proof (induction rule: firmware.induct)
  case (boot ph lh maxLocos ram)
  from firmware_inv [OF firmware.boot [OF boot]] qrep_new [OF boot] show ?case
    by (simp add: guarded_def dcc_init_def low_plain_def abs_queues_qrep entries_def)
next
  case (call s w s')
  then show ?case by (auto intro: guarded_call)
next
  case (loop s w now sw)
  then show ?case by (cases sw) (auto intro: guarded_loop)
qed (simp_all add: guarded_lock)

lemma lock_guards:
  assumes "guarded False s" and "\<not> estopIsLocked s"
    and "\<forall>e \<in> set (ahigh (abs_queues (dqueues s))). e_type e = ACC_OFF_PACKET \<longrightarrow> is_accessory (e_bytes e)"
  shows "guarded True (estopLock True s)"
proof -
  let ?s = "s\<lparr>estopIsLocked := True\<rparr>"
  have i: "dcc_inv ?s" using assms(1) by (simp add: guarded_def)
  have e: "effective_speed ?s None 1 AND 0x7F = 1" by (simp add: effective_speed_def)
  have "is_stop (cab_bytes (uint (0 :: u16)) @ speed_bytes (globalSpeedsteps ?s) (effective_speed ?s None 1))"
    unfolding is_stop_def using e by blast
  with setThrottleDCC_abs [OF i, of None 1] e assms(3) have "high_held (abs_queues (dqueues (setThrottleDCC None 1 ?s)))"
    by (auto simp: high_held_def a_estop_def)
  then show ?thesis using guarded_lock [OF assms(1), of True] assms(2)
    by (simp add: estopLock_def Let_def guarded_def)
qed

lemma guarded_sent:
  assumes "guarded True s" and "scheduleNext force now (dqueues s) = (Some tx, q)"
  shows "is_stop (fst (tx_view tx)) \<or> is_accessory (fst (tx_view tx)) \<or> tx = idle_tx \<or>
    (\<exists>e \<in> set (alow (abs_queues (dqueues s))). e_bytes e = fst (tx_view tx))"
proof -
  from assms(1) have s: "low_plain (abs_queues (dqueues s))" "high_held (abs_queues (dqueues s))" "queues_inv (dqueues s)"
    by (simp_all add: guarded_def dcc_inv_def)
  from scheduleNext_ref [OF s(3), of now] obtain o1 q1 where n: "scheduleNext False now (dqueues s) = (o1, q1)"
    "a_next now (abs_queues (dqueues s)) = (map_option tx_view o1, abs_queues q1)" by blast
  from assms(2) n(1) have "tx = idle_tx \<or> o1 = Some tx"
    by (cases force) (auto simp: scheduleNext_force split: option.splits)
  with a_next_guarded(3) [OF s(1,2), of now "fst (tx_view tx)" "snd (tx_view tx)"] n(2) show ?thesis by auto
qed

section \<open>Reading back what was set\<close>

lemma get_slot_Some:
  assumes "dcc_inv s" and "get_slot cab c s = (Some a, s1)"
  shows "find_slot (word_of_int cab) (dslots s1) = Some a" and "a \<in> set (chain (dslots s1))" and "dcc_inv s1"
    and "k \<noteq> word_of_int cab \<Longrightarrow> find_slot k (dslots s1) = find_slot k (dslots s)"
    and "b \<in> set (chain (dslots s)) \<Longrightarrow> slot s1 b = slot s b"
    and "find_slot (word_of_int cab) (dslots s) = None \<Longrightarrow> slot_data (slot s1 a) = fresh_slot (word_of_int cab)"
    and "s1 = s\<lparr>dslots := dslots s1\<rparr>"
proof -
  from assms(2) have g: "LocoSlots.getSlot (word_of_int cab) c (dslots s) = (Some a, dslots s1)"
    by (auto simp: get_slot_def split: prod.splits)
  note f = getSlot_Some [OF dcc_table [OF assms(1)] g]
  show "find_slot (word_of_int cab) (dslots s1) = Some a" "a \<in> set (chain (dslots s1))"
    "k \<noteq> word_of_int cab \<Longrightarrow> find_slot k (dslots s1) = find_slot k (dslots s)"
    "b \<in> set (chain (dslots s)) \<Longrightarrow> slot s1 b = slot s b"
    "find_slot (word_of_int cab) (dslots s) = None \<Longrightarrow> slot_data (slot s1 a) = fresh_slot (word_of_int cab)"
    using f(2,3,6,7,8) by (simp_all add: slot_def)
  show "dcc_inv s1" using get_slot_inv [OF assms(1), of cab c] assms(2) by simp
  show "s1 = s\<lparr>dslots := dslots s1\<rparr>" using assms(2) by (auto simp: get_slot_def split: prod.splits)
qed

lemma get_slot_search: "dcc_inv s \<Longrightarrow> get_slot cab False s = (find_slot (word_of_int cab) (dslots s), s)"
  by (simp add: get_slot_def getSlot_search)

text \<open>A loco keeps its slot through every call built from the primitives.\<close>

definition at_slot :: "u16 \<Rightarrow> addr \<Rightarrow> dcc \<Rightarrow> bool" where
  "at_slot l a s \<longleftrightarrow> dcc_inv s \<and> find_slot l (dslots s) = Some a"

interpretation sl: call_invariant "at_slot l a" for l a
proof (unfold_locales, goal_cases)
  case (1 f s b)
  then show ?case by (simp add: at_slot_def put_inv keeps_consist_def set_slot_find del: set_slot_simps)
next
  case (3 s cab c)
  have "find_slot l (snd (LocoSlots.getSlot k c (dslots s))) = Some a" for k
  proof (cases "LocoSlots.getSlot k c (dslots s)")
    case (Pair p t)
    have "l \<noteq> 0" using 3 find_slot_0 [of "dslots s"] by (auto simp: at_slot_def)
    then have "k = l \<longrightarrow> snd (LocoSlots.getSlot k c (dslots s)) = dslots s"
      using 3 by (auto simp: at_slot_def getSlot_found)
    moreover have "t = dslots s" if "p = None"
      using Pair that by (auto simp: LocoSlots.getSlot_def split: if_splits option.splits)
    moreover have "find_slot l t = find_slot l (dslots s)" if "p = Some b" "k \<noteq> l" for b
      using getSlot_Some(7) [OF dcc_table, of s k c b t l] 3 Pair that by (simp add: at_slot_def)
    ultimately show ?thesis using 3 Pair by (cases p; cases "k = l") (auto simp: at_slot_def)
  qed
  with 3 get_slot_inv [of s cab c] show ?case by (simp add: at_slot_def get_slot_def split: prod.split)
    (metis snd_conv)
next
  case (7 s x y r d)
  then show ?case using di.pulse_kept by (simp add: at_slot_def)
qed (simp_all add: at_slot_def log_event_inv setThrottleDCC_inv packet_inv)

text \<open>Throttle: only the slots of the consist get a new target.\<close>

lemma fold_copy_target: "b \<notin> set as \<Longrightarrow> slot (fold (copy_target sc) as s) b = slot s b"
  by (induction as arbitrary: s) (auto simp: copy_target_def)

lemma setThrottle2_target: "targetSpeed (slot (setThrottle2 a sc s) b) = targetSpeed (slot s b)"
proof -
  have "targetSpeed (slot (fold (setThrottle2_step sc) as s) b) = targetSpeed (slot s b)" for as
    by (induction as arbitrary: s) (auto simp: setThrottle2_step_def)
  then show ?thesis by (simp add: setThrottle2_def)
qed

lemma followers_other:
  assumes "consist_inv t" and "a \<in> set (chain t)" and "\<not> isConsistFollower (lslots t a)"
  shows "a \<notin> set (consist_from t (consistNext (lslots t a)))"
proof -
  from assms(1) obtain C where C: "table_inv t" "crep t C" by (auto simp: consist_inv_def)
  show ?thesis
  proof (cases "a \<in> \<Union>(set ` C)")
    case True
    then obtain c where c: "c \<in> C" "a \<in> set c" by blast
    from crep_member(2) [OF C(2) c] assms(3) have "a = hd c" by simp
    moreover from c C(2) have ok: "linked (cn (lslots t)) (Some (hd c)) c" by (auto simp: crep_def consist_ok_def)
    ultimately obtain cs where l: "c = a # cs" "linked (cn (lslots t)) (consistNext (lslots t a)) cs" "a \<notin> set cs"
      using linked_distinct [OF ok] c(2) by (cases c) auto
    have "set c \<subseteq> set (chain t)" using c(1) C(2) by (simp add: crep_def)
    then have "consist_from t (consistNext (lslots t a)) = cs" unfolding consist_from_def
      by (intro linked_walk [OF l(2)]) (use l(1) chain_below [OF C(1)] in auto)
    with l(3) show ?thesis by simp
  next
    case False
    with assms(2) C(2) show ?thesis by (auto simp: crep_def consist_from_def)
  qed
qed

lemma set_target_target:
  assumes "dcc_inv s" and "a \<in> set (chain (dslots s))" and "\<not> isConsistFollower (slot s a)"
  shows "targetSpeed (slot (set_target now cab sp sc a s) a) = sc"
proof -
  have k: "keeps_consist (\<lambda>x. x\<lparr>targetSpeed := sc\<rparr>)" by (rule keeps_consist_fields)
  let ?s = "put a (\<lambda>x. x\<lparr>targetSpeed := sc\<rparr>) s"
  have "consist_inv (dslots ?s)" using put_inv [OF k assms(1), of a] by (simp add: dcc_inv_def)
  moreover have "a \<in> set (chain (dslots ?s))"
    using assms(2) k by (simp add: set_slot_chain keeps_consist_def del: set_slot_simps)
  moreover have "\<not> isConsistFollower (lslots (dslots ?s) a)"
    using assms(3) by (simp add: isConsistFollower_def slot_def)
  ultimately have "a \<notin> set (consist_from (dslots ?s) (consistNext (slot ?s a)))"
    unfolding slot_def by (rule followers_other)
  then have "targetSpeed (slot (fold (copy_target sc) (consist_from (dslots ?s) (consistNext (slot ?s a))) ?s) a) = sc"
    by (simp add: fold_copy_target)
  then show ?thesis unfolding set_target_def Let_def by (simp add: setThrottle2_target)
qed

text \<open>Functions: one bit of one loco.\<close>

lemma updateGroupflags_function: "functionMap (slot (updateGroupflags a n s) b) = functionMap (slot s b)"
  by (simp add: updateGroupflags_def Let_def)

lemma set_function_bit_map:
  "functionMap (slot (set_function_bit n on a s) b) =
    (if b = a then if on then functionMap (slot s a) OR push_bit (nat n) 1 else functionMap (slot s a) AND NOT (push_bit (nat n) 1)
     else functionMap (slot s b))"
  by (simp add: set_function_bit_def Let_def updateGroupflags_function del: push_bit_of_1)

lemma function_bit:
  assumes "n < 32" and "m < 32"
  shows "(x OR push_bit n 1 :: u32) AND push_bit m 1 \<noteq> 0 \<longleftrightarrow> m = n \<or> x AND push_bit m 1 \<noteq> 0"
    and "(x AND NOT (push_bit n 1) :: u32) AND push_bit m 1 \<noteq> 0 \<longleftrightarrow> m \<noteq> n \<and> x AND push_bit m 1 \<noteq> 0"
  using assms by (auto simp: and_exp_eq_0_iff_not_bit bit_or_iff bit_and_iff bit_not_iff bit_exp_iff push_bit_of_1 [symmetric]
    simp del: push_bit_of_1) (auto simp: push_bit_of_1 and_exp_eq_0_iff_not_bit bit_simps)

section \<open>Momentum\<close>

lemma normalize_int: "normalize b = (if 128 \<le> uint b then uint b - 128 else -1 - uint b)"
proof -
  have "uint b mod 128 = uint b - 128" if "128 \<le> uint b" using that uint_byte [of b] by presburger
  then show ?thesis by (simp add: normalize_def and_7F and_80 [symmetric])
qed

lemma uint_of_byte: "0 \<le> j \<Longrightarrow> j < 256 \<Longrightarrow> uint (word_of_int j :: byte) = j"
  by (simp add: uint_word_of_int)

lemma dccalize_int: "-128 \<le> k \<Longrightarrow> k \<le> 127 \<Longrightarrow> uint (dccalize k) = (if 0 \<le> k then k + 128 else -1 - k)"
  using uint_of_byte [of "-1 - k"] or_80 [of k] unfolding dccalize_def by (auto simp del: of_int_diff)

lemma normalize_dccalize: "-128 \<le> k \<Longrightarrow> k \<le> 127 \<Longrightarrow> normalize (dccalize k) = k"
  by (simp add: normalize_int dccalize_int)

lemma normalize_range: "-128 \<le> normalize b \<and> normalize b \<le> 127"
  using uint_byte [of b] unfolding normalize_int by (cases "128 \<le> uint b"; simp only: if_True if_False; linarith)

lemma dccalize_normalize: "dccalize (normalize b) = b"
proof -
  have "uint (dccalize (normalize b)) = uint b"
    using dccalize_int [of "normalize b"] normalize_range [of b] uint_byte [of b] unfolding normalize_int
    by (cases "128 \<le> uint b"; simp only: if_True if_False split: if_splits; linarith)
  then show ?thesis by (simp only: word_uint_eq_iff)
qed

lemma momentum_step_normal:
  assumes "0 \<le> ticks"
  shows "normalize (momentum_step ticks sc target) =
    (if normalize sc < normalize target then min (normalize sc + ticks) (normalize target)
     else max (normalize sc - ticks) (normalize target))"
  unfolding momentum_step_def Let_def
  by (rule normalize_dccalize) (use assms normalize_range [of sc] normalize_range [of target] in \<open>auto simp: min_def max_def\<close>)

section \<open>Reminders\<close>

text \<open>Each call of the scan leaves a shorter rest of the chain to look at.\<close>

lemma setThrottle2_links:
  "snext (slot (setThrottle2 c sc s) b) = snext (slot s b)" "slotCount (dslots (setThrottle2 c sc s)) = slotCount (dslots s)"
proof -
  have "snext (slot (fold (setThrottle2_step sc) as s) b) = snext (slot s b) \<and>
    slotCount (dslots (fold (setThrottle2_step sc) as s)) = slotCount (dslots s)" for as
    by (induction as arbitrary: s) (auto simp: setThrottle2_step_def)
  then show "snext (slot (setThrottle2 c sc s) b) = snext (slot s b)"
    "slotCount (dslots (setThrottle2 c sc s)) = slotCount (dslots s)" by (simp_all add: setThrottle2_def)
qed

lemma function_reminder_slots: "dslots (snd (function_reminder g f a s)) = dslots s" "slot (snd (function_reminder g f a s)) = slot s"
  by (simp_all add: function_reminder_def setFunctionInternal_def Let_def split: prod.split)

lemma speed_reminder_links:
  "snext (slot (speed_reminder now a s) b) = snext (slot s b)" "slotCount (dslots (speed_reminder now a s)) = slotCount (dslots s)"
  by (simp_all add: speed_reminder_def setThrottle2_links Let_def)

lemma issueReminder_links:
  "snext (slot (snd (issueReminder now a s)) b) = snext (slot s b)"
  "slotCount (dslots (snd (issueReminder now a s))) = slotCount (dslots s)"
  by (simp_all add: issueReminder_def function_reminder_slots speed_reminder_links)

lemma scan_progress:
  "dcc_inv s \<Longrightarrow> linked (\<lambda>b. snext (slot s b)) p bs \<Longrightarrow> set bs \<subseteq> set (chain (dslots s)) \<Longrightarrow>
   (length (rest_of_chain (reminder_scan now bs s)) < length bs \<or> nextLocoReminder (reminder_scan now bs s) = None) \<and>
   loopStatus (reminder_scan now bs s) = loopStatus s \<and>
   chainModified (dslots (reminder_scan now bs s)) = chainModified (dslots s)"
proof (induction bs arbitrary: s p)
  case (Cons b bs)
  obtain r s1 where i: "issueReminder now b s = (r, s1)" by (cases "issueReminder now b s")
  have sn: "(\<lambda>b. snext (slot s1 b)) = (\<lambda>b. snext (slot s b))"
    using issueReminder_links(1) [of now b s] i by (simp add: fun_eq_iff)
  have keep: "dcc_inv s1" "chain (dslots s1) = chain (dslots s)" "loopStatus s1 = loopStatus s"
    "chainModified (dslots s1) = chainModified (dslots s)" "slotCount (dslots s1) = slotCount (dslots s)"
    using di.issueReminder_kept [OF Cons.prems(1), of now b] issueReminder_keeps [of now b s] issueReminder_links(2) [of now b s] i
    by simp_all
  have l: "linked (\<lambda>b. snext (slot s1 b)) (snext (slot s1 b)) bs" using Cons.prems(2) sn by (simp add: fun_eq_iff)
  have below: "set bs \<subseteq> {..<slotCount (dslots s1)}"
    using Cons.prems(3) chain_below [OF dcc_table [OF Cons.prems(1)]] keep(5) by auto
  show ?case
  proof (cases r)
    case True
    have "rest_of_chain (s1\<lparr>nextLocoReminder := snext (slot s1 b)\<rparr>) = bs"
      using linked_walk [OF l below] by (simp add: rest_of_chain_def slot_def)
    with True i keep show ?thesis by simp
  next
    case False
    with Cons.IH [OF keep(1) l] Cons.prems(3) keep i show ?thesis by auto
  qed
qed simp

lemma reminders_progress:
  assumes "dcc_inv s" and "\<not> chainModified (dslots s)" and "nextLocoReminder s \<noteq> None"
  shows "length (rest_of_chain (issueReminders now s)) < length (rest_of_chain s)"
    and "loopStatus (issueReminders now s) = loopStatus s" and "\<not> chainModified (dslots (issueReminders now s))"
proof -
  from assms obtain a where a: "nextLocoReminder s = Some a" "a \<in> set (chain (dslots s))"
    by (auto simp: dcc_inv_def reminder_ok_def)
  from chain_suffix [OF dcc_table [OF assms(1)] a(2)] obtain bs cs where
    c: "chain (dslots s) = bs @ a # cs" "linked (sn (lslots (dslots s))) (Some a) (a # cs)" .
  have r: "rest_of_chain s = a # cs" unfolding rest_of_chain_def a(1) slot_def
    by (rule linked_walk [OF c(2)]) (use chain_below [OF dcc_table [OF assms(1)]] c(1) in auto)
  have "issueReminders now s = reminder_scan now (a # cs) s"
    unfolding issueReminders_cases [OF assms(1)] using assms(2) r by (simp add: a(1))
  moreover have "set (a # cs) \<subseteq> set (chain (dslots s))" using c(1) by auto
  moreover have "linked (\<lambda>b. snext (slot s b)) (Some a) (a # cs)" using c(2) by (simp add: slot_def)
  ultimately show "length (rest_of_chain (issueReminders now s)) < length (rest_of_chain s)"
    "loopStatus (issueReminders now s) = loopStatus s" "\<not> chainModified (dslots (issueReminders now s))"
    using scan_progress [OF assms(1), of "Some a" "a # cs" now] r assms(2)
    by (auto simp: rest_of_chain_def)
qed

section \<open>Properties\<close>

text \<open>A state with two locos, 3 and 4, for the instances.\<close>

definition demo :: dcc where
  "demo = dcc_init boot_queues two_locos"

lemma demo_inv: "dcc_inv demo"
  using boot_inv(1) two_locos_consist(1)
  by (simp add: dcc_inv_def demo_def dcc_init_def reminder_ok_def short_packets_def boot_queues_def new_queues_def)

lemma demo_slots: "dslots demo = two_locos" "\<not> estopIsLocked demo"
  by (simp_all add: demo_def dcc_init_def)

text \<open>
  In every state the firmware can reach, through any sequence of API calls, lock changes, runs of
  the main loop and waveform interrupts, the invariants of queues, loco table, consists and reminder
  position hold, and \<^verbatim>\<open>DCC::loop\<close> returns: it never waits in \<^verbatim>\<open>schedulePacket\<close> for a pending packet
  to go, and when the reminder window is open it hands over a packet.
\<close>

theorem firmware_safe:
  assumes "firmware (s, w)"
  shows "dcc_inv s \<and> wf_track w \<and> (\<exists>s' w'. dcc_loop now (s, w) = Some (s', w') \<and> firmware (s', w') \<and>
    (isReminderWindowOpen w \<longrightarrow> packetPending w'))"
proof -
  from firmware_inv [OF assms] have "dcc_inv s" "wf_track w" by simp_all
  moreover from dcc_loop_ok [OF this, of now] obtain s' w' where "dcc_loop now (s, w) = Some (s', w')"
    "isReminderWindowOpen w \<longrightarrow> packetPending w'" by blast
  ultimately show ?thesis using firmware.loop [OF assms] by blast
qed

lemma demo_boot: "firmware (dcc_init boot_queues (new_table (\<lambda>_. blank_loco) 2 50), newTrack PREAMBLE_BITS_MAIN True)"
  unfolding boot_queues_def by (rule firmware.boot) (simp add: blank_slot_def)

theorem firmware_safe_witness:
  "\<exists>s w. firmware (s, w) \<and> dcc_inv s \<and> wf_track w"
  using firmware_safe [OF firmware.call [OF demo_boot dcc_call.throttle [of _ 0 3 20 True]], of 0]
    firmware.call [OF demo_boot dcc_call.throttle [of _ 0 3 20 True]] by blast

text \<open>
  C2: the emergency stop lock holds. From the moment \<^verbatim>\<open>estopLock(true)\<close> is called in a reachable state
  until it is called with false, whatever other calls of the DCC layer are made and however the main
  loop runs, the high priority queue holds only emergency stops and accessory packets, the low
  priority queue holds no speed entry, and every packet that \<^verbatim>\<open>scheduleNext\<close> hands to the waveform
  is an emergency stop, an accessory packet, the idle packet or one of the low priority queue. The hypothesis on
  the entries that wait to switch an accessory off is needed: \<^verbatim>\<open>scheduleDCCSpeedPacket\<close> may have
  overwritten one of them with a speed packet before the lock, and the lock does not remove it.
\<close>

theorem estop_lock_holds:
  assumes "firmware (s, w)" and "\<not> estopIsLocked s"
    and "\<forall>e \<in> set (ahigh (abs_queues (dqueues s))). e_type e = ACC_OFF_PACKET \<longrightarrow> is_accessory (e_bytes e)"
    and "locked_run (estopLock True s) s'"
  shows "estopIsLocked s' \<and> dcc_inv s' \<and>
    (\<forall>e \<in> set (ahigh (abs_queues (dqueues s'))).
       e_type e = SPEED_PACKET \<and> is_stop (e_bytes e) \<or> e_type e = ACC_OFF_PACKET \<and> is_accessory (e_bytes e)) \<and>
    (\<forall>e \<in> set (alow (abs_queues (dqueues s'))). e_type e \<noteq> SPEED_PACKET) \<and>
    (\<forall>force now tx q. scheduleNext force now (dqueues s') = (Some tx, q) \<longrightarrow>
       is_stop (fst (tx_view tx)) \<or> is_accessory (fst (tx_view tx)) \<or> tx = idle_tx \<or>
       (\<exists>e \<in> set (alow (abs_queues (dqueues s'))). e_bytes e = fst (tx_view tx)))"
proof -
  have g: "guarded True s'"
    using locked_run_guarded [OF assms(4) lock_guards [OF _ assms(2,3)]] firmware_guarded [OF assms(1)] by simp
  with guarded_sent [OF g] show ?thesis by (simp add: guarded_def high_held_def low_plain_def)
qed

theorem estop_lock_holds_witness:
  "estopIsLocked (snd (setThrottle 0 3 50 True (estopLock True (dcc_init boot_queues (new_table (\<lambda>_. blank_loco) 2 50)))))"
proof -
  let ?s = "dcc_init boot_queues (new_table (\<lambda>_. blank_loco) 2 50)"
  have "\<not> estopIsLocked ?s" "ahigh (abs_queues (dqueues ?s)) = []"
    by (simp_all add: dcc_init_def boot_queues_def abs_queues_qrep [OF qrep_new] blank_slot_def entries_def)
  with estop_lock_holds [OF demo_boot, OF _ _ locked_run.call [OF locked_run.start dcc_call.throttle [of _ 0 3 50 True]]]
  show ?thesis by simp
qed

lemma speed_code_parts:
  "((sp AND 0x7F) + (if dir then 128 else 0)) AND 0x7F = (sp AND 0x7F :: byte) \<and>
   (((sp AND 0x7F) + (if dir then 128 else 0)) AND 0x80 \<noteq> (0 :: byte) \<longleftrightarrow> dir)"
proof -
  let ?c = "(sp AND 0x7F) + (if dir then 128 else 0)"
  have u: "uint ?c = uint sp mod 128 + (if dir then 128 else 0)"
    by (simp add: uint_word_ariths and_7F)
  then have "uint (?c AND 0x7F) = uint (sp AND 0x7F)" by (simp add: and_7F)
  moreover have "?c AND 0x80 \<noteq> 0 \<longleftrightarrow> dir" unfolding and_80 u using pos_mod_bound [of 128 "uint sp"] by (auto simp: not_le)
  ultimately show ?thesis by (simp only: word_uint_eq_iff)
qed

text \<open>
  A throttle setting reads back. When \<^verbatim>\<open>setThrottle\<close> succeeds for a loco that does not follow
  another one in a consist, the reported throttle speed and direction are the ones given,
  whether the change is applied at once or left to momentum, and also while the emergency stop is locked.
\<close>

theorem throttle_roundtrip:
  assumes "dcc_inv s" and "cab \<noteq> 0" and "setThrottle now cab sp dir s = (True, s')"
    and "\<forall>a. find_slot cab (dslots s) = Some a \<longrightarrow> \<not> isConsistFollower (slot s a)"
  shows "getThrottleSpeed (uint cab) s' = uint (sp AND 0x7F) \<and> (getThrottleDirection (uint cab) s' \<longleftrightarrow> dir)"
proof -
  let ?sc = "(sp AND 0x7F) + (if dir then 128 else 0)"
  from assms(2,3) obtain a s1 where g: "get_slot (uint cab) True s = (Some a, s1)"
    by (auto simp: setThrottle_def Let_def split: if_splits prod.splits option.splits)
  note f = get_slot_Some [OF assms(1) g, simplified word_of_int_uint]
  have free: "\<not> isConsistFollower (slot s1 a)"
  proof (cases "find_slot cab (dslots s)")
    case None
    with f(6) have "slot_data (slot s1 a) = fresh_slot cab" by simp
    then show ?thesis using slot_data_consist(1) [of "slot s1 a"] by (simp add: isConsistFollower_def fresh_slot_def)
  next
    case (Some b)
    with g assms(1,2) have "b = a" "s1 = s" by (simp_all add: get_slot_def getSlot_found)
    with Some assms(4) show ?thesis by simp
  qed
  have s': "s' = (if targetSpeed (slot s1 a) = ?sc then s1 else set_target now cab sp ?sc a s1)"
    using assms(2,3) g free by (simp add: setThrottle_def Let_def split: if_splits)
  have "at_slot cab a s1" using f(1,3) by (simp add: at_slot_def)
  with sl.set_target_kept have at: "at_slot cab a s'" using s' by simp
  have "targetSpeed (slot s' a) = ?sc" using s' set_target_target [OF f(3) f(2) free] by simp
  with at have "getThrottleSpeedByte (uint cab) s' = ?sc"
    by (simp add: getThrottleSpeedByte_def at_slot_def get_slot_search)
  with speed_code_parts [of sp dir] show ?thesis by (simp add: getThrottleSpeed_def getThrottleDirection_def)
qed

theorem throttle_roundtrip_witness:
  "fst (setThrottle 9 3 50 True demo) \<and> getThrottleSpeed 3 (snd (setThrottle 9 3 50 True demo)) = 50"
proof -
  have ok: "fst (setThrottle 9 3 50 True demo) \<and> \<not> isConsistFollower (slot demo 0)" by code_simp
  then obtain s' where r: "setThrottle 9 3 50 True demo = (True, s')" by (metis prod.collapse)
  from throttle_roundtrip [OF demo_inv _ r] ok two_locos_facts(2) r show ?thesis by (simp add: demo_slots)
qed

lemma setFn_slot:
  assumes "dcc_inv s" and "0 < cab" and "0 \<le> n" and "n \<le> 31" and "setFn cab n on s = (True, s')"
  obtains s0 a s1 where "dcc_inv s0" and "dslots s0 = dslots s" and "get_slot cab True s0 = (Some a, s1)"
    and "s' = set_function_bit n on a s1"
proof -
  let ?s0 = "if n > 28 then send_binary_state cab n on s else s"
  have i: "dcc_inv ?s0" "dslots ?s0 = dslots s"
    using assms(1) di.send_binary_state_kept by (simp_all add: send_binary_state_def Let_def)
  from assms(2-5) obtain a s1 where "get_slot cab True ?s0 = (Some a, s1)" "s' = set_function_bit n on a s1"
    unfolding setFn_def Let_def by (auto split: if_splits prod.splits option.splits)
  with i show thesis by (rule that)
qed

lemma getFn_slot: "dcc_inv s \<Longrightarrow> 0 < cab \<Longrightarrow> m \<le> 31 \<Longrightarrow> getFn cab m s = (case find_slot (word_of_int cab) (dslots s) of
    None \<Rightarrow> -1 | Some a \<Rightarrow> if functionMap (slot s a) AND push_bit (nat m) 1 \<noteq> 0 then 1 else 0)"
  by (simp add: getFn_def get_slot_search)

lemma set_function_bit_find: "dcc_inv s \<Longrightarrow> find_slot k (dslots (set_function_bit n on a s)) = find_slot k (dslots s)"
proof -
  assume i: "dcc_inv s"
  have "keeps_key (\<lambda>x. x\<lparr>functionMap := m\<rparr>)" "keeps_key (\<lambda>x. x\<lparr>groupFlags := groupFlags x OR g\<rparr>)" for m g
    by (simp_all add: keeps_key_def)
  then show ?thesis
    by (simp add: set_function_bit_def updateGroupflags_def Let_def set_slot_find del: set_slot_simps)
qed

text \<open>
  A function setting reads back. After a successful \<^verbatim>\<open>setFn\<close> of a function up to 31 the function
  has the state asked for; every other function of the loco is as it was (off, if the loco had no
  slot), and no function of any other loco has changed.
\<close>

theorem function_roundtrip:
  assumes "dcc_inv s" and "0 < cab" and "0 \<le> n" and "n \<le> 31" and "setFn cab n on s = (True, s')"
  shows "getFn cab n s' = (if on then 1 else 0) \<and>
    (\<forall>m. 0 \<le> m \<and> m \<le> 31 \<and> m \<noteq> n \<longrightarrow> getFn cab m s' = (if getFn cab m s = 1 then 1 else 0)) \<and>
    (\<forall>c m. 0 < c \<and> 0 \<le> m \<and> m \<le> 31 \<and> (word_of_int c :: u16) \<noteq> word_of_int cab \<longrightarrow> getFn c m s' = getFn c m s)"
proof -
  obtain s0 a s1 where s0: "dcc_inv s0" "dslots s0 = dslots s" "get_slot cab True s0 = (Some a, s1)"
    and s': "s' = set_function_bit n on a s1" using setFn_slot [OF assms] .
  note f = get_slot_Some [OF s0(1,3)]
  have i': "dcc_inv s'" unfolding s' by (rule di.set_function_bit_kept [OF f(3)])
  have slot0: "slot s0 = slot s" by (simp add: slot_def s0(2) fun_eq_iff)
  note fb = function_bit [of "nat n"]
  have find': "find_slot k (dslots s') = find_slot k (dslots s1)" for k unfolding s' by (rule set_function_bit_find [OF f(3)])
  have own: "getFn cab m s' = (if functionMap (slot s' a) AND push_bit (nat m) 1 \<noteq> 0 then 1 else 0)" if "m \<le> 31" for m
    using getFn_slot [OF i' assms(2) that] f(1) find' by simp
  have before: "getFn cab m s = 1 \<longleftrightarrow> functionMap (slot s1 a) AND push_bit (nat m) 1 \<noteq> 0" if "m \<le> 31" for m
  proof (cases "find_slot (word_of_int cab) (dslots s)")
    case None
    with f(6) s0(2) have "slot_data (slot s1 a) = fresh_slot (word_of_int cab)" by simp
    then have "functionMap (slot s1 a) = 0" by (metis LocoSlot.select_convs(1) LocoSlot.surjective LocoSlot.update_convs(4) fresh_slot_def slot_data_def)
    with None getFn_slot [OF assms(1,2) that] show ?thesis by simp
  next
    case (Some b)
    then have "(word_of_int cab :: u16) \<noteq> 0" using find_slot_0 [OF dcc_table [OF assms(1)]] by auto
    with Some s0 have "b = a" by (simp add: get_slot_def getSlot_found)
    moreover from this Some have "slot s1 a = slot s a" using f(5) [of a] find_slot_Some [OF Some] s0(2) slot0 by simp
    ultimately show ?thesis using Some getFn_slot [OF assms(1,2) that] by simp
  qed
  have "getFn cab m s' = (if m = n then if on then 1 else 0 else if getFn cab m s = 1 then 1 else 0)" if "0 \<le> m" "m \<le> 31" for m
  proof -
    have "nat m = nat n \<longleftrightarrow> m = n" using that assms(3) by auto
    moreover have "nat n < 32" "nat m < 32" using that assms(3,4) by auto
    ultimately show ?thesis using own [OF that(2)] before [OF that(2)] fb [of "nat m" "functionMap (slot s1 a)"]
      by (cases on; cases "m = n") (simp_all add: s' set_function_bit_map del: push_bit_of_1)
  qed
  moreover have "getFn c m s' = getFn c m s"
    if "0 < c" "0 \<le> m" "m \<le> 31" "(word_of_int c :: u16) \<noteq> word_of_int cab" for c m
  proof -
    have fc: "find_slot (word_of_int c) (dslots s') = find_slot (word_of_int c) (dslots s)"
      using find' f(4) [OF that(4)] s0(2) by simp
    have "functionMap (slot s' b) = functionMap (slot s b)" if b: "find_slot (word_of_int c) (dslots s) = Some b" for b
    proof -
      have "b \<in> set (chain (dslots s0))" using find_slot_Some [OF b] s0(2) by simp
      moreover have "b \<noteq> a" using b f(1) f(4) [OF \<open>(word_of_int c :: u16) \<noteq> word_of_int cab\<close>] s0(2) \<open>(word_of_int c :: u16) \<noteq> word_of_int cab\<close>
        by (metis find_slot_Some)
      ultimately show ?thesis using f(5) slot0 by (simp add: s' set_function_bit_map del: push_bit_of_1)
    qed
    then show ?thesis using getFn_slot [OF i' that(1,3)] getFn_slot [OF assms(1) that(1,3)] fc
      by (cases "find_slot (word_of_int c :: u16) (dslots s)") simp_all
  qed
  ultimately show ?thesis using assms(3,4) by simp
qed

theorem function_roundtrip_witness:
  "fst (setFn 4 12 True demo) \<and> getFn 4 12 (snd (setFn 4 12 True demo)) = 1"
proof -
  have "fst (setFn 4 12 True demo)" by code_simp
  then obtain s' where r: "setFn 4 12 True demo = (True, s')" by (metis prod.collapse)
  from function_roundtrip [OF demo_inv _ _ _ r] r show ?thesis by simp
qed

text \<open>
  C40: momentum moves a loco steadily to its target. One step of \<open>ticks\<close> notches brings the speed, on
  the scale that runs from full reverse to full forward, exactly that much closer and never
  past the target; within reach it lands on the target's own speed code, so the ramp ends.
\<close>

theorem momentum_converges:
  assumes "0 < ticks"
  shows "\<bar>normalize target - normalize (momentum_step ticks sc target)\<bar> = max 0 (\<bar>normalize target - normalize sc\<bar> - ticks) \<and>
    (\<bar>normalize target - normalize sc\<bar> \<le> ticks \<longrightarrow> momentum_step ticks sc target = target) \<and>
    (normalize sc \<le> normalize (momentum_step ticks sc target) \<longleftrightarrow> normalize sc \<le> normalize target)"
proof -
  note n = momentum_step_normal [of ticks sc target]
  have "momentum_step ticks sc target = target" if "\<bar>normalize target - normalize sc\<bar> \<le> ticks"
  proof -
    have "normalize (momentum_step ticks sc target) = normalize target" using n that assms by auto
    then show ?thesis by (metis dccalize_normalize)
  qed
  moreover have "\<bar>normalize target - normalize (momentum_step ticks sc target)\<bar> = max 0 (\<bar>normalize target - normalize sc\<bar> - ticks) \<and>
    (normalize sc \<le> normalize (momentum_step ticks sc target) \<longleftrightarrow> normalize sc \<le> normalize target)"
    using n assms by (auto simp: min_def max_def)
  ultimately show ?thesis by blast
qed

theorem momentum_converges_witness:
  "\<bar>normalize 0xA0 - normalize (momentum_step 5 0x90 0xA0)\<bar> = 11 \<and> momentum_step 40 0x90 0xA0 = 0xA0"
proof -
  have d: "\<bar>normalize 0xA0 - normalize (0x90 :: byte)\<bar> = 16" by (simp add: normalize_int)
  from momentum_converges [of 5 "0xA0" "0x90"]
  have "\<bar>normalize 0xA0 - normalize (momentum_step 5 0x90 0xA0)\<bar> = max 0 (\<bar>normalize 0xA0 - normalize (0x90 :: byte)\<bar> - 5)"
    by linarith
  moreover from momentum_converges [of 40 "0xA0" "0x90"] d have "momentum_step 40 0x90 0xA0 = 0xA0" by linarith
  ultimately show ?thesis unfolding d by simp
qed

text \<open>
  A ramp passes through the emergency stop code. A loco under momentum that leaves standstill
  forwards by one notch gets speed code 1, whatever its target, and \<^verbatim>\<open>setThrottleDCC\<close> sends that as an emergency stop
  packet, first in the queue and repeated.
\<close>

theorem momentum_sends_estop:
  assumes "dcc_inv s" and "\<not> estopIsLocked s" and "\<not> consistReverse (slot s a)" and "0x81 \<le> target"
  shows "momentum_step 1 0x80 target = 0x81 \<and>
    (\<exists>e. ahigh (abs_queues (dqueues (setThrottleDCC (Some a) (momentum_step 1 0x80 target) s))) =
       e # filter (\<lambda>x. e_type x = ACC_OFF_PACKET \<or> loco (slot s a) \<noteq> 0 \<and> e_loco x \<noteq> loco (slot s a))
         (ahigh (abs_queues (dqueues s))) \<and>
       e_bytes e = cab_bytes (uint (loco (slot s a))) @ speed_bytes (globalSpeedsteps s) 0x81 \<and> e_repeat e = 4)"
proof -
  have t: "129 \<le> uint target" using assms(4) by (simp add: word_le_def)
  have "normalize (momentum_step 1 0x80 target) = 1"
    using momentum_step_normal [of 1 "0x80" target] t by (simp add: normalize_int)
  then have step: "momentum_step 1 0x80 target = dccalize 1" by (metis dccalize_normalize)
  have one: "dccalize 1 = 0x81" by (simp add: dccalize_def)
  have sc: "effective_speed s (Some a) 0x81 = 0x81" using assms(2,3) by (simp add: effective_speed_def)
  from setThrottleDCC_abs [OF assms(1), of "Some a" "0x81"] sc step one show ?thesis
    by (simp add: a_estop_def)
qed

theorem momentum_sends_estop_witness:
  "momentum_step 1 0x80 0xFF = 0x81 \<and>
   map e_bytes (ahigh (abs_queues (dqueues (setThrottleDCC (Some 0) (momentum_step 1 0x80 0xFF) demo)))) = [[3, 0x3F, 0x81]]"
proof -
  have d: "\<not> consistReverse (slot demo 0)" "loco (slot demo 0) = 3" "ahigh (abs_queues (dqueues demo)) = []"
    "cab_bytes (uint (3 :: u16)) @ speed_bytes (globalSpeedsteps demo) 0x81 = [3, 0x3F, 0x81]"
    by code_simp+
  from momentum_sends_estop [OF demo_inv demo_slots(2) d(1), of "0xFF"] d(2-4) show ?thesis by auto
qed

text \<open>
  The reminder loop makes progress. Each call looks at a shorter rest of the loco chain, in the
  same one of its ten states, until it has reached the end; the next call, and every call after the
  chain was modified, starts again at the first loco with the next state. So no loco and no function
  group is left out for ever.
\<close>

theorem reminder_loop_progress:
  assumes "dcc_inv s"
  shows "(\<not> chainModified (dslots s) \<and> nextLocoReminder s \<noteq> None \<longrightarrow>
      length (rest_of_chain (issueReminders now s)) < length (rest_of_chain s) \<and>
      loopStatus (issueReminders now s) = loopStatus s \<and> \<not> chainModified (dslots (issueReminders now s))) \<and>
    ((chainModified (dslots s) \<or> nextLocoReminder s = None) \<and> firstSlot (dslots s) \<noteq> None \<longrightarrow>
      length (rest_of_chain (issueReminders now s)) < length (chain (dslots s)) \<and>
      loopStatus (issueReminders now s) = (loopStatus s + 1) mod 10 \<and> \<not> chainModified (dslots (issueReminders now s)))"
proof (intro conjI impI)
  assume "\<not> chainModified (dslots s) \<and> nextLocoReminder s \<noteq> None"
  with reminders_progress [OF assms] show "length (rest_of_chain (issueReminders now s)) < length (rest_of_chain s)"
    "loopStatus (issueReminders now s) = loopStatus s" "\<not> chainModified (dslots (issueReminders now s))" by blast+
next
  assume c: "(chainModified (dslots s) \<or> nextLocoReminder s = None) \<and> firstSlot (dslots s) \<noteq> None"
  have "issueReminders now s = issueReminders now (restart s)"
    using c restart_ready [of s] issueReminders_cases [OF assms, of now] issueReminders_cases [OF restart_inv [OF assms], of now]
    by auto
  moreover have "rest_of_chain (restart s) = chain (dslots s)"
    by (simp add: rest_of_chain_def chain_def restart_def slot_def)
  moreover have "loopStatus (restart s) = (loopStatus s + 1) mod 10"
  proof (cases "loopStatus s = 9")
    case False
    then have "loopStatus s + 1 < 10" using assms by (simp add: dcc_inv_def)
    then show ?thesis by (simp add: restart_def)
  qed (simp add: restart_def)
  ultimately show "length (rest_of_chain (issueReminders now s)) < length (chain (dslots s))"
    "loopStatus (issueReminders now s) = (loopStatus s + 1) mod 10" "\<not> chainModified (dslots (issueReminders now s))"
    using reminders_progress [OF restart_inv [OF assms] restart_ready(1), of now] c restart_ready(2) [of s] by auto
qed

theorem reminder_loop_progress_witness:
  "length (rest_of_chain (issueReminders 0 demo)) < 2 \<and> loopStatus (issueReminders 0 demo) = 1"
proof -
  have d: "nextLocoReminder demo = None" "firstSlot (dslots demo) \<noteq> None" "length (chain (dslots demo)) = 2" "loopStatus demo = 0"
  proof -
    show "nextLocoReminder demo = None" "loopStatus demo = 0" by (simp_all add: demo_def dcc_init_def)
    have "firstSlot two_locos = Some 1 \<and> length (chain two_locos) = 2" by code_simp
    then show "firstSlot (dslots demo) \<noteq> None" "length (chain (dslots demo)) = 2" by (simp_all add: demo_slots)
  qed
  from reminder_loop_progress [OF demo_inv, of 0] d show ?thesis by simp
qed

lemma crep_no_ref:
  assumes "crep t C" and "a \<notin> set (chain t)" and "b \<in> set (chain t)"
  shows "consistLead (lslots t b) \<noteq> Some a \<and> consistNext (lslots t b) \<noteq> Some a"
proof (cases "b \<in> \<Union>(set ` C)")
  case True
  then obtain c where c: "c \<in> C" "b \<in> set c" by blast
  with assms(1) have ok: "consist_ok (lslots t) c" "set c \<subseteq> set (chain t)" by (auto simp: crep_def)
  then have l: "linked (cn (lslots t)) (Some (hd c)) c" "hd c \<in> set c" by (cases c; simp add: consist_ok_def)+
  from linked_mem_split [OF l(1) c(2)] obtain bs cs where s: "c = bs @ b # cs" "linked (cn (lslots t)) (consistNext (lslots t b)) cs" .
  then have "consistNext (lslots t b) = None \<or> consistNext (lslots t b) \<in> Some ` set c" by (cases cs) auto
  moreover have "consistLead (lslots t b) = None \<or> consistLead (lslots t b) = Some (hd c)"
    using ok(1) c(2) by (cases c) (auto simp: consist_ok_def)
  ultimately show ?thesis using ok(2) l(2) assms(2) by auto
next
  case False
  with assms show ?thesis by (auto simp: crep_def)
qed

text \<open>
  Forgetting a loco. After \<^verbatim>\<open>forgetLoco\<close> the loco is no longer in the table while all others keep
  their slots, an emergency stop for it is first in the throttle queue, and no loco left in the table
  refers to the forgotten slot as a consist member.
\<close>

theorem forget_loco_gone:
  assumes "dcc_inv s" and "0 < cab" and "cab \<le> 32767" and "find_slot (word_of_int cab) (dslots s) = Some a"
  shows "dcc_inv (forgetLoco cab s) \<and> find_slot (word_of_int cab) (dslots (forgetLoco cab s)) = None \<and>
    (\<forall>k. k \<noteq> word_of_int cab \<longrightarrow> find_slot k (dslots (forgetLoco cab s)) = find_slot k (dslots s)) \<and>
    (\<forall>b \<in> set (chain (dslots (forgetLoco cab s))). consistLead (slot (forgetLoco cab s) b) \<noteq> Some a \<and>
       consistNext (slot (forgetLoco cab s) b) \<noteq> Some a) \<and>
    (\<exists>e es sc. ahigh (abs_queues (dqueues (forgetLoco cab s))) = e # es \<and> sc AND 0x7F = 1 \<and>
       e_bytes e = cab_bytes (uint (word_of_int cab :: u16)) @ speed_bytes (globalSpeedsteps s) sc)"
proof -
  have g: "get_slot cab False s = (Some a, s)" using assms(1,4) by (simp add: get_slot_search)
  note f = forgetLoco_parts [OF assms(1-3) g]
  let ?u = "if isConsistLead (slot s a) \<or> isConsistFollower (slot s a) then deleteAnyConsist cab (dslots s) else dslots s"
  have tu: "table_inv ?u" using f(1) unfolding consist_inv_def by blast
  have fa: "find_slot (word_of_int cab) ?u = Some a" using f(5) assms(4) by metis
  have la: "loco (lslots ?u a) = word_of_int cab" using find_slot_Some [OF fa] by simp
  have inv: "dcc_inv (forgetLoco cab s)" by (rule forgetLoco_inv [OF assms(1-3)])
  have keys: "abs_slots (forget a ?u) = (abs_slots ?u)(word_of_int cab := None)" using forget_abs [OF tu f(4)] la by simp
  have "distinct (chain ?u)" using chain_rep [OF tu] by (auto simp: trep_def)
  then have notin: "a \<notin> set (chain (dslots (forgetLoco cab s)))" by (simp add: f(6) forget_facts [OF tu f(4)])
  have none: "find_slot (word_of_int cab) (dslots (forgetLoco cab s)) = None"
    unfolding f(6) using keys by (simp add: abs_slots_None [symmetric])
  have other: "find_slot k (dslots (forgetLoco cab s)) = find_slot k (dslots s)" if "k \<noteq> word_of_int cab" for k
  proof -
    have "find (\<lambda>b. loco (lslots (forget a ?u) b) = k) (remove1 a (chain ?u)) = find (\<lambda>b. loco (lslots ?u b) = k) (chain ?u)"
      using that la forget_loco [OF tu f(4)] by (simp add: find_remove1)
    then have "find_slot k (forget a ?u) = find_slot k ?u" unfolding find_slot_def forget_facts(2) [OF tu f(4)] .
    then show ?thesis using f(5) [of k] unfolding f(6) by (rule trans)
  qed
  obtain C where "crep (dslots (forgetLoco cab s)) C" using inv by (auto simp: dcc_inv_def consist_inv_def)
  note ref = crep_no_ref [OF this notin]
  have l: "loco (slot s a) = word_of_int cab" using find_slot_Some [OF assms(4)] by (simp add: slot_def)
  have e: "effective_speed s (Some a) 1 AND 0x7F = 1" by (simp add: effective_speed_def Let_def locked_code)
  have high: "\<exists>e es. ahigh (abs_queues (dqueues (forgetLoco cab s))) = e # es \<and>
      e_bytes e = cab_bytes (uint (word_of_int cab :: u16)) @ speed_bytes (globalSpeedsteps s) (effective_speed s (Some a) 1)"
    unfolding f(7) using setThrottleDCC_abs [OF assms(1), of "Some a" 1] e l by (simp add: a_estop_def)
  show ?thesis using inv none other ref high e unfolding slot_def by blast
qed

theorem forget_loco_gone_witness:
  "find_slot 3 (dslots demo) = Some 0 \<and> find_slot 3 (dslots (forgetLoco 3 demo)) = None"
  using forget_loco_gone [OF demo_inv, of 3 0] two_locos_facts(2) by (simp add: demo_slots)

text \<open>
  The default momentum is stored without the range check the setting of a single loco has: a value
  that one loco is refused is accepted as the default and wraps, here to no momentum at all.
\<close>

theorem default_momentum_wraps:
  "fst (setMomentum 0 1792 1792 demo) \<and> defaultMomentumA (snd (setMomentum 0 1792 1792 demo)) = 0 \<and>
   setMomentum 3 1792 1792 demo = (False, demo)"
  by (simp add: setMomentum_def trunc_div_def MOMENTUM_FACTOR_def MOMENTUM_USE_DEFAULT_def)

end
