(* ===== verification/Layout.thy ===== *)
theory Layout
  imports DccInvariant WordFacts
begin

text \<open>
  The state that the turnouts, sensors, outputs and the EEPROM store share. These parts exist on
  the boards that have an EEPROM, the AVR boards; there a structure has no padding, bit fields
  fill their bytes from the lowest bit and an \<^verbatim>\<open>int\<close> has 16 bits. A bit field of \<open>n\<close> bits is an
  \<open>n word\<close>. The EEPROM is a function from addresses to bytes; \<^verbatim>\<open>EEPROM.put\<close> and \<^verbatim>\<open>EEPROM.get\<close>
  copy a structure to and from consecutive addresses (\<open>ee_put\<close>, \<open>ee_get\<close>). The code never
  compares an address with the size of the EEPROM, and neither does the model: an address is a natural number, and what an EEPROM too small for the objects
  would do is not modelled.

  The objects of a class are a linked list in the code; here they are the list of the objects
  in the order of their links. A pointer to a sensor is the sensor's number, which no two sensors
  share, since \<^verbatim>\<open>Sensor::create\<close> removes the sensor that has it. Calls to the pins, the network, EXRAIL and LCN are recorded as
  events, in order, and a DCC turnout calls the DCC layer of theory DccApi.
\<close>

section \<open>EEPROM\<close>

definition ee_put :: "nat \<Rightarrow> byte list \<Rightarrow> (nat \<Rightarrow> byte) \<Rightarrow> nat \<Rightarrow> byte" where
  "ee_put a bs m = (\<lambda>i. if a \<le> i \<and> i < a + length bs then bs ! (i - a) else m i)"

definition ee_get :: "nat \<Rightarrow> nat \<Rightarrow> (nat \<Rightarrow> byte) \<Rightarrow> byte list" where
  "ee_get a n m = map m [a..<a + n]"

definition le16 :: "u16 \<Rightarrow> byte list" where
  "le16 w = [lowByte w, highByte w]"

definition un16 :: "byte list \<Rightarrow> u16" where
  "un16 bs = ucast (bs ! 0) + 256 * ucast (bs ! 1)"

definition EESTORE_ID :: "byte list" where
  "EESTORE_ID = [0x44, 0x43, 0x43, 0x2B, 0x2B, 0x31, 0]"

record EEStoreData =
  store_id :: "byte list"
  nTurnouts :: u16
  nSensors :: u16
  nOutputs :: u16

definition store_bytes :: "EEStoreData \<Rightarrow> byte list" where
  "store_bytes d = store_id d @ le16 (nTurnouts d) @ le16 (nSensors d) @ le16 (nOutputs d)"

definition get_store :: "(nat \<Rightarrow> byte) \<Rightarrow> EEStoreData" where
  "get_store m = \<lparr>store_id = ee_get 0 7 m, nTurnouts = un16 (ee_get 7 2 m), nSensors = un16 (ee_get 9 2 m),
     nOutputs = un16 (ee_get 11 2 m)\<rparr>"

section \<open>Objects\<close>

definition VPIN_MAX :: u16 where "VPIN_MAX = 32767"

definition VPIN_NONE :: u16 where "VPIN_NONE = 65535"

datatype turnout_data =
    Servo (vpin: u16) (closedPosition: "12 word") (thrownPosition: "12 word") (profile: byte)
  | DCC (address: "14 word") (subAddress: "2 word")
  | Vpin (vpin: u16)
  | LCN

record turnout =
  t_id :: u16
  closed :: bool
  hidden :: bool
  kind :: turnout_data
  eepromAddress :: nat

record sensor =
  snum :: u16
  pin :: u16
  pullUp :: byte
  active :: bool
  inputState :: bool
  latchDelay :: nat
  pollingRequired :: bool

record Output =
  oStatus :: byte
  o_id :: u16
  o_pin :: u16
  num :: nat

datatype io_event =
    Write u16 bool
  | WriteAnalogue u16 u16 byte u16
  | ConfigureServo u16 u16 u16 byte bool
  | ConfigureInput u16 bool
  | BroadcastTurnout u16 bool
  | TurnoutEvent u16 bool
  | LCNSend u16 bool
  | BroadcastSensor u16 bool
  | BroadcastTurntable u16 byte bool
  | RotateEvent u16 bool

record layout =
  eeprom :: "nat \<Rightarrow> byte"
  data :: EEStoreData
  eeAddress :: nat
  turnouts :: "turnout list"
  turnoutlistHash :: u16
  sensors :: "sensor list"
  readingSensor :: "u16 option"
  lastReadCycle :: u32
  outputs :: "Output list"
  io :: "io_event list"
  dcc_state :: dcc

definition emit_io :: "io_event \<Rightarrow> layout \<Rightarrow> layout" where
  "emit_io e l = l\<lparr>io := io l @ [e]\<rparr>"

definition reset :: "layout \<Rightarrow> layout" where
  "reset l = l\<lparr>eeAddress := 13\<rparr>"

definition put_advance :: "byte list \<Rightarrow> layout \<Rightarrow> layout" where
  "put_advance bs l = l\<lparr>eeprom := ee_put (eeAddress l) bs (eeprom l), eeAddress := eeAddress l + length bs\<rparr>"

text \<open>The loop that loads \<open>n\<close> objects; its body sees how many iterations are left.\<close>

fun load_loop :: "(nat \<Rightarrow> 's \<Rightarrow> 's option) \<Rightarrow> nat \<Rightarrow> 's \<Rightarrow> 's option" where
  "load_loop f 0 s = Some s"
| "load_loop f (Suc n) s = (case f n s of None \<Rightarrow> None | Some s \<Rightarrow> load_loop f n s)"

section \<open>Bytes in the EEPROM\<close>

lemma length_ee_get [simp]: "length (ee_get a n m) = n"
  by (simp add: ee_get_def)

lemma length_le16 [simp]: "length (le16 w) = 2"
  by (simp add: le16_def)

lemma un16_le16 [simp]: "un16 (le16 w) = w"
  using word_halves [of w] by (simp add: un16_def le16_def add.commute)

lemma ee_get_append: "ee_get a (n + k) m = ee_get a n m @ ee_get (a + n) k m"
  using upt_add_eq_append [of a "a + n" k] by (simp add: ee_get_def add.assoc)

lemma ee_get_nth: "i < n \<Longrightarrow> ee_get a n m ! i = m (a + i)"
  by (simp add: ee_get_def)

text \<open>\<open>holds m a bs\<close>: the bytes \<open>bs\<close> stand at address \<open>a\<close>.\<close>

definition holds :: "(nat \<Rightarrow> byte) \<Rightarrow> nat \<Rightarrow> byte list \<Rightarrow> bool" where
  "holds m a bs \<longleftrightarrow> ee_get a (length bs) m = bs"

lemma holds_get: "holds m a bs \<Longrightarrow> n = length bs \<Longrightarrow> ee_get a n m = bs"
  by (simp add: holds_def)

lemma holds_append: "holds m a (xs @ ys) \<longleftrightarrow> holds m a xs \<and> holds m (a + length xs) ys"
  by (simp add: holds_def ee_get_append)

lemma holds_Nil [simp]: "holds m a []"
  by (simp add: holds_def ee_get_def)

lemma holds_put [simp]: "holds (ee_put a bs m) a bs"
  unfolding holds_def by (rule nth_equalityI) (simp_all add: ee_get_nth ee_put_def)

lemma ee_get_put_other: "a + n \<le> b \<or> b + length bs \<le> a \<Longrightarrow> ee_get a n (ee_put b bs m) = ee_get a n m"
  by (auto simp: ee_get_def ee_put_def)

lemma holds_put_other: "a + length xs \<le> b \<or> b + length bs \<le> a \<Longrightarrow> holds (ee_put b bs m) a xs \<longleftrightarrow> holds m a xs"
  by (simp add: holds_def ee_get_put_other)

lemma holds_Cons: "holds m a (x # xs) \<longleftrightarrow> m a = x \<and> holds m (Suc a) xs"
  using holds_append [of m a "[x]" xs] by (simp add: holds_def ee_get_def)

lemma holds_upd: "holds (m(a := x)) b xs \<longleftrightarrow> holds m b xs" if "a < b \<or> b + length xs \<le> a"
  using that by (auto simp: holds_def ee_get_def)

section \<open>Saving and loading a class\<close>

lemma put_advance_simps [simp]:
  "eeAddress (put_advance bs l) = eeAddress l + length bs"
  "eeprom (put_advance bs l) = ee_put (eeAddress l) bs (eeprom l)"
  "data (put_advance bs l) = data l" "turnouts (put_advance bs l) = turnouts l"
  "sensors (put_advance bs l) = sensors l" "outputs (put_advance bs l) = outputs l"
  by (simp_all add: put_advance_def)

lemma ee_put_put: "ee_put (a + length xs) ys (ee_put a xs m) = ee_put a (xs @ ys) m"
  by (auto simp: ee_put_def fun_eq_iff nth_append)

lemma put_advance_append: "put_advance ys (put_advance xs l) = put_advance (xs @ ys) l"
  by (simp add: put_advance_def ee_put_put)

lemma ee_put_Nil [simp]: "ee_put a [] m = m"
  by (rule ext) (auto simp: ee_put_def)

lemma put_advance_Nil [simp]: "put_advance [] l = l"
  by (simp add: put_advance_def)

text \<open>The objects that come back from records one after the other from address \<open>a\<close> on.\<close>

fun restored_from :: "('a \<Rightarrow> byte list) \<Rightarrow> (nat \<Rightarrow> 'a \<Rightarrow> 'b) \<Rightarrow> nat \<Rightarrow> 'a list \<Rightarrow> 'b list" where
  "restored_from bytes restored a [] = []"
| "restored_from bytes restored a (x # xs) = restored a x # restored_from bytes restored (a + length (bytes x)) xs"

text \<open>
  The interface between the store and the classes whose objects it keeps. \<open>bytes\<close> is the record
  of an object in the EEPROM and \<open>load1\<close> loads one; \<open>view\<close> is the list of the loaded objects,
  \<open>restored a x\<close> the object that comes back from the record of \<open>x\<close> at address \<open>a\<close> and \<open>add\<close> the way
  it joins the list. \<open>same\<close> relates states that agree on everything the other classes own.
\<close>

locale stored_class =
  fixes bytes :: "'a \<Rightarrow> byte list"
    and load1 :: "nat \<Rightarrow> layout \<Rightarrow> layout option"
    and view :: "layout \<Rightarrow> 'b list"
    and restored :: "nat \<Rightarrow> 'a \<Rightarrow> 'b"
    and add :: "'b \<Rightarrow> 'b list \<Rightarrow> 'b list"
    and key :: "'a \<Rightarrow> u16" and key' :: "'b \<Rightarrow> u16"
    and good :: "'a \<Rightarrow> bool"
    and same :: "layout \<Rightarrow> layout \<Rightarrow> bool"
  assumes load_one: "holds (eeprom l) (eeAddress l) (bytes x) \<Longrightarrow> good x \<Longrightarrow> key x \<notin> key' ` set (view l) \<Longrightarrow>
      \<exists>l'. load1 n l = Some l' \<and> eeAddress l' = eeAddress l + length (bytes x) \<and>
        view l' = add (restored (eeAddress l) x) (view l) \<and> same l l'"
    and same_refl: "same l l"
    and same_trans: "same l l' \<Longrightarrow> same l' l'' \<Longrightarrow> same l l''"
    and same_eeprom: "same l l' \<Longrightarrow> eeprom l' = eeprom l"
    and key_restored: "key' (restored a x) = key x"
    and set_add: "set (add y ys) = insert y (set ys)"
begin

lemma load_all:
  assumes "holds (eeprom l) (eeAddress l) (concat (map bytes xs))" "list_all good xs" "distinct (map key xs)"
    and "key ` set xs \<inter> key' ` set (view l) = {}"
  shows "\<exists>l'. load_loop load1 (length xs) l = Some l' \<and> same l l' \<and>
    eeAddress l' = eeAddress l + length (concat (map bytes xs)) \<and>
    view l' = fold add (restored_from bytes restored (eeAddress l) xs) (view l)"
  using assms
proof (induction xs arbitrary: l)
  case Nil
  then show ?case by (simp add: same_refl)
next
  case (Cons x xs)
  from Cons.prems have "holds (eeprom l) (eeAddress l) (bytes x)" "good x" "key x \<notin> key' ` set (view l)"
    by (auto simp: holds_append)
  from load_one [OF this, of "length xs"]
  obtain l1 where l1: "load1 (length xs) l = Some l1" "eeAddress l1 = eeAddress l + length (bytes x)"
      "view l1 = add (restored (eeAddress l) x) (view l)" "same l l1"
    by blast
  have "key ` set xs \<inter> key' ` set (view l1) = {}"
    using Cons.prems(3,4) by (auto simp: l1(3) set_add key_restored)
  moreover have "holds (eeprom l1) (eeAddress l1) (concat (map bytes xs))"
    using Cons.prems(1) by (simp add: holds_append l1(2) same_eeprom [OF l1(4)])
  ultimately obtain l2 where "load_loop load1 (length xs) l1 = Some l2" "same l1 l2"
      "eeAddress l2 = eeAddress l1 + length (concat (map bytes xs))"
      "view l2 = fold add (restored_from bytes restored (eeAddress l1) xs) (view l1)"
    using Cons.IH [of l1] Cons.prems(2,3) by auto
  then show ?case using l1 same_trans [OF l1(4)] by (auto simp: add.assoc)
qed

end

end
