(* ===== verification/Turnouts.thy ===== *)
theory Turnouts
  imports Layout
begin

text \<open>
  Turnouts, \<^verbatim>\<open>src/Turnouts.cpp\<close> and \<^verbatim>\<open>src/Turnouts.h\<close>: the list of turnouts, the four kinds of
  them, and their records in the EEPROM. The virtual functions of the classes are functions by
  cases on the kind. \<^verbatim>\<open>new\<close> is taken to succeed, as the code takes it to; the unused bit of the flags
  is written as 0. Printing to a stream is left out.
\<close>

section \<open>Model\<close>

definition TURNOUT_DCC :: "5 word" where "TURNOUT_DCC = 1"

definition TURNOUT_SERVO :: "5 word" where "TURNOUT_SERVO = 2"

definition TURNOUT_VPIN :: "5 word" where "TURNOUT_VPIN = 3"

definition TURNOUT_LCN :: "5 word" where "TURNOUT_LCN = 4"

lemmas turnout_types = TURNOUT_DCC_def TURNOUT_SERVO_def TURNOUT_VPIN_def TURNOUT_LCN_def

fun turnoutType :: "turnout_data \<Rightarrow> 5 word" where
  "turnoutType (Servo _ _ _ _) = TURNOUT_SERVO"
| "turnoutType (DCC _ _) = TURNOUT_DCC"
| "turnoutType (Vpin _) = TURNOUT_VPIN"
| "turnoutType LCN = TURNOUT_LCN"

definition flags :: "turnout \<Rightarrow> byte" where
  "flags t = (if closed t then 1 else 0) + (if hidden t then 2 else 0) + 8 * ucast (turnoutType (kind t))"

definition turnout_bytes :: "turnout \<Rightarrow> byte list" where
  "turnout_bytes t = flags t # le16 (t_id t)"

definition position_bytes :: "12 word \<Rightarrow> 12 word \<Rightarrow> byte list" where
  "position_bytes c t =
    (let v = uint c + 4096 * uint t in [word_of_int v, word_of_int (v div 256), word_of_int (v div 65536)])"

definition dcc_word :: "14 word \<Rightarrow> 2 word \<Rightarrow> u16" where
  "dcc_word a sub = word_of_int (uint a + 16384 * uint sub)"

fun kind_bytes :: "turnout_data \<Rightarrow> byte list" where
  "kind_bytes (Servo v c t p) = le16 v @ position_bytes c t @ [p]"
| "kind_bytes (DCC a sub) = le16 (dcc_word a sub)"
| "kind_bytes (Vpin v) = le16 v"
| "kind_bytes LCN = []"

text \<open>The list of turnouts.\<close>

definition get :: "u16 \<Rightarrow> layout \<Rightarrow> turnout option" where
  "get i l = find (\<lambda>t. t_id t = i) (turnouts l)"

definition add :: "turnout \<Rightarrow> layout \<Rightarrow> layout" where
  "add t l = l\<lparr>turnouts := turnouts l @ [t], turnoutlistHash := turnoutlistHash l + 1\<rparr>"

definition remove :: "u16 \<Rightarrow> layout \<Rightarrow> bool \<times> layout" where
  "remove i l =
    (if get i l = None then (False, l)
     else (True, l\<lparr>turnouts := remove_first (\<lambda>t. t_id t = i) (turnouts l), turnoutlistHash := turnoutlistHash l + 1\<rparr>))"

definition update :: "u16 \<Rightarrow> (turnout \<Rightarrow> turnout) \<Rightarrow> layout \<Rightarrow> layout" where
  "update i f l = l\<lparr>turnouts := replace_first (\<lambda>t. t_id t = i) f (turnouts l)\<rparr>"

definition new_turnout :: "u16 \<Rightarrow> turnout_data \<Rightarrow> bool \<Rightarrow> layout \<Rightarrow> layout" where
  "new_turnout i k c l = add \<lparr>t_id = i, closed = c, hidden = False, kind = k, eepromAddress = 0\<rparr> l"

definition isClosed :: "u16 \<Rightarrow> layout \<Rightarrow> bool" where
  "isClosed i l = (case get i l of Some t \<Rightarrow> closed t | None \<Rightarrow> False)"

definition setHidden :: "u16 \<Rightarrow> bool \<Rightarrow> layout \<Rightarrow> layout" where
  "setHidden i h = update i (\<lambda>t. t\<lparr>hidden := h\<rparr>)"

text \<open>Moving a turnout; \<open>rcn213\<close> is the compile-time option \<^verbatim>\<open>DCC_TURNOUTS_RCN_213\<close>.\<close>

definition setClosedInternal :: "bool \<Rightarrow> bool \<Rightarrow> turnout \<Rightarrow> layout \<Rightarrow> layout" where
  "setClosedInternal rcn213 close t l =
    (case kind t of
       Servo v c h p \<Rightarrow> emit_io (WriteAnalogue v (ucast (if close then c else h)) p 0) l
     | DCC a sub \<Rightarrow>
         l\<lparr>dcc_state := setAccessory (uint a) (ucast sub) (if rcn213 then close else \<not> close) 2 (dcc_state l)\<rparr>
     | Vpin v \<Rightarrow> emit_io (Write v close) l
     | LCN \<Rightarrow> emit_io (LCNSend (t_id t) (\<not> close)) l)"

definition setClosedStateOnly :: "u16 \<Rightarrow> bool \<Rightarrow> layout \<Rightarrow> bool \<times> layout" where
  "setClosedStateOnly i c l =
    (case get i l of
       None \<Rightarrow> (False, l)
     | Some t \<Rightarrow>
         (let l = (if closed t \<noteq> c then emit_io (BroadcastTurnout i c) (update i (\<lambda>t. t\<lparr>closed := c\<rparr>) l) else l)
          in (True, emit_io (TurnoutEvent i c) l)))"

definition setClosed :: "bool \<Rightarrow> u16 \<Rightarrow> bool \<Rightarrow> layout \<Rightarrow> bool \<times> layout" where
  "setClosed rcn213 i c l =
    (case get i l of
       None \<Rightarrow> (False, l)
     | Some t \<Rightarrow>
         (let l = snd (setClosedStateOnly i c (setClosedInternal rcn213 c t l))
          in case get i l of
               None \<Rightarrow> (True, l)
             | Some t \<Rightarrow>
                 (True, if nTurnouts (data l) > 0 \<and> eepromAddress t > 0
                        then l\<lparr>eeprom := ee_put (eepromAddress t) [flags t] (eeprom l)\<rparr> else l)))"

text \<open>Creating turnouts: an existing one of the same kind is changed, another is replaced.\<close>

definition make :: "u16 \<Rightarrow> turnout_data \<Rightarrow> bool \<Rightarrow> layout \<Rightarrow> layout" where
  "make i k c l =
    (case get i l of
       None \<Rightarrow> new_turnout i k c l
     | Some t \<Rightarrow>
         if turnoutType (kind t) = turnoutType k then update i (\<lambda>t. t\<lparr>kind := k\<rparr>) l
         else new_turnout i k c (snd (remove i l)))"

definition servo_exists :: "u16 \<Rightarrow> layout \<Rightarrow> bool" where
  "servo_exists i l = (case get i l of None \<Rightarrow> False | Some t \<Rightarrow> turnoutType (kind t) = TURNOUT_SERVO)"

definition create_servo :: "u16 \<Rightarrow> u16 \<Rightarrow> u16 \<Rightarrow> u16 \<Rightarrow> byte \<Rightarrow> bool \<Rightarrow> layout \<Rightarrow> layout" where
  "create_servo i v thrown cl p c l =
    (let exists = servo_exists i l;
         l = make i (Servo v (ucast cl) (ucast thrown) p) c l;
         l = (if exists then emit_io (ConfigureServo v thrown cl p c) l else l)
     in emit_io (WriteAnalogue v (if c then cl else thrown) 0 0) l)"

definition create_dcc :: "u16 \<Rightarrow> u16 \<Rightarrow> byte \<Rightarrow> layout \<Rightarrow> layout" where
  "create_dcc i a sub l = make i (DCC (ucast a) (ucast sub)) False l"

definition create_vpin :: "u16 \<Rightarrow> u16 \<Rightarrow> bool \<Rightarrow> layout \<Rightarrow> layout" where
  "create_vpin i v c l = make i (Vpin v) c l"

definition create_lcn :: "u16 \<Rightarrow> bool \<Rightarrow> layout \<Rightarrow> layout" where
  "create_lcn i c l = make i LCN c l"

text \<open>The EEPROM.\<close>

definition save :: "turnout \<Rightarrow> layout \<Rightarrow> layout" where
  "save t l = (if kind t = LCN then l else put_advance (kind_bytes (kind t)) (put_advance (turnout_bytes t) l))"

definition store :: "layout \<Rightarrow> layout" where
  "store l =
    fold (\<lambda>t l. (save t l)\<lparr>data := (data l)\<lparr>nTurnouts := nTurnouts (data l) + 1\<rparr>\<rparr>) (turnouts l)
      (l\<lparr>data := (data l)\<lparr>nTurnouts := 0\<rparr>\<rparr>)"

definition load_servo :: "u16 \<Rightarrow> bool \<Rightarrow> layout \<Rightarrow> layout" where
  "load_servo i c l =
    (let bs = ee_get (eeAddress l) 6 (eeprom l);
         v = uint (bs ! 2) + 256 * uint (bs ! 3) + 65536 * uint (bs ! 4);
         l = l\<lparr>eeAddress := eeAddress l + 6\<rparr>
     in create_servo i (un16 (take 2 bs)) (word_of_int (v div 4096)) (word_of_int (v mod 4096)) (bs ! 5) c l)"

definition load_dcc :: "u16 \<Rightarrow> layout \<Rightarrow> layout" where
  "load_dcc i l =
    (let v = un16 (ee_get (eeAddress l) 2 (eeprom l))
     in new_turnout i (DCC (ucast v) (ucast (drop_bit 14 v))) False (l\<lparr>eeAddress := eeAddress l + 2\<rparr>))"

definition load_vpin :: "u16 \<Rightarrow> bool \<Rightarrow> layout \<Rightarrow> layout" where
  "load_vpin i c l =
    (let v = un16 (ee_get (eeAddress l) 2 (eeprom l))
     in new_turnout i (Vpin v) c (l\<lparr>eeAddress := eeAddress l + 2\<rparr>))"

text \<open>
  The turnout that was just loaded gets its address in the EEPROM. It is the last one of the
  list, except for a servo turnout that changed an existing one, the first with its id.
\<close>

definition loadTurnout :: "layout \<Rightarrow> layout" where
  "loadTurnout l =
    (let a = eeAddress l;
         bs = ee_get a 3 (eeprom l); fl = bs ! 0; i = un16 (drop 1 bs);
         ty = (ucast (drop_bit 3 fl) :: 5 word); c = bit fl 0;
         set_last = (\<lambda>l. l\<lparr>turnouts := butlast (turnouts l) @ [(last (turnouts l))\<lparr>eepromAddress := a\<rparr>]\<rparr>);
         l = l\<lparr>eeAddress := a + 3\<rparr>
     in if ty = TURNOUT_SERVO
        then (if servo_exists i l then update i (\<lambda>t. t\<lparr>eepromAddress := a\<rparr>) else set_last) (load_servo i c l)
        else if ty = TURNOUT_DCC then set_last (load_dcc i l)
        else if ty = TURNOUT_VPIN then set_last (load_vpin i c l)
        else l)"

definition load :: "layout \<Rightarrow> layout" where
  "load l = (loadTurnout ^^ unat (nTurnouts (data l))) l"

section \<open>Reading back what was written\<close>

lemma flags_type: "(ucast (drop_bit 3 (flags t)) :: 5 word) = turnoutType (kind t)"
  by (cases "closed t"; cases "hidden t"; cases "kind t") (simp_all add: flags_def turnout_types)

lemma flags_closed: "bit (flags t) 0 = closed t"
  by (cases "closed t"; cases "hidden t"; cases "kind t") (simp_all add: flags_def turnout_types)

lemma uint_12: "uint (w :: 12 word) < 4096" and uint_14: "uint (v :: 14 word) < 16384" and uint_2: "uint (u :: 2 word) < 4"
  using uint_bounded [of w] uint_bounded [of v] uint_bounded [of u] by simp_all

lemma length_records [simp]: "length (position_bytes c t) = 3" "length (turnout_bytes x) = 3"
  by (simp_all add: position_bytes_def turnout_bytes_def Let_def)

lemma three_bytes:
  "0 \<le> v \<Longrightarrow> v < 16777216 \<Longrightarrow>
   uint (word_of_int v :: byte) + 256 * uint (word_of_int (v div 256) :: byte) + 65536 * uint (word_of_int (v div 65536) :: byte) = v"
proof -
  assume v: "0 \<le> v" "v < 16777216"
  have "v div 65536 mod 256 = v div 65536" using v by (intro mod_pos_pos_trivial) (simp_all add: pos_imp_zdiv_nonneg_iff)
  moreover have "v div 65536 = v div 256 div 256" by (simp flip: zdiv_zmult2_eq)
  moreover have "uint (word_of_int x :: byte) = x mod 256" for x by (simp add: uint_word_of_int take_bit_eq_mod)
  moreover have "x + 256 * y + 65536 * z = x + 256 * (y + 256 * z)" for x y z :: int by simp
  moreover have "v mod 256 + 256 * (v div 256 mod 256 + 256 * (v div 256 div 256)) = v" by simp
  ultimately show ?thesis by metis
qed

lemma position_decode:
  fixes c t :: "12 word"
  defines "bs \<equiv> position_bytes c t"
  defines "v \<equiv> uint (bs ! 0) + 256 * uint (bs ! 1) + 65536 * uint (bs ! 2)"
  shows "v div 4096 = uint t" "v mod 4096 = uint c"
proof -
  have "v = uint c + 4096 * uint t"
    unfolding v_def bs_def position_bytes_def Let_def
    using three_bytes [of "uint c + 4096 * uint t"] uint_12 [of c] uint_12 [of t] by (simp del: of_int_add)
  then show "v div 4096 = uint t" "v mod 4096 = uint c" using uint_12 [of c] by simp_all
qed

lemma dcc_word_decode: "(ucast (dcc_word a sub) :: 14 word) = a" "(ucast (drop_bit 14 (dcc_word a sub)) :: 2 word) = sub"
proof -
  have u: "uint (dcc_word a sub) = uint a + 16384 * uint sub"
    unfolding dcc_word_def by (rule uint_u16) (use uint_14 [of a] uint_2 [of sub] in simp_all)
  show "(ucast (dcc_word a sub) :: 14 word) = a"
    using uint_14 [of a] by (simp add: word_uint_eq_iff unsigned_ucast_eq u take_bit_eq_mod)
  show "(ucast (drop_bit 14 (dcc_word a sub)) :: 2 word) = sub"
    using uint_14 [of a] uint_2 [of sub] by (simp add: word_uint_eq_iff unsigned_ucast_eq unsigned_drop_bit_eq u take_bit_eq_mod drop_bit_eq_div uint_div)
qed

text \<open>What of a turnout comes back from its record: a DCC turnout comes back thrown, and none hidden.\<close>

definition restored_turnout :: "nat \<Rightarrow> turnout \<Rightarrow> turnout" where
  "restored_turnout a t =
    t\<lparr>closed := (turnoutType (kind t) \<noteq> TURNOUT_DCC \<and> closed t), hidden := False, eepromAddress := a\<rparr>"

definition turnout_record :: "turnout \<Rightarrow> byte list" where
  "turnout_record t = turnout_bytes t @ kind_bytes (kind t)"

definition other_parts :: "layout \<Rightarrow> layout \<Rightarrow> bool" where
  "other_parts l l' \<longleftrightarrow> eeprom l' = eeprom l \<and> data l' = data l \<and> sensors l' = sensors l \<and> outputs l' = outputs l"

lemma other_parts_fields [simp]:
  "other_parts l (l\<lparr>turnouts := x\<rparr>)" "other_parts l (l\<lparr>turnoutlistHash := y\<rparr>)" "other_parts l (l\<lparr>eeAddress := z\<rparr>)"
  "other_parts l (emit_io e l)"
  by (simp_all add: other_parts_def emit_io_def)

lemma turnout_get_None: "get i l = None \<longleftrightarrow> i \<notin> t_id ` set (turnouts l)"
  by (auto simp: get_def find_None_iff)

lemma new_turnout_simps [simp]:
  "turnouts (new_turnout i k c l) = turnouts l @ [\<lparr>t_id = i, closed = c, hidden = False, kind = k, eepromAddress = 0\<rparr>]"
  "eeAddress (new_turnout i k c l) = eeAddress l" "other_parts l' (new_turnout i k c l) = other_parts l' l"
  by (simp_all add: new_turnout_def add_def other_parts_def)

lemma emit_io_simps [simp]:
  "turnouts (emit_io e l) = turnouts l" "eeAddress (emit_io e l) = eeAddress l" "eeprom (emit_io e l) = eeprom l"
  "data (emit_io e l) = data l" "sensors (emit_io e l) = sensors l" "outputs (emit_io e l) = outputs l"
  "dcc_state (emit_io e l) = dcc_state l" "other_parts l' (emit_io e l) = other_parts l' l"
  by (simp_all add: emit_io_def other_parts_def)

text \<open>Loading the specific part of a record makes the turnout the record describes.\<close>

lemma load_kind:
  assumes "holds (eeprom l) (eeAddress l) (kind_bytes k)" "get i l = None"
  shows "k = Servo v cp tp p \<Longrightarrow> turnouts (load_servo i c l) = turnouts (new_turnout i k c l) \<and>
      eeAddress (load_servo i c l) = eeAddress l + 6 \<and> other_parts l (load_servo i c l)"
    and "k = DCC a sub \<Longrightarrow> load_dcc i l = new_turnout i k False (l\<lparr>eeAddress := eeAddress l + 2\<rparr>)"
    and "k = Vpin v \<Longrightarrow> load_vpin i c l = new_turnout i k c (l\<lparr>eeAddress := eeAddress l + 2\<rparr>)"
proof -
  assume k: "k = Servo v cp tp p"
  have bs: "ee_get (eeAddress l) 6 (eeprom l) = le16 v @ position_bytes cp tp @ [p]"
    using assms(1) unfolding k by (intro holds_get) simp_all
  have nth: "(le16 v @ position_bytes cp tp @ [p]) ! 2 = position_bytes cp tp ! 0" "(le16 v @ position_bytes cp tp @ [p]) ! 3 = position_bytes cp tp ! 1"
      "(le16 v @ position_bytes cp tp @ [p]) ! 4 = position_bytes cp tp ! 2" "(le16 v @ position_bytes cp tp @ [p]) ! 5 = p"
    by (simp_all add: le16_def position_bytes_def Let_def)
  have "get i (l\<lparr>eeAddress := x\<rparr>) = None" for x using assms(2) by (simp add: get_def)
  moreover have "(ucast (word_of_int (uint w) :: u16) :: 12 word) = w" for w :: "12 word"
    by (rule bit_word_eqI) (simp add: bit_simps)
  ultimately show "turnouts (load_servo i c l) = turnouts (new_turnout i k c l) \<and>
      eeAddress (load_servo i c l) = eeAddress l + 6 \<and> other_parts l (load_servo i c l)"
    unfolding load_servo_def create_servo_def bs Let_def nth position_decode
    by (simp add: make_def servo_exists_def k)
next
  assume k: "k = DCC a sub"
  have "ee_get (eeAddress l) 2 (eeprom l) = le16 (dcc_word a sub)"
    using assms(1) unfolding k by (intro holds_get) simp_all
  then show "load_dcc i l = new_turnout i k False (l\<lparr>eeAddress := eeAddress l + 2\<rparr>)"
    by (simp add: load_dcc_def k dcc_word_decode)
next
  assume k: "k = Vpin v"
  have "ee_get (eeAddress l) 2 (eeprom l) = le16 v"
    using assms(1) unfolding k by (intro holds_get) simp_all
  then show "load_vpin i c l = new_turnout i k c (l\<lparr>eeAddress := eeAddress l + 2\<rparr>)"
    by (simp add: load_vpin_def k)
qed

lemma load_turnout_record:
  assumes "holds (eeprom l) (eeAddress l) (turnout_record t)" "kind t \<noteq> LCN" "t_id t \<notin> t_id ` set (turnouts l)"
  shows "eeAddress (loadTurnout l) = eeAddress l + length (turnout_record t) \<and>
    turnouts (loadTurnout l) = turnouts l @ [restored_turnout (eeAddress l) t] \<and> other_parts l (loadTurnout l)"
proof -
  let ?l = "l\<lparr>eeAddress := eeAddress l + 3\<rparr>"
  have h: "holds (eeprom l) (eeAddress l) (turnout_bytes t)" "holds (eeprom ?l) (eeAddress ?l) (kind_bytes (kind t))"
    using assms(1) by (simp_all add: turnout_record_def holds_append)
  have bs: "ee_get (eeAddress l) 3 (eeprom l) = flags t # le16 (t_id t)"
    using h(1) unfolding turnout_bytes_def by (intro holds_get) simp_all
  have g: "get (t_id t) ?l = None" using assms(3) turnout_get_None [of "t_id t" ?l] by simp
  then have e: "\<not> servo_exists (t_id t) ?l" by (simp add: servo_exists_def)
  have ty: "TURNOUT_DCC \<noteq> TURNOUT_SERVO" "TURNOUT_VPIN \<noteq> TURNOUT_SERVO" "TURNOUT_VPIN \<noteq> TURNOUT_DCC" "TURNOUT_SERVO \<noteq> TURNOUT_DCC"
    by (simp_all add: turnout_types)
  note k = load_kind [OF h(2) g]
  have op: "other_parts l ?l" "other_parts ?l l' \<Longrightarrow> other_parts l l'" "other_parts l (l'\<lparr>turnouts := ts\<rparr>) = other_parts l l'" for l' ts
    by (simp_all add: other_parts_def)
  show ?thesis
  proof (cases "kind t")
    case (Servo v c tp p)
    from k(1) [OF this] have r: "turnouts (load_servo (t_id t) (closed t) ?l) = turnouts (new_turnout (t_id t) (kind t) (closed t) ?l)"
        "eeAddress (load_servo (t_id t) (closed t) ?l) = eeAddress ?l + 6" "other_parts l (load_servo (t_id t) (closed t) ?l)"
      using op(2) by blast+
    show ?thesis using r e ty Servo
      unfolding loadTurnout_def Let_def bs
      by (simp add: flags_type flags_closed [simplified] restored_turnout_def turnout_record_def turnout_bytes_def position_bytes_def Let_def op(3))
  next
    case (DCC a sub)
    with k(2) [OF this] ty show ?thesis
      unfolding loadTurnout_def Let_def bs
      by (simp add: flags_type restored_turnout_def turnout_record_def turnout_bytes_def op)
  next
    case (Vpin v)
    with k(3) [OF this] ty show ?thesis
      unfolding loadTurnout_def Let_def bs
      by (simp add: flags_type flags_closed [simplified] restored_turnout_def turnout_record_def turnout_bytes_def op)
  qed (use assms(2) in simp)
qed

interpretation ts: stored_class turnout_record "\<lambda>n l. Some (loadTurnout l)" turnouts restored_turnout
    "\<lambda>t ts. ts @ [t]" t_id t_id "\<lambda>t. kind t \<noteq> LCN" other_parts
  by unfold_locales (use load_turnout_record in \<open>auto simp: other_parts_def restored_turnout_def\<close>)

section \<open>Saving\<close>

definition with_records :: "turnout list \<Rightarrow> turnout list" where
  "with_records ts = filter (\<lambda>t. kind t \<noteq> LCN) ts"

lemma put_advance_data: "put_advance bs (l\<lparr>data := d\<rparr>) = (put_advance bs l)\<lparr>data := d\<rparr>"
  by (simp add: put_advance_def)

lemma save_put: "save t l = put_advance (concat (map turnout_record (with_records [t]))) l"
  by (simp add: save_def with_records_def turnout_record_def put_advance_append)

lemma turnouts_store_fold:
  "fold (\<lambda>t l. (save t l)\<lparr>data := (data l)\<lparr>nTurnouts := nTurnouts (data l) + 1\<rparr>\<rparr>) ts l =
   (put_advance (concat (map turnout_record (with_records ts))) l)\<lparr>data := (data l)\<lparr>nTurnouts := nTurnouts (data l) + of_nat (length ts)\<rparr>\<rparr>"
proof (induction ts arbitrary: l)
  case (Cons t ts)
  have "with_records (t # ts) = with_records [t] @ with_records ts" by (simp add: with_records_def)
  then show ?case
    by (simp only: fold_simps Cons.IH) (simp add: save_put put_advance_data put_advance_append add.assoc)
qed (simp add: with_records_def)

lemma turnouts_store_put:
  "store l = (put_advance (concat (map turnout_record (with_records (turnouts l)))) l)
     \<lparr>data := (data l)\<lparr>nTurnouts := of_nat (length (turnouts l))\<rparr>\<rparr>"
  by (simp add: store_def turnouts_store_fold put_advance_data)

section \<open>Moving a turnout\<close>

lemma replace_first_map_other: "(\<And>x. P x \<Longrightarrow> g (f x) = g x) \<Longrightarrow> map g (replace_first P f xs) = map g xs"
  by (induction xs) auto

lemma find_replace_first:
  "(\<And>x. P x \<Longrightarrow> P (f x)) \<Longrightarrow> find P (replace_first P f xs) = map_option f (find P xs)"
  by (induction xs) auto

lemma find_replace_first_other:
  "(\<And>x. P x \<Longrightarrow> \<not> Q x \<and> \<not> Q (f x)) \<Longrightarrow> find Q (replace_first P f xs) = find Q xs"
  by (induction xs) auto

lemma replace_first_same: "find P xs = Some x \<Longrightarrow> f x = x \<Longrightarrow> replace_first P f xs = xs"
  by (induction xs) (auto split: if_splits)

lemma get_update: "(\<And>t. t_id (f t) = t_id t) \<Longrightarrow> get j (update i f l) = (if j = i then map_option f (get i l) else get j l)"
  by (simp add: get_def update_def find_replace_first find_replace_first_other)

lemma setClosedInternal_parts [simp]:
  "turnouts (setClosedInternal r c t l) = turnouts l" "eeprom (setClosedInternal r c t l) = eeprom l"
  "data (setClosedInternal r c t l) = data l" "get i (setClosedInternal r c t l) = get i l"
  "sensors (setClosedInternal r c t l) = sensors l" "outputs (setClosedInternal r c t l) = outputs l"
  by (simp_all add: get_def setClosedInternal_def split: turnout_data.split)

lemma get_emit [simp]: "get i (emit_io e l) = get i l"
  by (simp add: get_def)

text \<open>The effect of a move on the list and the EEPROM.\<close>

lemma setClosed_effect:
  assumes "get i l = Some t"
  shows "fst (setClosed r i c l)"
    and "turnouts (snd (setClosed r i c l)) = replace_first (\<lambda>t. t_id t = i) (\<lambda>t. t\<lparr>closed := c\<rparr>) (turnouts l)"
    and "eeprom (snd (setClosed r i c l)) =
      (if nTurnouts (data l) > 0 \<and> eepromAddress t > 0 then ee_put (eepromAddress t) [flags (t\<lparr>closed := c\<rparr>)] (eeprom l) else eeprom l)"
    and "data (snd (setClosed r i c l)) = data l"
proof -
  have same: "replace_first (\<lambda>t. t_id t = i) (\<lambda>t. t\<lparr>closed := c\<rparr>) (turnouts l) = turnouts l" if "closed t = c"
    using assms that unfolding get_def by (intro replace_first_same) auto
  let ?l = "setClosedInternal r c t l"
  let ?m = "snd (setClosedStateOnly i c ?l)"
  have m: "turnouts ?m = replace_first (\<lambda>t. t_id t = i) (\<lambda>t. t\<lparr>closed := c\<rparr>) (turnouts l)" "eeprom ?m = eeprom l" "data ?m = data l"
    using assms same by (auto simp: setClosedStateOnly_def update_def Let_def)
  have g: "get i ?m = Some (t\<lparr>closed := c\<rparr>)"
    using assms find_replace_first [of "\<lambda>t. t_id t = i" "\<lambda>t. t\<lparr>closed := c\<rparr>" "turnouts l"] unfolding get_def m(1) by simp
  show "fst (setClosed r i c l)"
    "turnouts (snd (setClosed r i c l)) = replace_first (\<lambda>t. t_id t = i) (\<lambda>t. t\<lparr>closed := c\<rparr>) (turnouts l)"
    "eeprom (snd (setClosed r i c l)) =
      (if nTurnouts (data l) > 0 \<and> eepromAddress t > 0 then ee_put (eepromAddress t) [flags (t\<lparr>closed := c\<rparr>)] (eeprom l) else eeprom l)"
    "data (snd (setClosed r i c l)) = data l"
    using g m assms by (simp_all add: setClosed_def Let_def)
qed

end
