(* ===== verification/Sensors.thy ===== *)
theory Sensors
  imports Turnouts
begin

text \<open>
  Sensors, \<^verbatim>\<open>src/Sensors.cpp\<close> and \<^verbatim>\<open>src/Sensors.h\<close>: the list of sensors, the scan that polls
  their pins and reports changes, and their records in the EEPROM. The reading of the pins
  (\<^verbatim>\<open>IODevice::read\<close>), the question whether a pin reports its changes (\<^verbatim>\<open>IODevice::hasCallback\<close>) and
  the outcome of \<^verbatim>\<open>calloc\<close> are arguments. The sensor groups that EXRAIL scripts define are generated
  code; their scan, which \<^verbatim>\<open>checkAll\<close> starts with, works on data of its own and is left out, as
  is printing.
\<close>

section \<open>Model\<close>

definition minReadCount :: nat where "minReadCount = 1"

definition cycleInterval :: u32 where "cycleInterval = 10000"

definition get :: "u16 \<Rightarrow> layout \<Rightarrow> sensor option" where
  "get n l = find (\<lambda>s. snum s = n) (sensors l)"

definition next_sensor :: "u16 \<Rightarrow> sensor list \<Rightarrow> u16 option" where
  "next_sensor n ss = (case dropWhile (\<lambda>s. snum s \<noteq> n) ss of _ # s # _ \<Rightarrow> Some (snum s) | _ \<Rightarrow> None)"

definition remove :: "u16 \<Rightarrow> layout \<Rightarrow> bool \<times> layout" where
  "remove n l =
    (if get n l = None then (False, l)
     else (True, l\<lparr>sensors := remove_first (\<lambda>s. snum s = n) (sensors l),
                   readingSensor := (if readingSensor l = Some n then next_sensor n (sensors l) else readingSensor l)\<rparr>))"

definition create :: "bool \<Rightarrow> (u16 \<Rightarrow> bool) \<Rightarrow> u16 \<Rightarrow> u16 \<Rightarrow> u16 \<Rightarrow> layout \<Rightarrow> bool \<times> layout" where
  "create calloc hasCallback n p pullup l =
    (if p > VPIN_MAX \<and> p \<noteq> VPIN_NONE then (False, l)
     else
       (let l = snd (remove n l)
        in if \<not> calloc then (False, l)
           else
             (let s = \<lparr>snum = n, pin = p, pullUp = ucast pullup, active = False, inputState = False,
                        latchDelay = minReadCount, pollingRequired = (p \<noteq> VPIN_NONE \<and> \<not> hasCallback p)\<rparr>;
                  l = l\<lparr>sensors := s # sensors l\<rparr>
              in (True, if p \<noteq> VPIN_NONE then emit_io (ConfigureInput p (pullup \<noteq> 0)) l else l))))"

definition createMultiple :: "bool \<Rightarrow> (u16 \<Rightarrow> bool) \<Rightarrow> u16 \<Rightarrow> byte \<Rightarrow> layout \<Rightarrow> layout" where
  "createMultiple calloc hasCallback firstPin count l =
    fold (\<lambda>i l. snd (create calloc hasCallback (firstPin + of_nat i) (firstPin + of_nat i) 1 l)) [0..<unat count] l"

definition setState :: "u16 \<Rightarrow> int \<Rightarrow> layout \<Rightarrow> layout" where
  "setState n value l =
    l\<lparr>sensors := replace_first (\<lambda>s. snum s = n) (\<lambda>s. s\<lparr>inputState := value \<noteq> 0, latchDelay := 0\<rparr>) (sensors l)\<rparr>"

definition inputChangeCallback :: "u16 \<Rightarrow> int \<Rightarrow> layout \<Rightarrow> layout" where
  "inputChangeCallback v state l =
    l\<lparr>sensors := replace_first (\<lambda>s. pin s = v) (\<lambda>s. s\<lparr>inputState := state \<noteq> 0\<rparr>) (sensors l)\<rparr>"

text \<open>The body of the scan for one sensor: the sensor afterwards and whether it changed.\<close>

definition check_sensor :: "(u16 \<Rightarrow> int) \<Rightarrow> sensor \<Rightarrow> sensor \<times> bool" where
  "check_sensor read s =
    (let s = (if pollingRequired s \<and> pin s \<noteq> VPIN_NONE then s\<lparr>inputState := odd (read (pin s))\<rparr> else s)
     in if inputState s = active s then (s\<lparr>latchDelay := minReadCount\<rparr>, False)
        else if latchDelay s > 0 then (s\<lparr>latchDelay := latchDelay s - 1\<rparr>, False)
        else (s\<lparr>active := inputState s, latchDelay := minReadCount\<rparr>, True))"

definition report :: "sensor \<times> bool \<Rightarrow> io_event list" where
  "report r = (if snd r then [BroadcastSensor (snum (fst r)) (active (fst r))] else [])"

text \<open>The loop over the sensors still to be read: those it has checked, the rest and its reports.\<close>

fun scan :: "(u16 \<Rightarrow> int) \<Rightarrow> nat \<Rightarrow> sensor list \<Rightarrow> sensor list \<times> sensor list \<times> io_event list" where
  "scan read sensorCount [] = ([], [], [])"
| "scan read sensorCount (s # ss) =
    (let r = check_sensor read s
     in if snd r \<or> sensorCount + 1 \<ge> 16 then ([fst r], ss, report r)
        else (case scan read (sensorCount + 1) ss of
                (checked, rest, es) \<Rightarrow> (fst r # checked, rest, report r @ es)))"

definition first_number :: "sensor list \<Rightarrow> u16 option" where
  "first_number ss = (case ss of [] \<Rightarrow> None | s # _ \<Rightarrow> Some (snum s))"

definition checkAll :: "(u16 \<Rightarrow> int) \<Rightarrow> u32 \<Rightarrow> layout \<Rightarrow> layout" where
  "checkAll read now l =
    (if sensors l = [] then l
     else
       (let l = (if readingSensor l = None \<and> now - lastReadCycle l \<ge> cycleInterval
                 then l\<lparr>readingSensor := first_number (sensors l), lastReadCycle := now\<rparr> else l)
        in case readingSensor l of
             None \<Rightarrow> l
           | Some n \<Rightarrow>
               (case scan read 0 (dropWhile (\<lambda>s. snum s \<noteq> n) (sensors l)) of
                  (checked, rest, es) \<Rightarrow>
                    l\<lparr>sensors := takeWhile (\<lambda>s. snum s \<noteq> n) (sensors l) @ checked @ rest,
                      readingSensor := first_number rest, io := io l @ es\<rparr>)))"

definition sensor_bytes :: "sensor \<Rightarrow> byte list" where
  "sensor_bytes s = le16 (snum s) @ le16 (pin s) @ [pullUp s]"

definition load_sensor :: "(nat \<Rightarrow> bool) \<Rightarrow> (u16 \<Rightarrow> bool) \<Rightarrow> nat \<Rightarrow> layout \<Rightarrow> layout" where
  "load_sensor calloc hasCallback i l =
    (let bs = ee_get (eeAddress l) 5 (eeprom l);
         l = snd (create (calloc i) hasCallback (un16 (take 2 bs)) (un16 (take 2 (drop 2 bs))) (ucast (bs ! 4)) l)
     in l\<lparr>eeAddress := eeAddress l + 5\<rparr>)"

definition load :: "(nat \<Rightarrow> bool) \<Rightarrow> (u16 \<Rightarrow> bool) \<Rightarrow> layout \<Rightarrow> layout option" where
  "load calloc hasCallback l = load_loop (\<lambda>i l. Some (load_sensor calloc hasCallback i l)) (unat (nSensors (data l))) l"

definition store :: "layout \<Rightarrow> layout" where
  "store l =
    fold (\<lambda>s l. (put_advance (sensor_bytes s) l)\<lparr>data := (data l)\<lparr>nSensors := nSensors (data l) + 1\<rparr>\<rparr>) (sensors l)
      (l\<lparr>data := (data l)\<lparr>nSensors := 0\<rparr>\<rparr>)"

section \<open>Records\<close>

definition restored_sensor :: "(u16 \<Rightarrow> bool) \<Rightarrow> sensor \<Rightarrow> sensor" where
  "restored_sensor hasCallback s =
    s\<lparr>active := False, inputState := False, latchDelay := minReadCount,
      pollingRequired := (pin s \<noteq> VPIN_NONE \<and> \<not> hasCallback (pin s))\<rparr>"

definition valid_pin :: "u16 \<Rightarrow> bool" where
  "valid_pin p \<longleftrightarrow> p \<le> VPIN_MAX \<or> p = VPIN_NONE"

definition keeps_others :: "layout \<Rightarrow> layout \<Rightarrow> bool" where
  "keeps_others l l' \<longleftrightarrow> eeprom l' = eeprom l \<and> data l' = data l \<and> turnouts l' = turnouts l \<and> outputs l' = outputs l \<and>
     readingSensor l' = readingSensor l"

lemma sensor_get_None: "get n l = None \<longleftrightarrow> n \<notin> snum ` set (sensors l)"
  by (auto simp: get_def find_None_iff)

lemma sensor_create_new:
  assumes "valid_pin p" "n \<notin> snum ` set (sensors l)"
  shows "create True hc n p u l =
    (True, (if p \<noteq> VPIN_NONE then emit_io (ConfigureInput p (u \<noteq> 0)) else (\<lambda>l. l))
       (l\<lparr>sensors := \<lparr>snum = n, pin = p, pullUp = ucast u, active = False, inputState = False, latchDelay = minReadCount,
          pollingRequired = (p \<noteq> VPIN_NONE \<and> \<not> hc p)\<rparr> # sensors l\<rparr>))"
  using assms sensor_get_None [of n l] by (auto simp: create_def remove_def valid_pin_def Let_def)

lemma load_sensor_record:
  assumes "holds (eeprom l) (eeAddress l) (sensor_bytes s)" "valid_pin (pin s)" "snum s \<notin> snum ` set (sensors l)"
  shows "eeAddress (load_sensor (\<lambda>_. True) hc i l) = eeAddress l + length (sensor_bytes s) \<and>
    sensors (load_sensor (\<lambda>_. True) hc i l) = restored_sensor hc s # sensors l \<and>
    keeps_others l (load_sensor (\<lambda>_. True) hc i l)"
proof -
  have bs: "ee_get (eeAddress l) 5 (eeprom l) = le16 (snum s) @ le16 (pin s) @ [pullUp s]"
    using assms(1) unfolding sensor_bytes_def by (intro holds_get) simp_all
  have "(le16 (snum s) @ le16 (pin s) @ [pullUp s]) ! 4 = pullUp s" by (simp add: le16_def)
  moreover have "(ucast (ucast b :: u16) :: byte) = b" for b by (rule bit_word_eqI) (simp add: bit_simps)
  ultimately show ?thesis
    using sensor_create_new [OF assms(2,3)]
    by (simp add: load_sensor_def bs Let_def restored_sensor_def keeps_others_def sensor_bytes_def emit_io_def)
qed

interpretation ss: stored_class sensor_bytes "\<lambda>i l. Some (load_sensor (\<lambda>_. True) hc i l)" sensors "\<lambda>_. restored_sensor hc"
    "\<lambda>s ss. s # ss" snum snum "\<lambda>s. valid_pin (pin s)" keeps_others for hc
  by unfold_locales (use load_sensor_record in \<open>auto simp: keeps_others_def restored_sensor_def\<close>)

lemma sensors_store_fold:
  "fold (\<lambda>s l. (put_advance (sensor_bytes s) l)\<lparr>data := (data l)\<lparr>nSensors := nSensors (data l) + 1\<rparr>\<rparr>) ss l =
   (put_advance (concat (map sensor_bytes ss)) l)\<lparr>data := (data l)\<lparr>nSensors := nSensors (data l) + of_nat (length ss)\<rparr>\<rparr>"
proof (induction ss arbitrary: l)
  case (Cons s ss)
  then show ?case
    by (simp only: fold_simps Cons.IH) (simp add: put_advance_data put_advance_append add.assoc)
qed simp

lemma sensors_store_put:
  "store l = (put_advance (concat (map sensor_bytes (sensors l))) l)\<lparr>data := (data l)\<lparr>nSensors := of_nat (length (sensors l))\<rparr>\<rparr>"
  by (simp add: store_def sensors_store_fold put_advance_data)

section \<open>A pass over the sensors\<close>

lemma scan_prefix:
  "\<exists>k. k \<le> length ss \<and> (ss \<noteq> [] \<longrightarrow> 0 < k) \<and> (c < 16 \<longrightarrow> c + k \<le> 16) \<and>
    scan read c ss = (map (fst \<circ> check_sensor read) (take k ss), drop k ss, concat (map (report \<circ> check_sensor read) (take k ss)))"
proof (induction ss arbitrary: c)
  case (Cons s ss)
  show ?case
  proof (cases "snd (check_sensor read s) \<or> c + 1 \<ge> 16")
    case True
    then show ?thesis by (intro exI [of _ 1]) (auto simp: Let_def)
  next
    case False
    from Cons obtain k where "k \<le> length ss" "c + 1 < 16 \<longrightarrow> c + 1 + k \<le> 16"
        "scan read (c + 1) ss = (map (fst \<circ> check_sensor read) (take k ss), drop k ss, concat (map (report \<circ> check_sensor read) (take k ss)))"
      by blast
    with False show ?thesis by (intro exI [of _ "Suc k"]) (auto simp: Let_def comp_def)
  qed
qed simp

lemma check_sensor_number [simp]: "snum (fst (check_sensor read s)) = snum s"
  by (simp add: check_sensor_def Let_def)

lemma checkAll_step:
  assumes "readingSensor l = first_number ys" "sensors l = xs @ ys" "ys \<noteq> []" "distinct (map snum (sensors l))"
  shows "\<exists>k. 0 < k \<and> k \<le> length ys \<and> k \<le> 16 \<and> checkAll read now l =
    l\<lparr>sensors := xs @ map (fst \<circ> check_sensor read) (take k ys) @ drop k ys, readingSensor := first_number (drop k ys),
      io := io l @ concat (map (report \<circ> check_sensor read) (take k ys))\<rparr>"
proof -
  obtain y zs where y: "ys = y # zs" using assms(3) by (cases ys) auto
  have n: "\<forall>s \<in> set xs. snum s \<noteq> snum y"
    using assms(2,4) y by (metis distinct_append disjoint_iff image_eqI list.set_intros(1) list.set_map map_append)
  have dw: "dropWhile (\<lambda>s. snum s \<noteq> snum y) (sensors l) = ys" "takeWhile (\<lambda>s. snum s \<noteq> snum y) (sensors l) = xs"
    using n assms(2) by (simp_all add: y dropWhile_append2 takeWhile_append2)
  obtain k where k: "k \<le> length ys" "0 < k" "k \<le> 16"
      "scan read 0 ys = (map (fst \<circ> check_sensor read) (take k ys), drop k ys, concat (map (report \<circ> check_sensor read) (take k ys)))"
    using scan_prefix [of ys 0 read] assms(3) by auto
  have r: "readingSensor l = Some (snum y)" using assms(1) by (simp add: y first_number_def)
  show ?thesis
    using k r dw assms(2) by (intro exI [of _ k]) (simp add: checkAll_def y [symmetric] assms(3))
qed

lemma rest_of_pass:
  assumes "readingSensor l = first_number ys" "sensors l = xs @ ys" "distinct (map snum (sensors l))"
  shows "\<exists>k \<le> length ys. (checkAll read now ^^ k) l =
    l\<lparr>sensors := xs @ map (fst \<circ> check_sensor read) ys, readingSensor := None,
      io := io l @ concat (map (report \<circ> check_sensor read) ys)\<rparr>"
  using assms
proof (induction "length ys" arbitrary: l xs ys rule: less_induct)
  case less
  show ?case
  proof (cases "ys = []")
    case True
    then show ?thesis using less.prems by (intro exI [of _ 0]) (simp add: first_number_def)
  next
    case False
    from checkAll_step [OF less.prems(1,2) False less.prems(3)] obtain k where k: "0 < k" "k \<le> length ys"
      and step: "checkAll read now l =
        l\<lparr>sensors := xs @ map (fst \<circ> check_sensor read) (take k ys) @ drop k ys, readingSensor := first_number (drop k ys),
          io := io l @ concat (map (report \<circ> check_sensor read) (take k ys))\<rparr>"
      by blast
    let ?xs = "xs @ map (fst \<circ> check_sensor read) (take k ys)"
    let ?l = "checkAll read now l"
    have ids: "map snum (sensors ?l) = map snum (sensors l)"
    proof -
      have "map snum (take k ys) @ map snum (drop k ys) = map snum ys" by (simp flip: map_append)
      then show ?thesis by (simp add: step less.prems(2) comp_def)
    qed
    have "\<exists>j \<le> length (drop k ys). (checkAll read now ^^ j) ?l =
        ?l\<lparr>sensors := ?xs @ map (fst \<circ> check_sensor read) (drop k ys), readingSensor := None,
          io := io ?l @ concat (map (report \<circ> check_sensor read) (drop k ys))\<rparr>"
    proof (rule less.hyps)
      show "length (drop k ys) < length ys" using k by simp
      show "readingSensor ?l = first_number (drop k ys)" "sensors ?l = ?xs @ drop k ys" by (simp_all add: step)
      show "distinct (map snum (sensors ?l))" using ids less.prems(3) by simp
    qed
    then obtain j where j: "j \<le> length ys - k" "(checkAll read now ^^ j) ?l =
        ?l\<lparr>sensors := ?xs @ map (fst \<circ> check_sensor read) (drop k ys), readingSensor := None,
          io := io ?l @ concat (map (report \<circ> check_sensor read) (drop k ys))\<rparr>"
      by auto
    have cat: "map f (take k ys) @ map f (drop k ys) = map f ys"
      "concat (map g (take k ys)) @ concat (map g (drop k ys)) = concat (map g ys)" for f :: "sensor \<Rightarrow> sensor" and g :: "sensor \<Rightarrow> io_event list"
      by (simp_all flip: map_append concat_append)
    have "(checkAll read now ^^ Suc j) l =
        l\<lparr>sensors := xs @ map (fst \<circ> check_sensor read) ys, readingSensor := None,
          io := io l @ concat (map (report \<circ> check_sensor read) ys)\<rparr>"
    proof -
      have "(checkAll read now ^^ Suc j) l = (checkAll read now ^^ j) ?l" by (simp add: funpow_swap1)
      also note j(2)
      finally show ?thesis by (simp add: step cat)
    qed
    then show ?thesis using j(1) k by (intro exI [of _ "Suc j"]) auto
  qed
qed

lemma pass_starts:
  assumes "readingSensor l = None" "now - lastReadCycle l \<ge> cycleInterval"
  shows "checkAll read now l =
    checkAll read now (l\<lparr>readingSensor := first_number (sensors l), lastReadCycle := (if sensors l = [] then lastReadCycle l else now)\<rparr>)"
  using assms by (auto simp: checkAll_def first_number_def split: list.split)

section \<open>Debouncing\<close>

text \<open>
  The reference: the state is the value of the last two equal consecutive samples; \<open>p\<close> is the
  sample before.
\<close>

fun debounced :: "bool \<Rightarrow> bool \<Rightarrow> bool list \<Rightarrow> bool" where
  "debounced a p [] = a"
| "debounced a p (b # bs) = debounced (if b = p then b else a) b bs"

definition latched :: "sensor \<Rightarrow> bool" where
  "latched s \<longleftrightarrow> latchDelay s = (if inputState s = active s then 1 else 0)"

definition polled :: "sensor \<Rightarrow> bool" where
  "polled s \<longleftrightarrow> pollingRequired s \<and> pin s \<noteq> VPIN_NONE"

lemma check_latched:
  assumes "latched s" "polled s"
  shows "latched (fst (check_sensor read s))" "polled (fst (check_sensor read s))"
    "active (fst (check_sensor read s)) = (if odd (read (pin s)) = inputState s then odd (read (pin s)) else active s)"
    "inputState (fst (check_sensor read s)) = odd (read (pin s))" "pin (fst (check_sensor read s)) = pin s"
    "snd (check_sensor read s) \<longleftrightarrow> active (fst (check_sensor read s)) \<noteq> active s"
  using assms by (auto simp: check_sensor_def latched_def polled_def minReadCount_def Let_def split: if_splits)

text \<open>A pass over all sensors with the readings \<open>read\<close> of the pins.\<close>

definition pass :: "(u16 \<Rightarrow> int) \<Rightarrow> sensor list \<Rightarrow> sensor list" where
  "pass read ss = map (fst \<circ> check_sensor read) ss"

lemma passes_debounced:
  "list_all latched ss \<Longrightarrow> list_all polled ss \<Longrightarrow>
   map active (fold pass rs ss) = map (\<lambda>s. debounced (active s) (inputState s) (map (\<lambda>r. odd (r (pin s))) rs)) ss"
proof (induction rs arbitrary: ss)
  case (Cons r rs)
  have "list_all latched (pass r ss)" "list_all polled (pass r ss)"
    using Cons.prems by (auto simp: pass_def list_all_iff check_latched)
  from Cons.IH [OF this] show ?case
    using Cons.prems by (auto simp: pass_def list_all_iff check_latched)
qed simp

section \<open>Properties\<close>

text \<open>
  Every pass checks every sensor once. When a pass is due, at most as many calls of
  \<^verbatim>\<open>checkAll\<close> as there are sensors complete it, although each call stops after sixteen sensors or at
  the first change: then every sensor has been checked exactly once and the changes have
  been broadcast in the order of the sensors.
\<close>

theorem sensor_pass:
  assumes "distinct (map snum (sensors l))" and "sensors l \<noteq> []" and "readingSensor l = None"
    and "cycleInterval \<le> now - lastReadCycle l"
  shows "\<exists>k \<le> length (sensors l). let l' = (checkAll read now ^^ k) l
    in readingSensor l' = None \<and> sensors l' = pass read (sensors l) \<and>
       io l' = io l @ concat (map (report \<circ> check_sensor read) (sensors l))"
proof -
  let ?l = "l\<lparr>readingSensor := first_number (sensors l), lastReadCycle := now\<rparr>"
  from rest_of_pass [of ?l "sensors l" "[]" read now] assms(1)
  obtain k where k: "k \<le> length (sensors l)" "(checkAll read now ^^ k) ?l = ?l\<lparr>sensors := map (fst \<circ> check_sensor read) (sensors l),
      readingSensor := None, io := io ?l @ concat (map (report \<circ> check_sensor read) (sensors l))\<rparr>"
    by auto
  have start: "checkAll read now l = checkAll read now ?l"
    using pass_starts [OF assms(3,4)] assms(2) by simp
  have "readingSensor ((checkAll read now ^^ k) ?l) = None" "readingSensor ?l \<noteq> None"
    unfolding k(2) using assms(2) by (simp_all add: first_number_def split: list.split)
  then have "k \<noteq> 0" by (cases k) auto
  then obtain j where j: "k = Suc j" by (cases k) auto
  have "(checkAll read now ^^ k) l = (checkAll read now ^^ k) ?l" unfolding j by (simp only: funpow_Suc_right comp_apply start)
  then show ?thesis using k by (intro exI [of _ k]) (simp add: pass_def)
qed

definition two_sensors :: "sensor list" where
  "two_sensors =
    [\<lparr>snum = 7, pin = 40, pullUp = 1, active = False, inputState = False, latchDelay = 1, pollingRequired = True\<rparr>,
     \<lparr>snum = 8, pin = 41, pullUp = 1, active = False, inputState = True, latchDelay = 0, pollingRequired = True\<rparr>]"

theorem sensor_pass_witness:
  "let l = \<lparr>eeprom = (\<lambda>_. 0), data = \<lparr>store_id = EESTORE_ID, nTurnouts = 0, nSensors = 0, nOutputs = 0\<rparr>, eeAddress = 0,
       turnouts = [], turnoutlistHash = 0, sensors = two_sensors, readingSensor = None, lastReadCycle = 0, outputs = [], io = [],
       dcc_state = dcc_init boot_queues two_locos\<rparr>
   in \<exists>k \<le> 2. readingSensor ((checkAll (\<lambda>_. 1) 20000 ^^ k) l) = None \<and> io ((checkAll (\<lambda>_. 1) 20000 ^^ k) l) = [BroadcastSensor 8 True]"
proof -
  let ?l = "\<lparr>eeprom = (\<lambda>_. 0), data = \<lparr>store_id = EESTORE_ID, nTurnouts = 0, nSensors = 0, nOutputs = 0\<rparr>, eeAddress = 0,
       turnouts = [], turnoutlistHash = 0, sensors = two_sensors, readingSensor = None, lastReadCycle = 0, outputs = [], io = [],
       dcc_state = dcc_init boot_queues two_locos\<rparr>"
  have "distinct (map snum (sensors ?l))" "sensors ?l \<noteq> []" "readingSensor ?l = None" "cycleInterval \<le> 20000 - lastReadCycle ?l"
    by (simp_all add: two_sensors_def cycleInterval_def)
  from sensor_pass [OF this, of "\<lambda>_. 1"] obtain k where k: "k \<le> length two_sensors"
      "readingSensor ((checkAll (\<lambda>_. 1) 20000 ^^ k) ?l) = None"
      "io ((checkAll (\<lambda>_. 1) 20000 ^^ k) ?l) = concat (map (report \<circ> check_sensor (\<lambda>_. 1)) two_sensors)"
    by (auto simp: Let_def)
  have "concat (map (report \<circ> check_sensor (\<lambda>_. 1)) two_sensors) = [BroadcastSensor 8 True]" "length two_sensors = 2"
    by (simp_all add: two_sensors_def check_sensor_def report_def VPIN_NONE_def Let_def)
  with k show ?thesis unfolding Let_def by auto
qed

section \<open>Runs of the polling loop\<close>

text \<open>
  A run is a sequence of calls, each with the pins and the clock as it finds them. The cursor is a
  position of the list: \<open>at_position p\<close> says that the next sensor to be read is the one at \<open>p\<close>, and
  that no pass is under way when \<open>p\<close> is the end of the list.
\<close>

type_synonym poll = "(u16 \<Rightarrow> int) \<times> u32"

definition polls :: "poll list \<Rightarrow> layout \<Rightarrow> layout" where
  "polls cs l = fold (\<lambda>(read, now). checkAll read now) cs l"

definition at_position :: "nat \<Rightarrow> layout \<Rightarrow> bool" where
  "at_position p l \<longleftrightarrow> p \<le> length (sensors l) \<and> readingSensor l = first_number (drop p (sensors l))"

definition idle :: "u32 \<Rightarrow> layout \<Rightarrow> bool" where
  "idle now l \<longleftrightarrow> sensors l = [] \<or> readingSensor l = None \<and> now - lastReadCycle l < cycleInterval"

definition visit :: "(u16 \<Rightarrow> int) \<Rightarrow> u16 list \<Rightarrow> sensor list \<Rightarrow> sensor list" where
  "visit read v ss = map (\<lambda>s. if snum s \<in> set v then fst (check_sensor read s) else s) ss"

text \<open>The readings of a sensor in the calls that visit it.\<close>

definition samples :: "sensor \<Rightarrow> poll list \<Rightarrow> u16 list list \<Rightarrow> bool list" where
  "samples s cs vs = map (\<lambda>((read, now), v). odd (read (pin s))) (filter (\<lambda>(c, v). snum s \<in> set v) (zip cs vs))"

lemma first_number_None [simp]: "first_number ss = None \<longleftrightarrow> ss = []" "None = first_number ss \<longleftrightarrow> ss = []"
  by (simp_all add: first_number_def split: list.split)

lemma visit_numbers [simp]: "map snum (visit read v ss) = map snum ss"
  by (simp add: visit_def)

lemma visit_none: "(\<And>s. s \<in> set ss \<Longrightarrow> snum s \<notin> set v) \<Longrightarrow> visit read v ss = ss"
  by (simp add: visit_def map_idI)

lemma visit_all: "visit read (map snum ss) ss = map (fst \<circ> check_sensor read) ss"
  by (simp add: visit_def)

lemma visit_append: "visit read v (xs @ ys) = visit read v xs @ visit read v ys"
  by (simp add: visit_def)

lemma visit_segment:
  assumes "distinct (map snum (xs @ ys @ zs))"
  shows "visit read (map snum ys) (xs @ ys @ zs) = xs @ map (fst \<circ> check_sensor read) ys @ zs"
proof -
  have "visit read (map snum ys) xs = xs" "visit read (map snum ys) zs = zs"
    by (rule visit_none; use assms in \<open>fastforce\<close>)+
  then show ?thesis by (simp add: visit_append visit_all)
qed

text \<open>A call that reads from the position \<open>p\<close> on: the cursor, the numbers it visits and its effect.\<close>

lemma checkAll_reads:
  assumes "distinct (map snum (sensors l))" "p < length (sensors l)" "readingSensor l = first_number (drop p (sensors l))"
  shows "\<exists>k. 0 < k \<and> k \<le> 16 \<and> p + k \<le> length (sensors l) \<and> at_position (p + k) (checkAll read now l) \<and>
    sensors (checkAll read now l) = visit read (map snum (take k (drop p (sensors l)))) (sensors l)"
proof -
  let ?xs = "take p (sensors l)" and ?ys = "drop p (sensors l)"
  have s: "sensors l = ?xs @ ?ys" by simp
  have "?ys \<noteq> []" using assms(2) by simp
  from checkAll_step [OF assms(3) s this assms(1), of read now] obtain k where k: "0 < k" "k \<le> length ?ys" "k \<le> 16"
      "checkAll read now l = l\<lparr>sensors := ?xs @ map (fst \<circ> check_sensor read) (take k ?ys) @ drop k ?ys,
         readingSensor := first_number (drop k ?ys), io := io l @ concat (map (report \<circ> check_sensor read) (take k ?ys))\<rparr>"
    by blast
  have v: "visit read (map snum (take k ?ys)) (sensors l) = ?xs @ map (fst \<circ> check_sensor read) (take k ?ys) @ drop k ?ys"
    using visit_segment [of ?xs "take k ?ys" "drop k ?ys" read] assms(1) unfolding append_take_drop_id by blast
  have "drop (p + k) (?xs @ map (fst \<circ> check_sensor read) (take k ?ys) @ drop k ?ys) = drop k ?ys"
    using assms(2) k(2) by (simp add: min_def)
  then show ?thesis using k v assms(2) by (intro exI [of _ k]) (auto simp: at_position_def)
qed

lemma visited_in_order:
  assumes "p + k \<le> length ss"
  shows "i < k \<Longrightarrow> map snum (take k (drop p ss)) ! i = map snum ss ! ((p + i) mod length ss)"
  using assms by simp

lemma checkAll_poll:
  assumes "distinct (map snum (sensors l))" "at_position p l"
  shows "\<exists>v p'. at_position p' (checkAll read now l) \<and> sensors (checkAll read now l) = visit read v (sensors l) \<and>
    length v \<le> 16 \<and> p' mod length (sensors l) = (p + length v) mod length (sensors l) \<and>
    (\<forall>i < length v. v ! i = map snum (sensors l) ! ((p + i) mod length (sensors l))) \<and> (v = [] \<longrightarrow> idle now l)"
proof -
  consider (idle) "idle now l" | (middle) "\<not> idle now l" "readingSensor l \<noteq> None"
    | (start) "\<not> idle now l" "readingSensor l = None" by blast
  then show ?thesis
  proof cases
    case idle
    then have "checkAll read now l = l"
      by (auto simp: checkAll_def idle_def linorder_not_le [symmetric] split: option.split)
    then show ?thesis using assms(2) idle by (intro exI [of _ "[]"] exI [of _ p]) (simp add: visit_def)
  next
    case middle
    then have p: "p < length (sensors l)"
      using assms(2) by (auto simp: at_position_def first_number_def linorder_not_le [symmetric])
    from checkAll_reads [OF assms(1) p, of read now] assms(2) obtain k where "0 < k" "k \<le> 16" "p + k \<le> length (sensors l)"
        "at_position (p + k) (checkAll read now l)"
        "sensors (checkAll read now l) = visit read (map snum (take k (drop p (sensors l)))) (sensors l)"
      by (auto simp: at_position_def)
    moreover from this(3) have "length (take k (drop p (sensors l))) = k" by simp
    ultimately show ?thesis using visited_in_order [of p k "sensors l"]
      by (intro exI [of _ "map snum (take k (drop p (sensors l)))"] exI [of _ "p + k"]) (simp del: length_take)
  next
    case start
    let ?l = "l\<lparr>readingSensor := first_number (sensors l), lastReadCycle := now\<rparr>"
    have p: "p = length (sensors l)" "sensors l \<noteq> []" using assms(2) start by (auto simp: at_position_def idle_def)
    have s: "checkAll read now l = checkAll read now ?l"
      using pass_starts [of l now read] start p(2) by (simp add: idle_def linorder_not_less)
    from checkAll_reads [of ?l 0 read now] assms(1) p(2) obtain k where "0 < k" "k \<le> 16" "k \<le> length (sensors l)"
        "at_position k (checkAll read now l)"
        "sensors (checkAll read now l) = visit read (map snum (take k (sensors l))) (sensors l)"
      unfolding s by auto
    then show ?thesis using visited_in_order [of 0 k "sensors l"]
      by (intro exI [of _ "map snum (take k (sensors l))"] exI [of _ k]) (auto simp: min_def p(1))
  qed
qed

lemma visit_facts:
  assumes "list_all latched ss" "list_all polled ss"
  shows "list_all latched (visit read v ss)" "list_all polled (visit read v ss)"
  using assms by (auto simp: visit_def list_all_iff check_latched)

lemma debounce_visit:
  assumes "list_all latched ss" "list_all polled ss"
  shows "map (\<lambda>s. debounced (active s) (inputState s) (samples s cs vs)) (visit read v ss) =
    map (\<lambda>s. debounced (active s) (inputState s) (samples s ((read, now) # cs) (v # vs))) ss"
  using assms by (auto simp: visit_def samples_def list_all_iff check_latched)

lemma polls_debounced:
  "distinct (map snum (sensors l)) \<Longrightarrow> at_position p l \<Longrightarrow> list_all latched (sensors l) \<Longrightarrow> list_all polled (sensors l) \<Longrightarrow>
   \<exists>vs. length vs = length cs \<and> list_all (\<lambda>v. length v \<le> 16) vs \<and>
     (\<forall>i < length (concat vs). concat vs ! i = map snum (sensors l) ! ((p + i) mod length (sensors l))) \<and>
     (\<forall>i < length cs. vs ! i = [] \<longrightarrow> idle (snd (cs ! i)) (polls (take i cs) l)) \<and>
     map snum (sensors (polls cs l)) = map snum (sensors l) \<and>
     map active (sensors (polls cs l)) = map (\<lambda>s. debounced (active s) (inputState s) (samples s cs vs)) (sensors l)"
proof (induction cs arbitrary: l p)
  case Nil
  then show ?case by (simp add: polls_def samples_def)
next
  case (Cons c cs)
  obtain read now where c: "c = (read, now)" by (cases c)
  let ?l = "checkAll read now l" and ?n = "length (sensors l)"
  from checkAll_poll [OF Cons.prems(1,2), of read now] obtain v q where v: "at_position q ?l"
    "sensors ?l = visit read v (sensors l)" "length v \<le> 16" "q mod ?n = (p + length v) mod ?n"
    "\<forall>i < length v. v ! i = map snum (sensors l) ! ((p + i) mod ?n)" "v = [] \<longrightarrow> idle now l"
    by blast
  have n: "map snum (sensors ?l) = map snum (sensors l)" "length (sensors ?l) = ?n"
    unfolding v(2) by (simp, simp add: visit_def)
  from Cons.IH [of ?l q] Cons.prems(1,3,4) v(1,2) n(1) visit_facts [of "sensors l" read v]
  obtain vs where vs: "length vs = length cs" "list_all (\<lambda>v. length v \<le> 16) vs"
      "\<forall>i < length (concat vs). concat vs ! i = map snum (sensors l) ! ((q + i) mod ?n)"
      "\<forall>i < length cs. vs ! i = [] \<longrightarrow> idle (snd (cs ! i)) (polls (take i cs) ?l)"
      "map snum (sensors (polls cs ?l)) = map snum (sensors l)"
      "map active (sensors (polls cs ?l)) = map (\<lambda>s. debounced (active s) (inputState s) (samples s cs vs)) (sensors ?l)"
    unfolding n by auto
  have order: "\<forall>i < length (concat (v # vs)). concat (v # vs) ! i = map snum (sensors l) ! ((p + i) mod ?n)"
  proof (intro allI impI)
    fix i assume i: "i < length (concat (v # vs))"
    have "(q + (i - length v)) mod ?n = (p + i) mod ?n" if "\<not> i < length v"
      using mod_add_cong [OF v(4) refl, of "i - length v"] that by simp
    with i vs(3) v(5) show "concat (v # vs) ! i = map snum (sensors l) ! ((p + i) mod ?n)"
      by (auto simp: nth_append simp del: nth_map)
  qed
  have waits: "\<forall>i < length (c # cs). (v # vs) ! i = [] \<longrightarrow> idle (snd ((c # cs) ! i)) (polls (take i (c # cs)) l)"
    using vs(4) v(6) by (auto simp: c polls_def nth_Cons' less_Suc_eq_0_disj split: nat.split)
  have "polls (c # cs) l = polls cs ?l" by (simp add: polls_def c)
  then show ?case
    using vs(1,2,5,6) v(3) order waits debounce_visit [OF Cons.prems(3,4), of cs vs read v now]
    by (intro exI [of _ "v # vs"]) (simp add: v(2) c)
qed

section \<open>Debouncing in a run\<close>

text \<open>
  C35: the polling loop debounces. Take any run of calls of \<^verbatim>\<open>checkAll\<close>, each with its own readings of
  the pins and its own time, on a layout whose sensors have distinct numbers and are all polled,
  with no pass under way at the start. The calls visit the sensors in the order of the list, round
  and round, at most sixteen in a call, and a call visits none only while the interval between two
  passes has not elapsed; every sensor's state at the end is the value last read twice in a row in
  the calls that visited it, so that a reading that lasts for one visit only changes nothing.
\<close>

theorem sensors_debounced:
  assumes "distinct (map snum (sensors l))" and "readingSensor l = None"
    and "list_all latched (sensors l)" and "list_all polled (sensors l)"
  shows "\<exists>vs. length vs = length cs \<and> list_all (\<lambda>v. length v \<le> 16) vs \<and>
     (\<forall>i < length (concat vs). concat vs ! i = map snum (sensors l) ! (i mod length (sensors l))) \<and>
     (\<forall>i < length cs. vs ! i = [] \<longrightarrow> idle (snd (cs ! i)) (polls (take i cs) l)) \<and>
     map snum (sensors (polls cs l)) = map snum (sensors l) \<and>
     map active (sensors (polls cs l)) = map (\<lambda>s. debounced (active s) (inputState s) (samples s cs vs)) (sensors l)"
proof -
  have p: "at_position (length (sensors l)) l" using assms(2) by (simp add: at_position_def first_number_def)
  show ?thesis using polls_debounced [OF assms(1) p assms(3,4)] by simp
qed

definition sensor_layout :: layout where
  "sensor_layout = \<lparr>eeprom = (\<lambda>_. 0), data = \<lparr>store_id = EESTORE_ID, nTurnouts = 0, nSensors = 0, nOutputs = 0\<rparr>, eeAddress = 0,
       turnouts = [], turnoutlistHash = 0, sensors = two_sensors, readingSensor = None, lastReadCycle = 0, outputs = [], io = [],
       dcc_state = dcc_init boot_queues two_locos\<rparr>"

theorem sensors_debounced_witness:
  "(\<exists>vs. length vs = 3 \<and> map active (sensors (polls [(\<lambda>_. 1, 20000), (\<lambda>_. 0, 20010), (\<lambda>_. 1, 40000)] sensor_layout)) =
      map (\<lambda>s. debounced (active s) (inputState s) (samples s [(\<lambda>_. 1, 20000), (\<lambda>_. 0, 20010), (\<lambda>_. 1, 40000)] vs)) two_sensors) \<and>
   map active (sensors (polls [(\<lambda>_. 1, 20000), (\<lambda>_. 0, 20010), (\<lambda>_. 1, 40000)] sensor_layout)) = [True, True]"
proof -
  let ?cs = "[(\<lambda>_. 1, 20000), (\<lambda>_. 0, 20010), (\<lambda>_. 1, 40000)] :: poll list"
  have l: "distinct (map snum (sensors sensor_layout))" "readingSensor sensor_layout = None"
      "list_all latched (sensors sensor_layout)" "list_all polled (sensors sensor_layout)"
    by (simp_all add: sensor_layout_def two_sensors_def latched_def polled_def VPIN_NONE_def)
  have run: "map active (sensors (polls ?cs sensor_layout)) = [True, True]"
    by (simp add: polls_def checkAll_def sensor_layout_def two_sensors_def cycleInterval_def first_number_def check_sensor_def
        VPIN_NONE_def minReadCount_def Let_def)
  have s: "sensors sensor_layout = two_sensors" by (simp add: sensor_layout_def)
  from sensors_debounced [OF l, of ?cs] obtain vs where "length vs = length ?cs"
      "map active (sensors (polls ?cs sensor_layout)) =
       map (\<lambda>s. debounced (active s) (inputState s) (samples s ?cs vs)) (sensors sensor_layout)"
    by blast
  then have "\<exists>vs. length vs = 3 \<and> map active (sensors (polls ?cs sensor_layout)) =
      map (\<lambda>s. debounced (active s) (inputState s) (samples s ?cs vs)) two_sensors" unfolding s by (intro exI [of _ vs]) simp
  with run show ?thesis by blast
qed

end
