(* ===== verification/Outputs.thy ===== *)
theory Outputs
  imports Sensors
begin

text \<open>
  Outputs, \<^verbatim>\<open>src/Outputs.cpp\<close> and \<^verbatim>\<open>src/Outputs.h\<close>: pins that commands switch. The status byte of an
  output is the union of the code: bit 0 inverts the pin, bit 1 asks for the default of bit 2 at
  start, bit 7 is the state. The outcome of \<^verbatim>\<open>calloc\<close> is an argument; loading an output that cannot
  be created calls a method through a null pointer, which is the result \<open>None\<close>.
\<close>

section \<open>Model\<close>

definition set_active :: "bool \<Rightarrow> Output \<Rightarrow> Output" where
  "set_active s out = out\<lparr>oStatus := (if s then oStatus out OR 0x80 else oStatus out AND 0x7F)\<rparr>"

definition set_flags :: "byte \<Rightarrow> Output \<Rightarrow> Output" where
  "set_flags f out = out\<lparr>oStatus := (oStatus out AND 0x80) OR (f AND 0x7F)\<rparr>"

definition pin_level :: "Output \<Rightarrow> bool" where
  "pin_level out \<longleftrightarrow> bit (oStatus out) 7 \<noteq> bit (oStatus out) 0"

definition get :: "u16 \<Rightarrow> layout \<Rightarrow> Output option" where
  "get n l = find (\<lambda>out. o_id out = n) (outputs l)"

definition change :: "u16 \<Rightarrow> (Output \<Rightarrow> Output) \<Rightarrow> layout \<Rightarrow> layout" where
  "change n f l = l\<lparr>outputs := replace_first (\<lambda>out. o_id out = n) f (outputs l)\<rparr>"

text \<open>\<open>activate n s\<close> is the method of the output with the id \<open>n\<close>; \<open>None\<close> is the null pointer.\<close>

definition activate :: "u16 \<Rightarrow> u16 \<Rightarrow> layout \<Rightarrow> layout option" where
  "activate n s l =
    (let l = change n (set_active (s > 0)) l
     in case get n l of
          None \<Rightarrow> None
        | Some out \<Rightarrow>
            (let l = emit_io (Write (o_pin out) (pin_level out)) l
             in Some (if nOutputs (data l) > 0 \<and> num out > 0
                      then l\<lparr>eeprom := ee_put (num out) [oStatus out] (eeprom l)\<rparr> else l)))"

definition remove :: "u16 \<Rightarrow> layout \<Rightarrow> bool \<times> layout" where
  "remove n l =
    (if get n l = None then (False, l)
     else (True, l\<lparr>outputs := remove_first (\<lambda>out. o_id out = n) (outputs l)\<rparr>))"

definition default_state :: "Output \<Rightarrow> bool" where
  "default_state out \<longleftrightarrow> bit (oStatus out) 1 \<and> bit (oStatus out) 2"

definition configure :: "u16 \<Rightarrow> u16 \<Rightarrow> u16 \<Rightarrow> int \<Rightarrow> Output \<Rightarrow> Output" where
  "configure n p iFlag v out =
    (let out = set_flags (ucast iFlag) (out\<lparr>num := 0, o_id := n, o_pin := p\<rparr>)
     in if v = 1 then set_active (default_state out) out else out)"

definition create :: "bool \<Rightarrow> u16 \<Rightarrow> u16 \<Rightarrow> u16 \<Rightarrow> int \<Rightarrow> layout \<Rightarrow> bool \<times> layout" where
  "create calloc n p iFlag v l =
    (if p > VPIN_MAX then (False, l)
     else if get n l = None \<and> \<not> calloc then (False, l)
     else
       (let l = (if get n l = None then l\<lparr>outputs := outputs l @ [\<lparr>oStatus = 0, o_id = n, o_pin = 0, num = 0\<rparr>]\<rparr> else l);
            l = change n (configure n p iFlag v) l
        in case get n l of
             None \<Rightarrow> (True, l)
           | Some out \<Rightarrow> (True, emit_io (Write p (pin_level out)) l)))"

definition output_bytes :: "Output \<Rightarrow> byte list" where
  "output_bytes out = oStatus out # le16 (o_id out) @ le16 (o_pin out)"

definition start_state :: "byte \<Rightarrow> bool" where
  "start_state st = (if bit st 1 then bit st 2 else bit st 7)"

definition load_output :: "(nat \<Rightarrow> bool) \<Rightarrow> nat \<Rightarrow> layout \<Rightarrow> layout option" where
  "load_output calloc i l =
    (let bs = ee_get (eeAddress l) 5 (eeprom l); st = bs ! 0; n = un16 (take 2 (drop 1 bs));
         (created, l) = create (calloc i) n (un16 (drop 3 bs)) (ucast (st AND 0x7F)) 0 l
     in if \<not> created then None
        else case activate n (if start_state st then 1 else 0) l of
               None \<Rightarrow> None
             | Some l \<Rightarrow> Some ((change n (\<lambda>out. out\<lparr>num := eeAddress l\<rparr>) l)\<lparr>eeAddress := eeAddress l + 5\<rparr>))"

definition load :: "(nat \<Rightarrow> bool) \<Rightarrow> layout \<Rightarrow> layout option" where
  "load calloc l = load_loop (load_output calloc) (unat (nOutputs (data l))) l"

fun store_loop :: "Output list \<Rightarrow> layout \<Rightarrow> Output list \<times> layout" where
  "store_loop [] l = ([], l)"
| "store_loop (out # outs) l =
    (let out' = out\<lparr>num := eeAddress l\<rparr>;
         l = (put_advance (output_bytes out) l)\<lparr>data := (data l)\<lparr>nOutputs := nOutputs (data l) + 1\<rparr>\<rparr>;
         (outs', l) = store_loop outs l
     in (out' # outs', l))"

definition store :: "layout \<Rightarrow> layout" where
  "store l =
    (let (outs, l) = store_loop (outputs l) (l\<lparr>data := (data l)\<lparr>nOutputs := 0\<rparr>\<rparr>) in l\<lparr>outputs := outs\<rparr>)"

section \<open>Records\<close>

definition restored_output :: "nat \<Rightarrow> Output \<Rightarrow> Output" where
  "restored_output a out = (set_active (start_state (oStatus out)) out)\<lparr>num := a\<rparr>"

definition keeps_rest :: "layout \<Rightarrow> layout \<Rightarrow> bool" where
  "keeps_rest l l' \<longleftrightarrow> eeprom l' = eeprom l \<and> data l' = data l \<and> turnouts l' = turnouts l \<and> sensors l' = sensors l"

lemma output_get_None: "get n l = None \<longleftrightarrow> n \<notin> o_id ` set (outputs l)"
  by (auto simp: get_def find_None_iff)

lemma replace_first_snoc: "\<not> (\<exists>x \<in> set xs. P x) \<Longrightarrow> P y \<Longrightarrow> replace_first P f (xs @ [y]) = xs @ [f y]"
  by (induction xs) auto

lemma find_snoc_new: "\<not> (\<exists>x \<in> set xs. P x) \<Longrightarrow> P y \<Longrightarrow> find P (xs @ [y]) = Some y"
  by (induction xs) auto

lemma low_flags: "(0 AND 0x80) OR (ucast (ucast (b AND 0x7F) :: u16) AND 0x7F) = b AND 0x7F" for b :: byte
  by (rule bit_word_eqI) (auto simp: bit_simps)

lemma set_active_flags: "(if s then (b AND 0x7F) OR 0x80 else (b AND 0x7F) AND 0x7F) = (if s then b OR 0x80 else b AND 0x7F)" for b :: byte
proof -
  have "(b AND 0x7F) OR 0x80 = (b OR 0x80) AND (0x7F OR 0x80)" by (simp only: bit.disj_conj_distrib2)
  also have "(0x7F OR 0x80 :: byte) = -1" by simp
  finally show ?thesis by (simp add: and.assoc)
qed

text \<open>A new output is appended; the calls that follow its creation work on it.\<close>

lemma change_last:
  assumes "n \<notin> o_id ` set outs" "o_id out = n" "outputs l = outs @ [out]"
  shows "change n f l = l\<lparr>outputs := outs @ [f out]\<rparr>" "get n l = Some out"
proof -
  have "\<not> (\<exists>x \<in> set outs. o_id x = n)" using assms(1) by auto
  then show "change n f l = l\<lparr>outputs := outs @ [f out]\<rparr>" "get n l = Some out"
    using assms(2,3) replace_first_snoc [of outs "\<lambda>out. o_id out = n" out f] find_snoc_new [of outs "\<lambda>out. o_id out = n" out]
    by (simp_all add: change_def get_def)
qed

lemma output_create_new:
  fixes n p f :: u16 and v :: int
  assumes "p \<le> VPIN_MAX" "n \<notin> o_id ` set (outputs l)"
  defines "out \<equiv> configure n p f v \<lparr>oStatus = 0, o_id = n, o_pin = 0, num = 0\<rparr>"
  shows "create True n p f v l = (True, emit_io (Write p (pin_level out)) (l\<lparr>outputs := outputs l @ [out]\<rparr>))"
proof -
  have id: "o_id out = n" by (simp add: out_def configure_def set_flags_def set_active_def Let_def)
  let ?o = "\<lparr>oStatus = 0, o_id = n, o_pin = 0, num = 0\<rparr>"
  have c: "change n (configure n p f v) (l\<lparr>outputs := outputs l @ [?o]\<rparr>) = l\<lparr>outputs := outputs l @ [out]\<rparr>"
    using change_last(1) [OF assms(2), of ?o "l\<lparr>outputs := outputs l @ [?o]\<rparr>"] by (simp add: out_def)
  show ?thesis
    using assms(1) output_get_None [of n l] assms(2) change_last(2) [OF assms(2) id, of "l\<lparr>outputs := outputs l @ [out]\<rparr>"]
    by (simp add: create_def c Let_def)
qed

lemma activate_new:
  assumes "n \<notin> o_id ` set outs" "o_id out = n" "num out = 0" "outputs l = outs @ [out]"
  shows "activate n s l = Some (emit_io (Write (o_pin out) (pin_level (set_active (s > 0) out))) (l\<lparr>outputs := outs @ [set_active (s > 0) out]\<rparr>))"
proof -
  let ?out = "set_active (s > 0) out"
  have "o_id ?out = n" "num ?out = 0" "o_pin ?out = o_pin out" using assms(2,3) by (simp_all add: set_active_def)
  then show ?thesis
    using change_last(1) [OF assms(1,2,4), of "set_active (s > 0)"] change_last(2) [OF assms(1), of ?out "l\<lparr>outputs := outs @ [?out]\<rparr>"]
    by (simp add: activate_def)
qed

lemma load_output_record:
  assumes "holds (eeprom l) (eeAddress l) (output_bytes out)" "o_pin out \<le> VPIN_MAX" "o_id out \<notin> o_id ` set (outputs l)"
  shows "\<exists>l'. load_output (\<lambda>_. True) i l = Some l' \<and> eeAddress l' = eeAddress l + length (output_bytes out) \<and>
    outputs l' = outputs l @ [restored_output (eeAddress l) out] \<and> keeps_rest l l'"
proof -
  let ?n = "o_id out" and ?p = "o_pin out" and ?st = "oStatus out"
  have bs: "ee_get (eeAddress l) 5 (eeprom l) = ?st # le16 ?n @ le16 ?p"
    using assms(1) unfolding output_bytes_def by (intro holds_get) simp_all
  define new where "new = \<lparr>oStatus = ?st AND 0x7F, o_id = ?n, o_pin = ?p, num = 0\<rparr>"
  have conf: "configure ?n ?p (ucast (?st AND 0x7F)) 0 \<lparr>oStatus = 0, o_id = ?n, o_pin = 0, num = 0\<rparr> = new"
    by (simp add: configure_def set_flags_def new_def low_flags [simplified])
  let ?l1 = "emit_io (Write ?p (pin_level new)) (l\<lparr>outputs := outputs l @ [new]\<rparr>)"
  have c: "create True ?n ?p (ucast (?st AND 0x7F)) 0 l = (True, ?l1)"
    using output_create_new [OF assms(2,3)] by (simp only: conf)
  let ?s = "start_state ?st"
  let ?on = "set_active ?s new"
  have a: "\<exists>l2. activate ?n (if ?s then 1 else 0) ?l1 = Some l2 \<and> outputs l2 = outputs l @ [?on] \<and> keeps_rest l l2 \<and> eeAddress l2 = eeAddress l"
    using activate_new [OF assms(3), of new ?l1 "if ?s then 1 else 0"] by (simp add: new_def keeps_rest_def emit_io_def split: if_splits)
  then obtain l2 where l2: "activate ?n (if ?s then 1 else 0) ?l1 = Some l2" "outputs l2 = outputs l @ [?on]" "keeps_rest l l2" "eeAddress l2 = eeAddress l"
    by blast
  have on: "?on\<lparr>num := eeAddress l\<rparr> = restored_output (eeAddress l) out"
    using set_active_flags [of ?s ?st] by (simp add: restored_output_def set_active_def new_def split: if_splits)
  have id: "o_id ?on = ?n" by (simp add: set_active_def new_def)
  have "load_output (\<lambda>_. True) i l = Some ((change ?n (\<lambda>out. out\<lparr>num := eeAddress l2\<rparr>) l2)\<lparr>eeAddress := eeAddress l2 + 5\<rparr>)"
    using l2(1) by (simp add: load_output_def bs Let_def c [simplified])
  then show ?thesis
    using change_last(1) [OF assms(3) id l2(2), of "\<lambda>out. out\<lparr>num := eeAddress l2\<rparr>"] l2(3,4) on
    by (simp add: output_bytes_def keeps_rest_def)
qed

interpretation os: stored_class output_bytes "load_output (\<lambda>_. True)" outputs restored_output
    "\<lambda>out outs. outs @ [out]" o_id o_id "\<lambda>out. o_pin out \<le> VPIN_MAX" keeps_rest
  by unfold_locales (use load_output_record in \<open>auto simp: keeps_rest_def restored_output_def set_active_def\<close>)

lemma store_loop_put:
  "store_loop outs l = (restored_from output_bytes (\<lambda>a out. out\<lparr>num := a\<rparr>) (eeAddress l) outs,
     (put_advance (concat (map output_bytes outs)) l)\<lparr>data := (data l)\<lparr>nOutputs := nOutputs (data l) + of_nat (length outs)\<rparr>\<rparr>)"
proof (induction outs arbitrary: l)
  case (Cons out outs)
  let ?l = "(put_advance (output_bytes out) l)\<lparr>data := (data l)\<lparr>nOutputs := nOutputs (data l) + 1\<rparr>\<rparr>"
  from Cons.IH [of ?l] show ?case by (simp add: put_advance_data put_advance_append add.assoc)
qed simp

lemma outputs_store_put:
  "store l = (put_advance (concat (map output_bytes (outputs l))) l)
     \<lparr>data := (data l)\<lparr>nOutputs := of_nat (length (outputs l))\<rparr>,
      outputs := restored_from output_bytes (\<lambda>a out. out\<lparr>num := a\<rparr>) (eeAddress l) (outputs l)\<rparr>"
  by (simp add: store_def store_loop_put put_advance_data put_advance_def)

end
