(* ===== verification/EEStore.thy ===== *)
theory EEStore
  imports Outputs
begin

text \<open>
  The EEPROM store, \<^verbatim>\<open>src/EEStore.cpp\<close>: the header with the number of stored objects, followed by
  the records of the turnouts, the sensors and the outputs. \<open>init\<close> is the start of the station;
  its arguments are the outcomes of \<^verbatim>\<open>calloc\<close> and of \<^verbatim>\<open>IODevice::hasCallback\<close>.

  The lemmas show what storing leaves in the EEPROM and what a start makes of it.
\<close>

section \<open>Model\<close>

definition blank :: "EEStoreData \<Rightarrow> EEStoreData" where
  "blank d = \<lparr>store_id = EESTORE_ID, nTurnouts = 0, nSensors = 0, nOutputs = 0\<rparr>"

definition read_header :: "layout \<Rightarrow> layout" where
  "read_header l =
    (let d = get_store (eeprom l)
     in if store_id d \<noteq> EESTORE_ID
        then l\<lparr>data := blank d, eeprom := ee_put 0 (store_bytes (blank d)) (eeprom l)\<rparr>
        else l\<lparr>data := d\<rparr>)"

definition init :: "(nat \<Rightarrow> bool) \<Rightarrow> (nat \<Rightarrow> bool) \<Rightarrow> (u16 \<Rightarrow> bool) \<Rightarrow> layout \<Rightarrow> layout option" where
  "init calloc calloc' hasCallback l =
    (case Sensors.load calloc hasCallback (Turnouts.load (reset (read_header l))) of
       None \<Rightarrow> None
     | Some l \<Rightarrow> Outputs.load calloc' l)"

definition clear :: "layout \<Rightarrow> layout" where
  "clear l = l\<lparr>data := blank (data l), eeprom := ee_put 0 (store_bytes (blank (data l))) (eeprom l)\<rparr>"

definition store :: "layout \<Rightarrow> layout" where
  "store l =
    (let l = Outputs.store (Sensors.store (Turnouts.store (reset l)))
     in l\<lparr>eeprom := ee_put 0 (store_bytes (data l)) (eeprom l)\<rparr>)"

text \<open>The state at power-on: only the EEPROM has kept its contents.\<close>

definition power_on :: "(nat \<Rightarrow> byte) \<Rightarrow> dcc \<Rightarrow> layout" where
  "power_on m d = \<lparr>eeprom = m, data = \<lparr>store_id = replicate 7 0, nTurnouts = 0, nSensors = 0, nOutputs = 0\<rparr>, eeAddress = 0,
     turnouts = [], turnoutlistHash = 0, sensors = [], readingSensor = None, lastReadCycle = 0, outputs = [], io = [], dcc_state = d\<rparr>"

section \<open>The image of a layout in the EEPROM\<close>

definition ee_image :: "turnout list \<Rightarrow> sensor list \<Rightarrow> Output list \<Rightarrow> byte list" where
  "ee_image ts ss os = EESTORE_ID @ le16 (of_nat (length ts)) @ le16 (of_nat (length ss)) @ le16 (of_nat (length os)) @
     concat (map turnout_record ts) @ concat (map sensor_bytes ss) @ concat (map output_bytes os)"

definition storable :: "turnout list \<Rightarrow> sensor list \<Rightarrow> Output list \<Rightarrow> bool" where
  "storable ts ss os \<longleftrightarrow> list_all (\<lambda>t. kind t \<noteq> LCN) ts \<and> distinct (map t_id ts) \<and>
     list_all (\<lambda>s. valid_pin (pin s)) ss \<and> distinct (map snum ss) \<and>
     list_all (\<lambda>out. o_pin out \<le> VPIN_MAX) os \<and> distinct (map o_id os) \<and>
     length ts < 65536 \<and> length ss < 65536 \<and> length os < 65536"

lemma length_header [simp]: "length EESTORE_ID = 7"
  by (simp add: EESTORE_ID_def)

lemma store_image:
  assumes "list_all (\<lambda>t. kind t \<noteq> LCN) (turnouts l)" "store_id (data l) = EESTORE_ID"
  shows "holds (eeprom (store l)) 0 (ee_image (turnouts l) (sensors l) (outputs l))"
proof -
  let ?ts = "concat (map turnout_record (turnouts l))" and ?ss = "concat (map sensor_bytes (sensors l))"
    and ?os = "concat (map output_bytes (outputs l))"
  let ?h = "EESTORE_ID @ le16 (of_nat (length (turnouts l))) @ le16 (of_nat (length (sensors l))) @ le16 (of_nat (length (outputs l)))"
  have w: "with_records (turnouts l) = turnouts l" using assms(1) by (simp add: with_records_def filter_id_conv list_all_iff)
  have "eeprom (store l) = ee_put 0 ?h (ee_put 13 (?ts @ ?ss @ ?os) (eeprom l))"
    using assms(2) ee_put_put [of 13 ?ts ?ss "eeprom l"] ee_put_put [of 13 "?ts @ ?ss" ?os "eeprom l"]
    by (simp add: store_def outputs_store_put sensors_store_put turnouts_store_put w reset_def store_bytes_def add.assoc)
  moreover have "length ?h = 13" by simp
  ultimately have "holds (eeprom (store l)) 0 ?h" "holds (eeprom (store l)) 13 (?ts @ ?ss @ ?os)"
    using holds_put [of 0 ?h] holds_put_other [of 13 "?ts @ ?ss @ ?os" 0 ?h "ee_put 13 (?ts @ ?ss @ ?os) (eeprom l)"] by simp_all
  then have "holds (eeprom (store l)) 0 (?h @ ?ts @ ?ss @ ?os)" using \<open>length ?h = 13\<close> by (simp add: holds_append del: append_assoc)
  then show ?thesis by (simp add: ee_image_def)
qed

lemma load_loop_total: "load_loop (\<lambda>_ l. Some (f l)) n l = Some ((f ^^ n) l)"
  by (induction n arbitrary: l) (simp_all add: funpow_swap1)

lemma length_u16: "n < 65536 \<Longrightarrow> unat (of_nat n :: u16) = n"
  by (simp add: unsigned_of_nat take_bit_nat_eq_self)

lemma read_image:
  assumes "holds (eeprom l) 0 (ee_image ts ss os)"
  shows "read_header l = l\<lparr>data := \<lparr>store_id = EESTORE_ID, nTurnouts = of_nat (length ts), nSensors = of_nat (length ss),
      nOutputs = of_nat (length os)\<rparr>\<rparr>"
    and "holds (eeprom l) 13 (concat (map turnout_record ts))"
    and "holds (eeprom l) (13 + length (concat (map turnout_record ts))) (concat (map sensor_bytes ss))"
    and "holds (eeprom l) (13 + length (concat (map turnout_record ts)) + length (concat (map sensor_bytes ss))) (concat (map output_bytes os))"
proof -
  from assms have h: "holds (eeprom l) 0 EESTORE_ID" "holds (eeprom l) 7 (le16 (of_nat (length ts)))"
      "holds (eeprom l) 9 (le16 (of_nat (length ss)))" "holds (eeprom l) 11 (le16 (of_nat (length os)))"
    and b: "holds (eeprom l) 13 (concat (map turnout_record ts))"
      "holds (eeprom l) (13 + length (concat (map turnout_record ts))) (concat (map sensor_bytes ss))"
      "holds (eeprom l) (13 + length (concat (map turnout_record ts)) + length (concat (map sensor_bytes ss))) (concat (map output_bytes os))"
    by (simp_all add: ee_image_def holds_append add.assoc)
  show "read_header l = l\<lparr>data := \<lparr>store_id = EESTORE_ID, nTurnouts = of_nat (length ts), nSensors = of_nat (length ss),
      nOutputs = of_nat (length os)\<rparr>\<rparr>"
    using holds_get [OF h(1), of 7] holds_get [OF h(2), of 2] holds_get [OF h(3), of 2] holds_get [OF h(4), of 2]
    by (simp add: read_header_def get_store_def)
  show "holds (eeprom l) 13 (concat (map turnout_record ts))"
    "holds (eeprom l) (13 + length (concat (map turnout_record ts))) (concat (map sensor_bytes ss))"
    "holds (eeprom l) (13 + length (concat (map turnout_record ts)) + length (concat (map sensor_bytes ss))) (concat (map output_bytes os))"
    by (fact b)+
qed

lemma fold_snoc: "fold (\<lambda>x xs. xs @ [x]) ys xs = xs @ ys"
  by (induction ys arbitrary: xs) simp_all

lemma fold_cons: "fold (\<lambda>x xs. x # xs) ys xs = rev ys @ xs"
  by (induction ys arbitrary: xs) simp_all

lemma restored_from_const: "restored_from b (\<lambda>_. f) a xs = map f xs"
  by (induction xs arbitrary: a) simp_all

text \<open>A start on the image of a layout loads that layout.\<close>

lemma init_image:
  assumes im: "holds m 0 (ee_image ts ss os)" and ok: "storable ts ss os"
  shows "\<exists>l. init (\<lambda>_. True) (\<lambda>_. True) hc (power_on m d) = Some l \<and> eeprom l = m \<and>
    data l = \<lparr>store_id = EESTORE_ID, nTurnouts = of_nat (length ts), nSensors = of_nat (length ss), nOutputs = of_nat (length os)\<rparr> \<and>
    turnouts l = restored_from turnout_record restored_turnout 13 ts \<and>
    sensors l = rev (map (restored_sensor hc) ss) \<and>
    outputs l = restored_from output_bytes restored_output
      (13 + length (concat (map turnout_record ts)) + length (concat (map sensor_bytes ss))) os"
proof -
  let ?d = "\<lparr>store_id = EESTORE_ID, nTurnouts = of_nat (length ts), nSensors = of_nat (length ss), nOutputs = of_nat (length os)\<rparr>"
  let ?l0 = "reset (read_header (power_on m d))"
  have im': "holds (eeprom (power_on m d)) 0 (ee_image ts ss os)" using im by (simp add: power_on_def)
  note rd = read_image [OF im']
  have l0: "eeAddress ?l0 = 13" "eeprom ?l0 = m" "turnouts ?l0 = []" "sensors ?l0 = []" "outputs ?l0 = []" "data ?l0 = ?d"
    unfolding rd(1) by (simp_all add: reset_def power_on_def)
  obtain l1 where l1: "load_loop (\<lambda>_ l. Some (loadTurnout l)) (length ts) ?l0 = Some l1" "other_parts ?l0 l1"
      "eeAddress l1 = 13 + length (concat (map turnout_record ts))" "turnouts l1 = restored_from turnout_record restored_turnout 13 ts"
    using ts.load_all [of ?l0 ts] rd(2) ok unfolding l0 fold_snoc by (auto simp: storable_def power_on_def)
  have t: "Turnouts.load ?l0 = l1" using l1(1) ok by (simp add: Turnouts.load_def l0 length_u16 storable_def load_loop_total)
  have p1: "eeprom l1 = m" "data l1 = ?d" "sensors l1 = []" "outputs l1 = []" using l1(2) l0 by (simp_all add: other_parts_def)
  obtain l2 where l2: "load_loop (\<lambda>i l. Some (load_sensor (\<lambda>_. True) hc i l)) (length ss) l1 = Some l2" "keeps_others l1 l2"
      "eeAddress l2 = eeAddress l1 + length (concat (map sensor_bytes ss))" "sensors l2 = rev (map (restored_sensor hc) ss)"
    using ss.load_all [of l1 ss hc] rd(3) ok
    unfolding p1 l1(3) fold_cons restored_from_const by (auto simp: storable_def power_on_def)
  have s: "Sensors.load (\<lambda>_. True) hc l1 = Some l2" using l2(1) ok by (simp add: Sensors.load_def p1 length_u16 storable_def)
  have p2: "eeprom l2 = m" "data l2 = ?d" "turnouts l2 = turnouts l1" "outputs l2 = []" using l2(2) p1 by (simp_all add: keeps_others_def)
  obtain l3 where l3: "load_loop (load_output (\<lambda>_. True)) (length os) l2 = Some l3" "keeps_rest l2 l3"
      "outputs l3 = restored_from output_bytes restored_output (eeAddress l2) os"
    using os.load_all [of l2 os] rd(4) ok
    unfolding p2 l2(3) l1(3) fold_snoc by (auto simp: storable_def power_on_def)
  have "Outputs.load (\<lambda>_. True) l2 = Some l3" using l3(1) ok by (simp add: Outputs.load_def p2 length_u16 storable_def)
  then show ?thesis
    using t s l3(2,3) p2 l2(3,4) l1(3,4) by (simp add: init_def keeps_rest_def)
qed

section \<open>Moves after a start\<close>

text \<open>
  After a start every turnout and every output knows the address of its record. What the records say
  of a turnout agrees with the turnout, except for the state of a DCC turnout and the hidden flag, and
  what they say of an output agrees up to the state of an output that starts with its default.
\<close>

definition same_turnout :: "turnout \<Rightarrow> turnout \<Rightarrow> bool" where
  "same_turnout x t \<longleftrightarrow> t_id x = t_id t \<and> kind x = kind t \<and> (turnoutType (kind x) \<noteq> TURNOUT_DCC \<longrightarrow> closed x = closed t)"

definition same_output :: "Output \<Rightarrow> Output \<Rightarrow> bool" where
  "same_output x out \<longleftrightarrow> o_id x = o_id out \<and> o_pin x = o_pin out \<and> oStatus x AND 0x7F = oStatus out AND 0x7F \<and>
     start_state (oStatus x) = start_state (oStatus out)"

definition addresses :: "('a \<Rightarrow> byte list) \<Rightarrow> nat \<Rightarrow> 'a list \<Rightarrow> nat list" where
  "addresses b a xs = restored_from b (\<lambda>a _. a) a xs"

definition output_base :: "turnout list \<Rightarrow> sensor list \<Rightarrow> nat" where
  "output_base ts ss = 13 + length (concat (map turnout_record ts)) + length (concat (map sensor_bytes ss))"

definition synced :: "sensor list \<Rightarrow> Output list \<Rightarrow> turnout list \<Rightarrow> layout \<Rightarrow> bool" where
  "synced ss os ts l \<longleftrightarrow> holds (eeprom l) 0 (ee_image ts ss os) \<and> storable ts ss os \<and>
     list_all2 same_turnout ts (turnouts l) \<and> map eepromAddress (turnouts l) = addresses turnout_record 13 ts \<and>
     nTurnouts (data l) = of_nat (length ts) \<and>
     list_all2 same_output os (outputs l) \<and> map num (outputs l) = addresses output_bytes (output_base ts ss) os \<and>
     nOutputs (data l) = of_nat (length os)"

lemma addresses_simps [simp]:
  "addresses b a [] = []" "addresses b a (t # ts) = a # addresses b (a + length (b t)) ts"
  by (simp_all add: addresses_def)

lemma addresses_append: "addresses b a (xs @ ys) = addresses b a xs @ addresses b (a + length (concat (map b xs))) ys"
  by (induction xs arbitrary: a) (simp_all add: add.assoc)

lemma length_addresses [simp]: "length (addresses b a ts) = length ts"
  by (induction ts arbitrary: a) simp_all

text \<open>The status byte of an output: the flags are its low bits, the state is bit 7.\<close>

lemma set_active_same [simp]:
  "o_id (set_active v out) = o_id out" "o_pin (set_active v out) = o_pin out" "num (set_active v out) = num out"
  by (simp_all add: set_active_def)

lemma set_active_bits:
  "oStatus (set_active v out) AND 0x7F = oStatus out AND 0x7F" "bit (oStatus (set_active v out)) 7 \<longleftrightarrow> v"
  "bit (oStatus (set_active v out)) 1 \<longleftrightarrow> bit (oStatus out) 1" "bit (oStatus (set_active v out)) 2 \<longleftrightarrow> bit (oStatus out) 2"
proof -
  have b: "bit (0x7F :: byte) n \<longleftrightarrow> n < 7" "bit (0x80 :: byte) n \<longleftrightarrow> n = 7" if "n < 8" for n
    using that by (auto simp: less_Suc_eq numeral_eq_Suc bit_numeral_rec)
  show "oStatus (set_active v out) AND 0x7F = oStatus out AND 0x7F"
    by (cases v) (simp_all add: set_active_def bit.conj_disj_distrib2 and.assoc)
  show "bit (oStatus (set_active v out)) 7 \<longleftrightarrow> v" "bit (oStatus (set_active v out)) 1 \<longleftrightarrow> bit (oStatus out) 1"
    "bit (oStatus (set_active v out)) 2 \<longleftrightarrow> bit (oStatus out) 2"
    using b [of 1] b [of 2] b [of 7] by (simp_all add: set_active_def bit_and_iff bit_or_iff)
qed

lemma restored_output_parts:
  "o_id (restored_output a x) = o_id x" "o_pin (restored_output a x) = o_pin x" "num (restored_output a x) = a"
  "oStatus (restored_output a x) AND 0x7F = oStatus x AND 0x7F" "bit (oStatus (restored_output a x)) 7 = start_state (oStatus x)"
  "start_state (oStatus (restored_output a x)) = start_state (oStatus x)"
  using set_active_bits [of _ x] by (simp_all add: restored_output_def) (simp add: start_state_def)

lemma restored_synced:
  assumes "holds (eeprom l) 0 (ee_image ts ss os)" "storable ts ss os" "turnouts l = restored_from turnout_record restored_turnout 13 ts"
    and "nTurnouts (data l) = of_nat (length ts)" "outputs l = restored_from output_bytes restored_output (output_base ts ss) os"
    and "nOutputs (data l) = of_nat (length os)"
  shows "synced ss os ts l"
proof -
  have "list_all2 same_turnout ts (restored_from turnout_record restored_turnout a ts) \<and>
      map eepromAddress (restored_from turnout_record restored_turnout a ts) = addresses turnout_record a ts" for a
    by (induction ts arbitrary: a) (simp_all add: same_turnout_def restored_turnout_def)
  moreover have "list_all2 same_output os (restored_from output_bytes restored_output a os) \<and>
      map num (restored_from output_bytes restored_output a os) = addresses output_bytes a os" for a
    by (induction os arbitrary: a) (simp_all add: restored_output_parts same_output_def)
  ultimately show ?thesis using assms by (simp add: synced_def)
qed

lemma holds_replace:
  assumes "holds m a (xs @ b # ys)"
  shows "holds (ee_put (a + length xs) [b'] m) a (xs @ b' # ys)"
proof -
  from assms have "holds m a xs" "holds m (Suc (a + length xs)) ys" by (simp_all add: holds_append holds_Cons)
  then show ?thesis
    by (auto simp: holds_append holds_Cons holds_put_other) (simp add: ee_put_def)
qed

lemma find_split: "find P xs = Some x \<Longrightarrow> \<exists>as bs. xs = as @ x # bs \<and> P x \<and> (\<forall>y \<in> set as. \<not> P y)"
proof (induction xs)
  case (Cons y xs)
  then show ?case
  proof (cases "P y")
    case False
    with Cons obtain as bs where "xs = as @ x # bs" "P x" "\<forall>y \<in> set as. \<not> P y" by auto
    with False show ?thesis by (intro exI [of _ "y # as"] exI [of _ bs]) auto
  qed (intro exI [of _ "[]"] exI [of _ xs], auto)
qed simp

lemma replace_first_split: "P x \<Longrightarrow> \<forall>y \<in> set as. \<not> P y \<Longrightarrow> replace_first P f (as @ x # bs) = as @ f x # bs"
  by (induction as) auto

lemma setClosed_outputs: "outputs (snd (setClosed r i c l)) = outputs l"
  by (auto simp: setClosed_def setClosedStateOnly_def update_def Let_def split: option.split)

text \<open>A move rewrites the flags of the turnout's record, nothing else.\<close>

lemma setClosed_synced:
  assumes sy: "synced ss os ts l" and g: "Turnouts.get i l = Some t"
  shows "\<exists>ts'. synced ss os ts' (snd (setClosed r i c l))"
proof -
  note e = setClosed_effect [OF g, of r c]
  from find_split [OF g [unfolded Turnouts.get_def]]
  obtain as bs where sp: "turnouts l = as @ t # bs" "t_id t = i" "\<forall>y \<in> set as. t_id y \<noteq> i" by blast
  from sy sp(1) obtain xs x ys where x: "ts = xs @ x # ys" "list_all2 same_turnout xs as" "same_turnout x t" "list_all2 same_turnout ys bs"
    unfolding synced_def by (auto simp: list_all2_append2 list_all2_Cons2)
  let ?x = "x\<lparr>closed := c, hidden := hidden t\<rparr>" and ?t = "t\<lparr>closed := c\<rparr>"
  have len: "length xs = length as" using x(2) by (rule list_all2_lengthD)
  have "map eepromAddress (turnouts l) = addresses turnout_record 13 ts" using sy by (simp add: synced_def)
  then have a: "eepromAddress t = 13 + length (concat (map turnout_record xs))"
    unfolding sp(1) x(1) addresses_append using len by (auto simp: append_eq_append_conv)
  have n: "nTurnouts (data l) > 0"
  proof -
    have "unat (nTurnouts (data l)) = length ts" using sy by (simp add: synced_def storable_def length_u16)
    then show ?thesis using x(1) by (auto simp: word_greater_zero_iff)
  qed
  have fl: "flags ?t = flags ?x" using x(3) by (simp add: flags_def same_turnout_def)
  let ?pre = "EESTORE_ID @ le16 (of_nat (length ts)) @ le16 (of_nat (length ss)) @ le16 (of_nat (length os)) @ concat (map turnout_record xs)"
  let ?post = "le16 (t_id x) @ kind_bytes (kind x) @ concat (map turnout_record ys) @ concat (map sensor_bytes ss) @ concat (map output_bytes os)"
  have im: "ee_image ts ss os = ?pre @ flags x # ?post" "ee_image (xs @ ?x # ys) ss os = ?pre @ flags ?x # ?post"
    by (simp_all add: ee_image_def x(1) turnout_record_def turnout_bytes_def)
  have "holds (eeprom l) 0 (?pre @ flags x # ?post)" using sy im(1) by (simp add: synced_def)
  from holds_replace [OF this, of "flags ?x"] have h: "holds (eeprom (snd (setClosed r i c l))) 0 (ee_image (xs @ ?x # ys) ss os)"
    unfolding im(2) e(3) using n a fl by simp
  have "storable (xs @ ?x # ys) ss os" using sy x(1) by (simp add: synced_def storable_def)
  moreover have "turnouts (snd (setClosed r i c l)) = as @ ?t # bs"
    unfolding e(2) sp(1) using sp(2,3) by (simp add: replace_first_split)
  moreover have "same_turnout ?x ?t" using x(3) by (simp add: same_turnout_def)
  moreover have "addresses turnout_record 13 (xs @ ?x # ys) = addresses turnout_record 13 ts"
    unfolding x(1) addresses_append by (simp add: turnout_record_def)
  moreover have "output_base (xs @ ?x # ys) ss = output_base ts ss" by (simp add: output_base_def x(1) turnout_record_def)
  moreover have "outputs (snd (setClosed r i c l)) = outputs l" by (rule setClosed_outputs)
  ultimately have "synced ss os (xs @ ?x # ys) (snd (setClosed r i c l))"
    using sy h x e(4) sp(1) by (simp add: synced_def list_all2_appendI)
  then show ?thesis by blast
qed

lemma move_synced: "synced ss os ts l \<Longrightarrow> \<exists>ts'. synced ss os ts' (snd (setClosed r i c l))"
proof (cases "Turnouts.get i l")
  case None
  assume "synced ss os ts l"
  then show ?thesis using None by (auto simp: setClosed_def)
qed (rule setClosed_synced)

text \<open>Switching an output rewrites the status byte of its record, nothing else.\<close>

lemma activate_synced:
  assumes sy: "synced ss os ts l" and ac: "activate n v l = Some l'"
  shows "\<exists>os'. synced ss os' ts l'"
proof -
  let ?f = "set_active (v > 0)"
  have id: "o_id (?f out) = o_id out" "num (?f out) = num out" "o_pin (?f out) = o_pin out" for out by simp_all
  have g: "Outputs.get n (change n ?f l) = map_option ?f (Outputs.get n l)"
    unfolding Outputs.get_def change_def by (simp add: find_replace_first id)
  then obtain out where out: "Outputs.get n l = Some out" using ac by (cases "Outputs.get n l") (auto simp: activate_def Let_def)
  from find_split [OF out [unfolded Outputs.get_def]]
  obtain as bs where sp: "outputs l = as @ out # bs" "o_id out = n" "\<forall>y \<in> set as. o_id y \<noteq> n" by blast
  from sy sp(1) obtain xs x ys where x: "os = xs @ x # ys" "list_all2 same_output xs as" "same_output x out" "list_all2 same_output ys bs"
    unfolding synced_def by (auto simp: list_all2_append2 list_all2_Cons2)
  let ?x = "x\<lparr>oStatus := oStatus (?f out)\<rparr>"
  have len: "length xs = length as" using x(2) by (rule list_all2_lengthD)
  have "map num (outputs l) = addresses output_bytes (output_base ts ss) os" using sy by (simp add: synced_def)
  then have a: "num out = output_base ts ss + length (concat (map output_bytes xs))"
    unfolding sp(1) x(1) addresses_append using len by (auto simp: append_eq_append_conv)
  have "unat (nOutputs (data l)) = length os" using sy by (simp add: synced_def storable_def length_u16)
  then have k: "nOutputs (data l) > 0" using x(1) by (auto simp: word_greater_zero_iff)
  have l': "l' = (emit_io (Write (o_pin out) (pin_level (?f out))) (change n ?f l))\<lparr>eeprom := ee_put (num out) [oStatus (?f out)] (eeprom l)\<rparr>"
    using ac g out k a id by (auto simp: activate_def Let_def output_base_def) (auto simp: change_def emit_io_def)
  let ?pre = "EESTORE_ID @ le16 (of_nat (length ts)) @ le16 (of_nat (length ss)) @ le16 (of_nat (length os)) @
    concat (map turnout_record ts) @ concat (map sensor_bytes ss) @ concat (map output_bytes xs)"
  let ?post = "le16 (o_id x) @ le16 (o_pin x) @ concat (map output_bytes ys)"
  have im: "ee_image ts ss os = ?pre @ oStatus x # ?post" "ee_image ts ss (xs @ ?x # ys) = ?pre @ oStatus (?f out) # ?post"
    by (simp_all add: ee_image_def x(1) output_bytes_def)
  have "holds (eeprom l) 0 (?pre @ oStatus x # ?post)" using sy im(1) by (simp add: synced_def)
  from holds_replace [OF this, of "oStatus (?f out)"] have h: "holds (eeprom l') 0 (ee_image ts ss (xs @ ?x # ys))"
    unfolding im(2) l' using a by (simp add: output_base_def add.assoc)
  have "storable ts ss (xs @ ?x # ys)" using sy x(1) by (simp add: synced_def storable_def)
  moreover have "outputs l' = as @ ?f out # bs"
    unfolding l' change_def using sp by (simp add: replace_first_split emit_io_def)
  moreover have "same_output ?x (?f out)" using x(3) id by (simp add: same_output_def)
  moreover have "addresses output_bytes (output_base ts ss) (xs @ ?x # ys) = addresses output_bytes (output_base ts ss) os"
    unfolding x(1) addresses_append by (simp add: output_bytes_def)
  moreover have "turnouts l' = turnouts l" "data l' = data l" by (simp_all add: l' change_def emit_io_def)
  ultimately have "synced ss (xs @ ?x # ys) ts l'"
    using sy h x sp(1) id(2) by (simp add: synced_def list_all2_appendI)
  then show ?thesis by blast
qed

text \<open>
  Commands that switch: a turnout to closed or thrown, an output on or off. A command for an object that
  does not exist changes nothing, as the parser checks before it calls \<^verbatim>\<open>activate\<close>.
\<close>

datatype switching = Move_turnout u16 bool | Switch_output u16 u16

fun switch :: "bool \<Rightarrow> switching \<Rightarrow> layout \<Rightarrow> layout" where
  "switch r (Move_turnout i c) l = snd (setClosed r i c l)"
| "switch r (Switch_output n v) l = (case activate n v l of Some l \<Rightarrow> l | None \<Rightarrow> l)"

definition moves :: "bool \<Rightarrow> switching list \<Rightarrow> layout \<Rightarrow> layout" where
  "moves r ms l = fold (switch r) ms l"

lemma switch_synced: "synced ss os ts l \<Longrightarrow> \<exists>os' ts'. synced ss os' ts' (switch r m l)"
proof (cases m)
  case (Move_turnout i c)
  assume "synced ss os ts l"
  with Move_turnout show ?thesis using move_synced [of ss os ts l r i c] by auto
next
  case (Switch_output n v)
  assume "synced ss os ts l"
  with Switch_output show ?thesis using activate_synced [of ss os ts l n v] by (cases "activate n v l") auto
qed

lemma moves_synced: "synced ss os ts l \<Longrightarrow> \<exists>os' ts'. synced ss os' ts' (moves r ms l)"
proof (induction ms arbitrary: os ts l)
  case (Cons m ms)
  from switch_synced [OF Cons.prems] obtain os' ts' where "synced ss os' ts' (switch r m l)" by blast
  from Cons.IH [OF this] show ?case by (simp add: moves_def)
qed (auto simp: moves_def)

section \<open>Properties\<close>

text \<open>
  C33: what is stored comes back. A layout without LCN turnouts, in which no two objects of a class
  share their number and the pins are valid, is stored and the station started again: the
  start succeeds and loads the turnouts in their order, each with the address of its record, the
  outputs in their order and in the state they start in, and the sensors in reverse order. DCC
  turnouts come back thrown and no turnout comes back hidden.
\<close>

theorem store_reload:
  assumes "storable (turnouts l) (sensors l) (outputs l)" and "store_id (data l) = EESTORE_ID"
  shows "\<exists>l'. init (\<lambda>_. True) (\<lambda>_. True) hc (power_on (eeprom (store l)) d) = Some l' \<and>
    turnouts l' = restored_from turnout_record restored_turnout 13 (turnouts l) \<and>
    sensors l' = rev (map (restored_sensor hc) (sensors l)) \<and>
    outputs l' = restored_from output_bytes restored_output
      (13 + length (concat (map turnout_record (turnouts l))) + length (concat (map sensor_bytes (sensors l)))) (outputs l)"
proof -
  have "list_all (\<lambda>t. kind t \<noteq> LCN) (turnouts l)" using assms(1) by (simp add: storable_def)
  from init_image [OF store_image [OF this assms(2)] assms(1), of hc d] show ?thesis by blast
qed

definition sample_layout :: "dcc \<Rightarrow> layout" where
  "sample_layout d = (power_on (\<lambda>_. 0xFF) d)\<lparr>
     data := \<lparr>store_id = EESTORE_ID, nTurnouts = 0, nSensors = 0, nOutputs = 0\<rparr>,
     turnouts := [\<lparr>t_id = 1, closed = True, hidden = False, kind = Servo 100 205 410 2, eepromAddress = 0\<rparr>,
                  \<lparr>t_id = 2, closed = True, hidden = False, kind = DCC 17 3, eepromAddress = 0\<rparr>,
                  \<lparr>t_id = 3, closed = False, hidden = True, kind = Vpin 164, eepromAddress = 0\<rparr>],
     sensors := [\<lparr>snum = 7, pin = 40, pullUp = 1, active = True, inputState = True, latchDelay = 1, pollingRequired = True\<rparr>],
     outputs := [\<lparr>oStatus = 0x81, o_id = 5, o_pin = 41, num = 0\<rparr>]\<rparr>"

lemma sample_storable:
  "storable (turnouts (sample_layout d)) (sensors (sample_layout d)) (outputs (sample_layout d))"
  "store_id (data (sample_layout d)) = EESTORE_ID"
  by (simp_all add: sample_layout_def storable_def valid_pin_def VPIN_MAX_def)

theorem store_reload_witness:
  "\<exists>l'. init (\<lambda>_. True) (\<lambda>_. True) (\<lambda>_. False) (power_on (eeprom (store (sample_layout (dcc_init boot_queues two_locos)))) (dcc_init boot_queues two_locos)) = Some l' \<and>
     map t_id (turnouts l') = [1, 2, 3] \<and> map closed (turnouts l') = [True, False, False] \<and> map eepromAddress (turnouts l') = [13, 22, 27] \<and>
     map num (outputs l') = [37]"
  using store_reload [OF sample_storable [of "dcc_init boot_queues two_locos"], of "\<lambda>_. False" "dcc_init boot_queues two_locos"]
  by (auto simp: sample_layout_def restored_turnout_def restored_output_def turnout_record_def sensor_bytes_def turnout_types)

text \<open>
  C34: switched objects keep their state across restarts. Store a layout without LCN turnouts, start the
  station from it, and move turnouts and switch outputs in any order: although a move writes a single byte, the
  next start succeeds, and every servo and pin turnout and every output is as these commands left it. A DCC turnout
  comes back thrown, and an output that asks for its default (bit 1 of its flags) comes back with that.
\<close>

theorem moves_survive:
  assumes "storable (turnouts l) (sensors l) (outputs l)" and "store_id (data l) = EESTORE_ID"
    and "init (\<lambda>_. True) (\<lambda>_. True) hc (power_on (eeprom (store l)) d) = Some l'"
  shows "\<exists>b. init (\<lambda>_. True) (\<lambda>_. True) hc (power_on (eeprom (moves r ms l')) d') = Some b \<and>
    list_all2 (\<lambda>t t'. t_id t' = t_id t \<and> kind t' = kind t \<and> closed t' = (turnoutType (kind t) \<noteq> TURNOUT_DCC \<and> closed t))
      (turnouts (moves r ms l')) (turnouts b) \<and>
    list_all2 (\<lambda>out out'. o_id out' = o_id out \<and> o_pin out' = o_pin out \<and> oStatus out' AND 0x7F = oStatus out AND 0x7F \<and>
        bit (oStatus out') 7 = (if bit (oStatus out) 1 then bit (oStatus out) 2 else bit (oStatus out) 7))
      (outputs (moves r ms l')) (outputs b)"
proof -
  have "list_all (\<lambda>t. kind t \<noteq> LCN) (turnouts l)" using assms(1) by (simp add: storable_def)
  note im = store_image [OF this assms(2)]
  from init_image [OF im assms(1), of hc d] assms(3) have "synced (sensors l) (outputs l) (turnouts l) l'"
    by (intro restored_synced) (use im assms(1) in \<open>auto simp: output_base_def\<close>)
  from moves_synced [OF this] obtain os ts where sy: "synced (sensors l) os ts (moves r ms l')" by blast
  then have h: "holds (eeprom (moves r ms l')) 0 (ee_image ts (sensors l) os)" "storable ts (sensors l) os"
    and all: "list_all2 same_turnout ts (turnouts (moves r ms l'))" "list_all2 same_output os (outputs (moves r ms l'))"
    by (simp_all add: synced_def)
  have "list_all2 (\<lambda>t t'. t_id t' = t_id t \<and> kind t' = kind t \<and> closed t' = (turnoutType (kind t) \<noteq> TURNOUT_DCC \<and> closed t))
      us (restored_from turnout_record restored_turnout a ts)" if "list_all2 same_turnout ts us" for a us
    using that by (induction ts us arbitrary: a rule: list_all2_induct) (auto simp: same_turnout_def restored_turnout_def)
  moreover have "list_all2 (\<lambda>out out'. o_id out' = o_id out \<and> o_pin out' = o_pin out \<and> oStatus out' AND 0x7F = oStatus out AND 0x7F \<and>
        bit (oStatus out') 7 = start_state (oStatus out)) us (restored_from output_bytes restored_output a os)"
    if "list_all2 same_output os us" for a us
    using that by (induction os us arbitrary: a rule: list_all2_induct) (auto simp: same_output_def restored_output_parts)
  ultimately show ?thesis using all init_image [OF h, of hc d'] unfolding start_state_def by auto
qed

theorem moves_survive_witness:
  "let d = dcc_init boot_queues two_locos; hc = (\<lambda>_. False); ms = [Move_turnout 1 False, Switch_output 5 0, Move_turnout 3 True]
   in \<exists>l' b. init (\<lambda>_. True) (\<lambda>_. True) hc (power_on (eeprom (store (sample_layout d))) d) = Some l' \<and>
      init (\<lambda>_. True) (\<lambda>_. True) hc (power_on (eeprom (moves False ms l')) d) = Some b \<and>
      length (turnouts b) = length (turnouts (moves False ms l')) \<and> length (outputs b) = length (outputs (moves False ms l'))"
proof -
  let ?d = "dcc_init boot_queues two_locos" and ?hc = "\<lambda>_. False" and ?ms = "[Move_turnout 1 False, Switch_output 5 0, Move_turnout 3 True]"
  have "list_all (\<lambda>t. kind t \<noteq> LCN) (turnouts (sample_layout ?d))" using sample_storable [of ?d] by (simp add: storable_def)
  from init_image [OF store_image [OF this sample_storable(2)] sample_storable(1), of ?hc ?d]
  obtain l' where l': "init (\<lambda>_. True) (\<lambda>_. True) ?hc (power_on (eeprom (store (sample_layout ?d))) ?d) = Some l'" by blast
  from moves_survive [OF sample_storable l', of False ?ms ?d]
  obtain b where b: "init (\<lambda>_. True) (\<lambda>_. True) ?hc (power_on (eeprom (moves False ?ms l')) ?d) = Some b"
      "list_all2 (\<lambda>t t'. t_id t' = t_id t \<and> kind t' = kind t \<and> closed t' = (turnoutType (kind t) \<noteq> TURNOUT_DCC \<and> closed t))
        (turnouts (moves False ?ms l')) (turnouts b)"
      "list_all2 (\<lambda>out out'. o_id out' = o_id out \<and> o_pin out' = o_pin out \<and> oStatus out' AND 0x7F = oStatus out AND 0x7F \<and>
        bit (oStatus out') 7 = (if bit (oStatus out) 1 then bit (oStatus out) 2 else bit (oStatus out) 7))
        (outputs (moves False ?ms l')) (outputs b)"
    by blast
  from l' b(1) list_all2_lengthD [OF b(2)] list_all2_lengthD [OF b(3)] show ?thesis unfolding Let_def by metis
qed

text \<open>
  An LCN turnout spoils the store. It is counted but has no record, so the next start reads one record
  too many: with one LCN turnout and one sensor, the sensor's record is loaded as a turnout that
  never existed.
\<close>

theorem lcn_miscounted:
  fixes m :: "nat \<Rightarrow> byte" and d :: dcc
  defines "l \<equiv> (power_on m d)\<lparr>data := \<lparr>store_id = EESTORE_ID, nTurnouts = 0, nSensors = 0, nOutputs = 0\<rparr>,
     turnouts := [\<lparr>t_id = 5, closed = True, hidden = False, kind = LCN, eepromAddress = 0\<rparr>],
     sensors := [\<lparr>snum = 24, pin = 30, pullUp = 1, active = False, inputState = False, latchDelay = 1, pollingRequired = True\<rparr>]\<rparr>"
  shows "turnouts (Turnouts.load (reset (read_header (power_on (eeprom (store l)) d)))) =
    [\<lparr>t_id = 7680, closed = False, hidden = False, kind = Vpin 256, eepromAddress = 13\<rparr>]"
proof -
  let ?h = "EESTORE_ID @ le16 1 @ le16 1 @ le16 0" and ?s = "sensor_bytes (hd (sensors l))"
  have e: "eeprom (store l) = ee_put 0 ?h (ee_put 13 ?s m)"
    by (simp add: l_def store_def outputs_store_put sensors_store_put turnouts_store_put with_records_def power_on_def reset_def store_bytes_def)
  then have h: "holds (eeprom (store l)) 0 ?h" "holds (eeprom (store l)) 13 ?s"
    using holds_put [of 0 ?h] holds_put_other [of 13 ?s 0 ?h "ee_put 13 ?s m"] by (simp_all add: sensor_bytes_def)
  then have g: "get_store (eeprom (store l)) = \<lparr>store_id = EESTORE_ID, nTurnouts = 1, nSensors = 1, nOutputs = 0\<rparr>"
    using holds_get [of "eeprom (store l)" 0 EESTORE_ID 7] holds_get [of "eeprom (store l)" 7 "le16 1" 2]
      holds_get [of "eeprom (store l)" 9 "le16 1" 2] holds_get [of "eeprom (store l)" 11 "le16 0" 2]
    by (simp add: holds_append get_store_def)
  have s: "?s = [0x18, 0, 30, 0, 1]" by (simp add: l_def sensor_bytes_def le16_def lowByte_def highByte_def)
  have b: "ee_get 13 3 (eeprom (store l)) = [0x18, 0, 30]" "ee_get 16 2 (eeprom (store l)) = [0, 1]"
    using h(2) holds_append [of "eeprom (store l)" 13 "[0x18, 0, 30]" "[0, 1]"] unfolding s by (auto intro: holds_get)
  show ?thesis
    by (simp add: Turnouts.load_def read_header_def g reset_def power_on_def loadTurnout_def b Let_def turnout_types load_vpin_def un16_def)
qed

end
