(* ===== verification/CommandSyntax.thy ===== *)
theory CommandSyntax
  imports WordFacts
begin

text \<open>
  The syntax of commands: the splitting of a command into numbers, \<^verbatim>\<open>DCCEXParser::splitValues\<close> in
  \<^verbatim>\<open>src/DCCEXParser.cpp\<close>, and the hash that stands for keywords in the code,
  \<^verbatim>\<open>src/KeywordHasher.h\<close>.

  A command is the list of its bytes without the terminator. The walk through it keeps the bytes
  behind it in reverse (\<open>pre\<close>) and the bytes ahead (\<open>rest\<close>); a result \<open>None\<close> is a write behind the end
  of the parameter array or a read behind the terminator. Parameters are 16-bit words, read as
  signed numbers where the code compares them.
\<close>

section \<open>Model\<close>

definition MAX_COMMAND_PARAMS :: nat where "MAX_COMMAND_PARAMS = 10"

definition is_digit :: "byte \<Rightarrow> bool" where "is_digit b \<longleftrightarrow> 0x30 \<le> b \<and> b \<le> 0x39"

definition upper :: "byte \<Rightarrow> byte" where
  "upper b = (if 0x61 \<le> b \<and> b \<le> 0x7A then b - 0x20 else b)"

definition is_keychar :: "byte \<Rightarrow> bool" where
  "is_keychar b \<longleftrightarrow> b = 0x5F \<or> 0x41 \<le> b \<and> b \<le> 0x5A"

definition hash_char :: "u16 \<Rightarrow> byte \<Rightarrow> u16" where
  "hash_char w b = (push_bit 5 w + w) XOR ucast b"

text \<open>The compile-time hash, on the characters of a string up to its terminator.\<close>

fun CompiletimeKeywordHasher :: "byte list \<Rightarrow> u16 \<Rightarrow> u16" where
  "CompiletimeKeywordHasher [] running = running"
| "CompiletimeKeywordHasher (b # bs) running =
    CompiletimeKeywordHasher bs
      (if 0x30 \<le> b \<and> b \<le> 0x39 then 10 * running + ucast b - 0x30 else (push_bit 5 running + running) XOR ucast b)"

definition hk :: "string \<Rightarrow> u16" where
  "hk s = CompiletimeKeywordHasher (map of_char s) 0"

text \<open>What a character does to the number being built; \<open>None\<close> ends the parameter.\<close>

definition build_char :: "bool \<Rightarrow> byte \<Rightarrow> u16 \<Rightarrow> u16 option" where
  "build_char usehex hot w =
    (if is_digit hot then Some ((if usehex then 16 else 10) * w + ucast (hot - 0x30))
     else
       (let hot = upper hot
        in if usehex \<and> 0x41 \<le> hot \<and> hot \<le> 0x46 then Some (16 * w + ucast (hot - 0x41 + 10))
           else if is_keychar hot then Some (hash_char w hot) else None))"

datatype split_state = Skip | Sign | Build | Text

fun rank :: "split_state \<Rightarrow> nat" where
  "rank Skip = 2" | "rank Sign = 1" | "rank Build = 0" | "rank Text = 0"

function split_loop ::
  "bool \<Rightarrow> split_state \<Rightarrow> nat \<Rightarrow> u16 \<Rightarrow> bool \<Rightarrow> u16 list \<Rightarrow> byte list \<Rightarrow> byte list \<Rightarrow> (int \<times> u16 list \<times> byte list) option" where
  "split_loop usehex st n w neg p pre rest =
    (if n \<ge> MAX_COMMAND_PARAMS then Some (int n, p, rev pre @ rest)
     else
       (case st of
          Skip \<Rightarrow>
            (case rest of
               [] \<Rightarrow> Some (-1, p, rev pre)
             | hot # more \<Rightarrow>
                 if hot = 0x20 then split_loop usehex Skip n w neg p (hot # pre) more
                 else if hot = 0x3E then Some (int n, p, rev pre @ 0 # more)
                 else split_loop usehex Sign n w neg p pre rest)
        | Sign \<Rightarrow>
            (case rest of
               [] \<Rightarrow> split_loop usehex Build n 0 False p pre []
             | hot # more \<Rightarrow>
                 if hot = 0x22 then
                   (if n + 1 \<ge> MAX_COMMAND_PARAMS then None
                    else split_loop usehex Text (n + 2) w neg (p[n := 0x7777, n + 1 := of_nat (length pre) + 1]) (hot # pre) more)
                 else if hot = 0x2D then split_loop usehex Build n 0 True p (hot # pre) more
                 else split_loop usehex Build n 0 False p pre rest)
        | Build \<Rightarrow>
            (case rest of
               [] \<Rightarrow> split_loop usehex Skip (n + 1) w neg (p[n := (if neg then - w else w)]) pre []
             | hot # more \<Rightarrow>
                 (case build_char usehex hot w of
                    Some w \<Rightarrow> split_loop usehex Build n w neg p (hot # pre) more
                  | None \<Rightarrow> split_loop usehex Skip (n + 1) w neg (p[n := (if neg then - w else w)]) pre rest))
        | Text \<Rightarrow>
            (case rest of
               [] \<Rightarrow> Some (-1, p, rev pre)
             | hot # more \<Rightarrow>
                 if hot = 0x22 then split_loop usehex Skip n w neg p (0 # pre) more
                 else split_loop usehex Text n w neg p (hot # pre) more)))"
  by pat_completeness auto
termination
  by (relation "measures [\<lambda>(_, _, n, _). MAX_COMMAND_PARAMS - n, \<lambda>(_, _, _, _, _, _, _, rest). length rest, \<lambda>(_, st, _). rank st]") auto

declare split_loop.simps [simp del]

definition splitValues :: "byte list \<Rightarrow> bool \<Rightarrow> (int \<times> u16 list \<times> byte list) option" where
  "splitValues cmd usehex =
    (case cmd of
       [] \<Rightarrow> None
     | opcode # rest \<Rightarrow> split_loop usehex Skip 0 0 False (replicate MAX_COMMAND_PARAMS 0) [opcode] rest)"

text \<open>The values the code asserts at compile time.\<close>

lemma keyword_values: "sint (hk ''MAIN'') = 11339" "sint (hk ''SLOW'') = -17209" "sint (hk ''SPEED28'') = -17064" "sint (hk ''SPEED128'') = 25816"
  by (simp_all add: hk_def)

section \<open>Building a parameter\<close>

fun build :: "bool \<Rightarrow> byte list \<Rightarrow> u16 \<Rightarrow> u16 option" where
  "build h [] w = Some w"
| "build h (b # bs) w = (case build_char h b w of None \<Rightarrow> None | Some w \<Rightarrow> build h bs w)"

lemma build_append: "build h (xs @ ys) w = (case build h xs w of None \<Rightarrow> None | Some w \<Rightarrow> build h ys w)"
  by (induction xs arbitrary: w) (auto split: option.split)

lemma build_char_None: "build_char h b w = None \<longleftrightarrow> build_char h b v = None"
  by (simp add: build_char_def Let_def)

lemma build_char_punctuation: "build_char h b w \<noteq> None \<Longrightarrow> b \<noteq> 0x20 \<and> b \<noteq> 0x3E \<and> b \<noteq> 0x22 \<and> b \<noteq> 0x2D"
  by (auto simp: build_char_def is_digit_def is_keychar_def upper_def Let_def)

definition ends_param :: "byte list \<Rightarrow> bool" where
  "ends_param rest \<longleftrightarrow> rest = [] \<or> hd rest = 0x20 \<or> hd rest = 0x3E"

lemma split_build:
  assumes "build h bs w = Some v" "ends_param rest" "n < MAX_COMMAND_PARAMS"
  shows "split_loop h Build n w neg p pre (bs @ rest) =
    split_loop h Skip (n + 1) v neg (p[n := (if neg then - v else v)]) (rev bs @ pre) rest"
  using assms
proof (induction bs arbitrary: w pre)
  case Nil
  show ?case
  proof (cases rest)
    case Nil': Nil
    then show ?thesis using Nil by (subst split_loop.simps) simp
  next
    case (Cons b more)
    then have "build_char h b w = None" using Nil.prems(2) build_char_punctuation [of h b w]
      by (cases "build_char h b w") (auto simp: ends_param_def)
    then show ?thesis using Nil Cons by (subst split_loop.simps) simp
  qed
next
  case (Cons b bs)
  then obtain u where "build_char h b w = Some u" "build h bs u = Some v" by (auto split: option.splits)
  then show ?case using Cons by (subst split_loop.simps) simp
qed

text \<open>A parameter: an optional minus and characters that build a number.\<close>

definition token :: "bool \<Rightarrow> byte list \<Rightarrow> u16 \<Rightarrow> bool" where
  "token h tk v \<longleftrightarrow> (tk \<noteq> [] \<and> build h tk 0 = Some v) \<or> (\<exists>bs u. tk = 0x2D # bs \<and> build h bs 0 = Some u \<and> v = - u)"

lemma split_token:
  assumes "token h tk v" "ends_param rest" "n < MAX_COMMAND_PARAMS"
  shows "\<exists>w neg'. split_loop h Skip n w0 neg p pre (0x20 # tk @ rest) =
    split_loop h Skip (n + 1) w neg' (p[n := v]) (rev (0x20 # tk) @ pre) rest"
proof -
  obtain b bs where tk: "tk = b # bs" using assms(1) by (auto simp: token_def neq_Nil_conv)
  have b: "b \<noteq> 0x20" "b \<noteq> 0x3E" "b \<noteq> 0x22"
    using assms(1) build_char_punctuation [of h b 0] by (auto simp: token_def tk split: option.splits)
  have start: "split_loop h Skip n w0 neg p pre (0x20 # tk @ rest) = split_loop h Sign n w0 neg p (0x20 # pre) (tk @ rest)"
    using assms(3) b by (subst split_loop.simps) (simp add: tk, subst split_loop.simps, simp)
  show ?thesis
  proof (cases "b = 0x2D")
    case True
    then obtain u where u: "build h bs 0 = Some u" "v = - u"
      using assms(1) build_char_punctuation [of h b 0] by (auto simp: token_def tk split: option.splits)
    have "split_loop h Sign n w0 neg p (0x20 # pre) (tk @ rest) = split_loop h Build n 0 True p (b # 0x20 # pre) (bs @ rest)"
      using assms(3) True by (subst split_loop.simps) (simp add: tk)
    then show ?thesis using start split_build [OF u(1) assms(2,3)] u(2) tk by auto
  next
    case False
    then have v: "build h tk 0 = Some v" using assms(1) by (auto simp: token_def tk)
    have "split_loop h Sign n w0 neg p (0x20 # pre) (tk @ rest) = split_loop h Build n 0 False p (0x20 # pre) (tk @ rest)"
      using assms(3) False b by (subst split_loop.simps) (simp add: tk)
    then show ?thesis using start split_build [OF v assms(2,3)] by auto
  qed
qed

lemma split_tokens_rest:
  assumes "list_all2 (token h) tks vs" "n + length tks \<le> MAX_COMMAND_PARAMS" "length p = MAX_COMMAND_PARAMS" "ends_param rest"
  shows "\<exists>w' neg'. split_loop h Skip n w neg p pre (concat (map (\<lambda>tk. 0x20 # tk) tks) @ rest) =
    split_loop h Skip (n + length tks) w' neg' (take n p @ vs @ drop (n + length tks) p) (rev (concat (map (\<lambda>tk. 0x20 # tk) tks)) @ pre) rest"
  using assms
proof (induction tks vs arbitrary: n w neg p pre rule: list_all2_induct)
  case Nil
  then show ?case by auto
next
  case (Cons tk tks v vs)
  let ?rest = "concat (map (\<lambda>tk. 0x20 # tk) tks) @ rest"
  have "ends_param ?rest" using Cons.prems(3) by (cases tks) (simp_all add: ends_param_def)
  from split_token [OF Cons.hyps(1) this, of n w neg p pre] Cons.prems
  obtain w1 neg1 where 1: "split_loop h Skip n w neg p pre (0x20 # tk @ ?rest) =
      split_loop h Skip (n + 1) w1 neg1 (p[n := v]) (rev (0x20 # tk) @ pre) ?rest"
    by auto
  have 2: "take (n + 1) (p[n := v]) = take n p @ [v]"
    using Cons.prems by (simp add: take_Suc_conv_app_nth)
  from Cons.IH [of "n + 1" "p[n := v]" w1 neg1 "rev (0x20 # tk) @ pre"] Cons.prems
  obtain w2 neg2 where "split_loop h Skip (n + 1) w1 neg1 (p[n := v]) (rev (0x20 # tk) @ pre) ?rest =
      split_loop h Skip (n + 1 + length tks) w2 neg2 (take (n + 1) (p[n := v]) @ vs @ drop (n + 1 + length tks) (p[n := v]))
        (rev (concat (map (\<lambda>tk. 0x20 # tk) tks)) @ rev (0x20 # tk) @ pre) rest"
    by auto
  then show ?case using 1 unfolding 2 by (intro exI [of _ w2] exI [of _ neg2]) simp
qed

lemma split_tokens:
  assumes "list_all2 (token h) tks vs" "n + length tks < MAX_COMMAND_PARAMS" "length p = MAX_COMMAND_PARAMS"
  shows "split_loop h Skip n w neg p pre (concat (map (\<lambda>tk. 0x20 # tk) tks) @ [0x3E]) =
    Some (int (n + length tks), take n p @ vs @ drop (n + length tks) p, rev pre @ concat (map (\<lambda>tk. 0x20 # tk) tks) @ [0])"
proof -
  have "ends_param [0x3E]" by (simp add: ends_param_def)
  from split_tokens_rest [OF assms(1) _ assms(3) this, of n w neg pre] assms(2)
  obtain w' neg' where "split_loop h Skip n w neg p pre (concat (map (\<lambda>tk. 0x20 # tk) tks) @ [0x3E]) =
    split_loop h Skip (n + length tks) w' neg' (take n p @ vs @ drop (n + length tks) p) (rev (concat (map (\<lambda>tk. 0x20 # tk) tks)) @ pre) [0x3E]"
    by auto
  also have "\<dots> = Some (int (n + length tks), take n p @ vs @ drop (n + length tks) p, rev pre @ concat (map (\<lambda>tk. 0x20 # tk) tks) @ [0])"
    using assms(2) by (subst split_loop.simps) simp
  finally show ?thesis .
qed

section \<open>Numbers and keywords\<close>

fun decimal :: "nat \<Rightarrow> byte list" where
  "decimal n = (if n < 10 then [0x30 + of_nat n] else decimal (n div 10) @ [0x30 + of_nat (n mod 10)])"

declare decimal.simps [simp del]

lemma build_digit: "d < 10 \<Longrightarrow> build_char False (0x30 + of_nat d) w = Some (10 * w + of_nat d)"
proof -
  assume d: "d < 10"
  then have "d \<in> {0, 1, 2, 3, 4, 5, 6, 7, 8, 9}" by auto
  then show ?thesis by (elim insertE emptyE; simp add: build_char_def is_digit_def)
qed

lemma build_decimal: "build False (decimal n) 0 = Some (of_nat n)"
proof (induction n rule: decimal.induct)
  case (1 n)
  show ?case
  proof (cases "n < 10")
    case True
    then show ?thesis using build_digit [of n 0] by (subst decimal.simps) simp
  next
    case False
    have "of_nat (10 * (n div 10) + n mod 10) = (of_nat n :: u16)" by simp
    then have "10 * of_nat (n div 10) + of_nat (n mod 10) = (of_nat n :: u16)"
      by (simp only: of_nat_mult of_nat_add of_nat_numeral)
    then show ?thesis using 1 [OF False] False build_digit [of "n mod 10" "of_nat (n div 10)"]
      by (subst decimal.simps) (simp add: build_append)
  qed
qed

definition print_int :: "int \<Rightarrow> byte list" where
  "print_int i = (if i < 0 then 0x2D # decimal (nat (- i)) else decimal (nat i))"

lemma decimal_nonempty: "decimal n \<noteq> []"
  by (subst decimal.simps) simp

lemma print_token: "token False (print_int i) (word_of_int i)"
proof (cases "i < 0")
  case True
  have "- of_nat (nat (- i)) = (word_of_int (- int (nat (- i))) :: u16)" by (simp only: of_int_minus of_int_of_nat_eq)
  then have "- of_nat (nat (- i)) = (word_of_int i :: u16)" using True by simp
  with True show ?thesis using build_decimal [of "nat (- i)"] by (auto simp: token_def print_int_def)
next
  case False
  have "of_nat (nat i) = (word_of_int (int (nat i)) :: u16)" by (simp only: of_int_of_nat_eq)
  then have "of_nat (nat i) = (word_of_int i :: u16)" using False by simp
  with False show ?thesis using build_decimal [of "nat i"] decimal_nonempty by (auto simp: token_def print_int_def)
qed

definition key_ok :: "byte \<Rightarrow> bool" where
  "key_ok b \<longleftrightarrow> is_digit b \<or> is_keychar (upper b)"

lemma digit_value: "is_digit b \<Longrightarrow> (ucast (b - 0x30) :: u16) = ucast b - 0x30"
proof -
  assume "is_digit b"
  then have "uint (b - 0x30) = uint b - 0x30"
    by (simp add: is_digit_def word_le_def uint_sub_if_size)
  then show ?thesis by (simp only: ucast_eq of_int_diff of_int_numeral)
qed

lemma build_keyword:
  "list_all key_ok bs \<Longrightarrow> build False bs w = Some (CompiletimeKeywordHasher (map upper bs) w)"
proof (induction bs arbitrary: w)
  case (Cons b bs)
  have up: "upper b = b" if "is_digit b" using that by (simp add: is_digit_def upper_def word_le_def)
  have no: "\<not> is_digit (upper b)" if "is_keychar (upper b)"
    using that by (auto simp: is_keychar_def is_digit_def word_le_def)
  show ?case
  proof (cases "is_digit b")
    case True
    then show ?thesis using Cons up digit_value [of b]
      by (simp add: build_char_def is_digit_def add_diff_eq)
  next
    case False
    then have "is_keychar (upper b)" using Cons.prems by (simp add: key_ok_def)
    then show ?thesis using Cons False no by (auto simp: build_char_def hash_char_def is_digit_def)
  qed
qed simp

lemma keyword_token: "bs \<noteq> [] \<Longrightarrow> list_all key_ok bs \<Longrightarrow> token False bs (CompiletimeKeywordHasher (map upper bs) 0)"
  using build_keyword [of bs 0] by (simp add: token_def)

section \<open>Properties\<close>

text \<open>A parameter as a client writes it: a number or a keyword.\<close>

datatype param = Num int | Key "byte list"

fun param_text :: "param \<Rightarrow> byte list" where
  "param_text (Num i) = print_int i"
| "param_text (Key bs) = bs"

fun param_value :: "param \<Rightarrow> u16" where
  "param_value (Num i) = word_of_int i"
| "param_value (Key bs) = CompiletimeKeywordHasher (map upper bs) 0"

fun param_ok :: "param \<Rightarrow> bool" where
  "param_ok (Num i) \<longleftrightarrow> -32768 \<le> i \<and> i \<le> 32767"
| "param_ok (Key bs) \<longleftrightarrow> bs \<noteq> [] \<and> list_all key_ok bs"

definition command_text :: "byte \<Rightarrow> param list \<Rightarrow> byte list" where
  "command_text opc ps = opc # concat (map (\<lambda>p. 0x20 # param_text p) ps) @ [0x3E]"

lemma split_command:
  assumes "list_all param_ok ps" "length ps < MAX_COMMAND_PARAMS"
  shows "splitValues (command_text opc ps) False =
    Some (int (length ps), map param_value ps @ replicate (MAX_COMMAND_PARAMS - length ps) 0,
      opc # concat (map (\<lambda>p. 0x20 # param_text p) ps) @ [0])"
proof -
  have "list_all2 (token False) (map param_text ps) (map param_value ps)"
    using assms(1)
  proof (induction ps)
    case (Cons p ps)
    then show ?case using print_token keyword_token by (cases p) auto
  qed simp
  from split_tokens [OF this, of 0 "replicate MAX_COMMAND_PARAMS 0" 0 False "[opc]"] assms(2)
  show ?thesis by (simp add: splitValues_def command_text_def comp_def)
qed

text \<open>
  Numbers survive printing and splitting. A command with up to nine parameters, 16-bit numbers as
  \<^verbatim>\<open>printf\<close> prints them or keywords in any case, is split into exactly these parameters; the places
  after them are 0 and the closing bracket becomes the terminator.
\<close>

theorem split_roundtrip:
  assumes "list_all param_ok ps" and "length ps < MAX_COMMAND_PARAMS"
  shows "\<exists>buf. splitValues (command_text opc ps) False =
      Some (int (length ps), map param_value ps @ replicate (MAX_COMMAND_PARAMS - length ps) 0, buf) \<and> last buf = 0 \<and>
    (\<forall>i < length ps. \<forall>k. ps ! i = Num k \<longrightarrow> sint ((map param_value ps @ replicate (MAX_COMMAND_PARAMS - length ps) 0) ! i) = k)"
proof -
  have "sint (param_value (ps ! i)) = k" if "i < length ps" "ps ! i = Num k" for i k
  proof -
    have "-32768 \<le> k \<and> k \<le> 32767" using assms(1) that by (auto simp: list_all_length)
    then show ?thesis using that by (simp add: sint_sbintrunc' signed_take_bit_int_eq_self)
  qed
  then show ?thesis using split_command [OF assms, of opc] by (auto simp: nth_append)
qed

theorem split_roundtrip_witness:
  "\<exists>buf. splitValues (command_text 0x74 [Num 3, Num (-1), Key (map of_char ''speed28'')]) False =
     Some (3, [3, -1, hk ''SPEED28'', 0, 0, 0, 0, 0, 0, 0], buf)"
proof -
  let ?ps = "[Num 3, Num (-1), Key (map of_char ''speed28'')]"
  have ok: "list_all param_ok ?ps" "length ?ps < MAX_COMMAND_PARAMS"
    by (simp_all add: key_ok_def is_digit_def is_keychar_def upper_def MAX_COMMAND_PARAMS_def)
  from split_roundtrip [OF ok, of "0x74"] obtain buf where "splitValues (command_text 0x74 ?ps) False =
      Some (int (length ?ps), map param_value ?ps @ replicate (MAX_COMMAND_PARAMS - length ?ps) 0, buf)"
    by blast
  moreover have "replicate 7 (0 :: u16) = [0, 0, 0, 0, 0, 0, 0]" by (simp add: numeral_eq_Suc)
  then have "map param_value ?ps @ replicate (MAX_COMMAND_PARAMS - length ?ps) 0 = [3, -1, hk ''SPEED28'', 0, 0, 0, 0, 0, 0, 0]"
    by (simp add: hk_def upper_def MAX_COMMAND_PARAMS_def)
  ultimately show ?thesis by simp
qed

text \<open>
  C36: the two keyword hashes agree. The hash that the compiler computes for a keyword in capitals,
  digits and underscores is the value the parser builds from that keyword in a command, in
  capitals or not; this is what the comparisons of the parser with its keywords rely on.
\<close>

theorem keyword_hash_agrees:
  assumes "bs \<noteq> []" and "list_all key_ok bs"
  shows "\<exists>buf. splitValues (opc # 0x20 # bs @ [0x3E]) False =
    Some (1, CompiletimeKeywordHasher (map upper bs) 0 # replicate 9 0, buf)"
  using split_command [of "[Key bs]" opc] assms by (simp add: command_text_def MAX_COMMAND_PARAMS_def numeral_eq_Suc)

theorem keyword_hash_agrees_witness:
  "\<exists>buf. splitValues (0x43 # 0x20 # map of_char ''sPeed128'' @ [0x3E]) False = Some (1, hk ''SPEED128'' # replicate 9 0, buf)"
proof -
  have "map of_char ''sPeed128'' \<noteq> ([] :: byte list)" "list_all key_ok (map of_char ''sPeed128'')"
    by (simp_all add: key_ok_def is_digit_def is_keychar_def upper_def)
  from keyword_hash_agrees [OF this, of "0x43"] show ?thesis by (simp add: hk_def upper_def)
qed

text \<open>
  A quoted text in the last place overruns the parameter array. The walk needs two places for a
  text but makes sure of one only: after nine parameters it writes the tenth and the eleventh
  of an array of ten.
\<close>

theorem split_overrun:
  "splitValues (0x40 # concat (replicate 9 [0x20, 0x31]) @ [0x20, 0x22, 0x41, 0x22, 0x3E]) False = None"
proof -
  have tk: "list_all2 (token False) (replicate 9 [0x31]) (replicate 9 1)"
    by (simp add: list_all2_conv_all_nth token_def build_char_def is_digit_def)
  obtain w neg p pre where "splitValues (0x40 # concat (replicate 9 [0x20, 0x31]) @ [0x20, 0x22, 0x41, 0x22, 0x3E]) False =
      split_loop False Skip 9 w neg p pre [0x20, 0x22, 0x41, 0x22, 0x3E]"
    using split_tokens_rest [OF tk, of 0 "replicate MAX_COMMAND_PARAMS 0" "[0x20, 0x22, 0x41, 0x22, 0x3E]" 0 False "[0x40]"]
    by (auto simp: splitValues_def MAX_COMMAND_PARAMS_def ends_param_def)
  also have "\<dots> = None"
    by (subst split_loop.simps, simp add: MAX_COMMAND_PARAMS_def, subst split_loop.simps, simp add: MAX_COMMAND_PARAMS_def,
      subst split_loop.simps, simp add: MAX_COMMAND_PARAMS_def)
  finally show ?thesis .
qed

end
