(* ===== verification/Sniffer.thy ===== *)
theory Sniffer
  imports Waveform
begin

text \<open>
  The sniffer, \<^verbatim>\<open>src/Sniffer.cpp\<close>: it times the edges of a DCC signal from another command
  station and collects the packets. \<open>processInterrupt\<close> is the capture interrupt: its first part
  tells the half period just ended from its length, its second part (\<open>half_bit\<close>) looks for a
  preamble and counts half bits through the bytes of a packet. A packet that differs from the
  one before goes into the queue that the main loop empties (\<open>fetchPacket\<close>).

  The byte counters of the code are natural numbers here; \<open>sniffer_ok\<close> is the range they keep.
  The lemmas show that a frame as the waveform generator sends it arrives as the packet it
  carries. The LED signals of \<^verbatim>\<open>packeterror\<close> and the capture set-up are hardware access.
\<close>

section \<open>Model\<close>

definition MAXDCCPACKETLEN :: nat where "MAXDCCPACKETLEN = 8"

record sniffer =
  dcc_too_short_limit :: u32
  dcc_one_limit :: u32
  bitfield :: "64 word"
  debugfield :: "64 word"
  diffticks :: u32
  lastticks :: u32
  lastedge :: bool
  currentbyte :: nat
  dccbytes :: "byte list"
  dcclen :: nat
  inpacket :: bool
  halfbitcounter :: nat
  outpacket :: "byte list list"
  prevpacket :: "byte list"
  lastendofpacket :: u32

text \<open>
  The constructor; the object is on the heap, and the members that neither it nor the class initialises have what the
  memory held: \<open>dt\<close>, \<open>lt\<close>, \<open>edge\<close> and \<open>bytes\<close>.
\<close>

definition new_sniffer :: "u32 \<Rightarrow> u32 \<Rightarrow> bool \<Rightarrow> byte list \<Rightarrow> u32 \<Rightarrow> sniffer" where
  "new_sniffer dt lt edge bytes apbFrequency =
    \<lparr>dcc_too_short_limit = apbFrequency div 1000 * 50 div 1000,
     dcc_one_limit = apbFrequency div 1000 * 80 div 1000,
     bitfield = 0, debugfield = 0, diffticks = dt, lastticks = lt, lastedge = edge, currentbyte = 0,
     dccbytes = bytes, dcclen = 0, inpacket = False, halfbitcounter = 0,
     outpacket = [], prevpacket = [], lastendofpacket = 0\<rparr>"

definition sample_sniffer :: sniffer where
  "sample_sniffer = new_sniffer 7 9 True (replicate MAXDCCPACKETLEN 0x55) 80000000"

text \<open>The loop over the eight pairs of half bits; it stops at a broken pair.\<close>

fun halfbits2byte_loop :: "nat list \<Rightarrow> u16 \<Rightarrow> byte \<Rightarrow> bool \<times> byte" where
  "halfbits2byte_loop [] b dccbyte = (True, dccbyte)"
| "halfbits2byte_loop (n # ns) b dccbyte =
    (if b AND 3 = 0 then halfbits2byte_loop ns (drop_bit 2 b) (unset_bit n dccbyte)
     else if b AND 3 = 3 then halfbits2byte_loop ns (drop_bit 2 b) (set_bit n dccbyte)
     else (False, dccbyte))"

definition halfbits2byte :: "u16 \<Rightarrow> byte \<Rightarrow> bool \<times> byte" where
  "halfbits2byte b dccbyte = halfbits2byte_loop [0..<8] b dccbyte"

definition inputActive :: "u32 \<Rightarrow> sniffer \<Rightarrow> bool" where
  "inputActive now s \<longleftrightarrow> now - lastendofpacket s < 100"

definition fetchPacket :: "sniffer \<Rightarrow> byte list \<times> sniffer" where
  "fetchPacket s = (case outpacket s of [] \<Rightarrow> ([], s) | p # ps \<Rightarrow> (p, s\<lparr>outpacket := ps\<rparr>))"

definition end_packet :: "u32 \<Rightarrow> sniffer \<Rightarrow> sniffer" where
  "end_packet now s =
    (let s = s\<lparr>inpacket := False, dcclen := currentbyte s + 1, debugfield := bitfield s\<rparr>;
         s = (if length (outpacket s) > 3 then s\<lparr>outpacket := []\<rparr> else s);
         s = s\<lparr>lastendofpacket := now\<rparr>;
         temppacket = take (dcclen s) (dccbytes s)
     in if temppacket \<noteq> prevpacket s
        then s\<lparr>outpacket := outpacket s @ [temppacket], prevpacket := temppacket\<rparr> else s)"

definition end_byte :: "u32 \<Rightarrow> sniffer \<Rightarrow> sniffer" where
  "end_byte now s =
    (let twohalfbits = bitfield s AND 3
     in if twohalfbits = 1 \<or> twohalfbits = 2 then s\<lparr>inpacket := False\<rparr>
        else
          (let b = ucast (drop_bit 2 (bitfield s AND 0x3FFFF)) :: u16;
               (good, x) = halfbits2byte b (dccbytes s ! currentbyte s);
               s = s\<lparr>dccbytes := (dccbytes s)[currentbyte s := x]\<rparr>
           in if \<not> good then s\<lparr>inpacket := False\<rparr>
              else if twohalfbits = 3 then end_packet now s
              else
                (let s = s\<lparr>halfbitcounter := 18, currentbyte := currentbyte s + 1\<rparr>
                 in if currentbyte s \<ge> MAXDCCPACKETLEN then s\<lparr>inpacket := False\<rparr> else s)))"

definition half_bit :: "u32 \<Rightarrow> bool \<Rightarrow> sniffer \<Rightarrow> sniffer" where
  "half_bit now b s =
    (let s = s\<lparr>bitfield := push_bit 1 (bitfield s) + (if b then 1 else 0)\<rparr>
     in if bitfield s AND 0xFFFFFF = 0xFFFFFC then
          s\<lparr>currentbyte := 0, dcclen := 0, inpacket := True, halfbitcounter := 18\<rparr>
        else if inpacket s then
          (let s = s\<lparr>halfbitcounter := (if halfbitcounter s = 0 then 255 else halfbitcounter s - 1)\<rparr>
           in if halfbitcounter s \<noteq> 0 then s else end_byte now s)
        else s)"

definition processInterrupt :: "u32 \<Rightarrow> u32 \<Rightarrow> bool \<Rightarrow> sniffer \<Rightarrow> sniffer" where
  "processInterrupt now capticks posedge s =
    (let s = s\<lparr>diffticks := capticks - lastticks s\<rparr>
     in if lastedge s \<noteq> posedge then
          (if diffticks s < dcc_too_short_limit s then s
           else half_bit now (diffticks s < dcc_one_limit s) (s\<lparr>lastticks := capticks, lastedge := posedge\<rparr>))
        else s)"

section \<open>Counters in range\<close>

definition sniffer_ok :: "sniffer \<Rightarrow> bool" where
  "sniffer_ok s \<longleftrightarrow> length (dccbytes s) = MAXDCCPACKETLEN \<and>
     (inpacket s \<longrightarrow> currentbyte s < MAXDCCPACKETLEN \<and> 0 < halfbitcounter s \<and> halfbitcounter s \<le> 18) \<and>
     length (outpacket s) \<le> 4"

lemma end_packet_ok: "length (dccbytes s) = MAXDCCPACKETLEN \<Longrightarrow> length (outpacket s) \<le> 4 \<Longrightarrow> sniffer_ok (end_packet now s)"
  by (simp add: end_packet_def sniffer_ok_def Let_def)

lemma end_byte_ok:
  "length (dccbytes s) = MAXDCCPACKETLEN \<Longrightarrow> length (outpacket s) \<le> 4 \<Longrightarrow> currentbyte s < MAXDCCPACKETLEN \<Longrightarrow> sniffer_ok (end_byte now s)"
  using end_packet_ok
  by (auto simp: end_byte_def Let_def sniffer_ok_def split: prod.split)

lemma half_bit_ok: "sniffer_ok s \<Longrightarrow> sniffer_ok (half_bit now b s)"
  using end_byte_ok
  by (auto simp: half_bit_def Let_def sniffer_ok_def MAXDCCPACKETLEN_def)

lemma processInterrupt_ok: "sniffer_ok s \<Longrightarrow> sniffer_ok (processInterrupt now t e s)"
  by (auto simp: processInterrupt_def Let_def intro!: half_bit_ok) (auto simp: sniffer_ok_def)

section \<open>The last half bits\<close>

lemma shift_in: "push_bit 1 w + (if b then 1 else 0) = push_bit 1 w OR (if b then 1 else 0)" for w :: "64 word"
  by (rule disjunctive_add_eq_or) (rule bit_eqI, auto simp: bit_simps simp del: push_bit_Suc)

lemma bit_shift_in: "i < 64 \<Longrightarrow> bit (push_bit 1 w + (if b then 1 else 0)) i = (if i = 0 then b else bit w (i - 1))" for w :: "64 word"
  unfolding shift_in by (cases i) (auto simp: bit_simps simp del: push_bit_Suc)

lemma preamble_bits:
  "(w AND 0xFFFFFF = 0xFFFFFC) \<longleftrightarrow> \<not> bit w 0 \<and> \<not> bit w 1 \<and> (\<forall>i \<in> {2..<24}. bit w i)" for w :: "64 word"
proof -
  have m: "(0xFFFFFF :: 64 word) = mask 24" "(0xFFFFFC :: 64 word) = push_bit 2 (mask 22)"
    by (simp_all add: mask_eq_exp_minus_1)
  have "(w AND 0xFFFFFF = 0xFFFFFC) \<longleftrightarrow> (\<forall>i < 64. (bit w i \<and> i < 24) = (2 \<le> i \<and> i - 2 < 22))"
    unfolding m by (auto simp: bit_eq_iff bit_simps)
  also have "\<dots> \<longleftrightarrow> \<not> bit w 0 \<and> \<not> bit w 1 \<and> (\<forall>i \<in> {2..<24}. bit w i)"
  proof
    assume a: "\<forall>i < 64. (bit w i \<and> i < 24) = (2 \<le> i \<and> i - 2 < 22)"
    show "\<not> bit w 0 \<and> \<not> bit w 1 \<and> (\<forall>i \<in> {2..<24}. bit w i)"
    proof (intro conjI ballI)
      fix i :: nat
      assume "i \<in> {2..<24}"
      then show "bit w i" using a [rule_format, of i] by auto
    qed (use a [rule_format, of 0] a [rule_format, of 1] in auto)
  next
    assume a: "\<not> bit w 0 \<and> \<not> bit w 1 \<and> (\<forall>i \<in> {2..<24}. bit w i)"
    show "\<forall>i < 64. (bit w i \<and> i < 24) = (2 \<le> i \<and> i - 2 < 22)"
    proof (intro allI impI)
      fix i :: nat
      assume "i < 64"
      show "(bit w i \<and> i < 24) = (2 \<le> i \<and> i - 2 < 22)"
        using a by (cases "i = 0"; cases "i = 1") auto
    qed
  qed
  finally show ?thesis .
qed


lemma low_pair: "2 \<le> LENGTH('a) \<Longrightarrow> w AND 3 = (of_bool (bit w 0) + 2 * of_bool (bit w 1) :: 'a::len word)"
proof -
  assume "2 \<le> LENGTH('a)"
  have "w AND 3 = take_bit 2 w" using take_bit_eq_mask [of 2 w] by (simp add: mask_eq_exp_minus_1)
  also have "\<dots> = of_bool (bit w 0) + 2 * of_bool (bit w 1)"
    by (simp add: numeral_2_eq_2 take_bit_Suc bit_iff_odd_drop_bit drop_bit_Suc mod_2_eq_odd add.commute bit_0)
  finally show ?thesis .
qed

lemma low_pair16: "(w AND 3 = 0) \<longleftrightarrow> \<not> bit w 0 \<and> \<not> bit w 1" "(w AND 3 = 3) \<longleftrightarrow> bit w 0 \<and> bit w 1" for w :: u16
  using low_pair [of w] by (cases "bit w 0"; cases "bit w 1"; simp)+

lemma low_pair64: "(w AND 3 = 3) \<longleftrightarrow> bit w 0 \<and> bit w 1"
  "(w AND 3 = 1 \<or> w AND 3 = 2) \<longleftrightarrow> bit w 0 \<noteq> bit w 1" for w :: "64 word"
  using low_pair [of w] by (cases "bit w 0"; cases "bit w 1"; simp)+

definition shift_all :: "bool list \<Rightarrow> 64 word \<Rightarrow> 64 word" where
  "shift_all hs w = fold (\<lambda>b w. push_bit 1 w + (if b then 1 else 0)) hs w"

lemma bit_shift_all:
  "i < 64 \<Longrightarrow> bit (shift_all hs w) i = (if i < length hs then hs ! (length hs - 1 - i) else bit w (i - length hs))"
proof (induction hs arbitrary: w)
  case (Cons b hs)
  have "shift_all (b # hs) w = shift_all hs (push_bit 1 w + (if b then 1 else 0))" by (simp add: shift_all_def)
  then show ?case using Cons bit_shift_in [of "i - length hs" w b]
    by (auto simp: nth_Cons' not_less simp del: push_bit_Suc)
qed (simp add: shift_all_def)

text \<open>
  Inside a byte: as long as a zero of the start bit is among the last 24 half bits, nothing is
  taken for a preamble.
\<close>

lemma half_bits_quiet:
  assumes "inpacket s" "length hs < halfbitcounter s" "1 \<le> p" "p + length hs \<le> 23" "\<not> bit (bitfield s) p"
  shows "fold (half_bit now) hs s =
    s\<lparr>bitfield := shift_all hs (bitfield s), halfbitcounter := halfbitcounter s - length hs\<rparr>"
  using assms
proof (induction hs arbitrary: s p)
  case (Cons b hs)
  let ?w = "push_bit 1 (bitfield s) + (if b then 1 else 0)"
  have z: "\<not> bit ?w (Suc p)" using bit_shift_in [of "Suc p" "bitfield s" b] Cons.prems by (simp del: push_bit_Suc)
  moreover have "Suc p \<in> {2..<24}" using Cons.prems(3,4) by auto
  ultimately have "?w AND 0xFFFFFF \<noteq> 0xFFFFFC" using preamble_bits [of ?w] by blast
  then have step: "half_bit now b s = s\<lparr>bitfield := ?w, halfbitcounter := halfbitcounter s - 1\<rparr>"
    using Cons.prems(1,2) by (simp add: half_bit_def Let_def del: push_bit_Suc)
  show ?case
    using Cons.IH [of "s\<lparr>bitfield := ?w, halfbitcounter := halfbitcounter s - 1\<rparr>" "Suc p"] Cons.prems z step
    by (simp add: shift_all_def del: push_bit_Suc)
qed (simp add: shift_all_def)


section \<open>A byte\<close>

definition halves :: "bool list \<Rightarrow> bool list" where
  "halves bs = concat (map (\<lambda>b. [b, b]) bs)"

lemma halves_simps [simp]: "halves [] = []" "halves (b # bs) = b # b # halves bs" "halves (xs @ ys) = halves xs @ halves ys"
  by (simp_all add: halves_def)

lemma length_halves [simp]: "length (halves bs) = 2 * length bs"
  by (induction bs) simp_all

lemma halves_nth: "i < 2 * length bs \<Longrightarrow> halves bs ! i = bs ! (i div 2)"
proof (induction bs arbitrary: i)
  case (Cons b bs)
  then show ?case by (cases i; cases "i - 1") (auto simp: nth_Cons')
qed simp

lemma halfbits_loop:
  assumes "k \<le> 8" "\<forall>m < 8 - k. bit b (2 * m) = bit x (k + m) \<and> bit b (2 * m + 1) = bit x (k + m)"
  shows "\<exists>z. halfbits2byte_loop [k..<8] b y = (True, z) \<and> (\<forall>n < 8. bit z n = (if n < k then bit y n else bit x n))"
  using assms
proof (induction "8 - k" arbitrary: k b y)
  case 0
  then show ?case by auto
next
  case (Suc j)
  then have k: "k < 8" by simp
  have pair: "bit b 0 = bit x k" "bit b 1 = bit x k" using Suc.prems(2) k by force+
  have rest: "\<forall>m < 8 - Suc k. bit (drop_bit 2 b) (2 * m) = bit x (Suc k + m) \<and> bit (drop_bit 2 b) (2 * m + 1) = bit x (Suc k + m)"
  proof (intro allI impI)
    fix m
    assume "m < 8 - Suc k"
    then have "Suc m < 8 - k" by simp
    from Suc.prems(2) [rule_format, OF this]
    show "bit (drop_bit 2 b) (2 * m) = bit x (Suc k + m) \<and> bit (drop_bit 2 b) (2 * m + 1) = bit x (Suc k + m)"
      by (simp add: bit_simps)
  qed
  let ?y = "if bit x k then set_bit k y else unset_bit k y"
  have "j = 8 - Suc k" using Suc.hyps(2) by simp
  from Suc.hyps(1) [OF this _ rest, of ?y] k
  obtain z where z: "halfbits2byte_loop [Suc k..<8] (drop_bit 2 b) ?y = (True, z)"
    "\<forall>n < 8. bit z n = (if n < Suc k then bit ?y n else bit x n)" by auto
  have "halfbits2byte_loop [k..<8] b y = (True, z)"
    using z(1) pair low_pair16 [of b] k by (auto simp: upt_conv_Cons)
  moreover have "\<forall>n < 8. bit z n = (if n < k then bit y n else bit x n)"
    using z(2) by (auto simp: bit_simps less_Suc_eq split: if_splits)
  ultimately show ?case by blast
qed

lemma halfbits2byte_good:
  assumes "\<forall>m < 8. bit b (2 * m) = bit x m \<and> bit b (2 * m + 1) = bit x m"
  shows "halfbits2byte b y = (True, x)"
proof -
  obtain z where z: "halfbits2byte b y = (True, z)" "\<forall>n < 8. bit z n = bit x n"
    using halfbits_loop [of 0 b x y] assms by (auto simp: halfbits2byte_def)
  have "z = x" using z(2) by (intro bit_eqI) simp
  then show ?thesis using z(1) by simp
qed

definition data_bits :: "byte \<Rightarrow> bool list" where
  "data_bits x = map (\<lambda>i. bit x (7 - i)) [0..<8]"

lemma byte_bits_data: "byte_bits x = False # data_bits x"
  by (simp add: byte_bits_def data_bits_def)

lemma byte_extracted:
  assumes "w' = shift_all (halves (data_bits x @ [e])) w"
  shows "bit w' 0 = e" "bit w' 1 = e" "halfbits2byte (ucast (drop_bit 2 (w' AND 0x3FFFF))) y = (True, x)"
proof -
  let ?h = "halves (data_bits x @ [e])"
  have len: "length ?h = 18" by (simp add: data_bits_def)
  have h: "i < 18 \<Longrightarrow> bit w' i = (data_bits x @ [e]) ! ((17 - i) div 2)" for i
    using bit_shift_all [of i ?h w] halves_nth [of "17 - i" "data_bits x @ [e]"] len assms by (simp add: data_bits_def)
  show "bit w' 0 = e" "bit w' 1 = e" using h [of 0] h [of 1] by (simp_all add: nth_append data_bits_def)
  have d: "m < 8 \<Longrightarrow> (data_bits x @ [e]) ! (7 - m) = bit x m" for m
  proof -
    assume "m < 8"
    then have "7 - m < length (data_bits x)" "7 - (7 - m) = m" by (simp_all add: data_bits_def)
    then show ?thesis by (simp add: nth_append data_bits_def)
  qed
  have m: "(0x3FFFF :: 64 word) = mask 18" by (simp add: mask_eq_exp_minus_1)
  have u: "i < 16 \<Longrightarrow> bit (ucast (drop_bit 2 (w' AND 0x3FFFF)) :: u16) i = bit w' (i + 2)" for i
    unfolding m by (simp add: bit_simps)
  show "halfbits2byte (ucast (drop_bit 2 (w' AND 0x3FFFF))) y = (True, x)"
  proof (rule halfbits2byte_good, intro allI impI conjI)
    fix m :: nat
    assume "m < 8"
    have "(17 - (2 * m + 2)) div 2 = 7 - m" "(17 - (2 * m + 1 + 2)) div 2 = 7 - m" using \<open>m < 8\<close> by presburger+
    then show "bit (ucast (drop_bit 2 (w' AND 0x3FFFF)) :: u16) (2 * m) = bit x m"
      "bit (ucast (drop_bit 2 (w' AND 0x3FFFF)) :: u16) (2 * m + 1) = bit x m"
      using u [of "2 * m"] u [of "2 * m + 1"] h [of "2 * m + 2"] h [of "2 * m + 1 + 2"] d [OF \<open>m < 8\<close>] \<open>m < 8\<close> by simp_all
  qed
qed


section \<open>A frame\<close>

text \<open>Just behind a start bit, \<open>c\<close> bytes into the packet.\<close>

definition at_byte :: "nat \<Rightarrow> sniffer \<Rightarrow> bool" where
  "at_byte c s \<longleftrightarrow> inpacket s \<and> halfbitcounter s = 18 \<and> currentbyte s = c \<and> \<not> bit (bitfield s) 1 \<and>
     length (dccbytes s) = MAXDCCPACKETLEN"

lemma one_byte:
  assumes "at_byte c s" "c < MAXDCCPACKETLEN"
  shows "fold (half_bit now) (halves (data_bits x @ [e])) s =
    (let w = shift_all (halves (data_bits x @ [e])) (bitfield s) in
     end_byte now (s\<lparr>bitfield := w, halfbitcounter := 0\<rparr>))"
proof -
  let ?h = "halves (data_bits x @ [e])"
  have len: "length ?h = 18" by (simp add: data_bits_def)
  then obtain hs b where hs: "?h = hs @ [b]" "length hs = 17" by (cases ?h rule: rev_cases) auto
  let ?s = "s\<lparr>bitfield := shift_all hs (bitfield s), halfbitcounter := 1\<rparr>"
  have q: "fold (half_bit now) hs s = ?s"
    using half_bits_quiet [of s hs 1 now] assms(1) hs(2) by (simp add: at_byte_def)
  let ?w = "push_bit 1 (bitfield ?s) + (if b then 1 else 0)"
  have w: "?w = shift_all ?h (bitfield s)" unfolding hs(1) by (simp add: shift_all_def del: push_bit_Suc)
  have "\<not> bit (shift_all ?h (bitfield s)) 19"
    using bit_shift_all [of 19 ?h "bitfield s"] len assms(1) by (simp add: at_byte_def)
  then have "?w AND 0xFFFFFF \<noteq> 0xFFFFFC" using preamble_bits [of ?w] unfolding w by auto
  then have "half_bit now b ?s = end_byte now (s\<lparr>bitfield := ?w, halfbitcounter := 0\<rparr>)"
    using assms(1) by (simp add: half_bit_def Let_def at_byte_def del: push_bit_Suc)
  moreover have "fold (half_bit now) ?h s = half_bit now b ?s" unfolding hs(1) using q by simp
  ultimately show ?thesis unfolding w Let_def by simp
qed

lemma middle_byte:
  assumes "at_byte c s" "Suc c < MAXDCCPACKETLEN"
  shows "\<exists>w. fold (half_bit now) (halves (data_bits x @ [False])) s =
    s\<lparr>bitfield := w, halfbitcounter := 18, dccbytes := (dccbytes s)[c := x], currentbyte := Suc c\<rparr> \<and> \<not> bit w 1"
proof -
  let ?w = "shift_all (halves (data_bits x @ [False])) (bitfield s)"
  note e = byte_extracted [of ?w x False "bitfield s", OF refl]
  have "fold (half_bit now) (halves (data_bits x @ [False])) s = end_byte now (s\<lparr>bitfield := ?w, halfbitcounter := 0\<rparr>)"
    using one_byte [OF assms(1), of now x False] assms(2) by simp
  also have "\<dots> = s\<lparr>bitfield := ?w, halfbitcounter := 18, dccbytes := (dccbytes s)[c := x], currentbyte := Suc c\<rparr>"
    using e(1,2) e(3) [of "dccbytes s ! c"] assms low_pair64 [of ?w]
    by (simp add: end_byte_def Let_def at_byte_def)
  finally show ?thesis using e(2) by blast
qed

lemma last_byte:
  assumes "at_byte c s" "c < MAXDCCPACKETLEN"
  shows "\<exists>w. fold (half_bit now) (halves (data_bits x @ [True])) s =
    end_packet now (s\<lparr>bitfield := w, halfbitcounter := 0, dccbytes := (dccbytes s)[c := x]\<rparr>)"
proof -
  let ?w = "shift_all (halves (data_bits x @ [True])) (bitfield s)"
  note e = byte_extracted [of ?w x True "bitfield s", OF refl]
  have "fold (half_bit now) (halves (data_bits x @ [True])) s = end_byte now (s\<lparr>bitfield := ?w, halfbitcounter := 0\<rparr>)"
    using one_byte [OF assms, of now x True] by simp
  also have "\<dots> = end_packet now (s\<lparr>bitfield := ?w, halfbitcounter := 0, dccbytes := (dccbytes s)[c := x]\<rparr>)"
    using e(1,2) e(3) [of "dccbytes s ! c"] assms low_pair64 [of ?w]
    by (simp add: end_byte_def Let_def at_byte_def)
  finally show ?thesis by blast
qed

text \<open>The bytes of a packet, each behind its start bit, and the one bit that ends it.\<close>

lemma packet_bytes:
  assumes "at_byte c s" "bs \<noteq> []" "c + length bs \<le> MAXDCCPACKETLEN"
  shows "\<exists>w. fold (half_bit now) (halves (tl (frame_bits bs) @ [True])) s =
    end_packet now (s\<lparr>bitfield := w, halfbitcounter := 0,
      dccbytes := take c (dccbytes s) @ bs @ drop (c + length bs) (dccbytes s), currentbyte := c + length bs - 1\<rparr>)"
  using assms
proof (induction bs arbitrary: c s)
  case (Cons x xs)
  have len: "length (dccbytes s) = MAXDCCPACKETLEN" using Cons.prems(1) by (simp add: at_byte_def)
  show ?case
  proof (cases xs)
    case Nil
    from last_byte [OF Cons.prems(1), of now x] Cons.prems(1,3) len Nil
    show ?thesis by (auto simp: frame_bits_def byte_bits_data at_byte_def upd_conv_take_nth_drop)
  next
    case (Cons y ys)
    have "tl (frame_bits (x # xs)) @ [True] = (data_bits x @ [False]) @ (tl (frame_bits xs) @ [True])"
      using Cons by (simp add: frame_bits_def byte_bits_data)
    moreover obtain w where w: "fold (half_bit now) (halves (data_bits x @ [False])) s =
        s\<lparr>bitfield := w, halfbitcounter := 18, dccbytes := (dccbytes s)[c := x], currentbyte := Suc c\<rparr>" "\<not> bit w 1"
      using middle_byte [OF Cons.prems(1), of now x] Cons.prems(3) Cons by auto
    let ?s = "s\<lparr>bitfield := w, halfbitcounter := 18, dccbytes := (dccbytes s)[c := x], currentbyte := Suc c\<rparr>"
    have "at_byte (Suc c) ?s" using Cons.prems(1) w(2) by (simp add: at_byte_def)
    from Cons.IH [OF this] Cons Cons.prems(3)
    obtain w' where "fold (half_bit now) (halves (tl (frame_bits xs) @ [True])) ?s =
      end_packet now (?s\<lparr>bitfield := w', halfbitcounter := 0,
        dccbytes := take (Suc c) (dccbytes ?s) @ xs @ drop (Suc c + length xs) (dccbytes ?s), currentbyte := Suc c + length xs - 1\<rparr>)"
      by auto
    moreover have "take (Suc c) ((dccbytes s)[c := x]) @ xs @ drop (Suc c + length xs) ((dccbytes s)[c := x]) =
        take c (dccbytes s) @ (x # xs) @ drop (c + length (x # xs)) (dccbytes s)"
      using len Cons.prems(3) by (simp add: take_Suc_conv_app_nth)
    ultimately show ?thesis using w(1) by auto
  qed
qed simp

text \<open>A preamble of at least eleven ones and the first start bit bring the sniffer to the first byte.\<close>

lemma idle_bits:
  assumes "\<not> inpacket s" "list_all (\<lambda>b. b) hs"
  shows "fold (half_bit now) hs s = s\<lparr>bitfield := shift_all hs (bitfield s)\<rparr>"
  using assms
proof (induction hs arbitrary: s)
  case (Cons b hs)
  let ?w = "push_bit 1 (bitfield s) + (if b then 1 else 0)"
  have "?w AND 0xFFFFFF \<noteq> 0xFFFFFC"
    using preamble_bits [of ?w] bit_shift_in [of 0 "bitfield s" b] Cons.prems(2) by (auto simp del: push_bit_Suc)
  then have "half_bit now b s = s\<lparr>bitfield := ?w\<rparr>"
    using Cons.prems(1) by (simp add: half_bit_def Let_def del: push_bit_Suc)
  then show ?case
    using Cons.IH [of "s\<lparr>bitfield := ?w\<rparr>"] Cons.prems by (simp add: shift_all_def del: push_bit_Suc)
qed (simp add: shift_all_def)

lemma preamble_seen:
  assumes "\<not> inpacket s" "11 \<le> n" "length (dccbytes s) = MAXDCCPACKETLEN"
  shows "\<exists>w. fold (half_bit now) (halves (replicate n True @ [False])) s =
    s\<lparr>bitfield := w, currentbyte := 0, dcclen := 0, inpacket := True, halfbitcounter := 18\<rparr> \<and> \<not> bit w 1"
proof -
  have rep: "halves (replicate n True) = replicate (2 * n) True" by (induction n) simp_all
  let ?s1 = "s\<lparr>bitfield := shift_all (replicate (2 * n) True) (bitfield s)\<rparr>"
  have 1: "fold (half_bit now) (replicate (2 * n) True) s = ?s1"
    by (rule idle_bits [OF assms(1)]) (simp add: list_all_iff)
  let ?w1 = "push_bit 1 (bitfield ?s1)"
  let ?w2 = "push_bit 1 ?w1"
  have b1: "i < 64 \<Longrightarrow> bit ?w1 i = (i \<noteq> 0 \<and> bit (bitfield ?s1) (i - 1))" for i
    using bit_shift_in [of i "bitfield ?s1" False] by (simp del: push_bit_Suc)
  have b2: "i < 64 \<Longrightarrow> bit ?w2 i = (i \<noteq> 0 \<and> bit ?w1 (i - 1))" for i
    using bit_shift_in [of i ?w1 False] by (simp del: push_bit_Suc)
  have ones: "i < 22 \<Longrightarrow> bit (bitfield ?s1) i" for i
    using bit_shift_all [of i "replicate (2 * n) True" "bitfield s"] assms(2) by simp
  have no: "?w1 AND 0xFFFFFF \<noteq> 0xFFFFFC"
    using preamble_bits [of ?w1] b1 [of 1] ones [of 0] by (auto simp del: push_bit_Suc)
  have yes: "?w2 AND 0xFFFFFF = 0xFFFFFC"
    unfolding preamble_bits using b2 b1 ones by (auto simp del: push_bit_Suc)
  have "half_bit now False ?s1 = ?s1\<lparr>bitfield := ?w1\<rparr>"
    using no assms(1) by (simp add: half_bit_def Let_def del: push_bit_Suc)
  moreover have "half_bit now False (?s1\<lparr>bitfield := ?w1\<rparr>) =
      ?s1\<lparr>bitfield := ?w2, currentbyte := 0, dcclen := 0, inpacket := True, halfbitcounter := 18\<rparr>"
    using yes by (simp add: half_bit_def Let_def del: push_bit_Suc)
  moreover have "\<not> bit ?w2 1" using b2 [of 1] b1 [of 0] by (simp del: push_bit_Suc)
  ultimately show ?thesis using 1 rep by (auto simp del: push_bit_Suc)
qed

lemma frame_received:
  fixes now :: u32
  assumes "\<not> inpacket s" "11 \<le> n" "length (dccbytes s) = MAXDCCPACKETLEN" "bs \<noteq> []" "length bs \<le> MAXDCCPACKETLEN"
  defines "s' \<equiv> fold (half_bit now) (halves (replicate n True @ frame_bits bs @ [True])) s"
  shows "\<not> inpacket s' \<and> prevpacket s' = bs \<and> lastendofpacket s' = now \<and> length (dccbytes s') = MAXDCCPACKETLEN \<and>
    outpacket s' = (if length (outpacket s) > 3 then [] else outpacket s) @ (if bs = prevpacket s then [] else [bs])"
proof -
  obtain b xs where b: "bs = b # xs" using assms(4) by (cases bs) auto
  have split: "replicate n True @ frame_bits bs @ [True] = (replicate n True @ [False]) @ (tl (frame_bits bs) @ [True])"
    using b by (simp add: frame_bits_def byte_bits_data)
  obtain w where w: "fold (half_bit now) (halves (replicate n True @ [False])) s =
      s\<lparr>bitfield := w, currentbyte := 0, dcclen := 0, inpacket := True, halfbitcounter := 18\<rparr>" "\<not> bit w 1"
    using preamble_seen [OF assms(1-3)] by blast
  let ?s = "s\<lparr>bitfield := w, currentbyte := 0, dcclen := 0, inpacket := True, halfbitcounter := 18\<rparr>"
  have "at_byte 0 ?s" using w(2) assms(3) by (simp add: at_byte_def)
  from packet_bytes [OF this assms(4), of now] assms(5)
  obtain w' where "s' = end_packet now (?s\<lparr>bitfield := w', halfbitcounter := 0,
      dccbytes := bs @ drop (length bs) (dccbytes s), currentbyte := length bs - 1\<rparr>)"
    using w(1) unfolding s'_def split by auto
  then show ?thesis using b assms(3,5) by (simp add: end_packet_def Let_def)
qed


section \<open>From edges to half bits\<close>

text \<open>A signal is the list of its half periods; every half period ends with an edge.\<close>

fun edges :: "u32 \<Rightarrow> u32 list \<Rightarrow> sniffer \<Rightarrow> sniffer" where
  "edges now [] s = s"
| "edges now (d # ds) s = edges now ds (processInterrupt now (lastticks s + d) (\<not> lastedge s) s)"

definition half_period :: "sniffer \<Rightarrow> bool \<Rightarrow> u32 \<Rightarrow> bool" where
  "half_period s b d \<longleftrightarrow> dcc_too_short_limit s \<le> d \<and> b = (d < dcc_one_limit s)"

definition timing :: "u32 \<Rightarrow> u32 \<Rightarrow> bool \<Rightarrow> sniffer \<Rightarrow> sniffer" where
  "timing x y z s = s\<lparr>diffticks := x, lastticks := y, lastedge := z\<rparr>"

lemma end_packet_timing: "end_packet now (timing x y z s) = timing x y z (end_packet now s)"
  by (cases s) (simp add: timing_def end_packet_def Let_def)

lemma end_byte_timing: "end_byte now (timing x y z s) = timing x y z (end_byte now s)"
proof -
  let ?b = "ucast (drop_bit 2 (bitfield s AND 0x3FFFF)) :: u16"
  have upd: "timing x y z s\<lparr>dccbytes := d\<rparr> = timing x y z (s\<lparr>dccbytes := d\<rparr>)" for d by (simp add: timing_def)
  have sel: "bitfield (timing x y z s) = bitfield s" "dccbytes (timing x y z s) = dccbytes s"
      "currentbyte (timing x y z s) = currentbyte s"
    by (simp_all add: timing_def)
  obtain good v where g: "halfbits2byte ?b (dccbytes s ! currentbyte s) = (good, v)"
    by (cases "halfbits2byte ?b (dccbytes s ! currentbyte s)")
  show ?thesis
  proof (cases "good \<and> bitfield s AND 3 = 3")
    case True
    then show ?thesis using g unfolding end_byte_def Let_def sel upd by (simp add: end_packet_timing)
  next
    case False
    then show ?thesis using g unfolding end_byte_def Let_def sel upd by (auto simp: timing_def)
  qed
qed

lemma half_bit_timing: "half_bit now b (timing x y z s) = timing x y z (half_bit now b s)"
proof -
  have "timing x y z s\<lparr>bitfield := w, halfbitcounter := c\<rparr> = timing x y z (s\<lparr>bitfield := w, halfbitcounter := c\<rparr>)" for w c
    by (simp add: timing_def)
  moreover have "bitfield (timing x y z s) = bitfield s" "inpacket (timing x y z s) = inpacket s" "halfbitcounter (timing x y z s) = halfbitcounter s"
    by (simp_all add: timing_def)
  ultimately show ?thesis
    by (auto simp: half_bit_def Let_def end_byte_timing) (simp_all add: timing_def)
qed

lemma fold_timing: "fold (half_bit now) hs (timing x y z s) = timing x y z (fold (half_bit now) hs s)"
  by (induction hs arbitrary: s) (simp_all add: half_bit_timing)

lemma timing_timing: "timing x y z (timing x' y' z' s) = timing x y z s"
  by (simp add: timing_def)

lemma half_bit_limits [simp]:
  "dcc_too_short_limit (half_bit now b s) = dcc_too_short_limit s" "dcc_one_limit (half_bit now b s) = dcc_one_limit s"
  by (simp_all add: half_bit_def end_byte_def end_packet_def Let_def split: prod.split)

lemma edges_half_bits:
  "list_all2 (half_period s) hs ds \<Longrightarrow> \<exists>x y z. edges now ds s = timing x y z (fold (half_bit now) hs s)"
proof (induction ds arbitrary: hs s)
  case Nil
  then have "s = timing (diffticks s) (lastticks s) (lastedge s) s" by (simp add: timing_def)
  then show ?case using Nil by (metis edges.simps(1) fold_simps(1) list_all2_Nil2)
next
  case (Cons d ds)
  then obtain b hs' where hs: "hs = b # hs'" "half_period s b d" "list_all2 (half_period s) hs' ds"
    by (auto simp: list_all2_Cons2)
  let ?t = "timing d (lastticks s + d) (\<not> lastedge s)"
  have p: "processInterrupt now (lastticks s + d) (\<not> lastedge s) s = ?t (half_bit now b s)"
    using hs(2) half_bit_timing [of now b d "lastticks s + d" "\<not> lastedge s" s]
    by (auto simp: processInterrupt_def Let_def half_period_def timing_def)
  have "half_period (?t (half_bit now b s)) = half_period s"
    by (intro ext) (simp add: half_period_def timing_def)
  then have "list_all2 (half_period (?t (half_bit now b s))) hs' ds" using hs(3) by simp
  from Cons.IH [OF this] show ?case using p hs(1) by (auto simp: fold_timing timing_timing)
qed

section \<open>From the waveform generator to the sniffer\<close>

text \<open>The half periods of the bits a track sends, of length \<open>one\<close> and \<open>zero\<close>.\<close>

definition signal :: "u32 \<Rightarrow> u32 \<Rightarrow> bool list \<Rightarrow> u32 list" where
  "signal one zero bs = map (\<lambda>b. if b then one else zero) (halves bs)"

definition heard :: "u32 \<Rightarrow> u32 \<Rightarrow> u32 \<Rightarrow> track \<Rightarrow> sniffer \<Rightarrow> sniffer" where
  "heard now one zero t s =
    edges now (signal one zero (emit (requiredPreambles t + 9 * pendingLength t + 1) t)) s"

lemma emit_frame:
  assumes "wf_track t" "remainingPreambles t = requiredPreambles t" "transmitRepeats t = 0" "packetPending t"
  shows "emit (requiredPreambles t + 9 * pendingLength t + 1) t =
    replicate (requiredPreambles t) True @ frame_bits (take (pendingLength t) (pendingPacket t)) @ [True]"
proof -
  let ?p = "promotePendingPacket t"
  let ?u = "(interrupt2 ^^ turn_bits ?p) t"
  have p: "?p = clearResets (t\<lparr>transmitPacket := pendingPacket t, transmitLength := pendingLength t,
      transmitRepeats := pendingRepeats t, packetPending := False\<rparr>)"
    using assms by (simp add: promotePendingPacket_def)
  have len: "0 < pendingLength t" "2 < requiredPreambles t" using assms by (simp_all add: wf_track_def)
  have frame: "wave_frame ?p = replicate (requiredPreambles t) True @
      frame_bits (take (pendingLength t) (pendingPacket t))"
    and tb: "turn_bits ?p = requiredPreambles t + 9 * pendingLength t" and nonempty: "0 < transmitLength ?p"
    using len by (simp_all add: p wave_frame_def turn_bits_def clearResets_def)
  from packet_turn [OF assms(1,2) nonempty]
  have turn: "emit (turn_bits ?p) t = wave_frame ?p" "remainingPreambles ?u = requiredPreambles t" by simp_all
  have "emit 1 ?u = [True]"
    using turn(2) len(2) by (simp add: interrupt2_def Let_def promotePendingPacket_def clearResets_def getResets_def)
  then show ?thesis using turn(1) frame tb emit_add [of "turn_bits ?p" 1 t] by simp
qed

lemma heard_packet:
  assumes "wf_track t" "remainingPreambles t = requiredPreambles t" "transmitRepeats t = 0" "packetPending t"
    and "11 \<le> requiredPreambles t" "sniffer_ok s" "\<not> inpacket s" "half_period s True one" "half_period s False zero"
  defines "pk \<equiv> take (pendingLength t) (pendingPacket t)"
  shows "\<not> inpacket (heard now one zero t s) \<and> prevpacket (heard now one zero t s) = pk \<and>
    outpacket (heard now one zero t s) =
      (if length (outpacket s) > 3 then [] else outpacket s) @ (if pk = prevpacket s then [] else [pk])"
proof -
  let ?bits = "replicate (requiredPreambles t) True @ frame_bits pk @ [True]"
  have "list_all2 (half_period s) (halves ?bits) (signal one zero ?bits)"
    unfolding signal_def list_all2_map2 by (rule list_all2_refl) (use assms(8,9) in auto)
  then obtain x y z where e: "heard now one zero t s = timing x y z (fold (half_bit now) (halves ?bits) s)"
    using edges_half_bits [of s "halves ?bits" "signal one zero ?bits" now] emit_frame [OF assms(1-4)]
    unfolding heard_def pk_def by auto
  have pk: "pk \<noteq> []" "length pk \<le> MAXDCCPACKETLEN"
    using assms(1,4) by (auto simp: pk_def wf_track_def MAX_PACKET_SIZE_def MAXDCCPACKETLEN_def)
  have "length (dccbytes s) = MAXDCCPACKETLEN" using assms(6) by (simp add: sniffer_ok_def)
  from frame_received [OF assms(7,5) this pk, of now] show ?thesis unfolding e by (simp add: timing_def)
qed


section \<open>Properties\<close>

text \<open>
  C31: what one station sends the other hears. A packet pending on a track with a preamble of at
  least eleven bits is, half period by half period, received by an idle sniffer whose limits
  tell the half periods of ones and zeros apart: it ends up in the sniffer's queue, unless it
  repeats the packet before, and the sniffer is idle again.
\<close>

theorem packet_heard:
  assumes "wf_track t" and "remainingPreambles t = requiredPreambles t" and "transmitRepeats t = 0"
    and "packetPending t" and "11 \<le> requiredPreambles t"
    and "sniffer_ok s" and "\<not> inpacket s" and "half_period s True one" and "half_period s False zero"
  shows "let s' = heard now one zero t s; pk = take (pendingLength t) (pendingPacket t)
    in \<not> inpacket s' \<and> prevpacket s' = pk \<and>
       outpacket s' = (if length (outpacket s) > 3 then [] else outpacket s) @ (if pk = prevpacket s then [] else [pk])"
  using heard_packet [OF assms, of now] by (simp add: Let_def)

theorem packet_heard_witness:
  "let s = sample_sniffer; s' = heard 0 4640 9280 sample_track s
   in sniffer_ok s \<and> half_period s True 4640 \<and> half_period s False 9280 \<and>
      prevpacket s' = take (pendingLength sample_track) (pendingPacket sample_track)"
proof -
  have t: "wf_track sample_track" "remainingPreambles sample_track = requiredPreambles sample_track"
      "transmitRepeats sample_track = 0" "packetPending sample_track" "11 \<le> requiredPreambles sample_track"
    by (simp_all add: sample_track_defs)
  have s: "sniffer_ok sample_sniffer" "\<not> inpacket sample_sniffer"
      "half_period sample_sniffer True 4640" "half_period sample_sniffer False 9280"
    by (simp_all add: sample_sniffer_def new_sniffer_def sniffer_ok_def half_period_def)
  from packet_heard [OF t s, of 0] s show ?thesis by (simp add: Let_def)
qed

end
