(* ===== verification/Decoder.thy ===== *)
theory Decoder
  imports DccProps Sniffer WordFacts
begin

text \<open>
  The decoder of sniffed packets, \<^verbatim>\<open>src/DCCDecoder.cpp\<close>: it reads a packet of another command
  station and repeats the command it carries on the own one, through the calls of theory DccApi.
  A result \<open>None\<close> is a read outside the packet or through a null slot pointer; otherwise the
  result is the flag the function returns with the new state. \<open>funcmap\<close> is the helper of
  \<^verbatim>\<open>src/DCCEXParser.cpp\<close> that sets a range of functions from the bits of a byte.

  The lemmas show that decoding inverts the encodings of theory DccApi, down to the throttle that a
  speed packet with 28 or 128 steps sets, and the last section puts the chain together: an accessory command that one station sends through its waveform
  generator is, after sniffing, the same command on the other station.
\<close>

section \<open>Model\<close>

fun funcmap_loop :: "int \<Rightarrow> byte \<Rightarrow> int list \<Rightarrow> dcc \<Rightarrow> bool \<times> dcc" where
  "funcmap_loop cab value [] s = (True, s)"
| "funcmap_loop cab value (i # is) s =
    (let (done, s) = setFn cab i (value AND 1 \<noteq> 0) s
     in if \<not> done then (False, s) else funcmap_loop cab (drop_bit 1 value) is s)"

definition funcmap :: "int \<Rightarrow> byte \<Rightarrow> int \<Rightarrow> int \<Rightarrow> dcc \<Rightarrow> bool \<times> dcc" where
  "funcmap cab value fstart fstop s = funcmap_loop cab value [fstart..fstop] s"

definition updateLoco :: "u16 \<Rightarrow> byte \<Rightarrow> dcc \<Rightarrow> (bool \<times> dcc) option" where
  "updateLoco cab sc s =
    (if cab = 0 then Some (True, s)
     else case get_slot (uint cab) True s of
       (None, s) \<Rightarrow> None
     | (Some a, s) \<Rightarrow>
         if sc = snifferSpeedCode (slot s a) then Some (False, s)
         else Some (True, put a (\<lambda>x. x\<lparr>snifferSpeedCode := sc\<rparr>) s))"

definition new_functions :: "byte \<Rightarrow> nat \<Rightarrow> u32 \<Rightarrow> u32" where
  "new_functions func shift previous =
    (let newfunc = (if shift = 1 then (previous AND NOT 1) OR ucast (drop_bit 4 (func AND 0b10000)) else previous);
         newfunc = newfunc AND NOT (push_bit shift 0b1111)
     in newfunc OR push_bit shift (ucast (func AND 0b1111)))"

definition updateFunc :: "u16 \<Rightarrow> byte \<Rightarrow> nat \<Rightarrow> dcc \<Rightarrow> (bool \<times> dcc) option" where
  "updateFunc cab func shift s =
    (case get_slot (uint cab) True s of
       (None, s) \<Rightarrow> None
     | (Some a, s) \<Rightarrow>
         let previous = snifferFunctions (slot s a); newfunc = new_functions func shift previous
         in if newfunc = previous then Some (False, s)
            else Some (True, put a (\<lambda>x. x\<lparr>snifferFunctions := newfunc\<rparr>) s))"

text \<open>One function group: remember it, and set the functions when it changed.\<close>

definition sniff_group :: "u16 \<Rightarrow> byte \<Rightarrow> nat \<Rightarrow> byte \<Rightarrow> int \<Rightarrow> int \<Rightarrow> dcc \<Rightarrow> (bool \<times> dcc) option" where
  "sniff_group cab func shift value low high s =
    (case updateFunc cab func shift s of
       None \<Rightarrow> None
     | Some (changed, s) \<Rightarrow>
         Some (changed, if changed then snd (funcmap (uint cab) value low high s) else s))"

definition speed28 :: "byte \<Rightarrow> byte" where
  "speed28 i =
    (let speed = i AND 0b00001111
     in if speed > 1
        then word_of_int ((uint (push_bit 1 (i AND 0b00001111) + (if bit i 4 then 1 else 0)) - 3) * 9 div 2)
        else speed)"

definition sniff_speed :: "u32 \<Rightarrow> u16 \<Rightarrow> byte \<Rightarrow> byte \<Rightarrow> bool \<Rightarrow> dcc \<Rightarrow> (bool \<times> dcc) option" where
  "sniff_speed now cab code speed direction s =
    (case updateLoco cab code s of
       None \<Rightarrow> None
     | Some (changed, s) \<Rightarrow>
         Some (changed, if changed then snd (setThrottle now cab speed direction s) else s))"

text \<open>The second group of a packet decides the result, as the code overwrites its flag.\<close>

definition two_groups :: "u16 \<Rightarrow> byte \<Rightarrow> nat \<Rightarrow> dcc \<Rightarrow> (bool \<times> dcc) option" where
  "two_groups cab i low s =
    (case sniff_group cab i low i (int low) (int low + 3) s of
       None \<Rightarrow> None
     | Some (_, s) \<Rightarrow>
         sniff_group cab (drop_bit 4 i) (low + 4) (drop_bit 4 i) (int low + 4) (int low + 7) s)"

definition at :: "byte list \<Rightarrow> nat \<Rightarrow> (byte \<Rightarrow> 'a option) \<Rightarrow> 'a option" where
  "at bs i k = (if i < length bs then k (bs ! i) else None)"

definition decode_mobile :: "u32 \<Rightarrow> u16 \<Rightarrow> byte list \<Rightarrow> dcc \<Rightarrow> (bool \<times> dcc) option" where
  "decode_mobile now cab instr s =
    (if cab = 0 then Some (False, s)
     else at instr 0 (\<lambda>i.
       if i AND 0xE0 = 0x20 then
         (if i = 0b00111111
          then at instr 1 (\<lambda>j. sniff_speed now cab j (j AND 0b01111111) (j AND 0b10000000 \<noteq> 0) s)
          else Some (False, s))
       else if i AND 0xE0 = 0x40 \<or> i AND 0xE0 = 0x60 then
         sniff_speed now cab (i AND 0b00111111) (speed28 i) (i AND 0b00100000 \<noteq> 0) s
       else if i AND 0xE0 = 0x80 then
         sniff_group cab i 1 ((push_bit 1 i AND 0x1e) OR (drop_bit 4 i AND 0x01)) 0 4 s
       else if i AND 0xE0 = 0xA0 then
         (if bit i 4 then sniff_group cab i 5 i 5 8 s else sniff_group cab i 9 i 9 12 s)
       else if i AND 0xE0 = 0xC0 then
         (if i AND 0b00011111 = 0b00011110 then at instr 1 (\<lambda>j. two_groups cab j 13 s)
          else if i AND 0b00011111 = 0b00011111 then at instr 1 (\<lambda>j. two_groups cab j 21 s)
          else Some (False, s))
       else Some (False, s)))"

definition decode_accessory :: "nat \<Rightarrow> byte \<Rightarrow> byte list \<Rightarrow> dcc \<Rightarrow> (bool \<times> dcc) option" where
  "decode_accessory len addr instr s =
    at instr 0 (\<lambda>i.
      if i AND 0b10000000 \<noteq> 0 then
        (let address = uint (NOT i AND 0b01110000) * 4 + uint addr;
             port = drop_bit 1 (i AND 0b00000110);
             activate = drop_bit 3 (i AND 0b00001000);
             coil = (i AND 0b00000001 \<noteq> 0)
         in if len = 3 then Some (True, setAccessory address port coil activate s) else Some (False, s))
      else Some (False, s))"

definition parse :: "bool \<Rightarrow> u32 \<Rightarrow> byte list \<Rightarrow> dcc \<Rightarrow> (bool \<times> dcc) option" where
  "parse active now d s =
    (if \<not> active then Some (False, s)
     else at d 0 (\<lambda>d0.
       if d0 = 0b11111111 then Some (False, s)
       else if length d < 3 \<or> length d > 6 then Some (False, s)
       else if xor_all d \<noteq> 0 then Some (False, s)
       else if \<not> bit d0 7 then decode_mobile now (ucast d0) (drop 1 d) s
       else if bit d0 6 then
         at d 1 (\<lambda>d1. decode_mobile now (256 * ucast (d0 AND 0b00111111) + ucast d1) (drop 2 d) s)
       else decode_accessory (length d) (d0 AND 0b00111111) (drop 1 d) s))"


section \<open>Decoding inverts encoding\<close>

definition with_checksum :: "byte list \<Rightarrow> byte list" where
  "with_checksum bs = bs @ [xor_all bs]"

lemma checksum_zero: "xor_all (with_checksum bs) = 0"
  by (simp add: with_checksum_def)

lemma accessory_second:
  fixes h q :: nat and g :: bool
  assumes "h < 8" "q < 4"
  defines "i \<equiv> (word_of_int (int h * 16 + int q * 2 + (if g then 1 else 0)) :: byte) XOR 0xF8"
  shows "i AND 0x80 \<noteq> 0 \<and> uint (NOT i AND 0x70) = int h * 16 \<and> drop_bit 1 (i AND 6) = of_nat q \<and>
     drop_bit 3 (i AND 8) = 1 \<and> (i AND 1 \<noteq> 0) = g \<and>
     (i AND NOT 8) AND 0x80 \<noteq> 0 \<and> uint (NOT (i AND NOT 8) AND 0x70) = int h * 16 \<and>
     drop_bit 1 ((i AND NOT 8) AND 6) = of_nat q \<and> drop_bit 3 ((i AND NOT 8) AND 8) = 0 \<and> ((i AND NOT 8) AND 1 \<noteq> 0) = g"
proof -
  have "h \<in> {0, 1, 2, 3, 4, 5, 6, 7}" "q \<in> {0, 1, 2, 3}" using assms(1,2) by auto
  then show ?thesis unfolding i_def by (elim insertE emptyE; cases g; simp)
qed


lemma accessory_first:
  assumes "0 \<le> a" "d0 = (word_of_int (a mod 64 + 128) :: byte)"
  shows "d0 \<noteq> 0xFF" "bit d0 7" "\<not> bit d0 6" "uint (d0 AND 0x3F) = a mod 64"
proof -
  have r: "0 \<le> a mod 64" "a mod 64 < 64" by simp_all
  then have u: "uint d0 = a mod 64 + 128" unfolding assms(2) by (intro uint_u8) simp_all
  show "d0 \<noteq> 0xFF" using u r by (auto simp: word_uint_eq_iff)
  show "uint (d0 AND 0x3F) = a mod 64" using u and_3F [of d0] mod_mult_self2 [of "a mod 64" 64 2] by simp
  have "uint d0 div 128 = 1" "uint d0 div 64 = 2"
    using u r by (auto intro: int_div_pos_eq [where r = "a mod 64"])
  then show "bit d0 7" "\<not> bit d0 6" by (simp_all add: bit_uint)
qed

lemma parse_accessory:
  assumes "0 \<le> a" "a \<le> 511" "port < 4"
  shows "parse True now (with_checksum (accessory_bytes a port g)) s = Some (True, setAccessory a port g 1 s)"
    and "parse True now (with_checksum [accessory_bytes a port g ! 0, accessory_bytes a port g ! 1 AND NOT 8]) s =
      Some (True, setAccessory a port g 0 s)"
proof -
  define h q where "h = nat (a div 64)" and "q = unat port"
  have "uint port < 4" using assms(3) by (simp add: word_less_def)
  then have hq: "h < 8" "q < 4" "int h = a div 64" "a div 64 mod 8 = int h" "uint port mod 4 = int q" "port = of_nat q"
    using assms uint_ge_0 [of port] by (auto simp: h_def q_def word_less_nat_alt)
  let ?i = "(word_of_int (int h * 16 + int q * 2 + (if g then 1 else 0)) :: byte) XOR 0xF8"
  let ?d0 = "word_of_int (a mod 64 + 128) :: byte"
  have acc: "accessory_bytes a port g = [?d0, ?i]"
    unfolding accessory_bytes_def by (simp only: hq(4,5))
  note f = accessory_first [OF assms(1) refl] and n = accessory_second [OF hq(1,2), of g]
  have a: "int h * 16 * 4 + a mod 64 = a" using hq(3) by simp
  have "parse True now (with_checksum [?d0, j]) s = decode_accessory 3 (?d0 AND 0x3F) [j, xor_all [?d0, j]] s" for j
    using f checksum_zero [of "[?d0, j]"] by (simp add: parse_def at_def with_checksum_def numeral_3_eq_3)
  moreover have "decode_accessory 3 (?d0 AND 0x3F) [?i, x] s = Some (True, setAccessory a port g 1 s)"
    and "decode_accessory 3 (?d0 AND 0x3F) [?i AND NOT 8, x] s = Some (True, setAccessory a port g 0 s)" for x
    using n f(4) a hq(6) unfolding decode_accessory_def at_def Let_def by auto
  ultimately show "parse True now (with_checksum (accessory_bytes a port g)) s = Some (True, setAccessory a port g 1 s)"
    "parse True now (with_checksum [accessory_bytes a port g ! 0, accessory_bytes a port g ! 1 AND NOT 8]) s =
      Some (True, setAccessory a port g 0 s)"
    unfolding acc by simp_all
qed

text \<open>The address bytes of a packet to a loco lead to the loco's number and the rest of the packet.\<close>

lemma parse_cab:
  assumes "1 \<le> cab" "cab \<le> 10239" "1 \<le> length bs" "length bs \<le> 2"
  shows "parse True now (with_checksum (cab_bytes cab @ bs)) s =
    decode_mobile now (word_of_int cab) (bs @ [xor_all (cab_bytes cab @ bs)]) s"
proof (cases "cab \<le> 127")
  case True
  define d0 where "d0 = (word_of_int cab :: byte)"
  have u: "uint d0 = cab" using True assms(1) by (simp add: d0_def uint_word_of_int)
  have c: "cab_bytes cab = [d0]"
    using True assms(1) uint_lowByte [of "word_of_int cab"] uint_u16 [of cab] u
    by (simp add: cab_bytes_def HIGHEST_SHORT_ADDR_def word_uint_eq_iff)
  have "\<not> bit d0 7" "d0 \<noteq> 0xFF" using u True assms(1) by (auto simp: bit_uint word_uint_eq_iff)
  moreover have "(ucast d0 :: u16) = word_of_int cab" using u [symmetric] by simp
  ultimately show ?thesis
    using assms(3,4) checksum_zero [of "cab_bytes cab @ bs"] by (cases bs) (auto simp: c parse_def at_def with_checksum_def)
next
  case False
  define w where "w = (word_of_int cab :: u16)"
  have w: "uint w = cab" using assms(2) False by (simp add: w_def uint_word_of_int)
  have c: "cab_bytes cab = [highByte w OR 0xC0, lowByte w]"
    using False by (simp add: cab_bytes_def HIGHEST_SHORT_ADDR_def w_def)
  let ?d0 = "highByte w OR 0xC0"
  have h: "uint (highByte w) = cab div 256" using w by (simp add: uint_highByte)
  have m: "?d0 AND 0x3F = highByte w"
  proof -
    have "?d0 AND 0x3F = highByte w AND 0x3F" by (simp add: bit.conj_disj_distrib2)
    also have "\<dots> = highByte w" using h assms(2) False by (simp add: word_uint_eq_iff and_3F)
    finally show ?thesis .
  qed
  have "bit ?d0 7" "bit ?d0 6" by (simp_all add: bit_simps bit_uint)
  moreover have "?d0 \<noteq> 0xFF"
  proof
    assume "?d0 = 0xFF"
    then have "highByte w = 0x3F" using m by simp
    then show False using h assms(2) by (simp add: word_uint_eq_iff)
  qed
  ultimately show ?thesis
    using assms(3,4) checksum_zero [of "cab_bytes cab @ bs"] m word_halves [of w]
    by (simp add: c parse_def at_def with_checksum_def w_def)
qed


lemma parse_speed:
  assumes "1 \<le> cab" "cab \<le> 10239"
  shows "parse True now (with_checksum (cab_bytes cab @ [SET_SPEED, code])) s =
    sniff_speed now (word_of_int cab) code (code AND 0x7F) (code AND 0x80 \<noteq> 0) s"
proof -
  have "(word_of_int cab :: u16) \<noteq> 0" using uint_u16 [of cab] assms by auto
  then show ?thesis
    using parse_cab [OF assms, of "[SET_SPEED, code]"] by (simp add: decode_mobile_def at_def SET_SPEED_def)
qed


section \<open>Speed packets\<close>

text \<open>The instruction of a 28-step packet: \<open>c\<close> is the speed in its five bits, \<open>d\<close> the direction.\<close>

definition instr28 :: "byte \<Rightarrow> bool \<Rightarrow> byte" where
  "instr28 c d = 0x40 OR c OR (if d then 0x20 else 0)"

definition step_code :: "int \<Rightarrow> byte" where
  "step_code k = word_of_int ((k + 3) div 2) OR (if odd k then 0 else 0x10)"

definition code_of :: "byte \<Rightarrow> bool \<Rightarrow> byte" where
  "code_of sp d = (sp AND 0x7F) + (if d then 128 else 0)"

lemma speed_bytes_28:
  assumes "n \<le> 28"
  shows "speed_bytes n code =
    [instr28 (if code AND 0x7F = 0 \<or> code AND 0x7F = 1 then code AND 0x7F else step_code ((uint (code AND 0x7F) * 10 + 36) div 46))
       (code AND 0x80 \<noteq> 0)]"
  using assms by (simp add: speed_bytes_def instr28_def step_code_def Let_def)

lemma instr28_step:
  assumes "1 \<le> k" "k \<le> 28"
  shows "speed28 (instr28 (step_code k) d) = word_of_int (k * 9 div 2)" "instr28 (step_code k) d AND 0x20 \<noteq> 0 \<longleftrightarrow> d"
    "instr28 (step_code k) d AND 0xE0 = (if d then 0x60 else 0x40)" "uint (word_of_int (k * 9 div 2) AND 0x7F :: byte) = k * 9 div 2"
proof -
  have "k \<in> set [1..28]" using assms by simp
  also have "[1..28] = [1, 2, 3, 4, 5, 6, 7, 8, 9, 10, 11, 12, 13, 14, 15, 16, 17, 18, 19, 20, 21, 22, 23, 24, 25, 26, 27, 28 :: int]"
    by code_simp
  finally have k: "k \<in> set [1, 2, 3, 4, 5, 6, 7, 8, 9, 10, 11, 12, 13, 14, 15, 16, 17, 18, 19, 20, 21, 22, 23, 24, 25, 26, 27, 28]" .
  show "speed28 (instr28 (step_code k) d) = word_of_int (k * 9 div 2)" "instr28 (step_code k) d AND 0x20 \<noteq> 0 \<longleftrightarrow> d"
    "instr28 (step_code k) d AND 0xE0 = (if d then 0x60 else 0x40)" "uint (word_of_int (k * 9 div 2) AND 0x7F :: byte) = k * 9 div 2"
    using k unfolding set_simps
    by (elim insertE emptyE; cases d; simp add: speed28_def instr28_def step_code_def Let_def bit_uint)+
qed

lemma code_of_parts: "code_of sp d AND 0x7F = sp AND 0x7F" "code_of sp d AND 0x80 \<noteq> 0 \<longleftrightarrow> d"
  using speed_code_parts [of sp d] by (simp_all add: code_of_def)

lemma step_again:
  assumes "1 \<le> k" "k \<le> 28"
  shows "(k * 9 div 2 * 10 + 36) div 46 = (k :: int)"
proof -
  have "k * 9 div 2 * 2 \<le> k * 9" "k * 9 \<le> k * 9 div 2 * 2 + 1" by linarith+
  then have "46 * k \<le> k * 9 div 2 * 10 + 36" "k * 9 div 2 * 10 + 36 < 46 * k + 46" using assms by linarith+
  then show ?thesis by (intro int_div_pos_eq [where r = "k * 9 div 2 * 10 + 36 - 46 * k"]) simp_all
qed

text \<open>
  The speed read from a 28-step packet is encoded as that packet again, although the 126 speeds
  share 28 codes.
\<close>

lemma recode28:
  fixes code :: byte
  assumes "n \<le> 28"
  defines "i \<equiv> hd (speed_bytes n code)"
  shows "speed_bytes n (code_of (speed28 i) (i AND 0x20 \<noteq> 0)) = speed_bytes n code" "i AND 0xE0 = 0x40 \<or> i AND 0xE0 = 0x60"
proof -
  let ?v = "code AND 0x7F" and ?d = "code AND 0x80 \<noteq> 0"
  have "speed_bytes n (code_of (speed28 i) (i AND 0x20 \<noteq> 0)) = speed_bytes n code \<and> (i AND 0xE0 = 0x40 \<or> i AND 0xE0 = 0x60)"
  proof (cases "?v = 0 \<or> ?v = 1")
    case True
    then have i: "i = instr28 ?v ?d" by (simp add: i_def speed_bytes_28 [OF assms(1)])
    have "speed28 i = ?v" "i AND 0x20 \<noteq> 0 \<longleftrightarrow> ?d" "i AND 0xE0 = (if ?d then 0x60 else 0x40)"
      unfolding i using True by (cases ?d; auto simp: speed28_def instr28_def Let_def)+
    with True show ?thesis by (auto simp: speed_bytes_28 [OF assms(1)] code_of_parts)
  next
    case False
    define k where "k = (uint ?v * 10 + 36) div 46"
    have "uint ?v = uint code mod 128" by (simp add: and_7F)
    then have "uint ?v < 128" "0 \<le> uint ?v" by simp_all
    moreover have "uint ?v \<noteq> 0" "uint ?v \<noteq> 1" using False by (simp_all add: word_uint_eq_iff)
    ultimately have k: "1 \<le> k" "k \<le> 28" unfolding k_def by linarith+
    have i: "i = instr28 (step_code k) ?d" using False by (simp add: i_def k_def speed_bytes_28 [OF assms(1)])
    note st = instr28_step(1-3) [OF k, of ?d] instr28_step(4) [OF k]
    let ?w = "word_of_int (k * 9 div 2) :: byte"
    have "4 \<le> uint (?w AND 0x7F)" unfolding st(4) using k(1) by linarith
    then have "?w AND 0x7F \<noteq> 0" "?w AND 0x7F \<noteq> 1" by (auto simp: word_uint_eq_iff)
    then show ?thesis using False st(3)
      by (simp add: i st(1,2,4) speed_bytes_28 [OF assms(1)] code_of_parts step_again [OF k] k_def [symmetric])
  qed
  then show "speed_bytes n (code_of (speed28 i) (i AND 0x20 \<noteq> 0)) = speed_bytes n code" "i AND 0xE0 = 0x40 \<or> i AND 0xE0 = 0x60"
    by blast+
qed

text \<open>What a speed packet is recognised by, as \<open>updateLoco\<close> stores it.\<close>

definition sniffed_code :: "byte \<Rightarrow> byte \<Rightarrow> byte" where
  "sniffed_code n code = (if n \<le> 28 then hd (speed_bytes n code) AND 0x3F else code)"

lemma parse_steps:
  assumes "1 \<le> cab" "cab \<le> 10239"
  shows "\<exists>sp d. speed_bytes n (code_of sp d) = speed_bytes n code \<and> (\<forall>now s.
    parse True now (with_checksum (cab_bytes cab @ speed_bytes n code)) s =
    sniff_speed now (word_of_int cab) (sniffed_code n code) sp d s)"
proof (cases "n \<le> 28")
  case True
  define i where "i = hd (speed_bytes n code)"
  have b: "speed_bytes n code = [i]" using True by (simp add: i_def speed_bytes_28)
  note r = recode28 [OF True, of code, folded i_def]
  have c: "(word_of_int cab :: u16) \<noteq> 0" using uint_u16 [of cab] assms by auto
  have "parse True now (with_checksum (cab_bytes cab @ [i])) s =
      sniff_speed now (word_of_int cab) (sniffed_code n code) (speed28 i) (i AND 0x20 \<noteq> 0) s" for now s
    using parse_cab [OF assms, of "[i]" now s] r(2) c True by (auto simp: decode_mobile_def at_def sniffed_code_def i_def [symmetric])
  with r(1) show ?thesis unfolding b by blast
next
  case False
  have "code_of (code AND 0x7F) (code AND 0x80 \<noteq> 0) = code"
  proof -
    have "uint (code AND 0x7F) = uint code mod 128" by (simp add: and_7F)
    moreover have "code AND 0x80 \<noteq> 0 \<longleftrightarrow> 128 \<le> uint code" by (rule and_80)
    moreover have "uint code < 256" using uint_bounded [of code] by simp
    moreover have "128 \<le> uint code \<Longrightarrow> uint code mod 128 = uint code - 128"
      using \<open>uint code < 256\<close> by (intro int_mod_pos_eq [where q = 1]) simp_all
    ultimately have "uint (code_of (code AND 0x7F) (code AND 0x80 \<noteq> 0)) = uint code"
      by (auto simp: code_of_def uint_word_ariths)
    then show ?thesis by (simp add: word_uint_eq_iff)
  qed
  with parse_speed [OF assms] False show ?thesis
    by (intro exI [of _ "code AND 0x7F"] exI [of _ "code AND 0x80 \<noteq> 0"]) (simp add: speed_bytes_def sniffed_code_def)
qed

lemma sniffer_kept: "snifferSpeedCode (slot (set_target now cab sp sc a s) b) = snifferSpeedCode (slot s b)"
proof -
  have "snifferSpeedCode (slot (fold (copy_target sc) as s) b) = snifferSpeedCode (slot s b)" for as s b
    by (induction as arbitrary: s) (auto simp: copy_target_def)
  moreover have "snifferSpeedCode (slot (fold (setThrottle2_step sc) as s) b) = snifferSpeedCode (slot s b)" for as s b
    by (induction as arbitrary: s) (auto simp: setThrottle2_step_def)
  ultimately show ?thesis by (simp add: set_target_def setThrottle2_def Let_def)
qed

lemma throttle_here:
  fixes now sp d
  assumes "at_slot cab a s" "cab \<noteq> 0" "\<not> isConsistFollower (slot s a)"
  defines "s' \<equiv> snd (setThrottle now cab sp d s)"
  shows "at_slot cab a s'" "targetSpeed (slot s' a) = code_of sp d" "snifferSpeedCode (slot s' a) = snifferSpeedCode (slot s a)"
proof -
  have i: "dcc_inv s" "find_slot cab (dslots s) = Some a" using assms(1) by (simp_all add: at_slot_def)
  then have g: "get_slot (uint cab) True s = (Some a, s)" using assms(2) by (simp add: get_slot_def getSlot_found)
  have s': "s' = (if targetSpeed (slot s a) = code_of sp d then s else set_target now cab sp (code_of sp d) a s)"
    unfolding s'_def using assms(2,3) g by (simp add: setThrottle_def Let_def code_of_def)
  show "at_slot cab a s'" using sl.set_target_kept [OF assms(1)] assms(1) s' by simp
  show "targetSpeed (slot s' a) = code_of sp d"
    using s' set_target_target [OF i(1) _ assms(3)] find_slot_Some [OF i(2)] by simp
  show "snifferSpeedCode (slot s' a) = snifferSpeedCode (slot s a)" using s' sniffer_kept by simp
qed

text \<open>A new speed code sets the throttle; heard again, it changes nothing.\<close>

lemma sniffed_speed:
  assumes "dcc_inv s" "cab \<noteq> 0" "get_slot (uint cab) True s = (Some a, s1)" "\<not> isConsistFollower (slot s1 a)"
    "snifferSpeedCode (slot s1 a) \<noteq> c"
  shows "\<exists>s'. sniff_speed now cab c sp d s = Some (True, s') \<and> getThrottleSpeedByte (uint cab) s' = code_of sp d \<and>
    (\<forall>later. sniff_speed later cab c sp d s' = Some (False, s'))"
proof -
  let ?s2 = "put a (\<lambda>x. x\<lparr>snifferSpeedCode := c\<rparr>) s1"
  let ?s' = "snd (setThrottle now cab sp d ?s2)"
  note f = get_slot_Some [OF assms(1,3), simplified word_of_int_uint]
  have "at_slot cab a s1" using f(1,3) by (simp add: at_slot_def)
  then have at: "at_slot cab a ?s2" by (intro sl.put_kept keeps_consist_fields)
  have "\<not> isConsistFollower (slot ?s2 a)" using assms(4) by (simp add: isConsistFollower_def)
  note t = throttle_here [OF at assms(2) this, of now sp d]
  have "sniff_speed now cab c sp d s = Some (True, ?s')"
    using assms(2,3,5) by (auto simp: sniff_speed_def updateLoco_def)
  moreover have "get_slot (uint cab) True ?s' = (Some a, ?s')" using t(1) assms(2) by (simp add: at_slot_def get_slot_def getSlot_found)
  then have "sniff_speed later cab c sp d ?s' = Some (False, ?s')" for later
    using assms(2) t(3) by (simp add: sniff_speed_def updateLoco_def)
  moreover have "getThrottleSpeedByte (uint cab) ?s' = code_of sp d"
    using t(1,2) by (simp add: getThrottleSpeedByte_def at_slot_def get_slot_search)
  ultimately show ?thesis by blast
qed

section \<open>From the waveform to the packet\<close>

lemma heard_accessory:
  assumes t: "wf_track t" "remainingPreambles t = requiredPreambles t" "transmitRepeats t = 0" "11 \<le> requiredPreambles t"
    and sched: "schedulePacket (accessory_bytes a port g) 2 reps t = Some t'" "reps < 256" "\<not> packetPending t"
    and s: "sniffer_ok sf" "\<not> inpacket sf" "half_period sf True one" "half_period sf False zero" "outpacket sf = []"
    and new: "prevpacket sf \<noteq> with_checksum (accessory_bytes a port g)"
  shows "fst (fetchPacket (heard now one zero t' sf)) = with_checksum (accessory_bytes a port g)"
proof -
  let ?bs = "accessory_bytes a port g"
  have len: "length ?bs = 2" by (simp add: accessory_bytes_def)
  have "length (pendingPacket t) = 6" using t(1) by (simp add: wf_track_def MAX_PACKET_SIZE_def)
  then have p: "packetPending t'" "take (pendingLength t') (pendingPacket t') = with_checksum ?bs"
      "remainingPreambles t' = remainingPreambles t" "requiredPreambles t' = requiredPreambles t" "transmitRepeats t' = transmitRepeats t"
    using sched(1,3) len
    by (auto simp: schedulePacket_def Let_def MAX_PACKET_SIZE_def clearResets_def with_checksum_def memcpy_into_def
      take_Suc_conv_app_nth numeral_3_eq_3 numeral_2_eq_2 split: if_splits)
  have "wf_track t'" by (rule wf_schedulePacket [OF t(1) _ sched(2,1)]) (simp add: len)
  from heard_packet [OF this, of sf one zero now] p t s new show ?thesis
    by (simp add: fetchPacket_def)
qed

section \<open>Properties\<close>

text \<open>
  C32: decoding inverts the encoding of speeds. Take the packet, with its checksum, that a station sends for
  a loco from 1 to 10239 and a speed code, with 28 or 128 speed steps. Decoded by another station in
  which the loco has or gets a slot, follows no other loco in a consist and was not heard with this code last,
  it sets the loco's throttle to a speed that this station would send as the very same speed bytes (with 128
  steps: to the same speed code), and the same packet heard again changes nothing.
\<close>

theorem decoder_inverts:
  assumes "dcc_inv s" and "1 \<le> cab" and "cab \<le> 10239"
    and "get_slot cab True s = (Some a, s1)" and "\<not> isConsistFollower (slot s1 a)"
    and "snifferSpeedCode (slot s1 a) \<noteq> sniffed_code n code"
  shows "\<exists>s'. parse True now (with_checksum (cab_bytes cab @ speed_bytes n code)) s = Some (True, s') \<and>
    speed_bytes n (getThrottleSpeedByte cab s') = speed_bytes n code \<and>
    (\<forall>later. parse True later (with_checksum (cab_bytes cab @ speed_bytes n code)) s' = Some (False, s'))"
proof -
  have u: "uint (word_of_int cab :: u16) = cab" using assms(2,3) by (simp add: uint_word_of_int)
  then have "(word_of_int cab :: u16) \<noteq> 0" using assms(2) by auto
  with sniffed_speed [of s "word_of_int cab" a s1 "sniffed_code n code" now, unfolded u] assms
    parse_steps [OF assms(2,3), of n code] show ?thesis by metis
qed

theorem decoder_inverts_witness:
  "\<exists>s'. parse True 0 (with_checksum (cab_bytes 3 @ speed_bytes 28 0xE4)) demo = Some (True, s') \<and>
     speed_bytes 28 (getThrottleSpeedByte 3 s') = speed_bytes 28 0xE4 \<and> with_checksum (cab_bytes 3 @ speed_bytes 28 0xE4) = [3, 0x7C, 0x7F]"
proof -
  have f: "find_slot 3 (dslots demo) = Some 0" "dslots demo = two_locos" using two_locos_facts(2) by (simp_all add: demo_slots)
  have g: "get_slot 3 True demo = (Some 0, demo)" using f(1) demo_inv by (simp add: get_slot_def getSlot_found)
  have c: "\<not> isConsistFollower (slot demo 0)" "snifferSpeedCode (slot demo 0) \<noteq> sniffed_code 28 0xE4" by code_simp+
  have "with_checksum (cab_bytes 3 @ speed_bytes 28 0xE4) = [3, 0x7C, 0x7F]" by code_simp
  with decoder_inverts [OF demo_inv _ _ g c, of 0] show ?thesis by auto
qed

text \<open>
  C30: an accessory command travels from one station to another. A station hands the packet of an
  accessory command to its waveform generator; another station, whose sniffer hears the signal
  and whose decoder is switched on, executes the same command on its own state.
\<close>

theorem accessory_relayed:
  assumes "wf_track t" and "remainingPreambles t = requiredPreambles t" and "transmitRepeats t = 0"
    and "11 \<le> requiredPreambles t" and "\<not> packetPending t" and "reps < 256"
    and "schedulePacket (accessory_bytes a port g) 2 reps t = Some t'"
    and "sniffer_ok sf" and "\<not> inpacket sf" and "outpacket sf = []"
    and "prevpacket sf \<noteq> with_checksum (accessory_bytes a port g)"
    and "half_period sf True one" and "half_period sf False zero"
    and "0 \<le> a" and "a \<le> 511" and "port < 4"
  shows "parse True now (fst (fetchPacket (heard ms one zero t' sf))) s = Some (True, setAccessory a port g 1 s)"
  using heard_accessory [OF assms(1-4,7,6,5,8,9,12,13,10,11), of ms] parse_accessory(1) [OF assms(14-16)] by simp

theorem accessory_relayed_witness:
  "let t = (newTrack PREAMBLE_BITS_MAIN True)\<lparr>remainingPreambles := 17\<rparr>
   in \<exists>t'. schedulePacket (accessory_bytes 300 2 True) 2 3 t = Some t' \<and>
      parse True 0 (fst (fetchPacket (heard 0 4640 9280 t' sample_sniffer))) (dcc_init boot_queues two_locos) =
        Some (True, setAccessory 300 2 True 1 (dcc_init boot_queues two_locos))"
proof -
  let ?t = "(newTrack PREAMBLE_BITS_MAIN True)\<lparr>remainingPreambles := 17\<rparr>"
  let ?s = sample_sniffer
  have t: "wf_track ?t" "remainingPreambles ?t = requiredPreambles ?t" "transmitRepeats ?t = 0" "11 \<le> requiredPreambles ?t"
      "\<not> packetPending ?t"
    by (simp_all add: wf_track_def newTrack_def PREAMBLE_BITS_MAIN_def MAX_PACKET_SIZE_def memcpy_into_def Waveform.idlePacket_def)
  have s: "sniffer_ok ?s" "\<not> inpacket ?s" "outpacket ?s = []" "prevpacket ?s \<noteq> with_checksum (accessory_bytes 300 2 True)"
      "half_period ?s True 4640" "half_period ?s False 9280"
    by (simp_all add: sample_sniffer_def new_sniffer_def sniffer_ok_def half_period_def with_checksum_def)
  obtain t' where t': "schedulePacket (accessory_bytes 300 2 True) 2 3 ?t = Some t'"
    using t(5) by (simp add: schedulePacket_def MAX_PACKET_SIZE_def Let_def)
  from accessory_relayed [OF t _ t' s] t' show ?thesis by (simp add: Let_def)
qed

text \<open>
  A packet can make the decoder read past its end. A three-byte packet whose first byte is the
  start of a long loco address has only its checksum left for the instruction; when that is
  the 128-step speed instruction, the code reads the speed behind the last byte.
\<close>

theorem decoder_overread:
  "xor_all [0xC1, 0xFE, 0x3F] = 0 \<and> parse True now [0xC1, 0xFE, 0x3F] s = None"
  by (simp add: parse_def at_def decode_mobile_def bit_uint)

end
