(* ===== verification/Commands.thy ===== *)
theory Commands
  imports DccProps AckProgs EEStore CommandSyntax Decoder
begin

text \<open>
  The commands of the native protocol, \<^verbatim>\<open>DCCEXParser::parse\<close>, \<^verbatim>\<open>parseOne\<close> and the functions
  they call in \<^verbatim>\<open>src/DCCEXParser.cpp\<close>, on the state of the whole station: the layout with its DCC
  layer, the programming track, and the parser's own memory of a programming command that waits
  for its result.

  A handler returns whether it accepted the command; a command nobody accepts is answered
  \<^verbatim>\<open><X>\<close>. A reply is the format string of the code with its arguments. \<open>None\<close> is an access outside the
  command buffer or the parameter array, or through a null pointer. The commands of components
  that are not modelled (tracks, turntables, displays, diagnostics) are one argument, \<open>others\<close>, and
  the filters that EXRAIL and the camera parser may register are another, \<open>filters\<close>; they are
  functions on the parameters of the command. The clock, the compile-time options, the outcome of
  \<^verbatim>\<open>calloc\<close> and \<^verbatim>\<open>IODevice::hasCallback\<close> are the fields of \<open>env\<close>.
\<close>

section \<open>State\<close>

datatype reply = Reply string "int list"

record station =
  board :: layout
  prog :: ack
  stashBusy :: bool
  stashP :: "u16 list"
  replies :: "reply list"

record env =
  millis :: u32
  RCN_213 :: bool
  ACCESSORY_REVERSE :: bool
  calloc :: bool
  hasCallback :: "u16 \<Rightarrow> bool"

definition answer :: "string \<Rightarrow> int list \<Rightarrow> station \<Rightarrow> station" where
  "answer f args s = s\<lparr>replies := replies s @ [Reply f args]\<rparr>"

definition on_dcc :: "(dcc \<Rightarrow> dcc) \<Rightarrow> station \<Rightarrow> station" where
  "on_dcc f s = s\<lparr>board := (board s)\<lparr>dcc_state := f (dcc_state (board s))\<rparr>\<rparr>"

definition on_board :: "(layout \<Rightarrow> layout) \<Rightarrow> station \<Rightarrow> station" where
  "on_board f s = s\<lparr>board := f (board s)\<rparr>"

text \<open>Running a call that returns whether it worked.\<close>

definition try_dcc :: "(dcc \<Rightarrow> bool \<times> dcc) \<Rightarrow> station \<Rightarrow> bool \<times> station" where
  "try_dcc f s = (let (ok, d) = f (dcc_state (board s)) in (ok, on_dcc (\<lambda>_. d) s))"

definition try_board :: "(layout \<Rightarrow> bool \<times> layout) \<Rightarrow> station \<Rightarrow> bool \<times> station" where
  "try_board f s = (let (ok, l) = f (board s) in (ok, on_board (\<lambda>_. l) s))"

definition then_O :: "bool \<times> station \<Rightarrow> bool \<times> station" where
  "then_O r = (if fst r then (True, answer ''<O>'' [] (snd r)) else r)"

definition rem4 :: "int \<Rightarrow> int" where
  "rem4 x = x - 4 * trunc_div x 4"

section \<open>Results of programming commands\<close>

definition callback_W :: nat where "callback_W = 1"

definition callback_W4 :: nat where "callback_W4 = 2"

definition callback_B :: nat where "callback_B = 3"

definition callback_Vbit :: nat where "callback_Vbit = 4"

definition callback_Vbyte :: nat where "callback_Vbyte = 5"

definition callback_R :: nat where "callback_R = 6"

definition callback_Rloco :: nat where "callback_Rloco = 7"

definition callback_Wloco :: nat where "callback_Wloco = 8"

definition callback_Wconsist :: nat where "callback_Wconsist = 9"

definition stashed :: "station \<Rightarrow> nat \<Rightarrow> int" where
  "stashed s i = sint (stashP s ! i)"

definition rloco_reply :: "u16 \<Rightarrow> int \<Rightarrow> reply" where
  "rloco_reply p0 result =
    (let typetag = (if p0 = hk ''LOCOID'' then ''LOCOID '' else if p0 = hk ''CONSIST'' then ''CONSIST '' else '''')
     in if result \<le> 0 then Reply (''<r '' @ typetag @ ''%d>'') [result]
        else
          (let longAddr = (result AND LONG_ADDR_MARKER \<noteq> 0);
               result = (if longAddr then result XOR LONG_ADDR_MARKER else result)
           in if longAddr \<and> result \<le> HIGHEST_SHORT_ADDR then Reply (''<r LONG '' @ typetag @ ''%d UNSUPPORTED>'') [result]
              else Reply (''<r '' @ typetag @ ''%d>'') [result]))"

definition callback_reply :: "nat \<Rightarrow> int \<Rightarrow> station \<Rightarrow> reply" where
  "callback_reply f result s =
    (let p = stashed s
     in if f = callback_W then Reply ''<r %d %d>'' [p 0, if result = 1 then p 1 else -1]
        else if f = callback_W4 then Reply ''<r%d|%d|%d %d>'' [p 2, p 3, p 0, if result = 1 then p 1 else -1]
        else if f = callback_B then Reply ''<r%d|%d|%d %d %d>'' [p 3, p 4, p 0, p 1, if result = 1 then p 2 else -1]
        else if f = callback_Vbit then Reply ''<v %d %d %d>'' [p 0, p 1, result]
        else if f = callback_Vbyte then Reply ''<v %d %d>'' [p 0, result]
        else if f = callback_R then Reply ''<r%d|%d|%d %d>'' [p 1, p 2, p 0, result]
        else if f = callback_Rloco then rloco_reply (stashP s ! 0) result
        else if f = callback_Wloco then Reply ''<w %d>'' [if result = 1 then p 0 else result]
        else Reply (''<w CONSIST %d'' @ (if stashP s ! 2 = hk ''REVERSE'' then '' REVERSE>'' else ''>''))
               [if result = 1 then p 1 else result])"

text \<open>The callbacks answer with what was stashed and free the stash.\<close>

definition run_callback :: "nat \<times> int \<Rightarrow> station \<Rightarrow> station" where
  "run_callback c s = s\<lparr>replies := replies s @ [callback_reply (fst c) (snd c) s], stashBusy := False\<rparr>"

definition deliver :: "station \<Rightarrow> station" where
  "deliver s = fold run_callback (callbacks (prog s)) (s\<lparr>prog := (prog s)\<lparr>callbacks := []\<rparr>\<rparr>)"

definition on_prog :: "(ack \<Rightarrow> ack) \<Rightarrow> station \<Rightarrow> station" where
  "on_prog f s = deliver (s\<lparr>prog := f (prog s)\<rparr>)"

definition stashCallback :: "u16 list \<Rightarrow> station \<Rightarrow> bool \<times> station" where
  "stashCallback p s = (if stashBusy s then (False, s) else (True, s\<lparr>stashBusy := True, stashP := p\<rparr>))"

section \<open>Locos and accessories\<close>

text \<open>The speed of the protocol, -1 to 126, as a DCC speed; \<open>None\<close> is out of range.\<close>

definition dcc_speed :: "int \<Rightarrow> int option" where
  "dcc_speed v = (if v > 126 \<or> v < -1 then None else Some (if v < 0 then 1 else if v > 0 then v + 1 else 0))"

definition cmd_t :: "env \<Rightarrow> nat \<Rightarrow> u16 list \<Rightarrow> station \<Rightarrow> bool \<times> station" where
  "cmd_t e params p s =
    (let v = (\<lambda>i. sint (p ! i))
     in if params = 1 then
          (if v 0 < 0 \<or> v 0 > 10239 then (False, s)
           else case get_slot (v 0) False (dcc_state (board s)) of
                  (Some a, _) \<Rightarrow> (True, on_dcc (log_event (BroadcastLoco a)) s)
                | (None, _) \<Rightarrow> (True, answer ''<l %d -1 128 0>'' [v 0] s))
        else if params \<noteq> 3 \<and> params \<noteq> 4 then (False, s)
        else
          (let b = (if params = 4 then 1 else 0); cab = v b; direction = v (b + 2)
           in case dcc_speed (v (b + 1)) of
                None \<Rightarrow> (False, s)
              | Some tspeed \<Rightarrow>
                  if cab = 0 \<and> tspeed > 1 then (False, s)
                  else if direction < 0 \<or> direction > 1 then (False, s)
                  else if cab > 10239 \<or> cab < 0 then (False, s)
                  else
                    (let (ok, s) = try_dcc (setThrottle (millis e) (word_of_int cab) (word_of_int tspeed) (direction \<noteq> 0)) s
                     in if \<not> ok then (False, s)
                        else (True, if params = 4 then answer ''<T %d %d %d>'' [v 0, v 2, v 3] s else s))))"

definition parsef :: "nat \<Rightarrow> u16 list \<Rightarrow> station \<Rightarrow> bool \<times> station" where
  "parsef params p s =
    (let cab = sint (p ! 0); b = (ucast (p ! 1) :: byte); c = (ucast (p ! 2) :: byte);
         map_range = (\<lambda>value low high. try_dcc (funcmap cab value low high) s)
     in if params = 2 \<and> b AND 0xE0 = 0x80 then map_range ((push_bit 1 b AND 0x1e) OR (drop_bit 4 b AND 0x01)) 0 4
        else if params = 2 \<and> b AND 0xE0 = 0xA0 then (if b AND 0x10 \<noteq> 0 then map_range b 5 8 else map_range b 9 12)
        else if params = 3 \<and> sint (p ! 1) = 222 then map_range c 13 20
        else if params = 3 \<and> sint (p ! 1) = 223 then map_range c 21 28
        else (False, s))"

text \<open>The address, the port, the place of the activation and the on/off choice of an accessory command.\<close>

definition accessory_params :: "nat \<Rightarrow> u16 list \<Rightarrow> (int \<times> byte \<times> nat \<times> byte) option" where
  "accessory_params params p =
    (let v = (\<lambda>i. sint (p ! i))
     in if params = 2 then Some (trunc_div (v 0 - 1) 4 + 1, word_of_int (rem4 (v 0 - 1)), 1, 2)
        else if params = 3 then Some (v 0, ucast (p ! 1), 2, 2)
        else if params = 4 then (if v 3 < 0 \<or> v 3 > 1 then None else Some (v 0, ucast (p ! 1), 2, ucast (p ! 3)))
        else None)"

definition cmd_a :: "env \<Rightarrow> nat \<Rightarrow> u16 list \<Rightarrow> station \<Rightarrow> bool \<times> station" where
  "cmd_a e params p s =
    (case accessory_params params p of
       None \<Rightarrow> (False, s)
     | Some (adr, sub, activep, onoff) \<Rightarrow>
         if adr AND 0x01FF \<noteq> adr \<or> sub AND 0x03 \<noteq> sub \<or> sint (p ! activep) > 1 \<or> sint (p ! activep) < 0
         then (False, s)
         else (True, on_dcc (setAccessory adr sub
                 (sint (p ! activep) = (if ACCESSORY_REVERSE e then 0 else 1)) onoff) s))"

definition cmd_A :: "nat \<Rightarrow> u16 list \<Rightarrow> station \<Rightarrow> bool \<times> station" where
  "cmd_A params p s = (if params = 2 then try_dcc (setExtendedAccessory (sint (p ! 0)) (sint (p ! 1)) 3) s else (False, s))"

definition cmd_w :: "nat \<Rightarrow> u16 list \<Rightarrow> station \<Rightarrow> bool \<times> station" where
  "cmd_w params p s =
    (if params \<noteq> 3 then (False, s) else (True, on_dcc (writeCVByteMain (sint (p ! 0)) (sint (p ! 1)) (ucast (p ! 2))) s))"

definition cmd_b :: "nat \<Rightarrow> u16 list \<Rightarrow> station \<Rightarrow> bool \<times> station" where
  "cmd_b params p s =
    (if params \<noteq> 4 then (False, s)
     else (True, on_dcc (writeCVBitMain (sint (p ! 0)) (sint (p ! 1)) (ucast (p ! 2)) (p ! 3 \<noteq> 0)) s))"

definition cmd_m :: "nat \<Rightarrow> u16 list \<Rightarrow> station \<Rightarrow> bool \<times> station" where
  "cmd_m params p s =
    (if params = 1 then
       (if p ! 0 = hk ''LINEAR'' then (True, on_dcc (\<lambda>d. d\<lparr>linearAcceleration := True\<rparr>) s)
        else if p ! 0 = hk ''POWER'' then (True, on_dcc (\<lambda>d. d\<lparr>linearAcceleration := False\<rparr>) s)
        else (False, s))
     else if params < 2 \<or> params > 3 then (False, s)
     else try_dcc (setMomentum (sint (p ! 0)) (sint (p ! 1)) (sint (p ! (if params = 2 then 1 else 2)))) s)"

definition cmd_estop :: "u16 list \<Rightarrow> station \<Rightarrow> bool \<times> station" where
  "cmd_estop p s =
    (True,
     if p ! 0 = hk ''P'' then on_dcc (estopLock True) s
     else if p ! 0 = hk ''R'' then on_dcc (estopLock False) s
     else if p ! 0 = hk ''Q'' then answer (if estopIsLocked (dcc_state (board s)) then ''<!PAUSED>'' else ''<!RESUMED>'') [] s
     else on_dcc estopAll s)"

definition cmd_forget :: "nat \<Rightarrow> u16 list \<Rightarrow> station \<Rightarrow> bool \<times> station" where
  "cmd_forget params p s =
    (if params > 1 \<or> sint (p ! 0) < 0 then (False, s)
     else (True, on_dcc (if p ! 0 = 0 then forgetAllLocos else forgetLoco (sint (p ! 0))) s))"

definition cmd_F :: "nat \<Rightarrow> u16 list \<Rightarrow> station \<Rightarrow> bool \<times> station" where
  "cmd_F params p s =
    (if params \<noteq> 3 then (False, s)
     else if p ! 1 = hk ''DCFREQ'' then
       (if sint (p ! 2) < 0 \<or> sint (p ! 2) > 3 then (False, s)
        else (True, on_dcc (setDCFreq (sint (p ! 0)) (ucast (p ! 2))) s))
     else try_dcc (setFn (sint (p ! 0)) (sint (p ! 1)) (p ! 2 = 1)) s)"

definition consist_reply :: "consist_msg \<Rightarrow> reply" where
  "consist_reply m =
    (case m of
       ConsistList ms \<Rightarrow> Reply ''<^ %d...>'' (map (\<lambda>(r, n). if r then - uint n else uint n) ms)
     | InvalidLocoid x \<Rightarrow> Reply ''<* Invalid locoid %d *>'' [x]
     | DuplicateLocoid x \<Rightarrow> Reply ''<* Duplicate locoid %d *>'' [x]
     | InAnotherConsist x \<Rightarrow> Reply ''<* Loco %d in another consist *>'' [x])"

definition cmd_consist :: "nat \<Rightarrow> u16 list \<Rightarrow> station \<Rightarrow> (bool \<times> station) option" where
  "cmd_consist params p s =
    (case Consist.parse (map sint (take params p)) (dslots (dcc_state (board s))) of
       (None, _) \<Rightarrow> None
     | (Some ok, msgs, t) \<Rightarrow>
         Some (ok, (on_dcc (\<lambda>d. d\<lparr>dslots := t\<rparr>) s)\<lparr>replies := replies s @ map consist_reply msgs\<rparr>))"

section \<open>Turnouts, outputs, sensors and the EEPROM\<close>

definition turnout_print :: "turnout \<Rightarrow> reply list" where
  "turnout_print t =
    (let i = uint (t_id t); th = (if closed t then 0 else 1)
     in case kind t of
          Servo v c h pr \<Rightarrow> [Reply ''<H %d SERVO %d %d %d %d %d>'' [i, uint v, uint h, uint c, uint pr, th]]
        | DCC a sub \<Rightarrow> [Reply ''<H %d DCC %d %d %d>'' [i, uint a, uint sub, th], Reply ''<H %d %d %d %d>'' [i, uint a, uint sub, th]]
        | Vpin v \<Rightarrow> [Reply ''<H %d VPIN %d %d>'' [i, uint v, th]]
        | LCN \<Rightarrow> [Reply ''<H %d LCN %d>'' [i, th]])"

definition turnouts_print :: "turnout list \<Rightarrow> bool \<times> reply list" where
  "turnouts_print ts =
    (let shown = filter (\<lambda>t. \<not> hidden t) ts
     in (shown \<noteq> [], map (\<lambda>t. Reply ''<H %d %d>'' [uint (t_id t), if closed t then 0 else 1]) shown))"

definition send_all :: "reply list \<Rightarrow> station \<Rightarrow> station" where
  "send_all rs s = s\<lparr>replies := replies s @ rs\<rparr>"

text \<open>\<open>None\<close> in the second component: the parameters of \<^verbatim>\<open><T id p>\<close> are not valid.\<close>

definition turnout_target :: "u16 \<Rightarrow> bool option" where
  "turnout_target w =
    (if w = 0 \<or> w = hk ''C'' then Some True else if w = 1 \<or> w = hk ''T'' then Some False else None)"

definition turnout_create :: "nat \<Rightarrow> u16 list \<Rightarrow> layout \<Rightarrow> bool \<times> layout" where
  "turnout_create params p l =
    (let i = p ! 0; v = (\<lambda>i. sint (p ! i))
     in if params = 6 \<and> p ! 1 = hk ''SERVO'' then (True, create_servo i (p ! 2) (p ! 3) (p ! 4) (ucast (p ! 5)) True l)
        else if params = 3 \<and> p ! 1 = hk ''VPIN'' then (True, create_vpin i (p ! 2) True l)
        else if params \<ge> 3 \<and> p ! 1 = hk ''DCC'' then
          (if params = 4 \<and> v 2 \<ge> 0 \<and> v 2 < 512 \<and> v 3 \<ge> 0 \<and> v 3 < 4 then (True, create_dcc i (p ! 2) (ucast (p ! 3)) l)
           else if params = 3 \<and> v 2 > 0 \<and> v 2 \<le> 512 * 4
           then (True, create_dcc i (word_of_int (trunc_div (v 2 - 1) 4 + 1)) (word_of_int (rem4 (v 2 - 1))) l)
           else (False, l))
        else if params = 3 then
          (if v 1 \<ge> 0 \<and> v 1 < 512 \<and> v 2 \<ge> 0 \<and> v 2 < 4 then (True, create_dcc i (p ! 1) (ucast (p ! 2)) l) else (False, l))
        else if params = 4 then (True, create_servo i (p ! 1) (p ! 2) (p ! 3) 1 True l)
        else (False, l))"

definition parseT :: "env \<Rightarrow> nat \<Rightarrow> u16 list \<Rightarrow> station \<Rightarrow> bool \<times> station" where
  "parseT e params p s =
    (if params = 0 then (let (got, rs) = turnouts_print (turnouts (board s)) in (got, send_all rs s))
     else if params = 1 then then_O (try_board (Turnouts.remove (p ! 0)) s)
     else if params = 2 then
       (case turnout_target (p ! 1) of
          Some close \<Rightarrow> try_board (setClosed (RCN_213 e) (p ! 0) close) s
        | None \<Rightarrow>
            if p ! 1 = hk ''X'' then
              (case Turnouts.get (p ! 0) (board s) of Some t \<Rightarrow> (True, send_all (turnout_print t) s) | None \<Rightarrow> (False, s))
            else (False, s))
     else then_O (try_board (turnout_create params p) s))"

definition parseZ :: "env \<Rightarrow> nat \<Rightarrow> u16 list \<Rightarrow> station \<Rightarrow> bool \<times> station" where
  "parseZ e params p s =
    (if params = 2 then
       (case activate (p ! 0) (p ! 1) (board s) of
          None \<Rightarrow> (False, s)
        | Some l \<Rightarrow> (True, answer ''<Y %d %d>'' [sint (p ! 0), sint (p ! 1)] (on_board (\<lambda>_. l) s)))
     else if params = 3 then
       (if sint (p ! 0) < 0 \<or> sint (p ! 2) < 0 \<or> sint (p ! 2) > 7 then (False, s)
        else then_O (try_board (Outputs.create (calloc e) (p ! 0) (p ! 1) (p ! 2) 1) s))
     else if params = 1 then then_O (try_board (Outputs.remove (p ! 0)) s)
     else if params = 0 then
       (outputs (board s) \<noteq> [],
        send_all (map (\<lambda>out. Reply ''<Y %d %d %d %d>'' [uint (o_id out), uint (o_pin out), uint (oStatus out AND 0x7F),
          if bit (oStatus out) 7 then 1 else 0]) (outputs (board s))) s)
     else (False, s))"

definition parseS :: "env \<Rightarrow> nat \<Rightarrow> u16 list \<Rightarrow> station \<Rightarrow> bool \<times> station" where
  "parseS e params p s =
    (if params = 3 then then_O (try_board (Sensors.create (calloc e) (hasCallback e) (p ! 0) (p ! 1) (p ! 2)) s)
     else if params = 1 then then_O (try_board (Sensors.remove (p ! 0)) s)
     else if params = 0 then
       (True, send_all (map (\<lambda>x. Reply ''<Q %d %d %d>'' [sint (snum x), uint (pin x), uint (pullUp x)]) (sensors (board s))) s)
     else (False, s))"

definition cmd_Q :: "station \<Rightarrow> bool \<times> station" where
  "cmd_Q s = (True, send_all (map (\<lambda>x. Reply (if active x then ''<Q %d>'' else ''<q %d>'') [sint (snum x)]) (sensors (board s))) s)"

definition cmd_E :: "station \<Rightarrow> bool \<times> station" where
  "cmd_E s =
    (let s = on_board EEStore.store s; d = data (board s)
     in (True, answer ''<e %d %d %d>'' [uint (nTurnouts d), uint (nSensors d), uint (nOutputs d)] s))"

definition cmd_e :: "station \<Rightarrow> bool \<times> station" where
  "cmd_e s = (True, answer ''<O>'' [] (on_board clear s))"

definition cmd_z :: "nat \<Rightarrow> u16 list \<Rightarrow> station \<Rightarrow> bool \<times> station" where
  "cmd_z params p s =
    (if p ! 0 = 0 then (False, s)
     else if params = 1 then
       (True, on_board (emit_io (if sint (p ! 0) > 0 then Write (p ! 0) True else Write (- (p ! 0)) False)) s)
     else if 2 \<le> params \<and> params \<le> 4 then (True, on_board (emit_io (WriteAnalogue (p ! 0) (p ! 1) (ucast (p ! 2)) (p ! 3))) s)
     else (False, s))"

section \<open>The programming track\<close>

definition stash_then :: "u16 list \<Rightarrow> (station \<Rightarrow> bool \<times> station) \<Rightarrow> station \<Rightarrow> bool \<times> station" where
  "stash_then p f s = (let (ok, s) = stashCallback p s in if ok then f s else (False, s))"

definition cmd_W :: "nat \<Rightarrow> u16 list \<Rightarrow> station \<Rightarrow> bool \<times> station" where
  "cmd_W params p = stash_then p (\<lambda>s.
    if params = 1 then (True, on_prog (setLocoId (sint (p ! 0)) callback_Wloco) s)
    else if params = 4 then (True, on_prog (writeCVByte (sint (p ! 0)) (ucast (p ! 1)) callback_W4) s)
    else if (params = 2 \<or> params = 3) \<and> p ! 0 = hk ''CONSIST''
    then (True, on_prog (setConsistId (sint (p ! 1)) (p ! 2 = hk ''REVERSE'') callback_Wconsist) s)
    else if params = 2 then (True, on_prog (writeCVByte (sint (p ! 0)) (ucast (p ! 1)) callback_W) s)
    else (False, s))"

definition cmd_V :: "nat \<Rightarrow> u16 list \<Rightarrow> station \<Rightarrow> bool \<times> station" where
  "cmd_V params p s =
    (if params = 2 then
       stash_then p (\<lambda>s. (True, on_prog (verifyCVByte (sint (p ! 0)) (ucast (p ! 1)) callback_Vbyte) s)) s
     else if params = 3 then
       stash_then p (\<lambda>s. (True, on_prog (verifyCVBit (sint (p ! 0)) (ucast (p ! 1)) (p ! 2 \<noteq> 0) callback_Vbit) s)) s
     else (False, s))"

definition cmd_B :: "nat \<Rightarrow> u16 list \<Rightarrow> station \<Rightarrow> bool \<times> station" where
  "cmd_B params p s =
    (if params \<noteq> 3 \<and> params \<noteq> 5 then (False, s)
     else stash_then p (\<lambda>s. (True, on_prog (writeCVBit (sint (p ! 0)) (ucast (p ! 1)) (p ! 2 \<noteq> 0) callback_B) s)) s)"

definition cmd_R :: "nat \<Rightarrow> u16 list \<Rightarrow> station \<Rightarrow> bool \<times> station" where
  "cmd_R params p s =
    (if params = 1 then
       stash_then p (\<lambda>s. (True, on_prog
         (if p ! 0 = hk ''LOCOID'' then getLocoId callback_Rloco
          else if p ! 0 = hk ''CONSIST'' then getConsistId callback_Rloco
          else verifyCVByte (sint (p ! 0)) 0 callback_Vbyte) s)) s
     else if params = 3 then stash_then p (\<lambda>s. (True, on_prog (readCV (sint (p ! 0)) callback_R) s)) s
     else if params = 0 then stash_then p (\<lambda>s. (True, on_prog (getDriveawayLocoId callback_Rloco) s)) s
     else (False, s))"

section \<open>Dispatch\<close>

definition dispatch ::
  "env \<Rightarrow> (byte \<Rightarrow> nat \<Rightarrow> u16 list \<Rightarrow> station \<Rightarrow> (bool \<times> station) option) \<Rightarrow> byte \<Rightarrow> nat \<Rightarrow> u16 list \<Rightarrow> station \<Rightarrow> (bool \<times> station) option" where
  "dispatch e others opc params p s =
    (if opc = 0 then Some (True, s)
     else if opc = 0x74 then Some (cmd_t e params p s)
     else if opc = 0x66 then Some (parsef params p s)
     else if opc = 0x61 then Some (cmd_a e params p s)
     else if opc = 0x41 then Some (cmd_A params p s)
     else if opc = 0x54 then Some (parseT e params p s)
     else if opc = 0x7A then Some (cmd_z params p s)
     else if opc = 0x5A then Some (parseZ e params p s)
     else if opc = 0x53 then Some (parseS e params p s)
     else if opc = 0x77 then Some (cmd_w params p s)
     else if opc = 0x62 then Some (cmd_b params p s)
     else if opc = 0x6D then Some (cmd_m params p s)
     else if opc = 0x57 then Some (cmd_W params p s)
     else if opc = 0x56 then Some (cmd_V params p s)
     else if opc = 0x42 then Some (cmd_B params p s)
     else if opc = 0x52 then Some (cmd_R params p s)
     else if opc = 0x21 then Some (cmd_estop p s)
     else if opc = 0x51 then Some (cmd_Q s)
     else if opc = 0x45 then Some (cmd_E s)
     else if opc = 0x65 then Some (cmd_e s)
     else if opc = 0x2D then Some (cmd_forget params p s)
     else if opc = 0x46 then Some (cmd_F params p s)
     else if opc = 0x5E then cmd_consist params p s
     else others opc params p s)"

definition parseOne ::
  "env \<Rightarrow> (byte \<Rightarrow> nat \<Rightarrow> u16 list \<Rightarrow> byte \<times> nat \<times> u16 list) \<Rightarrow>
   (byte \<Rightarrow> nat \<Rightarrow> u16 list \<Rightarrow> station \<Rightarrow> (bool \<times> station) option) \<Rightarrow> byte list \<Rightarrow> station \<Rightarrow> (byte list \<times> station) option" where
  "parseOne e filters others com s =
    (let lead = takeWhile (\<lambda>b. b = 0x3C \<or> b = 0x20) com; cmd = drop (length lead) com;
         opc = (if cmd = [] then 0 else hd cmd)
     in case splitValues cmd (opc = 0x4D \<or> opc = 0x50) of
          None \<Rightarrow> None
        | Some (splitnum, p, buf) \<Rightarrow>
            if splitnum < 0 \<or> splitnum \<ge> int MAX_COMMAND_PARAMS then Some (lead @ buf, answer ''<X>'' [] s)
            else
              (case filters opc (nat splitnum) p of
                 (opc, params, p) \<Rightarrow>
                   (case dispatch e others opc params p s of
                      None \<Rightarrow> None
                    | Some (ok, s) \<Rightarrow> Some (lead @ buf, if ok then s else answer ''<X>'' [] s))))"

text \<open>
  The loop over the buffer \<open>com\<close>; \<open>n\<close> counts the bytes ahead of the cursor. A command that is found
  runs on the text from its start to the next terminator, and what it overwrites stays so.
\<close>

definition text_from :: "nat \<Rightarrow> byte list \<Rightarrow> byte list" where
  "text_from i com = takeWhile (\<lambda>b. b \<noteq> 0) (drop i com)"

definition run_from ::
  "env \<Rightarrow> (byte \<Rightarrow> nat \<Rightarrow> u16 list \<Rightarrow> byte \<times> nat \<times> u16 list) \<Rightarrow>
   (byte \<Rightarrow> nat \<Rightarrow> u16 list \<Rightarrow> station \<Rightarrow> (bool \<times> station) option) \<Rightarrow> nat option \<Rightarrow> byte list \<Rightarrow> station \<Rightarrow> (byte list \<times> station) option" where
  "run_from e filters others later com s =
    (case later of
       None \<Rightarrow> Some (com, s)
     | Some i \<Rightarrow>
         (case parseOne e filters others (text_from i com) s of
            None \<Rightarrow> None
          | Some (buf, s) \<Rightarrow> Some (take i com @ buf @ drop (i + length buf) com, s)))"

fun parse_loop ::
  "env \<Rightarrow> (byte \<Rightarrow> nat \<Rightarrow> u16 list \<Rightarrow> byte \<times> nat \<times> u16 list) \<Rightarrow>
   (byte \<Rightarrow> nat \<Rightarrow> u16 list \<Rightarrow> station \<Rightarrow> (bool \<times> station) option) \<Rightarrow>
   nat \<Rightarrow> nat option \<Rightarrow> bool \<Rightarrow> byte list \<Rightarrow> station \<Rightarrow> station option" where
  "parse_loop e filters others 0 later found com s = map_option snd (run_from e filters others later com s)"
| "parse_loop e filters others (Suc n) later found com s =
    (let i = length com - Suc n; c = com ! i
     in if c = 0 then map_option snd (run_from e filters others later com s)
        else
          (let later = (if found then Some i else later)
           in if c = 0x3C then
                (case run_from e filters others later com s of
                   None \<Rightarrow> None
                 | Some (com, s) \<Rightarrow> parse_loop e filters others n later True com s)
              else parse_loop e filters others n later False com s))"

definition parse ::
  "env \<Rightarrow> (byte \<Rightarrow> nat \<Rightarrow> u16 list \<Rightarrow> byte \<times> nat \<times> u16 list) \<Rightarrow>
   (byte \<Rightarrow> nat \<Rightarrow> u16 list \<Rightarrow> station \<Rightarrow> (bool \<times> station) option) \<Rightarrow> byte list \<Rightarrow> station \<Rightarrow> station option" where
  "parse e filters others com s = parse_loop e filters others (length com) None (com \<noteq> [] \<and> hd com \<noteq> 0x3C) com s"

end
