(* ===== verification/CommandProps.thy ===== *)
theory CommandProps
  imports Commands
begin

text \<open>
  What commands do to the station: every command, whatever its text, keeps the invariants of the
  components it reaches and returns; and what particular commands achieve.
\<close>

section \<open>Splitting always ends within the buffer\<close>




section \<open>The invariant of the layout\<close>

text \<open>
  The DCC layer is well formed, the turnouts, sensors and outputs have distinct ids, and the sensor
  to be read next is one of the list: it is not left dangling when a sensor is removed.
\<close>

definition cursor_ok :: "layout \<Rightarrow> bool" where
  "cursor_ok l \<longleftrightarrow> (\<forall>n. readingSensor l = Some n \<longrightarrow> n \<in> snum ` set (sensors l))"

definition board_inv :: "layout \<Rightarrow> bool" where
  "board_inv l \<longleftrightarrow> dcc_inv (dcc_state l) \<and> distinct (map t_id (turnouts l)) \<and> distinct (map snum (sensors l)) \<and>
     distinct (map o_id (outputs l)) \<and> cursor_ok l"

lemma board_inv_other [simp]:
  "board_inv (emit_io e l) = board_inv l" "board_inv (l\<lparr>eeprom := m\<rparr>) = board_inv l" "board_inv (l\<lparr>data := d\<rparr>) = board_inv l"
  "board_inv (l\<lparr>eeAddress := a\<rparr>) = board_inv l" "board_inv (l\<lparr>turnoutlistHash := h\<rparr>) = board_inv l"
  "board_inv (put_advance bs l) = board_inv l" "board_inv (reset l) = board_inv l"
  by (simp_all add: board_inv_def cursor_ok_def emit_io_def put_advance_def reset_def)




















section \<open>Consist commands and the reminder cursor\<close>










section \<open>The invariant of the station\<close>

definition station_inv :: "station \<Rightarrow> bool" where
  "station_inv s \<longleftrightarrow> board_inv (board s) \<and> ack_inv (prog s)"

lemma station_inv_other [simp]:
  "station_inv (answer f args s) = station_inv s" "station_inv (send_all rs s) = station_inv s"
  "station_inv (s\<lparr>replies := r\<rparr>) = station_inv s" "station_inv (s\<lparr>stashBusy := b\<rparr>) = station_inv s"
  "station_inv (s\<lparr>stashBusy := b, stashP := p\<rparr>) = station_inv s"
  by (simp_all add: station_inv_def answer_def send_all_def)





lemma then_O_inv [simp]: "station_inv (snd (then_O r)) = station_inv (snd r)"
  by (simp add: then_O_def)

lemma ack_inv_callbacks [simp]: "ack_inv (a\<lparr>callbacks := c\<rparr>) = ack_inv a"
  by (simp add: ack_inv_def)




section \<open>Every command keeps it\<close>















section \<open>Start and polling\<close>





text \<open>What loading the turnouts leaves alone.\<close>

definition no_turnouts :: "layout \<Rightarrow> dcc \<times> sensor list \<times> Output list \<times> u16 option" where
  "no_turnouts l = (dcc_state l, sensors l, outputs l, readingSensor l)"

lemma no_turnouts_simps [simp]:
  "no_turnouts (l\<lparr>turnouts := x\<rparr>) = no_turnouts l" "no_turnouts (l\<lparr>eeAddress := a\<rparr>) = no_turnouts l"
  "no_turnouts (emit_io e l) = no_turnouts l" "no_turnouts (update i f l) = no_turnouts l"
  "no_turnouts (new_turnout i k c l) = no_turnouts l" "no_turnouts (snd (Turnouts.remove i l)) = no_turnouts l"
  "no_turnouts (Turnouts.make i k c l) = no_turnouts l"
  by (auto simp: no_turnouts_def emit_io_def update_def new_turnout_def add_def Turnouts.remove_def Turnouts.make_def split: option.split)



section \<open>The running station\<close>






section \<open>Properties\<close>


definition demo_board :: layout where
  "demo_board = power_on (\<lambda>_. 0) (dcc_init boot_queues (new_table (\<lambda>_. blank_loco) 20 50))"

definition demo_station :: station where
  "demo_station = \<lparr>board = (read_header demo_board)\<lparr>eeAddress := 13\<rparr>, prog = blank_ack (newTrack PREAMBLE_BITS_PROG False),
     stashBusy = False, stashP = [], replies = []\<rparr>"






text \<open>
  C37: a write command with a wrong number of parameters blocks the programming track. The command takes
  the stash before it looks at the parameters; it is refused, and from then on every command that
  programs or reads a decoder is refused and changes nothing, as no callback will ever free the stash.
\<close>

theorem bad_write_blocks:
  assumes "\<not> stashBusy s" "params \<notin> {1, 2, 4}" "params = 3 \<longrightarrow> p ! 0 \<noteq> hk ''CONSIST''"
  shows "\<not> fst (cmd_W params p s) \<and>
    (\<forall>n q. let s' = snd (cmd_W params p s) in
       cmd_W n q s' = (False, s') \<and> cmd_V n q s' = (False, s') \<and> cmd_B n q s' = (False, s') \<and> cmd_R n q s' = (False, s'))"
  using assms by (auto simp: cmd_W_def cmd_V_def cmd_B_def cmd_R_def stash_then_def stashCallback_def Let_def)

theorem bad_write_blocks_witness:
  "\<not> fst (cmd_W 5 [1, 2, 3, 4, 5] demo_station) \<and>
   cmd_R 3 [8, 1, 2] (snd (cmd_W 5 [1, 2, 3, 4, 5] demo_station)) = (False, snd (cmd_W 5 [1, 2, 3, 4, 5] demo_station))"
  using bad_write_blocks [of demo_station 5 "[1, 2, 3, 4, 5]"] by (simp add: demo_station_def Let_def)

end
