(* ===== verification/RingStream.thy ===== *)
theory RingStream
  imports WordFacts
begin

text \<open>
  The ring buffer that holds the replies for network clients, \<^verbatim>\<open>src/RingStream.cpp\<close>: a reply is
  written between \<^verbatim>\<open>mark\<close> and \<^verbatim>\<open>commit\<close>, framed by the client's number and its length, and thrown away
  as a whole when it does not fit. On processors with 16-bit pointers a text in flash is not copied:
  the ring holds a marker byte and the text's address, and \<^verbatim>\<open>read\<close> takes the bytes from flash.

  \<open>flash\<close> is the flash memory; \<open>small\<close> says that pointers have two bytes. The members keep their
  names without the underscore.
\<close>

section \<open>Model\<close>

definition FLASH_INSERT_MARKER :: byte where "FLASH_INSERT_MARKER = 0xff"

definition NO_CLIENT :: byte where "NO_CLIENT = 255"

record RingStream =
  len :: nat
  pos_write :: nat
  pos_read :: nat
  overflow :: bool
  mark_pos :: nat
  cnt :: int
  buffer :: "byte list"
  flashInsert :: u16
  ringClient :: byte

text \<open>\<open>m\<close> is what the new memory holds.\<close>

definition newRing :: "byte list \<Rightarrow> RingStream" where
  "newRing m = \<lparr>len = length m, pos_write = 0, pos_read = 0, overflow = False, mark_pos = 0, cnt = 0,
     buffer = m[0 := 0], flashInsert = 0, ringClient = NO_CLIENT\<rparr>"

definition ring_write :: "byte \<Rightarrow> RingStream \<Rightarrow> nat \<times> RingStream" where
  "ring_write b r =
    (if overflow r then (0, r)
     else
       (let r = r\<lparr>buffer := (buffer r)[pos_write r := b], pos_write := pos_write r + 1\<rparr>;
            r = (if pos_write r = len r then r\<lparr>pos_write := 0\<rparr> else r)
        in if pos_write r = pos_read r then (0, r\<lparr>overflow := True\<rparr>) else (1, r\<lparr>cnt := cnt r + 1\<rparr>)))"

definition write_all :: "byte list \<Rightarrow> RingStream \<Rightarrow> RingStream" where
  "write_all bs r = fold (\<lambda>b r. snd (ring_write b r)) bs r"

text \<open>The text at an address in flash, up to its terminator.\<close>

fun flash_text :: "(u16 \<Rightarrow> byte) \<Rightarrow> nat \<Rightarrow> u16 \<Rightarrow> byte list" where
  "flash_text flash 0 a = []"
| "flash_text flash (Suc n) a = (if flash a = 0 then [] else flash a # flash_text flash n (a + 1))"

definition strlen_P :: "(u16 \<Rightarrow> byte) \<Rightarrow> u16 \<Rightarrow> byte list" where
  "strlen_P flash a = flash_text flash 65535 a"

definition printFlash :: "(u16 \<Rightarrow> byte) \<Rightarrow> bool \<Rightarrow> u16 \<Rightarrow> RingStream \<Rightarrow> RingStream" where
  "printFlash flash small a r =
    (let text = strlen_P flash a
     in if \<not> small then write_all text r
        else if text = [] then r
        else (write_all [FLASH_INSERT_MARKER, lowByte a, highByte a] r)\<lparr>cnt := cnt r + int (length text)\<rparr>)"

text \<open>One place further, around the end.\<close>

definition next_pos :: "RingStream \<Rightarrow> nat \<Rightarrow> nat" where
  "next_pos r i = (if i + 1 = len r then 0 else i + 1)"

definition readRawByte :: "RingStream \<Rightarrow> byte \<times> RingStream" where
  "readRawByte r =
    (buffer r ! pos_read r, r\<lparr>pos_read := next_pos r (pos_read r), overflow := False\<rparr>)"

partial_function (option) read :: "(u16 \<Rightarrow> byte) \<Rightarrow> bool \<Rightarrow> RingStream \<Rightarrow> (int \<times> RingStream) option" where
  "read flash small r =
    (if flashInsert r \<noteq> 0 \<and> flash (flashInsert r) \<noteq> 0
     then Some (uint (flash (flashInsert r)), r\<lparr>flashInsert := flashInsert r + 1\<rparr>)
     else
       (let r = r\<lparr>flashInsert := 0\<rparr>
        in if pos_read r = pos_write r \<and> \<not> overflow r then Some (-1, r)
           else
             (let (b, r) = readRawByte r
              in if b \<noteq> FLASH_INSERT_MARKER then Some (uint b, r)
                 else if \<not> small then Some (0x3F, r)
                 else
                   (let (lo, r) = readRawByte r; (hi, r) = readRawByte r
                    in read flash small (r\<lparr>flashInsert := ucast lo OR push_bit 8 (ucast hi)\<rparr>)))))"

text \<open>
  The two bytes of the length as the number they stand for. Where an \<^verbatim>\<open>int\<close> has 16 bits the code's value would be negative
  from 32768 on; the rings of those boards are far shorter.
\<close>

definition count :: "RingStream \<Rightarrow> int \<times> RingStream" where
  "count r = (let (h, r) = readRawByte r; (l, r) = readRawByte r in (256 * uint h + uint l, r))"

definition freeSpace :: "RingStream \<Rightarrow> int" where
  "freeSpace r =
    (if pos_read r > pos_write r then int (pos_read r) - int (pos_write r) - 3
     else int (len r) - int (pos_write r) + int (pos_read r) - 3)"

definition mark :: "byte \<Rightarrow> RingStream \<Rightarrow> RingStream" where
  "mark b r = (write_all [b, 0, 0] (r\<lparr>ringClient := b, mark_pos := pos_write r\<rparr>))\<lparr>cnt := 0\<rparr>"

definition peekTargetMark :: "RingStream \<Rightarrow> byte" where
  "peekTargetMark r = ringClient r"

definition commit :: "RingStream \<Rightarrow> bool \<times> RingStream" where
  "commit r =
    (let r = r\<lparr>flashInsert := 0\<rparr>
     in if overflow r then (False, r\<lparr>pos_write := mark_pos r, overflow := False\<rparr>)
        else if cnt r = 0 then (True, r\<lparr>pos_write := mark_pos r, ringClient := NO_CLIENT\<rparr>)
        else
          (let c = (word_of_int (cnt r) :: u16); m1 = next_pos r (mark_pos r); m2 = next_pos r m1
           in (True, r\<lparr>mark_pos := m2, buffer := (buffer r)[m1 := highByte c, m2 := lowByte c], ringClient := NO_CLIENT\<rparr>)))"

definition flush :: "RingStream \<Rightarrow> RingStream" where
  "flush r = r\<lparr>pos_write := 0, pos_read := 0, buffer := (buffer r)[0 := 0], flashInsert := 0, ringClient := NO_CLIENT\<rparr>"

definition peek :: "RingStream \<Rightarrow> int" where
  "peek r = (if pos_read r = pos_write r \<and> \<not> overflow r then -1 else uint (buffer r ! pos_read r))"

section \<open>The bytes a ring holds\<close>

definition holds_at :: "RingStream \<Rightarrow> byte list \<Rightarrow> bool" where
  "holds_at r xs \<longleftrightarrow> length (buffer r) = len r \<and> pos_read r < len r \<and> length xs < len r \<and>
     (\<forall>i < length xs. buffer r ! ((pos_read r + i) mod len r) = xs ! i)"

definition ring_rep :: "RingStream \<Rightarrow> byte list \<Rightarrow> bool" where
  "ring_rep r xs \<longleftrightarrow> holds_at r xs \<and> pos_write r = (pos_read r + length xs) mod len r \<and> \<not> overflow r"

text \<open>While a message is written: \<open>xs\<close> was there before, \<open>ys\<close> has been written since the mark.\<close>

definition msg_rep :: "RingStream \<Rightarrow> byte list \<Rightarrow> byte list \<Rightarrow> bool" where
  "msg_rep r xs ys \<longleftrightarrow> mark_pos r = (pos_read r + length xs) mod len r \<and> holds_at r xs \<and>
     (if overflow r then length xs + length ys \<ge> len r else ring_rep r (xs @ ys))"

lemma step_mod: "p < n \<Longrightarrow> (if Suc p = n then 0 else Suc p) = Suc p mod n"
  by (simp add: mod_Suc)

lemma next_pos_mod: "i < len r \<Longrightarrow> next_pos r i = Suc i mod len r"
  using step_mod [of i "len r"] by (simp add: next_pos_def)

lemma mod_add_less:
  assumes "i \<le> j" "j < n" "(p + i) mod n = (p + j) mod n"
  shows "i = (j :: nat)"
proof (rule ccontr)
  assume "i \<noteq> j"
  have "n dvd (p + j) - (p + i)" using assms(1,3) by (subst mod_eq_dvd_iff_nat [symmetric]) simp_all
  then have "n dvd j - i" by simp
  moreover have "0 < j - i" "j - i < n" using assms(1,2) \<open>i \<noteq> j\<close> by simp_all
  ultimately show False by (simp add: nat_dvd_not_less)
qed

lemma mod_add_inj: "i < n \<Longrightarrow> j < n \<Longrightarrow> (p + i) mod n = (p + j) mod n \<longleftrightarrow> i = j" for i j n p :: nat
  using mod_add_less [of i j n p] mod_add_less [of j i n p] by (cases "i \<le> j") auto

section \<open>Writing\<close>

lemma write_cases:
  assumes "ring_rep r xs"
  shows "ring_write b r =
    (let r' = r\<lparr>buffer := (buffer r)[pos_write r := b], pos_write := (pos_read r + Suc (length xs)) mod len r\<rparr>
     in if Suc (length xs) = len r then (0, r'\<lparr>overflow := True\<rparr>) else (1, r'\<lparr>cnt := cnt r + 1\<rparr>))"
proof -
  let ?n = "len r"
  have p: "pos_write r = (pos_read r + length xs) mod ?n" "pos_read r < ?n" "length xs < ?n" "\<not> overflow r"
    using assms by (auto simp: ring_rep_def holds_at_def)
  then have "(if Suc (pos_write r) = ?n then 0 else Suc (pos_write r)) = Suc (pos_write r) mod ?n" by (intro step_mod) simp
  also have "\<dots> = (pos_read r + Suc (length xs)) mod ?n" by (simp add: p(1) mod_Suc_eq)
  finally have w: "(if Suc (pos_write r) = ?n then 0 else Suc (pos_write r)) = (pos_read r + Suc (length xs)) mod ?n" .
  have e: "(pos_read r + Suc (length xs)) mod ?n = pos_read r \<longleftrightarrow> Suc (length xs) = ?n"
  proof (cases "Suc (length xs) = ?n")
    case False
    then show ?thesis using p(2,3) mod_add_inj [of "Suc (length xs)" ?n 0 "pos_read r"] by simp
  qed (use p(2) in simp)
  show ?thesis using p(4) w e by (cases r) (auto simp: ring_write_def Let_def split: if_splits)
qed

lemma holds_other:
  assumes "holds_at r xs" "length xs \<le> j" "j < len r"
  shows "holds_at (r\<lparr>buffer := (buffer r)[(pos_read r + j) mod len r := b], pos_write := w\<rparr>) xs"
proof -
  have "(pos_read r + j) mod len r \<noteq> (pos_read r + i) mod len r" if "i < length xs" for i
    using mod_add_inj [of j "len r" i "pos_read r"] that assms(2,3) by simp
  then show ?thesis using assms(1) by (simp add: holds_at_def)
qed

lemma write_ok:
  assumes "ring_rep r xs" "Suc (length xs) < len r"
  shows "ring_rep (snd (ring_write b r)) (xs @ [b])" "cnt (snd (ring_write b r)) = cnt r + 1"
proof -
  have h: "holds_at r xs" and w: "pos_write r = (pos_read r + length xs) mod len r" using assms(1) by (simp_all add: ring_rep_def)
  have "\<forall>i < Suc (length xs). (buffer r)[pos_write r := b] ! ((pos_read r + i) mod len r) = (xs @ [b]) ! i"
  proof (intro allI impI)
    fix i assume i: "i < Suc (length xs)"
    have "(pos_read r + i) mod len r = pos_write r \<longleftrightarrow> i = length xs"
      unfolding w using mod_add_inj [of i "len r" "length xs" "pos_read r"] i assms(2) by simp
    moreover have "pos_write r < length (buffer r)" unfolding w using h by (simp add: holds_at_def)
    ultimately show "(buffer r)[pos_write r := b] ! ((pos_read r + i) mod len r) = (xs @ [b]) ! i"
      using h i by (cases "i = length xs") (simp_all add: holds_at_def nth_append)
  qed
  then show "ring_rep (snd (ring_write b r)) (xs @ [b])" "cnt (snd (ring_write b r)) = cnt r + 1"
    using h assms by (simp_all add: write_cases [OF assms(1)] ring_rep_def holds_at_def Let_def)
qed

lemma write_parts [simp]:
  "len (snd (ring_write b r)) = len r" "pos_read (snd (ring_write b r)) = pos_read r" "mark_pos (snd (ring_write b r)) = mark_pos r"
  "flashInsert (snd (ring_write b r)) = flashInsert r" "ringClient (snd (ring_write b r)) = ringClient r"
  by (simp_all add: ring_write_def Let_def)

lemma write_msg:
  assumes "msg_rep r xs ys"
  shows "msg_rep (snd (ring_write b r)) xs (ys @ [b])"
    and "\<not> overflow (snd (ring_write b r)) \<Longrightarrow> cnt (snd (ring_write b r)) = cnt r + 1"
proof -
  have h: "holds_at r xs" and m: "mark_pos r = (pos_read r + length xs) mod len r" using assms by (simp_all add: msg_rep_def)
  consider (over) "overflow r" | (full) "ring_rep r (xs @ ys)" "Suc (length (xs @ ys)) = len r" | (room) "ring_rep r (xs @ ys)" "Suc (length (xs @ ys)) < len r"
  proof (cases "overflow r")
    case False
    then have r: "ring_rep r (xs @ ys)" using assms by (simp add: msg_rep_def)
    then have "length (xs @ ys) < len r" by (simp add: ring_rep_def holds_at_def)
    then show ?thesis using r that(2,3) by (cases "Suc (length (xs @ ys)) = len r") simp_all
  qed (rule that(1))
  then have "msg_rep (snd (ring_write b r)) xs (ys @ [b]) \<and> (\<not> overflow (snd (ring_write b r)) \<longrightarrow> cnt (snd (ring_write b r)) = cnt r + 1)"
  proof cases
    case over
    then show ?thesis using assms by (simp add: ring_write_def msg_rep_def)
  next
    case full
    have w: "pos_write r = (pos_read r + length (xs @ ys)) mod len r" using full(1) by (simp add: ring_rep_def)
    have "holds_at (r\<lparr>buffer := (buffer r)[pos_write r := b], pos_write := (pos_read r + Suc (length (xs @ ys))) mod len r\<rparr>) xs"
      unfolding w by (rule holds_other [OF h]) (use full(2) in simp_all)
    then have "holds_at (snd (ring_write b r)) xs" using full by (simp add: write_cases [OF full(1)] holds_at_def Let_def)
    then show ?thesis using m full by (simp add: msg_rep_def) (simp add: write_cases [OF full(1)] Let_def)
  next
    case room
    from write_ok [OF room, of b] have r: "ring_rep (snd (ring_write b r)) (xs @ ys @ [b])" "cnt (snd (ring_write b r)) = cnt r + 1" by simp_all
    then have "holds_at (snd (ring_write b r)) xs" by (auto simp: ring_rep_def holds_at_def nth_append)
    then show ?thesis using r m by (simp add: msg_rep_def) (simp add: ring_rep_def)
  qed
  then show "msg_rep (snd (ring_write b r)) xs (ys @ [b])"
    and "\<not> overflow (snd (ring_write b r)) \<Longrightarrow> cnt (snd (ring_write b r)) = cnt r + 1" by simp_all
qed

lemma write_all_msg:
  assumes "msg_rep r xs ys"
  shows "msg_rep (write_all bs r) xs (ys @ bs)"
    and "\<not> overflow (write_all bs r) \<Longrightarrow> cnt (write_all bs r) = cnt r + int (length bs)"
proof -
  have over: "overflow r \<Longrightarrow> write_all bs r = r" for r bs
    by (induction bs) (simp_all add: write_all_def ring_write_def)
  have "msg_rep (write_all bs r) xs (ys @ bs) \<and> (\<not> overflow (write_all bs r) \<longrightarrow> cnt (write_all bs r) = cnt r + int (length bs))"
    using assms
  proof (induction bs arbitrary: r ys)
    case (Cons b bs)
    note w = write_msg [OF Cons.prems, of b]
    have "write_all (b # bs) r = write_all bs (snd (ring_write b r))" by (simp add: write_all_def)
    then show ?case using Cons.IH [OF w(1)] w(2) over [of "snd (ring_write b r)" bs] by (cases "overflow (snd (ring_write b r))") simp_all
  qed (simp add: write_all_def)
  then show "msg_rep (write_all bs r) xs (ys @ bs)"
    and "\<not> overflow (write_all bs r) \<Longrightarrow> cnt (write_all bs r) = cnt r + int (length bs)" by simp_all
qed

lemma write_all_parts [simp]:
  "len (write_all bs r) = len r" "pos_read (write_all bs r) = pos_read r" "mark_pos (write_all bs r) = mark_pos r"
  by (induction bs arbitrary: r) (simp_all add: write_all_def)

lemma rep_fields [simp]:
  "holds_at (r\<lparr>cnt := c\<rparr>) xs = holds_at r xs" "ring_rep (r\<lparr>cnt := c\<rparr>) xs = ring_rep r xs"
  "msg_rep (r\<lparr>cnt := c\<rparr>) xs ys = msg_rep r xs ys"
  "holds_at (r\<lparr>flashInsert := f\<rparr>) xs = holds_at r xs" "ring_rep (r\<lparr>flashInsert := f\<rparr>) xs = ring_rep r xs"
  "holds_at (r\<lparr>ringClient := b\<rparr>) xs = holds_at r xs" "ring_rep (r\<lparr>ringClient := b\<rparr>) xs = ring_rep r xs"
  "holds_at (r\<lparr>pos_write := w\<rparr>) xs = holds_at r xs" "holds_at (r\<lparr>overflow := v\<rparr>) xs = holds_at r xs"
  by (simp_all add: holds_at_def ring_rep_def msg_rep_def)

lemma mark_msg: "ring_rep r xs \<Longrightarrow> msg_rep (mark c r) xs [c, 0, 0]"
proof -
  assume "ring_rep r xs"
  then have "msg_rep (r\<lparr>ringClient := c, mark_pos := pos_write r\<rparr>) xs []"
    by (simp add: msg_rep_def ring_rep_def holds_at_def)
  from write_all_msg(1) [OF this, of "[c, 0, 0]"] show ?thesis by (simp add: mark_def)
qed

text \<open>The parts of a message: bytes, or the address of a text in flash.\<close>

datatype piece = Bytes "byte list" | InFlash u16

fun emit_piece :: "(u16 \<Rightarrow> byte) \<Rightarrow> bool \<Rightarrow> piece \<Rightarrow> RingStream \<Rightarrow> RingStream" where
  "emit_piece flash small (Bytes bs) r = write_all bs r"
| "emit_piece flash small (InFlash a) r = printFlash flash small a r"

fun piece_text :: "(u16 \<Rightarrow> byte) \<Rightarrow> piece \<Rightarrow> byte list" where
  "piece_text flash (Bytes bs) = bs"
| "piece_text flash (InFlash a) = strlen_P flash a"

fun piece_raw :: "(u16 \<Rightarrow> byte) \<Rightarrow> bool \<Rightarrow> piece \<Rightarrow> byte list" where
  "piece_raw flash small (Bytes bs) = bs"
| "piece_raw flash small (InFlash a) =
    (if \<not> small then strlen_P flash a else if strlen_P flash a = [] then [] else [FLASH_INSERT_MARKER, lowByte a, highByte a])"

lemma emit_piece_msg:
  assumes "msg_rep r xs ys"
  shows "msg_rep (emit_piece flash small p r) xs (ys @ piece_raw flash small p) \<and>
    (\<not> overflow (emit_piece flash small p r) \<longrightarrow> \<not> overflow r \<and> cnt (emit_piece flash small p r) = cnt r + int (length (piece_text flash p)))"
proof -
  have over: "overflow r \<Longrightarrow> overflow (write_all bs r)" for r bs
    by (induction bs arbitrary: r) (simp_all add: write_all_def ring_write_def)
  show ?thesis
    using assms write_all_msg [OF assms] over [of r]
    by (cases p) (auto simp: printFlash_def Let_def)
qed

lemma emit_pieces_msg:
  assumes "msg_rep r xs ys"
  shows "msg_rep (fold (emit_piece flash small) ps r) xs (ys @ concat (map (piece_raw flash small) ps)) \<and>
    (\<not> overflow (fold (emit_piece flash small) ps r) \<longrightarrow> \<not> overflow r \<and>
      cnt (fold (emit_piece flash small) ps r) = cnt r + int (length (concat (map (piece_text flash) ps))))"
  using assms
proof (induction ps arbitrary: r ys)
  case (Cons p ps)
  note e = emit_piece_msg [OF Cons.prems, of flash small p]
  from Cons.IH [OF conjunct1 [OF e]] e show ?case by auto
qed simp

section \<open>Committing\<close>

lemma poke:
  assumes "ring_rep r zs" "j < length zs"
  shows "ring_rep (r\<lparr>buffer := (buffer r)[(pos_read r + j) mod len r := b]\<rparr>) (zs[j := b])"
proof -
  have h: "length (buffer r) = len r" "pos_read r < len r" "length zs < len r"
      "\<forall>i < length zs. buffer r ! ((pos_read r + i) mod len r) = zs ! i" using assms(1) by (simp_all add: ring_rep_def holds_at_def)
  have "(buffer r)[(pos_read r + j) mod len r := b] ! ((pos_read r + i) mod len r) = zs[j := b] ! i" if "i < length zs" for i
  proof (cases "i = j")
    case True
    then show ?thesis using h that by simp
  next
    case False
    then have "(pos_read r + j) mod len r \<noteq> (pos_read r + i) mod len r"
      using mod_add_inj [of j "len r" i "pos_read r"] assms(2) that h(3) by simp
    with False that h(4) show ?thesis by simp
  qed
  then show ?thesis using assms(1) h by (simp add: ring_rep_def holds_at_def)
qed

lemma commit_ok:
  assumes "msg_rep r xs (c # 0 # 0 # raw)" "\<not> overflow r" "cnt r \<noteq> 0"
  defines "w \<equiv> (word_of_int (cnt r) :: u16)"
  shows "fst (commit r)" "ring_rep (snd (commit r)) (xs @ c # highByte w # lowByte w # raw)"
    "flashInsert (snd (commit r)) = 0"
proof -
  let ?n = "len r" and ?p = "pos_read r" and ?zs = "xs @ c # 0 # 0 # raw"
  have m: "mark_pos r = (?p + length xs) mod ?n" and rep: "ring_rep r ?zs" using assms(1,2) by (simp_all add: msg_rep_def)
  have n: "0 < ?n" "?p < ?n" using rep by (simp_all add: ring_rep_def holds_at_def)
  let ?m1 = "(?p + (length xs + 1)) mod ?n" and ?m2 = "(?p + (length xs + 2)) mod ?n"
  have m1: "next_pos (r\<lparr>flashInsert := 0\<rparr>) (mark_pos r) = ?m1" using n by (simp add: next_pos_mod m mod_Suc_eq)
  have m2: "next_pos (r\<lparr>flashInsert := 0\<rparr>) ?m1 = ?m2" using n by (simp add: next_pos_mod mod_Suc_eq)
  have "ring_rep (r\<lparr>buffer := (buffer r)[?m1 := highByte w]\<rparr>) (?zs[length xs + 1 := highByte w])"
    by (rule poke [OF rep]) simp
  from poke [OF this, of "length xs + 2" "lowByte w"]
  have "ring_rep (r\<lparr>buffer := (buffer r)[?m1 := highByte w, ?m2 := lowByte w]\<rparr>) (?zs[length xs + 1 := highByte w, length xs + 2 := lowByte w])"
    by simp
  moreover have "?zs[length xs + 1 := highByte w, length xs + 2 := lowByte w] = xs @ c # highByte w # lowByte w # raw"
    by (simp add: list_update_append)
  moreover have c: "commit r = (True, r\<lparr>flashInsert := 0, mark_pos := ?m2, buffer := (buffer r)[?m1 := highByte w, ?m2 := lowByte w], ringClient := NO_CLIENT\<rparr>)"
    using assms(2,3) by (simp add: commit_def m1 m2 w_def [symmetric] Let_def del: One_nat_def add_2_eq_Suc' add_Suc_right)
  ultimately show "ring_rep (snd (commit r)) (xs @ c # highByte w # lowByte w # raw)"
    by (simp add: ring_rep_def holds_at_def)
  show "fst (commit r)" "flashInsert (snd (commit r)) = 0" by (simp_all add: c)
qed

lemma commit_back:
  assumes "msg_rep r xs ys" "overflow r \<or> cnt r = 0"
  shows "fst (commit r) = (\<not> overflow r)" "ring_rep (snd (commit r)) xs" "flashInsert (snd (commit r)) = 0"
  using assms by (auto simp: commit_def msg_rep_def ring_rep_def holds_at_def Let_def)

section \<open>Reading\<close>

lemma raw_read:
  assumes "ring_rep r (x # xs)"
  shows "\<exists>r'. readRawByte r = (x, r') \<and> ring_rep r' xs \<and> flashInsert r' = flashInsert r"
proof -
  let ?p = "next_pos r (pos_read r)"
  have h: "length (buffer r) = len r" "pos_read r < len r" "Suc (length xs) < len r" "pos_write r = (pos_read r + Suc (length xs)) mod len r"
      "\<forall>i < Suc (length xs). buffer r ! ((pos_read r + i) mod len r) = (x # xs) ! i"
    using assms by (simp_all add: ring_rep_def holds_at_def)
  have p: "?p = Suc (pos_read r) mod len r" using h(2) by (rule next_pos_mod)
  have "(?p + i) mod len r = (pos_read r + Suc i) mod len r" for i by (simp only: p mod_add_left_eq) simp
  moreover have "buffer r ! pos_read r = x" using h(2) h(5) [rule_format, of 0] by simp
  moreover have "\<forall>i < length xs. buffer r ! ((pos_read r + Suc i) mod len r) = xs ! i" using h(5) by auto
  ultimately show ?thesis
    using h(1-4) by (simp add: readRawByte_def ring_rep_def holds_at_def p Let_def)
qed

lemma rep_nonempty: "ring_rep r (x # xs) \<Longrightarrow> pos_read r \<noteq> pos_write r"
  using mod_add_inj [of 0 "len r" "Suc (length xs)" "pos_read r"] by (auto simp: ring_rep_def holds_at_def)

text \<open>No text in flash is being read, or only its terminator is left.\<close>

definition idle :: "(u16 \<Rightarrow> byte) \<Rightarrow> RingStream \<Rightarrow> bool" where
  "idle flash r \<longleftrightarrow> flashInsert r = 0 \<or> flash (flashInsert r) = 0"

lemma read_plain:
  assumes "ring_rep r (x # xs)" "idle flash r" "x \<noteq> FLASH_INSERT_MARKER"
  shows "\<exists>r'. read flash small r = Some (uint x, r') \<and> ring_rep r' xs \<and> flashInsert r' = 0"
proof -
  from raw_read [of "r\<lparr>flashInsert := 0\<rparr>" x xs] assms(1) obtain r' where
    "readRawByte (r\<lparr>flashInsert := 0\<rparr>) = (x, r')" "ring_rep r' xs" "flashInsert r' = 0" by auto
  then show ?thesis using assms rep_nonempty [OF assms(1)] by (subst read.simps) (auto simp: idle_def)
qed

lemma read_empty: "ring_rep r [] \<Longrightarrow> idle flash r \<Longrightarrow> read flash small r = Some (-1, r\<lparr>flashInsert := 0\<rparr>)"
  by (subst read.simps) (auto simp: idle_def ring_rep_def holds_at_def)

lemma halves_or: "ucast (lowByte a) OR push_bit 8 (ucast (highByte a)) = (a :: u16)"
  by (rule bit_word_eqI) (auto simp: bit_simps lowByte_def highByte_def)

lemma read_marker:
  assumes "ring_rep r (FLASH_INSERT_MARKER # lowByte a # highByte a # xs)" "idle flash r" "a \<noteq> 0" "flash a \<noteq> 0"
  shows "\<exists>r'. read flash True r = Some (uint (flash a), r') \<and> ring_rep r' xs \<and> flashInsert r' = a + 1"
proof -
  have "ring_rep (r\<lparr>flashInsert := 0\<rparr>) (FLASH_INSERT_MARKER # lowByte a # highByte a # xs)" using assms(1) by simp
  from raw_read [OF this] obtain r1 where r1: "readRawByte (r\<lparr>flashInsert := 0\<rparr>) = (FLASH_INSERT_MARKER, r1)" "ring_rep r1 (lowByte a # highByte a # xs)" by blast
  from raw_read [OF r1(2)] obtain r2 where r2: "readRawByte r1 = (lowByte a, r2)" "ring_rep r2 (highByte a # xs)" by blast
  from raw_read [OF r2(2)] obtain r3 where r3: "readRawByte r2 = (highByte a, r3)" "ring_rep r3 xs" by blast
  have "read flash True r = read flash True (r3\<lparr>flashInsert := a\<rparr>)"
    using assms(2) rep_nonempty [OF assms(1)] r1(1) r2(1) r3(1) halves_or [of a]
    by (subst read.simps) (auto simp: idle_def)
  also have "\<dots> = Some (uint (flash a), r3\<lparr>flashInsert := a + 1\<rparr>)" using assms(3,4) by (subst read.simps) simp
  finally show ?thesis using r3(2) by simp
qed

lemma read_flash:
  assumes "ring_rep r xs" "flashInsert r \<noteq> 0" "flash (flashInsert r) \<noteq> 0"
  shows "\<exists>r'. read flash small r = Some (uint (flash (flashInsert r)), r') \<and> ring_rep r' xs \<and> flashInsert r' = flashInsert r + 1"
  using assms by (subst read.simps) simp

section \<open>Reading a message\<close>

fun read_n :: "(u16 \<Rightarrow> byte) \<Rightarrow> bool \<Rightarrow> nat \<Rightarrow> RingStream \<Rightarrow> (int list \<times> RingStream) option" where
  "read_n flash small 0 r = Some ([], r)"
| "read_n flash small (Suc n) r =
    (case read flash small r of
       None \<Rightarrow> None
     | Some (x, r) \<Rightarrow> map_option (\<lambda>(xs, r). (x # xs, r)) (read_n flash small n r))"

lemma read_n_append:
  assumes "read_n flash small m r = Some (xs, r1)" "read_n flash small n r1 = Some (ys, r2)"
  shows "read_n flash small (m + n) r = Some (xs @ ys, r2)"
  using assms by (induction m arbitrary: r xs) (auto split: option.splits)

lemma read_bytes:
  assumes "ring_rep r (bs @ ys)" "idle flash r" "FLASH_INSERT_MARKER \<notin> set bs"
  shows "\<exists>r'. read_n flash small (length bs) r = Some (map uint bs, r') \<and> ring_rep r' ys \<and> idle flash r'"
  using assms
proof (induction bs arbitrary: r)
  case (Cons b bs)
  then obtain r1 where r1: "read flash small r = Some (uint b, r1)" "ring_rep r1 (bs @ ys)" "flashInsert r1 = 0"
    using read_plain [of r b "bs @ ys" flash small] by auto
  moreover from Cons.IH [OF r1(2)] Cons.prems r1(3) obtain r' where
    "read_n flash small (length bs) r1 = Some (map uint bs, r')" "ring_rep r' ys" "idle flash r'" by (auto simp: idle_def)
  ultimately show ?case by simp
qed simp

lemma flash_text_nth:
  "length (flash_text flash n a) < n \<Longrightarrow> i < length (flash_text flash n a) \<Longrightarrow>
    flash_text flash n a ! i = flash (a + of_nat i) \<and> flash (a + of_nat i) \<noteq> 0"
  "length (flash_text flash n a) < n \<Longrightarrow> flash (a + of_nat (length (flash_text flash n a))) = 0"
proof (induction n arbitrary: a i)
  case (Suc n)
  { case 1
    then show ?case using Suc.IH(1) [of "a + 1" "i - 1"] by (cases i) (auto simp: ac_simps split: if_splits)
  next
    case 2
    then show ?case using Suc.IH(2) [of "a + 1"] by (auto simp: ac_simps split: if_splits) }
qed simp_all

lemma no_wrap: "0 < uint a \<Longrightarrow> uint a + int k < 65536 \<Longrightarrow> a + of_nat k \<noteq> (0 :: u16)"
proof -
  assume a: "0 < uint a" "uint a + int k < 65536"
  have "uint (a + of_nat k) = uint a + int k" using a by (simp add: uint_word_arith_bintrs(1) unsigned_of_nat take_bit_eq_mod)
  then show ?thesis using a by (metis add_pos_nonneg of_nat_0_le_iff order_less_irrefl unsigned_0)
qed

lemma read_flash_rest:
  assumes "ring_rep r xs" "flashInsert r = a + of_nat k"
    and "\<And>i. k \<le> i \<Longrightarrow> i < k + n \<Longrightarrow> a + of_nat i \<noteq> 0 \<and> flash (a + of_nat i) \<noteq> 0"
  shows "\<exists>r'. read_n flash small n r = Some (map (\<lambda>i. uint (flash (a + of_nat i))) [k..<k + n], r') \<and> ring_rep r' xs \<and>
    flashInsert r' = a + of_nat (k + n)"
  using assms
proof (induction n arbitrary: r k)
  case (Suc n)
  have "flashInsert r \<noteq> 0" "flash (flashInsert r) \<noteq> 0" using Suc.prems(2) Suc.prems(3) [of k] by simp_all
  from read_flash [where flash = flash and small = small, OF Suc.prems(1) this] obtain r1 where
    r1: "read flash small r = Some (uint (flash (a + of_nat k)), r1)" "ring_rep r1 xs" "flashInsert r1 = a + of_nat (Suc k)"
    using Suc.prems(2) by (auto simp: ac_simps)
  from Suc.IH [OF r1(2,3)] Suc.prems(3) obtain r' where
    "read_n flash small n r1 = Some (map (\<lambda>i. uint (flash (a + of_nat i))) [Suc k..<Suc k + n], r')" "ring_rep r' xs"
    "flashInsert r' = a + of_nat (Suc k + n)" by auto
  moreover have "[k..<k + Suc n] = k # [Suc k..<Suc k + n]" by (simp add: upt_conv_Cons del: upt_Suc)
  ultimately show ?case using r1(1) by (simp del: upt_Suc)
qed simp

definition piece_ok :: "(u16 \<Rightarrow> byte) \<Rightarrow> bool \<Rightarrow> piece \<Rightarrow> bool" where
  "piece_ok flash small p =
    (case p of
       Bytes bs \<Rightarrow> FLASH_INSERT_MARKER \<notin> set bs
     | InFlash a \<Rightarrow> a \<noteq> 0 \<and> uint a + int (length (strlen_P flash a)) < 65535 \<and>
         (small \<or> FLASH_INSERT_MARKER \<notin> set (strlen_P flash a)))"

lemma read_in_flash:
  assumes "ring_rep r (FLASH_INSERT_MARKER # lowByte a # highByte a # ys)" "idle flash r" "piece_ok flash True (InFlash a)" "strlen_P flash a \<noteq> []"
  shows "\<exists>r'. read_n flash True (length (strlen_P flash a)) r = Some (map uint (strlen_P flash a), r') \<and> ring_rep r' ys \<and> idle flash r'"
proof -
  let ?t = "strlen_P flash a"
  have a: "a \<noteq> 0" "uint a + int (length ?t) < 65535" using assms(3) by (simp_all add: piece_ok_def)
  then have pos: "0 < uint a" using uint_ge_0 [of a] unfolding word_uint_eq_iff by (simp add: order_less_le)
  have len: "length (flash_text flash 65535 a) < 65535" using a(2) pos unfolding strlen_P_def by simp
  note t = flash_text_nth [OF len, folded strlen_P_def]
  have nz: "a + of_nat i \<noteq> 0 \<and> flash (a + of_nat i) \<noteq> 0" if "i < length ?t" for i
    using no_wrap [OF pos, of i] t(1) [OF that] a(2) that by simp
  have f: "flash a \<noteq> 0" using nz [of 0] assms(4) by simp
  obtain n where n: "length ?t = Suc n" using assms(4) by (cases ?t) simp_all
  from read_marker [of r a ys, OF assms(1,2) a(1) f] obtain r1 where
    r1: "read flash True r = Some (uint (flash a), r1)" "ring_rep r1 ys" "flashInsert r1 = a + of_nat 1" by auto
  from read_flash_rest [OF r1(2,3), of n flash True] nz n obtain r' where
    r': "read_n flash True n r1 = Some (map (\<lambda>i. uint (flash (a + of_nat i))) [1..<1 + n], r')" "ring_rep r' ys" "flashInsert r' = a + of_nat (1 + n)"
    by auto
  have "map uint ?t = map (\<lambda>i. uint (flash (a + of_nat i))) [0..<length ?t]" using t(1) by (intro nth_equalityI) simp_all
  also have "\<dots> = uint (flash a) # map (\<lambda>i. uint (flash (a + of_nat i))) [1..<1 + n]" by (simp add: n upt_conv_Cons del: upt_Suc)
  finally have "map uint ?t = uint (flash a) # map (\<lambda>i. uint (flash (a + of_nat i))) [1..<1 + n]" .
  moreover have "idle flash r'" using r'(3) t(2) n by (simp add: idle_def)
  ultimately show ?thesis using r1(1) r' n by simp
qed

lemma read_pieces:
  assumes "ring_rep r (concat (map (piece_raw flash small) ps) @ ys)" "idle flash r" "list_all (piece_ok flash small) ps"
  shows "\<exists>r'. read_n flash small (length (concat (map (piece_text flash) ps))) r = Some (map uint (concat (map (piece_text flash) ps)), r') \<and>
    ring_rep r' ys \<and> idle flash r'"
  using assms
proof (induction ps arbitrary: r)
  case (Cons p ps)
  let ?ys = "concat (map (piece_raw flash small) ps) @ ys"
  have rep: "ring_rep r (piece_raw flash small p @ ?ys)" and ok: "piece_ok flash small p" using Cons.prems by simp_all
  have "\<exists>r'. read_n flash small (length (piece_text flash p)) r = Some (map uint (piece_text flash p), r') \<and> ring_rep r' ?ys \<and> idle flash r'"
  proof (cases "\<exists>a. p = InFlash a \<and> small \<and> strlen_P flash a \<noteq> []")
    case True
    then obtain a where "p = InFlash a" "small" "strlen_P flash a \<noteq> []" by blast
    then show ?thesis using read_in_flash [of r a ?ys flash] rep ok Cons.prems(2) by simp
  next
    case False
    then have "piece_raw flash small p = piece_text flash p" by (cases p) auto
    moreover have "FLASH_INSERT_MARKER \<notin> set (piece_text flash p)" using False ok by (cases p) (auto simp: piece_ok_def)
    ultimately show ?thesis using read_bytes [of r "piece_text flash p" ?ys flash small] rep Cons.prems(2) by simp
  qed
  then obtain r1 where r1: "read_n flash small (length (piece_text flash p)) r = Some (map uint (piece_text flash p), r1)" "ring_rep r1 ?ys" "idle flash r1"
    by blast
  from Cons.IH [OF r1(2,3)] Cons.prems(3) obtain r' where
    "read_n flash small (length (concat (map (piece_text flash) ps))) r1 = Some (map uint (concat (map (piece_text flash) ps)), r')"
    "ring_rep r' ys" "idle flash r'" by auto
  with read_n_append [OF r1(1) this(1)] show ?case by auto
qed simp

section \<open>Properties\<close>

lemma count_length:
  fixes w :: u16
  assumes "ring_rep r (highByte w # lowByte w # xs)"
  shows "\<exists>r'. count r = (uint w, r') \<and> ring_rep r' xs \<and> flashInsert r' = flashInsert r"
proof -
  from raw_read [OF assms] obtain r1 where r1: "readRawByte r = (highByte w, r1)" "ring_rep r1 (lowByte w # xs)" "flashInsert r1 = flashInsert r" by blast
  from raw_read [OF r1(2)] obtain r2 where r2: "readRawByte r1 = (lowByte w, r2)" "ring_rep r2 xs" "flashInsert r2 = flashInsert r1" by blast
  have "256 * uint (highByte w) + uint (lowByte w) = uint w"
    by (simp add: uint_highByte uint_lowByte)
  then show ?thesis using r1 r2 by (simp add: count_def)
qed

lemma emit_len [simp]: "len (fold (emit_piece flash small) ps r) = len r"
proof (induction ps arbitrary: r)
  case (Cons p ps)
  have "len (emit_piece flash small p r) = len r" by (cases p) (simp_all add: printFlash_def Let_def)
  with Cons show ?case by simp
qed simp

lemma frame_read:
  assumes "ring_rep r (c # highByte w # lowByte w # concat (map (piece_raw flash small) ps))" "idle flash r"
    and "list_all (piece_ok flash small) ps" "c \<noteq> FLASH_INSERT_MARKER"
    and "w = (word_of_int (int (length (concat (map (piece_text flash) ps)))) :: u16)" "length (concat (map (piece_text flash) ps)) < 65536"
  shows "\<exists>r1 r2 r3. read flash small r = Some (uint c, r1) \<and> count r1 = (int (length (concat (map (piece_text flash) ps))), r2) \<and>
    read_n flash small (length (concat (map (piece_text flash) ps))) r2 = Some (map uint (concat (map (piece_text flash) ps)), r3) \<and> ring_rep r3 []"
proof -
  from read_plain [OF assms(1,2,4), of small] obtain r1 where
    r1: "read flash small r = Some (uint c, r1)" "ring_rep r1 (highByte w # lowByte w # concat (map (piece_raw flash small) ps))" "flashInsert r1 = 0" by blast
  from count_length [OF r1(2)] obtain r2 where
    r2: "count r1 = (uint w, r2)" "ring_rep r2 (concat (map (piece_raw flash small) ps))" "flashInsert r2 = 0" using r1(3) by auto
  have "uint w = int (length (concat (map (piece_text flash) ps)))"
    using assms(6) unfolding assms(5) by (intro uint_u16) simp_all
  moreover have "ring_rep r2 (concat (map (piece_raw flash small) ps) @ [])" "idle flash r2" using r2 by (simp_all add: idle_def)
  from read_pieces [OF this assms(3)] obtain r3 where
    "read_n flash small (length (concat (map (piece_text flash) ps))) r2 = Some (map uint (concat (map (piece_text flash) ps)), r3)" "ring_rep r3 []" by blast
  ultimately show ?thesis using r1(1) r2(1) by auto
qed

text \<open>
  C15: a reply goes through the ring unchanged or not at all. Between \<^verbatim>\<open>mark\<close> and \<^verbatim>\<open>commit\<close> any mix of
  bytes and flash texts is written behind what the ring holds. If it fits, \<^verbatim>\<open>commit\<close> succeeds, and when
  the earlier bytes have been read the reader finds the client, the exact length of the text and its
  bytes, flash texts expanded, and then nothing more. If it does not fit, \<^verbatim>\<open>commit\<close> fails and
  the ring holds what it held before; an empty reply leaves no trace either.
\<close>

theorem reply_through_ring:
  assumes "ring_rep r xs" "list_all (piece_ok flash small) ps" "c \<noteq> FLASH_INSERT_MARKER"
    and "length (concat (map (piece_text flash) ps)) < 65536"
  defines "txt \<equiv> concat (map (piece_text flash) ps)"
  defines "raw \<equiv> concat (map (piece_raw flash small) ps)"
  defines "res \<equiv> commit (fold (emit_piece flash small) ps (mark c r))"
  shows "if length xs + 3 + length raw \<ge> len r then \<not> fst res \<and> ring_rep (snd res) xs
    else fst res \<and>
      (if txt = [] then ring_rep (snd res) xs
       else (\<exists>frame. ring_rep (snd res) (xs @ frame) \<and>
         (\<forall>r. ring_rep r frame \<and> idle flash r \<longrightarrow>
           (\<exists>r1 r2 r3. read flash small r = Some (uint c, r1) \<and> count r1 = (int (length txt), r2) \<and>
              read_n flash small (length txt) r2 = Some (map uint txt, r3) \<and> ring_rep r3 []))))"
proof -
  let ?r = "fold (emit_piece flash small) ps (mark c r)"
  have m: "msg_rep ?r xs ([c, 0, 0] @ raw)" and n: "\<not> overflow ?r \<Longrightarrow> cnt ?r = int (length txt)"
    using emit_pieces_msg [OF mark_msg [OF assms(1)], of flash small ps c] by (auto simp: raw_def txt_def mark_def)
  have over: "overflow ?r \<longleftrightarrow> length xs + 3 + length raw \<ge> len r"
    using m by (cases "overflow ?r") (auto simp: msg_rep_def ring_rep_def holds_at_def mark_def)
  show ?thesis
  proof (cases "overflow ?r \<or> txt = []")
    case True
    then have "overflow ?r \<or> cnt ?r = 0" using n by (cases "overflow ?r") simp_all
    from commit_back [OF m this] True over show ?thesis by (auto simp: res_def)
  next
    case False
    let ?w = "word_of_int (int (length txt)) :: u16"
    have "cnt ?r \<noteq> 0" "\<not> overflow ?r" "cnt ?r = int (length txt)" using False n by simp_all
    with commit_ok [of ?r xs c raw] m have c: "fst res" "ring_rep (snd res) (xs @ c # highByte ?w # lowByte ?w # raw)" by (simp_all add: res_def)
    have f: "\<exists>r1 r2 r3. read flash small r = Some (uint c, r1) \<and> count r1 = (int (length txt), r2) \<and>
        read_n flash small (length txt) r2 = Some (map uint txt, r3) \<and> ring_rep r3 []"
      if "ring_rep r (c # highByte ?w # lowByte ?w # raw)" "idle flash r" for r
      unfolding txt_def by (rule frame_read [of _ _ ?w, OF that(1) [unfolded raw_def] that(2) assms(2,3) _ assms(4)]) (simp only: txt_def)
    have "\<exists>frame. ring_rep (snd res) (xs @ frame) \<and> (\<forall>r. ring_rep r frame \<and> idle flash r \<longrightarrow>
        (\<exists>r1 r2 r3. read flash small r = Some (uint c, r1) \<and> count r1 = (int (length txt), r2) \<and>
          read_n flash small (length txt) r2 = Some (map uint txt, r3) \<and> ring_rep r3 []))"
      using c(2) f by (intro exI [of _ "c # highByte ?w # lowByte ?w # raw"]) blast
    then show ?thesis using False over c(1) by simp
  qed
qed

definition demo_flash :: "u16 \<Rightarrow> byte" where
  "demo_flash a = (if a = 100 then 0x3C else if a = 101 then 0x6C else 0)"

lemma demo_text: "strlen_P demo_flash 100 = [0x3C, 0x6C]"
proof -
  have n: "(65535 :: nat) = Suc (Suc (Suc 65532))" by simp
  show ?thesis unfolding strlen_P_def n flash_text.simps by (simp add: demo_flash_def)
qed

theorem reply_through_ring_witness:
  "fst (commit (fold (emit_piece demo_flash True) [InFlash 100, Bytes [0x33, 0x3E]] (mark 2 (newRing (replicate 20 0)))))"
proof -
  have "ring_rep (newRing (replicate 20 0)) []" by (simp add: ring_rep_def holds_at_def newRing_def)
  moreover have "list_all (piece_ok demo_flash True) [InFlash 100, Bytes [0x33, 0x3E]]"
    by (simp add: piece_ok_def demo_text FLASH_INSERT_MARKER_def)
  ultimately show ?thesis
    using reply_through_ring [of "newRing (replicate 20 0)" "[]" demo_flash True "[InFlash 100, Bytes [0x33, 0x3E]]" 2]
    by (simp add: demo_text FLASH_INSERT_MARKER_def newRing_def)
qed

text \<open>
  The free space the class reports is one byte too many: a reply of exactly that length is lost.
\<close>

lemma freeSpace_overstated:
  "freeSpace (newRing (replicate 8 0)) = 5 \<and> \<not> fst (commit (write_all [1, 2, 3, 4, 5] (mark 0 (newRing (replicate 8 0)))))"
  by (simp add: freeSpace_def newRing_def write_all_def ring_write_def mark_def commit_def Let_def)

end
