(* ===== verification/Turntables.thy ===== *)
theory Turntables
  imports Commands
begin

text \<open>
  Turntables, \<^verbatim>\<open>src/Turntables.cpp\<close> and \<^verbatim>\<open>src/Turntables.h\<close>, with the command \<^verbatim>\<open><I ...>\<close> that
  defines and turns them. The chain of objects is a list, and so are the positions of each, the
  newest first. A position in use is kept in six bits. \<open>yard\<close> is the station with its turntables;
  whether a device serves a pin and whether it has failed are the fields of \<open>devices\<close>.
\<close>

section \<open>Model\<close>

record turntable =
  tt_id :: u16
  tt_hidden :: bool
  isEXTT :: bool
  position :: "6 word"
  previousPosition :: byte
  isMoving :: bool
  positions :: "(byte \<times> u16 \<times> u16) list"
  tt_vpin :: u16

record yard =
  station_of :: station
  turntables :: "turntable list"
  turntablelistHash :: u16

record devices =
  device_exists :: "u16 \<Rightarrow> bool"
  device_failed :: "u16 \<Rightarrow> bool"

definition on_station :: "(station \<Rightarrow> station) \<Rightarrow> yard \<Rightarrow> yard" where
  "on_station f y = y\<lparr>station_of := f (station_of y)\<rparr>"

definition addTurntable :: "turntable \<Rightarrow> yard \<Rightarrow> yard" where
  "addTurntable t y = y\<lparr>turntables := turntables y @ [t], turntablelistHash := turntablelistHash y + 1\<rparr>"

definition new_turntable :: "u16 \<Rightarrow> bool \<Rightarrow> u16 \<Rightarrow> turntable" where
  "new_turntable i extt v = \<lparr>tt_id = i, tt_hidden = False, isEXTT = extt, position = 0, previousPosition = 0,
     isMoving = False, positions = [], tt_vpin = v\<rparr>"

definition getTurntable :: "u16 \<Rightarrow> yard \<Rightarrow> turntable option" where
  "getTurntable i y = find (\<lambda>t. tt_id t = i) (turntables y)"

definition getByVpin :: "u16 \<Rightarrow> yard \<Rightarrow> turntable option" where
  "getByVpin v y = find (\<lambda>t. isEXTT t \<and> tt_vpin t = v) (turntables y)"

text \<open>Assignments through the pointer that \<^verbatim>\<open>get\<close> returned.\<close>

definition change_turntable :: "u16 \<Rightarrow> (turntable \<Rightarrow> turntable) \<Rightarrow> yard \<Rightarrow> yard" where
  "change_turntable i f y = y\<lparr>turntables := replace_first (\<lambda>t. tt_id t = i) f (turntables y)\<rparr>"

definition addPosition :: "u16 \<Rightarrow> byte \<Rightarrow> u16 \<Rightarrow> u16 \<Rightarrow> yard \<Rightarrow> yard" where
  "addPosition i idx value angle = change_turntable i (\<lambda>t. t\<lparr>positions := (idx, value, angle) # positions t\<rparr>)"

definition getPositionValue :: "byte \<Rightarrow> turntable \<Rightarrow> u16" where
  "getPositionValue pos t = (case find (\<lambda>(i, _, _). i = pos) (positions t) of Some (_, v, _) \<Rightarrow> v | None \<Rightarrow> 0)"

definition getPositionAngle :: "byte \<Rightarrow> turntable \<Rightarrow> u16" where
  "getPositionAngle pos t = (case find (\<lambda>(i, _, _). i = pos) (positions t) of Some (_, _, a) \<Rightarrow> a | None \<Rightarrow> 0)"

definition getPositionCount :: "turntable \<Rightarrow> byte" where
  "getPositionCount t = of_nat (length (positions t))"

definition getPosition :: "u16 \<Rightarrow> yard \<Rightarrow> byte" where
  "getPosition i y = (case getTurntable i y of Some t \<Rightarrow> ucast (position t) | None \<Rightarrow> 0)"

definition ttMoving :: "u16 \<Rightarrow> yard \<Rightarrow> bool" where
  "ttMoving i y = (case getTurntable i y of Some t \<Rightarrow> isMoving t | None \<Rightarrow> False)"

definition setMoving :: "u16 \<Rightarrow> bool \<Rightarrow> yard \<Rightarrow> yard" where
  "setMoving i m = change_turntable i (\<lambda>t. t\<lparr>isMoving := m\<rparr>)"

text \<open>The new position of the object, common to both kinds.\<close>

definition moved :: "byte \<Rightarrow> turntable \<Rightarrow> turntable" where
  "moved pos t = t\<lparr>previousPosition := ucast (position t), position := ucast pos\<rparr>"

definition setPositionInternal :: "byte \<Rightarrow> byte \<Rightarrow> turntable \<Rightarrow> yard \<Rightarrow> bool \<times> yard" where
  "setPositionInternal pos activity t y =
    (let value = (if isEXTT t \<and> pos = 0 then 0 else getPositionValue pos t)
     in if isEXTT t then
          (if pos \<noteq> 0 \<and> activity > 1 then (False, y)
           else if pos \<noteq> 0 \<and> value = 0 then (False, y)
           else (True, on_station (on_board (emit_io (WriteAnalogue (tt_vpin t) value activity 0))) (change_turntable (tt_id t) (moved pos) y)))
        else if pos = 0 \<or> value = 0 then (False, y)
        else (True, on_station (on_dcc (setAccessory (drop_bit 3 (sint value)) (ucast (drop_bit 1 value AND 3)) (bit value 0) 2))
               (change_turntable (tt_id t) (moved pos) y)))"

definition setPosition :: "u16 \<Rightarrow> byte \<Rightarrow> byte \<Rightarrow> yard \<Rightarrow> bool \<times> yard" where
  "setPosition i pos activity y =
    (case getTurntable i y of
       None \<Rightarrow> (False, y)
     | Some t \<Rightarrow>
         if isMoving t then (False, y)
         else
           (case setPositionInternal pos activity t y of
              (False, y) \<Rightarrow> (False, y)
            | (True, y) \<Rightarrow>
                (let y = (if isEXTT t then y else on_station (on_board (emit_io (BroadcastTurntable i pos False))) y);
                     rotated = (case getTurntable i y of Some t \<Rightarrow> pos \<noteq> previousPosition t | None \<Rightarrow> False)
                 in (True, on_station (on_board (emit_io (RotateEvent i rotated))) y))))"

definition createEXTT :: "devices \<Rightarrow> u16 \<Rightarrow> u16 \<Rightarrow> yard \<Rightarrow> bool \<times> yard" where
  "createEXTT dv i v y =
    (if (case getTurntable i y of Some t \<Rightarrow> isEXTT t | None \<Rightarrow> False)
     then (True, change_turntable i (\<lambda>t. t\<lparr>tt_vpin := v\<rparr>) y)
     else if \<not> device_exists dv v then (False, y)
     else if device_failed dv v then (False, y)
     else if getByVpin v y \<noteq> None then (False, y)
     else (True, addTurntable (new_turntable i True v) y))"

definition createDCC :: "u16 \<Rightarrow> yard \<Rightarrow> yard" where
  "createDCC i y = (if getTurntable i y = None then addTurntable (new_turntable i False 0) y else y)"

definition print_turntables :: "turntable list \<Rightarrow> bool \<times> reply list" where
  "print_turntables ts =
    (let shown = filter (\<lambda>t. \<not> tt_hidden t) ts
     in (shown \<noteq> [], map (\<lambda>t. Reply ''<I %d %d>'' [uint (tt_id t), uint (position t)]) shown))"

definition reply_yard :: "string \<Rightarrow> int list \<Rightarrow> yard \<Rightarrow> yard" where
  "reply_yard f args = on_station (answer f args)"

definition parseI :: "devices \<Rightarrow> nat \<Rightarrow> u16 list \<Rightarrow> yard \<Rightarrow> bool \<times> yard" where
  "parseI dv params p y =
    (let i = p ! 0; tto = getTurntable i y; v = (\<lambda>k. sint (p ! k))
     in if params = 0 then (let (got, rs) = print_turntables (turntables y) in (got, on_station (send_all rs) y))
        else if params = 1 then
          (case tto of
             None \<Rightarrow> (False, y)
           | Some t \<Rightarrow> (True, reply_yard ''<I %d %d>'' [if isEXTT t then 1 else 0, uint (position t)] y))
        else if params = 2 then
          (case tto of
             None \<Rightarrow> (False, y)
           | Some t \<Rightarrow> if isEXTT t then (False, y) else setPosition i (ucast (p ! 1)) 0 y)
        else if params = 3 then
          (if p ! 1 = hk ''DCC'' then
             (if tto \<noteq> None \<or> v 2 < 0 \<or> v 2 > 3600 then (False, y)
              else (True, reply_yard ''<I>'' [] (addPosition i 0 0 (p ! 2) (createDCC i y))))
           else case tto of
             None \<Rightarrow> (False, y)
           | Some t \<Rightarrow> if \<not> isEXTT t then (False, y) else setPosition i (ucast (p ! 1)) (ucast (p ! 2)) y)
        else if params = 4 then
          (if p ! 1 \<noteq> hk ''EXTT'' \<or> tto \<noteq> None \<or> v 3 < 0 \<or> v 3 > 3600 then (False, y)
           else (case createEXTT dv i (p ! 2) y of
                   (False, y) \<Rightarrow> (False, y)
                 | (True, y) \<Rightarrow> (True, reply_yard ''<I>'' [] (addPosition i 0 0 (p ! 3) y))))
        else if params = 5 then
          (if p ! 1 \<noteq> hk ''ADD'' \<or> tto = None \<or> v 2 > 48 \<or> v 4 < 0 \<or> v 4 > 3600 then (False, y)
           else (True, reply_yard ''<I>'' [] (addPosition i (ucast (p ! 2)) (p ! 3) (p ! 4) y)))
        else (False, y))"

section \<open>Turning\<close>

lemma change_get:
  "(\<And>t. tt_id (f t) = tt_id t) \<Longrightarrow> getTurntable j (change_turntable i f y) =
    (if j = i then map_option f (getTurntable i y) else getTurntable j y)"
  by (simp add: getTurntable_def change_turntable_def find_replace_first find_replace_first_other)

lemma station_get [simp]: "getTurntable i (on_station f y) = getTurntable i y" "station_of (change_turntable i g y) = station_of y"
    "station_of (on_station f y) = f (station_of y)"
  by (simp_all add: getTurntable_def on_station_def change_turntable_def)

text \<open>
  When a command is accepted: the turntable is at rest; home is for an EX-Turntable only, with any activity; any
  other position must be known with a value other than 0 and, for an EX-Turntable, the activity be 0 or 1.
\<close>

definition accepts :: "byte \<Rightarrow> byte \<Rightarrow> turntable \<Rightarrow> bool" where
  "accepts pos activity t \<longleftrightarrow> \<not> isMoving t \<and>
     (if pos = 0 then isEXTT t else getPositionValue pos t \<noteq> 0 \<and> (isEXTT t \<longrightarrow> activity \<le> 1))"

text \<open>What the station gets to see of an accepted command.\<close>

definition turned :: "byte \<Rightarrow> byte \<Rightarrow> turntable \<Rightarrow> station \<Rightarrow> station" where
  "turned pos activity t s =
    (let value = (if pos = 0 then 0 else getPositionValue pos t)
     in on_board (emit_io (RotateEvent (tt_id t) (pos \<noteq> ucast (position t))))
          (if isEXTT t then on_board (emit_io (WriteAnalogue (tt_vpin t) value activity 0)) s
           else on_board (emit_io (BroadcastTurntable (tt_id t) pos False))
             (on_dcc (setAccessory (drop_bit 3 (sint value)) (ucast (drop_bit 1 value AND 3)) (bit value 0) 2) s)))"

lemma six_bits: "ucast (ucast pos :: 6 word) = (pos AND 0x3F :: byte)"
proof -
  have m: "(0x3F :: byte) = mask 6" by (simp add: mask_eq_exp_minus_1)
  show ?thesis unfolding m by (rule bit_word_eqI) (auto simp: bit_simps)
qed

lemma turntable_accepts:
  assumes "getTurntable i y = Some t" "accepts pos activity t"
    and "setPosition i pos activity y = (ok, y')"
  shows "ok \<and> getTurntable i y' = Some (moved pos t) \<and> (\<forall>j. j \<noteq> i \<longrightarrow> getTurntable j y' = getTurntable j y) \<and>
    station_of y' = turned pos activity t (station_of y)"
proof -
  have i: "tt_id t = i" using assms(1) by (auto simp: getTurntable_def find_Some_iff)
  have m: "tt_id (moved p u) = tt_id u" for p u by (simp add: moved_def)
  have ch: "getTurntable j (change_turntable k (moved p) z) = (if j = k then map_option (moved p) (getTurntable k z) else getTurntable j z)"
    for j k p z by (rule change_get [OF m])
  have y': "ok = fst (setPosition i pos activity y)" "y' = snd (setPosition i pos activity y)" using assms(3) by simp_all
  have r: "\<not> isMoving t" using assms(2) by (simp add: accepts_def)
  consider (home) "pos = 0" "isEXTT t" | (extt) "pos \<noteq> 0" "isEXTT t" "getPositionValue pos t \<noteq> 0" "activity \<le> 1"
    | (dcc) "pos \<noteq> 0" "\<not> isEXTT t" "getPositionValue pos t \<noteq> 0"
    using assms(2) by (auto simp: accepts_def split: if_splits)
  then show ?thesis
    unfolding y' by cases (simp_all add: assms(1) r i setPosition_def setPositionInternal_def Let_def ch turned_def not_less,
      simp_all add: moved_def)
qed

lemma turntable_refuses:
  assumes "getTurntable i y = Some t" "\<not> accepts pos activity t"
  shows "setPosition i pos activity y = (False, y)"
  using assms by (auto simp: setPosition_def setPositionInternal_def accepts_def Let_def split: if_splits)

text \<open>
  C17: a turntable goes where it is told. A command for a turntable that exists is accepted exactly
  when the turntable is at rest and either the position is not home, is known with a value other than
  0 and, for an EX-Turntable, the activity is 0 or 1, or the position is home, 0, and it is an
  EX-Turntable. Accepted, an EX-Turntable gets the stored value (0 for home) and the activity, a
  DCC turntable its accessory command with a broadcast, EXRAIL learns whether the table turned, the
  position before is remembered and no other turntable changes; the position read back is the new one
  cut to six bits, so the same up to 63 and another one from 64 on. Refused, or for an
  unknown turntable, nothing changes.
\<close>

theorem turntable_turns:
  assumes "setPosition i pos activity y = (ok, y')"
  shows "case getTurntable i y of
      None \<Rightarrow> \<not> ok \<and> y' = y
    | Some t \<Rightarrow> (ok \<longleftrightarrow> accepts pos activity t) \<and>
        (if ok
         then getPosition i y' = pos AND 0x3F \<and> (pos < 64 \<longrightarrow> getPosition i y' = pos) \<and>
           (\<exists>t'. getTurntable i y' = Some t' \<and> previousPosition t' = getPosition i y) \<and>
           (\<forall>j. j \<noteq> i \<longrightarrow> getTurntable j y' = getTurntable j y) \<and>
           station_of y' = turned pos activity t (station_of y)
         else y' = y)"
proof (cases "getTurntable i y")
  case None
  then show ?thesis using assms by (simp add: setPosition_def)
next
  case (Some t)
  show ?thesis
  proof (cases "accepts pos activity t")
    case True
    have "pos AND 0x3F = pos" if "pos < 64"
    proof -
      from that have "uint pos < 64" by (simp add: word_less_def)
      then have "uint pos mod 64 = uint pos" by simp
      moreover have "uint (pos AND 0x3F) = uint pos mod 64"
        using take_bit_eq_mask [of 6 "uint pos"] by (simp add: take_bit_eq_mod mask_eq_exp_minus_1 uint_and)
      ultimately show ?thesis by (simp only: word_uint_eq_iff)
    qed
    then show ?thesis using turntable_accepts [OF Some True assms] Some True six_bits [of pos]
      by (auto simp: getPosition_def moved_def)
  next
    case False
    with turntable_refuses [OF Some False] assms Some show ?thesis by simp
  qed
qed

text \<open>A table that rests at position 1 is turned to position 2, whose stored value is 200, with activity 1.\<close>

definition demo_turntable :: turntable where
  "demo_turntable = \<lparr>tt_id = 7, tt_hidden = False, isEXTT = True, position = 1, previousPosition = 0, isMoving = False,
     positions = [(2, 200, 1800), (1, 100, 900), (0, 0, 0)], tt_vpin = 600\<rparr>"

theorem turntable_turns_witness:
  "\<forall>s. fst (setPosition 7 2 1 \<lparr>station_of = s, turntables = [demo_turntable], turntablelistHash = 1\<rparr>) \<and>
     getPosition 7 (snd (setPosition 7 2 1 \<lparr>station_of = s, turntables = [demo_turntable], turntablelistHash = 1\<rparr>)) = 2"
proof
  fix s
  let ?y = "\<lparr>station_of = s, turntables = [demo_turntable], turntablelistHash = 1\<rparr>"
  have "getTurntable 7 ?y = Some demo_turntable" by (simp add: getTurntable_def demo_turntable_def)
  moreover have "accepts 2 1 demo_turntable"
    by (simp add: accepts_def demo_turntable_def getPositionValue_def)
  ultimately show "fst (setPosition 7 2 1 ?y) \<and> getPosition 7 (snd (setPosition 7 2 1 ?y)) = 2"
    using turntable_turns [of 7 2 1 ?y "fst (setPosition 7 2 1 ?y)" "snd (setPosition 7 2 1 ?y)"]
    by simp
qed

end
