(* ===== verification/Stash.thy ===== *)
theory Stash
  imports Prelude
begin

text \<open>
  The stash of locos that EXRAIL sequences leave at a place and pick up again, \<^verbatim>\<open>src/Stash.cpp\<close>.
  The code chains its entries through pointers, puts new ones in front and never frees one; the
  chain is a list here. An entry whose loco is 0 is free. Stash and loco ids are \<^verbatim>\<open>int16_t\<close>; a
  negative loco is one that stands reversed.

  \<open>abs_stash\<close> is the contract: the ids other than 0 as a partial map to locos. \<open>stash_laws\<close> states
  it as a locale over the operations, interpreted on the code's operations at the end.
\<close>

record Stash =
  stashId :: u16
  stashLoco :: u16

definition clearAll :: "Stash list \<Rightarrow> Stash list" where
  "clearAll st = map (\<lambda>s. s\<lparr>stashLoco := 0, stashId := 0\<rparr>) st"

definition clearAny :: "u16 \<Rightarrow> Stash list \<Rightarrow> Stash list" where
  "clearAny l st = map (\<lambda>s. if \<bar>sint (stashLoco s)\<bar> = \<bar>sint l\<bar> then s\<lparr>stashLoco := 0, stashId := 0\<rparr> else s) st"

definition get :: "u16 \<Rightarrow> Stash list \<Rightarrow> u16" where
  "get i st = (case find (\<lambda>s. stashId s = i) st of Some s \<Rightarrow> stashLoco s | None \<Rightarrow> 0)"

definition set_stash :: "u16 \<Rightarrow> u16 \<Rightarrow> Stash list \<Rightarrow> Stash list" where
  "set_stash i l st =
    (if list_ex (\<lambda>s. stashId s = i) st
     then replace_first (\<lambda>s. stashId s = i) (\<lambda>s. s\<lparr>stashLoco := l, stashId := (if l = 0 then 0 else stashId s)\<rparr>) st
     else if l = 0 then st
     else if list_ex (\<lambda>s. stashLoco s = 0) st
     then replace_first (\<lambda>s. stashLoco s = 0) (\<lambda>s. s\<lparr>stashLoco := l, stashId := i\<rparr>) st
     else \<lparr>stashId = i, stashLoco = l\<rparr> # st)"

definition clear :: "u16 \<Rightarrow> Stash list \<Rightarrow> Stash list" where
  "clear i st = set_stash i 0 st"

text \<open>The lines \<^verbatim>\<open><jM id loco>\<close> that \<^verbatim>\<open>list\<close> sends; id 0 asks for all of them.\<close>

definition list_stash :: "u16 \<Rightarrow> Stash list \<Rightarrow> (int \<times> int) list" where
  "list_stash i st =
    (let sent = filter (\<lambda>s. stashLoco s \<noteq> 0 \<and> (i = 0 \<or> stashId s = i)) st
     in if sent = [] then [(sint i, 0)] else map (\<lambda>s. (sint (stashId s), sint (stashLoco s))) sent)"

section \<open>The contract\<close>

definition stash_inv :: "Stash list \<Rightarrow> bool" where
  "stash_inv st \<longleftrightarrow> distinct (filter (\<lambda>i. i \<noteq> 0) (map stashId st)) \<and> list_all (\<lambda>s. stashId s = 0 \<longleftrightarrow> stashLoco s = 0) st"

definition abs_stash :: "Stash list \<Rightarrow> u16 \<rightharpoonup> u16" where
  "abs_stash st i = (if i = 0 then None else map_option stashLoco (find (\<lambda>s. stashId s = i) st))"

locale stash_laws =
  fixes inv :: "'s \<Rightarrow> bool" and view :: "'s \<Rightarrow> u16 \<rightharpoonup> u16"
    and lookup :: "u16 \<Rightarrow> 's \<Rightarrow> u16" and put :: "u16 \<Rightarrow> u16 \<Rightarrow> 's \<Rightarrow> 's"
    and empty_all :: "'s \<Rightarrow> 's" and forget_loco :: "u16 \<Rightarrow> 's \<Rightarrow> 's"
  assumes view_nonzero: "inv s \<Longrightarrow> view s i \<noteq> Some 0"
    and lookup_view: "inv s \<Longrightarrow> i \<noteq> 0 \<Longrightarrow> lookup i s = (case view s i of Some l \<Rightarrow> l | None \<Rightarrow> 0)"
    and put_view: "inv s \<Longrightarrow> i \<noteq> 0 \<Longrightarrow> inv (put i l s) \<and> view (put i l s) = (view s)(i := (if l = 0 then None else Some l))"
    and all_view: "inv s \<Longrightarrow> inv (empty_all s) \<and> view (empty_all s) = Map.empty"
    and forget_view: "inv s \<Longrightarrow> l \<noteq> 0 \<Longrightarrow> inv (forget_loco l s) \<and>
      view (forget_loco l s) = (\<lambda>i. case view s i of Some k \<Rightarrow> if \<bar>sint k\<bar> = \<bar>sint l\<bar> then None else Some k | None \<Rightarrow> None)"
begin

lemma lookup_put: "inv s \<Longrightarrow> i \<noteq> 0 \<Longrightarrow> j \<noteq> 0 \<Longrightarrow> lookup j (put i l s) = (if j = i then l else lookup j s)"
  by (simp add: lookup_view put_view)

lemma picked_up:
  assumes "inv s" "i \<noteq> 0" "j \<noteq> 0" "l \<noteq> 0"
  shows "lookup j (forget_loco l s) = (if \<bar>sint (lookup j s)\<bar> = \<bar>sint l\<bar> then 0 else lookup j s)"
  using assms by (auto simp: lookup_view forget_view split: option.split)

end

section \<open>The code keeps it\<close>

lemma found_replaced:
  assumes "find P xs = Some x"
  shows "\<exists>ys zs. xs = ys @ x # zs \<and> (\<forall>y \<in> set ys. \<not> P y) \<and> P x \<and> replace_first P f xs = ys @ f x # zs"
  using assms
proof (induction xs)
  case (Cons a xs)
  show ?case
  proof (cases "P a")
    case False
    with Cons obtain ys zs where "xs = ys @ x # zs" "\<forall>y \<in> set ys. \<not> P y" "P x" "replace_first P f xs = ys @ f x # zs" by auto
    with False show ?thesis by (intro exI [of _ "a # ys"] exI [of _ zs]) simp
  qed (use Cons in \<open>auto intro: exI [of _ "[]"]\<close>)
qed simp

lemma list_ex_find: "list_ex P xs \<Longrightarrow> \<exists>x. find P xs = Some x"
  by (induction xs) auto

lemma notin_image: "a \<notin> f ` S \<longleftrightarrow> (\<forall>x \<in> S. f x \<noteq> a)"
  by (auto simp: image_iff)

lemma inv_append: "stash_inv (ys @ x # zs) \<longleftrightarrow> stash_inv (ys @ zs) \<and> (stashId x = 0 \<longleftrightarrow> stashLoco x = 0) \<and>
    (stashId x \<noteq> 0 \<longrightarrow> stashId x \<notin> stashId ` set (ys @ zs))"
  by (auto simp: stash_inv_def)

lemma abs_mid:
  assumes "\<forall>s \<in> set (ys @ zs). stashId x = 0 \<or> stashId s \<noteq> stashId x"
  shows "abs_stash (ys @ x # zs) = (if stashId x = 0 then abs_stash (ys @ zs) else (abs_stash (ys @ zs))(stashId x \<mapsto> stashLoco x))"
proof -
  have "find (\<lambda>s. stashId s = i) (ys @ x # zs) =
      (if stashId x = i then Some x else find (\<lambda>s. stashId s = i) (ys @ zs))" if "i \<noteq> 0" for i
    using assms that by (induction ys) auto
  then show ?thesis by (auto simp: abs_stash_def fun_eq_iff)
qed

lemma abs_notin: "\<forall>s \<in> set st. stashId s \<noteq> i \<Longrightarrow> (abs_stash st)(i := None) = abs_stash st"
  by (auto simp: abs_stash_def fun_eq_iff find_None_iff)

lemma set_known:
  assumes "stash_inv st" "i \<noteq> 0" "list_ex (\<lambda>s. stashId s = i) st"
  shows "stash_inv (set_stash i l st) \<and> abs_stash (set_stash i l st) = (abs_stash st)(i := (if l = 0 then None else Some l))"
proof -
  let ?f = "\<lambda>s. s\<lparr>stashLoco := l, stashId := (if l = 0 then 0 else stashId s)\<rparr>"
  from list_ex_find [OF assms(3)] obtain x where "find (\<lambda>s. stashId s = i) st = Some x" ..
  from found_replaced [OF this, of ?f] obtain ys zs where st: "st = ys @ x # zs" "stashId x = i"
    and c: "replace_first (\<lambda>s. stashId s = i) ?f st = ys @ ?f x # zs" by blast
  have s: "set_stash i l st = ys @ ?f x # zs" using assms(3) c by (simp add: set_stash_def)
  have u: "\<forall>s \<in> set (ys @ zs). stashId s \<noteq> i" and inv: "stash_inv (ys @ zs)"
    using assms(1,2) st by (simp_all add: inv_append notin_image)
  have "abs_stash st = (abs_stash (ys @ zs))(i \<mapsto> stashLoco x)" unfolding st(1) using abs_mid [of ys zs x] u st(2) assms(2) by simp
  moreover have "abs_stash (set_stash i l st) = (if l = 0 then abs_stash (ys @ zs) else (abs_stash (ys @ zs))(i \<mapsto> l))"
    unfolding s using abs_mid [of ys zs "?f x"] u st(2) assms(2) by simp
  moreover have "stash_inv (set_stash i l st)" unfolding s using inv u st(2) assms(2) by (auto simp: inv_append)
  ultimately show ?thesis using abs_notin [OF u] by simp
qed

lemma set_new:
  assumes "stash_inv st" "i \<noteq> 0" "\<not> list_ex (\<lambda>s. stashId s = i) st" "l \<noteq> 0"
  shows "stash_inv (set_stash i l st) \<and> abs_stash (set_stash i l st) = (abs_stash st)(i \<mapsto> l)"
proof (cases "list_ex (\<lambda>s. stashLoco s = 0) st")
  case True
  let ?f = "\<lambda>s. s\<lparr>stashLoco := l, stashId := i\<rparr>"
  from list_ex_find [OF True] obtain x where "find (\<lambda>s. stashLoco s = 0) st = Some x" ..
  from found_replaced [OF this, of ?f] obtain ys zs where st: "st = ys @ x # zs" "stashLoco x = 0"
    and c: "replace_first (\<lambda>s. stashLoco s = 0) ?f st = ys @ ?f x # zs" by blast
  have s: "set_stash i l st = ys @ ?f x # zs" using assms(3,4) True c by (simp add: set_stash_def)
  have x: "stashId x = 0" and inv: "stash_inv (ys @ zs)" using assms(1) st by (simp_all add: inv_append)
  have u: "\<forall>s \<in> set (ys @ zs). stashId s \<noteq> i" using assms(3) st by (auto simp: list_ex_iff)
  have "abs_stash st = abs_stash (ys @ zs)" unfolding st(1) using abs_mid [of ys zs x] x by simp
  moreover have "abs_stash (set_stash i l st) = (abs_stash (ys @ zs))(i \<mapsto> l)"
    unfolding s using abs_mid [of ys zs "?f x"] u assms(2) by simp
  moreover have "stash_inv (set_stash i l st)" unfolding s using inv u assms(2,4) by (auto simp: inv_append)
  ultimately show ?thesis by simp
next
  case False
  have u: "\<forall>s \<in> set st. stashId s \<noteq> i" using assms(3) by (auto simp: list_ex_iff)
  have "set_stash i l st = [] @ \<lparr>stashId = i, stashLoco = l\<rparr> # st" using assms(3,4) False by (simp add: set_stash_def)
  then show ?thesis
    using abs_mid [of "[]" st "\<lparr>stashId = i, stashLoco = l\<rparr>"] inv_append [of "[]" "\<lparr>stashId = i, stashLoco = l\<rparr>" st] u assms by auto
qed

lemma set_law:
  assumes "stash_inv st" "i \<noteq> 0"
  shows "stash_inv (set_stash i l st) \<and> abs_stash (set_stash i l st) = (abs_stash st)(i := (if l = 0 then None else Some l))"
proof (cases "list_ex (\<lambda>s. stashId s = i) st")
  case False
  then have "(abs_stash st)(i := None) = abs_stash st" by (intro abs_notin) (simp add: list_ex_iff)
  with False set_new [OF assms False] assms show ?thesis by (cases "l = 0") (simp_all add: set_stash_def)
qed (rule set_known [OF assms])

text \<open>Freeing the entries of some locos.\<close>

definition freed :: "(u16 \<Rightarrow> bool) \<Rightarrow> Stash \<Rightarrow> Stash" where
  "freed R s = (if R (stashLoco s) then s\<lparr>stashLoco := 0, stashId := 0\<rparr> else s)"

lemma inv_Cons: "stash_inv (x # zs) \<longleftrightarrow> stash_inv zs \<and> (stashId x = 0 \<longleftrightarrow> stashLoco x = 0) \<and> (stashId x \<noteq> 0 \<longrightarrow> stashId x \<notin> stashId ` set zs)"
  using inv_append [of "[]"] by simp

lemma abs_Cons: "stash_inv (x # zs) \<Longrightarrow> abs_stash (x # zs) = (if stashId x = 0 then abs_stash zs else (abs_stash zs)(stashId x \<mapsto> stashLoco x))"
  using abs_mid [of "[]" zs x] by (simp add: inv_Cons notin_image)

lemma freed_ids: "stashId ` set (map (freed R) st) \<subseteq> insert 0 (stashId ` set st)"
  by (auto simp: freed_def)

lemma freed_inv: "stash_inv st \<Longrightarrow> stash_inv (map (freed R) st)"
proof (induction st)
  case (Cons s st)
  then show ?case using freed_ids [of R st] by (auto simp: inv_Cons freed_def)
qed simp

lemma abs_free: "stashId x \<notin> stashId ` set zs \<Longrightarrow> abs_stash zs (stashId x) = None"
  by (auto simp: abs_stash_def find_None_iff notin_image)

lemma freed_abs:
  "stash_inv st \<Longrightarrow> abs_stash (map (freed R) st) = (\<lambda>i. case abs_stash st i of Some k \<Rightarrow> if R k then None else Some k | None \<Rightarrow> None)"
proof (induction st)
  case Nil
  show ?case by (simp add: abs_stash_def fun_eq_iff)
next
  case (Cons s st)
  have "stash_inv (freed R s # map (freed R) st)" using freed_inv [OF Cons.prems, of R] by simp
  note eqs = abs_Cons [OF this] abs_Cons [OF Cons.prems]
  have ih: "abs_stash (map (freed R) st) = (\<lambda>i. case abs_stash st i of Some k \<Rightarrow> if R k then None else Some k | None \<Rightarrow> None)"
    using Cons by (simp add: inv_Cons)
  have "stashId s \<noteq> 0 \<Longrightarrow> abs_stash st (stashId s) = None" using Cons.prems by (intro abs_free) (simp add: inv_Cons)
  moreover have "stashId (freed R s) = (if R (stashLoco s) then 0 else stashId s)" "stashLoco (freed R s) = (if R (stashLoco s) then 0 else stashLoco s)"
    by (simp_all add: freed_def)
  ultimately show ?case
    by (cases "R (stashLoco s)"; cases "stashId s = 0") (simp_all add: eqs ih fun_eq_iff)
qed

lemma clear_maps: "clearAll st = map (freed (\<lambda>_. True)) st" "clearAny l st = map (freed (\<lambda>k. \<bar>sint k\<bar> = \<bar>sint l\<bar>)) st"
  by (simp_all add: clearAll_def clearAny_def freed_def fun_eq_iff)

interpretation stash: stash_laws stash_inv abs_stash get set_stash clearAll clearAny
proof unfold_locales
  fix st i assume "stash_inv st"
  then show "abs_stash st i \<noteq> Some 0"
    by (auto simp: abs_stash_def stash_inv_def list_all_iff find_Some_iff)
next
  fix st :: "Stash list" and i :: u16 assume "i \<noteq> 0"
  then show "get i st = (case abs_stash st i of Some l \<Rightarrow> l | None \<Rightarrow> 0)"
    by (simp add: get_def abs_stash_def split: option.split)
qed (simp_all add: set_law clear_maps freed_inv freed_abs fun_eq_iff split: option.split)

section \<open>Properties\<close>

text \<open>
  C14: the stash is a map from stash ids to locos. Whatever entries earlier commands have left behind
  for reuse, setting an id other than 0 is the update of that map and leaves all other ids alone, a
  loco of 0 removes the id, clearing all empties the map, clearing a loco removes exactly the ids
  where it stands in either direction, and reading gives the map's value or 0.
\<close>

theorem stash_is_map:
  assumes "stash_inv st" "i \<noteq> 0" "l \<noteq> 0"
  shows "stash_inv (set_stash i k st) \<and> stash_inv (clearAll st) \<and> stash_inv (clearAny l st) \<and>
    get i st = (case abs_stash st i of Some k \<Rightarrow> k | None \<Rightarrow> 0) \<and>
    abs_stash (set_stash i k st) = (abs_stash st)(i := (if k = 0 then None else Some k)) \<and>
    abs_stash (clear i st) = (abs_stash st)(i := None) \<and> abs_stash (clearAll st) = Map.empty \<and>
    abs_stash (clearAny l st) = (\<lambda>j. case abs_stash st j of Some m \<Rightarrow> if \<bar>sint m\<bar> = \<bar>sint l\<bar> then None else Some m | None \<Rightarrow> None)"
  using stash.put_view [OF assms(1,2)] stash.all_view [OF assms(1)] stash.forget_view [OF assms(1,3)] stash.lookup_view [OF assms(1,2)]
  by (simp add: clear_def)

theorem stash_is_map_witness:
  "get 7 (set_stash 7 3 (clear 5 (set_stash 5 4 []))) = 3 \<and> abs_stash (set_stash 7 3 (clear 5 (set_stash 5 4 []))) 5 = None"
proof -
  have "stash_inv []" by (simp add: stash_inv_def)
  from stash_is_map [OF this, of 5 1 4] have "stash_inv (set_stash 5 4 [])" by simp
  from stash_is_map [OF this, of 5 1 0] have c: "stash_inv (clear 5 (set_stash 5 4 []))" "abs_stash (clear 5 (set_stash 5 4 [])) 5 = None" by (simp_all add: clear_def)
  from stash_is_map [OF c(1), of 7 1 3] have s: "stash_inv (set_stash 7 3 (clear 5 (set_stash 5 4 [])))"
    "abs_stash (set_stash 7 3 (clear 5 (set_stash 5 4 []))) = (abs_stash (clear 5 (set_stash 5 4 [])))(7 \<mapsto> 3)" by simp_all
  from stash_is_map [OF s(1), of 7 1] s(2) c(2) show ?thesis by simp
qed

text \<open>
  Stash id 0 is not such an id: it is also the mark of a free entry, so a loco stashed under 0 is
  lost when an entry before it becomes free.
\<close>

lemma stash_zero_lost: "get 0 (clear 5 (set_stash 5 4 (set_stash 0 3 []))) = 0"
  by (simp add: get_def clear_def set_stash_def)

end
