(* ===== verification/ExrailCode.thy ===== *)
theory ExrailCode
  imports Turntables Stash
begin

text \<open>
  The program that EXRAIL runs, \<^verbatim>\<open>src/EXRAIL2.h\<close> and the first part of \<^verbatim>\<open>src/EXRAIL2.cpp\<close>: its
  instructions of three bytes, the lookup lists that map the ids of routes and event handlers to
  places in the program, and the search for the end of an IF block.

  The macros compile the user's automation to the byte array \<open>RouteCode\<close>. Its instructions are three
  bytes long, an operation and one operand; further operands follow as \<^verbatim>\<open>OPCODE_PAD\<close> instructions.
  The operation codes have the values of the \<^verbatim>\<open>enum\<close>; those from \<^verbatim>\<open>IF_TYPE_OPCODES\<close> on open a block.
\<close>

section \<open>Operation codes\<close>

abbreviation OPCODE_THROW :: byte where "OPCODE_THROW \<equiv> 0"
abbreviation OPCODE_CLOSE :: byte where "OPCODE_CLOSE \<equiv> 1"
abbreviation OPCODE_TOGGLE_TURNOUT :: byte where "OPCODE_TOGGLE_TURNOUT \<equiv> 2"
abbreviation OPCODE_FWD :: byte where "OPCODE_FWD \<equiv> 3"
abbreviation OPCODE_REV :: byte where "OPCODE_REV \<equiv> 4"
abbreviation OPCODE_SPEED :: byte where "OPCODE_SPEED \<equiv> 5"
abbreviation OPCODE_SPEEDUP :: byte where "OPCODE_SPEEDUP \<equiv> 6"
abbreviation OPCODE_SLOWDOWN :: byte where "OPCODE_SLOWDOWN \<equiv> 7"
abbreviation OPCODE_SPEED_REL :: byte where "OPCODE_SPEED_REL \<equiv> 8"
abbreviation OPCODE_INVERT_DIRECTION :: byte where "OPCODE_INVERT_DIRECTION \<equiv> 9"
abbreviation OPCODE_MOMENTUM :: byte where "OPCODE_MOMENTUM \<equiv> 10"
abbreviation OPCODE_RESERVE :: byte where "OPCODE_RESERVE \<equiv> 11"
abbreviation OPCODE_FREE :: byte where "OPCODE_FREE \<equiv> 12"
abbreviation OPCODE_AT :: byte where "OPCODE_AT \<equiv> 13"
abbreviation OPCODE_AFTER :: byte where "OPCODE_AFTER \<equiv> 14"
abbreviation OPCODE_AFTEROVERLOAD :: byte where "OPCODE_AFTEROVERLOAD \<equiv> 15"
abbreviation OPCODE_AUTOSTART :: byte where "OPCODE_AUTOSTART \<equiv> 16"
abbreviation OPCODE_ATGTE :: byte where "OPCODE_ATGTE \<equiv> 17"
abbreviation OPCODE_ATLT :: byte where "OPCODE_ATLT \<equiv> 18"
abbreviation OPCODE_ATTIMEOUT1 :: byte where "OPCODE_ATTIMEOUT1 \<equiv> 19"
abbreviation OPCODE_ATTIMEOUT2 :: byte where "OPCODE_ATTIMEOUT2 \<equiv> 20"
abbreviation OPCODE_LATCH :: byte where "OPCODE_LATCH \<equiv> 21"
abbreviation OPCODE_UNLATCH :: byte where "OPCODE_UNLATCH \<equiv> 22"
abbreviation OPCODE_SET :: byte where "OPCODE_SET \<equiv> 23"
abbreviation OPCODE_RESET :: byte where "OPCODE_RESET \<equiv> 24"
abbreviation OPCODE_BLINK :: byte where "OPCODE_BLINK \<equiv> 25"
abbreviation OPCODE_ENDIF :: byte where "OPCODE_ENDIF \<equiv> 26"
abbreviation OPCODE_ELSE :: byte where "OPCODE_ELSE \<equiv> 27"
abbreviation OPCODE_DELAY :: byte where "OPCODE_DELAY \<equiv> 28"
abbreviation OPCODE_DELAYMINS :: byte where "OPCODE_DELAYMINS \<equiv> 29"
abbreviation OPCODE_DELAYMS :: byte where "OPCODE_DELAYMS \<equiv> 30"
abbreviation OPCODE_RANDWAIT :: byte where "OPCODE_RANDWAIT \<equiv> 31"
abbreviation OPCODE_FON :: byte where "OPCODE_FON \<equiv> 32"
abbreviation OPCODE_FOFF :: byte where "OPCODE_FOFF \<equiv> 33"
abbreviation OPCODE_XFON :: byte where "OPCODE_XFON \<equiv> 34"
abbreviation OPCODE_XFOFF :: byte where "OPCODE_XFOFF \<equiv> 35"
abbreviation OPCODE_FTOGGLE :: byte where "OPCODE_FTOGGLE \<equiv> 36"
abbreviation OPCODE_XFTOGGLE :: byte where "OPCODE_XFTOGGLE \<equiv> 37"
abbreviation OPCODE_XFWD :: byte where "OPCODE_XFWD \<equiv> 38"
abbreviation OPCODE_XREV :: byte where "OPCODE_XREV \<equiv> 39"
abbreviation OPCODE_RED :: byte where "OPCODE_RED \<equiv> 40"
abbreviation OPCODE_GREEN :: byte where "OPCODE_GREEN \<equiv> 41"
abbreviation OPCODE_AMBER :: byte where "OPCODE_AMBER \<equiv> 42"
abbreviation OPCODE_DRIVE :: byte where "OPCODE_DRIVE \<equiv> 43"
abbreviation OPCODE_SERVO :: byte where "OPCODE_SERVO \<equiv> 44"
abbreviation OPCODE_SIGNAL :: byte where "OPCODE_SIGNAL \<equiv> 45"
abbreviation OPCODE_TURNOUT :: byte where "OPCODE_TURNOUT \<equiv> 46"
abbreviation OPCODE_WAITFOR :: byte where "OPCODE_WAITFOR \<equiv> 47"
abbreviation OPCODE_PAD :: byte where "OPCODE_PAD \<equiv> 48"
abbreviation OPCODE_FOLLOW :: byte where "OPCODE_FOLLOW \<equiv> 49"
abbreviation OPCODE_CALL :: byte where "OPCODE_CALL \<equiv> 50"
abbreviation OPCODE_RETURN :: byte where "OPCODE_RETURN \<equiv> 51"
abbreviation OPCODE_JOIN :: byte where "OPCODE_JOIN \<equiv> 52"
abbreviation OPCODE_UNJOIN :: byte where "OPCODE_UNJOIN \<equiv> 53"
abbreviation OPCODE_READ_LOCO1 :: byte where "OPCODE_READ_LOCO1 \<equiv> 54"
abbreviation OPCODE_READ_LOCO2 :: byte where "OPCODE_READ_LOCO2 \<equiv> 55"
abbreviation OPCODE_POM :: byte where "OPCODE_POM \<equiv> 56"
abbreviation OPCODE_START :: byte where "OPCODE_START \<equiv> 57"
abbreviation OPCODE_START_SHARED :: byte where "OPCODE_START_SHARED \<equiv> 58"
abbreviation OPCODE_START_SEND :: byte where "OPCODE_START_SEND \<equiv> 59"
abbreviation OPCODE_SETLOCO :: byte where "OPCODE_SETLOCO \<equiv> 60"
abbreviation OPCODE_SETFREQ :: byte where "OPCODE_SETFREQ \<equiv> 61"
abbreviation OPCODE_SENDLOCO :: byte where "OPCODE_SENDLOCO \<equiv> 62"
abbreviation OPCODE_FORGET :: byte where "OPCODE_FORGET \<equiv> 63"
abbreviation OPCODE_PAUSE :: byte where "OPCODE_PAUSE \<equiv> 64"
abbreviation OPCODE_RESUME :: byte where "OPCODE_RESUME \<equiv> 65"
abbreviation OPCODE_POWEROFF :: byte where "OPCODE_POWEROFF \<equiv> 66"
abbreviation OPCODE_POWERON :: byte where "OPCODE_POWERON \<equiv> 67"
abbreviation OPCODE_ONCLOSE :: byte where "OPCODE_ONCLOSE \<equiv> 68"
abbreviation OPCODE_ONTHROW :: byte where "OPCODE_ONTHROW \<equiv> 69"
abbreviation OPCODE_SERVOTURNOUT :: byte where "OPCODE_SERVOTURNOUT \<equiv> 70"
abbreviation OPCODE_PINTURNOUT :: byte where "OPCODE_PINTURNOUT \<equiv> 71"
abbreviation OPCODE_PRINT :: byte where "OPCODE_PRINT \<equiv> 72"
abbreviation OPCODE_DCCACTIVATE :: byte where "OPCODE_DCCACTIVATE \<equiv> 73"
abbreviation OPCODE_ASPECT :: byte where "OPCODE_ASPECT \<equiv> 74"
abbreviation OPCODE_ONACTIVATE :: byte where "OPCODE_ONACTIVATE \<equiv> 75"
abbreviation OPCODE_ONDEACTIVATE :: byte where "OPCODE_ONDEACTIVATE \<equiv> 76"
abbreviation OPCODE_ROSTER :: byte where "OPCODE_ROSTER \<equiv> 77"
abbreviation OPCODE_KILLALL :: byte where "OPCODE_KILLALL \<equiv> 78"
abbreviation OPCODE_ROUTE :: byte where "OPCODE_ROUTE \<equiv> 79"
abbreviation OPCODE_AUTOMATION :: byte where "OPCODE_AUTOMATION \<equiv> 80"
abbreviation OPCODE_SEQUENCE :: byte where "OPCODE_SEQUENCE \<equiv> 81"
abbreviation OPCODE_ENDTASK :: byte where "OPCODE_ENDTASK \<equiv> 82"
abbreviation OPCODE_ENDEXRAIL :: byte where "OPCODE_ENDEXRAIL \<equiv> 83"
abbreviation OPCODE_SET_TRACK :: byte where "OPCODE_SET_TRACK \<equiv> 84"
abbreviation OPCODE_SET_POWER :: byte where "OPCODE_SET_POWER \<equiv> 85"
abbreviation OPCODE_ONRED :: byte where "OPCODE_ONRED \<equiv> 86"
abbreviation OPCODE_ONAMBER :: byte where "OPCODE_ONAMBER \<equiv> 87"
abbreviation OPCODE_ONGREEN :: byte where "OPCODE_ONGREEN \<equiv> 88"
abbreviation OPCODE_ONCHANGE :: byte where "OPCODE_ONCHANGE \<equiv> 89"
abbreviation OPCODE_ONCLOCKTIME :: byte where "OPCODE_ONCLOCKTIME \<equiv> 90"
abbreviation OPCODE_ONTIME :: byte where "OPCODE_ONTIME \<equiv> 91"
abbreviation OPCODE_TTADDPOSITION :: byte where "OPCODE_TTADDPOSITION \<equiv> 92"
abbreviation OPCODE_DCCTURNTABLE :: byte where "OPCODE_DCCTURNTABLE \<equiv> 93"
abbreviation OPCODE_EXTTTURNTABLE :: byte where "OPCODE_EXTTTURNTABLE \<equiv> 94"
abbreviation OPCODE_ONROTATE :: byte where "OPCODE_ONROTATE \<equiv> 95"
abbreviation OPCODE_ROTATE :: byte where "OPCODE_ROTATE \<equiv> 96"
abbreviation OPCODE_WAITFORTT :: byte where "OPCODE_WAITFORTT \<equiv> 97"
abbreviation OPCODE_LCC :: byte where "OPCODE_LCC \<equiv> 98"
abbreviation OPCODE_LCCX :: byte where "OPCODE_LCCX \<equiv> 99"
abbreviation OPCODE_ONLCC :: byte where "OPCODE_ONLCC \<equiv> 100"
abbreviation OPCODE_ACON :: byte where "OPCODE_ACON \<equiv> 101"
abbreviation OPCODE_ACOF :: byte where "OPCODE_ACOF \<equiv> 102"
abbreviation OPCODE_ONACON :: byte where "OPCODE_ONACON \<equiv> 103"
abbreviation OPCODE_ONACOF :: byte where "OPCODE_ONACOF \<equiv> 104"
abbreviation OPCODE_ONOVERLOAD :: byte where "OPCODE_ONOVERLOAD \<equiv> 105"
abbreviation OPCODE_ONRAILSYNCON :: byte where "OPCODE_ONRAILSYNCON \<equiv> 106"
abbreviation OPCODE_ONRAILSYNCOFF :: byte where "OPCODE_ONRAILSYNCOFF \<equiv> 107"
abbreviation OPCODE_ROUTE_ACTIVE :: byte where "OPCODE_ROUTE_ACTIVE \<equiv> 108"
abbreviation OPCODE_ROUTE_INACTIVE :: byte where "OPCODE_ROUTE_INACTIVE \<equiv> 109"
abbreviation OPCODE_ROUTE_HIDDEN :: byte where "OPCODE_ROUTE_HIDDEN \<equiv> 110"
abbreviation OPCODE_ROUTE_DISABLED :: byte where "OPCODE_ROUTE_DISABLED \<equiv> 111"
abbreviation OPCODE_STASH :: byte where "OPCODE_STASH \<equiv> 112"
abbreviation OPCODE_CLEAR_STASH :: byte where "OPCODE_CLEAR_STASH \<equiv> 113"
abbreviation OPCODE_CLEAR_ALL_STASH :: byte where "OPCODE_CLEAR_ALL_STASH \<equiv> 114"
abbreviation OPCODE_PICKUP_STASH :: byte where "OPCODE_PICKUP_STASH \<equiv> 115"
abbreviation OPCODE_CLEAR_ANY_STASH :: byte where "OPCODE_CLEAR_ANY_STASH \<equiv> 116"
abbreviation OPCODE_ONBUTTON :: byte where "OPCODE_ONBUTTON \<equiv> 117"
abbreviation OPCODE_ONSENSOR :: byte where "OPCODE_ONSENSOR \<equiv> 118"
abbreviation OPCODE_ONVP_SENSOR :: byte where "OPCODE_ONVP_SENSOR \<equiv> 119"
abbreviation OPCODE_NEOPIXEL :: byte where "OPCODE_NEOPIXEL \<equiv> 120"
abbreviation OPCODE_ONBLOCKENTER :: byte where "OPCODE_ONBLOCKENTER \<equiv> 121"
abbreviation OPCODE_ONBLOCKEXIT :: byte where "OPCODE_ONBLOCKEXIT \<equiv> 122"
abbreviation OPCODE_ESTOPALL :: byte where "OPCODE_ESTOPALL \<equiv> 123"
abbreviation OPCODE_XPOM :: byte where "OPCODE_XPOM \<equiv> 124"
abbreviation OPCODE_BITMAP_AND :: byte where "OPCODE_BITMAP_AND \<equiv> 125"
abbreviation OPCODE_BITMAP_OR :: byte where "OPCODE_BITMAP_OR \<equiv> 126"
abbreviation OPCODE_BITMAP_XOR :: byte where "OPCODE_BITMAP_XOR \<equiv> 127"
abbreviation OPCODE_BITMAP_INC :: byte where "OPCODE_BITMAP_INC \<equiv> 128"
abbreviation OPCODE_BITMAP_DEC :: byte where "OPCODE_BITMAP_DEC \<equiv> 129"
abbreviation OPCODE_ONBITMAP :: byte where "OPCODE_ONBITMAP \<equiv> 130"
abbreviation OPCODE_FREEALL :: byte where "OPCODE_FREEALL \<equiv> 131"
abbreviation OPCODE_WAIT_WHILE_RED :: byte where "OPCODE_WAIT_WHILE_RED \<equiv> 132"
abbreviation OPCODE_SAVE_SPEED :: byte where "OPCODE_SAVE_SPEED \<equiv> 133"
abbreviation OPCODE_RESTORE_SPEED :: byte where "OPCODE_RESTORE_SPEED \<equiv> 134"
abbreviation OPCODE_XSAVE_SPEED :: byte where "OPCODE_XSAVE_SPEED \<equiv> 135"
abbreviation OPCODE_XRESTORE_SPEED :: byte where "OPCODE_XRESTORE_SPEED \<equiv> 136"
abbreviation OPCODE_RANDOM_CALL :: byte where "OPCODE_RANDOM_CALL \<equiv> 137"
abbreviation OPCODE_RANDOM_FOLLOW :: byte where "OPCODE_RANDOM_FOLLOW \<equiv> 138"
abbreviation OPCODE_CONSIST :: byte where "OPCODE_CONSIST \<equiv> 139"
abbreviation IF_TYPE_OPCODES :: byte where "IF_TYPE_OPCODES \<equiv> 140"
abbreviation OPCODE_IFRED :: byte where "OPCODE_IFRED \<equiv> 141"
abbreviation OPCODE_IFAMBER :: byte where "OPCODE_IFAMBER \<equiv> 142"
abbreviation OPCODE_IFGREEN :: byte where "OPCODE_IFGREEN \<equiv> 143"
abbreviation OPCODE_IFGTE :: byte where "OPCODE_IFGTE \<equiv> 144"
abbreviation OPCODE_IFLT :: byte where "OPCODE_IFLT \<equiv> 145"
abbreviation OPCODE_IFTIMEOUT :: byte where "OPCODE_IFTIMEOUT \<equiv> 146"
abbreviation OPCODE_IF :: byte where "OPCODE_IF \<equiv> 147"
abbreviation OPCODE_IFNOT :: byte where "OPCODE_IFNOT \<equiv> 148"
abbreviation OPCODE_IFRANDOM :: byte where "OPCODE_IFRANDOM \<equiv> 149"
abbreviation OPCODE_IFRESERVE :: byte where "OPCODE_IFRESERVE \<equiv> 150"
abbreviation OPCODE_IFCLOSED :: byte where "OPCODE_IFCLOSED \<equiv> 151"
abbreviation OPCODE_IFTHROWN :: byte where "OPCODE_IFTHROWN \<equiv> 152"
abbreviation OPCODE_IFRE :: byte where "OPCODE_IFRE \<equiv> 153"
abbreviation OPCODE_IFLOCO :: byte where "OPCODE_IFLOCO \<equiv> 154"
abbreviation OPCODE_IFTTPOSITION :: byte where "OPCODE_IFTTPOSITION \<equiv> 155"
abbreviation OPCODE_IFSTASH :: byte where "OPCODE_IFSTASH \<equiv> 156"
abbreviation OPCODE_IFSTASHED_HERE :: byte where "OPCODE_IFSTASHED_HERE \<equiv> 157"
abbreviation OPCODE_IFBITMAP_ALL :: byte where "OPCODE_IFBITMAP_ALL \<equiv> 158"
abbreviation OPCODE_IFBITMAP_ANY :: byte where "OPCODE_IFBITMAP_ANY \<equiv> 159"
abbreviation OPCODE_IF_ROUTE_ACTIVE :: byte where "OPCODE_IF_ROUTE_ACTIVE \<equiv> 160"
abbreviation OPCODE_IF_ROUTE_INACTIVE :: byte where "OPCODE_IF_ROUTE_INACTIVE \<equiv> 161"
abbreviation OPCODE_IF_ROUTE_HIDDEN :: byte where "OPCODE_IF_ROUTE_HIDDEN \<equiv> 162"
abbreviation OPCODE_IF_ROUTE_DISABLED :: byte where "OPCODE_IF_ROUTE_DISABLED \<equiv> 163"

datatype SignalType =
    sigtypeVIRTUAL | sigtypeSIGNAL | sigtypeSIGNALH | sigtypeDCC | sigtypeDCCX | sigtypeSERVO | sigtypeNEOPIXEL
  | sigtypeContinuation | sigtypeNoMoreSignals

record SIGNAL_DEFINITION =
  sigtype :: SignalType
  sig_id :: u16
  redpin :: u16
  amberpin :: u16
  greenpin :: u16

text \<open>
  What the compiler made of the automation: the code, the signals up to \<^verbatim>\<open>sigtypeNoMoreSignals\<close>, the
  compiled-in features, and which turnouts and turntables have a description and whether it hides them.
\<close>

record program =
  RouteCode :: "byte list"
  SignalDefinitions :: "SIGNAL_DEFINITION list"
  compileFeatures :: byte
  turnoutHidden :: "u16 \<Rightarrow> bool option"
  turntableHidden :: "u16 \<Rightarrow> bool option"

abbreviation FEATURE_SIGNAL :: byte where "FEATURE_SIGNAL \<equiv> 0x80"
abbreviation FEATURE_LCC :: byte where "FEATURE_LCC \<equiv> 0x40"
abbreviation FEATURE_ROUTESTATE :: byte where "FEATURE_ROUTESTATE \<equiv> 0x10"
abbreviation FEATURE_BLINK :: byte where "FEATURE_BLINK \<equiv> 0x04"
abbreviation FEATURE_SENSOR :: byte where "FEATURE_SENSOR \<equiv> 0x02"
abbreviation FEATURE_BLOCK :: byte where "FEATURE_BLOCK \<equiv> 0x01"

definition feature :: "program \<Rightarrow> byte \<Rightarrow> bool" where
  "feature prg m \<longleftrightarrow> compileFeatures prg AND m \<noteq> 0"

section \<open>Instructions\<close>

definition GET_OPCODE :: "byte list \<Rightarrow> nat \<Rightarrow> byte" where
  "GET_OPCODE code pc = code ! pc"

definition getOperand :: "byte list \<Rightarrow> nat \<Rightarrow> nat \<Rightarrow> u16" where
  "getOperand code pc n =
    (let i = pc + 1 + n * 3 in push_bit 8 (ucast (code ! (i + 1))) OR ucast (code ! i))"

text \<open>The places of the instructions ahead of \<^verbatim>\<open>OPCODE_ENDEXRAIL\<close>, as the loops over the program visit them.\<close>

definition places :: "byte list \<Rightarrow> nat list" where
  "places code = takeWhile (\<lambda>pc. GET_OPCODE code pc \<noteq> OPCODE_ENDEXRAIL) (map (\<lambda>k. 3 * k) [0..<length code div 3])"

text \<open>A lookup list: the arrays \<^verbatim>\<open>m_lookupArray\<close> and \<^verbatim>\<open>m_resultArray\<close> side by side.\<close>

type_synonym LookList = "(u16 \<times> u16) list"

definition LookListLoader :: "byte list \<Rightarrow> byte list \<Rightarrow> LookList" where
  "LookListLoader ops code =
    map (\<lambda>pc. (getOperand code pc 0, of_nat pc)) (filter (\<lambda>pc. GET_OPCODE code pc \<in> set ops) (places code))"

definition findPosition :: "u16 \<Rightarrow> LookList \<Rightarrow> int" where
  "findPosition v l =
    (let n = length (takeWhile (\<lambda>(k, _). k \<noteq> v) l) in if n < length l then int n else -1)"

definition find_in :: "u16 \<Rightarrow> LookList \<Rightarrow> int option" where
  "find_in v l = map_option (\<lambda>(_, r). sint r) (find (\<lambda>(k, _). k = v) l)"

definition routeLookup :: "byte list \<Rightarrow> LookList" where
  "routeLookup code = LookListLoader [OPCODE_ROUTE, OPCODE_AUTOMATION] code"

text \<open>\<^verbatim>\<open>routeLookup->find\<close>, with the list of sequences chained to it.\<close>

definition find_route :: "byte list \<Rightarrow> u16 \<Rightarrow> int" where
  "find_route code v =
    (case find_in v (routeLookup code) of
       Some r \<Rightarrow> r
     | None \<Rightarrow> (case find_in v (LookListLoader [OPCODE_SEQUENCE] code) of Some r \<Rightarrow> r | None \<Rightarrow> -1))"

section \<open>Skipping a block\<close>

datatype skip_result = Skipped nat | MissingEndif nat | OffEnd

text \<open>The loop of \<^verbatim>\<open>skipIfBlock\<close>; \<open>OffEnd\<close> is a read outside the program.\<close>

function skip_loop :: "byte list \<Rightarrow> nat \<Rightarrow> nat \<Rightarrow> skip_result" where
  "skip_loop code nest pc =
    (if nest = 0 then Skipped pc
     else
       (let pc = pc + 3
        in if pc \<ge> length code then OffEnd
           else
             (let opc = GET_OPCODE code pc
              in if opc > IF_TYPE_OPCODES then skip_loop code (nest + 1) pc
                 else if opc = OPCODE_ENDEXRAIL then MissingEndif pc
                 else if opc = OPCODE_ENDIF then skip_loop code (nest - 1) pc
                 else if opc = OPCODE_ELSE then skip_loop code (if nest = 1 then 0 else nest) pc
                 else skip_loop code nest pc)))"
  by pat_completeness auto
termination
  by (relation "measure (\<lambda>(code, nest, pc). length code - pc)") (auto simp: Let_def)

declare skip_loop.simps [simp del]

definition skipIfBlock :: "byte list \<Rightarrow> nat \<Rightarrow> skip_result" where
  "skipIfBlock code pc = skip_loop code 1 pc"

section \<open>Nested blocks\<close>

text \<open>
  The reference for block structure: a program text as a tree, and the code the macros make of it.
  An instruction is its operation and the two bytes of its operand.
\<close>

type_synonym instr = "byte \<times> byte \<times> byte"

datatype stmt = Op instr | If instr "stmt list" | IfElse instr "stmt list" "stmt list"

fun instr_bytes :: "instr \<Rightarrow> byte list" where
  "instr_bytes (opc, lo, hi) = [opc, lo, hi]"

fun compile :: "stmt \<Rightarrow> byte list" where
  "compile (Op i) = instr_bytes i"
| "compile (If i ss) = instr_bytes i @ concat (map compile ss) @ [OPCODE_ENDIF, 0, 0]"
| "compile (IfElse i ss ts) =
    instr_bytes i @ concat (map compile ss) @ [OPCODE_ELSE, 0, 0] @ concat (map compile ts) @ [OPCODE_ENDIF, 0, 0]"

fun wf_stmt :: "stmt \<Rightarrow> bool" where
  "wf_stmt (Op (opc, _)) \<longleftrightarrow> opc \<le> IF_TYPE_OPCODES \<and> opc \<notin> {OPCODE_ENDEXRAIL, OPCODE_ENDIF, OPCODE_ELSE}"
| "wf_stmt (If (opc, _) ss) \<longleftrightarrow> opc > IF_TYPE_OPCODES \<and> list_all wf_stmt ss"
| "wf_stmt (IfElse (opc, _) ss ts) \<longleftrightarrow> opc > IF_TYPE_OPCODES \<and> list_all wf_stmt ss \<and> list_all wf_stmt ts"

abbreviation compile_list :: "stmt list \<Rightarrow> byte list" where
  "compile_list ss \<equiv> concat (map compile ss)"

lemma skip_done: "skip_loop code 0 pc = Skipped pc"
  by (simp add: skip_loop.simps [of code 0])

lemma skip_forward:
  assumes "code = pre @ opc # lo # hi # post" "pc + 3 = length pre" "0 < nest"
  shows "skip_loop code nest pc =
    (if opc > IF_TYPE_OPCODES then skip_loop code (nest + 1) (pc + 3)
     else if opc = OPCODE_ENDEXRAIL then MissingEndif (pc + 3)
     else if opc = OPCODE_ENDIF then skip_loop code (nest - 1) (pc + 3)
     else if opc = OPCODE_ELSE then skip_loop code (if nest = 1 then 0 else nest) (pc + 3)
     else skip_loop code nest (pc + 3))"
proof -
  have "GET_OPCODE code (pc + 3) = opc" "pc + 3 < length code" using assms(1,2) by (simp_all add: GET_OPCODE_def)
  then show ?thesis using assms(3) by (subst skip_loop.simps) (simp add: Let_def)
qed

lemma skip_list:
  assumes "\<And>s pre post pc. s \<in> set ss \<Longrightarrow> code = pre @ compile s @ post \<Longrightarrow> pc + 3 = length pre \<Longrightarrow>
      skip_loop code nest pc = skip_loop code nest (pc + length (compile s))"
    and "code = pre @ compile_list ss @ post" "pc + 3 = length pre"
  shows "skip_loop code nest pc = skip_loop code nest (pc + length (compile_list ss))"
  using assms
proof (induction ss arbitrary: pre pc)
  case (Cons s ss)
  have "skip_loop code nest pc = skip_loop code nest (pc + length (compile s))"
    by (rule Cons.prems(1) [of s pre "compile_list ss @ post"]) (use Cons.prems in simp_all)
  also have "\<dots> = skip_loop code nest (pc + length (compile s) + length (compile_list ss))"
    by (rule Cons.IH [of "pre @ compile s"]) (use Cons.prems in simp_all)
  finally show ?case by (simp add: add.assoc)
qed simp

lemma skip_stmt:
  "wf_stmt s \<Longrightarrow> 0 < nest \<Longrightarrow> code = pre @ compile s @ post \<Longrightarrow> pc + 3 = length pre \<Longrightarrow>
    skip_loop code nest pc = skip_loop code nest (pc + length (compile s))"
proof (induction s arbitrary: pre post pc nest)
  case (Op i)
  obtain opc lo hi where i: "i = (opc, lo, hi)" by (cases i)
  have "skip_loop code nest pc = skip_loop code nest (pc + 3)"
    using skip_forward [of code pre opc lo hi post pc nest] Op by (auto simp: i)
  then show ?case by (simp add: i numeral_3_eq_3)
next
  case (If i ss)
  obtain opc lo hi where i: "i = (opc, lo, hi)" by (cases i)
  let ?n = "length (compile_list ss)"
  have c: "code = pre @ opc # lo # hi # compile_list ss @ OPCODE_ENDIF # 0 # 0 # post" using If.prems(3) by (simp add: i)
  have "skip_loop code nest pc = skip_loop code (nest + 1) (pc + 3)"
    using skip_forward [OF c If.prems(4,2)] If.prems(1) by (simp add: i)
  also have "\<dots> = skip_loop code (nest + 1) (pc + 3 + ?n)"
    by (rule skip_list [where pre = "pre @ [opc, lo, hi]"]) (use If c in \<open>auto simp: i list_all_iff\<close>)
  also have "\<dots> = skip_loop code nest (pc + 3 + ?n + 3)"
    using skip_forward [of code "pre @ [opc, lo, hi] @ compile_list ss" OPCODE_ENDIF 0 0 post "pc + 3 + ?n" "nest + 1"] c If.prems(4) by simp
  finally show ?case by (simp add: i eval_nat_numeral add.assoc)
next
  case (IfElse i ss ts)
  obtain opc lo hi where i: "i = (opc, lo, hi)" by (cases i)
  let ?n = "length (compile_list ss)" and ?m = "length (compile_list ts)"
  have c: "code = pre @ opc # lo # hi # compile_list ss @ OPCODE_ELSE # 0 # 0 # compile_list ts @ OPCODE_ENDIF # 0 # 0 # post"
    using IfElse.prems(3) by (simp add: i)
  have "skip_loop code nest pc = skip_loop code (nest + 1) (pc + 3)"
    using skip_forward [OF c IfElse.prems(4,2)] IfElse.prems(1) by (simp add: i)
  also have "\<dots> = skip_loop code (nest + 1) (pc + 3 + ?n)"
    by (rule skip_list [where pre = "pre @ [opc, lo, hi]"]) (use IfElse c in \<open>auto simp: i list_all_iff\<close>)
  also have "\<dots> = skip_loop code (nest + 1) (pc + 3 + ?n + 3)"
    using skip_forward [of code "pre @ [opc, lo, hi] @ compile_list ss" OPCODE_ELSE 0 0 "compile_list ts @ OPCODE_ENDIF # 0 # 0 # post" "pc + 3 + ?n" "nest + 1"]
      c IfElse.prems(2,4) by simp
  also have "\<dots> = skip_loop code (nest + 1) (pc + 3 + ?n + 3 + ?m)"
    by (rule skip_list [where pre = "pre @ [opc, lo, hi] @ compile_list ss @ [OPCODE_ELSE, 0, 0]"])
      (use IfElse c in \<open>auto simp: i list_all_iff\<close>)
  also have "\<dots> = skip_loop code nest (pc + 3 + ?n + 3 + ?m + 3)"
    using skip_forward [of code "pre @ [opc, lo, hi] @ compile_list ss @ [OPCODE_ELSE, 0, 0] @ compile_list ts" OPCODE_ENDIF 0 0 post "pc + 3 + ?n + 3 + ?m" "nest + 1"]
      c IfElse.prems(4) by simp
  finally show ?case by (simp add: i eval_nat_numeral add.assoc)
qed

text \<open>
  C16: skipping finds the matching end of a block, however deep other blocks are nested in it. From an
  IF whose condition fails, or from an ELSE that is reached, the search stops exactly at the ELSE or
  ENDIF that ends this block, so the next instruction executed is the one after it.
\<close>

theorem skip_matches:
  assumes "list_all wf_stmt ss" "length i = 3" "e \<in> {OPCODE_ELSE, OPCODE_ENDIF}"
  shows "skipIfBlock (pre @ i @ compile_list ss @ e # post) (length pre) = Skipped (length pre + 3 + length (compile_list ss))"
proof -
  let ?code = "pre @ i @ compile_list ss @ e # post"
  have "skip_loop ?code 1 (length pre) = skip_loop ?code 1 (length pre + length (compile_list ss))"
    by (rule skip_list [where pre = "pre @ i" and post = "e # post"])
      (use assms(1,2) skip_stmt in \<open>auto simp: list_all_iff\<close>)
  also have "\<dots> = Skipped (length pre + 3 + length (compile_list ss))"
  proof -
    have "GET_OPCODE ?code (length pre + length (compile_list ss) + 3) = e"
      using nth_append_length [of "pre @ i @ compile_list ss" e post] assms(2) by (simp add: GET_OPCODE_def ac_simps)
    moreover have "length pre + length (compile_list ss) + 3 < length ?code" using assms(2) by simp
    ultimately have "skip_loop ?code 1 (length pre + length (compile_list ss)) =
        skip_loop ?code 0 (length pre + length (compile_list ss) + 3)"
      by (subst skip_loop.simps) (use assms(3) in \<open>elim insertE emptyE; simp add: Let_def\<close>)
    then show ?thesis by (simp add: skip_done)
  qed
  finally show ?thesis by (simp add: skipIfBlock_def)
qed

theorem skip_matches_witness:
  "skipIfBlock ([0, 1, 0] @ [OPCODE_IF, 5, 0] @ compile_list [IfElse (OPCODE_IFNOT, 6, 0) [Op (OPCODE_THROW, 2, 0)] [Op (OPCODE_CLOSE, 3, 0)]] @
     OPCODE_ELSE # [0, 0]) 3 = Skipped 21"
  using skip_matches [of "[IfElse (OPCODE_IFNOT, 6, 0) [Op (OPCODE_THROW, 2, 0)] [Op (OPCODE_CLOSE, 3, 0)]]" "[OPCODE_IF, 5, 0]" OPCODE_ELSE "[0, 1, 0]" "[0, 0]"]
  by (simp add: numeral_3_eq_3 [symmetric])

end
