(* ===== verification/Exrail.thy ===== *)
theory Exrail
  imports ExrailCode
begin

text \<open>
  The state of EXRAIL and the operations its instructions use, \<^verbatim>\<open>src/EXRAIL2.cpp\<close> and
  \<^verbatim>\<open>src/EXRAILSensor.cpp\<close>: the tasks, the flags of blocks, sensors and signals, the events that
  start handlers, the signals and the blinking of pins.

  A task is an object at an address. The code chains the tasks to a ring through \<^verbatim>\<open>next\<close> and keeps one
  of them in \<^verbatim>\<open>loopTask\<close>; here the ring is the list \<open>ring_of\<close> of its tasks in the order of \<^verbatim>\<open>next\<close>,
  with \<^verbatim>\<open>loopTask\<close> in front. The address of a deleted task is not used again, and address 1 is the
  "impossible" one of \<^verbatim>\<open></ PAUSE>\<close>. \<open>new\<close> leaves the members it does not set as they were in memory;
  these contents are the field \<open>garbage\<close> of the surroundings, a \<open>world\<close>, which also holds the clocks and
  what the pins and devices read. The three members of the union share the word \<open>timer\<close>.

  The calls that EXRAIL makes to the track manager, the LCC adapter and the throttles are the list
  \<open>outs\<close>. Events that the DCC layer and the layout record (an accessory is set, a turnout moves, a
  turntable turns) reach EXRAIL right after the call that causes them, the order in which the code
  calls its event functions.
\<close>

section \<open>State\<close>

datatype BlinkState = not_blink_task | blink_low | blink_high | at_timeout

record task =
  progCounter :: int
  delayStart :: u32
  delayTime :: u32
  timer :: u32
  taskId :: byte
  blinkState :: BlinkState
  t_loco :: u16
  invert :: bool
  pauseSpeed :: byte
  onEventStartPosition :: int
  callStack :: "int list"

record EXRAILSensor =
  es_pin :: u16
  es_pc :: int
  onChange :: bool
  useAnalog :: bool
  es_active :: u16
  es_input :: u16
  es_latch :: byte

datatype exrail_out =
    SetPowerAll bool
  | SetJoin bool
  | SetMainPower bool
  | SetProgPower bool
  | SetTrackPower bool u16
  | SetTrackMode byte byte u16
  | LCCSend string "u16 list"
  | WriteAnalogueRange u16 u16 bool u16 u16
  | BroadcastRouteState u16 byte
  | ConfigureAnalogIn u16

record exrail =
  yard_of :: yard
  stash_of :: "Stash list"
  ring_of :: "addr list"
  tasks :: "addr \<Rightarrow> task"
  fresh :: addr
  pausingTask :: ptr
  eflags :: "byte list"
  progtrackLocoId :: int
  routeStateArray :: "byte list"
  esensors :: "EXRAILSensor list"
  readingESensor :: "nat option"
  lastESensorCycle :: u32
  lccAttached :: bool
  lccProgCounter :: nat
  lccEventIndex :: nat
  onLCCLookup :: "int list"
  outs :: "exrail_out list"

record world = env +
  micros :: u32
  read_pin :: "u16 \<Rightarrow> bool"
  readAnalogue :: "u16 \<Rightarrow> int"
  isBusy :: "u16 \<Rightarrow> bool"
  isPowerOn :: "byte \<Rightarrow> bool"
  garbage :: task

abbreviation SECTION_FLAG :: byte where "SECTION_FLAG \<equiv> 0x80"
abbreviation LATCH_FLAG :: byte where "LATCH_FLAG \<equiv> 0x40"
abbreviation TASK_FLAG :: byte where "TASK_FLAG \<equiv> 0x20"
abbreviation SIGNAL_MASK :: byte where "SIGNAL_MASK \<equiv> 0x0C"
abbreviation SIGNAL_RED :: byte where "SIGNAL_RED \<equiv> 0x08"
abbreviation SIGNAL_AMBER :: byte where "SIGNAL_AMBER \<equiv> 0x0C"
abbreviation SIGNAL_GREEN :: byte where "SIGNAL_GREEN \<equiv> 0x04"
abbreviation MAX_STACK_DEPTH :: nat where "MAX_STACK_DEPTH \<equiv> 4"
abbreviation MAX_FLAGS :: nat where "MAX_FLAGS \<equiv> 256"
abbreviation LOCO_ID_WAITING :: int where "LOCO_ID_WAITING \<equiv> -99"

definition dcc_of :: "exrail \<Rightarrow> dcc" where
  "dcc_of x = dcc_state (board (station_of (yard_of x)))"

definition board_of :: "exrail \<Rightarrow> layout" where
  "board_of x = board (station_of (yard_of x))"

definition out :: "exrail_out \<Rightarrow> exrail \<Rightarrow> exrail" where
  "out e x = x\<lparr>outs := outs x @ [e]\<rparr>"

definition set_task :: "addr \<Rightarrow> (task \<Rightarrow> task) \<Rightarrow> exrail \<Rightarrow> exrail" where
  "set_task a f x = x\<lparr>tasks := (tasks x)(a := f (tasks x a))\<rparr>"

section \<open>Flags\<close>

definition setFlag :: "u16 \<Rightarrow> byte \<Rightarrow> byte \<Rightarrow> exrail \<Rightarrow> bool \<times> exrail" where
  "setFlag i onMask offMask x =
    (if unat i \<ge> MAX_FLAGS then (False, x)
     else (True, x\<lparr>eflags := (eflags x)[unat i := (eflags x ! unat i AND NOT offMask) OR onMask]\<rparr>))"

definition getFlag :: "u16 \<Rightarrow> byte \<Rightarrow> exrail \<Rightarrow> bool" where
  "getFlag i m x \<longleftrightarrow> (if unat i \<ge> MAX_FLAGS then False else eflags x ! unat i AND m \<noteq> 0)"

definition freeAll :: "exrail \<Rightarrow> exrail" where
  "freeAll x = fold (\<lambda>i x. snd (setFlag (of_nat i) 0 SECTION_FLAG x)) [0..<MAX_FLAGS] x"

section \<open>Tasks\<close>

text \<open>The first id of the flags table that no task uses, or 255.\<close>

definition free_id :: "exrail \<Rightarrow> nat option" where
  "free_id x = find (\<lambda>f. \<not> getFlag (of_nat f) TASK_FLAG x) [0..<MAX_FLAGS]"

definition new_task :: "world \<Rightarrow> int \<Rightarrow> u16 \<Rightarrow> bool \<Rightarrow> exrail \<Rightarrow> exrail" where
  "new_task w pc l inverted x =
    (let a = fresh x;
         t = (garbage w)\<lparr>progCounter := pc, taskId := (case free_id x of Some f \<Rightarrow> of_nat f | None \<Rightarrow> 255), delayTime := 0,
               t_loco := l, invert := inverted, blinkState := not_blink_task, callStack := [], onEventStartPosition := -1\<rparr>;
         x = (case free_id x of Some f \<Rightarrow> snd (setFlag (of_nat f) TASK_FLAG 0 x) | None \<Rightarrow> x)
     in x\<lparr>tasks := (tasks x)(a := t), fresh := a + 1,
          ring_of := (case ring_of x of [] \<Rightarrow> [a] | l # r \<Rightarrow> l # a # r)\<rparr>)"

text \<open>The ring seen from one of its tasks.\<close>

definition ring_from :: "addr \<Rightarrow> addr list \<Rightarrow> addr list" where
  "ring_from a r = dropWhile (\<lambda>b. b \<noteq> a) r @ takeWhile (\<lambda>b. b \<noteq> a) r"

text \<open>\<^verbatim>\<open>kill\<close> deletes the task; the destructor leaves the task behind it as \<^verbatim>\<open>loopTask\<close>.\<close>

definition kill :: "world \<Rightarrow> addr \<Rightarrow> exrail \<Rightarrow> exrail" where
  "kill w a x =
    (let t = tasks x a;
         x = (if t_loco t > 0 \<and> onEventStartPosition t = -1
              then x\<lparr>yard_of := on_station (on_dcc (\<lambda>d. snd (setThrottle (millis w) (t_loco t) 1
                       (getThrottleDirection (uint (t_loco t)) d) d))) (yard_of x)\<rparr>
              else x);
         x = snd (setFlag (ucast (taskId t)) 0 TASK_FLAG x)
     in x\<lparr>ring_of := tl (ring_from a (ring_of x))\<rparr>)"

definition kill_all :: "world \<Rightarrow> exrail \<Rightarrow> exrail" where
  "kill_all w x = fold (kill w) (ring_of x) x"

definition startNonRecursiveTask :: "world \<Rightarrow> int \<Rightarrow> u16 \<Rightarrow> exrail \<Rightarrow> exrail" where
  "startNonRecursiveTask w pc l x =
    (if list_ex (\<lambda>a. onEventStartPosition (tasks x a) = pc \<and> t_loco (tasks x a) = l) (ring_of x) then x
     else set_task (fresh x) (\<lambda>t. t\<lparr>onEventStartPosition := pc\<rparr>) (new_task w pc l False x))"

definition createNewTask :: "program \<Rightarrow> world \<Rightarrow> u16 \<Rightarrow> u16 \<Rightarrow> exrail \<Rightarrow> exrail" where
  "createNewTask prg w route cab x =
    (let pc = find_route (RouteCode prg) route in if pc < 0 then x else new_task w pc cab False x)"

definition delayMe :: "world \<Rightarrow> addr \<Rightarrow> int \<Rightarrow> exrail \<Rightarrow> exrail" where
  "delayMe w a d = set_task a (\<lambda>t. t\<lparr>delayTime := word_of_int d, delayStart := millis w\<rparr>)"

definition readLocoCallback :: "int \<Rightarrow> exrail \<Rightarrow> exrail" where
  "readLocoCallback cv x =
    (if cv \<le> 0 then x\<lparr>progtrackLocoId := 0\<rparr>
     else if cv AND LONG_ADDR_MARKER \<noteq> 0 then
       (let l = cv XOR LONG_ADDR_MARKER in x\<lparr>progtrackLocoId := (if l \<le> HIGHEST_SHORT_ADDR then 0 else l)\<rparr>)
     else x\<lparr>progtrackLocoId := cv\<rparr>)"

section \<open>Events\<close>

definition handleEvent :: "world \<Rightarrow> LookList \<Rightarrow> u16 \<Rightarrow> u16 \<Rightarrow> exrail \<Rightarrow> exrail" where
  "handleEvent w l i loc x = fold (\<lambda>(_, pc). startNonRecursiveTask w (sint pc) loc) (filter (\<lambda>(k, _). k = i) l) x"

definition on_lookup :: "program \<Rightarrow> byte \<Rightarrow> LookList" where
  "on_lookup prg opc = LookListLoader [opc] (RouteCode prg)"

definition turnoutEvent :: "program \<Rightarrow> world \<Rightarrow> u16 \<Rightarrow> bool \<Rightarrow> exrail \<Rightarrow> exrail" where
  "turnoutEvent prg w i c = handleEvent w (on_lookup prg (if c then OPCODE_ONCLOSE else OPCODE_ONTHROW)) i 0"

definition activateEvent :: "program \<Rightarrow> world \<Rightarrow> u16 \<Rightarrow> bool \<Rightarrow> exrail \<Rightarrow> exrail" where
  "activateEvent prg w i c = handleEvent w (on_lookup prg (if c then OPCODE_ONACTIVATE else OPCODE_ONDEACTIVATE)) i 0"

definition blockEvent :: "program \<Rightarrow> world \<Rightarrow> u16 \<Rightarrow> u16 \<Rightarrow> bool \<Rightarrow> exrail \<Rightarrow> exrail" where
  "blockEvent prg w b l entering =
    (if feature prg FEATURE_BLOCK then handleEvent w (on_lookup prg (if entering then OPCODE_ONBLOCKENTER else OPCODE_ONBLOCKEXIT)) b l
     else id)"

definition changeEvent :: "program \<Rightarrow> world \<Rightarrow> u16 \<Rightarrow> bool \<Rightarrow> exrail \<Rightarrow> exrail" where
  "changeEvent prg w v changed = (if changed then handleEvent w (on_lookup prg OPCODE_ONCHANGE) v 0 else id)"

definition rotateEvent :: "program \<Rightarrow> world \<Rightarrow> u16 \<Rightarrow> bool \<Rightarrow> exrail \<Rightarrow> exrail" where
  "rotateEvent prg w i changed = (if changed then handleEvent w (on_lookup prg OPCODE_ONROTATE) i 0 else id)"

definition clockEvent :: "program \<Rightarrow> world \<Rightarrow> u16 \<Rightarrow> bool \<Rightarrow> exrail \<Rightarrow> exrail" where
  "clockEvent prg w clocktime changed x =
    (if changed then
       handleEvent w (on_lookup prg OPCODE_ONTIME) (word_of_int (25 * 60 + (sint clocktime - 60 * trunc_div (sint clocktime) 60))) 0
         (handleEvent w (on_lookup prg OPCODE_ONTIME) clocktime 0 x)
     else x)"

definition powerEvent :: "program \<Rightarrow> world \<Rightarrow> u16 \<Rightarrow> bool \<Rightarrow> exrail \<Rightarrow> exrail" where
  "powerEvent prg w tr overload = (if overload then handleEvent w (on_lookup prg OPCODE_ONOVERLOAD) tr 0 else id)"

fun dcc_event :: "program \<Rightarrow> world \<Rightarrow> dcc_event \<Rightarrow> exrail \<Rightarrow> exrail" where
  "dcc_event prg w (ActivateEvent i c) = activateEvent prg w (word_of_int i) c"
| "dcc_event prg w _ = id"

fun layout_event :: "program \<Rightarrow> world \<Rightarrow> io_event \<Rightarrow> exrail \<Rightarrow> exrail" where
  "layout_event prg w (TurnoutEvent i c) = turnoutEvent prg w i c"
| "layout_event prg w (RotateEvent i c) = rotateEvent prg w i c"
| "layout_event prg w _ = id"

text \<open>A call to the rest of the station, with the events it raises.\<close>

definition call :: "program \<Rightarrow> world \<Rightarrow> (yard \<Rightarrow> yard) \<Rightarrow> exrail \<Rightarrow> exrail" where
  "call prg w f x =
    (let x' = x\<lparr>yard_of := f (yard_of x)\<rparr>
     in fold (layout_event prg w) (drop (length (io (board_of x))) (io (board_of x')))
          (fold (dcc_event prg w) (drop (length (devents (dcc_of x))) (devents (dcc_of x'))) x'))"

definition call_dcc :: "program \<Rightarrow> world \<Rightarrow> (dcc \<Rightarrow> dcc) \<Rightarrow> exrail \<Rightarrow> exrail" where
  "call_dcc prg w f = call prg w (on_station (on_dcc f))"

definition call_board :: "program \<Rightarrow> world \<Rightarrow> (layout \<Rightarrow> layout) \<Rightarrow> exrail \<Rightarrow> exrail" where
  "call_board prg w f = call prg w (on_station (on_board f))"

definition throttle :: "program \<Rightarrow> world \<Rightarrow> u16 \<Rightarrow> byte \<Rightarrow> bool \<Rightarrow> exrail \<Rightarrow> exrail" where
  "throttle prg w l speed dir = call_dcc prg w (\<lambda>d. snd (setThrottle (millis w) l speed dir d))"

definition direction_of :: "u16 \<Rightarrow> exrail \<Rightarrow> bool" where
  "direction_of l x = getThrottleDirection (uint l) (dcc_of x)"

definition write_pin :: "program \<Rightarrow> world \<Rightarrow> u16 \<Rightarrow> bool \<Rightarrow> exrail \<Rightarrow> exrail" where
  "write_pin prg w v b = call_board prg w (emit_io (Write v b))"

definition writeAnalogue :: "program \<Rightarrow> world \<Rightarrow> u16 \<Rightarrow> u16 \<Rightarrow> byte \<Rightarrow> u16 \<Rightarrow> exrail \<Rightarrow> exrail" where
  "writeAnalogue prg w v val prof dur = call_board prg w (emit_io (WriteAnalogue v val prof dur))"

definition pause :: "addr \<Rightarrow> exrail \<Rightarrow> exrail" where
  "pause a x =
    (if t_loco (tasks x a) \<noteq> 0
     then set_task a (\<lambda>t. t\<lparr>pauseSpeed := getThrottleSpeedByte (uint (t_loco t)) (dcc_of x)\<rparr>) x else x)"

definition resume :: "program \<Rightarrow> world \<Rightarrow> addr \<Rightarrow> exrail \<Rightarrow> exrail" where
  "resume prg w a x =
    (let t = tasks x a
     in if t_loco t \<noteq> 0 then throttle prg w (t_loco t) (pauseSpeed t AND 0x7f) (pauseSpeed t AND 0x80 \<noteq> 0) x else x)"

definition readSensor :: "world \<Rightarrow> u16 \<Rightarrow> exrail \<Rightarrow> bool" where
  "readSensor w sensorId x =
    (let vpin = word_of_int \<bar>sint sensorId\<bar>
     in if getFlag vpin LATCH_FLAG x then True else read_pin w vpin \<noteq> (sint sensorId < 0))"

section \<open>Blinking pins\<close>

definition is_blinking :: "u16 \<Rightarrow> u16 \<Rightarrow> task \<Rightarrow> bool" where
  "is_blinking firstPin lastPin t \<longleftrightarrow>
    (blinkState t = blink_high \<or> blinkState t = blink_low) \<and> ucast (timer t) \<ge> firstPin \<and> ucast (timer t) \<le> lastPin"

text \<open>
  The loop of \<^verbatim>\<open>killBlinkOnVpin\<close>. It ends where it comes back to the task it started from; \<open>None\<close> is
  that it runs forever, or that it follows the pointer of a deleted task.
\<close>

definition next_task :: "addr \<Rightarrow> exrail \<Rightarrow> ptr" where
  "next_task a x = (if a \<in> set (ring_of x) then Some (hd (tl (ring_from a (ring_of x)) @ [a])) else None)"

partial_function (option) kill_blink_loop :: "world \<Rightarrow> u16 \<Rightarrow> u16 \<Rightarrow> addr \<Rightarrow> addr \<Rightarrow> exrail \<Rightarrow> exrail option" where
  "kill_blink_loop w firstPin lastPin stoptask a x =
    (case next_task a x of
       None \<Rightarrow> None
     | Some nextTask \<Rightarrow>
         (let x = (if is_blinking firstPin lastPin (tasks x a) then kill w a x else x)
          in if nextTask = stoptask then Some x else kill_blink_loop w firstPin lastPin stoptask nextTask x))"

definition killBlinkOnVpin :: "program \<Rightarrow> world \<Rightarrow> u16 \<Rightarrow> u16 \<Rightarrow> exrail \<Rightarrow> exrail option" where
  "killBlinkOnVpin prg w firstPin n x =
    (if \<not> feature prg FEATURE_BLINK then Some x
     else case ring_of x of
       [] \<Rightarrow> Some x
     | a # _ \<Rightarrow> kill_blink_loop w firstPin (firstPin + n - 1) a a x)"

section \<open>Signals\<close>

definition getSignalSlot :: "program \<Rightarrow> nat \<Rightarrow> SIGNAL_DEFINITION" where
  "getSignalSlot prg sl = SignalDefinitions prg ! sl"

definition signal_slots :: "program \<Rightarrow> nat list" where
  "signal_slots prg =
    filter (\<lambda>i. sigtype (getSignalSlot prg i) \<noteq> sigtypeContinuation)
      (takeWhile (\<lambda>i. sigtype (getSignalSlot prg i) \<noteq> sigtypeNoMoreSignals) [0..<length (SignalDefinitions prg)])"

definition find_signal :: "program \<Rightarrow> u16 \<Rightarrow> nat option" where
  "find_signal prg i = find (\<lambda>s. sig_id (getSignalSlot prg s) = i) (signal_slots prg)"

definition rag_value :: "byte \<Rightarrow> SIGNAL_DEFINITION \<Rightarrow> u16" where
  "rag_value rag s = (if rag = SIGNAL_GREEN then greenpin s else if rag = SIGNAL_AMBER then amberpin s else redpin s)"

text \<open>One lamp of a signal: pin 0 is no lamp.\<close>

definition set_lamp :: "program \<Rightarrow> world \<Rightarrow> bool \<Rightarrow> u16 \<Rightarrow> bool \<Rightarrow> exrail \<Rightarrow> exrail option" where
  "set_lamp prg w aHigh v lit x =
    (if v = 0 then Some x
     else map_option (write_pin prg w v (if aHigh then lit else \<not> lit)) (killBlinkOnVpin prg w v 1 x))"

definition set_lamps :: "program \<Rightarrow> world \<Rightarrow> byte \<Rightarrow> SIGNAL_DEFINITION \<Rightarrow> exrail \<Rightarrow> exrail option" where
  "set_lamps prg w rag s x =
    (let rag = (if rag = SIGNAL_AMBER \<and> amberpin s = 0 then 0 else rag);
         aHigh = (sigtype s = sigtypeSIGNALH)
     in Option.bind (set_lamp prg w aHigh (redpin s) (rag = SIGNAL_RED \<or> rag = 0) x) (\<lambda>x.
        Option.bind (set_lamp prg w aHigh (amberpin s) (rag = SIGNAL_AMBER) x) (\<lambda>x.
        set_lamp prg w aHigh (greenpin s) (rag = SIGNAL_GREEN \<or> rag = 0) x)))"

definition doSignal :: "program \<Rightarrow> world \<Rightarrow> u16 \<Rightarrow> byte \<Rightarrow> exrail \<Rightarrow> exrail option" where
  "doSignal prg w i rag x =
    (if \<not> feature prg FEATURE_SIGNAL then Some x
     else
       (let x = handleEvent w (on_lookup prg (if rag = SIGNAL_RED then OPCODE_ONRED
                  else if rag = SIGNAL_GREEN then OPCODE_ONGREEN else OPCODE_ONAMBER)) i 0 x
        in case find_signal prg i of
             None \<Rightarrow> Some x
           | Some sl \<Rightarrow>
               (let x = snd (setFlag (of_nat sl) rag SIGNAL_MASK x);
                    s = getSignalSlot prg sl
                in case sigtype s of
                     sigtypeSERVO \<Rightarrow> Some (if rag_value rag s \<noteq> 0 then writeAnalogue prg w i (rag_value rag s) 4 0 x else x)
                   | sigtypeDCC \<Rightarrow> Some (call_dcc prg w (setAccessory (uint (redpin s)) (ucast (amberpin s)) (rag \<noteq> SIGNAL_RED) 2) x)
                   | sigtypeDCCX \<Rightarrow> Some (call_dcc prg w (\<lambda>d. snd (setExtendedAccessory (sint i) (sint (rag_value rag s)) 3 d)) x)
                   | sigtypeNEOPIXEL \<Rightarrow>
                       Some (writeAnalogue prg w i (rag_value rag s) 1 (rag_value rag (getSignalSlot prg (sl + 1))) x)
                   | sigtypeSIGNAL \<Rightarrow> set_lamps prg w rag s x
                   | sigtypeSIGNALH \<Rightarrow> set_lamps prg w rag s x
                   | _ \<Rightarrow> Some x)))"

definition isSignal :: "program \<Rightarrow> u16 \<Rightarrow> byte \<Rightarrow> exrail \<Rightarrow> bool" where
  "isSignal prg i rag x \<longleftrightarrow>
    feature prg FEATURE_SIGNAL \<and>
    (case find_signal prg i of None \<Rightarrow> False | Some sl \<Rightarrow> eflags x ! sl AND SIGNAL_MASK = rag)"

definition signalAspectEvent :: "program \<Rightarrow> world \<Rightarrow> u16 \<Rightarrow> byte \<Rightarrow> exrail \<Rightarrow> (bool \<times> exrail) option" where
  "signalAspectEvent prg w addr aspect x =
    (if \<not> feature prg FEATURE_SIGNAL then Some (False, x)
     else case find_signal prg addr of
       None \<Rightarrow> Some (False, x)
     | Some sl \<Rightarrow>
         (let s = getSignalSlot prg sl; show_rag = (\<lambda>rag. map_option (Pair True) (doSignal prg w addr rag x))
          in if sigtype s \<noteq> sigtypeDCCX then Some (False, x)
             else if ucast aspect = redpin s then show_rag SIGNAL_RED
             else if ucast aspect = amberpin s then show_rag SIGNAL_AMBER
             else if ucast aspect = greenpin s then show_rag SIGNAL_GREEN
             else Some (False, x)))"

section \<open>States of routes\<close>

definition manageRouteState :: "program \<Rightarrow> u16 \<Rightarrow> byte \<Rightarrow> exrail \<Rightarrow> exrail" where
  "manageRouteState prg i st x =
    (if compileFeatures prg = 0 then x
     else
       (let pos = findPosition i (routeLookup (RouteCode prg))
        in if pos < 0 then x
           else if routeStateArray x ! nat pos = st then x
           else out (BroadcastRouteState i st) (x\<lparr>routeStateArray := (routeStateArray x)[nat pos := st]\<rparr>)))"

definition ifRouteState :: "program \<Rightarrow> u16 \<Rightarrow> byte \<Rightarrow> exrail \<Rightarrow> bool" where
  "ifRouteState prg i st x \<longleftrightarrow>
    compileFeatures prg \<noteq> 0 \<and>
    (let pos = findPosition i (routeLookup (RouteCode prg)) in pos \<ge> 0 \<and> routeStateArray x ! nat pos = st)"

section \<open>Sensors that start tasks\<close>

definition newESensor :: "program \<Rightarrow> world \<Rightarrow> u16 \<Rightarrow> int \<Rightarrow> bool \<Rightarrow> bool \<Rightarrow> exrail \<Rightarrow> exrail" where
  "newESensor prg w v pc onChg analog x =
    (let x = call_board prg w (emit_io (ConfigureInput v True)) x;
         level = (if analog then word_of_int (readAnalogue w v) else if read_pin w v then 1 else 0)
     in x\<lparr>esensors := \<lparr>es_pin = v, es_pc = pc, onChange = onChg, useAnalog = analog, es_active = level, es_input = level,
            es_latch = 4\<rparr> # esensors x\<rparr>)"

definition check_esensor :: "world \<Rightarrow> nat \<Rightarrow> exrail \<Rightarrow> bool \<times> exrail" where
  "check_esensor w i x =
    (let s = esensors x ! i;
         level = (if useAnalog s then word_of_int (readAnalogue w (es_pin s)) else if readSensor w (es_pin s) x then 1 else 0);
         put = (\<lambda>s. x\<lparr>esensors := (esensors x)[i := s]\<rparr>);
         s = s\<lparr>es_input := level\<rparr>
     in if level = es_active s then (False, put (s\<lparr>es_latch := 4\<rparr>))
        else if es_latch s > 0 then (False, put (s\<lparr>es_latch := es_latch s - 1\<rparr>))
        else if onChange s \<or> level \<noteq> 0
          then (True, new_task w (es_pc s) 0 False (put (s\<lparr>es_active := level, es_latch := 4\<rparr>)))
        else (False, put (s\<lparr>es_active := level, es_latch := 4\<rparr>)))"

text \<open>The scan from the reading position on; at most 16 sensors a call.\<close>

fun scan_esensors :: "world \<Rightarrow> nat \<Rightarrow> exrail \<Rightarrow> exrail" where
  "scan_esensors w 0 x = x"
| "scan_esensors w (Suc n) x =
    (case readingESensor x of
       None \<Rightarrow> x
     | Some i \<Rightarrow>
         (let (stop, x) = check_esensor w i x;
              x = x\<lparr>readingESensor := (if i + 1 < length (esensors x) then Some (i + 1) else None)\<rparr>
          in if stop then x else scan_esensors w n x))"

definition checkAllE :: "world \<Rightarrow> exrail \<Rightarrow> exrail" where
  "checkAllE w x =
    (if esensors x = [] then x
     else if readingESensor x = None then
       (if micros w - lastESensorCycle x < 10000 then x
        else scan_esensors w 16 (x\<lparr>readingESensor := Some 0, lastESensorCycle := micros w\<rparr>))
     else scan_esensors w 16 x)"

end
