(* ===== verification/ExrailLoop.thy ===== *)
theory ExrailLoop
  imports Exrail
begin

text \<open>
  The EXRAIL interpreter, \<^verbatim>\<open>RMFT2::loop\<close> and \<^verbatim>\<open>RMFT2::loop2\<close> of \<^verbatim>\<open>src/EXRAIL2.cpp\<close>. The switch of
  \<^verbatim>\<open>loop2\<close> is split into groups of instructions, in the order of their purpose; an instruction of
  another group is \<open>NotMine\<close>. What follows the switch depends on how it was left: \<open>Next\<close> by \<^verbatim>\<open>break\<close>,
  \<open>SkipIf\<close> by \<^verbatim>\<open>break\<close> with \<^verbatim>\<open>skipIf\<close> set, \<open>Stay\<close> by \<^verbatim>\<open>return\<close>. \<open>Fault\<close> is that the instruction does not
  return or uses a deleted task: \<^verbatim>\<open>killBlinkOnVpin\<close> may do so, and so does the default of the switch, which
  deletes the task and goes on to its program counter.

  An \<^verbatim>\<open>int\<close> has the 16 bits of the AVR boards: a second operand compared as \<^verbatim>\<open>int\<close> is signed, and the products
  \<^verbatim>\<open>100*getOperand(1)\<close> and \<^verbatim>\<open>operand*255\<close> wrap; the products with a \<^verbatim>\<open>long\<close> factor do not.

  \<^verbatim>\<open>printMessage\<close> is generated from the user's texts by the macros; it is the argument \<open>msg\<close>, which
  returns \<^verbatim>\<open>skipIf\<close> and the new state.
\<close>

datatype outcome = Next | SkipIf | Stay

datatype exec = Done outcome exrail | Fault | NotMine

definition or_else :: "exec \<Rightarrow> exec \<Rightarrow> exec" where
  "or_else r s = (case r of NotMine \<Rightarrow> s | _ \<Rightarrow> r)"

definition skip_unless :: "bool \<Rightarrow> exrail \<Rightarrow> exec" where
  "skip_unless b x = Done (if b then Next else SkipIf) x"

definition next_if_some :: "exrail option \<Rightarrow> exec" where
  "next_if_some r = (case r of Some x \<Rightarrow> Done Next x | None \<Rightarrow> Fault)"

text \<open>Arguments of the groups: the program, the surroundings, the task, its instruction's operation and operands.\<close>

type_synonym instruction = "program \<Rightarrow> world \<Rightarrow> addr \<Rightarrow> byte \<Rightarrow> (nat \<Rightarrow> u16) \<Rightarrow> exrail \<Rightarrow> exec"

section \<open>Turnouts and turntables\<close>

definition exec_points :: instruction where
  "exec_points prg w a opc ops x =
    (let i = ops 0; close = (\<lambda>c. Done Next (call_board prg w (\<lambda>l. snd (setClosed (RCN_213 w) i c l)) x))
     in if opc = OPCODE_THROW then close False
        else if opc = OPCODE_CLOSE then close True
        else if opc = OPCODE_TOGGLE_TURNOUT then close (\<not> isClosed i (board_of x))
        else if opc = OPCODE_ROTATE then Done Next (call prg w (\<lambda>y. snd (setPosition i (ucast (ops 1)) (ucast (ops 2)) y)) x)
        else NotMine)"

section \<open>Locos\<close>

text \<open>The speed after SPEEDUP, SLOWDOWN and SPEED_REL; \<open>None\<close> leaves it. \<^verbatim>\<open>newspeed\<close> has 16 bits.\<close>

definition speedup :: "int \<Rightarrow> u16 \<Rightarrow> byte option" where
  "speedup speed delta =
    (if speed = 1 \<or> speed = -1 then None
     else
       (let newspeed = sint (word_of_int speed + delta)
        in Some (if newspeed > 127 then 127 else if newspeed = 1 then 2 else word_of_int newspeed)))"

definition slowdown :: "int \<Rightarrow> u16 \<Rightarrow> byte option" where
  "slowdown speed delta =
    (if speed = 1 \<or> speed = -1 then None
     else (let newspeed = sint (word_of_int speed - delta) in Some (if newspeed < 2 then 0 else word_of_int newspeed)))"

definition speed_rel :: "int \<Rightarrow> u16 \<Rightarrow> byte option" where
  "speed_rel speed percent =
    (if speed < 2 then None
     else
       (let newspeed = trunc_div (speed * sint percent) 100
        in Some (if newspeed > 127 then 127 else if newspeed = 1 then 0 else word_of_int newspeed)))"

definition exec_loco :: instruction where
  "exec_loco prg w a opc ops x =
    (let i = ops 0; t = tasks x a; l = t_loco t; dir = direction_of l x;
         dcc = (\<lambda>f. Done Next (call_dcc prg w f x));
         mine = (\<lambda>f. if l \<noteq> 0 then Done Next (call_dcc prg w f x) else Done Next x);
         drive = (\<lambda>speed d. if l \<noteq> 0 then Done Next (throttle prg w l speed d x) else Done Next x);
         adjust = (\<lambda>f. if l = 0 then Done Next x
                    else case f (getThrottleSpeed (uint l) (dcc_of x)) i of
                      None \<Rightarrow> Done Next x | Some speed \<Rightarrow> Done Next (throttle prg w l speed dir x))
     in if opc = OPCODE_REV then drive (ucast i) (invert t)
        else if opc = OPCODE_FWD then drive (ucast i) (\<not> invert t)
        else if opc = OPCODE_SPEED then drive (ucast i) dir
        else if opc = OPCODE_SAVE_SPEED then mine (saveSpeed (uint l))
        else if opc = OPCODE_RESTORE_SPEED then mine (restoreSpeed (millis w) (uint l))
        else if opc = OPCODE_XSAVE_SPEED then dcc (saveSpeed (sint i))
        else if opc = OPCODE_XRESTORE_SPEED then dcc (restoreSpeed (millis w) (sint i))
        else if opc = OPCODE_SPEEDUP then adjust speedup
        else if opc = OPCODE_SPEED_REL then adjust speed_rel
        else if opc = OPCODE_SLOWDOWN then adjust slowdown
        else if opc = OPCODE_MOMENTUM then dcc (\<lambda>d. snd (setMomentum (uint l) (sint i) (sint (ops 1)) d))
        else if opc = OPCODE_ESTOPALL then dcc (if i = 0 then estopAll else estopLock (i = 1))
        else if opc = OPCODE_FORGET then
          (if l \<noteq> 0 then Done Next (set_task a (\<lambda>t. t\<lparr>t_loco := 0\<rparr>) (call_dcc prg w (forgetLoco (uint l)) x)) else Done Next x)
        else if opc = OPCODE_CONSIST then
          dcc (in_slots (if i = 0 then deleteAnyConsist (sint l)
                 else (\<lambda>s. snd (addLocoToConsist l (word_of_int \<bar>sint i\<bar>) (sint i < 0) s))))
        else if opc = OPCODE_INVERT_DIRECTION then Done Next (set_task a (\<lambda>t. t\<lparr>invert := \<not> invert t\<rparr>) x)
        else if opc = OPCODE_SETLOCO then Done Next (set_task a (\<lambda>t. t\<lparr>t_loco := i, invert := False\<rparr>) x)
        else NotMine)"

definition exec_functions :: instruction where
  "exec_functions prg w a opc ops x =
    (let i = ops 0; l = t_loco (tasks x a);
         dcc = (\<lambda>f. Done Next (call_dcc prg w f x));
         mine = (\<lambda>f. if l \<noteq> 0 then Done Next (call_dcc prg w f x) else Done Next x)
     in if opc = OPCODE_FON then mine (\<lambda>d. snd (setFn (uint l) (sint i) True d))
        else if opc = OPCODE_FOFF then mine (\<lambda>d. snd (setFn (uint l) (sint i) False d))
        else if opc = OPCODE_FTOGGLE then mine (changeFn (uint l) (sint i))
        else if opc = OPCODE_XFON then dcc (\<lambda>d. snd (setFn (sint i) (sint (ops 1)) True d))
        else if opc = OPCODE_XFOFF then dcc (\<lambda>d. snd (setFn (sint i) (sint (ops 1)) False d))
        else if opc = OPCODE_XFTOGGLE then dcc (changeFn (sint i) (sint (ops 1)))
        else if opc = OPCODE_XFWD then Done Next (throttle prg w i (ucast (ops 1)) True x)
        else if opc = OPCODE_XREV then Done Next (throttle prg w i (ucast (ops 1)) False x)
        else if opc = OPCODE_POM then mine (writeCVByteMain (uint l) (sint i) (ucast (ops 1)))
        else if opc = OPCODE_XPOM then dcc (writeCVByteMain (sint i) (sint (ops 1)) (ucast (ops 2)))
        else if opc = OPCODE_SETFREQ then dcc (setDCFreq (uint l) (ucast i))
        else if opc = OPCODE_DCCACTIVATE then
          dcc (setAccessory (drop_bit 3 (sint i)) (ucast (drop_bit 1 i AND 3)) (bit i 0) 2)
        else NotMine)"

section \<open>Blocks\<close>

definition exec_blocks :: instruction where
  "exec_blocks prg w a opc ops x =
    (let i = ops 0; l = t_loco (tasks x a); set_bits = (\<lambda>on off. Done Next (snd (setFlag i on off x)))
     in if opc = OPCODE_RESERVE then
          (if getFlag i SECTION_FLAG x then
             Done Stay (delayMe w a 500 (if l \<noteq> 0 then throttle prg w l 1 (direction_of l x) x else x))
           else set_bits SECTION_FLAG 0)
        else if opc = OPCODE_IFRESERVE then
          (if getFlag i SECTION_FLAG x then Done SkipIf x else set_bits SECTION_FLAG 0)
        else if opc = OPCODE_FREE then set_bits 0 SECTION_FLAG
        else if opc = OPCODE_FREEALL then Done Next (freeAll x)
        else if opc = OPCODE_LATCH then set_bits LATCH_FLAG 0
        else if opc = OPCODE_UNLATCH then set_bits 0 LATCH_FLAG
        else NotMine)"

section \<open>Waiting\<close>

definition exec_waits :: instruction where
  "exec_waits prg w a opc ops x =
    (let i = ops 0; t = tasks x a; l = t_loco t; now = millis w;
         no_blink = set_task a (\<lambda>t. t\<lparr>blinkState := not_blink_task\<rparr>);
         start_timer = set_task a (\<lambda>t. t\<lparr>timer := now\<rparr>);
         again = (\<lambda>d x. Done Stay (delayMe w a d x));
         wait_for = (\<lambda>b d x. if b then Done Next x else Done Stay (delayMe w a d x))
     in if opc = OPCODE_AT then wait_for (readSensor w i x) 50 (no_blink x)
        else if opc = OPCODE_ATGTE then wait_for (readAnalogue w i \<ge> sint (ops 1)) 50 (no_blink x)
        else if opc = OPCODE_ATLT then wait_for (readAnalogue w i < sint (ops 1)) 50 (no_blink x)
        else if opc = OPCODE_ATTIMEOUT1 then Done Next (no_blink (start_timer x))
        else if opc = OPCODE_ATTIMEOUT2 then
          (if readSensor w i x then Done Next x
           else if now - timer t > ucast (100 * ops 1) then
             Done Next (set_task a (\<lambda>t. t\<lparr>blinkState := at_timeout\<rparr>) x)
           else again 50 x)
        else if opc = OPCODE_AFTER then
          (if readSensor w i x then again 50 (start_timer x)
           else if now - timer t < ucast (ops 1) then Done Stay x
           else Done Next x)
        else if opc = OPCODE_AFTEROVERLOAD then
          (if \<not> isPowerOn w (ucast i) then again 50 (start_timer x)
           else if now - timer t < 500 then Done Stay x
           else Done Next x)
        else if opc = OPCODE_WAIT_WHILE_RED then
          (if isSignal prg i SIGNAL_RED x then
             again 500 (if l \<noteq> 0 \<and> getLocoSpeedByte (uint l) (dcc_of x) AND 0x7f > 1
                        then throttle prg w l 0 (direction_of l x) x else x)
           else Done Next x)
        else if opc = OPCODE_DELAYMS then Done Next (delayMe w a (sint i) x)
        else if opc = OPCODE_DELAY then Done Next (delayMe w a (sint i * 100) x)
        else if opc = OPCODE_DELAYMINS then Done Next (delayMe w a (sint i * 60 * 1000) x)
        else if opc = OPCODE_RANDWAIT then
          Done Next (delayMe w a (if i = 0 then 0 else uint (micros w mod scast i) * 100) x)
        else if opc = OPCODE_WAITFOR then wait_for (\<not> isBusy w i) 100 x
        else if opc = OPCODE_WAITFORTT then wait_for (\<not> ttMoving i (yard_of x)) 100 x
        else NotMine)"

section \<open>Conditions\<close>

definition exec_ifs :: instruction where
  "exec_ifs prg w a opc ops x =
    (let i = ops 0; v = ops 1; cond = (\<lambda>b. skip_unless b x)
     in if opc = OPCODE_IF then cond (readSensor w i x)
        else if opc = OPCODE_IFNOT then cond (\<not> readSensor w i x)
        else if opc = OPCODE_ELSE then cond False
        else if opc = OPCODE_IFGTE then cond (readAnalogue w i \<ge> sint v)
        else if opc = OPCODE_IFLT then cond (readAnalogue w i < sint v)
        else if opc = OPCODE_IFBITMAP_ALL then cond (readAnalogue w i AND uint v = uint v)
        else if opc = OPCODE_IFBITMAP_ANY then cond (readAnalogue w i AND uint v \<noteq> 0)
        else if opc = OPCODE_IFRE then cond (readAnalogue w i = sint v)
        else if opc = OPCODE_IFRANDOM then cond (uint (ucast (micros w) :: byte) < trunc_div (sint (i * 255)) 100)
        else if opc = OPCODE_IFRED then cond (isSignal prg i SIGNAL_RED x)
        else if opc = OPCODE_IFAMBER then cond (isSignal prg i SIGNAL_AMBER x)
        else if opc = OPCODE_IFGREEN then cond (isSignal prg i SIGNAL_GREEN x)
        else if opc = OPCODE_IFTHROWN then cond (\<not> isClosed i (board_of x))
        else if opc = OPCODE_IFCLOSED then cond (isClosed i (board_of x))
        else if opc = OPCODE_IFSTASH then cond (Stash.get i (stash_of x) \<noteq> 0)
        else if opc = OPCODE_IFSTASHED_HERE then cond (Stash.get i (stash_of x) AND 0x7FFF = t_loco (tasks x a))
        else if opc = OPCODE_IFTTPOSITION then cond (uint (getPosition i (yard_of x)) = sint v)
        else if opc = OPCODE_IFTIMEOUT then cond (blinkState (tasks x a) = at_timeout)
        else if opc = OPCODE_IF_ROUTE_HIDDEN then cond (ifRouteState prg i 2 x)
        else if opc = OPCODE_IF_ROUTE_INACTIVE then cond (ifRouteState prg i 0 x)
        else if opc = OPCODE_IF_ROUTE_ACTIVE then cond (ifRouteState prg i 1 x)
        else if opc = OPCODE_IF_ROUTE_DISABLED then cond (ifRouteState prg i 4 x)
        else NotMine)"

section \<open>Pins and signals\<close>

text \<open>SET and RESET of \<open>n\<close> pins from \<open>v\<close> on.\<close>

fun set_pins :: "program \<Rightarrow> world \<Rightarrow> bool \<Rightarrow> nat \<Rightarrow> u16 \<Rightarrow> exrail \<Rightarrow> exrail option" where
  "set_pins prg w b 0 v x = Some x"
| "set_pins prg w b (Suc n) v x =
    Option.bind (killBlinkOnVpin prg w v 1 x) (\<lambda>x. set_pins prg w b n (v + 1) (write_pin prg w v b x))"

definition start_blink :: "world \<Rightarrow> u16 \<Rightarrow> int \<Rightarrow> exrail \<Rightarrow> exrail" where
  "start_blink w v pc x =
    set_task (fresh x) (\<lambda>t. t\<lparr>timer := (timer t AND 0xFFFF0000) OR ucast v, blinkState := blink_low\<rparr>) (new_task w pc 0 False x)"

definition exec_pins :: instruction where
  "exec_pins prg w a opc ops x =
    (let i = ops 0; level = readAnalogue w i;
         bitmap = (\<lambda>v. Done Next (writeAnalogue prg w i (word_of_int v) 0 0 x))
     in if opc = OPCODE_SET then next_if_some (set_pins prg w True (unat (ops 1)) i x)
        else if opc = OPCODE_RESET then next_if_some (set_pins prg w False (unat (ops 1)) i x)
        else if opc = OPCODE_BLINK then
          next_if_some (map_option (start_blink w i (progCounter (tasks x a))) (killBlinkOnVpin prg w i 1 x))
        else if opc = OPCODE_SERVO then Done Next (writeAnalogue prg w i (ops 1) (ucast (ops 2)) (ops 3) x)
        else if opc = OPCODE_NEOPIXEL then
          (let v = (if sint i > 0 then i else - i)
           in next_if_some (map_option (out (WriteAnalogueRange v (ops 1) (sint i > 0) (ops 2) (ops 3)))
                (killBlinkOnVpin prg w v (ops 3) x)))
        else if opc = OPCODE_BITMAP_INC then bitmap (level + 1)
        else if opc = OPCODE_BITMAP_DEC then bitmap (if level - 1 < 0 then 0 else level - 1)
        else if opc = OPCODE_BITMAP_AND then bitmap (level AND uint (ops 1))
        else if opc = OPCODE_BITMAP_OR then bitmap (level OR uint (ops 1))
        else if opc = OPCODE_BITMAP_XOR then bitmap (level XOR uint (ops 1))
        else NotMine)"

definition exec_signals :: instruction where
  "exec_signals prg w a opc ops x =
    (let i = ops 0
     in if opc = OPCODE_RED then next_if_some (doSignal prg w i SIGNAL_RED x)
        else if opc = OPCODE_AMBER then next_if_some (doSignal prg w i SIGNAL_AMBER x)
        else if opc = OPCODE_GREEN then next_if_some (doSignal prg w i SIGNAL_GREEN x)
        else if opc = OPCODE_ASPECT then
          (let ad = drop_bit 5 (sint i); aspect = ucast (i AND 0x1f)
           in case signalAspectEvent prg w (word_of_int ad) aspect x of
                None \<Rightarrow> Fault
              | Some (True, x) \<Rightarrow> Done Next x
              | Some (False, x) \<Rightarrow> Done Next (call_dcc prg w (\<lambda>d. snd (setExtendedAccessory ad (uint aspect) 3 d)) x))
        else NotMine)"

section \<open>Tracks, routes and the stash\<close>

definition callback_EXRAIL :: nat where "callback_EXRAIL = 10"

text \<open>A call of the programming track; the callbacks of EXRAIL come to \<open>readLocoCallback\<close>, the others to the parser.\<close>

definition call_prog :: "(ack \<Rightarrow> ack) \<Rightarrow> exrail \<Rightarrow> exrail" where
  "call_prog f x =
    (let s = station_of (yard_of x); p = f (prog s);
         mine = filter (\<lambda>(n, _). n = callback_EXRAIL) (callbacks p);
         others = filter (\<lambda>(n, _). n \<noteq> callback_EXRAIL) (callbacks p)
     in fold (\<lambda>(_, cv). readLocoCallback cv) mine
          (x\<lparr>yard_of := on_station (\<lambda>s. deliver (s\<lparr>prog := p\<lparr>callbacks := others\<rparr>\<rparr>)) (yard_of x)\<rparr>))"

definition exec_tracks :: instruction where
  "exec_tracks prg w a opc ops x =
    (let i = ops 0; t = tasks x a; track_out = (\<lambda>es. Done Next (fold out es x));
         lcc = (\<lambda>f args. if feature prg FEATURE_LCC \<and> lccAttached x then Done Next (out (LCCSend f args) x) else Done Next x)
     in if opc = OPCODE_POWEROFF then track_out [SetPowerAll False, SetJoin False]
        else if opc = OPCODE_POWERON then track_out [SetMainPower True, SetJoin False]
        else if opc = OPCODE_SET_POWER then
          track_out (if i = 0 then [SetTrackPower False (ops 1)] else if i = 1 then [SetTrackPower True (ops 1)] else [])
        else if opc = OPCODE_SET_TRACK then
          (let mode = ucast (drop_bit 8 i)
           in track_out [SetTrackMode (ucast (i AND 0x0F)) mode (if mode AND 8 \<noteq> 0 then t_loco t else 0)])
        else if opc = OPCODE_JOIN then track_out [SetJoin True, SetMainPower True, SetProgPower True]
        else if opc = OPCODE_UNJOIN then track_out [SetJoin False]
        else if opc = OPCODE_READ_LOCO1 then
          Done Next (call_prog (getDriveawayLocoId callback_EXRAIL) (x\<lparr>progtrackLocoId := LOCO_ID_WAITING\<rparr>))
        else if opc = OPCODE_READ_LOCO2 then
          (if progtrackLocoId x = LOCO_ID_WAITING then Done Stay (delayMe w a 100 x)
           else Done Next (set_task a (\<lambda>t. t\<lparr>t_loco := word_of_int (progtrackLocoId x), invert := False\<rparr>) x))
        else if opc = OPCODE_LCC then lcc ''<L x%h>'' [i]
        else if opc = OPCODE_ACON then lcc ''<L x0%h%h>'' [i, ops 1]
        else if opc = OPCODE_ACOF then lcc ''<L x1%h%h>'' [i, ops 1]
        else if opc = OPCODE_LCCX then lcc ''<L x%h%h%h%h>'' [ops 1, ops 2, ops 3, i]
        else NotMine)"

definition exec_stash :: instruction where
  "exec_stash prg w a opc ops x =
    (let i = ops 0; t = tasks x a; st = stash_of x; stash = (\<lambda>st. Done Next (x\<lparr>stash_of := st\<rparr>))
     in if opc = OPCODE_STASH then stash (set_stash i (if invert t then - t_loco t else t_loco t) st)
        else if opc = OPCODE_CLEAR_STASH then stash (Stash.clear i st)
        else if opc = OPCODE_CLEAR_ALL_STASH then stash (clearAll st)
        else if opc = OPCODE_CLEAR_ANY_STASH then (if t_loco t \<noteq> 0 then stash (clearAny (t_loco t) st) else Done Next x)
        else if opc = OPCODE_PICKUP_STASH then
          (let l = Stash.get i st
           in Done Next (set_task a (\<lambda>t. t\<lparr>t_loco := (if sint l \<ge> 0 then l else - l), invert := sint l < 0\<rparr>) x))
        else if opc = OPCODE_ROUTE_HIDDEN then Done Next (manageRouteState prg i 2 x)
        else if opc = OPCODE_ROUTE_INACTIVE then Done Next (manageRouteState prg i 0 x)
        else if opc = OPCODE_ROUTE_ACTIVE then Done Next (manageRouteState prg i 1 x)
        else if opc = OPCODE_ROUTE_DISABLED then Done Next (manageRouteState prg i 4 x)
        else NotMine)"

section \<open>Flow of control\<close>

text \<open>FOLLOW: the program counter moves to the route, or the task is killed.\<close>

definition jump :: "program \<Rightarrow> world \<Rightarrow> addr \<Rightarrow> u16 \<Rightarrow> exrail \<Rightarrow> exrail" where
  "jump prg w a route x =
    (let pc = find_route (RouteCode prg) route; x = set_task a (\<lambda>t. t\<lparr>progCounter := pc\<rparr>) x
     in if pc < 0 then kill w a x else x)"

text \<open>CALL, with the place to return to.\<close>

definition call_route :: "program \<Rightarrow> world \<Rightarrow> addr \<Rightarrow> u16 \<Rightarrow> int \<Rightarrow> exrail \<Rightarrow> exrail" where
  "call_route prg w a route retPc x =
    (if length (callStack (tasks x a)) = MAX_STACK_DEPTH then kill w a x
     else jump prg w a route (set_task a (\<lambda>t. t\<lparr>callStack := retPc # callStack t\<rparr>) x))"

definition start_task :: "program \<Rightarrow> world \<Rightarrow> u16 \<Rightarrow> u16 \<Rightarrow> bool \<Rightarrow> exrail \<Rightarrow> exrail option" where
  "start_task prg w route l inverted x =
    (let pc = find_route (RouteCode prg) route in if pc < 0 then None else Some (new_task w pc l inverted x))"

definition started :: "exrail \<Rightarrow> exrail option \<Rightarrow> exec" where
  "started x r = Done Next (case r of None \<Rightarrow> x | Some x \<Rightarrow> x)"

definition resume_all :: "program \<Rightarrow> world \<Rightarrow> addr list \<Rightarrow> exrail \<Rightarrow> exrail" where
  "resume_all prg w as x = fold (resume prg w) as (x\<lparr>pausingTask := None\<rparr>)"

definition exec_flow :: instruction where
  "exec_flow prg w a opc ops x =
    (let i = ops 0; t = tasks x a; pc = progCounter t;
         chosen = ops (unat (ucast (1 + millis w mod scast i) :: byte))
     in if opc = OPCODE_FOLLOW then Done Stay (jump prg w a i x)
        else if opc = OPCODE_CALL then Done Stay (call_route prg w a i (pc + 3) x)
        else if opc = OPCODE_RANDOM_FOLLOW then (if i = 0 then Fault else Done Stay (jump prg w a chosen x))
        else if opc = OPCODE_RANDOM_CALL then
          (if i = 0 \<and> length (callStack t) \<noteq> MAX_STACK_DEPTH then Fault
           else Done Stay (call_route prg w a chosen (pc + 3 * (sint i + 1)) x))
        else if opc = OPCODE_RETURN then
          Done Stay (case callStack t of
             [] \<Rightarrow> kill w a x
           | r # rs \<Rightarrow> set_task a (\<lambda>t. t\<lparr>progCounter := r, callStack := rs\<rparr>) x)
        else if opc = OPCODE_ENDTASK \<or> opc = OPCODE_ENDEXRAIL then Done Stay (kill w a x)
        else if opc = OPCODE_KILLALL then Done Stay (kill_all w x)
        else if opc = OPCODE_START then started x (start_task prg w i 0 False x)
        else if opc = OPCODE_START_SHARED then started x (start_task prg w i (t_loco t) (invert t) x)
        else if opc = OPCODE_START_SEND then
          started x (map_option (set_task a (\<lambda>t. t\<lparr>t_loco := 0\<rparr>)) (start_task prg w i (t_loco t) (invert t) x))
        else if opc = OPCODE_SENDLOCO then started x (start_task prg w (ops 1) i False x)
        else if opc = OPCODE_PAUSE then Done Next ((call_dcc prg w estopAll x)\<lparr>pausingTask := Some a\<rparr>)
        else if opc = OPCODE_RESUME then Done Next (resume_all prg w (ring_from a (ring_of x)) x)
        else NotMine)"

text \<open>Instructions that do nothing when a task comes to them.\<close>

definition ignored :: "byte set" where
  "ignored = {OPCODE_ENDIF, OPCODE_DRIVE, OPCODE_ROUTE, OPCODE_AUTOMATION, OPCODE_SEQUENCE, OPCODE_AUTOSTART, OPCODE_PAD,
     OPCODE_TURNOUT, OPCODE_SERVOTURNOUT, OPCODE_PINTURNOUT, OPCODE_ONCLOSE, OPCODE_ONLCC, OPCODE_ONACON, OPCODE_ONACOF,
     OPCODE_ONTHROW, OPCODE_ONACTIVATE, OPCODE_ONDEACTIVATE, OPCODE_ONRED, OPCODE_ONAMBER, OPCODE_ONGREEN, OPCODE_ONCHANGE,
     OPCODE_ONTIME, OPCODE_ONBUTTON, OPCODE_ONSENSOR, OPCODE_ONBITMAP, OPCODE_DCCTURNTABLE, OPCODE_EXTTTURNTABLE,
     OPCODE_TTADDPOSITION, OPCODE_ONROTATE, OPCODE_ONOVERLOAD, OPCODE_ONBLOCKENTER, OPCODE_ONBLOCKEXIT}"

type_synonym messages = "u16 \<Rightarrow> addr \<Rightarrow> exrail \<Rightarrow> bool \<times> exrail"

definition exec_instr :: "messages \<Rightarrow> instruction" where
  "exec_instr msg prg w a opc ops x =
    or_else (exec_points prg w a opc ops x)
    (or_else (exec_loco prg w a opc ops x)
    (or_else (exec_functions prg w a opc ops x)
    (or_else (exec_blocks prg w a opc ops x)
    (or_else (exec_waits prg w a opc ops x)
    (or_else (exec_ifs prg w a opc ops x)
    (or_else (exec_pins prg w a opc ops x)
    (or_else (exec_signals prg w a opc ops x)
    (or_else (exec_tracks prg w a opc ops x)
    (or_else (exec_stash prg w a opc ops x)
    (or_else (exec_flow prg w a opc ops x)
    (if opc = OPCODE_IFLOCO \<or> opc = OPCODE_PRINT then (let (skip, x) = msg (ops 0) a x in skip_unless (\<not> skip) x)
     else if opc \<in> ignored then Done Next x
     else Fault)))))))))))"

section \<open>The loop\<close>

text \<open>What follows the switch: \<^verbatim>\<open>skipIfBlock\<close> and \<^verbatim>\<open>SKIPOP\<close>.\<close>

definition finish_op :: "byte list \<Rightarrow> world \<Rightarrow> addr \<Rightarrow> exec \<Rightarrow> exrail option" where
  "finish_op code w a r =
    (case r of
       Done Stay x \<Rightarrow> Some x
     | Done Next x \<Rightarrow> Some (set_task a (\<lambda>t. t\<lparr>progCounter := progCounter t + 3\<rparr>) x)
     | Done SkipIf x \<Rightarrow>
         (case skipIfBlock code (nat (progCounter (tasks x a))) of
            Skipped pc \<Rightarrow> Some (set_task a (\<lambda>t. t\<lparr>progCounter := int pc + 3\<rparr>) x)
          | MissingEndif pc \<Rightarrow> Some (kill w a x)
          | OffEnd \<Rightarrow> None)
     | _ \<Rightarrow> None)"

definition blink_step :: "program \<Rightarrow> world \<Rightarrow> addr \<Rightarrow> (nat \<Rightarrow> u16) \<Rightarrow> exrail \<Rightarrow> exrail" where
  "blink_step prg w a ops x =
    (let t = tasks x a; high = (blinkState t = blink_low)
     in delayMe w a (uint (ops (if high then 1 else 2)))
          (set_task a (\<lambda>t. t\<lparr>blinkState := (if high then blink_high else blink_low)\<rparr>)
            (write_pin prg w (ucast (timer t)) high x)))"

definition loop2 :: "messages \<Rightarrow> program \<Rightarrow> world \<Rightarrow> addr \<Rightarrow> exrail \<Rightarrow> exrail option" where
  "loop2 msg prg w a x =
    (let t = tasks x a; code = RouteCode prg; pc = nat (progCounter t); ops = getOperand code pc
     in if delayTime t \<noteq> 0 \<and> millis w - delayStart t < delayTime t then Some x
        else if progCounter t < 0 \<or> pc + 3 > length code then None
        else if feature prg FEATURE_BLINK \<and> (blinkState t = blink_low \<or> blinkState t = blink_high) then Some (blink_step prg w a ops x)
        else finish_op code w a (exec_instr msg prg w a (GET_OPCODE code pc) ops x))"

definition rmft_loop :: "messages \<Rightarrow> program \<Rightarrow> world \<Rightarrow> exrail \<Rightarrow> exrail option" where
  "rmft_loop msg prg w x =
    (let x = (if feature prg FEATURE_SENSOR then checkAllE w x else x)
     in case ring_of x of
          [] \<Rightarrow> Some x
        | _ \<Rightarrow>
            (let x = x\<lparr>ring_of := rotate1 (ring_of x)\<rparr>; a = hd (ring_of x)
             in if pausingTask x = None \<or> pausingTask x = Some a then loop2 msg prg w a x else Some x))"

end
