(* ===== verification/ExrailCommands.thy ===== *)
theory ExrailCommands
  imports ExrailLoop
begin

text \<open>
  Starting EXRAIL, \<^verbatim>\<open>RMFT2::begin\<close> of \<^verbatim>\<open>src/EXRAIL2.cpp\<close>, and the commands it takes out of the parser's
  hands, \<^verbatim>\<open>src/EXRAIL2Parser.cpp\<close>. The listing of tasks that \<^verbatim>\<open></>\<close> prints and the descriptions of
  routes, which the macros generate, are left out of the replies.
\<close>

section \<open>Start\<close>

definition on_yard :: "(yard \<Rightarrow> yard) \<Rightarrow> exrail \<Rightarrow> exrail" where
  "on_yard f x = x\<lparr>yard_of := f (yard_of x)\<rparr>"

definition setTurnoutHiddenState :: "program \<Rightarrow> u16 \<Rightarrow> layout \<Rightarrow> layout" where
  "setTurnoutHiddenState prg i l = (case turnoutHidden prg i of Some h \<Rightarrow> setHidden i h l | None \<Rightarrow> l)"

definition setTurntableHiddenState :: "program \<Rightarrow> u16 \<Rightarrow> yard \<Rightarrow> yard" where
  "setTurntableHiddenState prg i y =
    (case turntableHidden prg i of Some h \<Rightarrow> change_turntable i (\<lambda>t. t\<lparr>tt_hidden := h\<rparr>) y | None \<Rightarrow> y)"

text \<open>What the pass over the program does at one instruction.\<close>

definition begin_op :: "program \<Rightarrow> world \<Rightarrow> devices \<Rightarrow> nat \<Rightarrow> exrail \<Rightarrow> exrail" where
  "begin_op prg w dv pc x =
    (let code = RouteCode prg; opc = GET_OPCODE code pc; ops = getOperand code pc; i = ops 0;
         turnout = (\<lambda>make. call_board prg w (\<lambda>l. setTurnoutHiddenState prg i (make l)) x);
         table = (\<lambda>home y. addPosition i 0 0 home (setTurntableHiddenState prg i y));
         watch = (\<lambda>onChg analog. if feature prg FEATURE_SENSOR then newESensor prg w i (int pc + 3) onChg analog x else x)
     in if opc \<in> {OPCODE_AT, OPCODE_ATTIMEOUT2, OPCODE_AFTER, OPCODE_IF, OPCODE_IFNOT} then
          call_board prg w (emit_io (ConfigureInput (word_of_int \<bar>sint i\<bar>) True)) x
        else if opc \<in> {OPCODE_ATGTE, OPCODE_ATLT, OPCODE_IFGTE, OPCODE_IFLT, OPCODE_IFBITMAP_ALL, OPCODE_IFBITMAP_ANY, OPCODE_DRIVE}
          then out (ConfigureAnalogIn i) x
        else if opc = OPCODE_ONSENSOR then watch True False
        else if opc = OPCODE_ONBITMAP then watch True True
        else if opc = OPCODE_ONBUTTON then watch False False
        else if opc = OPCODE_TURNOUT then turnout (create_dcc i (ops 1) (ucast (ops 2)))
        else if opc = OPCODE_SERVOTURNOUT then turnout (create_servo i (ops 1) (ops 2) (ops 3) (ucast (ops 4)) True)
        else if opc = OPCODE_PINTURNOUT then turnout (create_vpin i (ops 1) True)
        else if opc = OPCODE_DCCTURNTABLE then on_yard (\<lambda>y. table (ops 1) (createDCC i y)) x
        else if opc = OPCODE_EXTTTURNTABLE then
          on_yard (\<lambda>y. case createEXTT dv i (ops 1) y of (True, y) \<Rightarrow> table (ops 2) y | (False, y) \<Rightarrow> y) x
        else if opc = OPCODE_TTADDPOSITION then on_yard (addPosition i (ucast (ops 1)) (ops 2) (ops 3)) x
        else if opc = OPCODE_AUTOSTART then new_task w (int pc) 0 False x
        else x)"

fun red_signals :: "program \<Rightarrow> world \<Rightarrow> nat list \<Rightarrow> exrail \<Rightarrow> exrail option" where
  "red_signals prg w [] x = Some x"
| "red_signals prg w (s # ss) x =
    Option.bind (doSignal prg w (sig_id (getSignalSlot prg s)) SIGNAL_RED x) (red_signals prg w ss)"

definition exrail_begin :: "program \<Rightarrow> world \<Rightarrow> devices \<Rightarrow> exrail \<Rightarrow> exrail option" where
  "exrail_begin prg w dv x =
    (let x = x\<lparr>eflags := replicate MAX_FLAGS 0,
           routeStateArray := replicate (length (routeLookup (RouteCode prg))) 0\<rparr>
     in map_option (fold (begin_op prg w dv) (places (RouteCode prg)))
          (if feature prg FEATURE_SIGNAL then red_signals prg w (signal_slots prg) x else Some x))"

text \<open>Power-on: no tasks, nothing paused.\<close>

definition new_exrail :: "yard \<Rightarrow> nat \<Rightarrow> exrail" where
  "new_exrail y countLCC = \<lparr>yard_of = y, stash_of = [], ring_of = [], tasks = (\<lambda>_. undefined), fresh = 2, pausingTask = None,
     eflags = replicate MAX_FLAGS 0, progtrackLocoId = 0, routeStateArray = [], esensors = [], readingESensor = None,
     lastESensorCycle = 0, lccAttached = False, lccProgCounter = 0, lccEventIndex = 0, onLCCLookup = replicate countLCC 0,
     outs = []\<rparr>"

section \<open>Commands\<close>

definition pause_all :: "program \<Rightarrow> world \<Rightarrow> exrail \<Rightarrow> exrail" where
  "pause_all prg w x = (call_dcc prg w estopAll (fold pause (ring_of x) x))\<lparr>pausingTask := Some 1\<rparr>"

definition parseSlash :: "program \<Rightarrow> world \<Rightarrow> nat \<Rightarrow> u16 list \<Rightarrow> exrail \<Rightarrow> (bool \<times> exrail) option" where
  "parseSlash prg w params p x =
    (let p0 = p ! 0; p1 = p ! 1; signal = (\<lambda>rag. map_option (Pair True) (doSignal prg w p1 rag x))
     in if params = 0 then Some (True, x)
        else if p0 = hk ''PAUSE'' then (if params \<noteq> 1 then Some (False, x) else Some (True, pause_all prg w x))
        else if p0 = hk ''RESUME'' then (if params \<noteq> 1 then Some (False, x) else Some (True, resume_all prg w (ring_of x) x))
        else if p0 = hk ''FREEALL'' then (if params \<noteq> 1 then Some (False, x) else Some (True, freeAll x))
        else if p0 = hk ''START'' then
          (if params < 2 \<or> params > 3 then Some (False, x)
           else
             (case start_task prg w (if params = 2 then p1 else p ! 2) (if params = 2 then 0 else p1) False x of
                None \<Rightarrow> Some (False, x) | Some x \<Rightarrow> Some (True, x)))
        else if p0 = hk ''KILL'' \<and> p1 = hk ''ALL'' then Some (True, kill_all w x)
        else if params \<noteq> 2 then Some (False, x)
        else if p0 = hk ''KILL'' then
          (if sint p1 < 0 \<or> sint p1 \<ge> int MAX_FLAGS then Some (False, x)
           else
             (case find (\<lambda>a. uint (taskId (tasks x a)) = sint p1) (ring_of x) of
                None \<Rightarrow> Some (False, x) | Some a \<Rightarrow> Some (True, kill w a x)))
        else if p0 = hk ''RESERVE'' then Some (setFlag p1 SECTION_FLAG 0 x)
        else if p0 = hk ''FREE'' then Some (setFlag p1 0 SECTION_FLAG x)
        else if p0 = hk ''LATCH'' then Some (setFlag p1 LATCH_FLAG 0 x)
        else if p0 = hk ''UNLATCH'' then Some (setFlag p1 0 LATCH_FLAG x)
        else if p0 = hk ''RED'' then signal SIGNAL_RED
        else if p0 = hk ''AMBER'' then signal SIGNAL_AMBER
        else if p0 = hk ''GREEN'' then signal SIGNAL_GREEN
        else Some (False, x))"

text \<open>The introduction of an LCC adapter: one line each time, from where the last one left off.\<close>

definition lcc_answer :: "string \<Rightarrow> u16 list \<Rightarrow> exrail \<Rightarrow> exrail" where
  "lcc_answer f args = on_yard (on_station (answer f (map uint args)))"

definition lcc_ops :: "byte list" where
  "lcc_ops = [OPCODE_ENDEXRAIL, OPCODE_LCC, OPCODE_LCCX, OPCODE_ACON, OPCODE_ACOF, OPCODE_ONLCC, OPCODE_ONACON, OPCODE_ONACOF]"

definition next_lcc :: "byte list \<Rightarrow> nat \<Rightarrow> nat option" where
  "next_lcc code pc = find (\<lambda>q. GET_OPCODE code q \<in> set lcc_ops) (map (\<lambda>k. pc + 3 * k) [0..<(length code - pc) div 3])"

definition listen_lcc :: "nat \<Rightarrow> exrail \<Rightarrow> exrail" where
  "listen_lcc pc x = x\<lparr>onLCCLookup := (onLCCLookup x)[lccEventIndex x := int pc], lccEventIndex := lccEventIndex x + 1,
     lccProgCounter := pc\<rparr>"

definition introduce_lcc :: "program \<Rightarrow> exrail \<Rightarrow> exrail option" where
  "introduce_lcc prg x =
    (let code = RouteCode prg; x = x\<lparr>lccAttached := True\<rparr>; idx = of_nat (lccEventIndex x)
     in case next_lcc code (lccProgCounter x) of
          None \<Rightarrow> None
        | Some pc \<Rightarrow>
            (let opc = GET_OPCODE code pc; ops = getOperand code pc
             in Some
                 (if opc = OPCODE_ENDEXRAIL then lcc_answer ''<LR>'' [] (x\<lparr>lccProgCounter := 0, lccEventIndex := 0\<rparr>)
                  else if opc = OPCODE_LCC then lcc_answer ''<LS x%h>'' [ops 0] (x\<lparr>lccProgCounter := pc + 3\<rparr>)
                  else if opc = OPCODE_LCCX then
                    lcc_answer ''<LS x%h%h%h%h>'' [ops 1, ops 2, ops 3, ops 0] (x\<lparr>lccProgCounter := pc + 12\<rparr>)
                  else if opc = OPCODE_ACON then lcc_answer ''<LS x0%h%h>'' [ops 0, ops 1] (x\<lparr>lccProgCounter := pc + 6\<rparr>)
                  else if opc = OPCODE_ACOF then lcc_answer ''<LS x1%h%h>'' [ops 0, ops 1] (x\<lparr>lccProgCounter := pc + 6\<rparr>)
                  else if opc = OPCODE_ONLCC then
                    listen_lcc (pc + 12) (lcc_answer ''<LL %d x%h%h%h:%h>'' [idx, ops 1, ops 2, ops 3, ops 0] x)
                  else if opc = OPCODE_ONACON then listen_lcc (pc + 6) (lcc_answer ''<LL %d x0%h%h>'' [idx, ops 0, ops 1] x)
                  else listen_lcc (pc + 6) (lcc_answer ''<LL %d x1%h%h>'' [idx, ops 0, ops 1] x))))"

definition getRouteType :: "byte list \<Rightarrow> u16 \<Rightarrow> char" where
  "getRouteType code i =
    (let pc = find_route code i
     in if pc \<ge> 0 \<and> GET_OPCODE code (nat pc) = OPCODE_ROUTE then CHR ''R''
        else if pc \<ge> 0 \<and> GET_OPCODE code (nat pc) = OPCODE_AUTOMATION then CHR ''A''
        else CHR ''X'')"

definition list_routes :: "program \<Rightarrow> exrail \<Rightarrow> exrail" where
  "list_routes prg = on_yard (on_station (answer ''<jA>'' (map (\<lambda>(k, _). sint k) (routeLookup (RouteCode prg)))))"

definition describe_route :: "program \<Rightarrow> u16 \<Rightarrow> exrail \<Rightarrow> exrail" where
  "describe_route prg i x =
    (let code = RouteCode prg; pos = findPosition i (routeLookup code); st = routeStateArray x ! nat pos;
         x = on_yard (on_station (answer ''<jA %d %c>'' [sint i, of_char (getRouteType code i)])) x
     in if feature prg FEATURE_ROUTESTATE \<and> pos \<ge> 0 \<and> st \<noteq> 0
        then on_yard (on_station (answer ''<jB %d %d>'' [sint i, uint st])) x else x)"

text \<open>
  The filter returns the operation of the command, 0 when EXRAIL has dealt with it. The cases of
  \<^verbatim>\<open>K\<close> and \<^verbatim>\<open>k\<close> stand in the inner \<^verbatim>\<open>switch\<close> of the case \<^verbatim>\<open>J\<close>, on the first parameter.
\<close>

definition ComandFilter :: "program \<Rightarrow> world \<Rightarrow> byte \<Rightarrow> nat \<Rightarrow> u16 list \<Rightarrow> exrail \<Rightarrow> (byte \<times> exrail) option" where
  "ComandFilter prg w opc params p x =
    (let p0 = p ! 0; taken = (\<lambda>(ok, x). (if ok then 0 else opc, x))
     in if opc = 0x44 then Some (if p0 = hk ''EXRAIL'' then 0 else opc, x)
        else if opc = 0x2F then map_option taken (parseSlash prg w params p x)
        else if opc = 0x41 then
          (if params \<noteq> 2 then Some (opc, x) else map_option taken (signalAspectEvent prg w p0 (ucast (p ! 1)) x))
        else if opc = 0x4C then
          (if \<not> feature prg FEATURE_LCC then Some (opc, x)
           else if params = 0 then map_option (Pair 0) (introduce_lcc prg x)
           else if params = 1 \<and> sint p0 \<ge> 0 \<and> sint p0 < int (length (onLCCLookup x)) then
             Some (0, startNonRecursiveTask w (onLCCLookup x ! nat (sint p0)) 0 x)
           else Some (opc, x))
        else if opc = 0x4A then
          (if params < 1 then Some (opc, x)
           else if p0 = hk ''A'' then
             (if params = 1 then Some (0, list_routes prg x)
              else if params = 2 then Some (0, describe_route prg (p ! 1) x)
              else Some (opc, x))
           else if p0 = 0x4B \<or> p0 = 0x6B then
             (if params \<noteq> 2 then Some (opc, x) else Some (0, blockEvent prg w p0 (p ! 1) (opc = 0x4B) x))
           else Some (opc, x))
        else Some (opc, x))"

end
