(* ===== verification/ExrailProps.thy ===== *)
theory ExrailProps
  imports ExrailCommands CommandProps
begin

text \<open>
  What holds of EXRAIL in every reachable state. A program is well formed (\<open>wf_program\<close>) if it is the
  output of the macros: whole instructions, known operations, one \<^verbatim>\<open>OPCODE_ENDEXRAIL\<close> at the end, and behind
  an operation with several operands the \<^verbatim>\<open>OPCODE_PAD\<close>s that hold them. \<open>exrail_inv\<close> is the invariant: the
  ring holds distinct live tasks whose program counters and call stacks point at instructions.
  \<open>running\<close> adds what holds of the task that executes. The rules \<open>run_intros\<close> carry it through the
  calls that instructions make.
\<close>

named_theorems run_intros \<open>calls that keep the running task and the invariant\<close>

section \<open>Well-formed programs\<close>

definition pc_ok :: "byte list \<Rightarrow> int \<Rightarrow> bool" where
  "pc_ok code pc \<longleftrightarrow> 0 \<le> pc \<and> 3 dvd pc \<and> pc + 3 \<le> int (length code)"

text \<open>The operations that the switch of \<^verbatim>\<open>loop2\<close> has a case for, group by group.\<close>

definition point_ops :: "byte list" where
  "point_ops = [OPCODE_THROW, OPCODE_CLOSE, OPCODE_TOGGLE_TURNOUT, OPCODE_ROTATE]"

definition loco_ops :: "byte list" where
  "loco_ops = [OPCODE_REV, OPCODE_FWD, OPCODE_SPEED, OPCODE_SAVE_SPEED, OPCODE_RESTORE_SPEED, OPCODE_XSAVE_SPEED, OPCODE_XRESTORE_SPEED,
     OPCODE_SPEEDUP, OPCODE_SPEED_REL, OPCODE_SLOWDOWN, OPCODE_MOMENTUM, OPCODE_ESTOPALL, OPCODE_FORGET, OPCODE_CONSIST,
     OPCODE_INVERT_DIRECTION, OPCODE_SETLOCO]"

definition function_ops :: "byte list" where
  "function_ops = [OPCODE_FON, OPCODE_FOFF, OPCODE_FTOGGLE, OPCODE_XFON, OPCODE_XFOFF, OPCODE_XFTOGGLE, OPCODE_XFWD, OPCODE_XREV,
     OPCODE_POM, OPCODE_XPOM, OPCODE_SETFREQ, OPCODE_DCCACTIVATE]"

definition block_ops :: "byte list" where
  "block_ops = [OPCODE_RESERVE, OPCODE_IFRESERVE, OPCODE_FREE, OPCODE_FREEALL, OPCODE_LATCH, OPCODE_UNLATCH]"

definition wait_ops :: "byte list" where
  "wait_ops = [OPCODE_AT, OPCODE_ATGTE, OPCODE_ATLT, OPCODE_ATTIMEOUT1, OPCODE_ATTIMEOUT2, OPCODE_AFTER, OPCODE_AFTEROVERLOAD,
     OPCODE_WAIT_WHILE_RED, OPCODE_DELAYMS, OPCODE_DELAY, OPCODE_DELAYMINS, OPCODE_RANDWAIT, OPCODE_WAITFOR, OPCODE_WAITFORTT]"

definition if_ops :: "byte list" where
  "if_ops = [OPCODE_IF, OPCODE_IFNOT, OPCODE_ELSE, OPCODE_IFGTE, OPCODE_IFLT, OPCODE_IFBITMAP_ALL, OPCODE_IFBITMAP_ANY, OPCODE_IFRE,
     OPCODE_IFRANDOM, OPCODE_IFRED, OPCODE_IFAMBER, OPCODE_IFGREEN, OPCODE_IFTHROWN, OPCODE_IFCLOSED, OPCODE_IFSTASH,
     OPCODE_IFSTASHED_HERE, OPCODE_IFTTPOSITION, OPCODE_IFTIMEOUT, OPCODE_IF_ROUTE_HIDDEN, OPCODE_IF_ROUTE_INACTIVE,
     OPCODE_IF_ROUTE_ACTIVE, OPCODE_IF_ROUTE_DISABLED]"

definition pin_ops :: "byte list" where
  "pin_ops = [OPCODE_SET, OPCODE_RESET, OPCODE_BLINK, OPCODE_SERVO, OPCODE_NEOPIXEL, OPCODE_BITMAP_INC, OPCODE_BITMAP_DEC,
     OPCODE_BITMAP_AND, OPCODE_BITMAP_OR, OPCODE_BITMAP_XOR]"

definition signal_ops :: "byte list" where
  "signal_ops = [OPCODE_RED, OPCODE_AMBER, OPCODE_GREEN, OPCODE_ASPECT]"

definition track_ops :: "byte list" where
  "track_ops = [OPCODE_POWEROFF, OPCODE_POWERON, OPCODE_SET_POWER, OPCODE_SET_TRACK, OPCODE_JOIN, OPCODE_UNJOIN, OPCODE_READ_LOCO1,
     OPCODE_READ_LOCO2, OPCODE_LCC, OPCODE_ACON, OPCODE_ACOF, OPCODE_LCCX]"

definition stash_ops :: "byte list" where
  "stash_ops = [OPCODE_STASH, OPCODE_CLEAR_STASH, OPCODE_CLEAR_ALL_STASH, OPCODE_CLEAR_ANY_STASH, OPCODE_PICKUP_STASH,
     OPCODE_ROUTE_HIDDEN, OPCODE_ROUTE_INACTIVE, OPCODE_ROUTE_ACTIVE, OPCODE_ROUTE_DISABLED]"

definition flow_ops :: "byte list" where
  "flow_ops = [OPCODE_FOLLOW, OPCODE_CALL, OPCODE_RANDOM_FOLLOW, OPCODE_RANDOM_CALL, OPCODE_RETURN, OPCODE_ENDTASK, OPCODE_ENDEXRAIL,
     OPCODE_KILLALL, OPCODE_START, OPCODE_START_SHARED, OPCODE_START_SEND, OPCODE_SENDLOCO, OPCODE_PAUSE, OPCODE_RESUME]"

definition known_groups :: "byte list" where
  "known_groups = point_ops @ loco_ops @ function_ops @ block_ops @ wait_ops @ if_ops @ pin_ops @ signal_ops @ track_ops @
     stash_ops @ flow_ops"

definition wf_place :: "byte list \<Rightarrow> nat \<Rightarrow> bool" where
  "wf_place code pc \<longleftrightarrow>
    (let opc = GET_OPCODE code pc; n = sint (getOperand code pc 0)
     in (opc \<in> set known_groups \<or> opc \<in> ignored \<or> opc = OPCODE_IFLOCO \<or> opc = OPCODE_PRINT) \<and>
        (opc = OPCODE_ENDEXRAIL \<longleftrightarrow> pc + 3 = length code) \<and>
        (opc = OPCODE_RANDOM_FOLLOW \<or> opc = OPCODE_RANDOM_CALL \<longrightarrow> 1 \<le> n \<and> int pc + 3 * (n + 2) \<le> int (length code)) \<and>
        (opc = OPCODE_ONLCC \<longrightarrow> pc + 15 \<le> length code) \<and>
        (opc = OPCODE_ONACON \<or> opc = OPCODE_ONACOF \<longrightarrow> pc + 9 \<le> length code))"

definition wf_program :: "program \<Rightarrow> bool" where
  "wf_program prg \<longleftrightarrow>
    (let code = RouteCode prg
     in 3 dvd length code \<and> 3 \<le> length code \<and> length code \<le> 32768 \<and>
        list_all (\<lambda>k. wf_place code (3 * k)) [0..<length code div 3])"

lemma wf_at:
  assumes "wf_program prg" "pc_ok (RouteCode prg) pc"
  shows "wf_place (RouteCode prg) (nat pc)"
proof -
  from assms(2) obtain k where k: "pc = 3 * k" "0 \<le> k" "3 * k + 3 \<le> int (length (RouteCode prg))"
    by (auto simp: pc_ok_def dvd_def)
  then have "nat pc = 3 * nat k" "nat k < length (RouteCode prg) div 3" by linarith+
  with assms(1) show ?thesis by (auto simp: wf_program_def Let_def list_all_iff)
qed

lemma pc_next:
  assumes "wf_program prg" "pc_ok (RouteCode prg) pc" "GET_OPCODE (RouteCode prg) (nat pc) \<noteq> OPCODE_ENDEXRAIL"
  shows "pc_ok (RouteCode prg) (pc + 3)"
proof -
  have d: "3 dvd int (length (RouteCode prg))" using assms(1) int_dvd_int_iff [of 3] by (simp add: wf_program_def Let_def)
  have "nat pc + 3 \<noteq> length (RouteCode prg)" using wf_at [OF assms(1,2)] assms(3) by (simp add: wf_place_def Let_def)
  then have "pc + 3 \<noteq> int (length (RouteCode prg))" using assms(2) by (auto simp: pc_ok_def)
  with d assms(2) show ?thesis unfolding pc_ok_def by presburger
qed

lemma places_ok: "p \<in> set (places code) \<Longrightarrow> pc_ok code (int p)"
  by (auto simp: places_def pc_ok_def dest!: set_takeWhileD)

lemma sint_of_place:
  assumes "wf_program prg" "pc_ok (RouteCode prg) (int p)"
  shows "sint (of_nat p :: u16) = int p"
proof -
  have "int p < 32768" using assms by (auto simp: wf_program_def Let_def pc_ok_def)
  then show ?thesis by (simp add: signed_of_nat signed_take_bit_int_eq_self)
qed

lemma lookup_ok:
  assumes "wf_program prg" "(k, p) \<in> set (LookListLoader ops (RouteCode prg))"
  shows "pc_ok (RouteCode prg) (sint p)"
  using assms places_ok [of _ "RouteCode prg"] sint_of_place [OF assms(1)] by (auto simp: LookListLoader_def)

lemma find_in_ok:
  assumes "wf_program prg" "find_in v (LookListLoader ops (RouteCode prg)) = Some r"
  shows "pc_ok (RouteCode prg) r"
proof -
  obtain k p where "find (\<lambda>(k, _). k = v) (LookListLoader ops (RouteCode prg)) = Some (k, p)" "r = sint p"
    using assms(2) by (auto simp: find_in_def)
  then show ?thesis using lookup_ok [OF assms(1)] by (metis find_Some_iff nth_mem)
qed

lemma find_route_ok:
  assumes "wf_program prg" "\<not> find_route (RouteCode prg) v < 0"
  shows "pc_ok (RouteCode prg) (find_route (RouteCode prg) v)"
  using assms find_in_ok [OF assms(1)] by (auto simp: find_route_def routeLookup_def split: option.splits)

section \<open>The invariant\<close>

definition task_ok :: "byte list \<Rightarrow> task \<Rightarrow> bool" where
  "task_ok code t \<longleftrightarrow>
    pc_ok code (progCounter t) \<and> length (callStack t) \<le> MAX_STACK_DEPTH \<and> (\<forall>r \<in> set (callStack t). pc_ok code r)"

definition exrail_inv :: "program \<Rightarrow> exrail \<Rightarrow> bool" where
  "exrail_inv prg x \<longleftrightarrow>
    distinct (ring_of x) \<and> 2 \<le> fresh x \<and>
    (\<forall>a \<in> set (ring_of x). 2 \<le> a \<and> a < fresh x \<and> task_ok (RouteCode prg) (tasks x a)) \<and>
    length (eflags x) = MAX_FLAGS \<and>
    (\<forall>s \<in> set (esensors x). pc_ok (RouteCode prg) (es_pc s)) \<and>
    (\<forall>i. readingESensor x = Some i \<longrightarrow> i < length (esensors x)) \<and>
    (\<forall>pc \<in> set (onLCCLookup x). pc_ok (RouteCode prg) pc) \<and> 3 dvd lccProgCounter x"

definition blinks :: "task \<Rightarrow> bool" where
  "blinks t \<longleftrightarrow> blinkState t = blink_low \<or> blinkState t = blink_high"

definition running :: "program \<Rightarrow> addr \<Rightarrow> int \<Rightarrow> exrail \<Rightarrow> bool" where
  "running prg a pc x \<longleftrightarrow>
    exrail_inv prg x \<and> a \<in> set (ring_of x) \<and> progCounter (tasks x a) = pc \<and> (feature prg FEATURE_BLINK \<longrightarrow> \<not> blinks (tasks x a))"

text \<open>Two states that the invariant cannot tell apart.\<close>

definition same_core :: "exrail \<Rightarrow> exrail \<Rightarrow> bool" where
  "same_core x y \<longleftrightarrow>
    ring_of y = ring_of x \<and> tasks y = tasks x \<and> fresh y = fresh x \<and> length (eflags y) = length (eflags x) \<and>
    esensors y = esensors x \<and> readingESensor y = readingESensor x \<and> onLCCLookup y = onLCCLookup x \<and>
    lccProgCounter y = lccProgCounter x"

lemma same_core_inv: "same_core x y \<Longrightarrow> exrail_inv prg y = exrail_inv prg x"
  by (simp add: same_core_def exrail_inv_def)

lemma same_core_running: "same_core x y \<Longrightarrow> running prg a pc y = running prg a pc x"
  by (simp add: same_core_inv running_def) (simp add: same_core_def)

lemma core_setFlag [simp]: "same_core x (snd (setFlag i m n x))"
  by (simp add: same_core_def setFlag_def)

lemma core_yard [simp]: "same_core x (x\<lparr>yard_of := y\<rparr>)" "same_core x (x\<lparr>stash_of := st\<rparr>)" "same_core x (x\<lparr>pausingTask := p\<rparr>)"
    "same_core x (x\<lparr>progtrackLocoId := l\<rparr>)" "same_core x (x\<lparr>routeStateArray := rs\<rparr>)" "same_core x (x\<lparr>lccAttached := b\<rparr>)"
    "same_core x (x\<lparr>lccEventIndex := n\<rparr>)" "same_core x (out e x)"
  by (simp_all add: same_core_def out_def)

lemma same_core_trans: "same_core x y \<Longrightarrow> same_core y z \<Longrightarrow> same_core x z"
  by (simp add: same_core_def)

lemma same_core_fold: "(\<And>e x. same_core x (f e x)) \<Longrightarrow> same_core x (fold f es x)"
proof (induction es arbitrary: x)
  case (Cons e es)
  from same_core_trans [OF Cons.prems [of x e] Cons.IH [OF Cons.prems]] show ?case by simp
qed (simp add: same_core_def)

section \<open>Tasks come and go\<close>

lemma new_task_inv:
  assumes "exrail_inv prg x" "pc_ok (RouteCode prg) pc"
  shows "exrail_inv prg (new_task w pc l rv x)"
proof -
  let ?y = "case free_id x of Some f \<Rightarrow> snd (setFlag (of_nat f) TASK_FLAG 0 x) | None \<Rightarrow> x"
  have c: "same_core x ?y" by (cases "free_id x") (simp_all, simp add: same_core_def)
  then have y: "exrail_inv prg ?y" using assms(1) same_core_inv by simp
  have f: "fresh ?y = fresh x" "ring_of ?y = ring_of x" using c by (simp_all add: same_core_def)
  show ?thesis
    using y assms f unfolding new_task_def Let_def
    by (cases "ring_of x") (auto simp: exrail_inv_def task_ok_def)
qed

lemma new_task_frame:
  "fresh (new_task w pc l rv x) = fresh x + 1" "set (ring_of (new_task w pc l rv x)) = insert (fresh x) (set (ring_of x))"
  "a \<noteq> fresh x \<Longrightarrow> tasks (new_task w pc l rv x) a = tasks x a"
  by (cases "ring_of x"; auto simp: new_task_def Let_def setFlag_def split: option.splits)+

lemma new_task_running [run_intros]:
  assumes "running prg a p x" "pc_ok (RouteCode prg) pc"
  shows "running prg a p (new_task w pc l rv x)"
proof -
  have "a \<noteq> fresh x" using assms(1) by (auto simp: running_def exrail_inv_def)
  with assms new_task_inv show ?thesis by (simp add: running_def new_task_frame)
qed

lemma set_task_inv:
  assumes "exrail_inv prg x" "task_ok (RouteCode prg) (tasks x b) \<Longrightarrow> task_ok (RouteCode prg) (f (tasks x b))"
  shows "exrail_inv prg (set_task b f x)"
  using assms by (auto simp: exrail_inv_def set_task_def)

lemma set_task_running:
  assumes "running prg a pc x"
    and "task_ok (RouteCode prg) (tasks x b) \<Longrightarrow> task_ok (RouteCode prg) (f (tasks x b))"
    and "b = a \<Longrightarrow> progCounter (f (tasks x a)) = progCounter (tasks x a) \<and> (blinks (f (tasks x a)) \<longrightarrow> blinks (tasks x a))"
  shows "running prg a pc (set_task b f x)"
  using assms set_task_inv [of prg x b f] by (cases "b = a") (auto simp: running_def set_task_def)

lemma ring_from_set:
  assumes "a \<in> set r" "distinct r"
  shows "set (tl (ring_from a r)) = set r - {a}" "distinct (ring_from a r)" "hd (ring_from a r) = a" "ring_from a r \<noteq> []"
proof -
  obtain us vs where r: "r = us @ a # vs" "a \<notin> set us" using assms(1) split_list_first by metis
  have "takeWhile (\<lambda>b. b \<noteq> a) r = us" "dropWhile (\<lambda>b. b \<noteq> a) r = a # vs"
    using r by (auto simp: takeWhile_append dropWhile_append)
  then have "ring_from a r = a # vs @ us" by (simp add: ring_from_def)
  with r assms(2) show "set (tl (ring_from a r)) = set r - {a}" "distinct (ring_from a r)" "hd (ring_from a r) = a" "ring_from a r \<noteq> []"
    by auto
qed

lemma kill_core: "\<exists>y. same_core x y \<and> kill w a x = y\<lparr>ring_of := tl (ring_from a (ring_of y))\<rparr>"
  unfolding kill_def Let_def
  by (intro exI conjI refl, cases "t_loco (tasks x a) > 0 \<and> onEventStartPosition (tasks x a) = -1")
    (auto intro: same_core_trans [OF core_yard(1) core_setFlag])

lemma kill_inv:
  assumes "exrail_inv prg x" "a \<in> set (ring_of x)"
  shows "exrail_inv prg (kill w a x)"
proof -
  obtain y where y: "same_core x y" "kill w a x = y\<lparr>ring_of := tl (ring_from a (ring_of y))\<rparr>" using kill_core by blast
  have "ring_of y = ring_of x" using y(1) by (simp add: same_core_def)
  then have i: "exrail_inv prg y" "a \<in> set (ring_of y)" using assms same_core_inv [OF y(1)] by simp_all
  then have "set (tl (ring_from a (ring_of y))) \<subseteq> set (ring_of y)" "distinct (tl (ring_from a (ring_of y)))"
    using ring_from_set [OF i(2)] by (auto simp: exrail_inv_def distinct_tl)
  with i y(2) show ?thesis by (auto simp: exrail_inv_def)
qed

lemma kill_frame:
  assumes "a \<in> set (ring_of x)" "distinct (ring_of x)"
  shows "ring_of (kill w a x) = tl (ring_from a (ring_of x))" "tasks (kill w a x) = tasks x" "fresh (kill w a x) = fresh x"
    "set (ring_of (kill w a x)) = set (ring_of x) - {a}"
proof -
  obtain y where y: "same_core x y" "kill w a x = y\<lparr>ring_of := tl (ring_from a (ring_of y))\<rparr>" using kill_core by blast
  then show "ring_of (kill w a x) = tl (ring_from a (ring_of x))" "tasks (kill w a x) = tasks x" "fresh (kill w a x) = fresh x"
    by (simp_all add: same_core_def)
  then show "set (ring_of (kill w a x)) = set (ring_of x) - {a}" using ring_from_set(1) [OF assms] by simp
qed

section \<open>Calls that keep the running task\<close>

definition benign :: "program \<Rightarrow> (exrail \<Rightarrow> exrail) \<Rightarrow> bool" where
  "benign prg f \<longleftrightarrow>
    (\<forall>x. exrail_inv prg x \<longrightarrow> exrail_inv prg (f x)) \<and> (\<forall>x a pc. running prg a pc x \<longrightarrow> running prg a pc (f x))"

lemma benign_inv: "benign prg f \<Longrightarrow> exrail_inv prg x \<Longrightarrow> exrail_inv prg (f x)"
  by (simp add: benign_def)

lemma benign_running: "benign prg f \<Longrightarrow> running prg a pc x \<Longrightarrow> running prg a pc (f x)"
  by (simp add: benign_def)

lemma benign_core: "(\<And>x. same_core x (f x)) \<Longrightarrow> benign prg f"
  unfolding benign_def using same_core_inv same_core_running by blast

lemma benign_id [simp]: "benign prg id" "benign prg (\<lambda>x. x)"
  by (simp_all add: benign_def)

lemma benign_comp: "benign prg f \<Longrightarrow> benign prg g \<Longrightarrow> benign prg (\<lambda>x. g (f x))"
  by (simp add: benign_def)

lemma benign_if: "benign prg f \<Longrightarrow> benign prg g \<Longrightarrow> benign prg (\<lambda>x. if P x then f x else g x)"
  by (simp add: benign_def)

lemma benign_dep: "(\<And>y. benign prg (f y)) \<Longrightarrow> benign prg (\<lambda>x. f (h x) x)"
  by (simp add: benign_def)

lemma benign_fold: "(\<And>e. e \<in> set es \<Longrightarrow> benign prg (f e)) \<Longrightarrow> benign prg (fold f es)"
  by (induction es) (auto simp: benign_def comp_def)

lemma benign_new_task: "pc_ok (RouteCode prg) pc \<Longrightarrow> benign prg (new_task w pc l rv)"
  by (simp add: benign_def new_task_inv new_task_running)

text \<open>Changes to a task that leave where it is in the program.\<close>

definition moves_not :: "(task \<Rightarrow> task) \<Rightarrow> bool" where
  "moves_not f \<longleftrightarrow> (\<forall>t. progCounter (f t) = progCounter t \<and> callStack (f t) = callStack t)"

lemma moves_not_ok: "moves_not f \<Longrightarrow> task_ok code (f t) = task_ok code t"
  by (simp add: moves_not_def task_ok_def)

lemma benign_set_task: "moves_not f \<Longrightarrow> (\<And>t. blinks (f t) \<Longrightarrow> blinks t) \<Longrightarrow> benign prg (set_task a f)"
  by (auto simp: benign_def moves_not_ok moves_not_def intro!: set_task_inv set_task_running)

lemma benign_delayMe: "benign prg (delayMe w a d)"
  unfolding delayMe_def by (rule benign_set_task) (simp_all add: moves_not_def blinks_def)

text \<open>A change to a task that was just created.\<close>

lemma benign_new_set:
  assumes "pc_ok (RouteCode prg) pc" "moves_not f"
  shows "benign prg (\<lambda>x. set_task (fresh x) f (new_task w pc l rv x))"
proof -
  have "running prg a p (set_task (fresh x) f (new_task w pc l rv x))" if r: "running prg a p x" for x a p
  proof -
    have "a \<noteq> fresh x" using r by (auto simp: running_def exrail_inv_def)
    then show ?thesis
      using new_task_running [OF r assms(1)] by (intro set_task_running) (simp_all add: moves_not_ok [OF assms(2)])
  qed
  moreover have "exrail_inv prg (set_task (fresh x) f (new_task w pc l rv x))" if "exrail_inv prg x" for x
    by (rule set_task_inv) (simp_all add: that assms(1) new_task_inv moves_not_ok [OF assms(2)])
  ultimately show ?thesis by (simp add: benign_def)
qed

lemma benign_start: "pc_ok (RouteCode prg) pc \<Longrightarrow> benign prg (startNonRecursiveTask w pc l)"
  unfolding startNonRecursiveTask_def by (intro benign_if benign_id benign_new_set) (simp_all add: moves_not_def)

lemma benign_handleEvent: "wf_program prg \<Longrightarrow> benign prg (handleEvent w (on_lookup prg opc) i l)"
  unfolding handleEvent_def
  by (intro benign_fold) (auto simp: on_lookup_def split: prod.splits intro!: benign_start dest: lookup_ok)

lemma benign_events:
  assumes "wf_program prg"
  shows "benign prg (dcc_event prg w e)" "benign prg (layout_event prg w e')" "benign prg (turnoutEvent prg w i c)"
    "benign prg (activateEvent prg w i c)" "benign prg (blockEvent prg w b l c)" "benign prg (changeEvent prg w i c)"
    "benign prg (rotateEvent prg w i c)" "benign prg (clockEvent prg w i c)" "benign prg (powerEvent prg w i c)"
proof -
  note h = benign_handleEvent [OF assms]
  show t: "benign prg (turnoutEvent prg w i c)" and a: "benign prg (activateEvent prg w i c)" and "benign prg (blockEvent prg w b l c)"
    and "benign prg (changeEvent prg w i c)" and r: "benign prg (rotateEvent prg w i c)" and "benign prg (powerEvent prg w i c)"
    for i b l c
    by (simp_all add: turnoutEvent_def activateEvent_def blockEvent_def changeEvent_def rotateEvent_def powerEvent_def h)
  show "benign prg (clockEvent prg w i c)"
    by (cases c) (simp_all add: clockEvent_def [abs_def] benign_comp h)
  show "benign prg (dcc_event prg w e)" by (cases e) (simp_all add: a)
  show "benign prg (layout_event prg w e')" by (cases e') (simp_all add: t r)
qed

lemma benign_call: "wf_program prg \<Longrightarrow> benign prg (call prg w f)"
proof -
  assume wf: "wf_program prg"
  have "benign prg (\<lambda>x. fold (layout_event prg w) (ls x) (fold (dcc_event prg w) (ds x) (x\<lparr>yard_of := f (yard_of x)\<rparr>)))" for ls ds
  proof -
    have 1: "benign prg (\<lambda>x. x\<lparr>yard_of := f (yard_of x)\<rparr>)" by (rule benign_core) simp
    have 2: "benign prg (fold (dcc_event prg w) es)" "benign prg (fold (layout_event prg w) es')" for es es'
      by (simp_all add: benign_fold benign_events [OF wf])
    show ?thesis using 1 2 by (simp add: benign_def)
  qed
  then show ?thesis unfolding call_def Let_def by simp
qed

lemma benign_calls:
  assumes "wf_program prg"
  shows "benign prg (call_dcc prg w f)" "benign prg (call_board prg w g)" "benign prg (throttle prg w l speed dir)"
    "benign prg (write_pin prg w v b)" "benign prg (writeAnalogue prg w v val prof dur)"
  by (simp_all add: call_dcc_def call_board_def throttle_def write_pin_def writeAnalogue_def benign_call assms)

lemma benign_resume: "wf_program prg \<Longrightarrow> benign prg (resume prg w a)"
  unfolding resume_def Let_def
  by (rule benign_if [OF benign_dep [where h = "\<lambda>x. tasks x a" and f = "\<lambda>t. throttle prg w (t_loco t) (pauseSpeed t AND 0x7f) (pauseSpeed t AND 0x80 \<noteq> 0)"]
        benign_id(2)]) (simp add: benign_calls)

lemma benign_resume_all: "wf_program prg \<Longrightarrow> benign prg (resume_all prg w as)"
  unfolding resume_all_def [abs_def] by (rule benign_comp [OF benign_core benign_fold]) (simp_all add: benign_resume)

lemma benign_pause: "benign prg (pause a)"
  unfolding pause_def
  by (rule benign_if [OF benign_dep [where h = dcc_of and f = "\<lambda>d. set_task a (\<lambda>t. t\<lparr>pauseSpeed := getThrottleSpeedByte (uint (t_loco t)) d\<rparr>)"]
        benign_id(2)], rule benign_set_task) (simp_all add: moves_not_def blinks_def)

lemma benign_flags: "benign prg (\<lambda>x. snd (setFlag i m n x))" "benign prg freeAll" "benign prg (out e)"
  by (auto simp: freeAll_def intro!: benign_core same_core_fold simp del: upt_Suc)

lemma benign_route: "benign prg (manageRouteState prg i st)"
  by (rule benign_core) (simp add: manageRouteState_def Let_def same_core_def out_def)

lemma core_readLocoCallback: "same_core x (readLocoCallback cv x)"
  by (simp add: readLocoCallback_def Let_def)

lemma benign_call_prog: "benign prg (call_prog f)"
  unfolding call_prog_def Let_def
  by (rule benign_core, rule same_core_trans [OF core_yard(1)], rule same_core_fold) (auto simp: core_readLocoCallback)

lemmas benign_all = benign_calls benign_call benign_delayMe benign_resume_all benign_flags benign_route benign_call_prog benign_events

section \<open>Blinking tasks and signals\<close>

text \<open>Calls that may fail to return; without blinking tasks they never do.\<close>

definition partly_benign :: "program \<Rightarrow> (exrail \<Rightarrow> exrail option) \<Rightarrow> bool" where
  "partly_benign prg f \<longleftrightarrow>
    (\<forall>x y. f x = Some y \<longrightarrow> (exrail_inv prg x \<longrightarrow> exrail_inv prg y) \<and> (\<forall>a pc. running prg a pc x \<longrightarrow> running prg a pc y)) \<and>
    (\<forall>x. f x = None \<longrightarrow> feature prg FEATURE_BLINK)"

lemma partly_Some: "benign prg f \<Longrightarrow> partly_benign prg (\<lambda>x. Some (f x))"
  by (simp add: benign_def partly_benign_def)

lemma partly_bind: "partly_benign prg f \<Longrightarrow> partly_benign prg g \<Longrightarrow> partly_benign prg (\<lambda>x. Option.bind (f x) g)"
  unfolding partly_benign_def bind_eq_None_conv bind_eq_Some_conv by blast

lemma partly_map: "partly_benign prg f \<Longrightarrow> benign prg g \<Longrightarrow> partly_benign prg (\<lambda>x. map_option g (f x))"
  by (auto simp: partly_benign_def benign_def)

lemma partly_after: "benign prg f \<Longrightarrow> partly_benign prg g \<Longrightarrow> partly_benign prg (\<lambda>x. g (f x))"
  unfolding partly_benign_def benign_def by blast

lemma partly_if: "partly_benign prg f \<Longrightarrow> partly_benign prg g \<Longrightarrow> partly_benign prg (\<lambda>x. if b then f x else g x)"
  by (cases b) simp_all

lemma kill_other:
  assumes "running prg a pc x" "b \<in> set (ring_of x)" "b \<noteq> a"
  shows "running prg a pc (kill w b x)"
proof -
  have "distinct (ring_of x)" using assms(1) by (simp add: running_def exrail_inv_def)
  from kill_frame [OF assms(2) this] kill_inv assms show ?thesis by (simp add: running_def)
qed

lemma next_task_in: "next_task a x = Some n \<Longrightarrow> a \<in> set (ring_of x)"
  by (simp add: next_task_def split: if_splits)

lemma kill_blink_step:
  assumes "feature prg FEATURE_BLINK" "b \<in> set (ring_of x)"
  shows "exrail_inv prg x \<Longrightarrow> exrail_inv prg (if is_blinking p q (tasks x b) then kill w b x else x)"
    and "running prg a pc x \<Longrightarrow> running prg a pc (if is_blinking p q (tasks x b) then kill w b x else x)"
proof -
  show "exrail_inv prg x \<Longrightarrow> exrail_inv prg (if is_blinking p q (tasks x b) then kill w b x else x)"
    using kill_inv assms(2) by simp
  assume r: "running prg a pc x"
  show "running prg a pc (if is_blinking p q (tasks x b) then kill w b x else x)"
  proof (cases "is_blinking p q (tasks x b)")
    case True
    then have "b \<noteq> a" using r assms(1) by (auto simp: running_def is_blinking_def blinks_def)
    with True kill_other [OF r assms(2)] show ?thesis by simp
  qed (use r in simp)
qed

lemma kill_blink_loop_keeps:
  assumes "kill_blink_loop w p q stop b x = Some y" "feature prg FEATURE_BLINK"
  shows "(exrail_inv prg x \<longrightarrow> exrail_inv prg y) \<and> (running prg a pc x \<longrightarrow> running prg a pc y)"
proof -
  let ?P = "\<lambda>w p q stop b x y. (exrail_inv prg x \<longrightarrow> exrail_inv prg y) \<and> (running prg a pc x \<longrightarrow> running prg a pc y)"
  have step: "?P w p q stop b x y"
    if IH: "\<And>w p q stop b x y. f w p q stop b x = Some y \<Longrightarrow> ?P w p q stop b x y"
      and body: "(case next_task b x of None \<Rightarrow> None
        | Some n \<Rightarrow> let x = if is_blinking p q (tasks x b) then kill w b x else x in if n = stop then Some x else f w p q stop n x) = Some y"
    for f w p q stop b x y
  proof -
    obtain n where n: "next_task b x = Some n" using body by (auto split: option.splits)
    let ?x = "if is_blinking p q (tasks x b) then kill w b x else x"
    note step = kill_blink_step [OF assms(2) next_task_in [OF n]]
    show ?thesis
    proof (cases "n = stop")
      case True
      then have "y = ?x" using body n by simp
      with step show ?thesis by blast
    next
      case False
      then have "f w p q stop n ?x = Some y" using body n by (simp add: Let_def)
      from IH [OF this] step show ?thesis by blast
    qed
  qed
  show ?thesis
    by (rule kill_blink_loop.raw_induct [where P = ?P and xa = "(((((w, p), q), stop), b), x)" and y = y, unfolded prod.case])
      (rule step, assumption+, rule assms(1))
qed

lemma partly_killBlink: "partly_benign prg (killBlinkOnVpin prg w v n)"
  by (auto simp: partly_benign_def killBlinkOnVpin_def split: if_splits list.splits dest: kill_blink_loop_keeps)

lemma partly_lamp: "wf_program prg \<Longrightarrow> partly_benign prg (set_lamp prg w h v b)"
  unfolding set_lamp_def [abs_def] by (intro partly_if partly_map partly_killBlink benign_calls partly_Some) simp_all

lemma partly_lamps: "wf_program prg \<Longrightarrow> partly_benign prg (set_lamps prg w rag s)"
  unfolding set_lamps_def Let_def
  by (rule partly_bind [OF partly_lamp partly_bind [OF partly_lamp partly_lamp]])

lemma partly_doSignal: 
  assumes "wf_program prg"
  shows "partly_benign prg (doSignal prg w i rag)"
proof -
  let ?sig = "\<lambda>sl x. let x = snd (setFlag (of_nat sl) rag SIGNAL_MASK x); s = getSignalSlot prg sl
      in case sigtype s of
           sigtypeSERVO \<Rightarrow> Some (if rag_value rag s \<noteq> 0 then writeAnalogue prg w i (rag_value rag s) 4 0 x else x)
         | sigtypeDCC \<Rightarrow> Some (call_dcc prg w (setAccessory (uint (redpin s)) (ucast (amberpin s)) (rag \<noteq> SIGNAL_RED) 2) x)
         | sigtypeDCCX \<Rightarrow> Some (call_dcc prg w (\<lambda>d. snd (setExtendedAccessory (sint i) (sint (rag_value rag s)) 3 d)) x)
         | sigtypeNEOPIXEL \<Rightarrow>
             Some (writeAnalogue prg w i (rag_value rag s) 1 (rag_value rag (getSignalSlot prg (sl + 1))) x)
         | sigtypeSIGNAL \<Rightarrow> set_lamps prg w rag s x
         | sigtypeSIGNALH \<Rightarrow> set_lamps prg w rag s x
         | _ \<Rightarrow> Some x"
  have sig: "partly_benign prg (?sig sl)" for sl
    unfolding Let_def
    by (rule partly_after [OF benign_flags(1)], cases "sigtype (getSignalSlot prg sl)")
      (auto intro!: partly_Some partly_lamps benign_calls benign_if assms)
  have "partly_benign prg (\<lambda>x. case find_signal prg i of None \<Rightarrow> Some x | Some sl \<Rightarrow> ?sig sl x)"
    by (cases "find_signal prg i") (simp_all add: sig partly_Some)
  from partly_after [OF benign_handleEvent [OF assms] this] show ?thesis
    unfolding doSignal_def Let_def by (intro partly_if partly_Some) simp_all
qed

lemma signalAspect_keeps:
  assumes "wf_program prg"
  shows "signalAspectEvent prg w i v x = Some (b, y) \<Longrightarrow> (exrail_inv prg x \<longrightarrow> exrail_inv prg y) \<and> (running prg a pc x \<longrightarrow> running prg a pc y)"
    and "signalAspectEvent prg w i v x = None \<Longrightarrow> feature prg FEATURE_BLINK"
  using partly_doSignal [OF assms, of w i]
  by (auto simp: signalAspectEvent_def partly_benign_def Let_def split: if_splits option.splits)

lemma partly_set_pins: "wf_program prg \<Longrightarrow> partly_benign prg (set_pins prg w b n v)"
proof (induction n arbitrary: v)
  case (Suc n)
  have "partly_benign prg (\<lambda>x. set_pins prg w b n (v + 1) (write_pin prg w v b x))"
    by (rule partly_after [OF _ Suc.IH]) (simp_all add: benign_calls Suc.prems)
  from partly_bind [OF partly_killBlink this] show ?case by simp
qed (simp add: partly_Some partly_benign_def)

section \<open>Instructions\<close>

definition exec_ok :: "program \<Rightarrow> addr \<Rightarrow> int \<Rightarrow> exec \<Rightarrow> bool" where
  "exec_ok prg a pc r =
    (case r of
       Done oc y \<Rightarrow> if oc = Stay then exrail_inv prg y else running prg a pc y
     | Fault \<Rightarrow> feature prg FEATURE_BLINK
     | NotMine \<Rightarrow> True)"

lemma exec_ok_if: "(b \<Longrightarrow> exec_ok prg a pc r) \<Longrightarrow> (\<not> b \<Longrightarrow> exec_ok prg a pc s) \<Longrightarrow> exec_ok prg a pc (if b then r else s)"
  by simp

lemma exec_ok_Done: "running prg a pc y \<Longrightarrow> exec_ok prg a pc (Done oc y)"
  by (simp add: exec_ok_def running_def)

lemma exec_ok_Stay: "exrail_inv prg y \<Longrightarrow> exec_ok prg a pc (Done Stay y)"
  by (simp add: exec_ok_def)

lemma exec_ok_NotMine: "exec_ok prg a pc NotMine"
  by (simp add: exec_ok_def)

lemma exec_ok_some: "partly_benign prg f \<Longrightarrow> running prg a pc x \<Longrightarrow> exec_ok prg a pc (next_if_some (f x))"
  by (auto simp: exec_ok_def next_if_some_def partly_benign_def split: option.split)

lemma exec_ok_skip: "running prg a pc y \<Longrightarrow> exec_ok prg a pc (skip_unless b y)"
  by (simp add: skip_unless_def exec_ok_Done)

lemma exec_ok_or_else: "exec_ok prg a pc r \<Longrightarrow> exec_ok prg a pc s \<Longrightarrow> exec_ok prg a pc (or_else r s)"
  by (cases r) (simp_all add: or_else_def)

lemmas exec_intros = exec_ok_if exec_ok_Done exec_ok_NotMine exec_ok_skip

lemma running_if: "(b \<Longrightarrow> running prg a pc x) \<Longrightarrow> (\<not> b \<Longrightarrow> running prg a pc y) \<Longrightarrow> running prg a pc (if b then x else y)"
  by simp

lemmas keep_running = benign_all [THEN benign_running] benign_set_task [THEN benign_running] running_if

lemma points_ok: "wf_program prg \<Longrightarrow> running prg a pc x \<Longrightarrow> exec_ok prg a pc (exec_points prg w a opc ops x)"
  unfolding exec_points_def Let_def by (intro exec_intros keep_running)

lemma loco_ok: "wf_program prg \<Longrightarrow> running prg a pc x \<Longrightarrow> exec_ok prg a pc (exec_loco prg w a opc ops x)"
  unfolding exec_loco_def Let_def
  by (intro exec_intros keep_running; (assumption | simp add: moves_not_def blinks_def)?)
    (auto split: option.split intro!: exec_ok_Done keep_running)

lemma functions_ok: "wf_program prg \<Longrightarrow> running prg a pc x \<Longrightarrow> exec_ok prg a pc (exec_functions prg w a opc ops x)"
  unfolding exec_functions_def Let_def by (intro exec_intros keep_running)

lemma blocks_ok: "wf_program prg \<Longrightarrow> running prg a pc x \<Longrightarrow> exec_ok prg a pc (exec_blocks prg w a opc ops x)"
  unfolding exec_blocks_def Let_def by (intro exec_intros keep_running)

lemma waits_ok: "wf_program prg \<Longrightarrow> running prg a pc x \<Longrightarrow> exec_ok prg a pc (exec_waits prg w a opc ops x)"
  unfolding exec_waits_def Let_def
  by (intro exec_intros keep_running; (assumption | simp add: moves_not_def blinks_def)?)

lemma ifs_ok: "running prg a pc x \<Longrightarrow> exec_ok prg a pc (exec_ifs prg w a opc ops x)"
  unfolding exec_ifs_def Let_def by (intro exec_intros)

lemma start_blink_ok: "pc_ok (RouteCode prg) p \<Longrightarrow> benign prg (start_blink w v p)"
  unfolding start_blink_def [abs_def] by (rule benign_new_set) (simp_all add: moves_not_def)

lemma running_pc: "running prg a pc x \<Longrightarrow> pc_ok (RouteCode prg) (progCounter (tasks x a))"
  by (auto simp: running_def exrail_inv_def task_ok_def)

lemma pins_ok:
  assumes "wf_program prg" "running prg a pc x"
  shows "exec_ok prg a pc (exec_pins prg w a opc ops x)"
  unfolding exec_pins_def Let_def
  using partly_set_pins [OF assms(1)] partly_map [OF partly_killBlink start_blink_ok [OF running_pc [OF assms(2)]]]
    partly_map [OF partly_killBlink benign_flags(3)] exec_ok_some [OF _ assms(2)]
  by (intro exec_ok_if exec_ok_Done exec_ok_NotMine keep_running assms; blast)

lemma signals_ok:
  assumes "wf_program prg" "running prg a pc x"
  shows "exec_ok prg a pc (exec_signals prg w a opc ops x)"
proof -
  let ?i = "word_of_int (drop_bit 5 (sint (ops 0)))" and ?v = "ucast (ops 0 AND 0x1f)"
  have "exec_ok prg a pc (case signalAspectEvent prg w ?i ?v x of None \<Rightarrow> Fault
      | Some (True, x) \<Rightarrow> Done Next x | Some (False, x) \<Rightarrow> Done Next (call_dcc prg w f x))" for f
    using signalAspect_keeps [OF assms(1), of w ?i ?v x] assms
    by (auto split: option.split bool.split intro!: exec_ok_Done keep_running) (simp add: exec_ok_def)
  then show ?thesis
    unfolding exec_signals_def Let_def
    by (intro exec_ok_if exec_ok_NotMine exec_ok_some [OF partly_doSignal] assms)
qed

lemma tracks_ok:
  assumes "wf_program prg" "running prg a pc x"
  shows "exec_ok prg a pc (exec_tracks prg w a opc ops x)"
proof -
  have o: "benign prg (fold out es)" for es by (rule benign_fold) (rule benign_flags)
  have c: "benign prg (\<lambda>x. x\<lparr>progtrackLocoId := l\<rparr>)" for l by (rule benign_core) simp
  show ?thesis
    unfolding exec_tracks_def Let_def
    by (intro exec_intros keep_running o [THEN benign_running] c [THEN benign_running] assms)
      (simp_all add: moves_not_def blinks_def)
qed

lemma stash_ok:
  assumes "wf_program prg" "running prg a pc x"
  shows "exec_ok prg a pc (exec_stash prg w a opc ops x)"
proof -
  have "benign prg (\<lambda>x. x\<lparr>stash_of := st\<rparr>)" for st by (rule benign_core) simp
  from this [THEN benign_running, OF assms(2)] show ?thesis
    unfolding exec_stash_def Let_def
    by (intro exec_intros keep_running assms) (simp_all add: moves_not_def blinks_def assms)
qed

section \<open>Flow of control\<close>

lemma set_task_dead: "a \<notin> set (ring_of x) \<Longrightarrow> exrail_inv prg (set_task a f x) = exrail_inv prg x"
  by (auto simp: exrail_inv_def set_task_def)

lemma kill_set_pc: "kill w a (set_task a (\<lambda>t. t\<lparr>progCounter := p\<rparr>) x) = set_task a (\<lambda>t. t\<lparr>progCounter := p\<rparr>) (kill w a x)"
  by (simp add: kill_def set_task_def Let_def setFlag_def)

lemma jump_inv:
  assumes "wf_program prg" "exrail_inv prg x" "a \<in> set (ring_of x)"
  shows "exrail_inv prg (jump prg w a route x)"
proof (cases "find_route (RouteCode prg) route < 0")
  case True
  have "a \<notin> set (ring_of (kill w a x))" using kill_frame(4) [OF assms(3)] assms(2) by (simp add: exrail_inv_def)
  with True kill_inv [OF assms(2,3)] show ?thesis by (simp add: jump_def Let_def kill_set_pc set_task_dead)
next
  case False
  with find_route_ok [OF assms(1)] show ?thesis
    by (auto simp: jump_def Let_def task_ok_def intro!: set_task_inv assms(2))
qed

lemma call_route_inv:
  assumes "wf_program prg" "exrail_inv prg x" "a \<in> set (ring_of x)" "pc_ok (RouteCode prg) rv"
  shows "exrail_inv prg (call_route prg w a route rv x)"
proof (cases "length (callStack (tasks x a)) = MAX_STACK_DEPTH")
  case True
  then show ?thesis using kill_inv [OF assms(2,3)] by (simp add: call_route_def)
next
  case False
  let ?y = "set_task a (\<lambda>t. t\<lparr>callStack := rv # callStack t\<rparr>) x"
  have "exrail_inv prg ?y" using assms(2) by (rule set_task_inv) (use False assms(4) in \<open>auto simp: task_ok_def\<close>)
  moreover have "a \<in> set (ring_of ?y)" using assms(3) by (simp add: set_task_def)
  ultimately show ?thesis using False jump_inv [OF assms(1)] by (simp add: call_route_def)
qed

lemma kill_all_inv:
  assumes "exrail_inv prg x"
  shows "exrail_inv prg (kill_all w x) \<and> ring_of (kill_all w x) = []"
proof -
  have "exrail_inv prg (fold (kill w) as x) \<and> ring_of (fold (kill w) as x) = []" if "exrail_inv prg x" "ring_of x = as" for as x
    using that
  proof (induction as arbitrary: x)
    case (Cons a as)
    have a: "a \<in> set (ring_of x)" "distinct (ring_of x)" using Cons.prems by (auto simp: exrail_inv_def)
    have "ring_of (kill w a x) = as" using kill_frame(1) [OF a] Cons.prems(2) by (simp add: ring_from_def)
    with Cons.IH kill_inv [OF Cons.prems(1) a(1)] show ?case by simp
  qed simp
  with assms show ?thesis by (simp add: kill_all_def)
qed

lemma start_task_ok: "wf_program prg \<Longrightarrow> start_task prg w route l rv x = Some y \<Longrightarrow> benign prg f \<Longrightarrow>
    (exrail_inv prg x \<longrightarrow> exrail_inv prg (f y)) \<and> (running prg a pc x \<longrightarrow> running prg a pc (f y))"
  using benign_new_task [OF find_route_ok, of prg route w l rv]
  by (auto simp: start_task_def Let_def benign_def split: if_splits)

lemma started_ok:
  assumes "wf_program prg" "running prg a pc x" "benign prg f"
  shows "exec_ok prg a pc (started x (map_option f (start_task prg w route l rv x)))"
  using start_task_ok [OF assms(1) _ assms(3), of w route l rv x _ a pc] assms(2)
  by (cases "start_task prg w route l rv x") (auto simp: started_def intro!: exec_ok_Done)

lemma random_places:
  assumes "wf_program prg" "running prg a pc x"
    and "GET_OPCODE (RouteCode prg) (nat pc) \<in> {OPCODE_RANDOM_FOLLOW, OPCODE_RANDOM_CALL}"
  shows "getOperand (RouteCode prg) (nat pc) 0 \<noteq> 0"
    "pc_ok (RouteCode prg) (pc + 3 * (sint (getOperand (RouteCode prg) (nat pc) 0) + 1))"
proof -
  have pc: "pc_ok (RouteCode prg) pc" using running_pc [OF assms(2)] assms(2) by (simp add: running_def)
  let ?n = "sint (getOperand (RouteCode prg) (nat pc) 0)"
  have n: "1 \<le> ?n" "int (nat pc) + 3 * (?n + 2) \<le> int (length (RouteCode prg))"
    using wf_at [OF assms(1) pc] assms(3) unfolding wf_place_def Let_def by blast+
  then show "getOperand (RouteCode prg) (nat pc) 0 \<noteq> 0" by auto
  have "3 dvd pc + 3 * (?n + 1)" using pc by (simp add: pc_ok_def)
  with pc n show "pc_ok (RouteCode prg) (pc + 3 * (?n + 1))" by (simp add: pc_ok_def)
qed

lemma return_inv:
  assumes "exrail_inv prg x" "a \<in> set (ring_of x)" "callStack (tasks x a) = r # rs"
  shows "exrail_inv prg (set_task a (\<lambda>t. t\<lparr>progCounter := r, callStack := rs\<rparr>) x)"
  using assms by (intro set_task_inv) (auto simp: task_ok_def)

lemma flow_ok:
  assumes "wf_program prg" "running prg a pc x"
    and opc: "opc = GET_OPCODE (RouteCode prg) (nat pc)" "ops = getOperand (RouteCode prg) (nat pc)"
  shows "exec_ok prg a pc (exec_flow prg w a opc ops x)"
proof -
  have x: "exrail_inv prg x" "a \<in> set (ring_of x)" "progCounter (tasks x a) = pc" using assms(2) by (simp_all add: running_def)
  have pc: "pc_ok (RouteCode prg) pc" using running_pc [OF assms(2)] x(3) by simp
  have nx: "opc = OPCODE_CALL \<Longrightarrow> pc_ok (RouteCode prg) (progCounter (tasks x a) + 3)" using pc_next [OF assms(1) pc] opc x(3) by simp
  have r: "\<not> (ops 0 = 0)" "pc_ok (RouteCode prg) (progCounter (tasks x a) + 3 * (sint (ops 0) + 1))"
    if "opc = OPCODE_RANDOM_CALL \<or> opc = OPCODE_RANDOM_FOLLOW"
    using random_places [OF assms(1,2)] that opc x(3) by auto
  have st: "exec_ok prg a pc (started x (start_task prg w route l rv x))" for route l rv
    using started_ok [OF assms(1,2) benign_id(1), of w route l rv] by (simp add: option.map_id)
  have send: "exec_ok prg a pc (started x (map_option (set_task a (\<lambda>t. t\<lparr>t_loco := 0\<rparr>)) (start_task prg w route l rv x)))" for route l rv
    by (rule started_ok [OF assms(1,2)], rule benign_set_task) (simp_all add: moves_not_def blinks_def)
  have p: "running prg a pc (y\<lparr>pausingTask := q\<rparr>)" if "running prg a pc y" for y q using that same_core_running [OF core_yard(3)] by simp
  show ?thesis
    unfolding exec_flow_def Let_def
    by (intro exec_ok_if exec_ok_NotMine exec_ok_Stay jump_inv call_route_inv nx r(2) x(1,2) kill_inv kill_all_inv [THEN conjunct1] st send
        exec_ok_Done p keep_running assms(1,2))
      (use r x in \<open>auto split: list.split intro!: return_inv kill_inv\<close>)
qed

section \<open>Every known instruction is executed\<close>

lemma not_mine:
  "opc \<in> set point_ops \<Longrightarrow> exec_points prg w a opc ops x \<noteq> NotMine"
  "opc \<in> set loco_ops \<Longrightarrow> exec_loco prg w a opc ops x \<noteq> NotMine"
  "opc \<in> set function_ops \<Longrightarrow> exec_functions prg w a opc ops x \<noteq> NotMine"
  "opc \<in> set block_ops \<Longrightarrow> exec_blocks prg w a opc ops x \<noteq> NotMine"
  "opc \<in> set wait_ops \<Longrightarrow> exec_waits prg w a opc ops x \<noteq> NotMine"
  "opc \<in> set if_ops \<Longrightarrow> exec_ifs prg w a opc ops x \<noteq> NotMine"
  "opc \<in> set pin_ops \<Longrightarrow> exec_pins prg w a opc ops x \<noteq> NotMine"
  "opc \<in> set signal_ops \<Longrightarrow> exec_signals prg w a opc ops x \<noteq> NotMine"
  "opc \<in> set track_ops \<Longrightarrow> exec_tracks prg w a opc ops x \<noteq> NotMine"
  "opc \<in> set stash_ops \<Longrightarrow> exec_stash prg w a opc ops x \<noteq> NotMine"
  "opc \<in> set flow_ops \<Longrightarrow> exec_flow prg w a opc ops x \<noteq> NotMine"
  unfolding point_ops_def loco_ops_def function_ops_def block_ops_def wait_ops_def if_ops_def pin_ops_def signal_ops_def
    track_ops_def stash_ops_def flow_ops_def exec_points_def exec_loco_def exec_functions_def exec_blocks_def exec_waits_def
    exec_ifs_def exec_pins_def exec_signals_def exec_tracks_def exec_stash_def exec_flow_def Let_def next_if_some_def
    skip_unless_def started_def
  by (auto split: option.split bool.split)

text \<open>
  What the generated \<^verbatim>\<open>printMessage\<close> may do: act on the yard and write output. A \<^verbatim>\<open>PARSE\<close> text whose
  command starts, kills or moves EXRAIL tasks (\<^verbatim>\<open>thrunge_parse\<close>) is outside this.
\<close>

definition messages_ok :: "messages \<Rightarrow> bool" where
  "messages_ok msg \<longleftrightarrow> (\<forall>i a x. \<exists>y es. snd (msg i a x) = x\<lparr>yard_of := y, outs := es\<rparr>)"

lemma message_core:
  assumes "messages_ok msg"
  shows "same_core x (snd (msg i a x))"
proof -
  obtain y es where "snd (msg i a x) = x\<lparr>yard_of := y, outs := es\<rparr>" using assms unfolding messages_ok_def by blast
  then show ?thesis by (simp add: same_core_def)
qed

lemma exec_ok_chain:
  assumes "\<And>r. r \<in> set rs \<Longrightarrow> exec_ok prg a pc r" "exec_ok prg a pc z \<or> (\<exists>r \<in> set rs. r \<noteq> NotMine)"
  shows "exec_ok prg a pc (foldr or_else rs z)"
  using assms
proof (induction rs)
  case (Cons r rs)
  show ?case
  proof (cases "r = NotMine")
    case True
    with Cons show ?thesis by (simp add: or_else_def)
  next
    case False
    then have "or_else r s = r" for s by (cases r) (simp_all add: or_else_def)
    with Cons.prems(1) show ?thesis by simp
  qed
qed simp

lemma instr_ok:
  assumes "wf_program prg" "messages_ok msg" "running prg a pc x"
    and opc: "opc = GET_OPCODE (RouteCode prg) (nat pc)" "ops = getOperand (RouteCode prg) (nat pc)"
  shows "exec_ok prg a pc (exec_instr msg prg w a opc ops x)"
proof -
  let ?last = "if opc = OPCODE_IFLOCO \<or> opc = OPCODE_PRINT then (let (skip, x) = msg (ops 0) a x in skip_unless (\<not> skip) x)
     else if opc \<in> ignored then Done Next x else Fault"
  let ?groups = "[exec_points prg w a opc ops x, exec_loco prg w a opc ops x, exec_functions prg w a opc ops x,
     exec_blocks prg w a opc ops x, exec_waits prg w a opc ops x, exec_ifs prg w a opc ops x, exec_pins prg w a opc ops x,
     exec_signals prg w a opc ops x, exec_tracks prg w a opc ops x, exec_stash prg w a opc ops x, exec_flow prg w a opc ops x]"
  have ok: "exec_ok prg a pc r" if "r \<in> set ?groups" for r
    using that points_ok [OF assms(1,3)] loco_ok [OF assms(1,3)] functions_ok [OF assms(1,3)] blocks_ok [OF assms(1,3)]
      waits_ok [OF assms(1,3)] ifs_ok [OF assms(3)] pins_ok [OF assms(1,3)] signals_ok [OF assms(1,3)] tracks_ok [OF assms(1,3)]
      stash_ok [OF assms(1,3)] flow_ok [OF assms(1,3) opc]
    unfolding list.set insert_iff empty_iff by metis
  have "exec_ok prg a pc ?last \<or> (\<exists>r \<in> set ?groups. r \<noteq> NotMine)"
  proof (cases "opc \<in> ignored \<or> opc = OPCODE_IFLOCO \<or> opc = OPCODE_PRINT")
    case True
    have "running prg a pc (snd (msg (ops 0) a x))" using same_core_running [OF message_core [OF assms(2)]] assms(3) by simp
    then have "exec_ok prg a pc (let (skip, x) = msg (ops 0) a x in skip_unless (\<not> skip) x)"
      by (cases "msg (ops 0) a x") (simp add: exec_ok_skip)
    with True assms(3) show ?thesis by (auto intro: exec_ok_Done)
  next
    case False
    have "pc_ok (RouteCode prg) pc" using running_pc [OF assms(3)] assms(3) by (simp add: running_def)
    from wf_at [OF assms(1) this] False have "opc \<in> set known_groups" unfolding wf_place_def Let_def opc by blast
    then show ?thesis unfolding known_groups_def set_append Un_iff list.set bex_simps using not_mine by meson
  qed
  from exec_ok_chain [OF ok this] show ?thesis by (simp add: exec_instr_def)
qed

section \<open>One turn of the loop\<close>

lemma end_kills: "exec_instr msg prg w a OPCODE_ENDEXRAIL ops x = Done Stay (kill w a x)"
  by (simp add: exec_instr_def or_else_def exec_points_def exec_loco_def exec_functions_def exec_blocks_def exec_waits_def exec_ifs_def
      exec_pins_def exec_signals_def exec_tracks_def exec_stash_def exec_flow_def Let_def)

definition skip_ok :: "byte list \<Rightarrow> skip_result \<Rightarrow> bool" where
  "skip_ok code r =
    (case r of Skipped p \<Rightarrow> pc_ok code (int p) \<and> GET_OPCODE code p \<noteq> OPCODE_ENDEXRAIL | MissingEndif _ \<Rightarrow> True | OffEnd \<Rightarrow> False)"

lemma skip_loop_ok:
  assumes "wf_program prg" "code = RouteCode prg"
  shows "pc_ok code (int pc) \<Longrightarrow> GET_OPCODE code pc \<noteq> OPCODE_ENDEXRAIL \<Longrightarrow> skip_ok code (skip_loop code nest pc)"
  using assms(2)
proof (induction code nest pc rule: skip_loop.induct)
  case (1 code nest pc)
  let ?opc = "GET_OPCODE code (pc + 3)"
  have pc: "pc_ok code (int (pc + 3))" using pc_next [OF assms(1), of "int pc"] "1.prems" by (simp add: add.commute)
  then have "pc + 3 < length code" by (simp add: pc_ok_def)
  then have "skip_loop code nest pc =
      (if nest = 0 then Skipped pc
       else if ?opc > IF_TYPE_OPCODES then skip_loop code (nest + 1) (pc + 3)
       else if ?opc = OPCODE_ENDEXRAIL then MissingEndif (pc + 3)
       else if ?opc = OPCODE_ENDIF then skip_loop code (nest - 1) (pc + 3)
       else if ?opc = OPCODE_ELSE then skip_loop code (if nest = 1 then 0 else nest) (pc + 3)
       else skip_loop code nest (pc + 3))"
    by (subst skip_loop.simps) (simp add: Let_def)
  moreover have "?opc > IF_TYPE_OPCODES \<Longrightarrow> ?opc \<noteq> OPCODE_ENDEXRAIL" by auto
  ultimately show ?case using "1.IH" "1.prems" pc \<open>pc + 3 < length code\<close> by (simp add: skip_ok_def [of _ "Skipped _"] skip_ok_def [of _ "MissingEndif _"])
qed

lemma finish_ok:
  assumes "wf_program prg" "running prg a pc x" "exec_ok prg a pc r" "r \<noteq> NotMine"
    and "GET_OPCODE (RouteCode prg) (nat pc) \<noteq> OPCODE_ENDEXRAIL"
  shows "(\<forall>y. finish_op (RouteCode prg) w a r = Some y \<longrightarrow> exrail_inv prg y) \<and>
    (finish_op (RouteCode prg) w a r = None \<longrightarrow> feature prg FEATURE_BLINK)"
proof (cases r)
  case (Done oc y)
  have pc: "pc_ok (RouteCode prg) pc" using running_pc [OF assms(2)] assms(2) by (simp add: running_def)
  have move: "exrail_inv prg (set_task a (\<lambda>t. t\<lparr>progCounter := q t\<rparr>) y)"
    if "running prg a pc y" "pc_ok (RouteCode prg) (q (tasks y a))" for q
    using that by (intro set_task_inv) (auto simp: running_def task_ok_def)
  show ?thesis
  proof (cases oc)
    case Next
    then have "running prg a pc y" using assms(3) Done by (simp add: exec_ok_def)
    then show ?thesis using move [of "\<lambda>t. progCounter t + 3"] pc_next [OF assms(1) pc assms(5)] Done Next
      by (simp add: finish_op_def running_def)
  next
    case SkipIf
    then have r: "running prg a pc y" using assms(3) Done by (simp add: exec_ok_def)
    let ?s = "skipIfBlock (RouteCode prg) (nat pc)"
    have s: "skip_ok (RouteCode prg) ?s"
      unfolding skipIfBlock_def by (rule skip_loop_ok [OF assms(1) refl]) (use pc assms(5) in \<open>auto simp: pc_ok_def\<close>)
    have k: "exrail_inv prg (kill w a y)" using r by (simp add: running_def kill_inv)
    have q: "progCounter (tasks y a) = pc" using r by (simp add: running_def)
    show ?thesis
    proof (cases ?s)
      case (Skipped p)
      then have "pc_ok (RouteCode prg) (int p + 3)" using s pc_next [OF assms(1), of "int p"] by (simp add: skip_ok_def)
      then show ?thesis using move [OF r, of "\<lambda>_. int p + 3"] Done SkipIf Skipped q by (simp add: finish_op_def)
    next
      case (MissingEndif p)
      then show ?thesis using k q Done SkipIf by (simp add: finish_op_def)
    next
      case OffEnd
      then show ?thesis using s by (simp add: skip_ok_def)
    qed
  next
    case Stay
    then show ?thesis using assms(3) Done by (simp add: finish_op_def exec_ok_def)
  qed
next
  case Fault
  then show ?thesis using assms(3) by (simp add: finish_op_def exec_ok_def)
qed (use assms(4) in simp)

lemma instr_not_NotMine: "exec_instr msg prg w a opc ops x \<noteq> NotMine"
proof -
  have "or_else r s = NotMine \<longleftrightarrow> r = NotMine \<and> s = NotMine" for r s by (cases r) (simp_all add: or_else_def)
  then show ?thesis unfolding exec_instr_def by (auto simp: skip_unless_def split: prod.splits)
qed

lemma blink_step_inv:
  assumes "wf_program prg" "exrail_inv prg x"
  shows "exrail_inv prg (blink_step prg w a ops x)"
  unfolding blink_step_def Let_def
  by (rule benign_inv [OF benign_delayMe], rule set_task_inv)
    (simp_all add: benign_inv [OF benign_calls(4) [OF assms(1)] assms(2)] task_ok_def)

lemma loop2_ok:
  assumes "wf_program prg" "messages_ok msg" "exrail_inv prg x" "a \<in> set (ring_of x)"
  shows "(\<forall>y. loop2 msg prg w a x = Some y \<longrightarrow> exrail_inv prg y) \<and> (loop2 msg prg w a x = None \<longrightarrow> feature prg FEATURE_BLINK)"
proof -
  let ?t = "tasks x a" and ?code = "RouteCode prg"
  let ?pc = "progCounter ?t"
  let ?r = "exec_instr msg prg w a (GET_OPCODE ?code (nat ?pc)) (getOperand ?code (nat ?pc)) x"
  have "pc_ok ?code ?pc" using assms(3,4) by (simp add: exrail_inv_def task_ok_def)
  then have pc: "\<not> ?pc < 0" "\<not> nat ?pc + 3 > length ?code" by (auto simp: pc_ok_def)
  consider "delayTime ?t \<noteq> 0 \<and> millis w - delayStart ?t < delayTime ?t"
    | "\<not> (delayTime ?t \<noteq> 0 \<and> millis w - delayStart ?t < delayTime ?t)" "feature prg FEATURE_BLINK" "blinks ?t"
    | "\<not> (delayTime ?t \<noteq> 0 \<and> millis w - delayStart ?t < delayTime ?t)" "\<not> (feature prg FEATURE_BLINK \<and> blinks ?t)"
    by blast
  then show ?thesis
  proof cases
    case 1
    then show ?thesis using assms(3) by (simp add: loop2_def Let_def)
  next
    case 2
    then have "loop2 msg prg w a x = Some (blink_step prg w a (getOperand ?code (nat ?pc)) x)"
      using pc unfolding loop2_def Let_def blinks_def by auto
    then show ?thesis using blink_step_inv [OF assms(1,3)] by simp
  next
    case 3
    then have l: "loop2 msg prg w a x = finish_op ?code w a ?r"
      using pc unfolding loop2_def Let_def blinks_def by auto
    have run: "running prg a ?pc x" using assms(3,4) 3 by (simp add: running_def)
    show ?thesis
    proof (cases "GET_OPCODE ?code (nat ?pc) = OPCODE_ENDEXRAIL")
      case True
      then show ?thesis using l kill_inv [OF assms(3,4)] by (simp add: end_kills finish_op_def)
    next
      case False
      then show ?thesis
        using finish_ok [OF assms(1) run instr_ok [OF assms(1,2) run refl refl] instr_not_NotMine] l by simp
    qed
  qed
qed

lemma esensor_inv:
  assumes "exrail_inv prg x" "readingESensor x = Some i"
  shows "exrail_inv prg (snd (check_esensor w i x)) \<and> length (esensors (snd (check_esensor w i x))) = length (esensors x)"
proof -
  have i: "i < length (esensors x)" using assms by (simp add: exrail_inv_def)
  then have pc: "pc_ok (RouteCode prg) (es_pc (esensors x ! i))" using assms(1) by (simp add: exrail_inv_def)
  have put: "exrail_inv prg (x\<lparr>esensors := (esensors x)[i := s]\<rparr>)" if "es_pc s = es_pc (esensors x ! i)" for s
    using assms(1) i pc that by (auto simp: exrail_inv_def dest!: set_update_subset_insert [THEN subsetD])
  have n: "length (esensors (new_task w q l rv y)) = length (esensors y)" for q l rv y
    by (simp add: new_task_def Let_def setFlag_def split: option.split)
  show ?thesis unfolding check_esensor_def Let_def by (simp add: put new_task_inv pc n)
qed

lemma scan_inv: "exrail_inv prg x \<Longrightarrow> exrail_inv prg (scan_esensors w n x)"
proof (induction n arbitrary: x)
  case (Suc n)
  show ?case
  proof (cases "readingESensor x")
    case (Some i)
    obtain stop y where c: "check_esensor w i x = (stop, y)" by (cases "check_esensor w i x")
    let ?y = "y\<lparr>readingESensor := (if i + 1 < length (esensors y) then Some (i + 1) else None)\<rparr>"
    have "exrail_inv prg ?y" using esensor_inv [OF Suc.prems Some, of w] c by (simp add: exrail_inv_def)
    with Suc.IH [of ?y] Some c show ?thesis by (simp add: Let_def)
  qed (use Suc.prems in simp)
qed simp

lemma checkAllE_inv: "exrail_inv prg x \<Longrightarrow> exrail_inv prg (checkAllE w x)"
proof -
  assume i: "exrail_inv prg x"
  have "exrail_inv prg (x\<lparr>readingESensor := Some 0, lastESensorCycle := t\<rparr>)" if "esensors x \<noteq> []" for t
    using i that by (simp add: exrail_inv_def)
  with i show ?thesis by (simp add: checkAllE_def scan_inv)
qed

lemma rmft_loop_ok:
  assumes "wf_program prg" "messages_ok msg" "exrail_inv prg x"
  shows "(\<forall>y. rmft_loop msg prg w x = Some y \<longrightarrow> exrail_inv prg y) \<and>
    (rmft_loop msg prg w x = None \<longrightarrow> feature prg FEATURE_BLINK)"
proof -
  let ?x = "if feature prg FEATURE_SENSOR then checkAllE w x else x"
  have i: "exrail_inv prg ?x" using checkAllE_inv assms(3) by simp
  show ?thesis
  proof (cases "ring_of ?x")
    case Nil
    then have "rmft_loop msg prg w x = Some ?x" by (simp add: rmft_loop_def Let_def)
    then show ?thesis using i by simp
  next
    case (Cons b bs)
    let ?y = "?x\<lparr>ring_of := rotate1 (ring_of ?x)\<rparr>"
    let ?a = "hd (ring_of ?y)"
    have j: "exrail_inv prg ?y" using i by (simp add: exrail_inv_def)
    have a: "?a \<in> set (ring_of ?y)" by (rule hd_in_set) (use Cons in simp)
    have "rmft_loop msg prg w x = (if pausingTask ?y = None \<or> pausingTask ?y = Some ?a then loop2 msg prg w ?a ?y else Some ?y)"
      using Cons unfolding rmft_loop_def Let_def by simp
    then show ?thesis using loop2_ok [OF assms(1,2) j a] j by simp
  qed
qed

section \<open>Commands and start\<close>

definition opt_inv :: "program \<Rightarrow> ('a \<times> exrail) option \<Rightarrow> bool" where
  "opt_inv prg r \<longleftrightarrow> (\<forall>b y. r = Some (b, y) \<longrightarrow> exrail_inv prg y)"

lemma opt_inv_if: "(b \<Longrightarrow> opt_inv prg r) \<Longrightarrow> (\<not> b \<Longrightarrow> opt_inv prg s) \<Longrightarrow> opt_inv prg (if b then r else s)"
  by simp

lemma opt_inv_Some: "exrail_inv prg y \<Longrightarrow> opt_inv prg (Some (b, y))" "exrail_inv prg (snd q) \<Longrightarrow> opt_inv prg (Some q)"
  by (auto simp: opt_inv_def)

lemma opt_inv_map: "(\<And>y. r = Some y \<Longrightarrow> exrail_inv prg y) \<Longrightarrow> opt_inv prg (map_option (Pair b) r)"
  by (auto simp: opt_inv_def)

lemma opt_inv_case: "exrail_inv prg x \<Longrightarrow> (\<And>z. r = Some z \<Longrightarrow> exrail_inv prg (f z)) \<Longrightarrow>
    opt_inv prg (case r of None \<Rightarrow> Some (b, x) | Some z \<Rightarrow> Some (c, f z))"
  by (auto simp: opt_inv_def split: option.splits)

lemmas opt_intros = opt_inv_if opt_inv_map opt_inv_case opt_inv_Some(1) opt_inv_Some(2)

lemma parseSlash_inv:
  assumes "wf_program prg" "exrail_inv prg x" "parseSlash prg w n p x = Some (b, y)"
  shows "exrail_inv prg y"
proof -
  have pa: "exrail_inv prg (pause_all prg w x)"
    unfolding pause_all_def
    by (subst same_core_inv [OF core_yard(3)])
      (intro benign_inv [OF benign_calls(1) [OF assms(1)]] benign_inv [OF benign_fold] benign_pause assms(2))
  have re: "exrail_inv prg (resume_all prg w as x)" for as using benign_inv [OF benign_resume_all [OF assms(1)] assms(2)] .
  have fl: "exrail_inv prg (snd (setFlag i m k x))" "exrail_inv prg (freeAll x)" for i m k
    using benign_inv [OF benign_flags(1) assms(2)] benign_inv [OF benign_flags(2) assms(2)] by blast+
  have st: "exrail_inv prg z" if "start_task prg w r l rv x = Some z" for r l rv z
    using start_task_ok [OF assms(1) that benign_id(2)] assms(2) by simp
  have si: "exrail_inv prg z" if "doSignal prg w i rag x = Some z" for i rag z
    using partly_doSignal [OF assms(1)] that assms(2) unfolding partly_benign_def by blast
  have ki: "exrail_inv prg (kill w a x)" if "find P (ring_of x) = Some a" for P a
    by (rule kill_inv [OF assms(2)]) (use that in \<open>auto simp: find_Some_iff\<close>)
  have "opt_inv prg (parseSlash prg w n p x)"
    unfolding parseSlash_def Let_def
    by (intro opt_intros pa re fl assms(2) kill_all_inv [OF assms(2), THEN conjunct1]; (erule st si ki)?)
  with assms(3) show ?thesis by (simp add: opt_inv_def)
qed

lemma next_lcc_ok:
  assumes "wf_program prg" "next_lcc (RouteCode prg) pc = Some q" "3 dvd pc"
  shows "pc_ok (RouteCode prg) (int q)" "GET_OPCODE (RouteCode prg) q \<in> set lcc_ops"
proof -
  obtain k where k: "k < (length (RouteCode prg) - pc) div 3" "q = pc + 3 * k" "GET_OPCODE (RouteCode prg) q \<in> set lcc_ops"
    using assms(2) unfolding next_lcc_def find_Some_iff by (auto simp: nth_map)
  then show "GET_OPCODE (RouteCode prg) q \<in> set lcc_ops" by simp
  have "q + 3 \<le> length (RouteCode prg)" using k(1,2) by linarith
  moreover have "3 dvd q" using assms(3) k(2) by simp
  ultimately show "pc_ok (RouteCode prg) (int q)" by (auto simp: pc_ok_def simp flip: int_dvd_int_iff [of 3])
qed

lemma listen_inv:
  assumes "exrail_inv prg x" "pc_ok (RouteCode prg) (int pc)" "3 dvd pc"
  shows "exrail_inv prg (listen_lcc pc x)"
  using assms by (auto simp: exrail_inv_def listen_lcc_def dest!: set_update_subset_insert [THEN subsetD])

lemma introduce_inv:
  assumes "wf_program prg" "exrail_inv prg x" "introduce_lcc prg x = Some y"
  shows "exrail_inv prg y"
proof -
  let ?x = "x\<lparr>lccAttached := True\<rparr>" and ?code = "RouteCode prg"
  obtain pc where n: "next_lcc ?code (lccProgCounter x) = Some pc"
    using assms(3) by (auto simp: introduce_lcc_def Let_def split: option.splits)
  have pc: "pc_ok ?code (int pc)" and opc: "GET_OPCODE ?code pc \<in> set lcc_ops"
    using next_lcc_ok [OF assms(1) n] assms(2) by (simp_all add: exrail_inv_def)
  have i: "exrail_inv prg ?x" using assms(2) same_core_inv [OF core_yard(6)] by simp
  have d: "3 dvd pc" using pc by (simp add: pc_ok_def flip: int_dvd_int_iff [of 3])
  have wf: "wf_place ?code pc" using wf_at [OF assms(1) pc] by simp
  have far: "pc + 15 \<le> length ?code \<Longrightarrow> pc_ok ?code (int (pc + 12))" "pc + 9 \<le> length ?code \<Longrightarrow> pc_ok ?code (int (pc + 6))"
    using pc by (auto simp: pc_ok_def)
  have at: "exrail_inv prg (lcc_answer f args (?x\<lparr>lccProgCounter := 0, lccEventIndex := e\<rparr>))"
    "3 dvd q \<Longrightarrow> exrail_inv prg (lcc_answer f args (?x\<lparr>lccProgCounter := q\<rparr>))" "exrail_inv prg (lcc_answer f args ?x)" for f args q e
    using i by (simp_all add: exrail_inv_def lcc_answer_def on_yard_def)
  have on: "GET_OPCODE ?code pc = OPCODE_ONLCC \<Longrightarrow> pc_ok ?code (int (pc + 12))"
    "GET_OPCODE ?code pc = OPCODE_ONACON \<or> GET_OPCODE ?code pc = OPCODE_ONACOF \<Longrightarrow> pc_ok ?code (int (pc + 6))"
    using wf far unfolding wf_place_def Let_def by blast+
  have last: "pc_ok ?code (int (pc + 6))"
    if "GET_OPCODE ?code pc \<notin> {OPCODE_ENDEXRAIL, OPCODE_LCC, OPCODE_LCCX, OPCODE_ACON, OPCODE_ACOF, OPCODE_ONLCC, OPCODE_ONACON}"
    using opc that on(2) unfolding lcc_ops_def by auto
  have i: "exrail_inv prg (if c then u else v)" if "c \<Longrightarrow> exrail_inv prg u" "\<not> c \<Longrightarrow> exrail_inv prg v" for c u v using that by simp
  have d: "3 dvd pc + 3" "3 dvd pc + 6" "3 dvd pc + 12" using d by simp_all
  have n: "next_lcc ?code (lccProgCounter ?x) = Some pc" using n by simp
  have "pred_option (exrail_inv prg) (introduce_lcc prg x)"
    unfolding introduce_lcc_def Let_def n option.case option.pred_inject by (intro i at listen_inv on d last; simp)
  with assms(3) show ?thesis by simp
qed

lemma filter_inv:
  assumes "wf_program prg" "exrail_inv prg x" "ComandFilter prg w opc n p x = Some (q, y)"
  shows "exrail_inv prg y"
proof -
  have sl: "exrail_inv prg z" if "parseSlash prg w n p x = Some (b, z)" for b z using parseSlash_inv [OF assms(1,2) that] .
  have sg: "exrail_inv prg z" if "signalAspectEvent prg w i v x = Some (b, z)" for i v b z
    using signalAspect_keeps(1) [OF assms(1) that] assms(2) by blast
  have lc: "exrail_inv prg z" if "introduce_lcc prg x = Some z" for z using introduce_inv [OF assms(1,2) that] .
  have st: "exrail_inv prg (startNonRecursiveTask w (onLCCLookup x ! k) l x)" if "k < length (onLCCLookup x)" for k l
    by (rule benign_inv [OF benign_start assms(2)]) (use that assms(2) in \<open>simp add: exrail_inv_def\<close>)
  have an: "exrail_inv prg (on_yard f x)" for f using assms(2) by (simp add: exrail_inv_def on_yard_def)
  have ro: "exrail_inv prg (list_routes prg x)" "exrail_inv prg (describe_route prg i x)" for i
    using assms(2) by (simp_all add: list_routes_def describe_route_def Let_def on_yard_def exrail_inv_def)
  have bl: "exrail_inv prg (blockEvent prg w i l c x)" for i l c using benign_inv [OF benign_events(5) [OF assms(1)] assms(2)] .
  from assms(3) show ?thesis
    unfolding ComandFilter_def Let_def
    by (auto split: if_splits prod.splits intro: sl sg lc st ro bl assms(2)) (use assms(2) in blast)+
qed

lemma begin_op_inv:
  assumes "wf_program prg" "pc \<in> set (places (RouteCode prg))" "exrail_inv prg x"
  shows "exrail_inv prg (begin_op prg w dv pc x)"
proof -
  have pc: "pc_ok (RouteCode prg) (int pc)" using places_ok [OF assms(2)] .
  have "GET_OPCODE (RouteCode prg) pc \<noteq> OPCODE_ENDEXRAIL" using assms(2) by (auto simp: places_def dest: set_takeWhileD)
  then have nx: "pc_ok (RouteCode prg) (int pc + 3)" using pc_next [OF assms(1) pc] by simp
  have b: "exrail_inv prg (call_board prg w f x)" for f using benign_inv [OF benign_calls(2) [OF assms(1)] assms(3)] .
  have y: "exrail_inv prg (on_yard f x)" for f using assms(3) by (simp add: exrail_inv_def on_yard_def)
  have o: "exrail_inv prg (out e x)" for e using benign_inv [OF benign_flags(3) assms(3)] .
  have s: "exrail_inv prg (newESensor prg w v (int pc + 3) c d x)" for v c d
  proof -
    have "exrail_inv prg (z\<lparr>esensors := e # esensors z\<rparr>)" if "exrail_inv prg z" "es_pc e = int pc + 3" for z e
      using that nx by (auto simp: exrail_inv_def less_Suc_eq)
    from this [OF b] show ?thesis by (simp add: newESensor_def Let_def)
  qed
  have i: "exrail_inv prg (if c then u else v)" if "exrail_inv prg u" "exrail_inv prg v" for c u v using that by simp
  show ?thesis unfolding begin_op_def Let_def by (intro i b y o s new_task_inv pc assms(3))
qed

lemma begin_inv:
  assumes "wf_program prg" "exrail_begin prg w dv (new_exrail yd n) = Some y"
  shows "exrail_inv prg y"
proof -
  let ?x = "(new_exrail yd n)\<lparr>eflags := replicate MAX_FLAGS 0, routeStateArray := replicate (length (routeLookup (RouteCode prg))) 0\<rparr>"
  have "pc_ok (RouteCode prg) 0" using assms(1) by (simp add: wf_program_def Let_def pc_ok_def)
  then have x: "exrail_inv prg ?x" by (simp add: new_exrail_def exrail_inv_def)
  have red: "partly_benign prg (red_signals prg w ss)" for ss
    by (induction ss) (simp_all add: partly_bind partly_doSignal assms(1) partly_benign_def [of _ Some])
  obtain z where z: "(if feature prg FEATURE_SIGNAL then red_signals prg w (signal_slots prg) ?x else Some ?x) = Some z"
    "y = fold (begin_op prg w dv) (places (RouteCode prg)) z"
    using assms(2) by (auto simp: exrail_begin_def Let_def)
  have "exrail_inv prg z" using z(1) x red [of "signal_slots prg"] unfolding partly_benign_def by (auto split: if_splits)
  moreover have "exrail_inv prg (fold (begin_op prg w dv) ps u)" if "exrail_inv prg u" "set ps \<subseteq> set (places (RouteCode prg))" for ps u
    using that by (induction ps arbitrary: u) (simp_all add: begin_op_inv [OF assms(1)])
  ultimately show ?thesis by (simp add: z(2))
qed

section \<open>Reachable states\<close>

text \<open>
  Between two turns of EXRAIL's loop the rest of the station works on its own state (any function of it,
  with the events this raises), commands come in, the clock, the tracks and the sensors raise events, and
  the programming track calls back.
\<close>

inductive exrail_reach :: "messages \<Rightarrow> program \<Rightarrow> exrail \<Rightarrow> bool" for msg prg where
  start: "exrail_begin prg w dv (new_exrail y n) = Some x \<Longrightarrow> exrail_reach msg prg x"
| turn: "exrail_reach msg prg x \<Longrightarrow> rmft_loop msg prg w x = Some y \<Longrightarrow> exrail_reach msg prg y"
| command: "exrail_reach msg prg x \<Longrightarrow> ComandFilter prg w opc n p x = Some (q, y) \<Longrightarrow> exrail_reach msg prg y"
| station: "exrail_reach msg prg x \<Longrightarrow> exrail_reach msg prg (call prg w f x)"
| clock: "exrail_reach msg prg x \<Longrightarrow> exrail_reach msg prg (clockEvent prg w i c x)"
| power: "exrail_reach msg prg x \<Longrightarrow> exrail_reach msg prg (powerEvent prg w i c x)"
| changes: "exrail_reach msg prg x \<Longrightarrow> exrail_reach msg prg (changeEvent prg w i c x)"
| route: "exrail_reach msg prg x \<Longrightarrow> exrail_reach msg prg (createNewTask prg w r l x)"
| callback: "exrail_reach msg prg x \<Longrightarrow> exrail_reach msg prg (readLocoCallback cv x)"

lemma createNewTask_inv:
  assumes "wf_program prg" "exrail_inv prg x"
  shows "exrail_inv prg (createNewTask prg w r l x)"
proof (cases "find_route (RouteCode prg) r < 0")
  case False
  from new_task_inv [OF assms(2) find_route_ok [OF assms(1) False]] False show ?thesis by (simp add: createNewTask_def Let_def)
qed (simp add: createNewTask_def Let_def assms(2))

lemma exrail_reach_inv:
  assumes "wf_program prg" "messages_ok msg" "exrail_reach msg prg x"
  shows "exrail_inv prg x"
  using assms(3)
proof induction
  case (start w dv y n x)
  then show ?case by (rule begin_inv [OF assms(1)])
next
  case (turn x w y)
  then show ?case using rmft_loop_ok [OF assms(1,2)] by blast
next
  case (command x w opc n p q y)
  then show ?case using filter_inv [OF assms(1)] by blast
next
  case (callback x cv)
  then show ?case using same_core_inv [OF core_readLocoCallback] by simp
next
  case (station x w f)
  then show ?case using benign_inv [OF benign_call [OF assms(1)]] by blast
next
  case (clock x w i c)
  then show ?case using benign_inv [OF benign_events(8) [OF assms(1)]] by blast
next
  case (power x w i c)
  then show ?case using benign_inv [OF benign_events(9) [OF assms(1)]] by blast
next
  case (changes x w i c)
  then show ?case using benign_inv [OF benign_events(6) [OF assms(1)]] by blast
next
  case (route x w r l)
  then show ?case using createNewTask_inv [OF assms(1)] by blast
qed

text \<open>
  C3: EXRAIL stays inside its program. For a well-formed program, in every state that turns of the loop,
  commands, events and the rest of the station can bring about, the ring holds distinct live tasks, each
  with its program counter and the return addresses of its call stack at instructions of the program
  and at most four calls deep, the sensors' handlers are instructions, and the flags table keeps its
  size. If no pins blink, every turn of the loop returns without touching a deleted task.
\<close>

theorem exrail_safe:
  assumes "wf_program prg" "messages_ok msg" "exrail_reach msg prg x"
  shows "exrail_inv prg x \<and> (\<not> feature prg FEATURE_BLINK \<longrightarrow> (\<forall>w. \<exists>y. rmft_loop msg prg w x = Some y))"
proof -
  have "exrail_inv prg x" by (rule exrail_reach_inv [OF assms])
  moreover from rmft_loop_ok [OF assms(1,2) this] have "rmft_loop msg prg w x = None \<Longrightarrow> feature prg FEATURE_BLINK" for w by blast
  ultimately show ?thesis by (metis option.exhaust)
qed

definition demo_task :: task where
  "demo_task = \<lparr>progCounter = 0, delayStart = 0, delayTime = 0, timer = 0, taskId = 0, blinkState = not_blink_task, t_loco = 0,
     invert = False, pauseSpeed = 0, onEventStartPosition = -1, callStack = []\<rparr>"

definition demo_world :: world where
  "demo_world = \<lparr>millis = 0, RCN_213 = False, ACCESSORY_REVERSE = False, calloc = True, hasCallback = (\<lambda>_. False), micros = 0,
     read_pin = (\<lambda>_. False), readAnalogue = (\<lambda>_. 0), isBusy = (\<lambda>_. False), isPowerOn = (\<lambda>_. True), garbage = demo_task\<rparr>"

definition demo_yard :: yard where
  "demo_yard = \<lparr>station_of = demo_station, turntables = [], turntablelistHash = 0\<rparr>"

definition demo_program :: "byte list \<Rightarrow> byte \<Rightarrow> program" where
  "demo_program code f = \<lparr>RouteCode = code, SignalDefinitions = [], compileFeatures = f, turnoutHidden = (\<lambda>_. None),
     turntableHidden = (\<lambda>_. None)\<rparr>"

definition demo_messages :: messages where
  "demo_messages i a x = (False, x)"

lemma demo_messages_ok: "messages_ok demo_messages"
proof -
  have "x = x\<lparr>yard_of := yard_of x, outs := outs x\<rparr>" for x :: exrail by simp
  then show ?thesis unfolding messages_ok_def demo_messages_def snd_conv by blast
qed

definition demo_code :: "byte list" where
  "demo_code = [OPCODE_AUTOSTART, 0, 0, OPCODE_CALL, 7, 0, OPCODE_ENDTASK, 0, 0, OPCODE_SEQUENCE, 7, 0, OPCODE_RESERVE, 3, 0,
     OPCODE_RETURN, 0, 0, OPCODE_ENDEXRAIL, 0, 0]"

lemma demo_wf: "wf_program (demo_program demo_code 0)"
  by code_simp

theorem exrail_safe_witness:
  "\<exists>x y. exrail_begin (demo_program demo_code 0) demo_world \<lparr>device_exists = (\<lambda>_. False), device_failed = (\<lambda>_. False)\<rparr> (new_exrail demo_yard 0) = Some x \<and>
     exrail_inv (demo_program demo_code 0) x \<and> rmft_loop demo_messages (demo_program demo_code 0) demo_world x = Some y"
proof -
  let ?d = "\<lparr>device_exists = (\<lambda>_. False), device_failed = (\<lambda>_. False)\<rparr> :: devices"
  have f: "\<not> feature (demo_program demo_code 0) m" for m by (simp add: feature_def demo_program_def)
  then obtain x where x: "exrail_begin (demo_program demo_code 0) demo_world ?d (new_exrail demo_yard 0) = Some x"
    by (simp add: exrail_begin_def Let_def)
  from exrail_safe [OF demo_wf demo_messages_ok exrail_reach.start [OF x]] f x show ?thesis by blast
qed

end
