(* ===== verification/ExrailBlocks.thy ===== *)
theory ExrailBlocks
  imports ExrailProps
begin

text \<open>
  Reserved blocks and blinking pins. A block is the flag \<^verbatim>\<open>SECTION_FLAG\<close> of its number; \<open>blocks\<close> is the
  list of these flags. A call is \<open>quiet\<close> if it leaves them alone, as everything in EXRAIL does but the
  instructions RESERVE, IFRESERVE, FREE and FREEALL and the commands that force a block.
\<close>

section \<open>What changes blocks\<close>

definition blocks :: "exrail \<Rightarrow> bool list" where
  "blocks x = map (\<lambda>f. bit f 7) (eflags x)"

definition reserved :: "u16 \<Rightarrow> exrail \<Rightarrow> bool" where
  "reserved b x \<longleftrightarrow> getFlag b SECTION_FLAG x"

lemma section_bit: "(f :: byte) AND SECTION_FLAG \<noteq> 0 \<longleftrightarrow> bit f 7"
  using and_exp_eq_0_iff_not_bit [of f 7] by simp

lemma blocks_length [simp]: "length (blocks x) = length (eflags x)"
  by (simp add: blocks_def)

lemma blocks_frame [simp]: "blocks (x\<lparr>yard_of := y\<rparr>) = blocks x" "blocks (x\<lparr>stash_of := st\<rparr>) = blocks x"
    "blocks (x\<lparr>pausingTask := p\<rparr>) = blocks x" "blocks (x\<lparr>progtrackLocoId := l\<rparr>) = blocks x" "blocks (x\<lparr>ring_of := r\<rparr>) = blocks x"
    "blocks (x\<lparr>tasks := ts\<rparr>) = blocks x" "blocks (x\<lparr>fresh := n\<rparr>) = blocks x" "blocks (x\<lparr>esensors := ss\<rparr>) = blocks x"
    "blocks (x\<lparr>readingESensor := q\<rparr>) = blocks x" "blocks (x\<lparr>lastESensorCycle := t\<rparr>) = blocks x" "blocks (x\<lparr>outs := es\<rparr>) = blocks x"
  by (simp_all add: blocks_def)

lemma reserved_blocks: "length (eflags x) = MAX_FLAGS \<Longrightarrow> reserved b x \<longleftrightarrow> unat b < MAX_FLAGS \<and> blocks x ! unat b"
  by (auto simp: reserved_def getFlag_def blocks_def section_bit)

lemma setFlag_blocks:
  "blocks (snd (setFlag i m n x)) =
    (if unat i < MAX_FLAGS then (blocks x)[unat i := (bit (eflags x ! unat i) 7 \<and> \<not> bit n 7) \<or> bit m 7] else blocks x)"
  by (simp add: blocks_def setFlag_def map_update bit_simps not_le)

lemma setFlag_keeps: "\<not> bit m 7 \<Longrightarrow> \<not> bit n 7 \<Longrightarrow> blocks (snd (setFlag i m n x)) = blocks x"
proof -
  have "(blocks x)[k := bit (eflags x ! k) 7] = blocks x" for k
    by (cases "k < length (eflags x)") (simp_all add: blocks_def list_update_same_conv list_update_beyond)
  then show "\<not> bit m 7 \<Longrightarrow> \<not> bit n 7 \<Longrightarrow> blocks (snd (setFlag i m n x)) = blocks x" by (simp add: setFlag_blocks)
qed

definition quiet :: "(exrail \<Rightarrow> exrail) \<Rightarrow> bool" where
  "quiet f \<longleftrightarrow> (\<forall>x. blocks (f x) = blocks x)"

lemma quietD: "quiet f \<Longrightarrow> blocks (f x) = blocks x"
  by (simp add: quiet_def)

lemma quiet_id [simp]: "quiet id" "quiet (\<lambda>x. x)"
  by (simp_all add: quiet_def)

lemma quiet_if: "quiet f \<Longrightarrow> quiet g \<Longrightarrow> quiet (\<lambda>x. if b then f x else g x)"
  by (cases b) simp_all

lemma quiet_fold: "(\<And>e. quiet (f e)) \<Longrightarrow> quiet (fold f es)"
  by (induction es) (auto simp: quiet_def comp_def)

lemma quiet_same_flags: "(\<And>x. eflags (f x) = eflags x) \<Longrightarrow> quiet f"
  by (simp add: quiet_def blocks_def)

lemma bits_flags [simp]: "\<not> bit (TASK_FLAG) 7" "\<not> bit (LATCH_FLAG) 7" "\<not> bit (SIGNAL_MASK) 7" "\<not> bit (SIGNAL_RED) 7"
    "\<not> bit (SIGNAL_AMBER) 7" "\<not> bit (SIGNAL_GREEN) 7" "bit (SECTION_FLAG) 7" "\<not> bit (0 :: byte) 7"
  by simp_all

lemma quiet_tasks: "quiet (new_task w pc l rv)" "quiet (set_task a f)" "quiet (kill w a)" "quiet (delayMe w a d)"
    "quiet (startNonRecursiveTask w pc l)" "quiet (out e)" "quiet (pause a)"
proof -
  show n: "quiet (new_task w pc l rv)" for rv
  proof (unfold quiet_def, intro allI)
    fix x
    have "blocks (case free_id x of Some f \<Rightarrow> snd (setFlag (of_nat f) TASK_FLAG 0 x) | None \<Rightarrow> x) = blocks x"
      by (cases "free_id x") (simp_all add: setFlag_keeps)
    then show "blocks (new_task w pc l rv x) = blocks x" by (simp add: new_task_def Let_def)
  qed
  show s: "quiet (set_task a f)" for a f by (rule quiet_same_flags) (simp add: set_task_def)
  show "quiet (kill w a)" using setFlag_keeps [of 0 TASK_FLAG] by (simp add: quiet_def kill_def Let_def)
  show "quiet (delayMe w a d)" by (simp add: delayMe_def s)
  show "quiet (startNonRecursiveTask w pc l)" using n s by (simp add: quiet_def startNonRecursiveTask_def)
  show "quiet (out e)" by (rule quiet_same_flags) (simp add: out_def)
  show "quiet (pause a)" using s by (simp add: quiet_def pause_def)
qed

lemma quiet_handle: "quiet (handleEvent w l i c)"
  unfolding handleEvent_def by (rule quiet_fold) (simp add: quiet_tasks split: prod.split)

lemma quiet_events: "quiet (dcc_event prg w e)" "quiet (layout_event prg w e')" "quiet (blockEvent prg w b l c)"
proof -
  show "quiet (dcc_event prg w e)" by (cases e) (simp_all add: activateEvent_def quiet_handle)
  show "quiet (layout_event prg w e')" by (cases e') (simp_all add: turnoutEvent_def rotateEvent_def quiet_handle)
  show "quiet (blockEvent prg w b l c)" by (simp add: blockEvent_def quiet_handle)
qed

lemma quiet_call: "quiet (call prg w f)"
  using quietD [OF quiet_fold [of "layout_event prg w", OF quiet_events(2)]] quietD [OF quiet_fold [of "dcc_event prg w", OF quiet_events(1)]]
  by (simp add: quiet_def call_def Let_def)

lemma quiet_calls: "quiet (call_dcc prg w f)" "quiet (call_board prg w g)" "quiet (throttle prg w l speed dir)"
    "quiet (write_pin prg w v b)" "quiet (writeAnalogue prg w v val prof dur)" "quiet (resume prg w a)"
proof -
  show "quiet (call_dcc prg w f)" "quiet (call_board prg w g)" "quiet (write_pin prg w v b)" "quiet (writeAnalogue prg w v val prof dur)"
    by (simp_all add: call_dcc_def call_board_def write_pin_def writeAnalogue_def quiet_call)
  show t: "quiet (throttle prg w l speed dir)" for l speed dir by (simp add: throttle_def call_dcc_def quiet_call)
  show "quiet (resume prg w a)" using t by (simp add: quiet_def resume_def Let_def)
qed

lemma quiet_more: "quiet (resume_all prg w as)" "quiet (manageRouteState prg i st)" "quiet (call_prog f)" "quiet (kill_all w)"
proof -
  show "quiet (resume_all prg w as)"
    using quietD [OF quiet_fold [of "resume prg w", OF quiet_calls(6)]] by (simp add: quiet_def resume_all_def)
  show "quiet (manageRouteState prg i st)" by (rule quiet_same_flags) (simp add: manageRouteState_def Let_def out_def)
  have "quiet (\<lambda>x. readLocoCallback cv x)" for cv by (rule quiet_same_flags) (simp add: readLocoCallback_def Let_def)
  then have "quiet (fold (\<lambda>(_, cv). readLocoCallback cv) cs)" for cs :: "(nat \<times> int) list" by (intro quiet_fold) (simp split: prod.split)
  from quietD [OF this] show "quiet (call_prog f)" by (simp add: quiet_def call_prog_def Let_def)
  show "quiet (kill_all w)" using quietD [OF quiet_fold [of "kill w", OF quiet_tasks(3)]] by (simp add: quiet_def kill_all_def)
qed

lemma quiet_flow: "quiet (jump prg w a route)" "quiet (call_route prg w a route q)"
proof -
  show j: "quiet (jump prg w a route)"
    using quietD [OF quiet_tasks(2)] quietD [OF quiet_tasks(3)] by (simp add: quiet_def jump_def Let_def)
  show "quiet (call_route prg w a route q)"
    using quietD [OF quiet_tasks(2)] quietD [OF quiet_tasks(3)] quietD [OF j] by (simp add: quiet_def call_route_def)
qed

definition quiet_opt :: "(exrail \<Rightarrow> exrail option) \<Rightarrow> bool" where
  "quiet_opt f \<longleftrightarrow> (\<forall>x y. f x = Some y \<longrightarrow> blocks y = blocks x)"

lemma quiet_opt_bind: "quiet_opt f \<Longrightarrow> quiet_opt g \<Longrightarrow> quiet_opt (\<lambda>x. Option.bind (f x) g)"
  unfolding quiet_opt_def bind_eq_Some_conv by metis

lemma quiet_opt_map: "quiet_opt f \<Longrightarrow> quiet g \<Longrightarrow> quiet_opt (\<lambda>x. map_option g (f x))"
  by (auto simp: quiet_opt_def quiet_def)

lemma quiet_opt_after: "quiet f \<Longrightarrow> quiet_opt g \<Longrightarrow> quiet_opt (\<lambda>x. g (f x))"
  unfolding quiet_opt_def quiet_def by metis

lemma quiet_opt_Some: "quiet f \<Longrightarrow> quiet_opt (\<lambda>x. Some (f x))"
  by (simp add: quiet_opt_def quiet_def)

lemma quiet_opt_if: "quiet_opt f \<Longrightarrow> quiet_opt g \<Longrightarrow> quiet_opt (\<lambda>x. if b then f x else g x)"
  by (cases b) simp_all

lemma quiet_killBlink: "quiet_opt (killBlinkOnVpin prg w v n)"
proof -
  let ?P = "\<lambda>w p q stop b x y. blocks y = blocks x"
  have step: "?P w p q stop b x y"
    if IH: "\<And>w p q stop b x y. f w p q stop b x = Some y \<Longrightarrow> ?P w p q stop b x y"
      and body: "(case next_task b x of None \<Rightarrow> None
        | Some n \<Rightarrow> let x = if is_blinking p q (tasks x b) then kill w b x else x in if n = stop then Some x else f w p q stop n x) = Some y"
    for f w p q stop b x y
  proof -
    let ?x = "if is_blinking p q (tasks x b) then kill w b x else x"
    have x: "blocks ?x = blocks x" using quietD [OF quiet_tasks(3)] by simp
    obtain n where "n = stop \<and> y = ?x \<or> f w p q stop n ?x = Some y"
      using body by (auto simp: Let_def split: option.splits if_splits)
    with IH [of w p q stop n ?x y] x show ?thesis by auto
  qed
  have "blocks y = blocks x" if "kill_blink_loop w p q stop b x = Some y" for w p q stop b x y
    by (rule kill_blink_loop.raw_induct [where P = ?P and xa = "(((((w, p), q), stop), b), x)" and y = y, unfolded prod.case])
      (rule step, assumption+, rule that)
  then show ?thesis by (auto simp: quiet_opt_def killBlinkOnVpin_def split: if_splits list.splits)
qed

lemma quiet_lamps: "quiet_opt (set_lamps prg w rag s)"
proof -
  have "quiet_opt (set_lamp prg w h v b)" for h v b
    unfolding set_lamp_def [abs_def] by (intro quiet_opt_if quiet_opt_map quiet_killBlink quiet_calls quiet_opt_Some) simp
  then show ?thesis unfolding set_lamps_def Let_def by (intro quiet_opt_bind)
qed

lemma quiet_pins: "quiet_opt (set_pins prg w b n v)"
proof (induction n arbitrary: v)
  case (Suc n)
  from quiet_opt_bind [OF quiet_killBlink quiet_opt_after [OF quiet_calls(4) Suc.IH]] show ?case by simp
qed (simp add: quiet_opt_def)

lemma quiet_signal:
  assumes "\<not> bit rag 7"
  shows "quiet_opt (doSignal prg w i rag)"
proof -
  have f: "quiet (\<lambda>x. snd (setFlag sl rag SIGNAL_MASK x))" for sl using setFlag_keeps [OF assms] by (simp add: quiet_def)
  let ?k = "\<lambda>sl x. let s = getSignalSlot prg sl
      in case sigtype s of
           sigtypeSERVO \<Rightarrow> Some (if rag_value rag s \<noteq> 0 then writeAnalogue prg w i (rag_value rag s) 4 0 x else x)
         | sigtypeDCC \<Rightarrow> Some (call_dcc prg w (setAccessory (uint (redpin s)) (ucast (amberpin s)) (rag \<noteq> SIGNAL_RED) 2) x)
         | sigtypeDCCX \<Rightarrow> Some (call_dcc prg w (\<lambda>d. snd (setExtendedAccessory (sint i) (sint (rag_value rag s)) 3 d)) x)
         | sigtypeNEOPIXEL \<Rightarrow> Some (writeAnalogue prg w i (rag_value rag s) 1 (rag_value rag (getSignalSlot prg (sl + 1))) x)
         | sigtypeSIGNAL \<Rightarrow> set_lamps prg w rag s x
         | sigtypeSIGNALH \<Rightarrow> set_lamps prg w rag s x
         | _ \<Rightarrow> Some x"
  have "quiet_opt (?k sl)" for sl
    unfolding Let_def by (cases "sigtype (getSignalSlot prg sl)") (auto intro!: quiet_opt_Some quiet_lamps quiet_calls quiet_if)
  from quiet_opt_after [OF f this] have "quiet_opt (\<lambda>x. case find_signal prg i of None \<Rightarrow> Some x | Some sl \<Rightarrow> ?k sl (snd (setFlag (of_nat sl) rag SIGNAL_MASK x)))"
    by (cases "find_signal prg i") (simp_all add: quiet_opt_Some)
  from quiet_opt_after [OF quiet_handle this] show ?thesis
    unfolding doSignal_def Let_def by (intro quiet_opt_if quiet_opt_Some) simp_all
qed

section \<open>Instructions that leave blocks alone\<close>

definition quiet_exec :: "exrail \<Rightarrow> exec \<Rightarrow> bool" where
  "quiet_exec x r \<longleftrightarrow> (\<forall>oc y. r = Done oc y \<longrightarrow> blocks y = blocks x)"

lemma quiet_exec_if: "(b \<Longrightarrow> quiet_exec x r) \<Longrightarrow> (\<not> b \<Longrightarrow> quiet_exec x s) \<Longrightarrow> quiet_exec x (if b then r else s)"
  by simp

lemma quiet_exec_Done: "blocks y = blocks x \<Longrightarrow> quiet_exec x (Done oc y)"
  by (simp add: quiet_exec_def)

lemma quiet_exec_rest: "quiet_exec x Fault" "quiet_exec x NotMine"
  by (simp_all add: quiet_exec_def)

lemma quiet_exec_skip: "blocks y = blocks x \<Longrightarrow> quiet_exec x (skip_unless b y)"
  by (simp add: quiet_exec_def skip_unless_def)

lemma quiet_exec_some: "quiet_opt f \<Longrightarrow> quiet_exec x (next_if_some (f x))"
  by (auto simp: quiet_exec_def next_if_some_def quiet_opt_def split: option.splits)

lemma quiet_exec_case: "blocks y = blocks x \<Longrightarrow> (\<And>z. blocks (f z) = blocks x) \<Longrightarrow>
    quiet_exec x (case r of None \<Rightarrow> Done oc y | Some z \<Rightarrow> Done oc' (f z))"
  by (auto simp: quiet_exec_def split: option.splits)

lemma blocks_if: "(b \<Longrightarrow> blocks y = c) \<Longrightarrow> (\<not> b \<Longrightarrow> blocks z = c) \<Longrightarrow> blocks (if b then y else z) = c"
  by simp

lemmas quiet_rules = quiet_tasks [THEN quietD] quiet_calls [THEN quietD] quiet_call [THEN quietD] quiet_more [THEN quietD]
  quiet_flow [THEN quietD] quiet_fold [OF quiet_tasks(6), THEN quietD] setFlag_keeps

lemmas quiet_intros = quiet_exec_if quiet_exec_Done quiet_exec_rest quiet_exec_skip quiet_exec_case blocks_if

lemma quiet_groups:
  "quiet_exec x (exec_points prg w a opc ops x)"
  "quiet_exec x (exec_loco prg w a opc ops x)"
  "quiet_exec x (exec_functions prg w a opc ops x)"
  "quiet_exec x (exec_waits prg w a opc ops x)"
  "quiet_exec x (exec_ifs prg w a opc ops x)"
  "quiet_exec x (exec_tracks prg w a opc ops x)"
  "quiet_exec x (exec_stash prg w a opc ops x)"
  unfolding exec_points_def exec_loco_def exec_functions_def exec_waits_def exec_ifs_def exec_tracks_def exec_stash_def Let_def
  by (intro quiet_intros; simp add: quiet_rules)+

lemma quiet_exec_pins: "quiet_exec x (exec_pins prg w a opc ops x)"
proof -
  have "quiet (start_blink w v p)" for v p using quietD [OF quiet_tasks(1)] quietD [OF quiet_tasks(2)] by (simp add: quiet_def start_blink_def)
  then show ?thesis
    unfolding exec_pins_def Let_def
    by (intro quiet_exec_if quiet_exec_rest quiet_exec_some quiet_pins quiet_opt_map quiet_killBlink quiet_tasks)
      (simp_all add: quiet_exec_def quiet_rules)
qed

lemma quiet_exec_signals: "quiet_exec x (exec_signals prg w a opc ops x)"
proof -
  have s: "blocks y = blocks x" if "signalAspectEvent prg w i v x = Some (b, y)" for i v b y
    using that quiet_signal [of SIGNAL_RED prg w i] quiet_signal [of SIGNAL_AMBER prg w i] quiet_signal [of SIGNAL_GREEN prg w i]
    by (auto simp: signalAspectEvent_def Let_def quiet_opt_def split: if_splits option.splits)
  have "quiet_exec x (case signalAspectEvent prg w i v x of None \<Rightarrow> Fault
      | Some (True, x) \<Rightarrow> Done Next x | Some (False, x) \<Rightarrow> Done Next (call_dcc prg w f x))" for i v f
    using s by (auto simp: quiet_exec_def quiet_rules split: option.splits bool.splits)
  then show ?thesis
    unfolding exec_signals_def Let_def by (intro quiet_exec_if quiet_exec_rest quiet_exec_some quiet_signal) simp_all
qed

lemma quiet_exec_flow: "quiet_exec x (exec_flow prg w a opc ops x)"
proof -
  have s: "quiet_exec x (started x (map_option f (start_task prg w r l rv x)))" if "quiet f" for f r l rv
    using quietD [OF that] by (auto simp: quiet_exec_def started_def start_task_def Let_def quiet_rules split: option.splits if_splits)
  have t: "quiet_exec x (started x (start_task prg w r l rv x))" for r l rv using s [OF quiet_id(1)] by (simp add: option.map_id)
  have "blocks (case callStack (tasks x a) of [] \<Rightarrow> kill w a x | r # rs \<Rightarrow> set_task a (f r rs) x) = blocks x" for f
    by (simp add: quiet_rules split: list.split)
  then show ?thesis
    unfolding exec_flow_def Let_def
    by (intro quiet_intros s t quiet_tasks) (simp_all add: quiet_rules)
qed

section \<open>Mutual exclusion\<close>

text \<open>The instruction that a turn of task \<open>a\<close> executes, with its first operand, and the one that a turn of the loop executes.\<close>

definition instruction_of :: "program \<Rightarrow> world \<Rightarrow> addr \<Rightarrow> exrail \<Rightarrow> (byte \<times> u16) option" where
  "instruction_of prg w a x =
    (let t = tasks x a; code = RouteCode prg; pc = nat (progCounter t)
     in if delayTime t \<noteq> 0 \<and> millis w - delayStart t < delayTime t then None
        else if feature prg FEATURE_BLINK \<and> blinks t then None
        else Some (GET_OPCODE code pc, getOperand code pc 0))"

definition executes :: "program \<Rightarrow> world \<Rightarrow> exrail \<Rightarrow> (byte \<times> u16) option" where
  "executes prg w x =
    (let x = (if feature prg FEATURE_SENSOR then checkAllE w x else x)
     in case rotate1 (ring_of x) of
          [] \<Rightarrow> None
        | a # _ \<Rightarrow> if pausingTask x = None \<or> pausingTask x = Some a then instruction_of prg w a x else None)"

text \<open>The task whose turn it is, with its program counter.\<close>

definition acting :: "program \<Rightarrow> world \<Rightarrow> exrail \<Rightarrow> (addr \<times> int) option" where
  "acting prg w x =
    (let x = (if feature prg FEATURE_SENSOR then checkAllE w x else x)
     in case rotate1 (ring_of x) of
          [] \<Rightarrow> None
        | a # _ \<Rightarrow> if pausingTask x = None \<or> pausingTask x = Some a then Some (a, progCounter (tasks x a)) else None)"

lemma chain_Done: "foldr or_else rs z = Done oc y \<Longrightarrow> Done oc y \<in> set rs \<or> z = Done oc y"
proof (induction rs)
  case (Cons r rs)
  then show ?case by (cases r) (auto simp: or_else_def)
qed simp

lemma instr_blocks:
  assumes "messages_ok msg" "exec_instr msg prg w a opc ops x = Done oc y" "blocks y \<noteq> blocks x"
  shows "exec_blocks prg w a opc ops x = Done oc y"
proof -
  let ?last = "if opc = OPCODE_IFLOCO \<or> opc = OPCODE_PRINT then (let (skip, x) = msg (ops 0) a x in skip_unless (\<not> skip) x)
     else if opc \<in> ignored then Done Next x else Fault"
  obtain u es where "snd (msg (ops 0) a x) = x\<lparr>yard_of := u, outs := es\<rparr>" using assms(1) unfolding messages_ok_def by blast
  then have "blocks (snd (msg (ops 0) a x)) = blocks x" by (simp add: blocks_def)
  then have l: "quiet_exec x ?last"
    by (cases "msg (ops 0) a x") (auto simp: quiet_exec_def skip_unless_def)
  let ?groups = "[exec_points prg w a opc ops x, exec_loco prg w a opc ops x, exec_functions prg w a opc ops x,
     exec_blocks prg w a opc ops x, exec_waits prg w a opc ops x, exec_ifs prg w a opc ops x, exec_pins prg w a opc ops x,
     exec_signals prg w a opc ops x, exec_tracks prg w a opc ops x, exec_stash prg w a opc ops x, exec_flow prg w a opc ops x]"
  have n: "\<not> quiet_exec x (Done oc y)" using assms(3) by (simp add: quiet_exec_def)
  have "foldr or_else ?groups ?last = Done oc y" using assms(2) by (simp add: exec_instr_def)
  then have "Done oc y \<in> set ?groups" using chain_Done l n by metis
  moreover have "r = exec_blocks prg w a opc ops x \<or> quiet_exec x r" if "r \<in> set ?groups" for r
    using that quiet_groups [of x prg w a opc ops] quiet_exec_pins [of x prg w a opc ops] quiet_exec_signals [of x prg w a opc ops]
      quiet_exec_flow [of x prg w a opc ops] unfolding list.set insert_iff empty_iff by metis
  ultimately show ?thesis using n by metis
qed

lemma finish_blocks:
  assumes "finish_op code w a r = Some y"
  shows "\<exists>oc z. r = Done oc z \<and> blocks y = blocks z"
  using assms by (cases r) (auto simp: finish_op_def quiet_rules split: outcome.splits skip_result.splits)

lemma loop2_blocks:
  assumes "messages_ok msg" "loop2 msg prg w a x = Some y" "blocks y \<noteq> blocks x"
  shows "\<exists>opc ops oc z. instruction_of prg w a x = Some (opc, ops 0) \<and> exec_blocks prg w a opc ops x = Done oc z \<and> blocks y = blocks z"
proof -
  let ?t = "tasks x a" and ?code = "RouteCode prg"
  let ?ops = "getOperand ?code (nat (progCounter ?t))"
  have b: "blocks (blink_step prg w a ops x) = blocks x" for ops by (simp add: blink_step_def Let_def quiet_rules)
  have n: "\<not> (delayTime ?t \<noteq> 0 \<and> millis w - delayStart ?t < delayTime ?t)" using assms(2,3) by (auto simp: loop2_def Let_def)
  moreover have m: "\<not> (feature prg FEATURE_BLINK \<and> (blinkState ?t = blink_low \<or> blinkState ?t = blink_high))"
    using assms(2,3) n b unfolding loop2_def Let_def by (auto split: if_splits)
  ultimately have "finish_op ?code w a (exec_instr msg prg w a (GET_OPCODE ?code (nat (progCounter ?t))) ?ops x) = Some y"
    using assms(2) unfolding loop2_def Let_def by (auto split: if_splits)
  from finish_blocks [OF this] obtain oc z
    where z: "exec_instr msg prg w a (GET_OPCODE ?code (nat (progCounter ?t))) ?ops x = Done oc z" "blocks y = blocks z" by blast
  moreover have "instruction_of prg w a x = Some (GET_OPCODE ?code (nat (progCounter ?t)), ?ops 0)"
    using n m unfolding instruction_of_def Let_def blinks_def by auto
  ultimately show ?thesis using instr_blocks [OF assms(1) z(1)] assms(3) by auto
qed

lemma set_again: "reserved b x \<Longrightarrow> length (eflags x) = MAX_FLAGS \<Longrightarrow> blocks (snd (setFlag b SECTION_FLAG 0 x)) = blocks x"
  by (simp add: setFlag_blocks reserved_blocks list_update_same_conv)

lemma exec_blocks_effect:
  assumes "exec_blocks prg w a opc ops x = Done oc z" "length (eflags x) = MAX_FLAGS"
  shows "blocks z =
    (if opc = OPCODE_RESERVE \<or> opc = OPCODE_IFRESERVE then blocks (snd (setFlag (ops 0) SECTION_FLAG 0 x))
     else if opc = OPCODE_FREE then blocks (snd (setFlag (ops 0) 0 SECTION_FLAG x))
     else if opc = OPCODE_FREEALL then blocks (freeAll x)
     else blocks x)"
proof -
  have again: "getFlag (ops 0) SECTION_FLAG x \<Longrightarrow> blocks (snd (setFlag (ops 0) SECTION_FLAG 0 x)) = blocks x"
    using set_again [OF _ assms(2)] by (simp add: reserved_def)
  consider "opc = OPCODE_RESERVE" | "opc = OPCODE_IFRESERVE" | "opc = OPCODE_FREE" | "opc = OPCODE_FREEALL" | "opc = OPCODE_LATCH"
    | "opc = OPCODE_UNLATCH" | "opc \<notin> set block_ops" unfolding block_ops_def by auto
  then show ?thesis
  proof cases
    case 1
    then show ?thesis using assms(1) again by (auto simp: exec_blocks_def Let_def quiet_rules split: if_splits)
  next
    case 2
    then show ?thesis using assms(1) again by (auto simp: exec_blocks_def Let_def split: if_splits)
  next
    case 7
    then show ?thesis using assms(1) by (simp add: exec_blocks_def block_ops_def Let_def)
  qed (use assms(1) in \<open>auto simp: exec_blocks_def Let_def setFlag_keeps\<close>)
qed

lemma exec_blocks_frees:
  assumes "exec_blocks prg w a opc ops x = Done oc z" "reserved b x" "\<not> blocks z ! unat b" "length (eflags x) = MAX_FLAGS"
  shows "opc = OPCODE_FREE \<and> ops 0 = b \<or> opc = OPCODE_FREEALL"
proof (rule ccontr)
  assume c: "\<not> ?thesis"
  have b: "unat b < MAX_FLAGS" "blocks x ! unat b" using assms(2,4) by (simp_all add: reserved_blocks)
  have keep: "blocks (snd (setFlag i m n x)) ! unat b" if "\<not> bit n 7 \<or> i \<noteq> b" for i m n
  proof -
    have "bit (eflags x ! unat b) 7" using b assms(4) by (simp add: blocks_def)
    then show ?thesis using that b assms(4) by (cases "unat i = unat b") (auto simp: setFlag_blocks word_unat_eq_iff)
  qed
  have "blocks z ! unat b" using exec_blocks_effect [OF assms(1,4)] c b keep by (auto split: if_splits)
  with assms(3) show False by simp
qed

lemma checkAllE_blocks: "blocks (checkAllE w x) = blocks x"
proof -
  have c: "blocks (snd (check_esensor w i x)) = blocks x" for i x
    unfolding check_esensor_def Let_def by (simp add: quiet_rules)
  have "blocks (scan_esensors w n x) = blocks x" for n x
  proof (induction n arbitrary: x)
    case (Suc n)
    show ?case
    proof (cases "readingESensor x")
      case (Some i)
      then show ?thesis using c [of i x] Suc.IH by (cases "check_esensor w i x") (simp add: Let_def)
    qed simp
  qed simp
  then show ?thesis by (simp add: checkAllE_def)
qed

text \<open>A turn of the loop as a turn of one task.\<close>

lemma rotate_inv: "exrail_inv prg (x\<lparr>ring_of := rotate1 (ring_of x)\<rparr>) = exrail_inv prg x"
  by (simp add: exrail_inv_def)

lemma turn_cases:
  assumes "exrail_inv prg x" "messages_ok msg" "rmft_loop msg prg w x = Some y"
  obtains "blocks y = blocks x" "executes prg w x = None"
  | z a where "blocks z = blocks x" "length (eflags z) = MAX_FLAGS" "loop2 msg prg w a z = Some y" "executes prg w x = instruction_of prg w a z"
      "exrail_inv prg z" "a \<in> set (ring_of z)" "acting prg w x = Some (a, progCounter (tasks z a))"
proof -
  let ?x = "if feature prg FEATURE_SENSOR then checkAllE w x else x"
  have i: "exrail_inv prg ?x" using checkAllE_inv assms(1) by simp
  have b: "blocks ?x = blocks x" by (simp add: checkAllE_blocks)
  show thesis
  proof (cases "ring_of ?x")
    case Nil
    then have "y = ?x" "executes prg w x = None" using assms(3) by (simp_all add: rmft_loop_def executes_def Let_def)
    with b that(1) show thesis by simp
  next
    case (Cons c cs)
    let ?z = "?x\<lparr>ring_of := rotate1 (ring_of ?x)\<rparr>"
    let ?a = "hd (rotate1 (ring_of ?x))"
    obtain a as where r: "rotate1 (ring_of ?x) = a # as" using Cons by (cases "rotate1 (ring_of ?x)") auto
    have e: "executes prg w x = (if pausingTask ?x = None \<or> pausingTask ?x = Some a then instruction_of prg w a ?x else None)"
      unfolding executes_def Let_def r by simp
    have l: "rmft_loop msg prg w x = (if pausingTask ?x = None \<or> pausingTask ?x = Some a then loop2 msg prg w a ?z else Some ?z)"
      using r Cons unfolding rmft_loop_def Let_def by simp
    have c: "acting prg w x = (if pausingTask ?x = None \<or> pausingTask ?x = Some a then Some (a, progCounter (tasks ?x a)) else None)"
      unfolding acting_def Let_def r by simp
    have v: "exrail_inv prg ?z" "a \<in> set (ring_of ?z)" using i r rotate_inv [of prg ?x] by simp_all
    have o: "instruction_of prg w a ?z = instruction_of prg w a ?x" by (simp add: instruction_of_def)
    have n: "length (eflags ?z) = MAX_FLAGS" using i by (simp add: exrail_inv_def)
    show thesis
    proof (cases "pausingTask ?x = None \<or> pausingTask ?x = Some a")
      case True
      with e l o c v that(2) [of ?z a] b n assms(3) show thesis by simp
    next
      case False
      with e l that(1) b assms(3) show thesis by auto
    qed
  qed
qed

lemma inv_length: "exrail_inv prg x \<Longrightarrow> length (eflags x) = MAX_FLAGS"
  by (simp add: exrail_inv_def)

lemma turn_frees:
  assumes "exrail_inv prg x" "messages_ok msg" "rmft_loop msg prg w x = Some y" "exrail_inv prg y" "reserved b x" "\<not> reserved b y"
  shows "executes prg w x = Some (OPCODE_FREE, b) \<or> (\<exists>n. executes prg w x = Some (OPCODE_FREEALL, n))"
proof -
  have x: "unat b < MAX_FLAGS" "blocks x ! unat b" using assms(1,5) by (simp_all add: reserved_blocks inv_length)
  then have y: "\<not> blocks y ! unat b" using assms(4,6) by (simp add: reserved_blocks inv_length)
  from assms(1-3) show ?thesis
  proof (cases rule: turn_cases)
    case 1
    then show ?thesis using x y by simp
  next
    case (2 z a)
    then have "blocks y \<noteq> blocks z" using x y by auto
    from loop2_blocks [OF assms(2) 2(3) this] obtain opc ops oc u
      where u: "instruction_of prg w a z = Some (opc, ops 0)" "exec_blocks prg w a opc ops z = Done oc u" "blocks y = blocks u" by blast
    have "reserved b z" using x 2(1,2) by (simp add: reserved_blocks)
    from exec_blocks_frees [OF u(2) this _ 2(2)] y u(1,3) 2(4) show ?thesis by auto
  qed
qed

text \<open>A turn takes block \<open>b\<close> if its task executes RESERVE or IFRESERVE for it and goes on to the instruction behind.\<close>

definition takes :: "program \<Rightarrow> world \<Rightarrow> u16 \<Rightarrow> exrail \<Rightarrow> exrail \<Rightarrow> bool" where
  "takes prg w b x y \<longleftrightarrow>
    (executes prg w x = Some (OPCODE_RESERVE, b) \<or> executes prg w x = Some (OPCODE_IFRESERVE, b)) \<and>
    (\<exists>a pc. acting prg w x = Some (a, pc) \<and> progCounter (tasks y a) = pc + 3)"

lemma exec_reserve:
  assumes "opc = OPCODE_RESERVE \<or> opc = OPCODE_IFRESERVE"
  shows "exec_instr msg prg w a opc ops x = exec_blocks prg w a opc ops x"
proof -
  have "exec_points prg w a opc ops x = NotMine" "exec_loco prg w a opc ops x = NotMine" "exec_functions prg w a opc ops x = NotMine"
    using assms by (elim disjE; simp add: exec_points_def exec_loco_def exec_functions_def Let_def)+
  moreover have "exec_blocks prg w a opc ops x \<noteq> NotMine" using assms not_mine(4) by (auto simp: block_ops_def)
  ultimately show ?thesis unfolding exec_instr_def by (cases "exec_blocks prg w a opc ops x") (simp_all add: or_else_def)
qed

text \<open>What a task does that executes RESERVE or IFRESERVE.\<close>

lemma reserve_turn:
  assumes "loop2 msg prg w a z = Some y" "instruction_of prg w a z = Some (opc, b)" "opc = OPCODE_RESERVE \<or> opc = OPCODE_IFRESERVE"
  obtains ops where "ops 0 = b" "finish_op (RouteCode prg) w a (exec_blocks prg w a opc ops z) = Some y"
    "\<not> (feature prg FEATURE_BLINK \<and> blinks (tasks z a))" "0 \<le> progCounter (tasks z a)"
proof -
  let ?code = "RouteCode prg" and ?pc = "nat (progCounter (tasks z a))"
  have i: "GET_OPCODE ?code ?pc = opc" "getOperand ?code ?pc 0 = b"
    and n: "\<not> (delayTime (tasks z a) \<noteq> 0 \<and> millis w - delayStart (tasks z a) < delayTime (tasks z a))"
      "\<not> (feature prg FEATURE_BLINK \<and> blinks (tasks z a))"
    using assms(2) unfolding instruction_of_def Let_def by (auto split: if_splits)
  have "loop2 msg prg w a z = (if progCounter (tasks z a) < 0 \<or> ?pc + 3 > length ?code then None
      else finish_op ?code w a (exec_instr msg prg w a opc (getOperand ?code ?pc) z))"
    using n i(1) unfolding loop2_def Let_def blinks_def by auto
  then have "finish_op ?code w a (exec_blocks prg w a opc (getOperand ?code ?pc) z) = Some y" "0 \<le> progCounter (tasks z a)"
    using assms(1) exec_reserve [OF assms(3)] by (simp_all split: if_splits)
  with i(2) n(2) that show thesis by blast
qed

lemma turn_takes:
  assumes "exrail_inv prg x" "messages_ok msg" "rmft_loop msg prg w x = Some y" "exrail_inv prg y" "takes prg w b x y" "unat b < MAX_FLAGS"
  shows "reserved b y"
proof -
  obtain opc where opc: "opc = OPCODE_RESERVE \<or> opc = OPCODE_IFRESERVE" "executes prg w x = Some (opc, b)"
    using assms(5) by (auto simp: takes_def)
  from assms(1-3) show ?thesis
  proof (cases rule: turn_cases)
    case 1
    then show ?thesis using opc by simp
  next
    case (2 z a)
    obtain ops where o: "ops 0 = b" "finish_op (RouteCode prg) w a (exec_blocks prg w a opc ops z) = Some y"
      using reserve_turn [OF 2(3) _ opc(1)] 2(4) opc(2) by metis
    from finish_blocks [OF o(2)] obtain oc u where u: "exec_blocks prg w a opc ops z = Done oc u" "blocks y = blocks u" by blast
    have "blocks y ! unat b"
      using exec_blocks_effect [OF u(1) 2(2)] u(2) opc(1) o(1) assms(6) 2(2) by (simp add: setFlag_blocks)
    then show ?thesis using assms(4,6) by (simp add: reserved_blocks inv_length)
  qed
qed

lemma skip_once:
  "skip_loop code nest pc =
    (if nest = 0 then Skipped pc else if pc + 3 \<ge> length code then OffEnd
     else if GET_OPCODE code (pc + 3) > IF_TYPE_OPCODES then skip_loop code (nest + 1) (pc + 3)
     else if GET_OPCODE code (pc + 3) = OPCODE_ENDEXRAIL then MissingEndif (pc + 3)
     else skip_loop code (if GET_OPCODE code (pc + 3) = OPCODE_ENDIF then nest - 1
       else if GET_OPCODE code (pc + 3) = OPCODE_ELSE then (if nest = 1 then 0 else nest) else nest) (pc + 3))"
  by (subst skip_loop.simps) (simp add: Let_def)

lemma skip_le: "skip_loop code nest pc = Skipped p \<Longrightarrow> pc \<le> p"
proof (induction "length code - pc" arbitrary: nest pc rule: less_induct)
  case less
  have "pc + 3 \<le> p" if "\<not> length code \<le> pc + 3" "skip_loop code n (pc + 3) = Skipped p" for n
    using less.hyps [of "pc + 3" n] that by simp
  with less.prems [unfolded skip_once [of code nest pc]] show ?case by (fastforce split: if_splits)
qed

lemma skip_moves: "skip_loop code nest pc = Skipped p \<Longrightarrow> 0 < nest \<Longrightarrow> pc < p"
  using skip_le [of code _ "pc + 3" p] unfolding skip_once [of code nest pc] by (fastforce split: if_splits)

lemma kill_tasks: "tasks (kill w a x) = tasks x"
  by (simp add: kill_def setFlag_def Let_def)

text \<open>A task that finds the block reserved does not get past the instruction.\<close>

lemma reserved_held:
  assumes "wf_program prg" "running prg a pc z" "reserved (ops 0) z" "0 \<le> pc" "opc = OPCODE_RESERVE \<or> opc = OPCODE_IFRESERVE"
    and "finish_op (RouteCode prg) w a (exec_blocks prg w a opc ops z) = Some y"
  shows "progCounter (tasks y a) \<noteq> pc + 3"
  using assms(5)
proof
  assume opc: "opc = OPCODE_RESERVE"
  let ?l = "t_loco (tasks z a)"
  let ?z = "if ?l \<noteq> 0 then throttle prg w ?l 1 (direction_of ?l z) z else z"
  have "running prg a pc (delayMe w a 500 ?z)"
    using assms(2) by (intro benign_running [OF benign_delayMe]) (simp add: benign_running [OF benign_calls(3) [OF assms(1)]])
  moreover have "y = delayMe w a 500 ?z"
    using assms(3,6) by (simp add: opc exec_blocks_def finish_op_def reserved_def Let_def)
  ultimately show ?thesis by (simp add: running_def)
next
  assume opc: "opc = OPCODE_IFRESERVE"
  have "finish_op (RouteCode prg) w a (Done SkipIf z) = Some y"
    using assms(3,6) by (simp add: opc exec_blocks_def reserved_def Let_def)
  moreover have "pc < int p" if "skipIfBlock (RouteCode prg) (nat pc) = Skipped p" for p
    using skip_moves [of "RouteCode prg" 1 "nat pc" p] that assms(4) by (simp add: skipIfBlock_def)
  ultimately show ?thesis using assms(2)
    by (auto simp: finish_op_def running_def set_task_def kill_tasks split: skip_result.splits)
qed

lemma takes_free:
  assumes "wf_program prg" "exrail_inv prg x" "messages_ok msg" "rmft_loop msg prg w x = Some y" "takes prg w b x y"
  shows "\<not> reserved b x"
proof
  assume r: "reserved b x"
  obtain opc a pc where t: "opc = OPCODE_RESERVE \<or> opc = OPCODE_IFRESERVE" "executes prg w x = Some (opc, b)"
    "acting prg w x = Some (a, pc)" "progCounter (tasks y a) = pc + 3" using assms(5) by (auto simp: takes_def)
  from assms(2-4) show False
  proof (cases rule: turn_cases)
    case 1
    then show False using t(2) by simp
  next
    case (2 z c)
    then have c: "c = a" "progCounter (tasks z a) = pc" using t(3) by simp_all
    obtain ops where o: "ops 0 = b" "finish_op (RouteCode prg) w a (exec_blocks prg w a opc ops z) = Some y"
      "\<not> (feature prg FEATURE_BLINK \<and> blinks (tasks z a))" "0 \<le> pc"
      using reserve_turn [OF 2(3) _ t(1)] 2(4) t(2) c by metis
    have "running prg a pc z" using 2(5,6) o(3) c by (simp add: running_def)
    moreover have "reserved (ops 0) z" using r 2(1,2) assms(2) o(1) by (simp add: reserved_blocks inv_length)
    ultimately show False using reserved_held [OF assms(1) _ _ o(4) t(1) o(2)] t(4) by simp
  qed
qed

text \<open>
  C4: a block belongs to one task at a time. Take any run of the loop from a reachable state, where before
  each turn the rest of the station may have worked on its state and raised events. If in one turn a task gets past
  a RESERVE or IFRESERVE of a block to the instruction behind it, and in a later turn this or another task does so, then in a turn
  between them a task executed FREE for this block, or FREEALL. Until then every task that reaches RESERVE waits, and
  every one that reaches IFRESERVE skips what it guards.
\<close>

theorem block_exclusive:
  assumes "wf_program prg" "messages_ok msg" "exrail_reach msg prg (xs 0)"
    and run: "\<And>k. k \<le> j \<Longrightarrow> rmft_loop msg prg (ws k) (call prg (vs k) (fs k) (xs k)) = Some (xs (Suc k))"
    and "i < j" "unat b < MAX_FLAGS"
    and "takes prg (ws i) b (call prg (vs i) (fs i) (xs i)) (xs (Suc i))" "takes prg (ws j) b (call prg (vs j) (fs j) (xs j)) (xs (Suc j))"
  shows "\<exists>k. i < k \<and> k < j \<and>
    (executes prg (ws k) (call prg (vs k) (fs k) (xs k)) = Some (OPCODE_FREE, b) \<or>
     (\<exists>n. executes prg (ws k) (call prg (vs k) (fs k) (xs k)) = Some (OPCODE_FREEALL, n)))"
proof -
  let ?x = "\<lambda>k. call prg (vs k) (fs k) (xs k)"
  have "k \<le> Suc j \<Longrightarrow> exrail_reach msg prg (xs k)" for k
  proof (induction k)
    case (Suc k)
    then show ?case using run [of k] by (auto intro: exrail_reach.turn exrail_reach.station)
  qed (simp add: assms(3))
  then have inv: "exrail_inv prg (xs k)" "exrail_inv prg (?x k)" if "k \<le> Suc j" for k
    using exrail_reach_inv [OF assms(1,2)] exrail_reach.station that by blast+
  have same: "reserved b (?x k) = reserved b (xs k)" if "k \<le> Suc j" for k
    using inv [OF that] quietD [OF quiet_call] by (simp add: reserved_blocks inv_length)
  have first: "reserved b (xs (Suc i))"
    by (rule turn_takes [OF _ assms(2) run _ assms(7,6)]) (use inv assms(5) in auto)
  have "\<not> reserved b (?x j)" by (rule takes_free [OF assms(1) _ assms(2) run assms(8)]) (use inv in auto)
  then have last: "\<not> reserved b (xs j)" using same [of j] by simp
  let ?n = "LEAST n. \<not> reserved b (xs (Suc i + n))"
  have ex: "\<not> reserved b (xs (Suc i + (j - Suc i)))" using last assms(5) by simp
  have n: "\<not> reserved b (xs (Suc i + ?n))" "?n \<le> j - Suc i" by (rule LeastI [of _ "j - Suc i"], rule ex) (rule Least_le, rule ex)
  have "?n \<noteq> 0" using n(1) first by (metis add_0_right)
  then obtain m where m: "?n = Suc m" by (cases ?n) auto
  then have "reserved b (xs (Suc i + m))" using not_less_Least [of m "\<lambda>n. \<not> reserved b (xs (Suc i + n))"] by auto
  let ?k = "Suc i + m"
  have k: "?k < j" using n(2) m assms(5) by linarith
  have "\<not> reserved b (xs (Suc ?k))" using n(1) m by simp
  moreover have "reserved b (?x ?k)" using same [of ?k] \<open>reserved b (xs ?k)\<close> k by simp
  ultimately have "executes prg (ws ?k) (?x ?k) = Some (OPCODE_FREE, b) \<or> (\<exists>n. executes prg (ws ?k) (?x ?k) = Some (OPCODE_FREEALL, n))"
    using turn_frees [OF inv(2) assms(2) run inv(1)] k by auto
  then show ?thesis using k by (intro exI [of _ ?k]) simp
qed

text \<open>A task that takes a block, frees it and takes it again.\<close>

definition block_code :: "byte list" where
  "block_code = [OPCODE_AUTOSTART, 0, 0, OPCODE_RESERVE, 3, 0, OPCODE_FREE, 3, 0, OPCODE_RESERVE, 3, 0, OPCODE_ENDTASK, 0, 0,
     OPCODE_ENDEXRAIL, 0, 0]"

abbreviation block_program :: program where "block_program \<equiv> demo_program block_code 0"

definition block_flags :: "nat \<Rightarrow> byte list" where
  "block_flags k = (replicate 256 0)[0 := 0x20, 3 := (if k = 2 \<or> k = 4 then 0x80 else 0)]"

definition block_state :: "nat \<Rightarrow> exrail" where
  "block_state k = (new_exrail demo_yard 0)\<lparr>ring_of := [2], tasks := (\<lambda>_. undefined)(2 := demo_task\<lparr>progCounter := 3 * int k\<rparr>), fresh := 3,
     eflags := block_flags k\<rparr>"

definition no_devices :: devices where
  "no_devices = \<lparr>device_exists = (\<lambda>_. False), device_failed = (\<lambda>_. False)\<rparr>"

lemma block_wf: "wf_program block_program"
  by code_simp

lemma block_begin: "exrail_begin block_program demo_world no_devices (new_exrail demo_yard 0) = Some (block_state 0)"
proof -
  have p: "places block_code = [0, 3, 6, 9, 12]" by code_simp
  have r: "length (routeLookup block_code) = 0" by code_simp
  have f: "eflags x = replicate 256 0 \<Longrightarrow> free_id x = Some 0" for x
    by (simp add: free_id_def upt_conv_Cons getFlag_def del: upt_Suc)
  have u: "(replicate 256 0)[0 := (0x20 :: byte)] = block_flags 0"
    unfolding block_flags_def by (rule sym) (simp add: list_update_same_conv)
  have c: "RouteCode block_program = block_code" "\<not> feature block_program m" for m by (simp_all add: demo_program_def feature_def)
  have g: "GET_OPCODE block_code 0 = OPCODE_AUTOSTART" "GET_OPCODE block_code 3 = OPCODE_RESERVE" "GET_OPCODE block_code 6 = OPCODE_FREE"
    "GET_OPCODE block_code 9 = OPCODE_RESERVE" "GET_OPCODE block_code 12 = OPCODE_ENDTASK"
    by (simp_all add: GET_OPCODE_def block_code_def)
  have o: "begin_op block_program demo_world no_devices 0 x = new_task demo_world 0 0 False x"
    "begin_op block_program demo_world no_devices 3 x = x" "begin_op block_program demo_world no_devices 6 x = x"
    "begin_op block_program demo_world no_devices 9 x = x" "begin_op block_program demo_world no_devices 12 x = x" for x
    by (simp_all add: begin_op_def c g Let_def)
  show ?thesis
    by (simp add: exrail_begin_def c Let_def p r o)
      (simp add: new_task_def Let_def f setFlag_def block_state_def new_exrail_def demo_world_def demo_task_def u)
qed

lemmas step_defs = rmft_loop_def loop2_def finish_op_def exec_instr_def or_else_def exec_points_def exec_loco_def exec_functions_def
  exec_blocks_def exec_waits_def exec_ifs_def exec_pins_def exec_signals_def exec_tracks_def exec_stash_def exec_flow_def ignored_def
  feature_def demo_program_def Let_def set_task_def

lemmas demo_defs = block_state_def block_code_def GET_OPCODE_def getOperand_def new_exrail_def demo_task_def demo_world_def block_flags_def
  getFlag_def setFlag_def

lemma block_turn:
  assumes "k \<le> 3"
  shows "rmft_loop demo_messages block_program demo_world (block_state k) = Some (block_state (Suc k))"
proof -
  consider "k = 0" | "k = 1" | "k = 2" | "k = 3" using assms by linarith
  then show ?thesis by cases (simp_all add: step_defs demo_defs)
qed

lemma block_executes: "executes block_program demo_world (block_state 1) = Some (OPCODE_RESERVE, 3)"
    "executes block_program demo_world (block_state 3) = Some (OPCODE_RESERVE, 3)"
  by (simp_all add: executes_def instruction_of_def feature_def demo_program_def Let_def demo_defs)

lemma call_nothing: "call prg w id x = x"
  by (simp add: call_def Let_def)

theorem block_exclusive_witness:
  "\<exists>k. 1 < k \<and> k < 3 \<and>
    (executes block_program demo_world (block_state k) = Some (OPCODE_FREE, 3) \<or>
     (\<exists>n. executes block_program demo_world (block_state k) = Some (OPCODE_FREEALL, n)))"
proof -
  have t: "takes block_program demo_world 3 (call block_program demo_world id (block_state k)) (block_state (Suc k))" if "k = 1 \<or> k = 3" for k
    using that block_executes by (auto simp: takes_def acting_def feature_def demo_program_def Let_def call_nothing demo_defs)
  show ?thesis
    using block_exclusive [OF block_wf demo_messages_ok, of block_state 3 "\<lambda>_. demo_world" "\<lambda>_. demo_world" "\<lambda>_. id" 1 3,
        OF exrail_reach.start [OF block_begin]] t [of 1] t [of 3] block_turn
    by (simp add: call_nothing)
qed

end
