(* ===== verification/ExrailFaults.thy ===== *)
theory ExrailFaults
  imports ExrailBlocks
begin

text \<open>
  Where EXRAIL does not do what it means to. \<^verbatim>\<open>killBlinkOnVpin\<close> walks the ring of tasks until it comes back to
  the task it started from. Deleting a task moves \<^verbatim>\<open>loopTask\<close> on, so the next call may start from a
  blinking task, delete it, and never come back to it.
\<close>

section \<open>Blinking pins\<close>

text \<open>A walk that has lost its end and finds nothing to delete goes on forever.\<close>

lemma lost_walk:
  assumes "kill_blink_loop w p q stop b x = Some y"
  shows "\<not> (b \<in> set (ring_of x) \<and> distinct (ring_of x) \<and> stop \<notin> set (ring_of x) \<and> (\<forall>c \<in> set (ring_of x). \<not> is_blinking p q (tasks x c)))"
proof -
  let ?P = "\<lambda>w p q stop b x y. \<not> (b \<in> set (ring_of x) \<and> distinct (ring_of x) \<and> stop \<notin> set (ring_of x) \<and>
      (\<forall>c \<in> set (ring_of x). \<not> is_blinking p q (tasks x c)))"
  have step: "?P w p q stop b x y"
    if IH: "\<And>w p q stop b x y. f w p q stop b x = Some y \<Longrightarrow> ?P w p q stop b x y"
      and body: "(case next_task b x of None \<Rightarrow> None
        | Some n \<Rightarrow> let x = if is_blinking p q (tasks x b) then kill w b x else x in if n = stop then Some x else f w p q stop n x) = Some y"
    for f w p q stop b x y
  proof
    assume c: "b \<in> set (ring_of x) \<and> distinct (ring_of x) \<and> stop \<notin> set (ring_of x) \<and> (\<forall>c \<in> set (ring_of x). \<not> is_blinking p q (tasks x c))"
    let ?r = "tl (ring_from b (ring_of x)) @ [b]"
    have n: "next_task b x = Some (hd ?r)" using c by (simp add: next_task_def)
    have "hd ?r \<in> set ?r" by (rule hd_in_set) simp
    then have m: "hd ?r \<in> set (ring_of x)" using c ring_from_set(1) [of b "ring_of x"] by auto
    then have "f w p q stop (hd ?r) x = Some y" using body n c by (auto simp: Let_def split: if_splits)
    from IH [OF this] c m show False by blast
  qed
  show ?thesis
    by (rule kill_blink_loop.raw_induct [where P = ?P and xa = "(((((w, p), q), stop), b), x)" and y = y, unfolded prod.case])
      (rule step, assumption+, rule assms)
qed

text \<open>The call hangs when \<^verbatim>\<open>loopTask\<close> is the task to delete and others remain.\<close>

lemma kill_front_hangs:
  assumes "feature prg FEATURE_BLINK" "ring_of x = b # c # rest" "distinct (ring_of x)" "is_blinking v (v + n - 1) (tasks x b)"
    and "\<forall>d \<in> set (c # rest). \<not> is_blinking v (v + n - 1) (tasks x d)"
  shows "killBlinkOnVpin prg w v n x = None"
proof -
  let ?y = "kill w b x"
  have b: "b \<in> set (ring_of x)" using assms(2) by simp
  have r: "ring_of ?y = c # rest" "tasks ?y = tasks x" using kill_frame(1,2) [OF b assms(3)] assms(2) by (simp_all add: ring_from_def)
  have n: "next_task b x = Some c" using assms(2) by (simp add: next_task_def ring_from_def)
  have d: "c \<noteq> b" using assms(2,3) by auto
  have "kill_blink_loop w v (v + n - 1) b c ?y \<noteq> Some z" for z
    using lost_walk [of w v "v + n - 1" b c ?y z] r assms(2,3,5) by auto
  then have "kill_blink_loop w v (v + n - 1) b c ?y = None" by (meson not_None_eq)
  then have "kill_blink_loop w v (v + n - 1) b b x = None"
    using n d assms(4) by (subst kill_blink_loop.simps) (simp add: Let_def)
  then show ?thesis using assms(1,2) by (simp add: killBlinkOnVpin_def)
qed

lemma slash_words: "hk ''RED'' \<noteq> hk ''PAUSE''" "hk ''RED'' \<noteq> hk ''RESUME''" "hk ''RED'' \<noteq> hk ''FREEALL''" "hk ''RED'' \<noteq> hk ''START''"
    "hk ''RED'' \<noteq> hk ''KILL''" "hk ''RED'' \<noteq> hk ''RESERVE''" "hk ''RED'' \<noteq> hk ''FREE''" "hk ''RED'' \<noteq> hk ''LATCH''" "hk ''RED'' \<noteq> hk ''UNLATCH''"
  by code_simp+

text \<open>
  C18: setting a signal can hang the station. If the task that had its turn last is the one that blinks the red
  lamp of a signal, and other tasks run, then the command \<^verbatim>\<open></ RED id>\<close> does not return: the walk that
  deletes the blinking task waits to come back to it.
\<close>

theorem red_command_hangs:
  assumes "feature prg FEATURE_BLINK" "feature prg FEATURE_SIGNAL"
    and "find_signal prg i = Some sl" "sigtype (getSignalSlot prg sl) = sigtypeSIGNAL" "redpin (getSignalSlot prg sl) \<noteq> 0"
    and "i \<notin> fst ` set (on_lookup prg OPCODE_ONRED)"
    and "ring_of x = b # c # rest" "distinct (ring_of x)"
    and "blinks (tasks x b)" "ucast (timer (tasks x b)) = redpin (getSignalSlot prg sl)"
    and "\<forall>d \<in> set (c # rest). \<not> (blinks (tasks x d) \<and> ucast (timer (tasks x d)) = redpin (getSignalSlot prg sl))"
  shows "parseSlash prg w 2 [hk ''RED'', i] x = None"
proof -
  let ?s = "getSignalSlot prg sl"
  let ?y = "snd (setFlag (of_nat sl) SIGNAL_RED SIGNAL_MASK x)"
  have y: "ring_of ?y = ring_of x" "tasks ?y = tasks x" using core_setFlag [of x "of_nat sl" SIGNAL_RED SIGNAL_MASK] by (simp_all add: same_core_def)
  have bl: "is_blinking v (v + 1 - 1) t \<longleftrightarrow> blinks t \<and> ucast (timer t) = v" for v t by (auto simp: is_blinking_def blinks_def)
  have "killBlinkOnVpin prg w (redpin ?s) 1 ?y = None"
    by (rule kill_front_hangs [where b = b and c = c and rest = rest]) (use assms y in \<open>simp_all only: bl\<close>)
  then have l: "set_lamps prg w SIGNAL_RED ?s ?y = None" using assms(5) by (simp add: set_lamps_def set_lamp_def Let_def)
  have "filter (\<lambda>(k, _). k = i) (on_lookup prg OPCODE_ONRED) = []" using assms(6) by (auto simp: filter_empty_conv image_iff)
  then have "handleEvent w (on_lookup prg OPCODE_ONRED) i 0 x = x" by (simp add: handleEvent_def)
  then have "doSignal prg w i SIGNAL_RED x = None" using assms(2,3,4) l by (simp add: doSignal_def Let_def)
  then show ?thesis by (simp add: parseSlash_def Let_def slash_words)
qed

definition lamp_program :: program where
  "lamp_program = (demo_program [OPCODE_ENDEXRAIL, 0, 0] 0x84)\<lparr>SignalDefinitions :=
     [\<lparr>sigtype = sigtypeSIGNAL, sig_id = 5, redpin = 40, amberpin = 0, greenpin = 41\<rparr>]\<rparr>"

definition lamp_state :: exrail where
  "lamp_state = (new_exrail demo_yard 0)\<lparr>ring_of := [2, 3],
     tasks := (\<lambda>_. demo_task)(2 := demo_task\<lparr>blinkState := blink_low, timer := 40\<rparr>)\<rparr>"

theorem red_command_hangs_witness: "parseSlash lamp_program demo_world 2 [hk ''RED'', 5] lamp_state = None"
proof (rule red_command_hangs [where sl = 0 and b = 2 and c = 3 and rest = "[]"])
  have "on_lookup lamp_program OPCODE_ONRED = []" by code_simp
  then show "5 \<notin> fst ` set (on_lookup lamp_program OPCODE_ONRED)" by simp
qed (simp_all add: feature_def lamp_program_def demo_program_def find_signal_def signal_slots_def getSignalSlot_def lamp_state_def
    demo_task_def blinks_def)

section \<open>Commands and speeds that get lost\<close>

text \<open>
  The commands \<^verbatim>\<open><K block loco>\<close> and \<^verbatim>\<open><k block loco>\<close> never reach EXRAIL: their cases are labels of the inner
  \<^verbatim>\<open>switch\<close> on the first parameter of \<^verbatim>\<open><J ...>\<close>, so it is \<^verbatim>\<open><J K x>\<close> that raises the exit event of block 75.
\<close>

lemma block_command_lost:
  "opc = 0x4B \<or> opc = 0x6B \<Longrightarrow> ComandFilter prg w opc n p x = Some (opc, x)"
  by (elim disjE) (simp_all add: ComandFilter_def Let_def)

text \<open>PAUSE does not save the speeds that RESUME restores: a task that starts a loco, pauses and resumes gives it whatever the memory of the task held.\<close>

lemma new_task_pauseSpeed: "pauseSpeed (tasks (new_task w pc l rv x) (fresh x)) = pauseSpeed (garbage w)"
  by (simp add: new_task_def Let_def)

end
