(* ===== verification/Motors.thy ===== *)
theory Motors
  imports AckManager DccApi
begin

text \<open>
  The output stages of the tracks, \<^verbatim>\<open>src/MotorDriver.cpp\<close> and \<^verbatim>\<open>src/MotorDriver.h\<close>: power, brake,
  signal and the protection against short circuits.

  A driver is a record with the members of the class; the drivers are numbered as the tracks, and
  \<open>shield\<close> holds them with the static member. What the code writes to pins and timers and calls in
  other parts is recorded in order in \<open>touts\<close>. The model is that of the AVR boards, without the
  alternatives for other processors, where an \<^verbatim>\<open>int\<close> has 16 bits; the shadow copies of ports, which
  make several pins change at once, are the pins. \<open>hw\<close> is what one call finds: the time, the level of
  each analogue pin when it is read for the fault check and again for the current, and the fault pins.
\<close>

section \<open>State\<close>

abbreviation TRACK_MODE_NONE :: byte where "TRACK_MODE_NONE \<equiv> 1"
abbreviation TRACK_MODE_MAIN :: byte where "TRACK_MODE_MAIN \<equiv> 2"
abbreviation TRACK_MODE_PROG :: byte where "TRACK_MODE_PROG \<equiv> 4"
abbreviation TRACK_MODE_DC :: byte where "TRACK_MODE_DC \<equiv> 8"
abbreviation TRACK_MODE_EXT :: byte where "TRACK_MODE_EXT \<equiv> 16"
abbreviation TRACK_MODIFIER_INV :: byte where "TRACK_MODIFIER_INV \<equiv> 64"
abbreviation TRACK_MODIFIER_AUTO :: byte where "TRACK_MODIFIER_AUTO \<equiv> 128"
abbreviation TRACK_ALL :: byte where "TRACK_ALL \<equiv> 30"
abbreviation UNUSED_PIN :: byte where "UNUSED_PIN \<equiv> 255"

abbreviation POWER_SAMPLE_OVERLOAD_WAIT :: u32 where "POWER_SAMPLE_OVERLOAD_WAIT \<equiv> 40000"
abbreviation POWER_SAMPLE_ALL_GOOD :: u32 where "POWER_SAMPLE_ALL_GOOD \<equiv> 5000000"
abbreviation POWER_SAMPLE_ALERT_GOOD :: u32 where "POWER_SAMPLE_ALERT_GOOD \<equiv> 20000"
abbreviation POWER_SAMPLE_IGNORE_FAULT_LOW :: u32 where "POWER_SAMPLE_IGNORE_FAULT_LOW \<equiv> 100000"
abbreviation POWER_SAMPLE_IGNORE_FAULT_HIGH :: u32 where "POWER_SAMPLE_IGNORE_FAULT_HIGH \<equiv> 5000"
abbreviation POWER_SAMPLE_IGNORE_CURRENT :: u32 where "POWER_SAMPLE_IGNORE_CURRENT \<equiv> 100000"
abbreviation POWER_SAMPLE_RETRY_MAX :: u32 where "POWER_SAMPLE_RETRY_MAX \<equiv> 10000000"
abbreviation TRIP_CURRENT_PROG :: int where "TRIP_CURRENT_PROG \<equiv> 250"
abbreviation senseScale :: int where "senseScale \<equiv> 256"

record MotorDriver =
  powerPin :: u16
  signalPin :: byte
  signalPin2 :: byte
  currentPin :: byte
  faultPin :: byte
  brakePin :: byte
  dualSignal :: bool
  invertBrake :: bool
  invertPower :: bool
  invertFault :: bool
  invertPhase :: bool
  senseFactorInternal :: int
  senseOffset :: int
  tripMilliamps :: int
  rawCurrentTripValue :: int
  progTripValue :: int
  powerMode :: POWERMODE
  lastPowerMode :: POWERMODE
  lastPowerChange :: "POWERMODE \<Rightarrow> u32"
  lastBadSample :: u32
  lastCurrent :: int
  tripValue :: int
  overload_wait :: u32
  trackMode :: byte
  trackPWM :: bool
  commonFaultPin :: bool
  isProgTrack :: bool
  trackLetter :: byte

datatype track_out =
    PowerPin u16 bool
  | PinLevel byte bool
  | AnalogWrite byte byte
  | PWMFrequency byte byte
  | SetPWM byte bool
  | PinOutput byte bool
  | ClearPWM
  | ClearResets
  | PauseRailcom bool
  | RailcomPossible bool
  | PowerEvent nat bool
  | BroadcastPower
  | BroadcastTrackState nat string u16
  | SetJoinRelay bool

record shield =
  drivers :: "MotorDriver list"
  globalOverloadStart :: u32
  touts :: "track_out list"

record hw =
  now :: u32
  fault_adc :: "byte \<Rightarrow> int"
  current_adc :: "byte \<Rightarrow> int"
  fault_high :: "byte \<Rightarrow> bool"
  isPWMPin :: "byte \<Rightarrow> bool"
  brake_timer :: "byte \<Rightarrow> bool"

definition emit_out :: "track_out list \<Rightarrow> shield \<Rightarrow> shield" where
  "emit_out es s = s\<lparr>touts := touts s @ es\<rparr>"

definition set_driver :: "nat \<Rightarrow> (MotorDriver \<Rightarrow> MotorDriver) \<Rightarrow> shield \<Rightarrow> shield" where
  "set_driver t f s = s\<lparr>drivers := (drivers s)[t := f (drivers s ! t)]\<rparr>"

definition getMode :: "nat \<Rightarrow> shield \<Rightarrow> byte" where
  "getMode t s = trackMode (drivers s ! t)"

definition getPower :: "nat \<Rightarrow> shield \<Rightarrow> POWERMODE" where
  "getPower t s = powerMode (drivers s ! t)"

definition has_mode :: "nat \<Rightarrow> byte \<Rightarrow> shield \<Rightarrow> bool" where
  "has_mode t m s \<longleftrightarrow> getMode t s AND m \<noteq> 0"

section \<open>Currents\<close>

definition raw2mA :: "MotorDriver \<Rightarrow> int \<Rightarrow> u16" where
  "raw2mA d raw = word_of_int (trunc_div (raw * senseFactorInternal d) senseScale)"

definition mA2raw :: "MotorDriver \<Rightarrow> int \<Rightarrow> u16" where
  "mA2raw d mA = word_of_int (trunc_div (mA * senseScale) (senseFactorInternal d))"

definition getCurrentRaw :: "(byte \<Rightarrow> int) \<Rightarrow> hw \<Rightarrow> MotorDriver \<Rightarrow> int" where
  "getCurrentRaw adc h d =
    (if currentPin d = UNUSED_PIN then 0
     else
       (let c = \<bar>adc (currentPin d) - senseOffset d\<bar>
        in if faultPin d \<noteq> UNUSED_PIN \<and> powerPin d \<noteq> 0 \<and> fault_high h (faultPin d) = invertFault d
           then (if c = 0 then -1 else - c) else c))"

definition checkFault :: "hw \<Rightarrow> MotorDriver \<Rightarrow> bool \<times> MotorDriver" where
  "checkFault h d = (let c = getCurrentRaw (fault_adc h) h d in (c < 0, d\<lparr>lastCurrent := c\<rparr>))"

definition checkCurrent :: "hw \<Rightarrow> bool \<Rightarrow> MotorDriver \<Rightarrow> bool \<times> MotorDriver" where
  "checkCurrent h useProgLimit d =
    (let trip = (if useProgLimit then progTripValue d else rawCurrentTripValue d);
         c = \<bar>getCurrentRaw (current_adc h) h d\<bar>
     in (c \<ge> trip, d\<lparr>tripValue := trip, lastCurrent := c\<rparr>))"

text \<open>The time since a change; a change long ago is moved to 30 seconds ago.\<close>

definition microsSinceLastPowerChange :: "hw \<Rightarrow> POWERMODE \<Rightarrow> MotorDriver \<Rightarrow> u32 \<times> MotorDriver" where
  "microsSinceLastPowerChange h m d =
    (let diff = now h - lastPowerChange d m
     in (diff, if diff > 0x10000000 then d\<lparr>lastPowerChange := (lastPowerChange d)(m := now h - 30000000)\<rparr> else d))"

section \<open>Pins\<close>

definition isPWMCapable :: "hw \<Rightarrow> MotorDriver \<Rightarrow> bool" where
  "isPWMCapable h d \<longleftrightarrow> \<not> dualSignal d \<and> isPWMPin h (signalPin d)"

definition brakeCanPWM :: "hw \<Rightarrow> MotorDriver \<Rightarrow> bool" where
  "brakeCanPWM h d \<longleftrightarrow> brakePin d \<noteq> UNUSED_PIN \<and> brake_timer h (brakePin d)"

definition power_on :: "POWERMODE \<Rightarrow> bool" where
  "power_on m \<longleftrightarrow> m = POWER_ON \<or> m = POWER_ALERT"

definition setPower :: "hw \<Rightarrow> POWERMODE \<Rightarrow> nat \<Rightarrow> shield \<Rightarrow> shield" where
  "setPower h m t s =
    (let d = drivers s ! t
     in if powerMode d = m then s
        else
          (let s = set_driver t (\<lambda>d. d\<lparr>lastPowerChange := (lastPowerChange d)(m := now h)\<rparr>) s;
               s = (if m = POWER_OVERLOAD then s\<lparr>globalOverloadStart := now h\<rparr> else s);
               s = (if power_on m then
                      (let s = (if powerMode d = POWER_OFF \<and> currentPin d \<noteq> UNUSED_PIN
                                then set_driver t (\<lambda>d. d\<lparr>senseOffset := current_adc h (currentPin d)\<rparr>) s else s)
                       in emit_out (PowerPin (powerPin d) (\<not> invertPower d) # (if isProgTrack d then [ClearResets] else [])) s)
                    else emit_out [PowerPin (powerPin d) (invertPower d)] s)
           in set_driver t (\<lambda>d. d\<lparr>powerMode := m\<rparr>) s))"

definition setBrake :: "bool \<Rightarrow> nat \<Rightarrow> shield \<Rightarrow> shield" where
  "setBrake b t s =
    (let d = drivers s ! t
     in if brakePin d = UNUSED_PIN then s else emit_out [PinLevel (brakePin d) (b \<noteq> invertBrake d)] s)"

definition setSignal :: "bool \<Rightarrow> nat \<Rightarrow> shield \<Rightarrow> shield" where
  "setSignal high t s =
    (let d = drivers s ! t; high = (high \<noteq> invertPhase d)
     in if trackPWM d then emit_out [SetPWM (signalPin d) high] s
        else emit_out (PinLevel (signalPin d) high # (if dualSignal d then [PinLevel (signalPin2 d) (\<not> high)] else [])) s)"

definition enableSignal :: "bool \<Rightarrow> nat \<Rightarrow> shield \<Rightarrow> shield" where
  "enableSignal b t s =
    (let d = drivers s ! t
     in emit_out (PinOutput (signalPin d) b # (if signalPin2 d \<noteq> UNUSED_PIN then [PinOutput (signalPin2 d) b] else [])) s)"

text \<open>The brake duty of a speed: 255 at rest, 0 at full speed.\<close>

definition brake_duty :: "byte \<Rightarrow> byte" where
  "brake_duty speedcode =
    (let tSpeed = speedcode AND 0x7F
     in if tSpeed \<le> 1 then 255 else if tSpeed \<ge> 127 then 0 else 2 * (128 - tSpeed))"

definition setDCSignal :: "byte \<Rightarrow> byte \<Rightarrow> nat \<Rightarrow> shield \<Rightarrow> shield" where
  "setDCSignal speedcode frequency t s =
    (let d = drivers s ! t; brake = brake_duty speedcode
     in if brakePin d = UNUSED_PIN then s
        else setSignal (speedcode AND 0x80 \<noteq> 0) t
          (emit_out [PWMFrequency (brakePin d) frequency,
             AnalogWrite (brakePin d) (if invertBrake d then 255 - brake else brake)] s))"

definition detachDCSignal :: "nat \<Rightarrow> shield \<Rightarrow> shield" where
  "detachDCSignal = setDCSignal 128 0"

definition throttleInrush :: "bool \<Rightarrow> nat \<Rightarrow> shield \<Rightarrow> shield" where
  "throttleInrush b t s =
    (let d = drivers s ! t; duty = (if b then 207 else 0)
     in if brakePin d = UNUSED_PIN then s
        else if trackMode d AND (TRACK_MODE_MAIN OR TRACK_MODE_PROG OR TRACK_MODE_EXT) = 0 then s
        else emit_out ((if b then [PWMFrequency (brakePin d) 7] else []) @
               [PauseRailcom b, AnalogWrite (brakePin d) (if invertBrake d then 255 - duty else duty)]) s)"

definition setMode :: "byte \<Rightarrow> MotorDriver \<Rightarrow> MotorDriver" where
  "setMode m d = d\<lparr>trackMode := m, invertPhase := m AND TRACK_MODIFIER_INV \<noteq> 0\<rparr>"

section \<open>The constructor\<close>

text \<open>
  \<open>g\<close> is what the members hold that the constructor leaves alone, \<open>adc_ok\<close> whether the analogue input could
  be set up, and \<open>adcmax\<close> its largest reading. The sense factor is already scaled, as the compiler does it.
  The board is built without \<^verbatim>\<open>MAX_CURRENT\<close>, which would bound the trip current by a configured limit.
\<close>

definition newDriver ::
    "MotorDriver \<Rightarrow> bool \<Rightarrow> int \<Rightarrow> int \<Rightarrow> byte \<Rightarrow> byte \<Rightarrow> int \<Rightarrow> byte \<Rightarrow> int \<Rightarrow> int \<Rightarrow> int \<Rightarrow> MotorDriver \<times> track_out list" where
  "newDriver g adc_ok adcmax power_pin signal_pin signal_pin2 brake_pin current_pin sense_factor trip_milliamps fault_pin =
    (let d = g\<lparr>invertPower := power_pin < 0, powerPin := word_of_int \<bar>power_pin\<bar>,
               signalPin := signal_pin, signalPin2 := signal_pin2, dualSignal := signal_pin2 \<noteq> UNUSED_PIN\<rparr>;
         d = (if brake_pin \<noteq> 255 then d\<lparr>invertBrake := brake_pin < 0, brakePin := word_of_int \<bar>brake_pin\<bar>\<rparr>
              else d\<lparr>brakePin := UNUSED_PIN\<rparr>);
         d = d\<lparr>currentPin := (if adc_ok then current_pin else UNUSED_PIN), senseOffset := 0\<rparr>;
         d = (if fault_pin \<noteq> 255 then d\<lparr>invertFault := fault_pin < 0, faultPin := word_of_int \<bar>fault_pin\<bar>\<rparr>
              else d\<lparr>faultPin := UNUSED_PIN\<rparr>);
         d = d\<lparr>senseFactorInternal := sense_factor, tripMilliamps := trip_milliamps\<rparr>;
         trip = sint (mA2raw d trip_milliamps);
         d = d\<lparr>rawCurrentTripValue := (if trip > adcmax then adcmax else trip), progTripValue := sint (mA2raw d TRIP_CURRENT_PROG),
               invertPhase := False, trackPWM := False, commonFaultPin := False, isProgTrack := False,
               overload_wait := POWER_SAMPLE_OVERLOAD_WAIT, trackMode := TRACK_MODE_NONE, trackLetter := 0x3F\<rparr>
     in (d, [PowerPin (powerPin d) (invertPower d), PinOutput signal_pin True] @
           (if dualSignal d then [PinOutput signal_pin2 True] else []) @
           (if brakePin d \<noteq> UNUSED_PIN then [PinOutput (brakePin d) True, PinLevel (brakePin d) (\<not> invertBrake d)] else []) @
           (if faultPin d \<noteq> UNUSED_PIN then [PinOutput (faultPin d) False] else [])))"

section \<open>Short circuits\<close>

definition overload_ON :: "hw \<Rightarrow> bool \<Rightarrow> nat \<Rightarrow> shield \<Rightarrow> shield" where
  "overload_ON h useProgLimit t s =
    (let d = (drivers s ! t)\<lparr>lastPowerMode := POWER_ON\<rparr>;
         (cF, d) = checkFault h d;
         (cC, d) = checkCurrent h useProgLimit d
     in if cF \<or> cC then
          (let s = setPower h POWER_ALERT t (set_driver t (\<lambda>_. d) s)
           in if trackMode d AND TRACK_MODIFIER_AUTO \<noteq> 0 \<and> trackMode d AND (TRACK_MODE_MAIN OR TRACK_MODE_EXT) \<noteq> 0
              then set_driver t (\<lambda>d. d\<lparr>invertPhase := \<not> invertPhase d\<rparr>) s else s)
        else
          (let (since, d) = microsSinceLastPowerChange h POWER_ON d
           in set_driver t (\<lambda>_. if since > POWER_SAMPLE_ALL_GOOD then d\<lparr>overload_wait := POWER_SAMPLE_OVERLOAD_WAIT\<rparr> else d) s))"

definition overload_ALERT :: "hw \<Rightarrow> bool \<Rightarrow> nat \<Rightarrow> shield \<Rightarrow> shield" where
  "overload_ALERT h useProgLimit t s =
    (let d = drivers s ! t;
         d = (if powerMode d \<noteq> lastPowerMode d then d\<lparr>lastBadSample := now h\<rparr> else d);
         d = d\<lparr>lastPowerMode := POWER_ALERT\<rparr>;
         (mslpc, d) = microsSinceLastPowerChange h POWER_ALERT d;
         (cF, d) = checkFault h d
     in if cF then
          (let s = throttleInrush True t (set_driver t (\<lambda>_. d) s);
               (cC, d) = checkCurrent h useProgLimit (d\<lparr>lastBadSample := now h\<rparr>);
               s = set_driver t (\<lambda>_. d) s
           in if mslpc < (if cC then POWER_SAMPLE_IGNORE_FAULT_HIGH else POWER_SAMPLE_IGNORE_FAULT_LOW) then s
              else setPower h POWER_OVERLOAD t (throttleInrush False t s))
        else
          (let (cC, d) = checkCurrent h useProgLimit d
           in if cC then
                (let s = set_driver t (\<lambda>_. d\<lparr>lastBadSample := now h\<rparr>) s
                 in if mslpc < POWER_SAMPLE_IGNORE_CURRENT then s
                    else setPower h POWER_OVERLOAD t (throttleInrush False t s))
              else
                (let s = set_driver t (\<lambda>_. d) s; goodtime = now h - lastBadSample d
                 in if goodtime > POWER_SAMPLE_ALERT_GOOD then setPower h POWER_ON t (throttleInrush False t s)
                    else if goodtime > POWER_SAMPLE_ALERT_GOOD div 2 then throttleInrush False t s
                    else s)))"

definition overload_OVERLOAD :: "hw \<Rightarrow> nat \<Rightarrow> shield \<Rightarrow> shield" where
  "overload_OVERLOAD h t s =
    (let d = (drivers s ! t)\<lparr>lastPowerMode := POWER_OVERLOAD\<rparr>;
         (mslpc, d) = (if commonFaultPin d then (now h - globalOverloadStart s, d)
                       else microsSinceLastPowerChange h POWER_OVERLOAD d)
     in if mslpc > overload_wait d then
          (let wait = 2 * overload_wait d;
               d = d\<lparr>overload_wait := (if wait > POWER_SAMPLE_RETRY_MAX then POWER_SAMPLE_RETRY_MAX else wait)\<rparr>
           in setPower h POWER_ALERT t (emit_out [PowerEvent t True] (set_driver t (\<lambda>_. d) s)))
        else set_driver t (\<lambda>_. d) s)"

definition checkPowerOverload :: "hw \<Rightarrow> bool \<Rightarrow> nat \<Rightarrow> shield \<Rightarrow> shield" where
  "checkPowerOverload h useProgLimit t s =
    (case getPower t s of
       POWER_OFF \<Rightarrow> set_driver t (\<lambda>d. d\<lparr>lastPowerMode := POWER_OFF, overload_wait := POWER_SAMPLE_OVERLOAD_WAIT\<rparr>) s
     | POWER_ON \<Rightarrow> overload_ON h useProgLimit t s
     | POWER_ALERT \<Rightarrow> overload_ALERT h useProgLimit t s
     | POWER_OVERLOAD \<Rightarrow> overload_OVERLOAD h t s)"

end
