(* ===== verification/Tracks.thy ===== *)
theory Tracks
  imports Motors CommandSyntax
begin

text \<open>
  The track manager, \<^verbatim>\<open>src/TrackManager.cpp\<close> and \<^verbatim>\<open>src/TrackManager.h\<close>, with the commands \<^verbatim>\<open><1>\<close>, \<^verbatim>\<open><0>\<close>
  and \<^verbatim>\<open><=>\<close> of \<^verbatim>\<open>src/DCCEXParser.cpp\<close>. The tracks are those of the shield, without gaps: track \<open>t\<close> exists
  when \<open>t\<close> is below the number of drivers, and a pointer to another one is null. \<open>None\<close> is the use of a null pointer.
  The speeds and frequencies of locos come from the DCC layer, \<open>dcc\<close>. The lists that \<^verbatim>\<open><=>\<close>, \<^verbatim>\<open><JI>\<close> and \<^verbatim>\<open><JG>\<close>
  send to one client are not recorded; \<^verbatim>\<open>reportCurrentLCD\<close> only writes to a display.
\<close>

section \<open>State\<close>

abbreviation MAX_TRACKS :: nat where "MAX_TRACKS \<equiv> 8"

record tracks =
  shield_of :: shield
  trackDCAddr :: "u16 list"
  progTrackSyncMain :: bool
  progTrackBoosted :: bool
  joinRelay :: byte
  nextCycleTrack :: nat

definition on_shield :: "(shield \<Rightarrow> shield) \<Rightarrow> tracks \<Rightarrow> tracks" where
  "on_shield f x = x\<lparr>shield_of := f (shield_of x)\<rparr>"

definition num_tracks :: "tracks \<Rightarrow> nat" where
  "num_tracks x = length (drivers (shield_of x))"

definition each_track :: "tracks \<Rightarrow> nat list" where
  "each_track x = [0..<num_tracks x]"

definition in_mode :: "byte \<Rightarrow> tracks \<Rightarrow> nat list" where
  "in_mode m x = filter (\<lambda>t. has_mode t m (shield_of x)) (each_track x)"

section \<open>Reports\<close>

definition getModeName :: "byte \<Rightarrow> string" where
  "getModeName tm =
    (if tm AND TRACK_MODE_MAIN \<noteq> 0 then
       (if tm AND TRACK_MODIFIER_AUTO \<noteq> 0 then ''MAIN A'' else if tm AND TRACK_MODIFIER_INV \<noteq> 0 then ''MAIN I'' else ''MAIN'')
     else if tm AND TRACK_MODE_PROG \<noteq> 0 then ''PROG''
     else if tm AND TRACK_MODE_NONE \<noteq> 0 then ''NONE''
     else if tm AND TRACK_MODE_EXT \<noteq> 0 then ''EXT''
     else if tm AND TRACK_MODE_DC \<noteq> 0 then (if tm AND TRACK_MODIFIER_INV \<noteq> 0 then ''DCX'' else ''DC'')
     else ''---'')"

definition streamTrackState :: "nat \<Rightarrow> tracks \<Rightarrow> tracks" where
  "streamTrackState t x =
    on_shield (emit_out [BroadcastTrackState t (getModeName (getMode t (shield_of x))) (trackDCAddr x ! t), BroadcastPower]) x"

definition getProgPower :: "tracks \<Rightarrow> POWERMODE" where
  "getProgPower x = (case in_mode TRACK_MODE_PROG x of t # _ \<Rightarrow> getPower t (shield_of x) | [] \<Rightarrow> POWER_OFF)"

fun main_power :: "POWERMODE list \<Rightarrow> POWERMODE \<Rightarrow> POWERMODE" where
  "main_power [] result = result"
| "main_power (p # ps) result =
    (if p = POWER_OFF then POWER_OFF else main_power ps (if p = POWER_ON then POWER_ON else result))"

definition getMainPower :: "tracks \<Rightarrow> POWERMODE" where
  "getMainPower x = main_power (map (\<lambda>t. getPower t (shield_of x)) (in_mode TRACK_MODE_MAIN x)) POWER_OFF"

definition isPowerOn :: "nat \<Rightarrow> tracks \<Rightarrow> bool option" where
  "isPowerOn t x = (if t < num_tracks x then Some (getPower t (shield_of x) = POWER_ON) else None)"

definition reportCurrent :: "hw \<Rightarrow> tracks \<Rightarrow> int list" where
  "reportCurrent h x =
    map (\<lambda>d. if powerMode d = POWER_OVERLOAD then -1 else uint (raw2mA d (getCurrentRaw (current_adc h) h d))) (drivers (shield_of x))"

definition reportGauges :: "tracks \<Rightarrow> int list" where
  "reportGauges x = map (\<lambda>d. uint (raw2mA d (rawCurrentTripValue d))) (drivers (shield_of x))"

section \<open>Signals\<close>

definition setDCCSignal :: "bool \<Rightarrow> tracks \<Rightarrow> tracks" where
  "setDCCSignal b x = fold (\<lambda>t. on_shield (setSignal b t)) (in_mode TRACK_MODE_MAIN x) x"

definition setPROGSignal :: "bool \<Rightarrow> tracks \<Rightarrow> tracks" where
  "setPROGSignal b x = fold (\<lambda>t. on_shield (setSignal b t)) (in_mode TRACK_MODE_PROG x) x"

definition applyDCSpeed :: "dcc \<Rightarrow> nat \<Rightarrow> tracks \<Rightarrow> tracks" where
  "applyDCSpeed c t x =
    (let cab = sint (trackDCAddr x ! t)
     in on_shield (Motors.setDCSignal (getLocoSpeedByte cab c) (getThrottleFrequency cab c) t) x)"

definition setDCSignal :: "dcc \<Rightarrow> u16 \<Rightarrow> byte \<Rightarrow> tracks \<Rightarrow> tracks" where
  "setDCSignal c cab speedbyte x =
    fold (\<lambda>t. on_shield (Motors.setDCSignal speedbyte (getThrottleFrequency (sint (trackDCAddr x ! t)) c) t))
      (filter (\<lambda>t. trackDCAddr x ! t = cab \<or> cab = 0) (in_mode TRACK_MODE_DC x)) x"

section \<open>Modes\<close>

text \<open>Only one track can be the programming track; the one before it loses its mode and its power.\<close>

definition revoke_prog :: "hw \<Rightarrow> nat \<Rightarrow> tracks \<Rightarrow> tracks" where
  "revoke_prog h t x =
    streamTrackState t (on_shield (\<lambda>s. set_driver t (\<lambda>d. (setMode TRACK_MODE_NONE d)\<lparr>isProgTrack := False\<rparr>) (Motors.setPower h POWER_OFF t s)) x)"

text \<open>
  The loop that finds out whether all tracks can have a high accuracy waveform. It ends at a DC track
  that could, after it has set the tracks before.
\<close>

fun pwm_scan :: "hw \<Rightarrow> nat list \<Rightarrow> bool \<Rightarrow> shield \<Rightarrow> bool \<times> shield" where
  "pwm_scan h [] canDo s = (canDo, s)"
| "pwm_scan h (t # ts) canDo s =
    (let capable = isPWMCapable h (drivers s ! t)
     in if has_mode t TRACK_MODE_DC s then
          (if capable then (False, s) else pwm_scan h ts canDo (set_driver t (\<lambda>d. d\<lparr>trackPWM := False\<rparr>) s))
        else if has_mode t (TRACK_MODE_MAIN OR TRACK_MODE_PROG) s then
          pwm_scan h ts (canDo \<and> capable) (set_driver t (\<lambda>d. d\<lparr>trackPWM := capable\<rparr>) s)
        else pwm_scan h ts canDo s)"

definition set_accuracy :: "hw \<Rightarrow> shield \<Rightarrow> shield" where
  "set_accuracy h s =
    (let (canDo, s) = pwm_scan h [0..<length (drivers s)] True s;
         s = (if canDo then s
              else emit_out [ClearPWM] (s\<lparr>drivers := map (\<lambda>d. d\<lparr>trackPWM := False\<rparr>) (drivers s)\<rparr>))
     in emit_out [RailcomPossible canDo] s)"

definition setTrackMode :: "hw \<Rightarrow> dcc \<Rightarrow> nat \<Rightarrow> byte \<Rightarrow> u16 \<Rightarrow> bool \<Rightarrow> tracks \<Rightarrow> bool \<times> tracks" where
  "setTrackMode h c t mode dcAddr offAtChange x =
    (if t \<ge> num_tracks x then (False, x)
     else
       (let oldmode = getMode t (shield_of x); dc = (mode AND TRACK_MODE_DC \<noteq> 0); prog = (mode AND TRACK_MODE_PROG \<noteq> 0)
        in if dc \<and> \<not> brakeCanPWM h (drivers (shield_of x) ! t) then (False, x)
           else
             (let x = (if prog then fold (revoke_prog h) (filter (\<lambda>u. u \<noteq> t) (in_mode TRACK_MODE_PROG x)) x else x);
                  x = on_shield (set_driver t (\<lambda>d. d\<lparr>isProgTrack := prog\<rparr>)) x;
                  x = (if dc
                       then (if trackDCAddr x ! t \<noteq> dcAddr \<and> trackDCAddr x ! t \<noteq> 0 then on_shield (detachDCSignal t) x else x)
                       else on_shield (\<lambda>s. setBrake False t (detachDCSignal t s)) x);
                  x = x\<lparr>trackDCAddr := (trackDCAddr x)[t := (if dc then dcAddr else 0)]\<rparr>;
                  x = on_shield (\<lambda>s. enableSignal (mode AND TRACK_MODE_EXT = 0) t (set_driver t (setMode mode) s)) x;
                  x = on_shield (set_accuracy h) x;
                  x = (if dc then applyDCSpeed c t x else x);
                  x = (if mode \<noteq> oldmode \<and> offAtChange then on_shield (Motors.setPower h POWER_OFF t) x else x)
              in (True, streamTrackState t x))))"

section \<open>Power\<close>

text \<open>What has to happen to the brake before a track in a mode other than NONE is switched on.\<close>

definition prepare_on :: "dcc \<Rightarrow> nat \<Rightarrow> tracks \<Rightarrow> tracks" where
  "prepare_on c t x =
    (if has_mode t TRACK_MODE_DC (shield_of x) then applyDCSpeed c t (on_shield (setBrake True t) x)
     else on_shield (\<lambda>s. setBrake False t (setBrake True t s)) x)"

definition power_one :: "hw \<Rightarrow> dcc \<Rightarrow> POWERMODE \<Rightarrow> nat \<Rightarrow> tracks \<Rightarrow> tracks" where
  "power_one h c p t x =
    on_shield (Motors.setPower h p t) (if p = POWER_ON then prepare_on c t x else x)"

text \<open>All tracks that have one of the modes.\<close>

definition setModePower :: "hw \<Rightarrow> dcc \<Rightarrow> byte \<Rightarrow> POWERMODE \<Rightarrow> tracks \<Rightarrow> tracks" where
  "setModePower h c m p x =
    (let ts = in_mode m x; didChange = list_ex (\<lambda>t. getPower t (shield_of x) \<noteq> p) ts; x = fold (power_one h c p) ts x
     in if didChange then on_shield (emit_out [BroadcastPower]) x else x)"

text \<open>One track.\<close>

definition setTrackPower :: "hw \<Rightarrow> dcc \<Rightarrow> POWERMODE \<Rightarrow> nat \<Rightarrow> tracks \<Rightarrow> tracks" where
  "setTrackPower h c p t x =
    (if t \<ge> num_tracks x then x
     else
       (let oldpower = getPower t (shield_of x);
            x = (if has_mode t TRACK_MODE_NONE (shield_of x)
                 then on_shield (\<lambda>s. Motors.setPower h POWER_OFF t (setBrake True t s)) x
                 else power_one h c p t x)
        in if oldpower \<noteq> getPower t (shield_of x) then on_shield (emit_out [BroadcastPower]) x else x))"

definition setMainPower :: "hw \<Rightarrow> dcc \<Rightarrow> POWERMODE \<Rightarrow> tracks \<Rightarrow> tracks" where
  "setMainPower h c = setModePower h c TRACK_MODE_MAIN"

definition setProgPower :: "hw \<Rightarrow> dcc \<Rightarrow> POWERMODE \<Rightarrow> tracks \<Rightarrow> tracks" where
  "setProgPower h c = setModePower h c TRACK_MODE_PROG"

definition setPower_all :: "hw \<Rightarrow> dcc \<Rightarrow> POWERMODE \<Rightarrow> tracks \<Rightarrow> tracks" where
  "setPower_all h c p x = setProgPower h c p (setMainPower h c p x)"

definition setJoinRelayPin :: "byte \<Rightarrow> tracks \<Rightarrow> tracks" where
  "setJoinRelayPin v x =
    (let x = x\<lparr>joinRelay := v\<rparr> in if v \<noteq> UNUSED_PIN then on_shield (emit_out [PinOutput v True, SetJoinRelay False]) x else x)"

definition setJoin :: "bool \<Rightarrow> tracks \<Rightarrow> tracks" where
  "setJoin b x =
    (let x = x\<lparr>progTrackSyncMain := b\<rparr> in if joinRelay x \<noteq> UNUSED_PIN then on_shield (emit_out [SetJoinRelay b]) x else x)"

section \<open>Start and loop\<close>

definition addTrack :: "hw \<Rightarrow> MotorDriver \<Rightarrow> tracks \<Rightarrow> tracks" where
  "addTrack h d x =
    on_shield (\<lambda>s. let t = length (drivers s)
       in set_driver t (\<lambda>d. (setMode TRACK_MODE_NONE d)\<lparr>trackLetter := 0x41 + of_nat t\<rparr>)
            (Motors.setPower h POWER_OFF t (s\<lparr>drivers := drivers s @ [d]\<rparr>))) x"

definition common_fault :: "MotorDriver list \<Rightarrow> MotorDriver list" where
  "common_fault ds =
    map (\<lambda>t. (ds ! t)\<lparr>commonFaultPin := commonFaultPin (ds ! t) \<or>
           list_ex (\<lambda>u. u \<noteq> t \<and> faultPin (ds ! t) \<noteq> UNUSED_PIN \<and> faultPin (ds ! u) = faultPin (ds ! t)) [0..<length ds]\<rparr>)
      [0..<length ds]"

definition Setup :: "hw \<Rightarrow> dcc \<Rightarrow> MotorDriver list \<Rightarrow> tracks \<Rightarrow> tracks" where
  "Setup h c ds x =
    (let x = fold (addTrack h) ds x;
         x = snd (setTrackMode h c 0 TRACK_MODE_MAIN 0 True x);
         x = snd (setTrackMode h c 1 TRACK_MODE_PROG 0 True x)
     in on_shield (\<lambda>s. s\<lparr>drivers := common_fault (drivers s)\<rparr>) x)"

definition new_tracks :: "track_out list \<Rightarrow> tracks" where
  "new_tracks es = \<lparr>shield_of = \<lparr>drivers = [], globalOverloadStart = 0, touts = es\<rparr>, trackDCAddr = replicate MAX_TRACKS 0,
     progTrackSyncMain = False, progTrackBoosted = False, joinRelay = UNUSED_PIN, nextCycleTrack = MAX_TRACKS\<rparr>"

text \<open>
  One turn of the loop checks one track for a short circuit. \<open>active\<close> is \<^verbatim>\<open>DCCACK::isActive\<close>. With no track at all
  the pointer is null and nothing happens.
\<close>

definition tracks_loop :: "hw \<Rightarrow> bool \<Rightarrow> tracks \<Rightarrow> tracks" where
  "tracks_loop h active x =
    (let dontLimitProg = active \<or> progTrackSyncMain x \<or> progTrackBoosted x;
         t = (if nextCycleTrack x + 1 \<ge> num_tracks x then 0 else nextCycleTrack x + 1);
         x = x\<lparr>nextCycleTrack := t\<rparr>
     in if t \<ge> num_tracks x then x
        else on_shield (checkPowerOverload h (\<not> dontLimitProg \<and> has_mode t TRACK_MODE_PROG (shield_of x)) t) x)"

section \<open>Commands\<close>

definition parseEqualSign :: "hw \<Rightarrow> dcc \<Rightarrow> nat \<Rightarrow> u16 list \<Rightarrow> tracks \<Rightarrow> (bool \<times> tracks) option" where
  "parseEqualSign h c params p x =
    (let k = sint (p ! 0 - hk ''A''); t = nat k; word = p ! 1; cab = p ! 2;
         to = (\<lambda>m. Some (setTrackMode h c t m 0 True x));
         modify = (\<lambda>m. if t < num_tracks x then Some (setTrackMode h c t (getMode t (shield_of x) OR m) 0 True x) else None)
     in if params = 0 then Some (True, x)
        else if params > 1 \<and> (k < 0 \<or> k \<ge> int MAX_TRACKS) then Some (False, x)
        else if params = 2 then
          (if word = hk ''MAIN'' then to TRACK_MODE_MAIN
           else if word = hk ''MAIN_INV'' then to (TRACK_MODE_MAIN OR TRACK_MODIFIER_INV)
           else if word = hk ''MAIN_AUTO'' then to (TRACK_MODE_MAIN OR TRACK_MODIFIER_AUTO)
           else if word = hk ''PROG'' then to TRACK_MODE_PROG
           else if word = hk ''OFF'' \<or> word = hk ''NONE'' then to TRACK_MODE_NONE
           else if word = hk ''EXT'' then to TRACK_MODE_EXT
           else if word = hk ''AUTO'' then modify TRACK_MODIFIER_AUTO
           else if word = hk ''INV'' then modify TRACK_MODIFIER_INV
           else Some (False, x))
        else if params = 3 \<and> sint cab > 0 then
          (if word = hk ''DC'' then Some (setTrackMode h c t TRACK_MODE_DC cab True x)
           else if word = hk ''DC_INV'' \<or> word = hk ''DCX'' then
             Some (setTrackMode h c t (TRACK_MODE_DC OR TRACK_MODIFIER_INV) cab True x)
           else Some (False, x))
        else Some (False, x))"

definition cmd_1 :: "hw \<Rightarrow> dcc \<Rightarrow> nat \<Rightarrow> u16 list \<Rightarrow> tracks \<Rightarrow> bool \<times> tracks" where
  "cmd_1 h c params p x =
    (let w = p ! 0
     in if params > 1 then (False, x)
        else if params = 0 then (True, setModePower h c TRACK_ALL POWER_ON x)
        else if w = hk ''MAIN'' then (True, setModePower h c TRACK_MODE_MAIN POWER_ON x)
        else if w = hk ''JOIN'' then (True, setModePower h c (TRACK_MODE_MAIN OR TRACK_MODE_PROG) POWER_ON (setJoin True x))
        else if w = hk ''PROG'' then (True, setModePower h c TRACK_MODE_PROG POWER_ON (setJoin False x))
        else if sint w \<ge> sint (hk ''A'') \<and> sint w \<le> sint (hk ''H'') then (True, setTrackPower h c POWER_ON (unat (w - 0x41)) x)
        else (False, x))"

definition cmd_0 :: "hw \<Rightarrow> dcc \<Rightarrow> nat \<Rightarrow> u16 list \<Rightarrow> tracks \<Rightarrow> bool \<times> tracks" where
  "cmd_0 h c params p x =
    (let w = p ! 0
     in if params > 1 then (False, x)
        else if params = 0 then (True, setModePower h c TRACK_ALL POWER_OFF (setJoin False x))
        else if w = hk ''MAIN'' then (True, setModePower h c TRACK_MODE_MAIN POWER_OFF (setJoin False x))
        else if w = hk ''PROG'' then
          (True, setModePower h c TRACK_MODE_PROG POWER_OFF ((setJoin False x)\<lparr>progTrackBoosted := False\<rparr>))
        else if sint w \<ge> sint (hk ''A'') \<and> sint w \<le> sint (hk ''H'') then
          (True, setTrackPower h c POWER_OFF (unat (w - 0x41)) (setJoin False x))
        else (False, x))"

end
