(* ===== verification/TrackProps.thy ===== *)
theory TrackProps
  imports Tracks
begin

text \<open>
  What the track manager guarantees: the level of every power pin agrees with the track's state, an unassigned
  track has no power unless the programming track's sequence switches it on, there is one programming track at most (\<open>tracks_inv\<close>, kept by every call), and
  a short circuit cuts the power in time and is tried again after growing pauses.
\<close>

section \<open>Drivers\<close>

named_theorems shield_simps

text \<open>The level last written to a power pin.\<close>

definition written :: "u16 \<Rightarrow> track_out list \<Rightarrow> bool option" where
  "written p es = fold (\<lambda>e r. case e of PowerPin q b \<Rightarrow> if q = p then Some b else r | _ \<Rightarrow> r) es None"

lemma written_append: "written p (es @ fs) = fold (\<lambda>e r. case e of PowerPin q b \<Rightarrow> if q = p then Some b else r | _ \<Rightarrow> r) fs (written p es)"
  by (simp add: written_def)

definition power_ok :: "track_out list \<Rightarrow> MotorDriver \<Rightarrow> bool" where
  "power_ok es d \<longleftrightarrow> written (powerPin d) es = Some (power_on (powerMode d) \<noteq> invertPower d) \<and>
     POWER_SAMPLE_OVERLOAD_WAIT \<le> overload_wait d \<and> overload_wait d \<le> POWER_SAMPLE_RETRY_MAX"

definition shield_ok :: "shield \<Rightarrow> bool" where
  "shield_ok s \<longleftrightarrow> distinct (map powerPin (drivers s)) \<and> list_all (power_ok (touts s)) (drivers s)"

text \<open>What the mode rules speak of: mode, programming flag and power of each track.\<close>

definition view_of :: "MotorDriver \<Rightarrow> byte \<times> bool \<times> POWERMODE" where
  "view_of d = (trackMode d, isProgTrack d, powerMode d)"

definition view :: "shield \<Rightarrow> (byte \<times> bool \<times> POWERMODE) list" where
  "view s = map view_of (drivers s)"

lemma emit_simps [shield_simps]:
  "drivers (emit_out es s) = drivers s" "touts (emit_out es s) = touts s @ es"
  "drivers (set_driver t f s) = (drivers s)[t := f (drivers s ! t)]" "touts (set_driver t f s) = touts s"
  by (simp_all add: emit_out_def set_driver_def)

text \<open>Calls that write no power pin and leave the drivers alone.\<close>

definition silent :: "(shield \<Rightarrow> shield) \<Rightarrow> bool" where
  "silent f \<longleftrightarrow> (\<forall>s. drivers (f s) = drivers s \<and> (\<forall>p. written p (touts (f s)) = written p (touts s)))"

lemma silentD: "silent f \<Longrightarrow> drivers (f s) = drivers s" "silent f \<Longrightarrow> written p (touts (f s)) = written p (touts s)"
  by (simp_all add: silent_def)

lemma silent_ok: "silent f \<Longrightarrow> shield_ok (f s) = shield_ok s" "silent f \<Longrightarrow> view (f s) = view s"
  by (simp_all add: shield_ok_def view_def silentD power_ok_def list_all_iff)

lemma silent_calls:
  "silent (setBrake b t)" "silent (setSignal b t)" "silent (enableSignal b t)" "silent (Motors.setDCSignal c f t)"
  "silent (detachDCSignal t)" "silent (throttleInrush b t)"
  by (simp_all add: silent_def setBrake_def setSignal_def enableSignal_def Motors.setDCSignal_def detachDCSignal_def throttleInrush_def
      shield_simps written_append Let_def)

lemma set_driver_ok:
  assumes "shield_ok s" "powerPin (f (drivers s ! t)) = powerPin (drivers s ! t)"
    "invertPower (f (drivers s ! t)) = invertPower (drivers s ! t)" "powerMode (f (drivers s ! t)) = powerMode (drivers s ! t)"
    "POWER_SAMPLE_OVERLOAD_WAIT \<le> overload_wait (f (drivers s ! t))" "overload_wait (f (drivers s ! t)) \<le> POWER_SAMPLE_RETRY_MAX"
  shows "shield_ok (set_driver t f s)"
proof (cases "t < length (drivers s)")
  case True
  have "map powerPin ((drivers s)[t := f (drivers s ! t)]) = map powerPin (drivers s)"
    using assms(2) True by (simp add: map_update) (metis list_update_id map_update nth_map)
  moreover have "power_ok (touts s) (drivers s ! t)" using assms(1) True by (simp add: shield_ok_def list_all_length)
  ultimately show ?thesis using assms True
    by (auto simp: shield_ok_def shield_simps list_all_length nth_list_update power_ok_def)
qed (use assms(1) in \<open>simp add: shield_ok_def shield_simps list_update_beyond\<close>)

lemma setPower_drivers:
  "t < length (drivers s) \<Longrightarrow> drivers (Motors.setPower h m t s) = (drivers s)[t := drivers (Motors.setPower h m t s) ! t]"
  by (simp add: Motors.setPower_def Let_def shield_simps)

lemma setPower_driver:
  fixes h m
  assumes "t < length (drivers s)"
  defines "d \<equiv> drivers s ! t" and "d' \<equiv> drivers (Motors.setPower h m t s) ! t"
  shows "powerMode d' = m" "d' = d\<lparr>powerMode := m, lastPowerChange := lastPowerChange d', senseOffset := senseOffset d'\<rparr>"
    "lastPowerChange d' = (if powerMode d = m then lastPowerChange d else (lastPowerChange d)(m := now h))"
    "powerMode d \<noteq> POWER_OFF \<Longrightarrow> senseOffset d' = senseOffset d"
  using assms by (auto simp: Motors.setPower_def Let_def shield_simps nth_list_update)

lemma setPower_ok:
  assumes "shield_ok s" "t < length (drivers s)"
  shows "shield_ok (Motors.setPower h m t s)"
proof (cases "powerMode (drivers s ! t) = m")
  case False
  let ?s = "Motors.setPower h m t s" and ?d = "drivers s ! t"
  note d = setPower_driver [OF assms(2), of h m]
  have same: "powerPin (drivers ?s ! t) = powerPin ?d" "invertPower (drivers ?s ! t) = invertPower ?d"
    "overload_wait (drivers ?s ! t) = overload_wait ?d" by (subst d(2), simp)+
  have "map powerPin (drivers ?s) = map powerPin (drivers s)"
    by (subst setPower_drivers [OF assms(2)]) (metis assms(2) list_update_id map_update nth_map same(1))
  moreover have out: "written p (touts ?s) = (if p = powerPin ?d then Some (power_on m \<noteq> invertPower ?d) else written p (touts s))" for p
    using False by (auto simp: Motors.setPower_def Let_def shield_simps written_append)
  moreover have "power_ok (touts ?s) (drivers ?s ! u)" if "u < length (drivers s)" for u
  proof (cases "u = t")
    case True
    have "power_ok (touts s) ?d" using assms by (simp add: shield_ok_def list_all_length)
    then show ?thesis using True by (simp add: power_ok_def same out d(1))
  next
    case neq: False
    then have "drivers ?s ! u = drivers s ! u" by (subst setPower_drivers [OF assms(2)]) simp
    moreover have "powerPin (drivers s ! u) \<noteq> powerPin ?d"
      using assms neq that by (auto simp: shield_ok_def distinct_conv_nth)
    moreover have "power_ok (touts s) (drivers s ! u)" using assms that by (simp add: shield_ok_def list_all_length)
    ultimately show ?thesis by (simp add: power_ok_def out)
  qed
  moreover have "length (drivers ?s) = length (drivers s)" by (subst setPower_drivers [OF assms(2)]) simp
  ultimately show ?thesis using assms by (auto simp: shield_ok_def list_all_length)
qed (simp add: Motors.setPower_def assms(1))

lemma setPower_length [simp]: "length (drivers (Motors.setPower h m t s)) = length (drivers s)"
  by (simp add: Motors.setPower_def Let_def shield_simps)

lemma setPower_view:
  assumes "t < length (drivers s)"
  shows "view (Motors.setPower h m t s) = (view s)[t := (getMode t s, isProgTrack (drivers s ! t), m)]"
proof -
  have "view_of (drivers (Motors.setPower h m t s) ! t) = (getMode t s, isProgTrack (drivers s ! t), m)"
    by (subst setPower_driver(2) [OF assms]) (simp add: view_of_def getMode_def)
  then show ?thesis unfolding view_def by (subst setPower_drivers [OF assms]) (simp add: map_update)
qed

section \<open>The overload check\<close>

text \<open>What the checks of a driver leave as it is.\<close>

definition config :: "MotorDriver \<Rightarrow> u16 \<times> bool \<times> POWERMODE \<times> u32 \<times> byte \<times> bool" where
  "config d = (powerPin d, invertPower d, powerMode d, overload_wait d, trackMode d, isProgTrack d)"

lemma config_eqD:
  "config d = config d' \<Longrightarrow> powerPin d = powerPin d' \<and> invertPower d = invertPower d' \<and> powerMode d = powerMode d' \<and>
     overload_wait d = overload_wait d' \<and> trackMode d = trackMode d' \<and> isProgTrack d = isProgTrack d'"
  by (simp add: config_def)

lemma config_checks [simp]:
  "config (snd (checkFault h d)) = config d" "config (snd (checkCurrent h b d)) = config d"
  "config (snd (microsSinceLastPowerChange h m d)) = config d"
  "config (d\<lparr>lastBadSample := v\<rparr>) = config d" "config (d\<lparr>lastPowerMode := m\<rparr>) = config d"
  by (simp_all add: config_def checkFault_def checkCurrent_def microsSinceLastPowerChange_def Let_def)

lemma double_wait:
  assumes "40000 \<le> w" "w \<le> (10000000 :: u32)"
  shows "40000 \<le> (if 2 * w > 10000000 then 10000000 else 2 * w)"
proof -
  have "uint (2 * w) = 2 * uint w" using assms by (simp add: word_le_def uint_word_ariths)
  then show ?thesis using assms by (simp add: word_le_def)
qed

lemma replace_ok:
  assumes "shield_ok s" "t < length (drivers s)" "config d = config (drivers s ! t)"
  shows "shield_ok (set_driver t (\<lambda>_. d) s)" "view (set_driver t (\<lambda>_. d) s) = view s"
    "length (drivers (set_driver t (\<lambda>_. d) s)) = length (drivers s)"
proof -
  have "power_ok (touts s) (drivers s ! t)" using assms by (simp add: shield_ok_def list_all_length)
  then show "shield_ok (set_driver t (\<lambda>_. d) s)"
    using config_eqD [OF assms(3)] by (intro set_driver_ok assms(1)) (simp_all add: power_ok_def)
  show "view (set_driver t (\<lambda>_. d) s) = view s"
    using config_eqD [OF assms(3)] assms(2) by (simp add: view_def shield_simps map_update list_update_same_conv view_of_def)
qed (simp add: shield_simps)

text \<open>A call that may switch track \<open>t\<close>, but neither on nor off by hand, and keeps all else of the view.\<close>

definition guards :: "nat \<Rightarrow> (shield \<Rightarrow> shield) \<Rightarrow> shield \<Rightarrow> bool" where
  "guards t f s \<longleftrightarrow> shield_ok (f s) \<and> length (drivers (f s)) = length (drivers s) \<and>
     (\<exists>m. view (f s) = (view s)[t := (getMode t s, isProgTrack (drivers s ! t), m)] \<and> (m = POWER_OFF \<longleftrightarrow> getPower t s = POWER_OFF))"

lemma view_same: "t < length (drivers s) \<Longrightarrow> (view s)[t := (getMode t s, isProgTrack (drivers s ! t), getPower t s)] = view s"
  by (simp add: view_def list_update_same_conv view_of_def getMode_def getPower_def)

lemma guards_same:
  assumes "t < length (drivers s)" "shield_ok (f s)" "length (drivers (f s)) = length (drivers s)" "view (f s) = view s"
  shows "guards t f s"
  unfolding guards_def using assms view_same by (intro conjI exI [of _ "getPower t s"]) simp_all

lemma guards_power:
  assumes "t < length (drivers s)" "shield_ok s'" "length (drivers s') = length (drivers s)" "view s' = view s"
    and "m \<noteq> POWER_OFF" "getPower t s \<noteq> POWER_OFF"
  shows "guards t (\<lambda>s. Motors.setPower h m t s') s"
proof -
  have "view_of (drivers s' ! t) = view_of (drivers s ! t)" using assms(1,3,4) by (metis nth_map view_def)
  then show ?thesis
    unfolding guards_def using setPower_ok [OF assms(2), of t h m] setPower_view [of t s' h m] assms
    by (intro conjI exI [of _ m]) (simp_all add: view_of_def getMode_def)
qed

lemma set_config_ok:
  assumes "shield_ok s" "t < length (drivers s)" "\<And>d. config (g d) = config d"
  shows "shield_ok (set_driver t g s)" "view (set_driver t g s) = view s" "length (drivers (set_driver t g s)) = length (drivers s)"
proof -
  have "set_driver t g s = set_driver t (\<lambda>_. g (drivers s ! t)) s" by (simp add: set_driver_def)
  then show "shield_ok (set_driver t g s)" "view (set_driver t g s) = view s" "length (drivers (set_driver t g s)) = length (drivers s)"
    using replace_ok [OF assms(1,2,3)] by simp_all
qed

lemma guards_then:
  assumes "guards t f s" "t < length (drivers s)" "\<And>d. config (g d) = config d"
  shows "guards t (\<lambda>s. set_driver t g (f s)) s"
  using assms(1) set_config_ok [of "f s" t g, OF _ _ assms(3)] assms(2) by (simp add: guards_def)

lemma guards_at: "guards t f s \<longleftrightarrow> guards t (\<lambda>_. f s) s"
  by (simp add: guards_def)

lemma silent_length: "silent f \<Longrightarrow> length (drivers (f s)) = length (drivers s)"
  by (simp add: silentD)

lemmas kept = replace_ok silent_ok [OF silent_calls(6)] silent_length [OF silent_calls(6)]

lemma overload_ON_guards:
  assumes "t < length (drivers s)" "shield_ok s" "getPower t s = POWER_ON"
  shows "guards t (overload_ON h b t) s"
proof -
  let ?d = "(drivers s ! t)\<lparr>lastPowerMode := POWER_ON\<rparr>"
  let ?d2 = "snd (checkCurrent h b (snd (checkFault h ?d)))"
  note c = replace_ok [OF assms(2,1)]
  have p: "guards t (\<lambda>s'. Motors.setPower h POWER_ALERT t (set_driver t (\<lambda>_. ?d2) s)) s"
    by (rule guards_power) (use assms c in simp_all)
  then have q: "guards t (\<lambda>s'. set_driver t (\<lambda>d. d\<lparr>invertPhase := \<not> invertPhase d\<rparr>)
      (Motors.setPower h POWER_ALERT t (set_driver t (\<lambda>_. ?d2) s))) s"
    by (rule guards_then) (simp_all add: assms config_def)
  have w: "POWER_SAMPLE_OVERLOAD_WAIT \<le> POWER_SAMPLE_RETRY_MAX" by simp
  let ?d3 = "snd (microsSinceLastPowerChange h POWER_ON ?d2)"
  have r: "shield_ok (set_driver t (\<lambda>_. ?d3\<lparr>overload_wait := POWER_SAMPLE_OVERLOAD_WAIT\<rparr>) s)"
    "view (set_driver t (\<lambda>_. ?d3\<lparr>overload_wait := POWER_SAMPLE_OVERLOAD_WAIT\<rparr>) s) = view s"
  proof -
    have e: "config ?d3 = config (drivers s ! t)" by simp
    show "shield_ok (set_driver t (\<lambda>_. ?d3\<lparr>overload_wait := POWER_SAMPLE_OVERLOAD_WAIT\<rparr>) s)"
      using config_eqD [OF e] by (intro set_driver_ok assms(2)) simp_all
    show "view (set_driver t (\<lambda>_. ?d3\<lparr>overload_wait := POWER_SAMPLE_OVERLOAD_WAIT\<rparr>) s) = view s"
      using config_eqD [OF e] assms(1) by (simp add: view_def shield_simps map_update list_update_same_conv view_of_def)
  qed
  have "guards t (\<lambda>s'. set_driver t (\<lambda>_. ?d3\<lparr>overload_wait := POWER_SAMPLE_OVERLOAD_WAIT\<rparr>) s) s"
    by (rule guards_same) (use assms r in \<open>simp_all add: shield_simps\<close>)
  moreover have "guards t (\<lambda>s'. set_driver t (\<lambda>_. ?d3) s) s"
    by (rule guards_same) (use assms c in simp_all)
  ultimately show ?thesis using p q by (simp add: guards_def overload_ON_def Let_def case_prod_beta)
qed

lemma overload_ALERT_guards:
  assumes "t < length (drivers s)" "shield_ok s" "getPower t s = POWER_ALERT"
  shows "guards t (overload_ALERT h b t) s"
proof -
  let ?set = "\<lambda>d. set_driver t (\<lambda>_. d)" and ?in = "\<lambda>b. throttleInrush b t"
  have keep: "shield_ok (?set d s) \<and> view (?set d s) = view s" "shield_ok (?in i (?set d s)) \<and> view (?in i (?set d s)) = view s"
    "shield_ok (?set e (?in i (?set d s))) \<and> view (?set e (?in i (?set d s))) = view s"
    "shield_ok (?in j (?set e (?in i (?set d s)))) \<and> view (?in j (?set e (?in i (?set d s)))) = view s"
    if "config d = config (drivers s ! t)" "config e = config (drivers s ! t)" for d e i j
  proof -
    note 1 = replace_ok [OF assms(2,1) that(1)] and q = silent_ok [OF silent_calls(6)] silent_length [OF silent_calls(6)]
    show "shield_ok (?set d s) \<and> view (?set d s) = view s" "shield_ok (?in i (?set d s)) \<and> view (?in i (?set d s)) = view s"
      using 1 by (simp_all add: q)
    have "drivers (?in i (?set d s)) ! t = d" using assms(1) by (simp add: silentD [OF silent_calls(6)] shield_simps)
    then have 2: "shield_ok (?set e (?in i (?set d s)))" "view (?set e (?in i (?set d s))) = view s"
      using replace_ok [of "?in i (?set d s)" t e] that 1 assms(1) by (simp_all add: q)
    then show "shield_ok (?set e (?in i (?set d s))) \<and> view (?set e (?in i (?set d s))) = view s"
      "shield_ok (?in j (?set e (?in i (?set d s)))) \<and> view (?in j (?set e (?in i (?set d s)))) = view s"
      by (simp_all add: q)
  qed
  have same: "guards t (\<lambda>_. s') s" and power: "m \<noteq> POWER_OFF \<Longrightarrow> guards t (\<lambda>_. Motors.setPower h m t s') s"
    if "shield_ok s' \<and> view s' = view s" for s' m
  proof -
    have "length (drivers s') = length (drivers s)" using that by (metis length_map view_def)
    then show "guards t (\<lambda>_. s') s" "m \<noteq> POWER_OFF \<Longrightarrow> guards t (\<lambda>_. Motors.setPower h m t s') s"
      using that assms guards_same [of t s "\<lambda>_. s'"] guards_power [of t s s' m h] by simp_all
  qed
  show ?thesis
    by (subst guards_at) (simp add: overload_ALERT_def Let_def case_prod_beta same power keep)
qed

lemma wait_ok:
  assumes "shield_ok s" "t < length (drivers s)" "config d = config (drivers s ! t)"
    and "POWER_SAMPLE_OVERLOAD_WAIT \<le> v" "v \<le> POWER_SAMPLE_RETRY_MAX"
  shows "shield_ok (set_driver t (\<lambda>_. d\<lparr>overload_wait := v\<rparr>) s)" "view (set_driver t (\<lambda>_. d\<lparr>overload_wait := v\<rparr>) s) = view s"
  using config_eqD [OF assms(3)] assms
  by (auto intro!: set_driver_ok simp: view_def shield_simps map_update list_update_same_conv view_of_def)

lemma overload_OVERLOAD_guards:
  assumes "t < length (drivers s)" "shield_ok s" "getPower t s = POWER_OVERLOAD"
  shows "guards t (overload_OVERLOAD h t) s"
proof -
  let ?d = "(drivers s ! t)\<lparr>lastPowerMode := POWER_OVERLOAD\<rparr>"
  define r where "r = (if commonFaultPin ?d then (now h - globalOverloadStart s, ?d) else microsSinceLastPowerChange h POWER_OVERLOAD ?d)"
  let ?v = "if 2 * overload_wait (snd r) > POWER_SAMPLE_RETRY_MAX then POWER_SAMPLE_RETRY_MAX else 2 * overload_wait (snd r)"
  have c: "config (snd r) = config (drivers s ! t)" by (simp add: r_def)
  have "power_ok (touts s) (drivers s ! t)" using assms by (simp add: shield_ok_def list_all_length)
  then have "POWER_SAMPLE_OVERLOAD_WAIT \<le> ?v" "?v \<le> POWER_SAMPLE_RETRY_MAX"
    using double_wait [of "overload_wait (snd r)"] config_eqD [OF c] by (auto simp: power_ok_def)
  note v = wait_ok [OF assms(2,1) c this]
  have "guards t (\<lambda>_. Motors.setPower h POWER_ALERT t (emit_out [PowerEvent t True] (set_driver t (\<lambda>_. (snd r)\<lparr>overload_wait := ?v\<rparr>) s))) s"
  proof (rule guards_power)
    have "silent (emit_out [PowerEvent t True])" by (simp add: silent_def shield_simps written_append)
    then show "shield_ok (emit_out [PowerEvent t True] (set_driver t (\<lambda>_. (snd r)\<lparr>overload_wait := ?v\<rparr>) s))"
      "view (emit_out [PowerEvent t True] (set_driver t (\<lambda>_. (snd r)\<lparr>overload_wait := ?v\<rparr>) s)) = view s"
      using v silent_ok by simp_all
  qed (use assms in \<open>simp_all add: shield_simps\<close>)
  moreover have "guards t (\<lambda>_. set_driver t (\<lambda>_. snd r) s) s"
    by (rule guards_same) (use assms replace_ok [OF assms(2,1) c] in simp_all)
  moreover have "overload_OVERLOAD h t s =
      (if fst r > overload_wait (snd r)
       then Motors.setPower h POWER_ALERT t (emit_out [PowerEvent t True] (set_driver t (\<lambda>_. (snd r)\<lparr>overload_wait := ?v\<rparr>) s))
       else set_driver t (\<lambda>_. snd r) s)"
    unfolding overload_OVERLOAD_def Let_def case_prod_beta r_def by (rule refl)
  ultimately show ?thesis by (subst guards_at) simp
qed

lemma check_guards:
  assumes "t < length (drivers s)" "shield_ok s"
  shows "guards t (checkPowerOverload h b t) s"
proof (cases "getPower t s")
  case POWER_OFF
  let ?f = "\<lambda>d. d\<lparr>lastPowerMode := POWER_OFF, overload_wait := POWER_SAMPLE_OVERLOAD_WAIT\<rparr>"
  have "guards t (\<lambda>_. set_driver t ?f s) s"
    by (rule guards_same)
      (use assms in \<open>auto intro!: set_driver_ok simp: shield_simps view_def map_update list_update_same_conv view_of_def\<close>)
  then show ?thesis using POWER_OFF by (simp add: guards_def checkPowerOverload_def)
qed (use overload_ON_guards overload_ALERT_guards overload_OVERLOAD_guards assms in \<open>simp_all add: guards_def checkPowerOverload_def\<close>)

section \<open>The invariant\<close>

definition valid_mode :: "byte \<Rightarrow> bool" where
  "valid_mode m \<longleftrightarrow> (m AND TRACK_MODE_NONE \<noteq> 0 \<longrightarrow> m AND TRACK_ALL = 0) \<and>
     (m AND TRACK_MODE_PROG \<noteq> 0 \<longrightarrow> m AND TRACK_MODE_DC = 0)"

text \<open>The rules for one track, and for all.\<close>

definition mode_rules :: "bool \<Rightarrow> byte \<times> bool \<times> POWERMODE \<Rightarrow> bool" where
  "mode_rules stray v = (case v of (m, prog, p) \<Rightarrow>
     valid_mode m \<and> (prog \<longleftrightarrow> m AND TRACK_MODE_PROG \<noteq> 0) \<and> (m AND TRACK_MODE_NONE \<noteq> 0 \<longrightarrow> stray \<or> p = POWER_OFF))"

definition one_prog :: "(byte \<times> bool \<times> POWERMODE) list \<Rightarrow> bool" where
  "one_prog vs \<longleftrightarrow> (\<forall>t < length vs. \<forall>u < length vs.
     fst (vs ! t) AND TRACK_MODE_PROG \<noteq> 0 \<longrightarrow> fst (vs ! u) AND TRACK_MODE_PROG \<noteq> 0 \<longrightarrow> t = u)"

definition tracks_inv :: "bool \<Rightarrow> tracks \<Rightarrow> bool" where
  "tracks_inv stray x \<longleftrightarrow> shield_ok (shield_of x) \<and> list_all (mode_rules stray) (view (shield_of x)) \<and> one_prog (view (shield_of x)) \<and>
     num_tracks x \<le> MAX_TRACKS \<and> length (trackDCAddr x) = MAX_TRACKS \<and>
     (\<forall>t < num_tracks x. trackDCAddr x ! t \<noteq> 0 \<longrightarrow> has_mode t TRACK_MODE_DC (shield_of x))"

lemma on_shield_simps [simp]:
  "shield_of (on_shield f x) = f (shield_of x)" "trackDCAddr (on_shield f x) = trackDCAddr x"
  "progTrackSyncMain (on_shield f x) = progTrackSyncMain x" "joinRelay (on_shield f x) = joinRelay x"
  by (simp_all add: on_shield_def)

lemma view_nth: "t < length (drivers s) \<Longrightarrow> view s ! t = (getMode t s, isProgTrack (drivers s ! t), getPower t s)"
  by (simp add: view_def view_of_def getMode_def getPower_def)

lemma length_view [simp]: "length (view s) = length (drivers s)"
  by (simp add: view_def)

lemma same_view_mode:
  "view s' = view s \<Longrightarrow> t < length (drivers s) \<Longrightarrow> getMode t s' = getMode t s"
  by (metis length_map view_def view_nth prod.inject)

text \<open>A call that keeps the modes: the rest follows from the powers it leaves.\<close>

lemma inv_power:
  assumes "tracks_inv stray x" "t < num_tracks x" "shield_ok s'" 
    "view s' = (view (shield_of x))[t := (getMode t (shield_of x), isProgTrack (drivers (shield_of x) ! t), p)]"
    "has_mode t TRACK_MODE_NONE (shield_of x) \<Longrightarrow> stray \<or> p = POWER_OFF"
  shows "tracks_inv stray (x\<lparr>shield_of := s'\<rparr>)"
proof -
  let ?s = "shield_of x"
  have n: "length (drivers s') = length (drivers ?s)" using assms(4) by (metis length_list_update length_view)
  have t: "t < length (drivers ?s)" using assms(2) by (simp add: num_tracks_def)
  have m: "getMode u s' = getMode u ?s" if "u < length (drivers ?s)" for u
    using assms(4) that n view_nth [of u s'] view_nth [of u ?s] by (cases "u = t") auto
  have "mode_rules stray (view s' ! u)" if "u < length (drivers ?s)" for u
    using assms(1,4,5) that t view_nth [OF t]
    by (cases "u = t") (auto simp: tracks_inv_def list_all_length mode_rules_def has_mode_def)
  moreover have "fst (view s' ! u) = fst (view ?s ! u)" if "u < length (drivers ?s)" for u
    using m that n view_nth [of u s'] view_nth [of u ?s] by simp
  then have "one_prog (view s')" using assms(1) n by (simp add: one_prog_def tracks_inv_def)
  ultimately show ?thesis using assms(1,3) n m
    by (simp add: tracks_inv_def list_all_length num_tracks_def has_mode_def)
qed

lemma inv_mode:
  assumes "tracks_inv stray x" "t < num_tracks x" "shield_ok s'" "view s' = (view (shield_of x))[t := (m, m AND TRACK_MODE_PROG \<noteq> 0, p)]"
    and "valid_mode m" "m AND TRACK_MODE_NONE \<noteq> 0 \<Longrightarrow> stray \<or> p = POWER_OFF"
    and "\<And>u. m AND TRACK_MODE_PROG \<noteq> 0 \<Longrightarrow> u < num_tracks x \<Longrightarrow> u \<noteq> t \<Longrightarrow> \<not> has_mode u TRACK_MODE_PROG (shield_of x)"
    and "v \<noteq> 0 \<Longrightarrow> m AND TRACK_MODE_DC \<noteq> 0"
  shows "tracks_inv stray (x\<lparr>shield_of := s', trackDCAddr := (trackDCAddr x)[t := v]\<rparr>)"
proof -
  let ?s = "shield_of x"
  have n: "length (drivers s') = length (drivers ?s)" using assms(4) by (metis length_list_update length_view)
  have t: "t < length (drivers ?s)" using assms(2) by (simp add: num_tracks_def)
  have m: "getMode u s' = (if u = t then m else getMode u ?s)" if "u < length (drivers ?s)" for u
    using assms(4) that n view_nth [of u s'] view_nth [of u ?s] by (cases "u = t") auto
  have "mode_rules stray (view s' ! u)" if "u < length (drivers ?s)" for u
    using assms that t by (cases "u = t") (auto simp: tracks_inv_def list_all_length mode_rules_def)
  moreover have f: "fst (view s' ! u) = (if u = t then m else fst (view ?s ! u))" if "u < length (drivers ?s)" for u
    using m that n view_nth [of u s'] view_nth [of u ?s] by simp
  have o: "one_prog (view s')" unfolding one_prog_def
  proof (intro allI impI)
    fix u w
    assume a: "u < length (view s')" "w < length (view s')"
      "fst (view s' ! u) AND TRACK_MODE_PROG \<noteq> 0" "fst (view s' ! w) AND TRACK_MODE_PROG \<noteq> 0"
    have e: "has_mode k TRACK_MODE_PROG ?s \<longleftrightarrow> fst (view ?s ! k) AND TRACK_MODE_PROG \<noteq> 0" if "k < length (drivers ?s)" for k
      using that by (simp add: has_mode_def view_nth)
    have l: "u < length (drivers ?s)" "w < length (drivers ?s)" using a(1,2) n by simp_all
    consider "u = t" "w = t" | "u = t" "w \<noteq> t" | "u \<noteq> t" "w = t" | "u \<noteq> t" "w \<noteq> t" by blast
    then show "u = w"
    proof cases
      case 2
      then have "m AND TRACK_MODE_PROG \<noteq> 0" "has_mode w TRACK_MODE_PROG ?s" using a(3,4) f l e by simp_all
      then show ?thesis using assms(7) l 2 by (simp add: num_tracks_def)
    next
      case 3
      then have "m AND TRACK_MODE_PROG \<noteq> 0" "has_mode u TRACK_MODE_PROG ?s" using a(3,4) f l e by simp_all
      then show ?thesis using assms(7) l 3 by (simp add: num_tracks_def)
    next
      case 4
      then have "fst (view ?s ! u) AND TRACK_MODE_PROG \<noteq> 0" "fst (view ?s ! w) AND TRACK_MODE_PROG \<noteq> 0" using a(3,4) f l by simp_all
      moreover have "one_prog (view ?s)" using assms(1) by (simp add: tracks_inv_def)
      ultimately show ?thesis using l unfolding one_prog_def by simp
    qed simp
  qed
  moreover have "has_mode u TRACK_MODE_DC s'" if "u < length (drivers ?s)" "(trackDCAddr x)[t := v] ! u \<noteq> 0" for u
    using that assms(1,8) t m [OF that(1)] by (cases "u = t") (auto simp: tracks_inv_def num_tracks_def has_mode_def)
  ultimately show ?thesis using assms(1,3) n by (simp add: tracks_inv_def list_all_length num_tracks_def)
qed

lemma inv_same:
  assumes "tracks_inv stray x" "shield_ok s'" "view s' = view (shield_of x)"
  shows "tracks_inv stray (x\<lparr>shield_of := s'\<rparr>)"
proof -
  have n: "length (drivers s') = length (drivers (shield_of x))" using assms(3) by (metis length_view)
  show ?thesis using assms n same_view_mode [OF assms(3)] by (simp add: tracks_inv_def num_tracks_def has_mode_def)
qed

lemma inv_fields [simp]:
  "tracks_inv stray (x\<lparr>progTrackSyncMain := b\<rparr>) = tracks_inv stray x" "tracks_inv stray (x\<lparr>progTrackBoosted := b\<rparr>) = tracks_inv stray x"
  "tracks_inv stray (x\<lparr>joinRelay := v\<rparr>) = tracks_inv stray x" "tracks_inv stray (x\<lparr>nextCycleTrack := t\<rparr>) = tracks_inv stray x"
  by (simp_all add: tracks_inv_def num_tracks_def)

lemma inv_silent: "tracks_inv stray x \<Longrightarrow> silent f \<Longrightarrow> tracks_inv stray (on_shield f x)"
  using inv_same [of stray x "f (shield_of x)"] silent_ok [of f] by (simp add: tracks_inv_def on_shield_def)

lemma silent_emit: "list_all (\<lambda>e. \<forall>p b. e \<noteq> PowerPin p b) es \<Longrightarrow> silent (emit_out es)"
proof -
  have "list_all (\<lambda>e. \<forall>p b. e \<noteq> PowerPin p b) es \<Longrightarrow>
      fold (\<lambda>e r. case e of PowerPin q b \<Rightarrow> if q = p then Some b else r | _ \<Rightarrow> r) es r = r" for p r
    by (induction es arbitrary: r) (auto split: track_out.split)
  then show "list_all (\<lambda>e. \<forall>p b. e \<noteq> PowerPin p b) es \<Longrightarrow> silent (emit_out es)" by (simp add: silent_def shield_simps written_append)
qed

lemma silent_comp: "silent f \<Longrightarrow> silent g \<Longrightarrow> silent (\<lambda>s. f (g s))"
  by (simp add: silent_def)

lemma stream_inv: "tracks_inv stray x \<Longrightarrow> tracks_inv stray (streamTrackState t x)"
  by (simp add: streamTrackState_def inv_silent silent_emit)

lemma num_silent: "silent f \<Longrightarrow> num_tracks (on_shield f x) = num_tracks x" "silent f \<Longrightarrow> has_mode t m (f s) = has_mode t m s"
  by (simp_all add: num_tracks_def silentD has_mode_def getMode_def)

lemma setPower_inv:
  assumes "tracks_inv stray x" "t < num_tracks x" "has_mode t TRACK_MODE_NONE (shield_of x) \<Longrightarrow> stray \<or> p = POWER_OFF"
  shows "tracks_inv stray (on_shield (Motors.setPower h p t) x)"
  using inv_power [OF assms(1,2) setPower_ok setPower_view assms(3)] assms(1,2) by (simp add: tracks_inv_def num_tracks_def on_shield_def)

lemma applyDCSpeed_silent: "\<exists>f. silent f \<and> applyDCSpeed c t x = on_shield f x"
  unfolding applyDCSpeed_def Let_def using silent_calls(4) by blast

lemma prepare_silent: "\<exists>f. silent f \<and> prepare_on c t x = on_shield f x"
proof (cases "has_mode t TRACK_MODE_DC (shield_of x)")
  case True
  obtain f where f: "silent f" "applyDCSpeed c t (on_shield (setBrake True t) x) = on_shield f (on_shield (setBrake True t) x)"
    using applyDCSpeed_silent by blast
  then have "silent (\<lambda>s. f (setBrake True t s))" using silent_comp silent_calls(1) by blast
  then show ?thesis using True f by (intro exI [of _ "\<lambda>s. f (setBrake True t s)"]) (simp add: prepare_on_def on_shield_def)
next
  case False
  then show ?thesis using silent_comp [OF silent_calls(1) silent_calls(1)]
    by (intro exI [of _ "\<lambda>s. setBrake False t (setBrake True t s)"]) (simp add: prepare_on_def)
qed

text \<open>The modes of the tracks, which switching the power leaves.\<close>

definition modes :: "tracks \<Rightarrow> byte list" where
  "modes x = map trackMode (drivers (shield_of x))"

lemma modes_simps:
  "num_tracks x = length (modes x)" "t < num_tracks x \<Longrightarrow> has_mode t m (shield_of x) \<longleftrightarrow> modes x ! t AND m \<noteq> 0"
  by (simp_all add: modes_def num_tracks_def has_mode_def getMode_def)

lemma modes_silent: "silent f \<Longrightarrow> modes (on_shield f x) = modes x"
  by (simp add: modes_def silentD)

lemma modes_view: "modes x = map fst (view (shield_of x))"
  by (simp add: modes_def view_def view_of_def)

lemma modes_setPower: "t < num_tracks x \<Longrightarrow> modes (on_shield (Motors.setPower h p t) x) = modes x"
  using setPower_view [of t "shield_of x" h p]
  by (simp add: modes_view num_tracks_def map_update list_update_same_conv view_nth)

section \<open>Every call keeps it\<close>

lemma power_one_inv:
  assumes "tracks_inv stray x" "t < num_tracks x" "\<not> has_mode t TRACK_MODE_NONE (shield_of x)"
  shows "tracks_inv stray (power_one h c p t x)" "modes (power_one h c p t x) = modes x"
proof -
  obtain f where f: "silent f" "(if p = POWER_ON then prepare_on c t x else x) = on_shield f x"
  proof (cases "p = POWER_ON")
    case True
    with prepare_silent that show thesis by metis
  next
    case False
    have "silent (\<lambda>s. s)" "on_shield (\<lambda>s. s) x = x" by (simp_all add: silent_def on_shield_def)
    with False that show thesis by metis
  qed
  show "tracks_inv stray (power_one h c p t x)" unfolding power_one_def f(2)
    using assms f by (intro setPower_inv inv_silent) (simp_all add: num_silent)
  show "modes (power_one h c p t x) = modes x"
    unfolding power_one_def f(2) using assms f by (simp add: modes_setPower modes_silent num_silent)
qed

lemma fold_inv:
  assumes "\<And>x t. P x \<Longrightarrow> t \<in> set ts \<Longrightarrow> P (f t x)" "P x"
  shows "P (fold f ts x)"
  using assms by (induction ts arbitrary: x) auto

lemma power_broadcast: "tracks_inv stray x \<Longrightarrow> tracks_inv stray (on_shield (emit_out [BroadcastPower]) x)"
  by (simp add: inv_silent silent_emit)

lemma and_within: "m AND NOT a = 0 \<Longrightarrow> k AND a = 0 \<Longrightarrow> k AND m = (0 :: byte)"
  unfolding bit_eq_iff by (auto simp: bit_simps)

lemma setModePower_inv:
  assumes "tracks_inv stray x" "m AND NOT TRACK_ALL = 0"
  shows "tracks_inv stray (setModePower h c m p x)"
proof -
  let ?P = "\<lambda>y. tracks_inv stray y \<and> modes y = modes x"
  have "?P (fold (power_one h c p) (in_mode m x) x)"
  proof (rule fold_inv [of ?P])
    fix y t
    assume y: "?P y" and "t \<in> set (in_mode m x)"
    then have t: "t < num_tracks x" "modes x ! t AND m \<noteq> 0" by (auto simp: in_mode_def each_track_def modes_simps(2))
    then have n: "t < num_tracks y" using y by (simp add: modes_simps(1))
    have "valid_mode (modes x ! t)"
      using assms(1) t(1) view_nth [of t "shield_of x"]
      by (auto simp: tracks_inv_def list_all_length mode_rules_def num_tracks_def modes_def getMode_def)
    moreover have "modes x ! t AND TRACK_ALL \<noteq> 0" using t(2) and_within [OF assms(2)] by blast
    ultimately have "modes x ! t AND TRACK_MODE_NONE = 0" by (auto simp: valid_mode_def)
    then have "\<not> has_mode t TRACK_MODE_NONE (shield_of y)" using y n by (simp add: modes_simps(2))
    then show "?P (power_one h c p t y)" using y n power_one_inv [of stray y t h c p] by simp
  qed (use assms(1) in simp)
  then show ?thesis using power_broadcast by (simp add: setModePower_def Let_def)
qed

lemma setTrackPower_inv:
  assumes "tracks_inv stray x"
  shows "tracks_inv stray (setTrackPower h c p t x)"
proof (cases "t < num_tracks x")
  case True
  have "tracks_inv stray (on_shield (Motors.setPower h POWER_OFF t) (on_shield (setBrake True t) x))"
    using True by (intro setPower_inv inv_silent assms silent_calls) (simp_all add: num_silent silent_calls)
  then have "tracks_inv stray (on_shield (\<lambda>s. Motors.setPower h POWER_OFF t (setBrake True t s)) x)" by (simp add: on_shield_def)
  then show ?thesis using power_one_inv [OF assms True] power_broadcast True by (simp add: setTrackPower_def Let_def)
qed (simp add: setTrackPower_def assms)

lemma setJoin_inv: "tracks_inv stray x \<Longrightarrow> tracks_inv stray (setJoin b x)" "tracks_inv stray x \<Longrightarrow> tracks_inv stray (setJoinRelayPin v x)"
  by (simp_all add: setJoin_def setJoinRelayPin_def Let_def inv_silent silent_emit)

lemma loop_inv:
  assumes "tracks_inv stray x"
  shows "tracks_inv stray (tracks_loop h b x)"
proof -
  define t where "t = (if nextCycleTrack x + 1 \<ge> num_tracks x then 0 else nextCycleTrack x + 1)"
  define y where "y = x\<lparr>nextCycleTrack := t\<rparr>"
  have y: "tracks_inv stray y" "num_tracks y = num_tracks x" using assms by (simp_all add: y_def num_tracks_def)
  have "tracks_inv stray (on_shield (checkPowerOverload h l t) y)" if t: "t < num_tracks y" for l
  proof -
    have l: "t < length (drivers (shield_of y))" "shield_ok (shield_of y)" using t y(1) by (simp_all add: num_tracks_def tracks_inv_def)
    obtain m where m: "view (checkPowerOverload h l t (shield_of y)) =
        (view (shield_of y))[t := (getMode t (shield_of y), isProgTrack (drivers (shield_of y) ! t), m)]"
      "m = POWER_OFF \<longleftrightarrow> getPower t (shield_of y) = POWER_OFF" "shield_ok (checkPowerOverload h l t (shield_of y))"
      using check_guards [OF l] unfolding guards_def by blast
    have "mode_rules stray (view (shield_of y) ! t)" using y(1) l by (simp add: tracks_inv_def list_all_length)
    then have "has_mode t TRACK_MODE_NONE (shield_of y) \<Longrightarrow> stray \<or> m = POWER_OFF"
      using l view_nth [of t "shield_of y"] m(2) by (auto simp: mode_rules_def has_mode_def)
    from inv_power [OF y(1) t m(3,1) this] show ?thesis by (simp add: on_shield_def)
  qed
  moreover have "tracks_loop h b x = (if t \<ge> num_tracks y then y
      else on_shield (checkPowerOverload h (\<not> (b \<or> progTrackSyncMain x \<or> progTrackBoosted x) \<and> has_mode t TRACK_MODE_PROG (shield_of y)) t) y)"
    unfolding tracks_loop_def Let_def t_def y_def by (rule refl)
  ultimately show ?thesis using y(1) by simp
qed

lemma accuracy_ok:
  assumes "shield_ok s"
  shows "shield_ok (set_accuracy h s)" "view (set_accuracy h s) = view s"
proof -
  have scan: "shield_ok s \<Longrightarrow> list_all (\<lambda>t. t < length (drivers s)) ts \<Longrightarrow>
      shield_ok (snd (pwm_scan h ts b s)) \<and> view (snd (pwm_scan h ts b s)) = view s" for ts b s
  proof (induction ts arbitrary: b s)
    case (Cons t ts)
    have e: "config (d\<lparr>trackPWM := v\<rparr>) = config d" for d v by (simp add: config_def)
    note k = set_config_ok [OF Cons.prems(1) _ e, of t]
    show ?case using Cons k by (simp add: Let_def)
  qed simp
  have all: "shield_ok s \<Longrightarrow> shield_ok (s\<lparr>drivers := map (\<lambda>d. d\<lparr>trackPWM := False\<rparr>) (drivers s)\<rparr>)"
    "view (s\<lparr>drivers := map (\<lambda>d. d\<lparr>trackPWM := False\<rparr>) (drivers s)\<rparr>) = view s" for s
    by (simp_all add: shield_ok_def view_def view_of_def list_all_iff power_ok_def comp_def)
  have q: "silent (emit_out [ClearPWM])" "silent (emit_out [RailcomPossible v])" for v by (simp_all add: silent_emit)
  show "shield_ok (set_accuracy h s)" "view (set_accuracy h s) = view s"
    using scan [OF assms, of "[0..<length (drivers s)]" True] all silent_ok [OF q(1)] silent_ok [OF q(2)]
    by (simp_all add: set_accuracy_def case_prod_beta Let_def list_all_iff)
qed

lemma none_valid: "valid_mode TRACK_MODE_NONE" "valid_mode TRACK_MODE_MAIN" "valid_mode TRACK_MODE_PROG" "valid_mode TRACK_MODE_EXT"
    "valid_mode TRACK_MODE_DC" "valid_mode (TRACK_MODE_DC OR TRACK_MODIFIER_INV)" "valid_mode (TRACK_MODE_MAIN OR TRACK_MODIFIER_INV)"
    "valid_mode (TRACK_MODE_MAIN OR TRACK_MODIFIER_AUTO)"
  by (simp_all add: valid_mode_def)

lemma revoke_inv:
  assumes "tracks_inv stray x" "t < num_tracks x" "has_mode t TRACK_MODE_PROG (shield_of x)"
  shows "tracks_inv stray (revoke_prog h t x)" "modes (revoke_prog h t x) = (modes x)[t := TRACK_MODE_NONE]"
proof -
  let ?s = "Motors.setPower h POWER_OFF t (shield_of x)"
  let ?f = "\<lambda>d. (setMode TRACK_MODE_NONE d)\<lparr>isProgTrack := False\<rparr>"
  let ?y = "on_shield (\<lambda>s. set_driver t ?f (Motors.setPower h POWER_OFF t s)) x"
  have t: "t < length (drivers (shield_of x))" "shield_ok (shield_of x)" using assms(1,2) by (simp_all add: num_tracks_def tracks_inv_def)
  have p: "power_ok (touts ?s) (drivers ?s ! t)" using setPower_ok [OF t(2,1), of h POWER_OFF] t(1) by (simp add: shield_ok_def list_all_length)
  have ok: "shield_ok (set_driver t ?f ?s)"
    by (rule set_driver_ok [OF setPower_ok [OF t(2,1)]]) (use p in \<open>simp_all add: power_ok_def setMode_def\<close>)
  have v: "view (set_driver t ?f ?s) = (view (shield_of x))[t := (TRACK_MODE_NONE, TRACK_MODE_NONE AND TRACK_MODE_PROG \<noteq> 0, POWER_OFF)]"
    using setPower_view [OF t(1), of h POWER_OFF] setPower_driver(1) [OF t(1), of h POWER_OFF] t(1)
    by (simp add: view_def shield_simps map_update view_of_def setMode_def)
  have "mode_rules stray (view (shield_of x) ! t)" using assms(1) t(1) by (simp add: tracks_inv_def list_all_length)
  then have "\<not> has_mode t TRACK_MODE_DC (shield_of x)"
    using assms(3) t(1) by (auto simp: mode_rules_def valid_mode_def has_mode_def view_nth)
  then have "trackDCAddr x ! t = 0" using assms(1,2) by (auto simp: tracks_inv_def)
  then have a: "(trackDCAddr x)[t := 0] = trackDCAddr x" by (metis list_update_id)
  have "tracks_inv stray (x\<lparr>shield_of := set_driver t ?f ?s, trackDCAddr := (trackDCAddr x)[t := 0]\<rparr>)"
    by (rule inv_mode [OF assms(1,2) ok v]) (simp_all add: none_valid)
  then have "tracks_inv stray ?y" by (simp add: a on_shield_def)
  then show "tracks_inv stray (revoke_prog h t x)" by (simp add: revoke_prog_def stream_inv)
  have "modes ?y = (modes x)[t := TRACK_MODE_NONE]" using v by (simp add: modes_view map_update)
  then show "modes (revoke_prog h t x) = (modes x)[t := TRACK_MODE_NONE]"
    by (simp add: revoke_prog_def streamTrackState_def modes_silent silent_emit)
qed

lemma revoke_all:
  assumes "tracks_inv stray x" "t < num_tracks x"
  defines "y \<equiv> \<lambda>h. fold (revoke_prog h) (filter (\<lambda>u. u \<noteq> t) (in_mode TRACK_MODE_PROG x)) x"
  shows "tracks_inv stray (y h) \<and> num_tracks (y h) = num_tracks x \<and> modes (y h) ! t = modes x ! t \<and>
    (\<forall>u < num_tracks x. u \<noteq> t \<longrightarrow> \<not> has_mode u TRACK_MODE_PROG (shield_of (y h)))"
proof -
  have step: "tracks_inv stray z \<Longrightarrow> distinct ts \<Longrightarrow> list_all (\<lambda>u. u < num_tracks z \<and> u \<noteq> t \<and> has_mode u TRACK_MODE_PROG (shield_of z)) ts \<Longrightarrow>
      tracks_inv stray (fold (revoke_prog h) ts z) \<and> num_tracks (fold (revoke_prog h) ts z) = num_tracks z \<and>
      modes (fold (revoke_prog h) ts z) = map (\<lambda>u. if u \<in> set ts then TRACK_MODE_NONE else modes z ! u) [0..<num_tracks z]" for ts z
  proof (induction ts arbitrary: z)
    case Nil
    then show ?case by (simp add: modes_simps(1) map_nth)
  next
    case (Cons u ts)
    let ?z = "revoke_prog h u z"
    have u: "u < num_tracks z" "u \<noteq> t" "has_mode u TRACK_MODE_PROG (shield_of z)" using Cons.prems(3) by simp_all
    note r = revoke_inv [OF Cons.prems(1) u(1,3), of h]
    have n: "num_tracks ?z = num_tracks z" using r(2) by (simp add: modes_simps(1))
    have "list_all (\<lambda>u. u < num_tracks ?z \<and> u \<noteq> t \<and> has_mode u TRACK_MODE_PROG (shield_of ?z)) ts"
      unfolding list_all_iff
    proof
      fix w
      assume "w \<in> set ts"
      then have w: "w \<noteq> u" "w < num_tracks z" "w \<noteq> t" "has_mode w TRACK_MODE_PROG (shield_of z)"
        using Cons.prems(2,3) by (auto simp: list_all_iff)
      then show "w < num_tracks ?z \<and> w \<noteq> t \<and> has_mode w TRACK_MODE_PROG (shield_of ?z)"
        using n r(2) modes_simps(2) [of w z] modes_simps(2) [of w ?z] by simp
    qed
    from Cons.IH [OF r(1) _ this] show ?case using Cons.prems(2) r(2) n u(1)
      by (auto simp: nth_list_update modes_simps(1))
  qed
  have "list_all (\<lambda>u. u < num_tracks x \<and> u \<noteq> t \<and> has_mode u TRACK_MODE_PROG (shield_of x)) (filter (\<lambda>u. u \<noteq> t) (in_mode TRACK_MODE_PROG x))"
    by (auto simp: list_all_iff in_mode_def each_track_def)
  from step [OF assms(1) _ this] have s: "tracks_inv stray (y h)" "num_tracks (y h) = num_tracks x"
    "modes (y h) = map (\<lambda>u. if u \<in> set (filter (\<lambda>u. u \<noteq> t) (in_mode TRACK_MODE_PROG x)) then TRACK_MODE_NONE else modes x ! u) [0..<num_tracks x]"
    by (simp_all add: y_def in_mode_def each_track_def)
  have "modes (y h) ! t = modes x ! t" using s(3) assms(2) by simp
  moreover have "\<not> has_mode u TRACK_MODE_PROG (shield_of (y h))" if "u < num_tracks x" "u \<noteq> t" for u
    using that s by (auto simp: modes_simps(2) in_mode_def each_track_def)
  ultimately show ?thesis using s(1,2) by blast
qed

lemma view_set: "t < length (drivers s) \<Longrightarrow> view (set_driver t f s) = (view s)[t := view_of (f (drivers s ! t))]"
  by (simp add: view_def shield_simps map_update)

lemma mode_set_ok:
  assumes "shield_ok s" "t < length (drivers s)"
  shows "shield_ok (set_driver t (\<lambda>d. d\<lparr>isProgTrack := b\<rparr>) s)" "shield_ok (set_driver t (setMode m) s)"
proof -
  have "power_ok (touts s) (drivers s ! t)" using assms by (simp add: shield_ok_def list_all_length)
  then show "shield_ok (set_driver t (\<lambda>d. d\<lparr>isProgTrack := b\<rparr>) s)" "shield_ok (set_driver t (setMode m) s)"
    by (auto intro!: set_driver_ok assms(1) simp: power_ok_def setMode_def)
qed

text \<open>The part of \<^verbatim>\<open>setTrackMode\<close> on the drivers, with \<open>g\<close>, \<open>k\<close> for the signals and \<open>off\<close> for the power.\<close>

lemma switch_mode:
  fixes b h m
  assumes "shield_ok s" "t < length (drivers s)" "silent g" "silent k"
  defines "s1 \<equiv> set_driver t (\<lambda>d. d\<lparr>isProgTrack := b\<rparr>) s"
  defines "s2 \<equiv> \<lambda>i. k (set_accuracy h (enableSignal i t (set_driver t (setMode m) (g s1))))"
  shows "shield_ok (s2 i) \<and> view (s2 i) = (view s)[t := (m, b, getPower t s)]"
    "shield_ok (Motors.setPower h POWER_OFF t (s2 i)) \<and> view (Motors.setPower h POWER_OFF t (s2 i)) = (view s)[t := (m, b, POWER_OFF)]"
proof -
  have s1: "shield_ok s1" "view s1 = (view s)[t := (getMode t s, b, getPower t s)]" "length (drivers s1) = length (drivers s)"
    using mode_set_ok assms(1,2) by (simp_all add: s1_def view_set view_of_def getMode_def getPower_def shield_simps)
  have g: "shield_ok (g s1)" "view (g s1) = view s1" "length (drivers (g s1)) = length (drivers s)" "drivers (g s1) = drivers s1"
    using silent_ok [OF assms(3)] s1 by (simp_all add: silentD [OF assms(3)])
  let ?s3 = "set_driver t (setMode m) (g s1)"
  have s3: "shield_ok ?s3" "view ?s3 = (view s)[t := (m, b, getPower t s)]"
    using mode_set_ok [OF g(1)] g s1 assms(2)
    by (simp_all add: view_set view_of_def setMode_def getPower_def s1_def shield_simps)
  have s4: "shield_ok (enableSignal i t ?s3)" "view (enableSignal i t ?s3) = view ?s3"
    using silent_ok [OF silent_calls(3)] s3 by simp_all
  show s2: "shield_ok (s2 i) \<and> view (s2 i) = (view s)[t := (m, b, getPower t s)]"
    using silent_ok [OF assms(4)] accuracy_ok [OF s4(1), of h] s3(2) s4(2) by (simp add: s2_def)
  have n: "t < length (drivers (s2 i))" using s2 assms(2) by (metis length_list_update length_view)
  have "getMode t (s2 i) = m \<and> isProgTrack (drivers (s2 i) ! t) = b"
    using view_nth [OF n] s2 assms(2) by simp
  then show "shield_ok (Motors.setPower h POWER_OFF t (s2 i)) \<and> view (Motors.setPower h POWER_OFF t (s2 i)) = (view s)[t := (m, b, POWER_OFF)]"
    using setPower_ok [OF _ n] setPower_view [OF n, of h POWER_OFF] s2 by simp
qed

lemma setTrackMode_inv:
  assumes "tracks_inv stray x" "valid_mode mode"
  shows "tracks_inv stray (snd (setTrackMode h c t mode dcAddr True x))"
proof (cases "t < num_tracks x \<and> (mode AND TRACK_MODE_DC \<noteq> 0 \<longrightarrow> brakeCanPWM h (drivers (shield_of x) ! t))")
  case True
  let ?prog = "mode AND TRACK_MODE_PROG \<noteq> 0" and ?dc = "mode AND TRACK_MODE_DC \<noteq> 0"
  define y where "y = (if ?prog then fold (revoke_prog h) (filter (\<lambda>u. u \<noteq> t) (in_mode TRACK_MODE_PROG x)) x else x)"
  have y: "tracks_inv stray y" "num_tracks y = num_tracks x" "modes y ! t = modes x ! t"
    "\<And>u. ?prog \<Longrightarrow> u < num_tracks y \<Longrightarrow> u \<noteq> t \<Longrightarrow> \<not> has_mode u TRACK_MODE_PROG (shield_of y)"
    using revoke_all [OF assms(1), of t h] assms(1) True by (auto simp: y_def)
  have t: "t < length (drivers (shield_of y))" "shield_ok (shield_of y)" using True y by (simp_all add: num_tracks_def tracks_inv_def)
  have old: "getMode t (shield_of y) = getMode t (shield_of x)" using y(3) True y(2) by (simp add: modes_def getMode_def num_tracks_def)
  let ?y1 = "on_shield (set_driver t (\<lambda>d. d\<lparr>isProgTrack := ?prog\<rparr>)) y"
  have idle: "silent (\<lambda>s. s)" "on_shield (\<lambda>s. s) z = z" for z by (simp_all add: silent_def on_shield_def)
  obtain g where g: "silent g" "(if ?dc
       then (if trackDCAddr ?y1 ! t \<noteq> dcAddr \<and> trackDCAddr ?y1 ! t \<noteq> 0 then on_shield (detachDCSignal t) ?y1 else ?y1)
       else on_shield (\<lambda>s. setBrake False t (detachDCSignal t s)) ?y1) = on_shield g ?y1"
    using silent_calls(5) silent_comp [OF silent_calls(1) silent_calls(5)] idle by metis
  let ?a = "(trackDCAddr y)[t := (if ?dc then dcAddr else 0)]"
  define y5 where "y5 = on_shield (set_accuracy h) (on_shield (\<lambda>s. enableSignal (mode AND TRACK_MODE_EXT = 0) t (set_driver t (setMode mode) s))
      ((on_shield g ?y1)\<lparr>trackDCAddr := ?a\<rparr>))"
  obtain k where k: "silent k" "(if ?dc then applyDCSpeed c t y5 else y5) = on_shield k y5"
    using applyDCSpeed_silent [of c t y5] idle by metis
  let ?s = "\<lambda>b. k (set_accuracy h (enableSignal (mode AND TRACK_MODE_EXT = 0) t (set_driver t (setMode mode)
      (g (set_driver t (\<lambda>d. d\<lparr>isProgTrack := ?prog\<rparr>) (shield_of y))))))"
  have sh: "on_shield k y5 = y\<lparr>shield_of := ?s True, trackDCAddr := ?a\<rparr>" by (simp add: y5_def on_shield_def)
  note sw = switch_mode [where b = ?prog and h = h and m = mode and i = "mode AND TRACK_MODE_EXT = 0", OF t(2,1) g(1) k(1)]
  have rules: "mode_rules stray (view (shield_of y) ! t)" using y(1) t(1) by (simp add: tracks_inv_def list_all_length)
  have "tracks_inv stray (if mode \<noteq> getMode t (shield_of x) \<and> True then on_shield (Motors.setPower h POWER_OFF t) (on_shield k y5) else on_shield k y5)"
  proof (cases "mode = getMode t (shield_of x)")
    case same: True
    have n: "mode AND TRACK_MODE_NONE \<noteq> 0 \<Longrightarrow> stray \<or> getPower t (shield_of y) = POWER_OFF"
      using rules view_nth [OF t(1)] same old by (simp add: mode_rules_def)
    have "tracks_inv stray (y\<lparr>shield_of := ?s True, trackDCAddr := ?a\<rparr>)"
      by (rule inv_mode [OF y(1) _ sw(1) [THEN conjunct1] sw(1) [THEN conjunct2] assms(2) n y(4)]) (use True y(2) in \<open>auto split: if_splits\<close>)
    then show ?thesis using same by (simp add: sh)
  next
    case False
    have "tracks_inv stray (y\<lparr>shield_of := Motors.setPower h POWER_OFF t (?s True), trackDCAddr := ?a\<rparr>)"
      by (rule inv_mode [OF y(1) _ sw(2) [THEN conjunct1] sw(2) [THEN conjunct2] assms(2) _ y(4)]) (use True y(2) in \<open>auto split: if_splits\<close>)
    moreover have "on_shield (Motors.setPower h POWER_OFF t) (on_shield k y5) =
        y\<lparr>shield_of := Motors.setPower h POWER_OFF t (?s True), trackDCAddr := ?a\<rparr>" unfolding sh by (simp add: on_shield_def)
    ultimately show ?thesis using False by simp
  qed
  then have "tracks_inv stray (streamTrackState t (if mode \<noteq> getMode t (shield_of x) \<and> True
      then on_shield (Motors.setPower h POWER_OFF t) (on_shield k y5) else on_shield k y5))" by (rule stream_inv)
  moreover have "snd (setTrackMode h c t mode dcAddr True x) = streamTrackState t (if mode \<noteq> getMode t (shield_of x) \<and> True
      then on_shield (Motors.setPower h POWER_OFF t) (on_shield k y5) else on_shield k y5)"
  proof -
    have c: "(num_tracks x \<le> t) = False" "(?dc \<and> \<not> brakeCanPWM h (drivers (shield_of x) ! t)) = False" using True by auto
    show ?thesis
      unfolding setTrackMode_def Let_def c if_False snd_conv y_def [symmetric]
      unfolding g(2) unfolding on_shield_simps unfolding y5_def [symmetric] k(2) by (rule refl)
  qed
  ultimately show ?thesis by simp
next
  case False
  then show ?thesis using assms(1) by (auto simp: setTrackMode_def Let_def)
qed

section \<open>Start\<close>

text \<open>A driver as its constructor left it: no power, whatever its state was before.\<close>

definition made :: "MotorDriver \<times> track_out list \<Rightarrow> bool" where
  "made r \<longleftrightarrow> (\<exists>g ok adcmax pp s1 s2 bp cp sf trip fp. r = newDriver g ok adcmax pp s1 s2 bp cp sf trip fp)"

definition fresh_in :: "track_out list \<Rightarrow> MotorDriver \<Rightarrow> bool" where
  "fresh_in es d \<longleftrightarrow> written (powerPin d) es = Some (invertPower d) \<and> overload_wait d = POWER_SAMPLE_OVERLOAD_WAIT \<and> \<not> isProgTrack d"

lemma made_writes:
  assumes "made r"
  shows "written p (es @ snd r) = (if p = powerPin (fst r) then Some (invertPower (fst r)) else written p es)"
    "overload_wait (fst r) = POWER_SAMPLE_OVERLOAD_WAIT" "\<not> isProgTrack (fst r)"
  using assms by (auto simp: made_def newDriver_def Let_def written_append)

lemma made_fresh:
  assumes "list_all made rs" "distinct (map (\<lambda>r. powerPin (fst r)) rs)"
  shows "list_all (fresh_in (concat (map snd rs))) (map fst rs)"
  using assms
proof (induction rs rule: rev_induct)
  case (snoc r rs)
  then have "list_all (fresh_in (concat (map snd rs))) (map fst rs)" by simp
  moreover have "made r" "powerPin (fst r) \<notin> (\<lambda>r. powerPin (fst r)) ` set rs" using snoc.prems by simp_all
  moreover from this have "powerPin (fst q) \<noteq> powerPin (fst r)" if "q \<in> set rs" for q using that by (metis image_eqI)
  ultimately show ?case using made_writes [of r] by (simp add: list_all_iff fresh_in_def)
qed simp

lemma addTrack_inv:
  assumes "tracks_inv stray x" "num_tracks x < MAX_TRACKS" "fresh_in (touts (shield_of x)) d" "powerPin d \<notin> powerPin ` set (drivers (shield_of x))"
    and "trackDCAddr x ! num_tracks x = 0"
  defines "y \<equiv> \<lambda>h. addTrack h d x"
  shows "tracks_inv stray (y h) \<and> num_tracks (y h) = Suc (num_tracks x) \<and> trackDCAddr (y h) = trackDCAddr x \<and>
    powerPin ` set (drivers (shield_of (y h))) = insert (powerPin d) (powerPin ` set (drivers (shield_of x))) \<and>
    (\<forall>p. p \<noteq> powerPin d \<longrightarrow> written p (touts (shield_of (y h))) = written p (touts (shield_of x)))"
proof -
  let ?s = "shield_of x" and ?t = "length (drivers (shield_of x))"
  let ?g = "\<lambda>d. (setMode TRACK_MODE_NONE d)\<lparr>trackLetter := 0x41 + of_nat ?t\<rparr>"
  let ?sd = "?s\<lparr>drivers := drivers ?s @ [d]\<rparr>"
  have t: "?t < length (drivers ?sd)" by simp
  define e where "e = drivers (Motors.setPower h POWER_OFF ?t ?sd) ! ?t"
  have n: "drivers ?sd ! ?t = d" by simp
  have e: "drivers (Motors.setPower h POWER_OFF ?t ?sd) = drivers ?s @ [e]"
    using setPower_drivers [OF t, of h POWER_OFF, folded e_def] by simp
  note f = setPower_driver(2) [OF t, of h POWER_OFF, folded e_def, unfolded n]
  define d' where "d' = ?g e"
  have same: "powerPin e = powerPin d" "invertPower e = invertPower d" "overload_wait e = overload_wait d" "powerMode e = POWER_OFF" "isProgTrack e = isProgTrack d"
    by (subst f, simp)+
  have d': "drivers (shield_of (y h)) = drivers ?s @ [d']" "powerPin d' = powerPin d" "invertPower d' = invertPower d"
    "view_of d' = (TRACK_MODE_NONE, False, POWER_OFF)" "overload_wait d' = POWER_SAMPLE_OVERLOAD_WAIT"
    using e same assms(3) by (simp_all add: y_def addTrack_def Let_def shield_simps d'_def view_of_def setMode_def fresh_in_def)
  have w: "written p (touts (shield_of (y h))) = (if p = powerPin d then Some (invertPower d) else written p (touts ?s))" for p
    using assms(3) by (auto simp: y_def addTrack_def Let_def Motors.setPower_def shield_simps power_on_def written_append fresh_in_def)
  have "power_ok (touts (shield_of (y h))) e" if "e \<in> set (drivers ?s)" for e
  proof -
    have "powerPin e \<noteq> powerPin d" using that assms(4) by (metis image_eqI)
    then show ?thesis using that assms(1) w by (simp add: tracks_inv_def shield_ok_def list_all_iff power_ok_def)
  qed
  moreover have "power_ok (touts (shield_of (y h))) d'"
    using d' w by (simp add: power_ok_def power_on_def view_of_def)
  ultimately have "shield_ok (shield_of (y h))"
    using d' assms(1,4) by (auto simp: shield_ok_def list_all_iff tracks_inv_def)
  moreover have v: "view (shield_of (y h)) = view ?s @ [(TRACK_MODE_NONE, False, POWER_OFF)]" using d' by (simp add: view_def)
  moreover have "one_prog (view ?s @ [(TRACK_MODE_NONE, False, POWER_OFF)])"
    using assms(1) by (auto simp: tracks_inv_def one_prog_def nth_append less_Suc_eq)
  moreover have "list_all (mode_rules stray) (view ?s @ [(TRACK_MODE_NONE, False, POWER_OFF)])"
    using assms(1) none_valid(1) by (simp add: tracks_inv_def mode_rules_def)
  moreover have "trackDCAddr (y h) = trackDCAddr x" by (simp add: y_def addTrack_def)
  moreover have "has_mode u TRACK_MODE_DC (shield_of (y h))" if "u < Suc ?t" "trackDCAddr x ! u \<noteq> 0" for u
    using that assms(1,5) d'(1) by (cases "u = ?t") (auto simp: tracks_inv_def num_tracks_def has_mode_def getMode_def nth_append)
  ultimately show ?thesis using assms(1,2) d' w by (simp add: tracks_inv_def num_tracks_def)
qed

lemma fold_addTrack:
  assumes "tracks_inv stray x" "num_tracks x + length ds \<le> MAX_TRACKS" "list_all (fresh_in (touts (shield_of x))) ds"
    "distinct (map powerPin ds)" "powerPin ` set ds \<inter> powerPin ` set (drivers (shield_of x)) = {}" "trackDCAddr x = replicate MAX_TRACKS 0"
  shows "tracks_inv stray (fold (addTrack h) ds x)"
  using assms
proof (induction ds arbitrary: x)
  case (Cons d ds)
  have a: "trackDCAddr x ! num_tracks x = 0" using Cons.prems(2,6) by simp
  note y = addTrack_inv [OF Cons.prems(1) _ _ _ a, of d h]
  have y: "tracks_inv stray (addTrack h d x)" "num_tracks (addTrack h d x) = Suc (num_tracks x)" "trackDCAddr (addTrack h d x) = trackDCAddr x"
    "powerPin ` set (drivers (shield_of (addTrack h d x))) = insert (powerPin d) (powerPin ` set (drivers (shield_of x)))"
    "\<And>p. p \<noteq> powerPin d \<Longrightarrow> written p (touts (shield_of (addTrack h d x))) = written p (touts (shield_of x))"
    using y Cons.prems by auto
  have "fold (addTrack h) (d # ds) x = fold (addTrack h) ds (addTrack h d x)" by simp
  moreover have "tracks_inv stray (fold (addTrack h) ds (addTrack h d x))"
  proof (rule Cons.IH [OF y(1)])
    have "powerPin e \<noteq> powerPin d" if "e \<in> set ds" for e using that Cons.prems(4) by (metis distinct.simps(2) image_eqI list.simps(9) list.set_map)
    then show "list_all (fresh_in (touts (shield_of (addTrack h d x)))) ds"
      using Cons.prems(3) y(5) by (simp add: list_all_iff fresh_in_def)
    show "powerPin ` set ds \<inter> powerPin ` set (drivers (shield_of (addTrack h d x))) = {}"
      unfolding y(4) using Cons.prems(4,5) by auto
  qed (use Cons.prems y(2,3) in simp_all)
  ultimately show ?case by simp
qed simp

lemma common_fault_inv:
  assumes "tracks_inv stray y"
  shows "tracks_inv stray (on_shield (\<lambda>s. s\<lparr>drivers := common_fault (drivers s)\<rparr>) y)"
proof -
  let ?s = "(shield_of y)\<lparr>drivers := common_fault (drivers (shield_of y))\<rparr>"
  have k: "map f (common_fault ds) = map f ds" if "\<And>d b. f (d\<lparr>commonFaultPin := b\<rparr>) = f d" for f :: "MotorDriver \<Rightarrow> 'z" and ds
    using that by (intro nth_equalityI) (simp_all add: common_fault_def)
  have "list_all (power_ok (touts (shield_of y))) (common_fault (drivers (shield_of y)))"
  proof -
    have "map (power_ok (touts (shield_of y))) (common_fault (drivers (shield_of y))) = map (power_ok (touts (shield_of y))) (drivers (shield_of y))"
      by (rule k) (simp add: power_ok_def)
    moreover have "list_all P xs \<longleftrightarrow> list_all id (map P xs)" for P :: "MotorDriver \<Rightarrow> bool" and xs by (simp add: list.pred_map)
    ultimately show ?thesis using assms unfolding tracks_inv_def shield_ok_def by metis
  qed
  then have "shield_ok ?s" using assms k [of powerPin "drivers (shield_of y)"] by (simp add: tracks_inv_def shield_ok_def)
  moreover have "view ?s = view (shield_of y)"
  proof -
    have "drivers ?s = common_fault (drivers (shield_of y))" by simp
    then show ?thesis unfolding view_def by (simp only:) (rule k, simp add: view_of_def)
  qed
  ultimately have "tracks_inv stray (y\<lparr>shield_of := ?s\<rparr>)" by (rule inv_same [OF assms])
  then show ?thesis by (simp add: on_shield_def)
qed

lemma tracks_Setup_inv:
  assumes "list_all made rs" "distinct (map (\<lambda>r. powerPin (fst r)) rs)" "length rs \<le> MAX_TRACKS"
  shows "tracks_inv stray (Tracks.Setup h c (map fst rs) (new_tracks (concat (map snd rs))))"
proof -
  let ?x = "new_tracks (concat (map snd rs))"
  have "tracks_inv stray ?x" by (simp add: tracks_inv_def new_tracks_def shield_ok_def view_def one_prog_def num_tracks_def)
  then have "tracks_inv stray (fold (addTrack h) (map fst rs) ?x)"
    using assms made_fresh [OF assms(1,2)] by (intro fold_addTrack) (simp_all add: new_tracks_def num_tracks_def comp_def)
  then show ?thesis unfolding Tracks.Setup_def Let_def by (intro common_fault_inv setTrackMode_inv none_valid)
qed

lemma all_within: "TRACK_MODE_MAIN AND NOT TRACK_ALL = 0" "TRACK_MODE_PROG AND NOT TRACK_ALL = 0" "TRACK_ALL AND NOT TRACK_ALL = 0"
    "(TRACK_MODE_MAIN OR TRACK_MODE_PROG) AND NOT TRACK_ALL = 0"
  by simp_all

lemma commands_inv:
  assumes "tracks_inv stray x"
  shows "tracks_inv stray (snd (cmd_1 h c n p x))" "tracks_inv stray (snd (cmd_0 h c n p x))"
  unfolding cmd_1_def cmd_0_def Let_def
  using assms setModePower_inv [OF _ all_within(1)] setModePower_inv [OF _ all_within(2)] setModePower_inv [OF _ all_within(3)]
    setModePower_inv [OF _ all_within(4)] setJoin_inv(1) setTrackPower_inv
  by simp_all

lemma modified_valid:
  assumes "valid_mode m"
  shows "valid_mode (m OR TRACK_MODIFIER_AUTO)" "valid_mode (m OR TRACK_MODIFIER_INV)"
  using assms by (simp_all add: valid_mode_def bit.conj_disj_distrib2)

definition opt_tracks :: "bool \<Rightarrow> (bool \<times> tracks) option \<Rightarrow> bool" where
  "opt_tracks stray r \<longleftrightarrow> (\<forall>b y. r = Some (b, y) \<longrightarrow> tracks_inv stray y)"

lemma opt_tracks_if: "(b \<Longrightarrow> opt_tracks stray r) \<Longrightarrow> (\<not> b \<Longrightarrow> opt_tracks stray q) \<Longrightarrow> opt_tracks stray (if b then r else q)"
  by simp

lemma opt_tracks_rest: "tracks_inv stray x \<Longrightarrow> opt_tracks stray (Some (b, x))" "opt_tracks stray None"
    "tracks_inv stray x \<Longrightarrow> valid_mode m \<Longrightarrow> opt_tracks stray (Some (setTrackMode h c t m a True x))"
  using setTrackMode_inv [of stray x m h c t a] by (auto simp: opt_tracks_def dest: sym)

lemma equal_sign_inv:
  assumes "tracks_inv stray x"
  shows "opt_tracks stray (parseEqualSign h c n p x)"
proof -
  have "valid_mode (getMode t (shield_of x))" if "t < num_tracks x" for t
    using assms that by (auto simp: tracks_inv_def list_all_length num_tracks_def mode_rules_def view_nth)
  then show ?thesis unfolding parseEqualSign_def Let_def
    by (intro opt_tracks_if opt_tracks_rest assms none_valid modified_valid)
qed

section \<open>Reachable states\<close>

text \<open>
  Power-on with the drivers of the shield, and everything that uses the track manager: its loop, the commands,
  the calls of EXRAIL and the programming track, and the signals. The programming sequence of
  \<^verbatim>\<open>DCCACK.cpp\<close> switches the driver that it found at its start, without asking whether that track
  is still the programming track: with the parameter \<open>stray\<close> true the relation has these calls for any track, with \<open>stray\<close>
  false only for the track in programming mode.
\<close>

inductive tracks_reach :: "bool \<Rightarrow> tracks \<Rightarrow> bool" for stray where
  boot: "list_all made rs \<Longrightarrow> distinct (map (\<lambda>r. powerPin (fst r)) rs) \<Longrightarrow> length rs \<le> MAX_TRACKS \<Longrightarrow>
    tracks_reach stray (Tracks.Setup h c (map fst rs) (new_tracks (concat (map snd rs))))"
| turn: "tracks_reach stray x \<Longrightarrow> tracks_reach stray (tracks_loop h b x)"
| on_command: "tracks_reach stray x \<Longrightarrow> tracks_reach stray (snd (cmd_1 h c n p x))"
| off_command: "tracks_reach stray x \<Longrightarrow> tracks_reach stray (snd (cmd_0 h c n p x))"
| mode_command: "tracks_reach stray x \<Longrightarrow> parseEqualSign h c n p x = Some (ok, y) \<Longrightarrow> tracks_reach stray y"
| set_mode: "tracks_reach stray x \<Longrightarrow> valid_mode m \<Longrightarrow> tracks_reach stray (snd (setTrackMode h c t m a True x))"
| set_power: "tracks_reach stray x \<Longrightarrow> m AND NOT TRACK_ALL = 0 \<Longrightarrow> tracks_reach stray (setModePower h c m p x)"
| set_track: "tracks_reach stray x \<Longrightarrow> tracks_reach stray (setTrackPower h c p t x)"
| prog_power: "tracks_reach stray x \<Longrightarrow> t < num_tracks x \<Longrightarrow> stray \<or> has_mode t TRACK_MODE_PROG (shield_of x) \<Longrightarrow>
    tracks_reach stray (on_shield (Motors.setPower h p t) x)"
| join: "tracks_reach stray x \<Longrightarrow> tracks_reach stray (setJoin b x)"
| relay: "tracks_reach stray x \<Longrightarrow> tracks_reach stray (setJoinRelayPin v x)"
| boost: "tracks_reach stray x \<Longrightarrow> tracks_reach stray (x\<lparr>progTrackBoosted := b\<rparr>)"
| dcc: "tracks_reach stray x \<Longrightarrow> tracks_reach stray (setDCCSignal b x)"
| prog: "tracks_reach stray x \<Longrightarrow> tracks_reach stray (setPROGSignal b x)"
| dc: "tracks_reach stray x \<Longrightarrow> tracks_reach stray (Tracks.setDCSignal c cab speed x)"

lemma fold_silent_inv:
  assumes "\<And>t. silent (f t)" "tracks_inv stray x"
  shows "tracks_inv stray (fold (\<lambda>t. on_shield (f t)) ts x)"
  using assms by (intro fold_inv [of "tracks_inv stray"]) (simp_all add: inv_silent)

lemma signals_inv:
  assumes "tracks_inv stray x"
  shows "tracks_inv stray (setDCCSignal b x)" "tracks_inv stray (setPROGSignal b x)" "tracks_inv stray (Tracks.setDCSignal c cab speed x)"
  unfolding setDCCSignal_def setPROGSignal_def Tracks.setDCSignal_def
  by (intro fold_silent_inv silent_calls assms)+

lemma tracks_reach_inv: "tracks_reach stray x \<Longrightarrow> tracks_inv stray x"
proof (induction rule: tracks_reach.induct)
  case (boot rs h c)
  then show ?case by (rule tracks_Setup_inv)
next
  case (mode_command x h c n p ok y)
  then show ?case using equal_sign_inv [of stray x h c n p] by (simp add: opt_tracks_def)
next
  case (prog_power x t h p)
  have "mode_rules stray (view (shield_of x) ! t)" using prog_power by (simp add: tracks_inv_def list_all_length num_tracks_def)
  then have "stray \<or> \<not> has_mode t TRACK_MODE_NONE (shield_of x)"
    using prog_power.hyps and_within [of TRACK_MODE_PROG TRACK_ALL] by (auto simp: mode_rules_def valid_mode_def has_mode_def num_tracks_def view_nth)
  then show ?case using prog_power setPower_inv by blast
qed (simp_all add: loop_inv commands_inv setTrackMode_inv setModePower_inv setTrackPower_inv setJoin_inv signals_inv)

text \<open>
  The programming sequence that switches its driver on after the pause of 30 ms finds the track in another mode when a
  command has changed it meanwhile: then an unassigned track has power.
\<close>

lemma unassigned_powered:
  fixes h
  assumes "tracks_reach True x" "t < num_tracks x" "has_mode t TRACK_MODE_NONE (shield_of x)"
  defines "y \<equiv> on_shield (Motors.setPower h POWER_ON t) x"
  shows "tracks_reach True y" "has_mode t TRACK_MODE_NONE (shield_of y)" "getPower t (shield_of y) = POWER_ON"
proof -
  show "tracks_reach True y" unfolding y_def by (rule tracks_reach.prog_power [OF assms(1,2)]) simp
  have t: "t < length (drivers (shield_of x))" using assms(2) by (simp add: num_tracks_def)
  have v: "view (shield_of y) = (view (shield_of x))[t := (getMode t (shield_of x), isProgTrack (drivers (shield_of x) ! t), POWER_ON)]"
    unfolding y_def using setPower_view [OF t] by simp
  then have n: "t < length (drivers (shield_of y))" using t by (metis length_list_update length_view)
  have "view (shield_of y) ! t = (getMode t (shield_of x), isProgTrack (drivers (shield_of x) ! t), POWER_ON)" using t by (simp add: v)
  with assms(3) view_nth [OF n] show "has_mode t TRACK_MODE_NONE (shield_of y)" "getPower t (shield_of y) = POWER_ON"
    by (simp_all add: has_mode_def)
qed

text \<open>
  C5: the power stages are under control. In every state that the start, the loop, commands, EXRAIL and the programming
  track can bring about: the level last written to a track's power pin is the one that its state asks for, on for ON and ALERT and off for OFF and
  OVERLOAD; at most one track is the programming track, and it alone is treated as
  such; a loco address is set for DC tracks only; and the pause after a short circuit is between 40 ms and 10 s.
  An unassigned track is off as long as the programming sequence switches only a track that is in
  programming mode at that moment (\<open>stray\<close> false), which the code does not check.
\<close>

theorem tracks_safe:
  assumes "tracks_reach stray x" "t < num_tracks x"
  defines "d \<equiv> drivers (shield_of x) ! t"
  shows "written (powerPin d) (touts (shield_of x)) = Some (power_on (powerMode d) \<noteq> invertPower d) \<and>
    (trackMode d AND TRACK_MODE_NONE \<noteq> 0 \<longrightarrow> stray \<or> powerMode d = POWER_OFF) \<and>
    (isProgTrack d \<longleftrightarrow> trackMode d AND TRACK_MODE_PROG \<noteq> 0) \<and>
    (\<forall>u < num_tracks x. isProgTrack d \<longrightarrow> isProgTrack (drivers (shield_of x) ! u) \<longrightarrow> u = t) \<and>
    (trackDCAddr x ! t \<noteq> 0 \<longrightarrow> trackMode d AND TRACK_MODE_DC \<noteq> 0) \<and>
    POWER_SAMPLE_OVERLOAD_WAIT \<le> overload_wait d \<and> overload_wait d \<le> POWER_SAMPLE_RETRY_MAX"
proof -
  have i: "tracks_inv stray x" by (rule tracks_reach_inv [OF assms(1)])
  have p: "power_ok (touts (shield_of x)) d" using i assms(2) by (simp add: tracks_inv_def shield_ok_def list_all_length num_tracks_def d_def)
  have r: "mode_rules stray (view_of (drivers (shield_of x) ! u))" if "u < num_tracks x" for u
    using i that by (simp add: tracks_inv_def list_all_length num_tracks_def view_def)
  have "u = t" if "u < num_tracks x" "isProgTrack d" "isProgTrack (drivers (shield_of x) ! u)" for u
    using that r [OF that(1)] r [OF assms(2)] i assms(2)
    by (simp add: mode_rules_def view_of_def d_def tracks_inv_def one_prog_def num_tracks_def view_def)
  moreover have "trackDCAddr x ! t \<noteq> 0 \<longrightarrow> trackMode d AND TRACK_MODE_DC \<noteq> 0"
    using i assms(2) by (simp add: tracks_inv_def has_mode_def getMode_def d_def)
  ultimately show ?thesis using p r [OF assms(2)] by (simp add: power_ok_def mode_rules_def view_of_def d_def)
qed

definition demo_hw :: hw where
  "demo_hw = \<lparr>now = 1000, fault_adc = (\<lambda>_. 0), current_adc = (\<lambda>_. 0), fault_high = (\<lambda>_. True), isPWMPin = (\<lambda>_. False),
     brake_timer = (\<lambda>_. True)\<rparr>"

definition demo_garbage :: MotorDriver where
  "demo_garbage = \<lparr>powerPin = 0, signalPin = 0, signalPin2 = 0, currentPin = 0, faultPin = 0, brakePin = 0, dualSignal = True,
     invertBrake = True, invertPower = True, invertFault = True, invertPhase = True, senseFactorInternal = 0, senseOffset = 0,
     tripMilliamps = 0, rawCurrentTripValue = 0, progTripValue = 0, powerMode = POWER_ALERT, lastPowerMode = POWER_ON,
     lastPowerChange = (\<lambda>_. 77), lastBadSample = 0, lastCurrent = 0, tripValue = 0, overload_wait = 0, trackMode = 0, trackPWM = True,
     commonFaultPin = True, isProgTrack = True, trackLetter = 0\<rparr>"

text \<open>A shield with one output: pins 3 (power), 12 (signal), 9 (brake) and 54 (current), 2 A.\<close>

definition demo_driver :: "MotorDriver \<times> track_out list" where
  "demo_driver = newDriver demo_garbage True 1023 3 12 255 9 54 766 2000 255"

definition demo_tracks :: "dcc \<Rightarrow> tracks" where
  "demo_tracks c = snd (cmd_1 demo_hw c 0 [] (Tracks.Setup demo_hw c (map fst [demo_driver]) (new_tracks (concat (map snd [demo_driver])))))"

lemma demo_made: "made demo_driver"
  unfolding made_def demo_driver_def by blast

lemma demo_reach: "tracks_reach stray (demo_tracks c)"
  unfolding demo_tracks_def by (intro on_command boot) (simp_all add: demo_made)

lemma demo_on: "num_tracks (demo_tracks c) = 1" "powerMode (drivers (shield_of (demo_tracks c)) ! 0) = POWER_ON"
  by code_simp+

theorem tracks_safe_witness:
  "\<forall>c. num_tracks (demo_tracks c) = 1 \<and> written (powerPin (drivers (shield_of (demo_tracks c)) ! 0)) (touts (shield_of (demo_tracks c))) =
     Some (\<not> invertPower (drivers (shield_of (demo_tracks c)) ! 0))"
  using tracks_safe [OF demo_reach, of 0] demo_on by (simp add: power_on_def)

end
