(* ===== verification/ShortCircuit.thy ===== *)
theory ShortCircuit
  imports TrackProps
begin

text \<open>
  Short circuits over time: the sequence of states that \<^verbatim>\<open>checkPowerOverload\<close> goes through when the readings stay
  bad or get better. A sequence of checks is a list of what each of them finds; the track manager checks
  one track each turn of its loop, so the checks of one track are spread over time.
\<close>

section \<open>Readings\<close>

definition fault :: "hw \<Rightarrow> MotorDriver \<Rightarrow> bool" where
  "fault h d = fst (checkFault h d)"

definition over :: "bool \<Rightarrow> hw \<Rightarrow> MotorDriver \<Rightarrow> bool" where
  "over b h d = fst (checkCurrent h b d)"

definition bad :: "bool \<Rightarrow> hw \<Rightarrow> MotorDriver \<Rightarrow> bool" where
  "bad b h d \<longleftrightarrow> fault h d \<or> over b h d"

text \<open>How long a bad reading is tolerated.\<close>

definition timeout :: "bool \<Rightarrow> hw \<Rightarrow> MotorDriver \<Rightarrow> u32" where
  "timeout b h d = (if fault h d \<and> over b h d then 5000 else 100000)"

definition sensing :: "MotorDriver \<Rightarrow> byte \<times> int \<times> byte \<times> u16 \<times> bool \<times> int \<times> int" where
  "sensing d = (currentPin d, senseOffset d, faultPin d, powerPin d, invertFault d, progTripValue d, rawCurrentTripValue d)"

lemma sensing_same:
  assumes "sensing d = sensing e"
  shows "fault h d = fault h e" "over b h d = over b h e" "bad b h d = bad b h e" "timeout b h d = timeout b h e"
proof -
  have "getCurrentRaw a h d = getCurrentRaw a h e" for a using assms by (simp add: sensing_def getCurrentRaw_def)
  then show "fault h d = fault h e" "over b h d = over b h e" "bad b h d = bad b h e" "timeout b h d = timeout b h e"
    using assms by (simp_all add: fault_def over_def bad_def timeout_def checkFault_def checkCurrent_def sensing_def Let_def)
qed

lemma readings [simp]:
  "fst (checkFault h d) = fault h d" "fst (checkCurrent h b d) = over b h d"
  "over b h (d\<lparr>lastCurrent := v\<rparr>) = over b h d" "fault h (d\<lparr>lastPowerMode := m\<rparr>) = fault h d" "over b h (d\<lparr>lastPowerMode := m\<rparr>) = over b h d"
  "fault h (d\<lparr>lastBadSample := u\<rparr>) = fault h d" "over b h (d\<lparr>lastBadSample := u\<rparr>) = over b h d"
  "fault h (d\<lparr>lastPowerChange := k\<rparr>) = fault h d" "over b h (d\<lparr>lastPowerChange := k\<rparr>) = over b h d"
  by (simp_all add: fault_def over_def checkFault_def checkCurrent_def getCurrentRaw_def Let_def)

definition checks :: "bool \<Rightarrow> nat \<Rightarrow> hw list \<Rightarrow> shield \<Rightarrow> shield" where
  "checks b t hs = fold (\<lambda>h. checkPowerOverload h b t) hs"

lemma checks_simps [simp]:
  "checks b t [] s = s" "checks b t (h # hs) s = checks b t hs (checkPowerOverload h b t s)"
  "checks b t (hs @ ks) s = checks b t ks (checks b t hs s)"
  by (simp_all add: checks_def)

section \<open>Steps\<close>

text \<open>The facts about a driver that the steps hand on.\<close>

definition at_state :: "POWERMODE \<Rightarrow> u32 \<Rightarrow> u32 \<Rightarrow> MotorDriver \<Rightarrow> nat \<Rightarrow> shield \<Rightarrow> bool" where
  "at_state m since wait d t s \<longleftrightarrow> t < length (drivers s) \<and> powerMode (drivers s ! t) = m \<and>
     lastPowerChange (drivers s ! t) m = since \<and> overload_wait (drivers s ! t) = wait \<and>
     sensing (drivers s ! t) = sensing d \<and> commonFaultPin (drivers s ! t) = commonFaultPin d"

lemma setPower_at:
  assumes "t < length (drivers s)" "powerMode (drivers s ! t) \<noteq> m" "powerMode (drivers s ! t) \<noteq> POWER_OFF"
    "overload_wait (drivers s ! t) = wait" "sensing (drivers s ! t) = sensing d" "commonFaultPin (drivers s ! t) = commonFaultPin d"
  shows "at_state m (now h) wait d t (Motors.setPower h m t s)"
proof -
  let ?e = "drivers (Motors.setPower h m t s) ! t"
  note p = setPower_driver [OF assms(1), of h m]
  have "overload_wait ?e = overload_wait (drivers s ! t)" "commonFaultPin ?e = commonFaultPin (drivers s ! t)" by (subst p(2), simp)+
  moreover have "sensing ?e = sensing (drivers s ! t)"
    by (subst p(2)) (simp add: sensing_def p(4) [OF assms(3)])
  ultimately show ?thesis using assms p(1,3) by (simp add: at_state_def)
qed

lemma on_bad:
  assumes "at_state POWER_ON since wait d t s" "bad b h d"
  shows "at_state POWER_ALERT (now h) wait d t (checkPowerOverload h b t s)"
proof -
  let ?e = "drivers s ! t"
  let ?d2 = "snd (checkCurrent h b (snd (checkFault h (?e\<lparr>lastPowerMode := POWER_ON\<rparr>))))"
  have s: "t < length (drivers s)" "powerMode ?e = POWER_ON" "sensing ?e = sensing d" "overload_wait ?e = wait" "commonFaultPin ?e = commonFaultPin d"
    using assms(1) by (simp_all add: at_state_def)
  have bad: "fault h ?e \<or> over b h ?e" using assms(2) sensing_same [OF s(3)] by (simp add: bad_def)
  have d2: "powerMode ?d2 = POWER_ON" "sensing ?d2 = sensing d" "overload_wait ?d2 = wait" "commonFaultPin ?d2 = commonFaultPin d"
    using s by (simp_all add: checkCurrent_def checkFault_def Let_def sensing_def)
  have a: "at_state POWER_ALERT (now h) wait d t (Motors.setPower h POWER_ALERT t (set_driver t (\<lambda>_. ?d2) s))"
    by (rule setPower_at) (use s(1) d2 in \<open>simp_all add: shield_simps\<close>)
  then have "at_state POWER_ALERT (now h) wait d t
      (set_driver t (\<lambda>d. d\<lparr>invertPhase := \<not> invertPhase d\<rparr>) (Motors.setPower h POWER_ALERT t (set_driver t (\<lambda>_. ?d2) s)))"
    by (simp add: at_state_def shield_simps sensing_def)
  moreover have "fault h (?e\<lparr>lastPowerMode := POWER_ON\<rparr>) \<or> over b h (snd (checkFault h (?e\<lparr>lastPowerMode := POWER_ON\<rparr>)))"
    using bad by (simp add: checkFault_def Let_def)
  ultimately show ?thesis using a s(2) by (simp add: checkPowerOverload_def getPower_def overload_ON_def Let_def case_prod_beta)
qed

text \<open>The driver after the first steps of a check in state ALERT.\<close>

definition alert_driver :: "hw \<Rightarrow> MotorDriver \<Rightarrow> MotorDriver" where
  "alert_driver h d =
    (let d = (if powerMode d \<noteq> lastPowerMode d then d\<lparr>lastBadSample := now h\<rparr> else d)
     in snd (checkFault h (snd (microsSinceLastPowerChange h POWER_ALERT (d\<lparr>lastPowerMode := POWER_ALERT\<rparr>)))))"

lemma alert_driver_same:
  "sensing (alert_driver h d) = sensing d" "powerMode (alert_driver h d) = powerMode d" "overload_wait (alert_driver h d) = overload_wait d"
  "commonFaultPin (alert_driver h d) = commonFaultPin d" "lastPowerMode (alert_driver h d) = POWER_ALERT"
  "lastBadSample (alert_driver h d) = (if powerMode d \<noteq> lastPowerMode d then now h else lastBadSample d)"
  "now h - lastPowerChange d POWER_ALERT \<le> 0x10000000 \<Longrightarrow> lastPowerChange (alert_driver h d) = lastPowerChange d"
  by (auto simp: alert_driver_def Let_def sensing_def checkFault_def microsSinceLastPowerChange_def)

lemma current_same:
  "sensing (snd (checkCurrent h b d)) = sensing d" "powerMode (snd (checkCurrent h b d)) = powerMode d"
  "overload_wait (snd (checkCurrent h b d)) = overload_wait d" "commonFaultPin (snd (checkCurrent h b d)) = commonFaultPin d"
  "lastPowerChange (snd (checkCurrent h b d)) = lastPowerChange d" "lastBadSample (snd (checkCurrent h b d)) = lastBadSample d"
  "lastPowerMode (snd (checkCurrent h b d)) = lastPowerMode d"
  by (simp_all add: checkCurrent_def sensing_def Let_def)

text \<open>A check in state ALERT: what becomes of the driver, up to pins.\<close>

lemma overload_ALERT_cases:
  fixes h b t s
  assumes "t < length (drivers s)"
  defines "d \<equiv> drivers s ! t" and "e \<equiv> alert_driver h (drivers s ! t)"
  defines "late \<equiv> now h - lastPowerChange (drivers s ! t) POWER_ALERT \<ge> timeout b h (drivers s ! t)"
  obtains s' where "drivers s' = (drivers s)[t := (if bad b h d then (snd (checkCurrent h b (e\<lparr>lastBadSample := now h\<rparr>))) else snd (checkCurrent h b e))]"
    "overload_ALERT h b t s =
      (if bad b h d then (if late then Motors.setPower h POWER_OVERLOAD t s' else s')
       else if now h - lastBadSample e > POWER_SAMPLE_ALERT_GOOD then Motors.setPower h POWER_ON t s' else s')"
proof -
  have e: "sensing e = sensing d" by (simp add: e_def d_def alert_driver_same)
  note r = sensing_same [OF e]
  have f: "fst (checkFault h (snd (microsSinceLastPowerChange h POWER_ALERT ((if powerMode d \<noteq> lastPowerMode d then d\<lparr>lastBadSample := now h\<rparr> else d)\<lparr>lastPowerMode := POWER_ALERT\<rparr>)))) = fault h d"
    by (simp add: microsSinceLastPowerChange_def Let_def)
  have m: "fst (microsSinceLastPowerChange h POWER_ALERT ((if powerMode d \<noteq> lastPowerMode d then d\<lparr>lastBadSample := now h\<rparr> else d)\<lparr>lastPowerMode := POWER_ALERT\<rparr>)) = now h - lastPowerChange d POWER_ALERT"
    by (simp add: microsSinceLastPowerChange_def Let_def)
  have fold: "snd (checkFault h (snd (microsSinceLastPowerChange h POWER_ALERT ((if powerMode d \<noteq> lastPowerMode d then d\<lparr>lastBadSample := now h\<rparr> else d)\<lparr>lastPowerMode := POWER_ALERT\<rparr>)))) = e"
    by (simp only: e_def d_def alert_driver_def Let_def)
  have o1: "fst (checkCurrent h b (e\<lparr>lastBadSample := now h\<rparr>)) = over b h d" and o2: "fst (checkCurrent h b e) = over b h d"
    using r(2) by simp_all
  have u: "overload_ALERT h b t s =
      (if fault h d then
         (let s1 = throttleInrush True t (set_driver t (\<lambda>_. e) s);
              s2 = set_driver t (\<lambda>_. snd (checkCurrent h b (e\<lparr>lastBadSample := now h\<rparr>))) s1
          in if now h - lastPowerChange d POWER_ALERT < (if over b h d then POWER_SAMPLE_IGNORE_FAULT_HIGH else POWER_SAMPLE_IGNORE_FAULT_LOW) then s2
             else Motors.setPower h POWER_OVERLOAD t (throttleInrush False t s2))
       else if over b h d then
         (let s1 = set_driver t (\<lambda>_. (snd (checkCurrent h b e))\<lparr>lastBadSample := now h\<rparr>) s
          in if now h - lastPowerChange d POWER_ALERT < POWER_SAMPLE_IGNORE_CURRENT then s1
             else Motors.setPower h POWER_OVERLOAD t (throttleInrush False t s1))
       else
         (let s1 = set_driver t (\<lambda>_. snd (checkCurrent h b e)) s; good = now h - lastBadSample e
          in if good > POWER_SAMPLE_ALERT_GOOD then Motors.setPower h POWER_ON t (throttleInrush False t s1)
             else if good > POWER_SAMPLE_ALERT_GOOD div 2 then throttleInrush False t s1 else s1))"
    unfolding overload_ALERT_def Let_def case_prod_beta d_def [symmetric] f m fold o1 o2 current_same(6) by (rule refl)
  have q: "drivers (throttleInrush i t z) = drivers z" for i z by (rule silentD [OF silent_calls(6)])
  have l: "snd (checkCurrent h b (e\<lparr>lastBadSample := now h\<rparr>)) = (snd (checkCurrent h b e))\<lparr>lastBadSample := now h\<rparr>"
    by (simp add: checkCurrent_def Let_def getCurrentRaw_def)
  have late: "late \<longleftrightarrow> \<not> now h - lastPowerChange d POWER_ALERT < timeout b h d" by (auto simp: late_def d_def)
  show thesis
  proof (cases "bad b h d")
    case True
    let ?s2 = "if fault h d then set_driver t (\<lambda>_. snd (checkCurrent h b (e\<lparr>lastBadSample := now h\<rparr>))) (throttleInrush True t (set_driver t (\<lambda>_. e) s))
      else set_driver t (\<lambda>_. (snd (checkCurrent h b e))\<lparr>lastBadSample := now h\<rparr>) s"
    show thesis
    proof (rule that [of "if late then throttleInrush False t ?s2 else ?s2"])
      show "drivers (if late then throttleInrush False t ?s2 else ?s2) = (drivers s)[t := (if bad b h d then (snd (checkCurrent h b (e\<lparr>lastBadSample := now h\<rparr>))) else snd (checkCurrent h b e))]"
        using True by (simp add: q shield_simps l)
      show "overload_ALERT h b t s =
        (if bad b h d then (if late then Motors.setPower h POWER_OVERLOAD t (if late then throttleInrush False t ?s2 else ?s2) else (if late then throttleInrush False t ?s2 else ?s2))
         else if now h - lastBadSample e > POWER_SAMPLE_ALERT_GOOD then Motors.setPower h POWER_ON t (if late then throttleInrush False t ?s2 else ?s2) else (if late then throttleInrush False t ?s2 else ?s2))"
        using True unfolding u late by (auto simp: bad_def timeout_def Let_def)
    qed
  next
    case False
    let ?s1 = "set_driver t (\<lambda>_. snd (checkCurrent h b e)) s"
    have big: "10000 < now h - lastBadSample e" if "POWER_SAMPLE_ALERT_GOOD < now h - lastBadSample e"
      using that by (rule less_trans [rotated]) simp
    show thesis
      by (rule that [of "if now h - lastBadSample e > POWER_SAMPLE_ALERT_GOOD div 2 then throttleInrush False t ?s1 else ?s1"])
        (use False big in \<open>auto simp: u bad_def q shield_simps Let_def\<close>)
  qed
qed

lemma check_ALERT: "getPower t s = POWER_ALERT \<Longrightarrow> checkPowerOverload h b t s = overload_ALERT h b t s"
  by (simp add: checkPowerOverload_def)

lemma alert_step:
  assumes "at_state POWER_ALERT since wait d t s" "now h - since \<le> 0x10000000"
  shows "bad b h d \<Longrightarrow> now h - since < timeout b h d \<Longrightarrow> at_state POWER_ALERT since wait d t (checkPowerOverload h b t s)"
    "bad b h d \<Longrightarrow> \<not> now h - since < timeout b h d \<Longrightarrow> at_state POWER_OVERLOAD (now h) wait d t (checkPowerOverload h b t s)"
    "\<not> bad b h d \<Longrightarrow> lastPowerMode (drivers s ! t) = POWER_ALERT \<Longrightarrow> now h - lastBadSample (drivers s ! t) > POWER_SAMPLE_ALERT_GOOD \<Longrightarrow>
       at_state POWER_ON (now h) wait d t (checkPowerOverload h b t s)"
    "\<not> bad b h d \<Longrightarrow> u = (if lastPowerMode (drivers s ! t) = POWER_ALERT then lastBadSample (drivers s ! t) else now h) \<Longrightarrow>
       now h - u \<le> POWER_SAMPLE_ALERT_GOOD \<Longrightarrow> at_state POWER_ALERT since wait d t (checkPowerOverload h b t s) \<and>
       lastPowerMode (drivers (checkPowerOverload h b t s) ! t) = POWER_ALERT \<and> lastBadSample (drivers (checkPowerOverload h b t s) ! t) = u"
proof -
  let ?e = "drivers s ! t" and ?a = "alert_driver h (drivers s ! t)"
  have s: "t < length (drivers s)" "powerMode ?e = POWER_ALERT" "sensing ?e = sensing d" "overload_wait ?e = wait"
    "commonFaultPin ?e = commonFaultPin d" "lastPowerChange ?e POWER_ALERT = since"
    using assms(1) by (simp_all add: at_state_def)
  note same = sensing_same [OF s(3)]
  note a = alert_driver_same(1-6) [of h ?e] alert_driver_same(7) [of h ?e, unfolded s(6), OF assms(2)]
  obtain s' where s': "drivers s' = (drivers s)[t := (if bad b h ?e then (snd (checkCurrent h b (?a\<lparr>lastBadSample := now h\<rparr>))) else snd (checkCurrent h b ?a))]"
    "overload_ALERT h b t s =
      (if bad b h ?e then (if now h - lastPowerChange ?e POWER_ALERT \<ge> timeout b h ?e then Motors.setPower h POWER_OVERLOAD t s' else s')
       else if now h - lastBadSample ?a > POWER_SAMPLE_ALERT_GOOD then Motors.setPower h POWER_ON t s' else s')"
    using overload_ALERT_cases [OF s(1)] by blast
  have k: "sensing (?a\<lparr>lastBadSample := now h\<rparr>) = sensing ?a" by (simp add: sensing_def)
  have s'_at: "at_state POWER_ALERT since wait d t s'"
    using s a by (simp add: at_state_def s'(1) current_same k)
  then have f: "t < length (drivers s')" "powerMode (drivers s' ! t) = POWER_ALERT" "overload_wait (drivers s' ! t) = wait"
    "sensing (drivers s' ! t) = sensing d" "commonFaultPin (drivers s' ! t) = commonFaultPin d" by (simp_all add: at_state_def)
  have c: "checkPowerOverload h b t s = overload_ALERT h b t s" using s(2) by (simp add: check_ALERT getPower_def)
  show "bad b h d \<Longrightarrow> now h - since < timeout b h d \<Longrightarrow> at_state POWER_ALERT since wait d t (checkPowerOverload h b t s)"
    using s'_at by (auto simp: c s'(2) same s(6) dest: leD)
  show "bad b h d \<Longrightarrow> \<not> now h - since < timeout b h d \<Longrightarrow> at_state POWER_OVERLOAD (now h) wait d t (checkPowerOverload h b t s)"
    using setPower_at [OF f(1) _ _ f(3-5), of POWER_OVERLOAD h] f(2) by (simp add: c s'(2) same s(6) not_less)
  show "\<not> bad b h d \<Longrightarrow> lastPowerMode ?e = POWER_ALERT \<Longrightarrow> now h - lastBadSample ?e > POWER_SAMPLE_ALERT_GOOD \<Longrightarrow>
       at_state POWER_ON (now h) wait d t (checkPowerOverload h b t s)"
    using setPower_at [OF f(1) _ _ f(3-5), of POWER_ON h] f(2) by (simp add: c s'(2) same a(6) s(2))
  show "\<not> bad b h d \<Longrightarrow> u = (if lastPowerMode ?e = POWER_ALERT then lastBadSample ?e else now h) \<Longrightarrow>
       now h - u \<le> POWER_SAMPLE_ALERT_GOOD \<Longrightarrow> at_state POWER_ALERT since wait d t (checkPowerOverload h b t s) \<and>
       lastPowerMode (drivers (checkPowerOverload h b t s) ! t) = POWER_ALERT \<and> lastBadSample (drivers (checkPowerOverload h b t s) ! t) = u"
    using s'_at s(1) a(5) by (auto simp: c s' same a(6) s(2) current_same dest: leD)
qed

text \<open>The pause after an outage is doubled each time.\<close>

definition longer :: "u32 \<Rightarrow> u32" where
  "longer wait = (if 2 * wait > POWER_SAMPLE_RETRY_MAX then POWER_SAMPLE_RETRY_MAX else 2 * wait)"

lemma overload_step:
  assumes "at_state POWER_OVERLOAD since wait d t s" "now h - since \<le> 0x10000000" "\<not> commonFaultPin d"
  shows "now h - since \<le> wait \<Longrightarrow> at_state POWER_OVERLOAD since wait d t (checkPowerOverload h b t s)"
    "\<not> now h - since \<le> wait \<Longrightarrow> at_state POWER_ALERT (now h) (longer wait) d t (checkPowerOverload h b t s) \<and>
       lastPowerMode (drivers (checkPowerOverload h b t s) ! t) = POWER_OVERLOAD"
proof -
  let ?e = "drivers s ! t" and ?f = "(drivers s ! t)\<lparr>lastPowerMode := POWER_OVERLOAD\<rparr>"
  have s: "t < length (drivers s)" "powerMode ?e = POWER_OVERLOAD" "sensing ?e = sensing d" "overload_wait ?e = wait"
    "commonFaultPin ?e = commonFaultPin d" "lastPowerChange ?e POWER_OVERLOAD = since"
    using assms(1) by (simp_all add: at_state_def)
  have m: "microsSinceLastPowerChange h POWER_OVERLOAD ?f = (now h - since, ?f)"
    using assms(2) s(6) by (simp add: microsSinceLastPowerChange_def Let_def linorder_not_less)
  have c: "checkPowerOverload h b t s =
      (if now h - since > wait
       then Motors.setPower h POWER_ALERT t (emit_out [PowerEvent t True] (set_driver t (\<lambda>_. ?f\<lparr>overload_wait := longer wait\<rparr>) s))
       else set_driver t (\<lambda>_. ?f) s)"
    using s(2,4,5) assms(3) by (simp add: checkPowerOverload_def getPower_def overload_OVERLOAD_def m Let_def longer_def)
  show "now h - since \<le> wait \<Longrightarrow> at_state POWER_OVERLOAD since wait d t (checkPowerOverload h b t s)"
    using s by (simp add: c at_state_def shield_simps linorder_not_less [symmetric] sensing_def)
  let ?s = "emit_out [PowerEvent t True] (set_driver t (\<lambda>_. ?f\<lparr>overload_wait := longer wait\<rparr>) s)"
  have l: "t < length (drivers ?s)" "lastPowerMode (drivers ?s ! t) = POWER_OVERLOAD" using s(1) by (simp_all add: shield_simps)
  have "lastPowerMode (drivers (Motors.setPower h POWER_ALERT t ?s) ! t) = POWER_OVERLOAD"
    using l(2) by (subst setPower_driver(2) [OF l(1)]) simp
  moreover have "at_state POWER_ALERT (now h) (longer wait) d t
      (Motors.setPower h POWER_ALERT t (emit_out [PowerEvent t True] (set_driver t (\<lambda>_. ?f\<lparr>overload_wait := longer wait\<rparr>) s)))"
    by (rule setPower_at) (use s in \<open>simp_all add: shield_simps sensing_def\<close>)
  ultimately show "\<not> now h - since \<le> wait \<Longrightarrow> at_state POWER_ALERT (now h) (longer wait) d t (checkPowerOverload h b t s) \<and>
       lastPowerMode (drivers (checkPowerOverload h b t s) ! t) = POWER_OVERLOAD"
    by (simp add: c linorder_not_le)
qed

lemma alert_while_bad:
  assumes "at_state POWER_ALERT since wait d t s"
    "\<forall>k \<in> set pre. bad b k d \<and> now k - since < timeout b k d"
  shows "at_state POWER_ALERT since wait d t (checks b t pre s)"
  using assms
proof (induction pre arbitrary: s)
  case (Cons k pre)
  have k: "bad b k d" "now k - since < timeout b k d" using Cons.prems(2) by simp_all
  have "timeout b k d \<le> 0x10000000" by (simp add: timeout_def)
  then have "now k - since \<le> 0x10000000" using k(2) by (meson less_imp_le order.trans)
  from alert_step(1) [OF Cons.prems(1) this k] show ?case
    using Cons.IH Cons.prems(2) by simp
qed simp

lemma checks_ok:
  "shield_ok s \<Longrightarrow> t < length (drivers s) \<Longrightarrow> shield_ok (checks b t hs s) \<and> length (drivers (checks b t hs s)) = length (drivers s)"
proof (induction hs arbitrary: s)
  case (Cons h hs)
  from check_guards [OF Cons.prems(2,1), of h b] show ?case using Cons.IH Cons.prems(2) by (simp add: guards_def)
qed simp

section \<open>Short circuits that last\<close>

lemma at_statesI:
  "t < length (drivers s) \<Longrightarrow> d = drivers s ! t \<Longrightarrow> at_state (getPower t s) (lastPowerChange d (getPower t s)) (overload_wait d) d t s"
  by (simp add: at_state_def getPower_def)

text \<open>
  C6: a short circuit is cut off. The first bad reading, a fault or too much current, puts a track that is on on alert.
  While the readings stay bad it stays on alert for as long as they are tolerated, 5 ms if fault and current agree and
  100 ms otherwise; the first bad reading after that ends in OVERLOAD, with the power pin written off.
\<close>

theorem short_circuit_cut:
  fixes b h k x pre
  assumes "tracks_reach stray x" "t < num_tracks x"
  defines "s \<equiv> shield_of x" and "d \<equiv> drivers (shield_of x) ! t"
  assumes "getPower t s = POWER_ON" "bad b h d" "\<forall>k \<in> set pre. bad b k d \<and> now k - now h < timeout b k d"
    "bad b k d" "timeout b k d \<le> now k - now h" "now k - now h \<le> 0x10000000"
  shows "getPower t (checks b t (h # pre) s) = POWER_ALERT \<and>
    (let s' = checks b t (h # pre @ [k]) s
     in getPower t s' = POWER_OVERLOAD \<and> written (powerPin (drivers s' ! t)) (touts s') = Some (invertPower (drivers s' ! t)))"
proof -
  have ok: "shield_ok s" "t < length (drivers s)"
    using tracks_reach_inv [OF assms(1)] assms(2) by (simp_all add: s_def tracks_inv_def num_tracks_def)
  have "at_state POWER_ON (lastPowerChange d POWER_ON) (overload_wait d) d t s"
    using at_statesI [OF ok(2), of d] assms(5) by (simp add: d_def s_def)
  from alert_while_bad [OF on_bad [OF this assms(6)] assms(7)]
  have a: "at_state POWER_ALERT (now h) (overload_wait d) d t (checks b t (h # pre) s)" by simp
  let ?s = "checks b t (h # pre @ [k]) s"
  have o: "at_state POWER_OVERLOAD (now k) (overload_wait d) d t ?s"
    using alert_step(2) [OF a assms(10,8)] assms(9) by (simp add: not_less)
  have "shield_ok ?s" "t < length (drivers ?s)" using checks_ok [OF ok, of b "h # pre @ [k]"] ok(2) by simp_all
  then have "power_ok (touts ?s) (drivers ?s ! t)" by (simp add: shield_ok_def list_all_length)
  then show ?thesis using a o unfolding Let_def by (simp add: at_state_def getPower_def power_ok_def power_on_def del: checks_simps)
qed










lemma alert_while_good:
  assumes "at_state POWER_ALERT since wait d t s" "lastPowerMode (drivers s ! t) = POWER_ALERT" "lastBadSample (drivers s ! t) = u"
    "\<forall>k \<in> set good. \<not> bad b k d \<and> now k - u \<le> POWER_SAMPLE_ALERT_GOOD \<and> now k - since \<le> 0x10000000"
  shows "at_state POWER_ALERT since wait d t (checks b t good s) \<and> lastPowerMode (drivers (checks b t good s) ! t) = POWER_ALERT \<and>
    lastBadSample (drivers (checks b t good s) ! t) = u"
  using assms
proof (induction good arbitrary: s)
  case (Cons k good)
  have k: "\<not> bad b k d" "now k - u \<le> POWER_SAMPLE_ALERT_GOOD" "now k - since \<le> 0x10000000" using Cons.prems(4) by simp_all
  have u: "u = (if lastPowerMode (drivers s ! t) = POWER_ALERT then lastBadSample (drivers s ! t) else now k)" using Cons.prems(2,3) by simp
  from alert_step(4) [OF Cons.prems(1) k(3,1) u k(2)] show ?case using Cons.IH Cons.prems(4) by simp
qed simp

text \<open>
  C8: power comes back when the short circuit is gone. After its pause a track in OVERLOAD is on alert; if the
  reading at the next check is good and they stay so, the first check more than 20 ms later finds the track well and it is on.
\<close>

theorem power_restored:
  fixes b r g k x good
  assumes "tracks_reach stray x" "t < num_tracks x"
  defines "s \<equiv> shield_of x" and "d \<equiv> drivers (shield_of x) ! t"
  assumes "getPower t s = POWER_OVERLOAD" "\<not> commonFaultPin d"
    "overload_wait d < now r - lastPowerChange d POWER_OVERLOAD" "now r - lastPowerChange d POWER_OVERLOAD \<le> 0x10000000"
    "\<forall>q \<in> set (g # good). \<not> bad b q d \<and> now q - now g \<le> POWER_SAMPLE_ALERT_GOOD \<and> now q - now r \<le> 0x10000000"
    "\<not> bad b k d" "POWER_SAMPLE_ALERT_GOOD < now k - now g" "now k - now r \<le> 0x10000000"
  shows "getPower t (checks b t (r # g # good) s) = POWER_ALERT \<and>
    (let s' = checks b t (r # g # good @ [k]) s
     in getPower t s' = POWER_ON \<and> written (powerPin (drivers s' ! t)) (touts s') = Some (\<not> invertPower (drivers s' ! t)))"
proof -
  have ok: "shield_ok s" "t < length (drivers s)"
    using tracks_reach_inv [OF assms(1)] assms(2) by (simp_all add: s_def tracks_inv_def num_tracks_def)
  have "at_state POWER_OVERLOAD (lastPowerChange d POWER_OVERLOAD) (overload_wait d) d t s"
    using at_statesI [OF ok(2), of d] assms(5) by (simp add: d_def s_def)
  from overload_step(2) [OF this assms(8,6)] assms(7)
  have r: "at_state POWER_ALERT (now r) (longer (overload_wait d)) d t (checkPowerOverload r b t s)"
    "lastPowerMode (drivers (checkPowerOverload r b t s) ! t) = POWER_OVERLOAD" by (simp_all add: not_le)
  have g: "\<not> bad b g d" "now g - now r \<le> 0x10000000"
    "\<forall>q \<in> set good. \<not> bad b q d \<and> now q - now g \<le> POWER_SAMPLE_ALERT_GOOD \<and> now q - now r \<le> 0x10000000" using assms(9) by simp_all
  let ?g = "checkPowerOverload g b t (checkPowerOverload r b t s)"
  have g': "at_state POWER_ALERT (now r) (longer (overload_wait d)) d t ?g" "lastPowerMode (drivers ?g ! t) = POWER_ALERT" "lastBadSample (drivers ?g ! t) = now g"
    using alert_step(4) [OF r(1) g(2,1), of "now g"] r(2) by simp_all
  let ?a = "checks b t (r # g # good) s" and ?s = "checks b t (r # g # good @ [k]) s"
  have a: "at_state POWER_ALERT (now r) (longer (overload_wait d)) d t ?a" "lastPowerMode (drivers ?a ! t) = POWER_ALERT" "lastBadSample (drivers ?a ! t) = now g"
    using alert_while_good [OF g'(1) g'(2) g'(3) g(3)] by simp_all
  have "at_state POWER_ON (now k) (longer (overload_wait d)) d t ?s"
    using alert_step(3) [OF a(1) assms(12,10) a(2)] assms(11) a(3) by simp
  moreover have "shield_ok ?s" "t < length (drivers ?s)" using checks_ok [OF ok, of b "r # g # good @ [k]"] ok(2) by simp_all
  then have "power_ok (touts ?s) (drivers ?s ! t)" by (simp add: shield_ok_def list_all_length)
  ultimately show ?thesis using a(1) unfolding Let_def by (simp add: at_state_def getPower_def power_ok_def power_on_def del: checks_simps)
qed

section \<open>Examples\<close>

text \<open>The time and the level at the current pin; 668 is where the output of the example trips.\<close>

definition reading :: "u32 \<Rightarrow> int \<Rightarrow> hw" where
  "reading us level = demo_hw\<lparr>now := us, current_adc := \<lambda>_. level\<rparr>"

definition demo_short :: "dcc \<Rightarrow> tracks" where
  "demo_short c = tracks_loop (reading 200000 900) False (tracks_loop (reading 2000 900) False (demo_tracks c))"

lemma demo_cut:
  "getPower 0 (shield_of (demo_tracks c)) = POWER_ON" "bad False (reading 2000 900) (drivers (shield_of (demo_tracks c)) ! 0)"
  "\<forall>k \<in> set [reading 50000 900]. bad False k (drivers (shield_of (demo_tracks c)) ! 0) \<and>
     now k - now (reading 2000 900) < timeout False k (drivers (shield_of (demo_tracks c)) ! 0)"
  "bad False (reading 200000 900) (drivers (shield_of (demo_tracks c)) ! 0)"
  "timeout False (reading 200000 900) (drivers (shield_of (demo_tracks c)) ! 0) \<le> now (reading 200000 900) - now (reading 2000 900)"
  "now (reading 200000 900) - now (reading 2000 900) \<le> 0x10000000"
  by code_simp+

theorem short_circuit_cut_witness:
  "\<forall>c. getPower 0 (checks False 0 [reading 2000 900, reading 50000 900] (shield_of (demo_tracks c))) = POWER_ALERT \<and>
    getPower 0 (checks False 0 [reading 2000 900, reading 50000 900, reading 200000 900] (shield_of (demo_tracks c))) = POWER_OVERLOAD"
  using short_circuit_cut [OF demo_reach _ demo_cut] demo_on(1) by (simp add: Let_def del: checks_simps)

lemma demo_short_reach: "tracks_reach stray (demo_short c)"
  unfolding demo_short_def by (intro turn demo_reach)

lemma demo_short_state:
  "num_tracks (demo_short c) = 1" "getPower 0 (shield_of (demo_short c)) = POWER_OVERLOAD" "\<not> commonFaultPin (drivers (shield_of (demo_short c)) ! 0)"
  "lastPowerChange (drivers (shield_of (demo_short c)) ! 0) POWER_OVERLOAD = 200000" "overload_wait (drivers (shield_of (demo_short c)) ! 0) = 40000"
  by code_simp+



lemma demo_restore:
  "overload_wait (drivers (shield_of (demo_short c)) ! 0) < now (reading 250000 0) - lastPowerChange (drivers (shield_of (demo_short c)) ! 0) POWER_OVERLOAD"
  "now (reading 250000 0) - lastPowerChange (drivers (shield_of (demo_short c)) ! 0) POWER_OVERLOAD \<le> 0x10000000"
  "\<forall>q \<in> set [reading 260000 0, reading 270000 0]. \<not> bad False q (drivers (shield_of (demo_short c)) ! 0) \<and>
     now q - now (reading 260000 0) \<le> POWER_SAMPLE_ALERT_GOOD \<and> now q - now (reading 250000 0) \<le> 0x10000000"
  "\<not> bad False (reading 290000 0) (drivers (shield_of (demo_short c)) ! 0)"
  "POWER_SAMPLE_ALERT_GOOD < now (reading 290000 0) - now (reading 260000 0)" "now (reading 290000 0) - now (reading 250000 0) \<le> 0x10000000"
  by code_simp+

theorem power_restored_witness:
  "\<forall>c. getPower 0 (checks False 0 [reading 250000 0, reading 260000 0, reading 270000 0, reading 290000 0] (shield_of (demo_short c))) = POWER_ON"
  using power_restored [OF demo_short_reach _ demo_short_state(2,3) demo_restore] demo_short_state(1)
  by (simp add: Let_def del: checks_simps)

end
