(* ===== verification/WiThrottle.thy ===== *)
theory WiThrottle
  imports ExrailLoop
begin

text \<open>
  The WiThrottle protocol, \<^verbatim>\<open>src/WiThrottle.cpp\<close> and \<^verbatim>\<open>src/WiThrottle.h\<close>: throttles on phones that connect over
  the network and drive locos.

  A client is an object at an address; the list \<open>clients\<close> holds those that exist in the order of
  \<^verbatim>\<open>nextThrottle\<close>, the newest first. The address of a deleted client is not used again. Code that goes on with a deleted
  client has no meaning; the model then sets \<open>freed\<close> and stops.

  The text of a command is the string from the place that the code points to; what lies behind the string is zero. A plain \<^verbatim>\<open>int\<close> is an integer, so
  the overflow of a number with too many digits is not modelled. A message is one call of
  \<^verbatim>\<open>StringFormatter::send\<close>, sent to the client the stream is marked for. The texts that the EXRAIL macros generate for roster and
  routes are left out of the messages, but for the list of a loco's functions, the argument \<open>roster\<close>.
\<close>

section \<open>State\<close>

record MYLOCO =
  throttle_char :: char
  my_cab :: int
  broadcastPending :: bool
  functionMap_sent :: u32
  functionToggles :: u32

record WiThrottle =
  clientid :: int
  myLocos :: "MYLOCO list"
  heartBeatEnable :: bool
  heartBeat :: u32
  introSent :: bool
  turnoutsSent :: bool
  rosterSent :: bool
  routesSent :: bool
  heartrateSent :: bool
  mostRecentCab :: u16

datatype wit_msg =
    HeartbeatSeconds int
  | HMConnected
  | Intro
  | TurnoutList "(u16 \<times> bool) list"
  | RosterList
  | RouteList
  | TurnoutCreated int
  | TurnoutState bool int
  | NoValidLoco int
  | AddressZero
  | BadLength char int
  | NoLocoSlot int
  | MaxLocos int
  | ListEmpty
  | LocoAdded char char int
  | SpeedSteps char char int
  | LocoRemoved char char int
  | FunctionNames char int string
  | FunctionState char int int nat
  | SpeedIs char int int
  | DirectionIs char int bool
  | FunctionIs char int bool nat
  | NoLocoFound
  | LongUnsupported int

record wit =
  objects :: "addr \<Rightarrow> WiThrottle"
  clients :: "addr list"
  next_object :: addr
  stashInstance :: ptr
  stashClient :: int
  stashThrottleChar :: char
  freed :: bool
  rest_of :: exrail
  sent :: "(int \<times> wit_msg) list"

text \<open>What new memory holds.\<close>

record garbage_memory =
  loco_memory :: "nat \<Rightarrow> MYLOCO"
  heart_memory :: u32

abbreviation MAX_MY_LOCO :: nat where "MAX_MY_LOCO \<equiv> 10"
abbreviation HEARTBEAT_SECONDS :: int where "HEARTBEAT_SECONDS \<equiv> 10"
abbreviation HEARTBEAT_PRELOAD :: int where "HEARTBEAT_PRELOAD \<equiv> 2"
abbreviation ESTOP_SECONDS :: u32 where "ESTOP_SECONDS \<equiv> 20"

definition send_to :: "int \<Rightarrow> wit_msg \<Rightarrow> wit \<Rightarrow> wit" where
  "send_to c m s = s\<lparr>sent := sent s @ [(c, m)]\<rparr>"

definition set_client :: "addr \<Rightarrow> (WiThrottle \<Rightarrow> WiThrottle) \<Rightarrow> wit \<Rightarrow> wit" where
  "set_client a f s = s\<lparr>objects := (objects s)(a := f (objects s a))\<rparr>"

definition set_loco :: "addr \<Rightarrow> nat \<Rightarrow> (MYLOCO \<Rightarrow> MYLOCO) \<Rightarrow> wit \<Rightarrow> wit" where
  "set_loco a i f = set_client a (\<lambda>t. t\<lparr>myLocos := (myLocos t)[i := f (myLocos t ! i)]\<rparr>)"

definition my_loco :: "addr \<Rightarrow> nat \<Rightarrow> wit \<Rightarrow> MYLOCO" where
  "my_loco a i s = myLocos (objects s a) ! i"

text \<open>The condition of \<^verbatim>\<open>LOOPLOCOS\<close>, and the loop.\<close>

definition matches :: "char \<Rightarrow> int \<Rightarrow> MYLOCO \<Rightarrow> bool" where
  "matches thr cab l \<longleftrightarrow> (throttle_char l = thr \<or> CHR ''*'' = thr) \<and> (cab < 0 \<or> my_cab l = cab)"

definition looplocos :: "addr \<Rightarrow> char \<Rightarrow> int \<Rightarrow> (nat \<Rightarrow> wit \<Rightarrow> wit) \<Rightarrow> wit \<Rightarrow> wit" where
  "looplocos a thr cab body = fold (\<lambda>i s. if matches thr cab (my_loco a i s) then body i s else s) [0..<MAX_MY_LOCO]"

section \<open>Clients\<close>

definition new_client :: "garbage_memory \<Rightarrow> int \<Rightarrow> WiThrottle" where
  "new_client g c =
    \<lparr>clientid = c, myLocos = map (\<lambda>i. (loco_memory g i)\<lparr>throttle_char := CHR 0x00\<rparr>) [0..<MAX_MY_LOCO], heartBeatEnable = False,
     heartBeat = heart_memory g, introSent = False, turnoutsSent = False, rosterSent = False, routesSent = False,
     heartrateSent = False, mostRecentCab = 0\<rparr>"

definition getThrottle :: "garbage_memory \<Rightarrow> int \<Rightarrow> wit \<Rightarrow> addr \<times> wit" where
  "getThrottle g c s =
    (case find (\<lambda>a. clientid (objects s a) = c) (clients s) of
       Some a \<Rightarrow> (a, s)
     | None \<Rightarrow>
         (let a = next_object s
          in (a, s\<lparr>objects := (objects s)(a := new_client g c), clients := a # clients s, next_object := a + 1\<rparr>)))"

definition delete_client :: "addr \<Rightarrow> wit \<Rightarrow> wit" where
  "delete_client a s = s\<lparr>clients := remove1 a (clients s)\<rparr>"

definition forget_client :: "byte \<Rightarrow> wit \<Rightarrow> wit" where
  "forget_client c s =
    (case find (\<lambda>a. clientid (objects s a) = uint c) (clients s) of Some a \<Rightarrow> delete_client a s | None \<Rightarrow> s)"

definition areYouUsingThrottle :: "addr \<Rightarrow> int \<Rightarrow> wit \<Rightarrow> bool" where
  "areYouUsingThrottle a cab s \<longleftrightarrow> list_ex (\<lambda>i. matches (CHR ''*'') cab (my_loco a i s)) [0..<MAX_MY_LOCO]"

definition isThrottleInUse :: "int \<Rightarrow> wit \<Rightarrow> bool" where
  "isThrottleInUse cab s \<longleftrightarrow> list_ex (\<lambda>a. areYouUsingThrottle a cab s) (clients s)"

section \<open>Broadcasts\<close>

definition markForBroadcast2 :: "int \<Rightarrow> addr \<Rightarrow> wit \<Rightarrow> wit" where
  "markForBroadcast2 cab a = looplocos a (CHR ''*'') cab (\<lambda>i. set_loco a i (\<lambda>l. l\<lparr>broadcastPending := True\<rparr>))"

definition markForBroadcast :: "int \<Rightarrow> wit \<Rightarrow> wit" where
  "markForBroadcast cab s = fold (markForBroadcast2 cab) (clients s) s"

text \<open>A call to the rest of the station; when it broadcasts a loco, \<^verbatim>\<open>CommandDistributor::broadcastLoco\<close> marks it here.\<close>

fun mark_event :: "dcc \<Rightarrow> dcc_event \<Rightarrow> wit \<Rightarrow> wit" where
  "mark_event d (BroadcastLoco b) = markForBroadcast (uint (loco (slot d b)))"
| "mark_event d _ = id"

definition wit_call :: "program \<Rightarrow> world \<Rightarrow> (yard \<Rightarrow> yard) \<Rightarrow> wit \<Rightarrow> wit" where
  "wit_call prg w f s =
    (let x = call prg w f (rest_of s)
     in fold (mark_event (dcc_of x)) (drop (length (devents (dcc_of (rest_of s)))) (devents (dcc_of x))) (s\<lparr>rest_of := x\<rparr>))"

definition wit_dcc :: "program \<Rightarrow> world \<Rightarrow> (dcc \<Rightarrow> dcc) \<Rightarrow> wit \<Rightarrow> wit" where
  "wit_dcc prg w f = wit_call prg w (on_station (on_dcc f))"

definition wit_board :: "program \<Rightarrow> world \<Rightarrow> (layout \<Rightarrow> layout) \<Rightarrow> wit \<Rightarrow> wit" where
  "wit_board prg w f = wit_call prg w (on_station (on_board f))"

definition wit_throttle :: "program \<Rightarrow> world \<Rightarrow> int \<Rightarrow> int \<Rightarrow> bool \<Rightarrow> wit \<Rightarrow> wit" where
  "wit_throttle prg w cab speed dir = wit_dcc prg w (\<lambda>d. snd (setThrottle (millis w) (word_of_int cab) (word_of_int speed) dir d))"

abbreviation dcc_now :: "wit \<Rightarrow> dcc" where "dcc_now s \<equiv> dcc_of (rest_of s)"

section \<open>Texts\<close>

definition rd :: "string \<Rightarrow> nat \<Rightarrow> char" where
  "rd buf i = (if i < length buf then buf ! i else CHR 0x00)"

fun digits_value :: "string \<Rightarrow> int \<Rightarrow> int" where
  "digits_value [] i = i"
| "digits_value (c # cs) i =
    (if 48 \<le> (of_char c :: nat) \<and> of_char c \<le> (57 :: nat) then digits_value cs (i * 10 + (of_char c - 48)) else i)"

definition getInt :: "string \<Rightarrow> int" where
  "getInt buf = (if rd buf 0 = CHR ''-'' then 0 - digits_value (drop 1 buf) 0 else digits_value buf 0)"

definition wit_getLocoId :: "string \<Rightarrow> int" where
  "wit_getLocoId buf =
    (if rd buf 0 = CHR ''*'' then -1
     else if rd buf 0 \<noteq> CHR ''L'' \<and> rd buf 0 \<noteq> CHR ''S'' then 0
     else getInt (drop 1 buf))"

definition LorS :: "int \<Rightarrow> char" where
  "LorS cab = (if cab \<le> HIGHEST_SHORT_ADDR then CHR ''S'' else CHR ''L'')"

definition DCCToWiTSpeed :: "int \<Rightarrow> int" where
  "DCCToWiTSpeed v = (if v = 0 then 0 else if v = 1 then -1 else v - 1)"

definition WiTToDCCSpeed :: "int \<Rightarrow> int" where
  "WiTToDCCSpeed v = (if v = 0 then 0 else if v = -1 then 1 else v + 1)"

section \<open>Driving\<close>

definition locoAction :: "program \<Rightarrow> world \<Rightarrow> int \<Rightarrow> addr \<Rightarrow> string \<Rightarrow> char \<Rightarrow> int \<Rightarrow> wit \<Rightarrow> wit" where
  "locoAction prg w c a aval thr cab s =
    (let recent = (\<lambda>i s. set_client a (\<lambda>t. t\<lparr>mostRecentCab := word_of_int (my_cab (my_loco a i s))\<rparr>) s);
         drive = (\<lambda>i speed s. let k = my_cab (my_loco a i s) in wit_throttle prg w k speed (getThrottleDirection k (dcc_now s)) s);
         pressed = (rd aval 1 = CHR ''1''); fKey = getInt (drop 2 aval)
     in if rd aval 0 = CHR ''V'' then
          looplocos a thr cab (\<lambda>i s. drive i (WiTToDCCSpeed (getInt (drop 1 aval))) (recent i s)) s
        else if rd aval 0 = CHR ''F'' then
          looplocos a thr cab (\<lambda>i s.
            let l = my_loco a i s
            in if 0 \<le> fKey \<and> bit (functionToggles l) (nat fKey)
               then wit_dcc prg w (\<lambda>d. snd (setFn (my_cab l) fKey pressed d)) s
               else if pressed then wit_dcc prg w (changeFn (my_cab l) fKey) s else s) s
        else if rd aval 0 = CHR ''f'' then
          looplocos a thr cab (\<lambda>i s. wit_dcc prg w (\<lambda>d. snd (setFn (my_cab (my_loco a i s)) fKey pressed d)) s) s
        else if rd aval 0 = CHR ''q'' then
          (if rd aval 1 = CHR ''V'' \<or> rd aval 1 = CHR ''R'' then
             (let found = list_ex (\<lambda>i. matches thr cab (my_loco a i s)) [0..<MAX_MY_LOCO];
                  s = looplocos a thr cab (\<lambda>i. set_loco a i (\<lambda>l. l\<lparr>broadcastPending := True\<rparr>)) s
              in if found then s else send_to c ListEmpty s)
           else s)
        else if rd aval 0 = CHR ''R'' then
          looplocos a thr cab (\<lambda>i s.
            let s = recent i s; k = my_cab (my_loco a i s)
            in wit_throttle prg w k (getThrottleSpeed k (dcc_now s)) (rd aval 1 \<noteq> CHR ''0'') s) s
        else if rd aval 0 = CHR ''X'' then looplocos a thr cab (\<lambda>i. drive i 1) s
        else if rd aval 0 = CHR ''I'' \<or> rd aval 0 = CHR ''Q'' then looplocos a thr cab (\<lambda>i s. drive i 0 (recent i s)) s
        else s)"

text \<open>
  The names of a loco's functions, separated by slashes; a star marks one that is on only while its key is pressed.
  The result is the number of functions, the marks, and the text sent.
\<close>

fun scan_names :: "string \<Rightarrow> nat \<Rightarrow> bool \<Rightarrow> u32 \<Rightarrow> string \<Rightarrow> nat \<times> u32 \<times> string" where
  "scan_names [] fkeys firstchar toggles text = (fkeys + 1, toggles, text)"
| "scan_names (ch # cs) fkeys firstchar toggles text =
    (if ch = CHR ''/'' then scan_names cs (fkeys + 1) True toggles (text @ '']'' @ [CHR 0x5C] @ ''['')
     else if firstchar \<and> ch = CHR ''*'' then scan_names cs fkeys False (toggles OR push_bit fkeys 1) text
     else scan_names cs fkeys False toggles (text @ [ch]))"

definition sendFunctions :: "(int \<Rightarrow> string option) \<Rightarrow> int \<Rightarrow> addr \<Rightarrow> nat \<Rightarrow> wit \<Rightarrow> wit" where
  "sendFunctions roster c a i s =
    (let l = my_loco a i s; k = my_cab l; thr = throttle_char l;
         names = (case roster k of Some n \<Rightarrow> Some n | None \<Rightarrow> roster 0);
         (fkeys, toggles, text) = (case names of None \<Rightarrow> (32, 4, None) | Some [] \<Rightarrow> (0, 4, None)
           | Some n \<Rightarrow> (let (f, tg, tx) = scan_names n 0 True 0 [] in (f, tg, Some tx)));
         s = set_loco a i (\<lambda>l. l\<lparr>functionToggles := toggles\<rparr>) s;
         s = (case text of None \<Rightarrow> s | Some tx \<Rightarrow> send_to c (FunctionNames thr k tx) s)
     in fold (\<lambda>f s. let st = getFn k (int f) (dcc_now s) in if st \<ge> 0 then send_to c (FunctionState thr k st f) s else s) [0..<fkeys] s)"

text \<open>A new loco for a client, in the first entry that is empty.\<close>

definition add_loco :: "program \<Rightarrow> world \<Rightarrow> (int \<Rightarrow> string option) \<Rightarrow> int \<Rightarrow> addr \<Rightarrow> char \<Rightarrow> char \<Rightarrow> int \<Rightarrow> wit \<Rightarrow> wit" where
  "add_loco prg w roster c a thr lors locoid s =
    (if locoid = 0 then send_to c AddressZero s
     else if lors \<noteq> LorS locoid then send_to c (BadLength lors locoid) s
     else
       (let found = fst (get_slot locoid True (dcc_now s));
            s = wit_dcc prg w (\<lambda>d. snd (get_slot locoid True d)) s
        in if found = None then send_to c (NoLocoSlot locoid) s
           else case find (\<lambda>i. throttle_char (my_loco a i s) = CHR 0x00) [0..<MAX_MY_LOCO] of
             None \<Rightarrow> send_to c (MaxLocos locoid) s
           | Some i \<Rightarrow>
               (let s = set_loco a i (\<lambda>l. l\<lparr>throttle_char := thr, my_cab := locoid, functionMap_sent := getFunctionMap locoid (dcc_now s),
                          broadcastPending := True\<rparr>) s;
                    s = set_client a (\<lambda>t. t\<lparr>mostRecentCab := word_of_int locoid\<rparr>) s;
                    s = sendFunctions roster c a i (send_to c (LocoAdded thr lors locoid) s)
                in send_to c (SpeedSteps thr lors locoid) s)))"

text \<open>\<^verbatim>\<open>multithrottle\<close> but for the request to take the loco from the programming track.\<close>

definition multithrottle_main :: "program \<Rightarrow> world \<Rightarrow> (int \<Rightarrow> string option) \<Rightarrow> int \<Rightarrow> addr \<Rightarrow> string \<Rightarrow> wit \<Rightarrow> wit" where
  "multithrottle_main prg w roster c a buf s =
    (let thr = rd buf 1; locoid = wit_getLocoId (drop 3 buf);
         aval = dropWhile (\<lambda>ch. ch \<noteq> CHR '';'' \<and> ch \<noteq> CHR 0x00) buf;
         aval = (if rd aval 0 \<noteq> CHR 0x00 then drop 2 aval else aval)
     in if locoid > 10239 \<or> locoid < -1 then send_to c (NoValidLoco locoid) s
        else if rd buf 2 = CHR ''+'' then add_loco prg w roster c a thr (rd buf 3) locoid s
        else if rd buf 2 = CHR ''-'' then
          looplocos a thr locoid (\<lambda>i s.
            let k = my_cab (my_loco a i s)
            in send_to c (LocoRemoved thr (LorS k) k) (set_loco a i (\<lambda>l. l\<lparr>throttle_char := CHR 0x00\<rparr>) s)) s
        else if rd buf 2 = CHR ''A'' then locoAction prg w c a aval thr locoid s
        else s)"

section \<open>Driving away\<close>

definition callback_WiThrottle :: nat where "callback_WiThrottle = 11"

fun itoa :: "nat \<Rightarrow> string" where
  "itoa n = (if n < 10 then [] else itoa (n div 10)) @ [char_of (48 + n mod 10)]"

declare itoa.simps [simp del]

definition wit_out :: "exrail_out \<Rightarrow> wit \<Rightarrow> wit" where
  "wit_out e s = s\<lparr>rest_of := out e (rest_of s)\<rparr>"

text \<open>The answer of the programming track; \<^verbatim>\<open>locoid\<close> has 16 bits.\<close>

definition getLocoCallback :: "program \<Rightarrow> world \<Rightarrow> (int \<Rightarrow> string option) \<Rightarrow> int \<Rightarrow> wit \<Rightarrow> wit" where
  "getLocoCallback prg w roster cv s =
    (let c = stashClient s; locoid = (word_of_int cv :: u16); long = (locoid AND word_of_int LONG_ADDR_MARKER \<noteq> 0);
         l = sint (if long then locoid XOR word_of_int LONG_ADDR_MARKER else locoid)
     in if sint locoid \<le> 0 then send_to c NoLocoFound s
        else if long \<and> l \<le> HIGHEST_SHORT_ADDR then send_to c (LongUnsupported l) s
        else case stashInstance s of
          None \<Rightarrow> s\<lparr>freed := True\<rparr>
        | Some a \<Rightarrow>
            if a \<notin> set (clients s) then s\<lparr>freed := True\<rparr>
            else
              wit_out (SetProgPower True) (wit_out (SetMainPower True) (wit_out (SetJoin True)
                (multithrottle_main prg w roster c a
                  ([CHR ''M'', stashThrottleChar s, CHR ''+'', if long then CHR ''L'' else CHR ''S''] @ itoa (nat l)) s))))"

definition wit_prog :: "program \<Rightarrow> world \<Rightarrow> (int \<Rightarrow> string option) \<Rightarrow> (ack \<Rightarrow> ack) \<Rightarrow> wit \<Rightarrow> wit" where
  "wit_prog prg w roster f s =
    (let y = yard_of (rest_of s); p = f (prog (station_of y));
         mine = filter (\<lambda>(n, _). n = callback_WiThrottle) (callbacks p);
         others = filter (\<lambda>(n, _). n \<noteq> callback_WiThrottle) (callbacks p)
     in fold (\<lambda>(_, cv). getLocoCallback prg w roster cv) mine
          (s\<lparr>rest_of := (rest_of s)\<lparr>yard_of := on_station (\<lambda>s. deliver (s\<lparr>prog := p\<lparr>callbacks := others\<rparr>\<rparr>)) y\<rparr>\<rparr>))"

definition multithrottle :: "program \<Rightarrow> world \<Rightarrow> (int \<Rightarrow> string option) \<Rightarrow> int \<Rightarrow> addr \<Rightarrow> string \<Rightarrow> wit \<Rightarrow> wit" where
  "multithrottle prg w roster c a buf s =
    (if rd buf 2 = CHR ''+'' \<and> rd buf 3 = CHR ''*'' then
       wit_prog prg w roster (getDriveawayLocoId callback_WiThrottle)
         (s\<lparr>stashClient := c, stashThrottleChar := rd buf 1, stashInstance := Some a\<rparr>)
     else multithrottle_main prg w roster c a buf s)"

section \<open>Commands\<close>

definition sendIntro :: "int \<Rightarrow> addr \<Rightarrow> wit \<Rightarrow> wit" where
  "sendIntro c a s =
    (if introSent (objects s a) then s
     else send_to c (HeartbeatSeconds HEARTBEAT_PRELOAD) (send_to c Intro (set_client a (\<lambda>t. t\<lparr>introSent := True\<rparr>) s)))"

definition turnout_list :: "layout \<Rightarrow> (u16 \<times> bool) list" where
  "turnout_list l = map (\<lambda>t. (t_id t, Turnouts.isClosed (t_id t) l)) (filter (\<lambda>t. \<not> hidden t) (turnouts l))"

text \<open>With the first commands after the introduction go the lists of turnouts, locos and routes, one with each.\<close>

definition send_metadata :: "int \<Rightarrow> addr \<Rightarrow> wit \<Rightarrow> wit" where
  "send_metadata c a s =
    (let t = objects s a
     in if \<not> introSent t then s
        else if \<not> turnoutsSent t then
          send_to c (TurnoutList (turnout_list (board_of (rest_of s)))) (set_client a (\<lambda>t. t\<lparr>turnoutsSent := True\<rparr>) s)
        else if \<not> rosterSent t then send_to c RosterList (set_client a (\<lambda>t. t\<lparr>rosterSent := True\<rparr>) s)
        else if \<not> routesSent t then send_to c RouteList (set_client a (\<lambda>t. t\<lparr>routesSent := True\<rparr>) s)
        else if \<not> heartrateSent t then
          send_to c HMConnected (send_to c (HeartbeatSeconds HEARTBEAT_SECONDS) (set_client a (\<lambda>t. t\<lparr>heartrateSent := True\<rparr>) s))
        else s)"

definition accessory_toggle :: "program \<Rightarrow> world \<Rightarrow> int \<Rightarrow> string \<Rightarrow> wit \<Rightarrow> wit" where
  "accessory_toggle prg w c buf s =
    (let i = getInt (drop 4 buf); t = (word_of_int i :: u16); closed_now = (\<lambda>s. Turnouts.isClosed t (board_of (rest_of s)));
         s = (if Turnouts.get t (board_of (rest_of s)) \<noteq> None then s
              else send_to c (TurnoutCreated i)
                (wit_board prg w (create_dcc t (word_of_int (trunc_div (i - 1) 4 + 1)) (word_of_int (rem4 (i - 1)))) s));
         target = (if rd buf 3 = CHR ''T'' then False else if rd buf 3 = CHR ''2'' then \<not> closed_now s else True);
         s = wit_board prg w (\<lambda>l. snd (Turnouts.setClosed (RCN_213 w) t target l)) s
     in send_to c (TurnoutState (closed_now s) i) s)"

definition quit_client :: "int \<Rightarrow> addr \<Rightarrow> wit \<Rightarrow> wit" where
  "quit_client c a s =
    delete_client a (looplocos a (CHR ''*'') (-1) (\<lambda>i s.
      let l = my_loco a i s
      in if throttle_char l \<noteq> CHR 0x00 then send_to c (LocoRemoved (throttle_char l) (LorS (my_cab l)) (my_cab l)) s else s) s)"

text \<open>One command of a text.\<close>

definition wit_command :: "program \<Rightarrow> world \<Rightarrow> (int \<Rightarrow> string option) \<Rightarrow> int \<Rightarrow> addr \<Rightarrow> string \<Rightarrow> wit \<Rightarrow> wit" where
  "wit_command prg w roster c a buf s =
    (let b = rd buf
     in if b 0 = CHR ''*'' then
          (if b 1 = CHR ''+'' then set_client a (\<lambda>t. t\<lparr>heartBeatEnable := True\<rparr>) s
           else if b 1 = CHR ''-'' then set_client a (\<lambda>t. t\<lparr>heartBeatEnable := False\<rparr>) s else s)
        else if b 0 = CHR ''P'' then
          (if b 1 = CHR ''P'' \<and> b 2 = CHR ''A'' then wit_out (SetMainPower (b 3 = CHR ''1'')) s
           else if b 1 = CHR ''R'' \<and> b 2 = CHR ''A'' \<and> b 3 = CHR ''2'' then
             s\<lparr>rest_of := createNewTask prg w (word_of_int (getInt (drop 5 buf)))
               (if b 4 = CHR ''A'' then mostRecentCab (objects s a) else 0) (rest_of s)\<rparr>
           else if b 1 = CHR ''T'' \<and> b 2 = CHR ''A'' then accessory_toggle prg w c buf s
           else s)
        else if b 0 = CHR ''N'' then
          (let s = sendIntro c a s
           in send_to c (HeartbeatSeconds (if heartrateSent (objects s a) then HEARTBEAT_SECONDS else HEARTBEAT_PRELOAD)) s)
        else if b 0 = CHR ''M'' then multithrottle prg w roster c a buf s
        else if b 0 = CHR ''H'' then (if b 1 = CHR ''U'' then sendIntro c a s else s)
        else if b 0 = CHR ''Q'' then quit_client c a s
        else s)"

text \<open>The commands that work on the members of the client.\<close>

definition touches_client :: "string \<Rightarrow> bool" where
  "touches_client buf \<longleftrightarrow>
    (let b = rd buf
     in b 0 = CHR ''*'' \<and> (b 1 = CHR ''+'' \<or> b 1 = CHR ''-'') \<or>
        b 0 = CHR ''P'' \<and> b 1 = CHR ''R'' \<and> b 2 = CHR ''A'' \<and> b 3 = CHR ''2'' \<and> b 4 = CHR ''A'' \<or>
        b 0 = CHR ''N'' \<or> b 0 = CHR ''M'' \<or> b 0 = CHR ''H'' \<and> b 1 = CHR ''U'' \<or> b 0 = CHR ''Q'')"

definition skip_line :: "string \<Rightarrow> string" where
  "skip_line buf =
    (case dropWhile (\<lambda>ch. ch \<noteq> CHR 0x00 \<and> ch \<noteq> CHR 0x0D \<and> ch \<noteq> CHR 0x0A) buf of
       [] \<Rightarrow> []
     | ch # r \<Rightarrow> if ch = CHR 0x00 then ch # r else r)"

lemma skip_line_shorter: "rd buf 0 \<noteq> CHR 0x00 \<Longrightarrow> length (skip_line buf) < length buf"
proof -
  assume "rd buf 0 \<noteq> CHR 0x00"
  then obtain ch r where buf: "buf = ch # r" "ch \<noteq> CHR 0x00" by (cases buf) (auto simp: rd_def)
  show ?thesis
  proof (cases "ch = CHR 0x0D \<or> ch = CHR 0x0A")
    case True
    then show ?thesis by (auto simp: skip_line_def buf(1))
  next
    case False
    define e where "e = dropWhile (\<lambda>ch. ch \<noteq> CHR 0x00 \<and> ch \<noteq> CHR 0x0D \<and> ch \<noteq> CHR 0x0A) r"
    have l: "skip_line buf = (case e of [] \<Rightarrow> [] | ch # r \<Rightarrow> if ch = CHR 0x00 then ch # r else r)"
      using False buf by (simp add: skip_line_def e_def)
    have "length e \<le> length r" unfolding e_def by (rule length_dropWhile_le)
    then show ?thesis unfolding l by (cases e) (simp_all add: buf(1))
  qed
qed

function parse_lines :: "program \<Rightarrow> world \<Rightarrow> (int \<Rightarrow> string option) \<Rightarrow> int \<Rightarrow> addr \<Rightarrow> string \<Rightarrow> wit \<Rightarrow> wit" where
  "parse_lines prg w roster c a buf s =
    (if rd buf 0 = CHR 0x00 then s
     else if a \<notin> set (clients s) \<and> touches_client buf then s\<lparr>freed := True\<rparr>
     else parse_lines prg w roster c a (skip_line buf) (wit_command prg w roster c a buf s))"
  by pat_completeness auto
termination
  by (relation "measure (\<lambda>(prg, w, roster, c, a, buf, s). length buf)") (auto simp: skip_line_shorter)

declare parse_lines.simps [simp del]

definition wit_parse :: "program \<Rightarrow> world \<Rightarrow> (int \<Rightarrow> string option) \<Rightarrow> int \<Rightarrow> addr \<Rightarrow> string \<Rightarrow> wit \<Rightarrow> wit" where
  "wit_parse prg w roster c a buf s =
    parse_lines prg w roster c a buf (send_metadata c a (set_client a (\<lambda>t. t\<lparr>heartBeat := millis w\<rparr>) s))"

text \<open>A text from the network, \<^verbatim>\<open>CommandDistributor::parse\<close> for a client of this protocol.\<close>

definition receive :: "garbage_memory \<Rightarrow> program \<Rightarrow> world \<Rightarrow> (int \<Rightarrow> string option) \<Rightarrow> byte \<Rightarrow> string \<Rightarrow> wit \<Rightarrow> wit" where
  "receive g prg w roster c buf s = (let (a, s) = getThrottle g (uint c) s in wit_parse prg w roster (uint c) a buf s)"

section \<open>The loop\<close>

text \<open>The functions that changed since they were last sent, found by shifting both maps until they are equal.\<close>

function fn_changes :: "nat \<Rightarrow> u32 \<Rightarrow> u32 \<Rightarrow> (nat \<times> bool) list" where
  "fn_changes n d m =
    (if d = m then []
     else (if d AND 1 \<noteq> m AND 1 then [(n, d AND 1 \<noteq> 0)] else []) @ fn_changes (n + 1) (drop_bit 1 d) (drop_bit 1 m))"
  by pat_completeness auto
termination
proof (relation "measure (\<lambda>(n, d, m). unat d + unat m)")
  fix n :: nat and d m :: u32
  assume "d \<noteq> m"
  then have "0 < unat d \<or> 0 < unat m" by (auto simp: unat_gt_0)
  then show "((n + 1, drop_bit 1 d, drop_bit 1 m), n, d, m) \<in> measure (\<lambda>(n, d, m). unat d + unat m)"
    by (simp add: drop_bit_eq_div unat_div) linarith
qed simp

declare fn_changes.simps [simp del]

definition send_loco :: "addr \<Rightarrow> nat \<Rightarrow> wit \<Rightarrow> wit" where
  "send_loco a i s =
    (let l = my_loco a i s; k = my_cab l; thr = throttle_char l; c = clientid (objects s a); d = dcc_now s
     in if throttle_char l \<noteq> CHR 0x00 \<and> broadcastPending l then
          (let s = set_loco a i (\<lambda>l. l\<lparr>broadcastPending := False, functionMap_sent := getFunctionMap k d\<rparr>) s;
               s = send_to c (DirectionIs thr k (getThrottleDirection k d)) (send_to c (SpeedIs thr k (DCCToWiTSpeed (getThrottleSpeed k d))) s)
           in fold (\<lambda>(n, on). send_to c (FunctionIs thr k on n)) (fn_changes 0 (getFunctionMap k d) (functionMap_sent l)) s)
        else s)"

definition timed_out :: "world \<Rightarrow> addr \<Rightarrow> wit \<Rightarrow> bool" where
  "timed_out w a s \<longleftrightarrow> heartBeatEnable (objects s a) \<and> millis w - heartBeat (objects s a) > ESTOP_SECONDS * 1000"

definition checkHeartbeat :: "program \<Rightarrow> world \<Rightarrow> addr \<Rightarrow> wit \<Rightarrow> wit" where
  "checkHeartbeat prg w a s =
    (if timed_out w a s then
       delete_client a (looplocos a (CHR ''*'') (-1) (\<lambda>i s.
         let k = my_cab (my_loco a i s)
         in if throttle_char (my_loco a i s) \<noteq> CHR 0x00
            then set_client a (\<lambda>t. t\<lparr>heartBeat := millis w\<rparr>) (wit_throttle prg w k 1 (getThrottleDirection k (dcc_now s)) s)
            else s) s)
     else looplocos a (CHR ''*'') (-1) (send_loco a) s)"

text \<open>The loop reads \<^verbatim>\<open>nextThrottle\<close> of each client after its check, also of one that was deleted.\<close>

fun loop_clients :: "program \<Rightarrow> world \<Rightarrow> addr list \<Rightarrow> wit \<Rightarrow> wit" where
  "loop_clients prg w [] s = s"
| "loop_clients prg w (a # as) s =
    (let s = checkHeartbeat prg w a s in if a \<in> set (clients s) then loop_clients prg w as s else s\<lparr>freed := True\<rparr>)"

definition wit_loop :: "program \<Rightarrow> world \<Rightarrow> wit \<Rightarrow> wit" where
  "wit_loop prg w s = loop_clients prg w (clients s) s"

end
