(* ===== verification/WiThrottleProps.thy ===== *)
theory WiThrottleProps
  imports WiThrottle ExrailProps
begin

text \<open>
  What holds of the WiThrottle clients: the list of clients and their locos stay well formed, a client that falls silent has its
  locos stopped, clients are told of every change of their locos' functions, and a text drives the loco it names.
\<close>

section \<open>Calls to the station\<close>

lemma tasks_yard: "yard_of (new_task w pc l rv x) = yard_of x" "yard_of (startNonRecursiveTask w pc l x) = yard_of x"
    "yard_of (handleEvent w lk i c x) = yard_of x"
proof -
  show n: "yard_of (new_task w pc l rv x) = yard_of x" for pc l rv x by (simp add: new_task_def Let_def setFlag_def split: option.split)
  show s: "yard_of (startNonRecursiveTask w pc l x) = yard_of x" for pc l x
    by (simp add: startNonRecursiveTask_def Let_def n set_task_def)
  show "yard_of (handleEvent w lk i c x) = yard_of x"
    unfolding handleEvent_def by (induction lk arbitrary: x) (auto simp: s)
qed

lemma call_yard: "yard_of (call prg w f x) = f (yard_of x)"
proof -
  have "yard_of (dcc_event prg w e x) = yard_of x" for e x by (cases e) (simp_all add: activateEvent_def tasks_yard)
  then have d: "yard_of (fold (dcc_event prg w) es x) = yard_of x" for es x by (induction es arbitrary: x) simp_all
  have "yard_of (layout_event prg w e x) = yard_of x" for e x by (cases e) (simp_all add: turnoutEvent_def rotateEvent_def tasks_yard)
  then have "yard_of (fold (layout_event prg w) es x) = yard_of x" for es x by (induction es arbitrary: x) simp_all
  with d show ?thesis by (simp add: call_def Let_def)
qed

text \<open>What a broadcast does: it marks locos, and nothing else.\<close>

definition unmarked :: "WiThrottle \<Rightarrow> WiThrottle" where
  "unmarked t = t\<lparr>myLocos := map (\<lambda>l. l\<lparr>broadcastPending := False\<rparr>) (myLocos t)\<rparr>"

definition marks :: "(wit \<Rightarrow> wit) \<Rightarrow> bool" where
  "marks f \<longleftrightarrow> (\<forall>s. \<exists>g. f s = s\<lparr>objects := g\<rparr> \<and> (\<forall>a. unmarked (g a) = unmarked (objects s a)))"

lemma marks_id: "marks id" "marks (\<lambda>s. s)"
proof -
  have "s = s\<lparr>objects := objects s\<rparr>" for s :: wit by simp
  then show "marks id" "marks (\<lambda>s. s)" unfolding marks_def by (metis id_apply)+
qed

lemma marks_comp: "marks f \<Longrightarrow> marks g \<Longrightarrow> marks (\<lambda>s. g (f s))"
  unfolding marks_def by (metis wit.select_convs(1) wit.surjective wit.update_convs(1))

lemma marks_fold: "(\<And>e. marks (f e)) \<Longrightarrow> marks (fold f es)"
  by (induction es) (auto simp: marks_id comp_def intro: marks_comp)

lemma marks_dep: "(\<And>s. marks (f (h s))) \<Longrightarrow> marks (\<lambda>s. f (h s) s)"
  unfolding marks_def by blast

lemma marks_loco: "marks (set_loco a i (\<lambda>l. l\<lparr>broadcastPending := True\<rparr>))"
proof -
  have "unmarked (t\<lparr>myLocos := (myLocos t)[i := (myLocos t ! i)\<lparr>broadcastPending := True\<rparr>]\<rparr>) = unmarked t" for t
    by (cases "i < length (myLocos t)") (simp_all add: unmarked_def map_update list_update_same_conv list_update_beyond)
  then show ?thesis unfolding marks_def set_loco_def set_client_def by - (intro allI exI conjI, rule refl, auto)
qed

lemma marks_loop: "(\<And>i. marks (body i)) \<Longrightarrow> marks (looplocos a thr cab body)"
  unfolding looplocos_def
proof (rule marks_fold)
  fix i
  assume "\<And>i. marks (body i)"
  then have "marks (if b then body i else (\<lambda>s. s))" for b by (simp add: marks_id)
  from marks_dep [of "\<lambda>b. if b then body i else (\<lambda>s. s)" "\<lambda>s. matches thr cab (my_loco a i s)", OF this]
  show "marks (\<lambda>s. if matches thr cab (my_loco a i s) then body i s else s)" by (simp add: if_distrib [of "\<lambda>f. f _"] cong: if_cong)
qed

lemma marks_broadcast: "marks (markForBroadcast cab)"
  unfolding markForBroadcast_def
  by (rule marks_dep [where f = "\<lambda>as. fold (markForBroadcast2 cab) as" and h = clients])
    (simp add: marks_fold markForBroadcast2_def marks_loop marks_loco)

lemma marks_events: "marks (fold (mark_event d) es)"
proof (rule marks_fold)
  show "marks (mark_event d e)" for e by (cases e) (simp_all add: marks_broadcast marks_id)
qed

lemma call_wit:
  "\<exists>g. wit_call prg w f s = s\<lparr>rest_of := call prg w f (rest_of s), objects := g\<rparr> \<and> (\<forall>a. unmarked (g a) = unmarked (objects s a))"
proof -
  let ?x = "call prg w f (rest_of s)"
  let ?s = "s\<lparr>rest_of := ?x\<rparr>"
  let ?es = "drop (length (devents (dcc_now s))) (devents (dcc_of ?x))"
  obtain g where g: "fold (mark_event (dcc_of ?x)) ?es ?s = ?s\<lparr>objects := g\<rparr>" "\<forall>a. unmarked (g a) = unmarked (objects ?s a)"
    using marks_events [of "dcc_of ?x" ?es] unfolding marks_def by blast
  have "wit_call prg w f s = ?s\<lparr>objects := g\<rparr>" unfolding wit_call_def Let_def using g(1) .
  with g(2) show ?thesis by auto
qed

lemma wit_dcc_now: "dcc_now (wit_dcc prg w f s) = f (dcc_now s)"
proof -
  obtain g where "wit_dcc prg w f s = s\<lparr>rest_of := call prg w (on_station (on_dcc f)) (rest_of s), objects := g\<rparr>"
    unfolding wit_dcc_def using call_wit by blast
  then show ?thesis by (simp add: dcc_of_def call_yard on_station_def on_dcc_def)
qed

section \<open>Well-formed clients\<close>

definition loco_ok :: "MYLOCO \<Rightarrow> bool" where
  "loco_ok l \<longleftrightarrow> (throttle_char l \<noteq> CHR 0x00 \<longrightarrow> my_cab l \<noteq> 0 \<and> -1 \<le> my_cab l \<and> my_cab l \<le> 10239)"

definition client_ok :: "WiThrottle \<Rightarrow> bool" where
  "client_ok t \<longleftrightarrow> length (myLocos t) = MAX_MY_LOCO \<and> list_all loco_ok (myLocos t)"

definition wit_inv :: "wit \<Rightarrow> bool" where
  "wit_inv s \<longleftrightarrow> distinct (clients s) \<and> distinct (map (\<lambda>a. clientid (objects s a)) (clients s)) \<and>
     (\<forall>a \<in> set (clients s). a < next_object s \<and> client_ok (objects s a))"

text \<open>A state that is well formed and has these clients.\<close>

definition wit_ok :: "addr list \<Rightarrow> wit \<Rightarrow> bool" where
  "wit_ok as s \<longleftrightarrow> wit_inv s \<and> clients s = as"

lemma unmarked_ok:
  assumes "unmarked t = unmarked u"
  shows "client_ok t = client_ok u" "clientid t = clientid u"
proof -
  have "client_ok t = client_ok (unmarked t)" for t
    by (simp add: client_ok_def unmarked_def list_all_iff loco_ok_def)
  then show "client_ok t = client_ok u" using assms by metis
  have "clientid t = clientid (unmarked t)" for t by (simp add: unmarked_def)
  then show "clientid t = clientid u" using assms by metis
qed

lemma ok_call [simp]: "wit_ok as s \<Longrightarrow> wit_ok as (wit_call prg w f s)"
proof -
  obtain g where g: "wit_call prg w f s = s\<lparr>rest_of := call prg w f (rest_of s), objects := g\<rparr>" "\<And>a. unmarked (g a) = unmarked (objects s a)"
    using call_wit [of prg w f s] by blast
  assume "wit_ok as s"
  then show ?thesis by (auto simp: g(1) wit_ok_def wit_inv_def unmarked_ok [OF g(2)])
qed

lemma ok_same [simp]:
  "wit_ok as (send_to c m s) = wit_ok as s" "wit_ok as (wit_out e s) = wit_ok as s" "wit_ok as (s\<lparr>rest_of := x\<rparr>) = wit_ok as s"
  "wit_ok as (s\<lparr>freed := b\<rparr>) = wit_ok as s" "wit_ok as (s\<lparr>stashClient := n, stashThrottleChar := ch, stashInstance := p\<rparr>) = wit_ok as s"
  by (simp_all add: send_to_def wit_out_def wit_ok_def wit_inv_def)

lemma ok_calls [simp]:
  "wit_ok as s \<Longrightarrow> wit_ok as (wit_dcc prg w f s)" "wit_ok as s \<Longrightarrow> wit_ok as (wit_board prg w g s)"
  "wit_ok as s \<Longrightarrow> wit_ok as (wit_throttle prg w k v dir s)"
  by (simp_all add: wit_dcc_def wit_board_def wit_throttle_def)

lemma ok_client:
  "wit_ok as s \<Longrightarrow> (\<And>t. clientid (f t) = clientid t) \<Longrightarrow> (\<And>t. client_ok t \<Longrightarrow> client_ok (f t)) \<Longrightarrow> wit_ok as (set_client a f s)"
  by (auto simp: wit_ok_def wit_inv_def set_client_def cong: map_cong) (smt (verit, ccfv_threshold) map_eq_conv)+

lemma ok_members [simp]:
  assumes "wit_ok as s"
  shows "wit_ok as (set_client a (\<lambda>t. t\<lparr>mostRecentCab := u\<rparr>) s)" "wit_ok as (set_client a (\<lambda>t. t\<lparr>heartBeat := k\<rparr>) s)"
    "wit_ok as (set_client a (\<lambda>t. t\<lparr>heartBeatEnable := b\<rparr>) s)" "wit_ok as (set_client a (\<lambda>t. t\<lparr>introSent := b\<rparr>) s)"
    "wit_ok as (set_client a (\<lambda>t. t\<lparr>turnoutsSent := b\<rparr>) s)" "wit_ok as (set_client a (\<lambda>t. t\<lparr>rosterSent := b\<rparr>) s)"
    "wit_ok as (set_client a (\<lambda>t. t\<lparr>routesSent := b\<rparr>) s)" "wit_ok as (set_client a (\<lambda>t. t\<lparr>heartrateSent := b\<rparr>) s)"
  by (rule ok_client [OF assms]; simp add: client_ok_def)+

lemma ok_loco: "wit_ok as s \<Longrightarrow> (\<And>l. loco_ok l \<Longrightarrow> loco_ok (f l)) \<Longrightarrow> wit_ok as (set_loco a i f s)"
  unfolding set_loco_def
proof (rule ok_client)
  fix t
  assume f: "\<And>l. loco_ok l \<Longrightarrow> loco_ok (f l)" and t: "client_ok t"
  then show "client_ok (t\<lparr>myLocos := (myLocos t)[i := f (myLocos t ! i)]\<rparr>)"
    by (cases "i < length (myLocos t)") (auto simp: client_ok_def list_all_length nth_list_update list_update_beyond)
qed simp_all

lemma ok_loop: "(\<And>i s. wit_ok as s \<Longrightarrow> wit_ok as (body i s)) \<Longrightarrow> wit_ok as s \<Longrightarrow> wit_ok as (looplocos a thr cab body s)"
proof -
  assume b: "\<And>i s. wit_ok as s \<Longrightarrow> wit_ok as (body i s)"
  have "wit_ok as (fold (\<lambda>i s. if matches thr cab (my_loco a i s) then body i s else s) is s)" if "wit_ok as s" for "is" s
    using that b by (induction "is" arbitrary: s) auto
  then show "wit_ok as s \<Longrightarrow> wit_ok as (looplocos a thr cab body s)" by (simp add: looplocos_def)
qed

lemma ok_pending [simp]:
  "wit_ok as s \<Longrightarrow> wit_ok as (set_loco a i (\<lambda>l. l\<lparr>broadcastPending := b\<rparr>) s)"
  "wit_ok as s \<Longrightarrow> wit_ok as (set_loco a i (\<lambda>l. l\<lparr>functionToggles := u\<rparr>) s)"
  "wit_ok as s \<Longrightarrow> wit_ok as (set_loco a i (\<lambda>l. l\<lparr>throttle_char := CHR 0x00\<rparr>) s)"
  "wit_ok as s \<Longrightarrow> wit_ok as (set_loco a i (\<lambda>l. l\<lparr>broadcastPending := b, functionMap_sent := u\<rparr>) s)"
  "wit_ok as s \<Longrightarrow> k \<noteq> 0 \<Longrightarrow> -1 \<le> k \<Longrightarrow> k \<le> 10239 \<Longrightarrow>
    wit_ok as (set_loco a i (\<lambda>l. l\<lparr>throttle_char := thr, my_cab := k, functionMap_sent := u, broadcastPending := b\<rparr>) s)"
  by (rule ok_loco; simp add: loco_ok_def)+

lemma ok_action [simp]: "wit_ok as s \<Longrightarrow> wit_ok as (locoAction prg w c a aval thr cab s)"
  unfolding locoAction_def Let_def by (simp add: ok_loop)

lemma ok_fold: "(\<And>e s. wit_ok as s \<Longrightarrow> wit_ok as (f e s)) \<Longrightarrow> wit_ok as s \<Longrightarrow> wit_ok as (fold f es s)"
  by (induction es arbitrary: s) simp_all

lemma ok_functions [simp]: "wit_ok as s \<Longrightarrow> wit_ok as (sendFunctions roster c a i s)"
  unfolding sendFunctions_def Let_def by (auto intro!: ok_fold simp: case_prod_beta split: option.splits)

lemma ok_add [simp]: "wit_ok as s \<Longrightarrow> -1 \<le> locoid \<Longrightarrow> locoid \<le> 10239 \<Longrightarrow> wit_ok as (add_loco prg w roster c a thr lors locoid s)"
  unfolding add_loco_def Let_def by (simp split: option.split)

lemma ok_main [simp]: "wit_ok as s \<Longrightarrow> wit_ok as (multithrottle_main prg w roster c a buf s)"
  unfolding multithrottle_main_def Let_def by (simp add: ok_loop not_less)

lemma ok_callback [simp]: "wit_ok as s \<Longrightarrow> wit_ok as (getLocoCallback prg w roster cv s)"
  unfolding getLocoCallback_def Let_def by (simp split: option.split)

lemma ok_prog [simp]: "wit_ok as s \<Longrightarrow> wit_ok as (wit_prog prg w roster f s)"
  unfolding wit_prog_def Let_def by (rule ok_fold) (simp_all split: prod.split)

lemma ok_multithrottle [simp]: "wit_ok as s \<Longrightarrow> wit_ok as (multithrottle prg w roster c a buf s)"
  unfolding multithrottle_def by simp

lemma ok_sends [simp]:
  "wit_ok as s \<Longrightarrow> wit_ok as (sendIntro c a s)" "wit_ok as s \<Longrightarrow> wit_ok as (send_metadata c a s)"
  "wit_ok as s \<Longrightarrow> wit_ok as (accessory_toggle prg w c buf s)" "wit_ok as s \<Longrightarrow> wit_ok as (send_loco a i s)"
proof -
  assume s: "wit_ok as s"
  then show "wit_ok as (sendIntro c a s)" "wit_ok as (send_metadata c a s)" "wit_ok as (accessory_toggle prg w c buf s)"
    by (simp_all add: sendIntro_def send_metadata_def accessory_toggle_def Let_def)
  from s show "wit_ok as (send_loco a i s)"
    unfolding send_loco_def Let_def by (auto intro!: ok_fold)
qed

lemma wit_ok_self: "wit_inv s \<Longrightarrow> wit_ok (clients s) s"
  by (simp add: wit_ok_def)

lemma delete_inv: "wit_ok as s \<Longrightarrow> wit_ok (remove1 a as) (delete_client a s)"
  by (auto simp: wit_ok_def wit_inv_def delete_client_def distinct_map inj_on_def dest: notin_set_remove1)

lemma ok_command: "wit_ok as s \<Longrightarrow> \<exists>bs. wit_ok bs (wit_command prg w roster c a buf s)"
proof -
  assume s: "wit_ok as s"
  have "wit_ok (remove1 a as) (quit_client c a s)"
    unfolding quit_client_def Let_def by (rule delete_inv [OF ok_loop]) (use s in simp_all)
  moreover have "wit_ok as (wit_command prg w roster c a buf s)" if "rd buf 0 \<noteq> CHR ''Q''"
    using s that unfolding wit_command_def Let_def by simp
  moreover have "wit_command prg w roster c a buf s = quit_client c a s" if "rd buf 0 = CHR ''Q''"
    using that unfolding wit_command_def Let_def by simp
  ultimately show ?thesis by metis
qed

lemma lines_inv: "wit_inv s \<Longrightarrow> wit_inv (parse_lines prg w roster c a buf s)"
proof (induction prg w roster c a buf s rule: parse_lines.induct)
  case (1 prg w roster c a buf s)
  have "wit_inv (wit_command prg w roster c a buf s)" using ok_command [OF wit_ok_self [OF "1.prems"]] by (auto simp: wit_ok_def)
  moreover have "wit_inv (s\<lparr>freed := True\<rparr>)" using "1.prems" by (simp add: wit_inv_def)
  ultimately show ?case using "1.IH" "1.prems" by (subst parse_lines.simps) simp
qed

lemma wit_parse_inv: "wit_inv s \<Longrightarrow> wit_inv (wit_parse prg w roster c a buf s)"
  unfolding wit_parse_def using wit_ok_self [of s] by (intro lines_inv) (simp add: wit_ok_def [of "clients s", THEN iffD1, THEN conjunct1])

lemma getThrottle_inv:
  assumes "wit_inv s"
  shows "wit_inv (snd (getThrottle g c s))" "fst (getThrottle g c s) \<in> set (clients (snd (getThrottle g c s)))"
    "clientid (objects (snd (getThrottle g c s)) (fst (getThrottle g c s))) = c"
proof -
  have "client_ok (new_client g c)" by (simp add: client_ok_def new_client_def list_all_iff loco_ok_def)
  moreover have "clientid (new_client g c) = c" by (simp add: new_client_def)
  moreover have "a \<noteq> next_object s" if "a \<in> set (clients s)" for a using assms that by (auto simp: wit_inv_def)
  ultimately show "wit_inv (snd (getThrottle g c s))" "fst (getThrottle g c s) \<in> set (clients (snd (getThrottle g c s)))"
    "clientid (objects (snd (getThrottle g c s)) (fst (getThrottle g c s))) = c"
    using assms by (auto simp: getThrottle_def wit_inv_def Let_def find_None_iff find_Some_iff split: option.splits cong: map_cong)
qed

lemma heartbeat_ok:
  assumes "wit_ok as s"
  shows "wit_ok (if timed_out w a s then remove1 a as else as) (checkHeartbeat prg w a s)"
  unfolding checkHeartbeat_def Let_def using delete_inv [OF ok_loop [OF _ assms]] ok_loop [OF _ assms] by simp

lemma loop_wit_inv: "wit_inv s \<Longrightarrow> wit_inv (loop_clients prg w as s)"
proof (induction as arbitrary: s)
  case (Cons a as)
  have i: "wit_inv (checkHeartbeat prg w a s)" using heartbeat_ok [OF wit_ok_self [OF Cons.prems]] by (simp add: wit_ok_def)
  then have "wit_inv ((checkHeartbeat prg w a s)\<lparr>freed := True\<rparr>)" by (simp add: wit_inv_def)
  then show ?case using Cons.IH [OF i] by (simp add: Let_def)
qed simp

lemma mark_inv: "wit_inv s \<Longrightarrow> wit_inv (markForBroadcast cab s)"
proof -
  obtain g where g: "markForBroadcast cab s = s\<lparr>objects := g\<rparr>" "\<And>a. unmarked (g a) = unmarked (objects s a)"
    using marks_broadcast unfolding marks_def by metis
  assume "wit_inv s"
  then show ?thesis by (simp add: g(1) wit_inv_def unmarked_ok [OF g(2)])
qed

text \<open>
  The states that texts from clients, the loop, disconnections, the programming track and the rest of the
  station can bring about, up to the first use of a deleted client.
\<close>

inductive wit_reach :: "wit \<Rightarrow> bool" where
  none: "clients s = [] \<Longrightarrow> \<not> freed s \<Longrightarrow> wit_reach s"
| received: "wit_reach s \<Longrightarrow> \<not> freed s \<Longrightarrow> wit_reach (receive g prg w roster c buf s)"
| turn: "wit_reach s \<Longrightarrow> \<not> freed s \<Longrightarrow> wit_reach (wit_loop prg w s)"
| gone: "wit_reach s \<Longrightarrow> \<not> freed s \<Longrightarrow> wit_reach (forget_client c s)"
| programmed: "wit_reach s \<Longrightarrow> \<not> freed s \<Longrightarrow> wit_reach (wit_prog prg w roster f s)"
| broadcast: "wit_reach s \<Longrightarrow> \<not> freed s \<Longrightarrow> wit_reach (markForBroadcast cab s)"
| station: "wit_reach s \<Longrightarrow> \<not> freed s \<Longrightarrow> wit_reach (s\<lparr>rest_of := x\<rparr>)"

lemma wit_reach_inv: "wit_reach s \<Longrightarrow> wit_inv s"
proof (induction rule: wit_reach.induct)
  case (received s g prg w roster c buf)
  then show ?case using wit_parse_inv [OF getThrottle_inv(1)] by (simp add: receive_def case_prod_beta)
next
  case (gone s c)
  then show ?case using delete_inv [OF wit_ok_self] by (auto simp: forget_client_def wit_ok_def split: option.split)
next
  case (programmed s prg w roster f)
  then show ?case using ok_prog [OF wit_ok_self] by (simp add: wit_ok_def)
qed (simp_all add: wit_inv_def [of "_\<lparr>rest_of := _\<rparr>"] wit_loop_def loop_wit_inv mark_inv, simp_all add: wit_inv_def)

text \<open>
  C12: the clients stay well formed. Whatever texts they send, each client has room for ten locos, no two clients have
  the same number, no object is in the list twice, and a loco that a client holds has an address from 1 to 10239, or -1.
\<close>

theorem withrottle_wf:
  assumes "wit_reach s" "a \<in> set (clients s)"
  shows "length (myLocos (objects s a)) = MAX_MY_LOCO \<and> distinct (clients s) \<and>
    (\<forall>b \<in> set (clients s). clientid (objects s b) = clientid (objects s a) \<longrightarrow> b = a) \<and>
    (\<forall>l \<in> set (myLocos (objects s a)). throttle_char l \<noteq> CHR 0x00 \<longrightarrow> my_cab l = -1 \<or> 1 \<le> my_cab l \<and> my_cab l \<le> 10239)"
proof -
  have i: "wit_inv s" by (rule wit_reach_inv [OF assms(1)])
  then have "client_ok (objects s a)" using assms(2) by (simp add: wit_inv_def)
  moreover have "b = a" if "b \<in> set (clients s)" "clientid (objects s b) = clientid (objects s a)" for b
    using i that assms(2) by (auto simp: wit_inv_def distinct_map inj_on_def)
  ultimately show ?thesis using i by (auto simp: client_ok_def list_all_iff loco_ok_def wit_inv_def)
qed

section \<open>Silent clients\<close>

text \<open>Through every call a loco that follows no other goes on doing so.\<close>

lemma at_slot_chain: "at_slot l a d \<Longrightarrow> a \<in> set (chain (dslots d))"
  using get_slot_Some(2) [of d "uint l" False a d] by (simp add: at_slot_def get_slot_search)

lemma get_slot_same: "at_slot l a d \<Longrightarrow> slot (snd (get_slot cab c d)) a = slot d a"
proof (cases "get_slot cab c d")
  case (Pair p e)
  assume a: "at_slot l a d"
  show ?thesis
  proof (cases p)
    case None
    then have "e = d" using Pair by (auto simp: get_slot_def LocoSlots.getSlot_def split: prod.splits if_splits option.splits)
    then show ?thesis using Pair by simp
  next
    case (Some b)
    then show ?thesis using get_slot_Some(5) [of d cab c b e a] Pair a at_slot_chain [OF a] by (simp add: at_slot_def)
  qed
qed

definition leads :: "u16 \<Rightarrow> addr \<Rightarrow> dcc \<Rightarrow> bool" where
  "leads l a d \<longleftrightarrow> at_slot l a d \<and> \<not> isConsistFollower (slot d a)"

interpretation nf: call_invariant "leads l a" for l a
proof (unfold_locales, goal_cases)
  case (1 f s b)
  then have "isConsistFollower (slot (put b f s) a) = isConsistFollower (slot s a)"
    by (cases "a = b") (simp_all add: put_def in_slots_def slot_def set_slot_def isConsistFollower_def keeps_consist_def)
  with 1 sl.put_kept show ?case by (simp add: leads_def)
next
  case (3 s cab c)
  then show ?case using sl.get_kept get_slot_same [of l a s cab c] by (simp add: leads_def)
qed (use sl.log_kept sl.throttle_kept sl.packet_kept sl.function_kept sl.pulse_kept sl.momentum_kept in
    \<open>simp_all add: leads_def log_event_def in_queues_def slot_def\<close>)

text \<open>A loco that was told to stop stays so when others are told to stop.\<close>

definition at_stop :: "u16 \<Rightarrow> addr \<Rightarrow> dcc \<Rightarrow> bool" where
  "at_stop l a d \<longleftrightarrow> at_slot l a d \<and> targetSpeed (slot d a) AND 0x7F = 1"

lemma set_target_stop:
  assumes "sc AND 0x7F = 1" "targetSpeed (slot d b) AND 0x7F = 1"
  shows "targetSpeed (slot (set_target now cab sp sc a d) b) AND 0x7F = 1"
proof -
  have x: "(sc XOR 0x80) AND 0x7F = 1" using assms(1) by (simp add: bit.conj_xor_distrib2)
  have "targetSpeed (slot (fold (copy_target sc) as e) b) AND 0x7F = 1" if "targetSpeed (slot e b) AND 0x7F = 1" for as e
    using that by (induction as arbitrary: e) (auto simp: copy_target_def x assms(1))
  moreover have "targetSpeed (slot (put a (\<lambda>x. x\<lparr>targetSpeed := sc\<rparr>) d) b) AND 0x7F = 1" using assms by simp
  ultimately have "targetSpeed (slot (fold (copy_target sc) as (put a (\<lambda>x. x\<lparr>targetSpeed := sc\<rparr>) d)) b) AND 0x7F = 1" for as by blast
  then show ?thesis unfolding set_target_def Let_def by (auto simp: setThrottle2_target)
qed

lemma stop_code: "((1 :: byte) AND 0x7F) + (if dir then 128 else 0) = (if dir then 129 else 1)"
  by simp

lemma at_stop_kept:
  assumes "at_stop l a d" "cab \<noteq> 0"
  shows "at_stop l a (snd (setThrottle now cab 1 dir d))"
proof -
  have s: "at_slot l a (snd (setThrottle now cab 1 dir d))" using sl.setThrottle_kept assms(1) by (simp add: at_stop_def)
  obtain p e where g: "get_slot (uint cab) True d = (p, e)" by (cases "get_slot (uint cab) True d")
  have e: "targetSpeed (slot e a) AND 0x7F = 1" using get_slot_same [of l a d "uint cab" True] g assms(1) by (simp add: at_stop_def)
  define sc where "sc = (if dir then 129 else 1 :: byte)"
  have sc: "sc AND 0x7F = 1" by (simp add: sc_def)
  have "targetSpeed (slot (snd (setThrottle now cab 1 dir d)) a) AND 0x7F = 1"
    using assms(2) e set_target_stop [OF sc e] unfolding setThrottle_def Let_def stop_code g sc_def [symmetric] by (simp split: option.split)
  with s show ?thesis by (simp add: at_stop_def)
qed

lemma stop_reached:
  assumes "leads l a d" "l \<noteq> 0"
  shows "at_stop l a (snd (setThrottle now l 1 dir d))"
proof -
  have a: "at_slot l a d" "\<not> isConsistFollower (slot d a)" using assms(1) by (simp_all add: leads_def)
  have g: "get_slot (uint l) True d = (Some a, d)"
    using a(1) assms(2) by (simp add: at_slot_def get_slot_def getSlot_found)
  let ?sc = "if dir then 129 else 1 :: byte"
  have r: "setThrottle now l 1 dir d = (True, if targetSpeed (slot d a) = ?sc then d else set_target now l 1 ?sc a d)"
    using assms(2) a(2) unfolding setThrottle_def Let_def stop_code g by simp
  have "targetSpeed (slot (set_target now l 1 ?sc a d) a) = ?sc"
    by (rule set_target_target) (use a at_slot_chain [OF a(1)] in \<open>simp_all add: at_slot_def\<close>)
  then have "targetSpeed (slot (snd (setThrottle now l 1 dir d)) a) AND 0x7F = 1" by (simp add: r)
  then show ?thesis using sl.setThrottle_kept [OF a(1)] by (simp add: at_stop_def)
qed

text \<open>What the entries of a client are for: throttle and address.\<close>

definition entries :: "WiThrottle \<Rightarrow> (char \<times> int) list" where
  "entries t = map (\<lambda>l. (throttle_char l, my_cab l)) (myLocos t)"

lemma unmarked_entries: "unmarked t = unmarked u \<Longrightarrow> entries t = entries u"
proof -
  have "entries t = entries (unmarked t)" for t by (simp add: entries_def unmarked_def)
  then show "unmarked t = unmarked u \<Longrightarrow> entries t = entries u" by metis
qed

lemma entry: "entries (objects s a) = es \<Longrightarrow> i < length es \<Longrightarrow> throttle_char (my_loco a i s) = fst (es ! i) \<and> my_cab (my_loco a i s) = snd (es ! i)"
  by (auto simp: entries_def my_loco_def)

lemma call_entries: "entries (objects (wit_throttle prg w k v dir s) a) = entries (objects s a)"
proof -
  obtain g where g: "wit_throttle prg w k v dir s = s\<lparr>rest_of := call prg w (on_station (on_dcc (\<lambda>d. snd (setThrottle (millis w) (word_of_int k) (word_of_int v) dir d)))) (rest_of s), objects := g\<rparr>"
    "\<forall>a. unmarked (g a) = unmarked (objects s a)"
    unfolding wit_throttle_def wit_dcc_def using call_wit by blast
  then show ?thesis using unmarked_entries [of "g a" "objects s a"] by simp
qed

lemma throttle_now: "dcc_now (wit_throttle prg w k v dir s) = snd (setThrottle (millis w) (word_of_int k) (word_of_int v) dir (dcc_now s))"
  by (simp add: wit_throttle_def wit_dcc_now)

definition stop_entry :: "program \<Rightarrow> world \<Rightarrow> addr \<Rightarrow> nat \<Rightarrow> wit \<Rightarrow> wit" where
  "stop_entry prg w a i s =
    (let k = my_cab (my_loco a i s)
     in if throttle_char (my_loco a i s) \<noteq> CHR 0x00
        then set_client a (\<lambda>t. t\<lparr>heartBeat := millis w\<rparr>) (wit_throttle prg w k 1 (getThrottleDirection k (dcc_now s)) s)
        else s)"

lemma stop_entry_effect:
  assumes "entries (objects s a) = es" "i < length es"
  shows "entries (objects (stop_entry prg w a i s) a) = es"
    "\<exists>dir. dcc_now (stop_entry prg w a i s) =
       (if fst (es ! i) \<noteq> CHR 0x00 then snd (setThrottle (millis w) (word_of_int (snd (es ! i))) 1 dir (dcc_now s)) else dcc_now s)"
proof -
  note e = entry [OF assms]
  have h: "entries (t\<lparr>heartBeat := k\<rparr>) = entries t" for t k by (simp add: entries_def)
  show "entries (objects (stop_entry prg w a i s) a) = es"
    using assms(1) by (simp add: stop_entry_def Let_def set_client_def h call_entries)
  show "\<exists>dir. dcc_now (stop_entry prg w a i s) =
       (if fst (es ! i) \<noteq> CHR 0x00 then snd (setThrottle (millis w) (word_of_int (snd (es ! i))) 1 dir (dcc_now s)) else dcc_now s)"
    using e by (auto simp: stop_entry_def Let_def set_client_def throttle_now)
qed

lemma stops_fold:
  assumes "entries (objects s a) = es" "\<forall>i \<in> set is. i < length es" "leads l b (dcc_now s)"
    and "\<forall>(thr, k) \<in> set es. thr \<noteq> CHR 0x00 \<longrightarrow> (word_of_int k :: u16) \<noteq> 0"
    and "at_stop l b (dcc_now s) \<or> (\<exists>i \<in> set is. fst (es ! i) \<noteq> CHR 0x00 \<and> word_of_int (snd (es ! i)) = l)"
  shows "at_stop l b (dcc_now (fold (stop_entry prg w a) is s))"
  using assms(1,2,3,5)
proof (induction "is" arbitrary: s)
  case (Cons i "is")
  let ?s = "stop_entry prg w a i s"
  have i: "i < length es" using Cons.prems(2) by simp
  obtain dir where d: "dcc_now ?s = (if fst (es ! i) \<noteq> CHR 0x00 then snd (setThrottle (millis w) (word_of_int (snd (es ! i))) 1 dir (dcc_now s)) else dcc_now s)"
    using stop_entry_effect(2) [OF Cons.prems(1) i] by blast
  have n: "fst (es ! i) \<noteq> CHR 0x00 \<Longrightarrow> (word_of_int (snd (es ! i)) :: u16) \<noteq> 0" using assms(4) i by (force dest: nth_mem)
  have l: "leads l b (dcc_now ?s)" using Cons.prems(3) nf.setThrottle_kept by (simp add: d)
  have "at_stop l b (dcc_now ?s)" if "at_stop l b (dcc_now s)" using that n at_stop_kept by (simp add: d)
  moreover have "at_stop l b (dcc_now ?s)" if "fst (es ! i) \<noteq> CHR 0x00" "word_of_int (snd (es ! i)) = l"
    using that n stop_reached [OF Cons.prems(3)] by (simp add: d)
  ultimately have "at_stop l b (dcc_now ?s) \<or> (\<exists>i \<in> set is. fst (es ! i) \<noteq> CHR 0x00 \<and> word_of_int (snd (es ! i)) = l)"
    using Cons.prems(4) by auto
  then show ?case using Cons.IH [OF stop_entry_effect(1) [OF Cons.prems(1) i] _ l] Cons.prems(2) by simp
qed simp

lemma all_match: "looplocos a (CHR ''*'') (-1) body s = fold body [0..<MAX_MY_LOCO] s"
  by (simp add: looplocos_def matches_def)

text \<open>
  C9: a silent client's locos stop. If a client that asked for the heartbeat has not been heard for more than 20 seconds, its check
  drops it, and each loco it holds that follows no other in a consist is told an emergency stop, also when the client holds
  several locos that lead or follow one another.
\<close>

theorem heartbeat_stops:
  assumes "wit_reach s" "a \<in> set (clients s)" "timed_out w a s" "dcc_inv (dcc_now s)"
    and "i < MAX_MY_LOCO" "throttle_char (my_loco a i s) \<noteq> CHR 0x00"
    and "find_slot (word_of_int (my_cab (my_loco a i s))) (dslots (dcc_now s)) = Some b" "\<not> isConsistFollower (slot (dcc_now s) b)"
  shows "a \<notin> set (clients (checkHeartbeat prg w a s)) \<and>
    getThrottleSpeed (my_cab (my_loco a i s)) (dcc_now (checkHeartbeat prg w a s)) = 1"
proof -
  let ?k = "my_cab (my_loco a i s)" and ?es = "entries (objects s a)"
  let ?f = "fold (stop_entry prg w a) [0..<MAX_MY_LOCO] s"
  have inv: "wit_inv s" by (rule wit_reach_inv [OF assms(1)])
  then have c: "client_ok (objects s a)" using assms(2) by (simp add: wit_inv_def)
  have h: "checkHeartbeat prg w a s = delete_client a ?f"
    using assms(3) unfolding checkHeartbeat_def stop_entry_def [abs_def] Let_def by (simp only: all_match if_True)
  have len: "length ?es = MAX_MY_LOCO" using c by (simp add: entries_def client_ok_def)
  have es: "?es ! i = (throttle_char (my_loco a i s), ?k)" using len assms(5) by (simp add: entries_def my_loco_def)
  have nz: "(word_of_int k :: u16) \<noteq> 0" if "loco_ok x" "throttle_char x \<noteq> CHR 0x00" "my_cab x = k" for x k
  proof -
    have "k \<noteq> 0" "-1 \<le> k" "k \<le> 10239" using that by (auto simp: loco_ok_def)
    then have "k mod 65536 \<noteq> 0" by (cases "k = -1") simp_all
    then show ?thesis by (simp add: word_uint_eq_iff uint_word_of_int)
  qed
  have "at_stop (word_of_int ?k) b (dcc_now ?f)"
  proof (rule stops_fold [OF refl])
    show "leads (word_of_int ?k) b (dcc_now s)" using assms(4,7,8) by (simp add: leads_def at_slot_def)
    show "\<forall>(thr, k) \<in> set ?es. thr \<noteq> CHR 0x00 \<longrightarrow> (word_of_int k :: u16) \<noteq> 0"
      using c nz by (auto simp: entries_def client_ok_def list_all_iff)
    show "\<forall>i \<in> set [0..<MAX_MY_LOCO]. i < length ?es" by (simp only: len) simp
    have "i \<in> set [0..<MAX_MY_LOCO]" "fst (?es ! i) \<noteq> CHR 0x00 \<and> word_of_int (snd (?es ! i)) = (word_of_int ?k :: u16)"
      using assms(5,6) es by simp_all
    then show "at_stop (word_of_int ?k) b (dcc_now s) \<or>
        (\<exists>i \<in> set [0..<MAX_MY_LOCO]. fst (?es ! i) \<noteq> CHR 0x00 \<and> word_of_int (snd (?es ! i)) = (word_of_int ?k :: u16))" by blast
  qed
  then have "getThrottleSpeed ?k (dcc_now ?f) = 1"
    by (auto simp: at_stop_def at_slot_def getThrottleSpeed_def getThrottleSpeedByte_def get_slot_search)
  moreover have "wit_ok (remove1 a (clients s)) (checkHeartbeat prg w a s)"
    using heartbeat_ok [OF wit_ok_self [OF inv], of w a prg] assms(3) by simp
  ultimately show ?thesis using inv by (auto simp: h delete_client_def wit_ok_def wit_inv_def)
qed

section \<open>Changes told to the clients\<close>

lemma fn_changes_set: "(q, on) \<in> set (fn_changes n d m) \<longleftrightarrow> (\<exists>j. q = n + j \<and> on = bit d j \<and> bit d j \<noteq> bit m j)"
proof (induction n d m rule: fn_changes.induct)
  case (1 n d m)
  show ?case
  proof (cases "d = m")
    case False
    have b: "d AND 1 \<noteq> m AND 1 \<longleftrightarrow> bit d 0 \<noteq> bit m 0" "d AND 1 \<noteq> 0 \<longleftrightarrow> bit d 0"
      by (simp_all add: and_one_eq bit_0 mod2_eq_if)
    have x: "(\<exists>j. P j) \<longleftrightarrow> P 0 \<or> (\<exists>j. P (Suc j))" for P :: "nat \<Rightarrow> bool" by (metis not0_implies_Suc)
    show ?thesis using "1.IH" [OF False] False
      by (subst fn_changes.simps, subst x) (auto simp: b bit_drop_bit_eq)
  qed (simp add: fn_changes.simps)
qed

text \<open>The messages about one loco.\<close>

definition loco_msgs :: "int \<Rightarrow> dcc \<Rightarrow> MYLOCO \<Rightarrow> (int \<times> wit_msg) list" where
  "loco_msgs c d l =
    (let k = my_cab l; thr = throttle_char l
     in if thr \<noteq> CHR 0x00 \<and> broadcastPending l then
          (c, SpeedIs thr k (DCCToWiTSpeed (getThrottleSpeed k d))) # (c, DirectionIs thr k (getThrottleDirection k d)) #
            map (\<lambda>(n, on). (c, FunctionIs thr k on n)) (fn_changes 0 (getFunctionMap k d) (functionMap_sent l))
        else [])"

definition told :: "dcc \<Rightarrow> MYLOCO \<Rightarrow> MYLOCO" where
  "told d l = (if throttle_char l \<noteq> CHR 0x00 \<and> broadcastPending l
     then l\<lparr>broadcastPending := False, functionMap_sent := getFunctionMap (my_cab l) d\<rparr> else l)"

lemma fold_send: "fold (\<lambda>(n, on). send_to c (FunctionIs thr k on n)) es s = s\<lparr>sent := sent s @ map (\<lambda>(n, on). (c, FunctionIs thr k on n)) es\<rparr>"
  by (induction es arbitrary: s) (auto simp: send_to_def)

lemma send_loco_effect:
  assumes "length (myLocos (objects s a)) = MAX_MY_LOCO" "i < MAX_MY_LOCO"
  defines "s' \<equiv> send_loco a i s"
  shows "sent s' = sent s @ loco_msgs (clientid (objects s a)) (dcc_now s) (my_loco a i s)" "rest_of s' = rest_of s"
    "length (myLocos (objects s' a)) = MAX_MY_LOCO" "clientid (objects s' a) = clientid (objects s a)"
    "my_loco a j s' = (if j = i then told (dcc_now s) (my_loco a i s) else my_loco a j s)"
  using assms(1,2) unfolding s'_def
  by (simp_all add: send_loco_def Let_def fold_send loco_msgs_def told_def send_to_def set_loco_def set_client_def my_loco_def nth_list_update)

lemma send_all:
  assumes "length (myLocos (objects s a)) = MAX_MY_LOCO" "n \<le> MAX_MY_LOCO"
  defines "s' \<equiv> fold (send_loco a) [0..<n] s"
  shows "sent s' = sent s @ concat (map (\<lambda>i. loco_msgs (clientid (objects s a)) (dcc_now s) (my_loco a i s)) [0..<n]) \<and> rest_of s' = rest_of s \<and>
    length (myLocos (objects s' a)) = MAX_MY_LOCO \<and> clientid (objects s' a) = clientid (objects s a) \<and>
    (\<forall>j. my_loco a j s' = (if j < n then told (dcc_now s) (my_loco a j s) else my_loco a j s))"
  using assms(2) unfolding s'_def
proof (induction n)
  case (Suc n)
  let ?s = "fold (send_loco a) [0..<n] s"
  note IH = Suc.IH [OF Suc_leD [OF Suc.prems]]
  have n: "n < MAX_MY_LOCO" using Suc.prems by simp
  note e = send_loco_effect [of ?s a n] IH n
  show ?case by (simp add: e less_Suc_eq)
qed (simp add: assms(1))

text \<open>What a client knows of the functions of a loco after a message.\<close>

fun heard :: "int \<Rightarrow> char \<Rightarrow> int \<Rightarrow> int \<times> wit_msg \<Rightarrow> (nat \<Rightarrow> bool) \<Rightarrow> nat \<Rightarrow> bool" where
  "heard c thr k (c', FunctionIs thr' k' on n) v = (if c' = c \<and> thr' = thr \<and> k' = k then v(n := on) else v)"
| "heard c thr k _ v = v"

lemma replay:
  assumes "\<forall>n on. (c, FunctionIs thr k on n) \<in> set ms \<longrightarrow> on = D n" "\<forall>n. v n \<noteq> D n \<longrightarrow> (\<exists>on. (c, FunctionIs thr k on n) \<in> set ms)"
  shows "fold (heard c thr k) ms v = D"
  using assms
proof (induction ms arbitrary: v)
  case (Cons m ms)
  obtain c' x where m: "m = (c', x)" by (cases m)
  show ?case
  proof (cases "\<exists>on n. m = (c, FunctionIs thr k on n)")
    case True
    then obtain on n where mm: "m = (c, FunctionIs thr k on n)" by blast
    have "on = D n" using Cons.prems(1) mm by simp
    then have "fold (heard c thr k) ms (v(n := on)) = D" using Cons.prems mm by (intro Cons.IH) auto
    then show ?thesis using mm by simp
  next
    case False
    then have "heard c thr k m v = v" unfolding m by (cases x) auto
    moreover have "fold (heard c thr k) ms v = D"
    proof (rule Cons.IH)
      show "\<forall>n on. (c, FunctionIs thr k on n) \<in> set ms \<longrightarrow> on = D n" using Cons.prems(1) by simp
      show "\<forall>n. v n \<noteq> D n \<longrightarrow> (\<exists>on. (c, FunctionIs thr k on n) \<in> set ms)" using Cons.prems(2) False by (metis set_ConsD)
    qed
    ultimately show ?thesis by simp
  qed
qed auto

text \<open>
  C10: clients learn of every change. When a check finds a loco of a client marked, whoever changed it, the client is told its
  speed and exactly the functions that differ from what it was told before: applied to what the client knew,
  the messages give the functions the station has, even if the client holds the loco more than once; and the loco is no longer marked.
\<close>

theorem functions_in_sync:
  fixes prg w
  assumes "wit_reach s" "a \<in> set (clients s)" "\<not> timed_out w a s" "i < MAX_MY_LOCO"
  defines "l \<equiv> my_loco a i s" and "c \<equiv> clientid (objects s a)" and "s' \<equiv> checkHeartbeat prg w a s"
  assumes "throttle_char l \<noteq> CHR 0x00" "broadcastPending l"
  defines "new \<equiv> drop (length (sent s)) (sent s')" and "D \<equiv> getFunctionMap (my_cab l) (dcc_now s)"
  shows "fold (heard c (throttle_char l) (my_cab l)) new (bit (functionMap_sent l)) = bit D \<and>
    (c, SpeedIs (throttle_char l) (my_cab l) (DCCToWiTSpeed (getThrottleSpeed (my_cab l) (dcc_now s)))) \<in> set new \<and>
    functionMap_sent (my_loco a i s') = D \<and> \<not> broadcastPending (my_loco a i s')"
proof -
  have len: "length (myLocos (objects s a)) = MAX_MY_LOCO"
    using wit_reach_inv [OF assms(1)] assms(2) by (simp add: wit_inv_def client_ok_def)
  have f: "s' = fold (send_loco a) [0..<MAX_MY_LOCO] s"
    using assms(3) unfolding s'_def checkHeartbeat_def by (simp only: all_match if_False)
  note e = send_all [OF len order.refl, folded f]
  have new: "new = concat (map (\<lambda>i. loco_msgs c (dcc_now s) (my_loco a i s)) [0..<MAX_MY_LOCO])" using e by (simp add: new_def c_def)
  have mine: "set (loco_msgs c (dcc_now s) l) \<subseteq> set new" using assms(4) by (force simp: new l_def)
  have "fold (heard c (throttle_char l) (my_cab l)) new (bit (functionMap_sent l)) = bit D"
  proof (rule replay)
    show "\<forall>n on. (c, FunctionIs (throttle_char l) (my_cab l) on n) \<in> set new \<longrightarrow> on = bit D n"
      by (auto simp: new loco_msgs_def Let_def fn_changes_set D_def split: if_splits)
    show "\<forall>n. bit (functionMap_sent l) n \<noteq> bit D n \<longrightarrow> (\<exists>on. (c, FunctionIs (throttle_char l) (my_cab l) on n) \<in> set new)"
    proof (intro allI impI)
      fix n
      assume "bit (functionMap_sent l) n \<noteq> bit D n"
      then have "(n, bit D n) \<in> set (fn_changes 0 D (functionMap_sent l))" by (auto simp: fn_changes_set)
      then have "(c, FunctionIs (throttle_char l) (my_cab l) (bit D n) n) \<in> set (loco_msgs c (dcc_now s) l)"
        using assms(8,9) by (force simp: loco_msgs_def Let_def D_def)
      then show "\<exists>on. (c, FunctionIs (throttle_char l) (my_cab l) on n) \<in> set new" using mine by blast
    qed
  qed
  moreover have "(c, SpeedIs (throttle_char l) (my_cab l) (DCCToWiTSpeed (getThrottleSpeed (my_cab l) (dcc_now s)))) \<in> set new"
    using mine assms(8,9) by (auto simp: loco_msgs_def Let_def)
  moreover have "my_loco a i s' = told (dcc_now s) l" using e assms(4) by (simp add: l_def)
  ultimately show ?thesis using assms(8,9) by (simp add: told_def D_def)
qed

section \<open>Texts that drive\<close>

lemma itoa_digits: "ch \<in> set (itoa n) \<Longrightarrow> 48 \<le> (of_char ch :: nat) \<and> (of_char ch :: nat) \<le> 57"
proof (induction n rule: itoa.induct)
  case (1 n)
  have "(of_char (char_of (48 + n mod 10)) :: nat) = 48 + n mod 10" by simp
  then show ?case using "1.IH" "1.prems" by (subst (asm) (1) itoa.simps) (auto split: if_splits)
qed

lemma itoa_chars: "ch \<in> set (itoa n) \<Longrightarrow> ch \<notin> {CHR 0x00, CHR 0x0A, CHR 0x0D, CHR '';'', CHR ''-''}"
  using itoa_digits [of ch n] by auto

lemma itoa_value: "digits_value (itoa n @ r) 0 = digits_value r (int n)"
proof (induction n arbitrary: r rule: itoa.induct)
  case (1 n)
  have c: "(of_char (char_of (48 + n mod 10)) :: nat) = 48 + n mod 10" by simp
  have n: "n mod 10 \<le> 9" using mod_less_divisor [of 10 n] by linarith
  have ci: "(of_char (char_of (48 + n mod 10)) :: int) = 48 + int (n mod 10)"
    using of_nat_of_char [of "char_of (48 + n mod 10)", where ?'a = int] c by simp
  have "digits_value (itoa n @ r) 0 = digits_value (char_of (48 + n mod 10) # r) (int (n div 10))"
    using "1.IH" by (subst itoa.simps) (cases "n < 10", simp_all)
  also have "\<dots> = digits_value r (int (n div 10) * 10 + int (n mod 10))" using c ci n by simp
  also have "int (n div 10) * 10 + int (n mod 10) = int (n div 10 * 10 + n mod 10)" by (simp only: of_nat_add of_nat_mult of_nat_numeral)
  finally show ?case by (simp only: div_mult_mod_eq)
qed

lemma itoa_nonempty: "itoa n \<noteq> []"
  by (subst itoa.simps) simp

lemma getInt_itoa:
  assumes "r = [] \<or> \<not> (48 \<le> (of_char (hd r) :: nat) \<and> (of_char (hd r) :: nat) \<le> 57)"
  shows "getInt (itoa n @ r) = int n"
proof -
  have "rd (itoa n @ r) 0 = hd (itoa n)" using itoa_nonempty [of n] by (simp add: rd_def nth_append hd_conv_nth)
  then have "rd (itoa n @ r) 0 \<noteq> CHR ''-''" using itoa_chars [of "hd (itoa n)" n] itoa_nonempty [of n] by auto
  moreover have "digits_value r (int n) = int n" using assms by (cases r) auto
  ultimately show ?thesis by (simp add: getInt_def itoa_value)
qed

text \<open>The text that asks throttle \<open>t\<close> to drive loco \<open>k\<close> with speed \<open>v\<close>.\<close>

definition drive_text :: "char \<Rightarrow> nat \<Rightarrow> nat \<Rightarrow> string" where
  "drive_text t k v = [CHR ''M'', t, CHR ''A'', LorS (int k)] @ itoa k @ ''<;>V'' @ itoa v"

lemma LorS_letters: "LorS k = CHR ''L'' \<or> LorS k = CHR ''S''"
  by (simp add: LorS_def)

lemma drive_command:
  assumes "t \<notin> {CHR 0x00, CHR 0x0A, CHR 0x0D, CHR '';''}" "k \<le> 10239"
  shows "wit_command prg w roster c a (drive_text t k v @ [CHR 0x0A]) s =
    locoAction prg w c a (CHR ''V'' # itoa v @ [CHR 0x0A]) t (int k) s"
proof -
  let ?b = "drive_text t k v @ [CHR 0x0A]"
  have d: "?b = [CHR ''M'', t, CHR ''A'', LorS (int k)] @ itoa k @ ''<;>V'' @ itoa v @ [CHR 0x0A]" by (simp add: drive_text_def)
  have r: "rd ?b 0 = CHR ''M''" "rd ?b 1 = t" "rd ?b 2 = CHR ''A''" by (simp_all add: d rd_def)
  have i: "wit_getLocoId (drop 3 ?b) = int k"
    using LorS_letters [of "int k"] getInt_itoa [of "''<;>V'' @ itoa v @ [CHR 0x0A]" k] by (auto simp: d wit_getLocoId_def rd_def)
  have "dropWhile (\<lambda>ch. ch \<noteq> CHR '';'' \<and> ch \<noteq> CHR 0x00) (itoa k @ z) = dropWhile (\<lambda>ch. ch \<noteq> CHR '';'' \<and> ch \<noteq> CHR 0x00) z" for z
    by (rule dropWhile_append2) (use itoa_chars in auto)
  then have "dropWhile (\<lambda>ch. ch \<noteq> CHR '';'' \<and> ch \<noteq> CHR 0x00) ?b = '';>V'' @ itoa v @ [CHR 0x0A]"
    using assms(1) LorS_letters [of "int k"] by (auto simp: d)
  then have m: "multithrottle_main prg w roster c a ?b s = locoAction prg w c a (CHR ''V'' # itoa v @ [CHR 0x0A]) t (int k) s"
    using assms(2) unfolding multithrottle_main_def Let_def r i by (simp add: rd_def)
  show ?thesis unfolding wit_command_def Let_def r multithrottle_def using m by simp
qed

text \<open>One entry of the client that drives.\<close>

definition drive_entry :: "program \<Rightarrow> world \<Rightarrow> addr \<Rightarrow> char \<Rightarrow> int \<Rightarrow> int \<Rightarrow> nat \<Rightarrow> wit \<Rightarrow> wit" where
  "drive_entry prg w a t k v i s =
    (if matches t k (my_loco a i s) then
       (let s = set_client a (\<lambda>x. x\<lparr>mostRecentCab := word_of_int (my_cab (my_loco a i s))\<rparr>) s; k = my_cab (my_loco a i s)
        in wit_throttle prg w k v (getThrottleDirection k (dcc_now s)) s)
     else s)"

lemma drive_action:
  "locoAction prg w c a (CHR ''V'' # itoa v @ [CHR 0x0A]) t k s = fold (drive_entry prg w a t k (WiTToDCCSpeed (int v))) [0..<MAX_MY_LOCO] s"
proof -
  have "getInt (itoa v @ [CHR 0x0A]) = int v" by (rule getInt_itoa) simp
  then have v: "getInt (drop 1 (CHR ''V'' # itoa v @ [CHR 0x0A])) = int v" by simp
  show ?thesis unfolding locoAction_def looplocos_def drive_entry_def [abs_def] Let_def v by (simp add: rd_def)
qed

lemma speed_reached:
  assumes "leads l b d" "l \<noteq> 0"
  shows "leads l b (snd (setThrottle now l v dir d))" "getThrottleSpeed (uint l) (snd (setThrottle now l v dir d)) = uint (v AND 0x7F)"
proof -
  have a: "at_slot l b d" "\<not> isConsistFollower (slot d b)" using assms(1) by (simp_all add: leads_def)
  have g: "get_slot (uint l) True d = (Some b, d)" using a(1) assms(2) by (simp add: at_slot_def get_slot_def getSlot_found)
  have "fst (setThrottle now l v dir d)" using assms(2) a(2) unfolding setThrottle_def Let_def g by simp
  then have r: "setThrottle now l v dir d = (True, snd (setThrottle now l v dir d))" by (metis prod.collapse)
  show "getThrottleSpeed (uint l) (snd (setThrottle now l v dir d)) = uint (v AND 0x7F)"
    using throttle_roundtrip [OF _ assms(2) r] a by (simp add: at_slot_def)
  show "leads l b (snd (setThrottle now l v dir d))" using nf.setThrottle_kept [OF assms(1)] .
qed

lemma drive_fold:
  assumes "entries (objects s a) = es" "\<forall>i \<in> set is. i < length es" "leads l b (dcc_now s)" "l \<noteq> 0"
    and "getThrottleSpeed (uint l) (dcc_now s) = uint ((word_of_int v :: byte) AND 0x7F) \<or> (\<exists>i \<in> set is. fst (es ! i) = t \<and> snd (es ! i) = uint l)"
  shows "getThrottleSpeed (uint l) (dcc_now (fold (drive_entry prg w a t (uint l) v) is s)) = uint ((word_of_int v :: byte) AND 0x7F)"
  using assms(1,2,3,5)
proof (induction "is" arbitrary: s)
  case (Cons i "is")
  let ?s = "drive_entry prg w a t (uint l) v i s" and ?r = "uint ((word_of_int v :: byte) AND 0x7F)"
  have i: "i < length es" using Cons.prems(2) by simp
  note e = entry [OF Cons.prems(1) i]
  have n: "\<not> uint l < 0" by simp
  have k: "entries (x\<lparr>mostRecentCab := u\<rparr>) = entries x" "myLocos (x\<lparr>mostRecentCab := u\<rparr>) = myLocos x" for x u by (simp_all add: entries_def)
  have es: "entries (objects ?s a) = es"
    using Cons.prems(1) by (simp add: drive_entry_def Let_def call_entries set_client_def k)
  have now: "dcc_now ?s = (if matches t (uint l) (my_loco a i s)
      then snd (setThrottle (millis w) l (word_of_int v) (getThrottleDirection (uint l) (dcc_now s)) (dcc_now s)) else dcc_now s)"
    by (auto simp: drive_entry_def Let_def throttle_now set_client_def my_loco_def matches_def)
  have l: "leads l b (dcc_now ?s)" using speed_reached(1) [OF Cons.prems(3) assms(4)] Cons.prems(3) by (simp add: now)
  have "getThrottleSpeed (uint l) (dcc_now ?s) = ?r" if "matches t (uint l) (my_loco a i s)"
    using that speed_reached(2) [OF Cons.prems(3) assms(4)] by (simp add: now)
  moreover have "matches t (uint l) (my_loco a i s)" if "fst (es ! i) = t" "snd (es ! i) = uint l" using that e by (simp add: matches_def)
  ultimately have "getThrottleSpeed (uint l) (dcc_now ?s) = ?r \<or> (\<exists>i \<in> set is. fst (es ! i) = t \<and> snd (es ! i) = uint l)"
    using Cons.prems(4) by (cases "matches t (uint l) (my_loco a i s)") (auto simp: now)
  then show ?case using Cons.IH [OF es _ l] Cons.prems(2) by simp
qed simp

lemma drive_line: "t \<notin> {CHR 0x00, CHR 0x0A, CHR 0x0D, CHR '';''} \<Longrightarrow> skip_line (drive_text t k v @ [CHR 0x0A]) = []"
proof -
  assume t: "t \<notin> {CHR 0x00, CHR 0x0A, CHR 0x0D, CHR '';''}"
  let ?P = "\<lambda>ch. ch \<noteq> CHR 0x00 \<and> ch \<noteq> CHR 0x0D \<and> ch \<noteq> CHR 0x0A"
  have "?P ch" if "ch \<in> set (drive_text t k v)" for ch
    using that t LorS_letters [of "int k"] itoa_chars [of ch k] itoa_chars [of ch v] by (auto simp: drive_text_def)
  then have "dropWhile ?P (drive_text t k v @ [CHR 0x0A]) = dropWhile ?P [CHR 0x0A]" by (rule dropWhile_append2)
  then show ?thesis by (simp add: skip_line_def)
qed

lemma greeting_same:
  "dcc_now (send_metadata c a (set_client a (\<lambda>t. t\<lparr>heartBeat := u\<rparr>) s)) = dcc_now s"
  "entries (objects (send_metadata c a (set_client a (\<lambda>t. t\<lparr>heartBeat := u\<rparr>) s)) a) = entries (objects s a)"
  "clients (send_metadata c a (set_client a (\<lambda>t. t\<lparr>heartBeat := u\<rparr>) s)) = clients s"
  by (simp_all add: send_metadata_def set_client_def send_to_def entries_def Let_def)

lemma client_found:
  assumes "wit_inv s" "a \<in> set (clients s)" "clientid (objects s a) = c"
  shows "find (\<lambda>a. clientid (objects s a) = c) (clients s) = Some a"
proof -
  obtain n where n: "n < length (clients s)" "clients s ! n = a" using assms(2) by (auto simp: in_set_conv_nth)
  have "clientid (objects s (clients s ! j)) \<noteq> c" if "j < n" for j
    using assms(1,3) that n by (auto simp: wit_inv_def distinct_conv_nth)
  then show ?thesis unfolding find_Some_iff using n assms(3) by (intro exI [of _ n]) simp
qed

text \<open>
  C11: a phone drives its loco. When a client sends the line for speed \<open>v\<close> (0 to 126) of the loco \<open>k\<close> (1 to 10239) that it
  holds on throttle \<open>t\<close>, and this loco has a slot in the station and does not follow another one in a consist (the
  station ignores throttle commands to followers), then the station's speed for this loco is the speed asked
  for, 0 for 0 and one more than \<open>v\<close> otherwise, as speed 1 is the emergency stop. The letter of the
  throttle is none of the characters that end a line or a command.
\<close>

theorem phone_drives:
  fixes g prg w roster
  assumes "wit_reach s" "a \<in> set (clients s)" "clientid (objects s a) = uint c" "dcc_inv (dcc_now s)"
    and "i < MAX_MY_LOCO" "throttle_char (my_loco a i s) = t" "my_cab (my_loco a i s) = int k"
    and "t \<notin> {CHR 0x00, CHR 0x0A, CHR 0x0D, CHR '';''}" "0 < k" "k \<le> 10239" "v \<le> 126"
    and "find_slot (of_nat k) (dslots (dcc_now s)) = Some b" "\<not> isConsistFollower (slot (dcc_now s) b)"
  shows "getThrottleSpeed (int k) (dcc_now (receive g prg w roster c (drive_text t k v @ [CHR 0x0A]) s)) = (if v = 0 then 0 else int v + 1)"
proof -
  let ?l = "of_nat k :: u16" and ?v = "WiTToDCCSpeed (int v)" and ?buf = "drive_text t k v @ [CHR 0x0A]"
  let ?s = "send_metadata (uint c) a (set_client a (\<lambda>t. t\<lparr>heartBeat := millis w\<rparr>) s)" and ?es = "entries (objects s a)"
  have inv: "wit_inv s" by (rule wit_reach_inv [OF assms(1)])
  have l: "uint ?l = int k" "?l \<noteq> 0" using assms(9,10) by (simp_all add: unsigned_of_nat take_bit_nat_eq_self word_of_nat_eq_0_iff nat_dvd_not_less)
  from client_found [OF inv assms(2,3)] have r: "receive g prg w roster c ?buf s = parse_lines prg w roster (uint c) a ?buf ?s"
    by (simp add: receive_def getThrottle_def wit_parse_def)
  have "rd ?buf 0 = CHR ''M''" by (simp add: drive_text_def rd_def)
  then have "parse_lines prg w roster (uint c) a ?buf ?s = wit_command prg w roster (uint c) a ?buf ?s"
    using assms(2) by (subst parse_lines.simps) (simp add: greeting_same drive_line [OF assms(8)] parse_lines.simps [of _ _ _ _ _ "[]"] rd_def)
  then have p: "receive g prg w roster c ?buf s = fold (drive_entry prg w a t (uint ?l) ?v) [0..<MAX_MY_LOCO] ?s"
    using r l(1) by (simp add: drive_command [OF assms(8,10)] drive_action)
  have len: "length ?es = MAX_MY_LOCO" using inv assms(2) by (simp add: entries_def wit_inv_def client_ok_def)
  have "getThrottleSpeed (uint ?l) (dcc_now (receive g prg w roster c ?buf s)) = uint ((word_of_int ?v :: byte) AND 0x7F)"
    unfolding p
  proof (rule drive_fold [OF greeting_same(2)])
    show "\<forall>i \<in> set [0..<MAX_MY_LOCO]. i < length ?es" by (simp only: len) simp
    show "leads ?l b (dcc_now ?s)" using assms(4,12,13) by (simp add: greeting_same leads_def at_slot_def)
    have "i \<in> set [0..<MAX_MY_LOCO]" "fst (?es ! i) = t \<and> snd (?es ! i) = uint ?l"
      using assms(5,6,7) len l(1) by (simp_all add: entries_def my_loco_def)
    then show "getThrottleSpeed (uint ?l) (dcc_now ?s) = uint ((word_of_int ?v :: byte) AND 0x7F) \<or>
      (\<exists>i \<in> set [0..<MAX_MY_LOCO]. fst (?es ! i) = t \<and> snd (?es ! i) = uint ?l)" by blast
  qed (rule l(2))
  moreover have "uint ((word_of_int ?v :: byte) AND 0x7F) = (if v = 0 then 0 else int v + 1)"
    using assms(11) by (simp add: WiTToDCCSpeed_def and_7F uint_word_of_int)
  ultimately show ?thesis by (simp add: l(1))
qed

section \<open>Deleted clients\<close>

lemma send_loco_hearts: "timed_out w x (send_loco a i s) = timed_out w x s" "clients (send_loco a i s) = clients s" "freed (send_loco a i s) = freed s"
  by (simp_all add: send_loco_def Let_def fold_send timed_out_def send_to_def set_loco_def set_client_def)

lemma check_hearts:
  assumes "\<not> timed_out w a s"
  shows "timed_out w x (checkHeartbeat prg w a s) = timed_out w x s" "clients (checkHeartbeat prg w a s) = clients s"
proof -
  have "timed_out w x (fold (send_loco a) is s) = timed_out w x s" "clients (fold (send_loco a) is s) = clients s" for "is" s
    by (induction "is" arbitrary: s) (simp_all add: send_loco_hearts)
  moreover have "checkHeartbeat prg w a s = fold (send_loco a) [0..<MAX_MY_LOCO] s"
    using assms unfolding checkHeartbeat_def by (simp only: all_match if_False)
  ultimately show "timed_out w x (checkHeartbeat prg w a s) = timed_out w x s" "clients (checkHeartbeat prg w a s) = clients s" by simp_all
qed

lemma loop_freed:
  assumes "wit_inv s" "set as \<subseteq> set (clients s)" "\<exists>a \<in> set as. timed_out w a s"
  shows "freed (loop_clients prg w as s)"
  using assms
proof (induction as arbitrary: s)
  case (Cons a as)
  let ?s = "checkHeartbeat prg w a s"
  note ok = heartbeat_ok [OF wit_ok_self [OF Cons.prems(1)], of w a prg]
  show ?case
  proof (cases "timed_out w a s")
    case True
    then have "a \<notin> set (clients ?s)" using ok Cons.prems(1) by (auto simp: wit_ok_def wit_inv_def)
    then show ?thesis by (simp add: Let_def)
  next
    case False
    note h = check_hearts [OF False, where prg = prg]
    have "freed (loop_clients prg w as ?s)"
      by (rule Cons.IH) (use ok False Cons.prems in \<open>auto simp: wit_ok_def h\<close>)
    moreover have "a \<in> set (clients ?s)" using Cons.prems(2) by (simp add: h)
    ultimately show ?thesis by (simp add: Let_def)
  qed
qed simp

text \<open>
  C13: dropping a silent client breaks the loop. \<^verbatim>\<open>checkHeartbeat\<close> deletes the client, after which \<^verbatim>\<open>loop\<close> reads its
  \<^verbatim>\<open>nextThrottle\<close>: whenever a client times out, the loop works on memory that was given back.
\<close>

theorem timeout_reads_freed:
  assumes "wit_reach s" "a \<in> set (clients s)" "timed_out w a s"
  shows "freed (wit_loop prg w s)"
  unfolding wit_loop_def by (rule loop_freed) (use wit_reach_inv [OF assms(1)] assms(2,3) in auto)

section \<open>Examples\<close>

definition demo_memory :: garbage_memory where
  "demo_memory = \<lparr>loco_memory = (\<lambda>_. \<lparr>throttle_char = CHR ''x'', my_cab = 77, broadcastPending = True, functionMap_sent = 1, functionToggles = 9\<rparr>),
     heart_memory = 5\<rparr>"

definition demo_rest :: "dcc \<Rightarrow> exrail" where
  "demo_rest d = new_exrail (on_station (on_dcc (\<lambda>_. d)) demo_yard) 0"

definition demo_wit :: wit where
  "demo_wit = \<lparr>objects = (\<lambda>_. new_client demo_memory 0), clients = [], next_object = 0, stashInstance = None, stashClient = 0,
     stashThrottleChar = CHR 0x00, freed = False, rest_of = demo_rest demo, sent = []\<rparr>"

text \<open>A phone connects, turns the heartbeat on and takes loco 3.\<close>

definition demo_first :: wit where
  "demo_first = receive demo_memory (demo_program [] 0) demo_world (\<lambda>_. Some []) 5 (''*+'' @ [CHR 0x0A]) demo_wit"

definition demo_second :: wit where
  "demo_second = receive demo_memory (demo_program [] 0) demo_world (\<lambda>_. Some []) 5 (''M0+S3<;>'' @ [CHR 0x0A]) demo_first"

lemma demo_rest_dcc: "dcc_of (demo_rest d) = d"
  by (simp add: demo_rest_def dcc_of_def new_exrail_def on_station_def on_dcc_def)

lemma parse_end: "parse_lines prg w roster c a [] s = s"
  by (subst parse_lines.simps) (simp add: rd_def)

lemma one_line:
  assumes "rd buf 0 \<noteq> CHR 0x00" "skip_line buf = []" "a \<in> set (clients s)"
  shows "parse_lines prg w roster c a buf s = wit_command prg w roster c a buf s"
  using assms by (subst parse_lines.simps) (simp add: parse_end)

lemma demo_first_state:
  "demo_first = demo_wit\<lparr>objects := (objects demo_wit)(0 := (new_client demo_memory 5)\<lparr>heartBeat := 0, heartBeatEnable := True\<rparr>), clients := [0], next_object := 1\<rparr>"
proof -
  let ?b = "''*+'' @ [CHR 0x0A]"
  let ?s = "demo_wit\<lparr>objects := (objects demo_wit)(0 := (new_client demo_memory 5)\<lparr>heartBeat := 0\<rparr>), clients := [0], next_object := 1\<rparr>"
  have "demo_first = parse_lines (demo_program [] 0) demo_world (\<lambda>_. Some []) 5 0 ?b ?s"
    by (simp add: demo_first_def receive_def getThrottle_def wit_parse_def demo_wit_def send_metadata_def set_client_def new_client_def demo_world_def Let_def)
  also have "\<dots> = wit_command (demo_program [] 0) demo_world (\<lambda>_. Some []) 5 0 ?b ?s"
    by (rule one_line) (simp_all add: rd_def skip_line_def)
  also have "\<dots> = set_client 0 (\<lambda>t. t\<lparr>heartBeatEnable := True\<rparr>) ?s" by (simp add: wit_command_def rd_def)
  finally show ?thesis by (simp add: set_client_def demo_wit_def)
qed

lemma slot_call:
  "wit_dcc prg w (\<lambda>d. snd (get_slot k c d)) s =
    s\<lparr>rest_of := (rest_of s)\<lparr>yard_of := on_station (on_dcc (\<lambda>d. snd (get_slot k c d))) (yard_of (rest_of s))\<rparr>\<rparr>"
proof -
  have "devents (snd (get_slot k c d)) = devents d" for d by (simp add: get_slot_def split: prod.split)
  then show ?thesis
    by (simp add: wit_dcc_def wit_call_def call_def Let_def dcc_of_def board_of_def on_station_def on_dcc_def)
qed

lemma demo_found: "get_slot 3 True demo = (Some 0, demo)"
  using two_locos_facts(2) getSlot_found [of 3 "dslots demo" 0 True] by (simp add: get_slot_def demo_slots demo_inv)

lemma demo_second_state:
  "\<exists>es x. demo_second = demo_first\<lparr>rest_of := x, objects := (objects demo_first)(0 := (objects demo_first 0)\<lparr>mostRecentCab := 3,
      myLocos := (myLocos (objects demo_first 0))[0 := \<lparr>throttle_char = CHR ''0'', my_cab = 3, broadcastPending = True,
        functionMap_sent = getFunctionMap 3 demo, functionToggles = 4\<rparr>]\<rparr>), sent := es\<rparr>"
proof -
  let ?b = "''M0+S3<;>'' @ [CHR 0x0A]" and ?p = "demo_program [] 0" and ?r = "\<lambda>_ :: int. Some ([] :: string)"
  have c: "clients demo_first = [0]" "clientid (objects demo_first 0) = 5" "\<not> introSent (objects demo_first 0)" "heartBeat (objects demo_first 0) = 0"
    "map throttle_char (myLocos (objects demo_first 0)) = replicate 10 (CHR 0x00)"
    by (simp_all add: demo_first_state demo_wit_def new_client_def upt_conv_Cons numeral_eq_Suc)
  have n: "throttle_char (myLocos (objects demo_first 0) ! 0) = CHR 0x00" "0 < length (myLocos (objects demo_first 0))"
    using c(5) by (auto dest: map_eq_imp_length_eq simp: demo_first_state demo_wit_def new_client_def)
  have h: "set_client 0 (\<lambda>t. t\<lparr>heartBeat := 0\<rparr>) demo_first = demo_first"
    by (simp add: set_client_def demo_first_state demo_wit_def new_client_def)
  have "demo_second = parse_lines ?p demo_world ?r 5 0 ?b demo_first"
    using c h by (simp add: demo_second_def receive_def getThrottle_def wit_parse_def send_metadata_def demo_world_def)
  also have "\<dots> = wit_command ?p demo_world ?r 5 0 ?b demo_first" by (rule one_line) (simp_all add: rd_def skip_line_def c)
  also have "\<dots> = multithrottle_main ?p demo_world ?r 5 0 ?b demo_first" by (simp add: wit_command_def multithrottle_def rd_def)
  also have "\<dots> = add_loco ?p demo_world ?r 5 0 (CHR ''0'') (CHR ''S'') 3 demo_first"
    by (simp add: multithrottle_main_def rd_def wit_getLocoId_def getInt_def Let_def)
  finally have a: "demo_second = add_loco ?p demo_world ?r 5 0 (CHR ''0'') (CHR ''S'') 3 demo_first" .
  have d: "dcc_now demo_first = demo" by (simp add: demo_first_state demo_wit_def demo_rest_dcc)
  let ?s = "wit_dcc ?p demo_world (\<lambda>d. snd (get_slot 3 True d)) demo_first"
  have o: "objects ?s = objects demo_first" by (simp add: slot_call)
  have e: "dcc_now ?s = demo" by (simp add: wit_dcc_now d demo_found)
  have f: "find (\<lambda>i. throttle_char (my_loco 0 i ?s) = CHR 0x00) [0..<MAX_MY_LOCO] = Some 0"
    using n by (simp add: upt_conv_Cons my_loco_def o)
  have full: "l\<lparr>throttle_char := t, my_cab := k, functionMap_sent := m, broadcastPending := b, functionToggles := u\<rparr> =
      \<lparr>throttle_char = t, my_cab = k, broadcastPending = b, functionMap_sent = m, functionToggles = u\<rparr>" for l :: MYLOCO and t k b m u
    by simp
  show ?thesis using n
    unfolding a add_loco_def Let_def d demo_found e f
    by (simp add: LorS_def HIGHEST_SHORT_ADDR_def sendFunctions_def set_loco_def set_client_def send_to_def my_loco_def slot_call full)
      (intro exI, rule refl)
qed

text \<open>The phone, when the rest of the station has come to the state \<open>d\<close> of the DCC layer.\<close>

definition demo_phone :: "dcc \<Rightarrow> wit" where
  "demo_phone d = demo_second\<lparr>rest_of := demo_rest d\<rparr>"

lemma demo_phone_state:
  "clients (demo_phone d) = [0]" "clientid (objects (demo_phone d) 0) = 5" "throttle_char (my_loco 0 0 (demo_phone d)) = CHR ''0''"
  "my_cab (my_loco 0 0 (demo_phone d)) = 3" "heartBeatEnable (objects (demo_phone d) 0)" "heartBeat (objects (demo_phone d) 0) = 0"
  "broadcastPending (my_loco 0 0 (demo_phone d))" "functionMap_sent (my_loco 0 0 (demo_phone d)) = getFunctionMap 3 demo"
  "dcc_now (demo_phone d) = d" "\<not> freed demo_second"
proof -
  let ?l = "\<lparr>throttle_char = CHR ''0'', my_cab = 3, broadcastPending = True, functionMap_sent = getFunctionMap 3 demo, functionToggles = 4\<rparr>"
  obtain es x where e: "demo_second = demo_first\<lparr>rest_of := x, objects := (objects demo_first)(0 := (objects demo_first 0)\<lparr>mostRecentCab := 3,
      myLocos := (myLocos (objects demo_first 0))[0 := ?l]\<rparr>), sent := es\<rparr>"
    using demo_second_state by blast
  have f: "clients demo_first = [0]" "clientid (objects demo_first 0) = 5" "heartBeatEnable (objects demo_first 0)"
    "heartBeat (objects demo_first 0) = 0" "0 < length (myLocos (objects demo_first 0))" "\<not> freed demo_first"
    by (simp_all add: demo_first_state demo_wit_def new_client_def)
  show "clients (demo_phone d) = [0]" "clientid (objects (demo_phone d) 0) = 5" "throttle_char (my_loco 0 0 (demo_phone d)) = CHR ''0''"
    "my_cab (my_loco 0 0 (demo_phone d)) = 3" "heartBeatEnable (objects (demo_phone d) 0)" "heartBeat (objects (demo_phone d) 0) = 0"
    "broadcastPending (my_loco 0 0 (demo_phone d))" "functionMap_sent (my_loco 0 0 (demo_phone d)) = getFunctionMap 3 demo"
    "dcc_now (demo_phone d) = d" "\<not> freed demo_second"
    unfolding demo_phone_def e using f by (simp_all add: my_loco_def demo_rest_dcc)
qed

lemma demo_phone_reach: "wit_reach (demo_phone d)"
proof -
  have "wit_reach demo_wit" "\<not> freed demo_wit" by (simp_all add: wit_reach.none demo_wit_def)
  then have "wit_reach demo_first" unfolding demo_first_def by (rule wit_reach.received)
  moreover have "\<not> freed demo_first" by (simp add: demo_first_state demo_wit_def)
  ultimately have "wit_reach demo_second" unfolding demo_second_def by (rule wit_reach.received)
  then show ?thesis unfolding demo_phone_def by (rule wit_reach.station) (rule demo_phone_state(10))
qed

theorem withrottle_wf_witness: "length (myLocos (objects (demo_phone demo) 0)) = 10"
  using withrottle_wf [OF demo_phone_reach, of 0 demo] demo_phone_state(1) by simp

abbreviation late_world :: world where "late_world \<equiv> demo_world\<lparr>millis := 30000\<rparr>"

lemma demo_late: "timed_out late_world 0 (demo_phone d)" "\<not> timed_out demo_world 0 (demo_phone d)"
  using demo_phone_state(5,6) by (simp_all add: timed_out_def demo_world_def)

lemma demo_loco: "find_slot 3 (dslots demo) = Some 0" "\<not> isConsistFollower (slot demo 0)"
proof -
  show "find_slot 3 (dslots demo) = Some 0" using two_locos_facts(2) by (simp add: demo_slots)
  show "\<not> isConsistFollower (slot demo 0)" by code_simp
qed

theorem heartbeat_stops_witness:
  "\<forall>prg. getThrottleSpeed 3 (dcc_now (checkHeartbeat prg late_world 0 (demo_phone demo))) = 1"
  using heartbeat_stops [OF demo_phone_reach _ demo_late(1), of demo 0 0] demo_phone_state demo_inv demo_loco by simp

theorem phone_drives_witness:
  "\<forall>prg. getThrottleSpeed 3 (dcc_now (receive demo_memory prg demo_world (\<lambda>_. None) 5 (drive_text (CHR ''0'') 3 50 @ [CHR 0x0A]) (demo_phone demo))) = 51"
  using phone_drives [OF demo_phone_reach, of 0 demo 5 0 "CHR ''0''" 3 50 0 demo_memory _ demo_world "\<lambda>_. None"]
    demo_phone_state demo_inv demo_loco by simp

theorem functions_in_sync_witness:
  "\<forall>prg. fold (heard 5 (CHR ''0'') 3) (drop (length (sent (demo_phone (snd (setFn 3 2 True demo)))))
      (sent (checkHeartbeat prg demo_world 0 (demo_phone (snd (setFn 3 2 True demo)))))) (bit (getFunctionMap 3 demo)) =
    bit (getFunctionMap 3 (snd (setFn 3 2 True demo)))"
  using functions_in_sync [OF demo_phone_reach _ demo_late(2), of "snd (setFn 3 2 True demo)" 0] demo_phone_state by simp

theorem timeout_reads_freed_witness: "\<forall>prg. freed (wit_loop prg late_world (demo_phone demo))"
  using timeout_reads_freed [OF demo_phone_reach _ demo_late(1)] demo_phone_state(1) by simp

end
