(* ===== verification/Spec2Isabelle.thy ===== *)
theory Spec2Isabelle
  imports AckProps AckRuns CommandProps RingStream ExrailFaults ShortCircuit WiThrottleProps
begin

text \<open>
  \<^bold>\<open>A verification of the DCC-EX command station\<close>

  CommandStation-EX is the firmware of a command station for model railways. Clients send commands as text;
  the station keeps the state of locos, turnouts, sensors and turntables, turns it into DCC packets,
  and modulates these onto the rails from a timer interrupt. A second output programs decoders, a track
  manager switches the power stages and cuts short circuits off, a sniffer listens to another station, and the EXRAIL
  interpreter runs the user's automation. This development translates these parts of \<^verbatim>\<open>src/\<close> into functions on
  explicit states and proves what makes them correct.

  \<^bold>\<open>How the parts interact\<close>

  A command (\<^verbatim>\<open>DCCEXParser.cpp\<close>) calls the DCC layer (\<^verbatim>\<open>DCC.cpp\<close>), which changes the loco table
  (\<^verbatim>\<open>LocoSlot.cpp\<close>, \<^verbatim>\<open>DCCConsist.cpp\<close>) and puts packets in queues (\<^verbatim>\<open>DCCQueue.cpp\<close>). The main loop moves the most
  urgent packet to the waveform generator (\<^verbatim>\<open>DCCWaveform.cpp\<close>) whenever that is ready; if there is none it repeats the state of a
  loco. A programming command starts a program of the acknowledgement machine (\<^verbatim>\<open>DCCACK.cpp\<close>), which sends packets on the programming track and
  watches its current. Turnouts, sensors and outputs (\<^verbatim>\<open>Turnouts.cpp\<close>, \<^verbatim>\<open>Sensors.cpp\<close>, \<^verbatim>\<open>Outputs.cpp\<close>) are kept in
  the EEPROM (\<^verbatim>\<open>EEStore.cpp\<close>). EXRAIL (\<^verbatim>\<open>EXRAIL2.cpp\<close>) calls the same DCC layer, turnouts, turntables
  (\<^verbatim>\<open>Turntables.cpp\<close>) and stash (\<^verbatim>\<open>Stash.cpp\<close>), and is told of their changes. The track manager (\<^verbatim>\<open>TrackManager.cpp\<close>,
  \<^verbatim>\<open>MotorDriver.cpp\<close>) hands the waveform's signal to the tracks and looks after one of them each turn of the main loop.

  \<^bold>\<open>The theories and what they model\<close>

  \<^item> \<open>Prelude\<close>: machine integers, Arduino's byte macros, C's division and copying, linked lists on a heap; \<open>WordFacts\<close>:
    further facts on words.
  \<^item> \<open>Waveform\<close>: \<^verbatim>\<open>DCCWaveform\<close>. The record \<open>track\<close> is one generator, \<open>interrupt2\<close> its step for a bit. A pending packet is
    taken over within one transmission and appears on the rails as preamble, start bits and its bytes;
    the counters stay within their bytes.
  \<^item> \<open>PacketQueue\<close>: \<^verbatim>\<open>DCCQueue\<close> with its slots as objects of a heap. No slot is lost or shared; the calls refine operations on
    lists (locale \<open>slot_queue\<close>); an emergency stop goes next, ahead of exactly those entries that it leaves in the queue; one loco
    never gets two packets in a row.
  \<^item> \<open>LocoSlots\<close>, \<open>Consist\<close>: \<^verbatim>\<open>LocoSlot\<close> and \<^verbatim>\<open>DCCConsist\<close>. The table of slots implements a finite map (locale
    \<open>loco_map\<close>); the consist command builds the consist it is told and keeps the chains well formed.
  \<^item> \<open>DccApi\<close>, \<open>DccInvariant\<close>, \<open>DccProps\<close>: \<^verbatim>\<open>DCC.cpp\<close>, its invariant (locale \<open>call_invariant\<close>, which each invariant
    of the layer interprets), and what throttles, functions, momentum, reminders, \<^verbatim>\<open>forgetLoco\<close> and the emergency stop lock achieve.
  \<^item> \<open>AckManager\<close>, \<open>AckProgs\<close>, \<open>AckSession\<close>, \<open>AckProps\<close>, \<open>AckRuns\<close>: \<^verbatim>\<open>DCCACK\<close> and the programs of \<^verbatim>\<open>DCC.cpp\<close>. The machine
    returns in every reachable state. In runs that interleave loop turns and timer interrupts (\<open>AckRuns\<close>) it refines a direct execution of
    its programs, retries, automatic power and rejoining included, and every wait ends; that a window closes as the decoder answers is the
    hypothesis. Against a decoder that keeps the service-mode rules CVs and addresses read back; these two theorems look at
    the machine between loop turns at which the packet is sent, at least 20 resets are out and the window is decided (\<open>settles\<close>),
    on a track that is on and not joined.
  \<^item> \<open>Layout\<close>, \<open>Turnouts\<close>, \<open>Sensors\<close>, \<open>Outputs\<close>, \<open>EEStore\<close>: the layout and its EEPROM image. Each class keeps the contract
    \<open>stored_class\<close>; a store followed by a restart brings the layout back, except for what the records do not hold (LCN turnouts are
    excluded, DCC turnouts come back thrown, \<open>hidden\<close> is lost), and moves after that restart survive the next one; the polling loop visits the
    sensors in turn and debounces each as if it were alone.
  \<^item> \<open>CommandSyntax\<close>, \<open>Commands\<close>, \<open>CommandProps\<close>: \<^verbatim>\<open>DCCEXParser\<close>. Parameters and keywords are split as
    written; the commands of the model keep the invariants of DCC layer, programming track and layout, and without quoted text and with
    free loco slots they stay within their buffers; a malformed write command
    is refused in a way that blocks later ones, which is a fault of the code.
  \<^item> \<open>Sniffer\<close>, \<open>Decoder\<close>: \<^verbatim>\<open>Sniffer.cpp\<close> and \<^verbatim>\<open>DCCDecoder.cpp\<close>. What the waveform generator of one station sends is heard by the other's
    sniffer bit for bit, an accessory command is executed there as it was given, and a speed packet sets the speed it carries.
  \<^item> \<open>Stash\<close> (locale \<open>stash_laws\<close>) and \<open>RingStream\<close>: a map of parked locos, and the ring buffer through
    which replies reach network clients unchanged.
  \<^item> \<open>Turntables\<close>: \<^verbatim>\<open>Turntables.cpp\<close> and the command \<^verbatim>\<open><I>\<close>.
  \<^item> \<open>ExrailCode\<close>, \<open>Exrail\<close>, \<open>ExrailLoop\<close>, \<open>ExrailCommands\<close>: the compiled program and its lookup lists, tasks,
    events, signals and sensors, every instruction of \<^verbatim>\<open>RMFT2::loop2\<close>, and the start and commands.
    \<open>ExrailProps\<close>, \<open>ExrailBlocks\<close>, \<open>ExrailFaults\<close>: the ring of tasks stays sound and program counters stay within the program;
    skipping a block lands on its ELSE or ENDIF; no two tasks hold one block; and where a loop does not return.
  \<^item> \<open>Motors\<close>, \<open>Tracks\<close>: \<^verbatim>\<open>MotorDriver\<close> and \<^verbatim>\<open>TrackManager\<close> with the commands \<^verbatim>\<open><1>\<close>, \<^verbatim>\<open><0>\<close> and \<^verbatim>\<open><=>\<close>.
    \<open>TrackProps\<close>, \<open>ShortCircuit\<close>: power pins follow the power states and there is one programming track; an unassigned track is off unless the
    programming sequence switches a track that has left programming mode, which the code does not check; a short circuit is
    cut off in time, retried with growing pauses, and power comes back when it is gone.
  \<^item> \<open>WiThrottle\<close>, \<open>WiThrottleProps\<close>: \<^verbatim>\<open>WiThrottle.cpp\<close>, phones that drive locos over the network. The text of a phone sets the speed it names;
    the messages it gets keep its functions in step with the station; a phone that falls silent has its locos stopped; and where the code
    goes on with a client it has deleted.

  \<^bold>\<open>Conventions\<close>

  A C++ class is a record, its static members one record of state; objects that the code links by pointers
  are a heap with addresses (queues, loco table) or, where only the order of the links matters, a list in that order (turnouts, stash, the ring of tasks).
  Integers have the width the code gives them; where \<^verbatim>\<open>int\<close> depends on the processor the AVR boards' 16 bits are written out, except that
  \<^verbatim>\<open>WiThrottle::getInt\<close> and \<^verbatim>\<open>RingStream::count\<close> keep the number that the digits or bytes stand for. A null
  pointer that is followed, a read outside an array or a program run past its end is the value \<open>None\<close> (or \<open>Fault\<close>) of the
  function; the theorems show where it cannot occur. Writes to pins and timers and calls into parts that are not modelled
  are recorded in order as outputs. Time, analogue readings, pins, flash memory, devices and the decoder on the track are arguments.
  Interrupts and main loop are interleaved as steps of the inductive relations (\<open>tracks_reach\<close> and its like), between calls of the main
  loop's functions; the code that shares variables with an interrupt runs with interrupts off.

  \<^bold>\<open>Bounds\<close>

  No function of the model uses fuel. Loops that end structurally or by a measure are total functions; the loops of \<^verbatim>\<open>RingStream::read\<close>
  and of \<^verbatim>\<open>killBlinkOnVpin\<close> may run forever and are partial functions to an option, with theorems that say when they return and, for
  the latter, when they do not. Hypotheses on elapsed time, such as 268 seconds between two power changes, are the
  bounds up to which the code's 32-bit differences mean what they say.

  \<^bold>\<open>Not modelled\<close>

  Device drivers, the I2C bus, timers, network and serial interfaces and displays: registers, vendor
  libraries and formatting. \<^verbatim>\<open>CommandDistributor\<close> formats and forwards text; what triggers it is an output of the
  models. The EXRAIL macros are preprocessor code that produces the program table, which is data here, as are the names of functions that WiThrottle clients are sent; \<^verbatim>\<open>printMessage\<close> is generated
  from the user's texts. Railcom decodes a receiver chip's data. The variants of the tracks for ESP32 and STM32 replace pin access by that
  processor's own. The handlers of diagnostic and display commands are a parameter of the command dispatch.
\<close>

end
